(* ===== verification/Prelude.thy ===== *)
theory Prelude
  imports Main "HOL-Library.Word"
begin

text \<open>
  Shared vocabulary of the xv6 labs development: names of the machine integers of the C
  sources, the result type in which a kernel panic or an invalid memory access is a value,
  sequencing of fallible steps, and the generic lemmas on words and lists that several
  components use.
\<close>

unbundle bit_operations_syntax

named_theorems page_simps \<open>geometry of pages: rounding, offsets, alignment\<close>
named_theorems mem_simps \<open>reading memory after a write, a fill or a copy\<close>
named_theorems pte_simps \<open>encoding and decoding of page table entries\<close>
named_theorems frame_intros \<open>what an operation leaves unchanged\<close>

section \<open>Machine integers\<close>

type_synonym u8 = "8 word"
type_synonym u16 = "16 word"
type_synonym u32 = "32 word"
type_synonym u64 = "64 word"

text \<open>
  The C type \<open>int\<close> is a 32-bit two's complement number: \<open>c_int\<close> is the value that a conversion
  of an arbitrary integer to \<open>int\<close> leaves (the truncation the RISC-V compiler performs).
\<close>

definition c_int :: "int \<Rightarrow> int" where
  "c_int x = sint (word_of_int x :: u32)"

lemma c_int_id: "- (2 ^ 31) \<le> x \<Longrightarrow> x < 2 ^ 31 \<Longrightarrow> c_int x = x"
  by (simp add: c_int_def int_word_sint)

lemma c_int_of_nat: "n < 2 ^ 31 \<Longrightarrow> c_int (int n) = int n"
  by (rule c_int_id) auto

section \<open>Results of kernel code\<close>

text \<open>
  \<open>Panic msg\<close> is a call of \<open>panic(msg)\<close>, which never returns. \<open>Fault\<close> is an access through a null or
  dangling pointer, which traps in the kernel. \<open>NoFuel\<close> is only produced by recursions through
  memory whose depth the model bounds; the lemmas about them show that it is never reached.
  \<open>Deadlock\<close> is a sleep lock that the caller itself holds already: it would wait for ever.
\<close>

datatype kerror = Panic string | Fault | NoFuel | Deadlock

type_synonym 'a res = "kerror + 'a"

definition bindR :: "'a res \<Rightarrow> ('a \<Rightarrow> 'b res) \<Rightarrow> 'b res" where
  "bindR r f = (case r of Inl e \<Rightarrow> Inl e | Inr x \<Rightarrow> f x)"

lemma bindR_simps [simp]:
  "bindR (Inl e) f = Inl e"
  "bindR (Inr x) f = f x"
  by (simp_all add: bindR_def)

lemma bindR_InrE:
  assumes "bindR r f = Inr y"
  obtains x where "r = Inr x" "f x = Inr y"
  using assms by (cases r) (auto simp: bindR_def)

lemma bindR_Inr_iff: "bindR r f = Inr y \<longleftrightarrow> (\<exists>x. r = Inr x \<and> f x = Inr y)"
  by (cases r) auto

lemma bindR_Inl_iff: "bindR r f = Inl e \<longleftrightarrow> r = Inl e \<or> (\<exists>x. r = Inr x \<and> f x = Inl e)"
  by (cases r) auto

lemma bindR_assoc: "bindR (bindR r f) g = bindR r (\<lambda>x. bindR (f x) g)"
  by (cases r) auto

lemma bindR_cong [fundef_cong]:
  "r = r' \<Longrightarrow> (\<And>x. r' = Inr x \<Longrightarrow> f x = g x) \<Longrightarrow> bindR r f = bindR r' g"
  by (cases r') auto

text \<open>A \<open>for\<close> loop whose body may panic.\<close>

primrec fold_res :: "('i \<Rightarrow> 's \<Rightarrow> 's res) \<Rightarrow> 'i list \<Rightarrow> 's \<Rightarrow> 's res" where
  "fold_res f [] s = Inr s"
| "fold_res f (x # xs) s = bindR (f x s) (fold_res f xs)"

lemma fold_res_append: "fold_res f (xs @ ys) s = bindR (fold_res f xs s) (fold_res f ys)"
  by (induction xs arbitrary: s) (auto simp: bindR_def split: sum.splits)

section \<open>Words\<close>

lemma unat_and_mask [page_simps]: "unat (w AND mask n) = unat w mod 2 ^ n"
  for w :: "'a::len word"
proof -
  have "unat (take_bit n w) = take_bit n (unat w)"
    by (simp add: unsigned_take_bit_eq)
  then show ?thesis
    by (simp only: take_bit_eq_mask [of n w] take_bit_eq_mod [of n "unat w"])
qed

lemma and_not_mask_eq: "w AND NOT (mask n) = w - (w AND mask n)"
  for w :: "'a::len word"
proof -
  have "(w AND NOT (mask n)) + (w AND mask n) = w"
  proof -
    have "(w AND NOT (mask n)) + (w AND mask n) = (w AND NOT (mask n)) OR (w AND mask n)"
      by (rule disjunctive_add) (auto simp: bit_simps)
    also have "\<dots> = w"
      by (rule bit_word_eqI) (auto simp: bit_simps)
    finally show ?thesis .
  qed
  then show ?thesis by (simp add: eq_diff_eq)
qed

lemma unat_and_not_mask [page_simps]: "unat (w AND NOT (mask n)) = unat w - unat w mod 2 ^ n"
  for w :: "'a::len word"
proof -
  have "w AND mask n \<le> w"
    by (simp add: word_le_nat_alt unat_and_mask)
  then show ?thesis
    by (simp add: and_not_mask_eq unat_sub unat_and_mask)
qed

lemma unat_bound: "unat w < 2 ^ LENGTH('a)" for w :: "'a::len word"
  by (rule unsigned_less)

lemma unat_u64_bound [simp]: "unat (w :: u64) < 18446744073709551616"
  using unat_bound [of w] by simp

lemma not_bit_above: "unat w < 2 ^ k \<Longrightarrow> k \<le> n \<Longrightarrow> \<not> bit w n"
  for w :: "'a::len word"
proof -
  assume "unat w < 2 ^ k" and "k \<le> n"
  then have "unat w < 2 ^ n"
    by (meson le_less_trans less_le_trans one_le_numeral power_increasing)
  then have "unat w div 2 ^ n = 0" by simp
  then have "\<not> bit (unat w) n" by (simp add: bit_iff_odd)
  then show ?thesis by (simp add: bit_simps)
qed

lemma unat_lt_numeral_iff: "w < numeral k \<longleftrightarrow> unat w < numeral k"
  if "unat (numeral k :: 'a::len word) = numeral k" for w :: "'a::len word"
  using that by (simp add: word_less_nat_alt)

lemma sint_ucast_of_nat:
  assumes "num < 2 ^ 31"
  shows "sint (ucast (of_nat num :: u64) :: u32) = int num"
proof -
  have "uint (ucast (of_nat num :: u64) :: u32) = int num"
    using assms by (simp add: unsigned_ucast_eq unsigned_of_nat take_bit_eq_mod of_nat_mod[symmetric] del: of_nat_mod)
  then show ?thesis using assms by (simp add: sint_uint signed_take_bit_int_eq_self)
qed

section \<open>Rounding on natural numbers\<close>

lemma round_up_ge: "k \<le> (k + 4095) div 4096 * (4096 :: nat)"
proof -
  have "(k + 4095) mod 4096 \<le> (4095 :: nat)"
    using mod_less_divisor [of 4096 "k + 4095"] by linarith
  moreover have "(k + 4095) div 4096 * 4096 + (k + 4095) mod 4096 = k + 4095"
    by (rule div_mult_mod_eq)
  ultimately show ?thesis by linarith
qed

lemma round_up_least: "k \<le> 4096 * q \<Longrightarrow> (k + 4095) div 4096 * 4096 \<le> 4096 * (q :: nat)"
proof -
  assume "k \<le> 4096 * q"
  then have "(k + 4095) div 4096 \<le> (4096 * q + 4095) div 4096" by (intro div_le_mono) simp
  also have "\<dots> = q" by simp
  finally show ?thesis by simp
qed

end
