(* ===== verification/Riscv.thy ===== *)
theory Riscv
  imports Prelude
begin

text \<open>
  The constants and macros of \<open>riscv.h\<close> and \<open>memlayout.h\<close> that the memory management code uses: page
  size and rounding, the bits and fields of a page table entry, the three 9-bit indices of
  an Sv39 virtual address, and the physical memory map. The lemmas give the geometry of
  pages (an address splits into a page and an offset below 4096) and the round trip between
  a physical page address and its page table entry.
\<close>

section \<open>Pages\<close>

definition PGSIZE :: u64 where "PGSIZE = 4096"
definition PGSHIFT :: nat where "PGSHIFT = 12"

definition PGROUNDDOWN :: "u64 \<Rightarrow> u64" where
  "PGROUNDDOWN a = a AND NOT (PGSIZE - 1)"

definition PGROUNDUP :: "u64 \<Rightarrow> u64" where
  "PGROUNDUP sz = (sz + PGSIZE - 1) AND NOT (PGSIZE - 1)"

definition page_aligned :: "u64 \<Rightarrow> bool" where
  "page_aligned a \<longleftrightarrow> a mod PGSIZE = 0"

lemma PGSIZE_minus_1: "PGSIZE - 1 = mask 12"
  by (simp add: PGSIZE_def mask_eq_exp_minus_1)

lemma unat_PGSIZE [simp]: "unat PGSIZE = 4096"
  by (simp add: PGSIZE_def)

lemma PGSIZE_neq_0 [simp]: "PGSIZE \<noteq> 0" "0 < PGSIZE"
  by (simp_all add: PGSIZE_def)

lemma page_aligned_unat: "page_aligned a \<longleftrightarrow> unat a mod 4096 = 0"
  by (simp add: page_aligned_def word_unat_eq_iff unat_mod)

lemma unat_PGROUNDDOWN: "unat (PGROUNDDOWN a) = unat a - unat a mod 4096"
  by (simp add: PGROUNDDOWN_def PGSIZE_minus_1 unat_and_not_mask)

lemma page_aligned_PGROUNDDOWN [simp, intro]: "page_aligned (PGROUNDDOWN a)"
  by (simp add: page_aligned_unat unat_PGROUNDDOWN)

lemma PGROUNDDOWN_aligned: "page_aligned a \<Longrightarrow> PGROUNDDOWN a = a"
  by (simp add: page_aligned_unat unat_PGROUNDDOWN word_unat_eq_iff)

lemma PGROUNDDOWN_idem [simp]: "PGROUNDDOWN (PGROUNDDOWN a) = PGROUNDDOWN a"
  by (simp add: PGROUNDDOWN_aligned)

lemma page_aligned_0 [simp]: "page_aligned 0"
  by (simp add: page_aligned_def)

lemma page_aligned_room: "page_aligned p \<Longrightarrow> unat p + 4095 < 2 ^ 64"
proof -
  assume "page_aligned p"
  then obtain k where "unat p = 4096 * k" by (auto simp: page_aligned_unat)
  moreover have "unat p < 2 ^ 64" by simp
  ultimately show ?thesis by simp
qed

lemma unat_page_offset: "page_aligned p \<Longrightarrow> off < PGSIZE \<Longrightarrow> unat (p + off) = unat p + unat off"
  using page_aligned_room[of p]
  by (subst unat_add_lem[THEN iffD1]) (simp_all add: word_less_nat_alt)

lemma PGROUNDDOWN_offset [page_simps]:
  assumes "page_aligned p" "off < PGSIZE"
  shows "PGROUNDDOWN (p + off) = p"
proof -
  have m: "unat p mod 4096 = 0" using assms(1) by (simp add: page_aligned_unat)
  have o: "unat off < 4096" using assms(2) by (simp add: word_less_nat_alt)
  have "(unat p + unat off) mod 4096 = unat off"
    using m o by (simp add: mod_add_eq[symmetric, of "unat p"])
  then show ?thesis
    by (simp add: word_unat_eq_iff unat_PGROUNDDOWN unat_page_offset[OF assms])
qed

lemma page_offset_lt: "a - PGROUNDDOWN a < PGSIZE"
proof -
  have "PGROUNDDOWN a \<le> a" by (simp add: word_le_nat_alt unat_PGROUNDDOWN)
  then have "unat (a - PGROUNDDOWN a) = unat a mod 4096"
    by (simp add: unat_sub unat_PGROUNDDOWN)
  then show ?thesis by (simp add: word_less_nat_alt)
qed

lemma in_page_iff: "page_aligned p \<Longrightarrow> a - p < PGSIZE \<longleftrightarrow> PGROUNDDOWN a = p"
proof
  assume p: "page_aligned p" and "a - p < PGSIZE"
  then have "PGROUNDDOWN (p + (a - p)) = p" by (rule PGROUNDDOWN_offset)
  then show "PGROUNDDOWN a = p" by simp
next
  assume "page_aligned p" "PGROUNDDOWN a = p"
  then show "a - p < PGSIZE" using page_offset_lt[of a] by simp
qed

lemma page_aligned_add_PGSIZE: "page_aligned p \<Longrightarrow> page_aligned (p + PGSIZE)"
proof -
  assume p: "page_aligned p"
  have "unat (p + PGSIZE) = (unat p + 4096) mod 2 ^ 64"
    by (simp add: unat_word_ariths)
  moreover have "((unat p + 4096) mod 2 ^ 64) mod 4096 = (unat p + 4096) mod 4096"
    by (rule mod_mod_cancel) (simp add: dvd_def)
  ultimately show ?thesis using p by (simp add: page_aligned_unat)
qed

lemma PGROUNDUP_aligned [simp]: "page_aligned (PGROUNDUP a)"
proof -
  have "PGROUNDUP a = PGROUNDDOWN (a + PGSIZE - 1)"
    by (simp add: PGROUNDUP_def PGROUNDDOWN_def)
  then show ?thesis by simp
qed

lemma unat_PGROUNDUP: "unat a \<le> 2 ^ 64 - 4096 \<Longrightarrow> unat (PGROUNDUP a) = (unat a + 4095) div 4096 * 4096"
proof -
  assume a: "unat a \<le> 2 ^ 64 - 4096"
  have eq: "a + PGSIZE - 1 = a + 4095" by (simp add: PGSIZE_def)
  have "unat (a + 4095) = unat a + 4095"
    using a by (subst unat_add_lem[THEN iffD1]) auto
  then have "unat (PGROUNDUP a) = unat a + 4095 - (unat a + 4095) mod 4096"
    by (simp add: PGROUNDUP_def eq PGSIZE_minus_1 unat_and_not_mask)
  then show ?thesis by (simp add: minus_mod_eq_div_mult)
qed

section \<open>Page table entries\<close>

definition PTE_V :: u64 where "PTE_V = push_bit 0 1"
definition PTE_R :: u64 where "PTE_R = push_bit 1 1"
definition PTE_W :: u64 where "PTE_W = push_bit 2 1"
definition PTE_X :: u64 where "PTE_X = push_bit 3 1"
definition PTE_U :: u64 where "PTE_U = push_bit 4 1"
definition PTE_A :: u64 where "PTE_A = push_bit 6 1"
definition MAXSCAN :: int where "MAXSCAN = 32"
definition PTE_COW :: u64 where "PTE_COW = push_bit 8 1"

definition PA2PTE :: "u64 \<Rightarrow> u64" where
  "PA2PTE pa = push_bit 10 (drop_bit 12 pa)"

definition PTE2PA :: "u64 \<Rightarrow> u64" where
  "PTE2PA pte = push_bit 12 (drop_bit 10 pte)"

definition PTE_FLAGS :: "u64 \<Rightarrow> u64" where
  "PTE_FLAGS pte = pte AND 0x3FF"

definition PXMASK :: u64 where "PXMASK = 0x1FF"

definition PXSHIFT :: "nat \<Rightarrow> nat" where
  "PXSHIFT level = PGSHIFT + 9 * level"

definition PX :: "nat \<Rightarrow> u64 \<Rightarrow> u64" where
  "PX level va = drop_bit (PXSHIFT level) va AND PXMASK"

definition MAXVA :: u64 where "MAXVA = push_bit (9 + 9 + 9 + 12 - 1) 1"

lemmas pte_bits = PTE_V_def PTE_R_def PTE_W_def PTE_X_def PTE_U_def PTE_A_def PTE_COW_def

lemma x3FF_mask: "(0x3FF :: u64) = mask 10"
  by (simp add: mask_eq_exp_minus_1)

lemma PXMASK_mask: "PXMASK = mask 9"
  by (simp add: PXMASK_def mask_eq_exp_minus_1)

lemma PX_lt [simp]: "PX l va < 512"
proof -
  have "unat (PX l va) < 512"
    by (simp add: PX_def PXMASK_mask unat_and_mask)
  then show ?thesis by (simp add: word_less_nat_alt)
qed

lemma unat_MAXVA: "unat MAXVA = 2 ^ 38"
  by (simp add: MAXVA_def push_bit_eq_mult)

lemma bit_PTE2PA: "bit (PTE2PA pte) n \<longleftrightarrow> 12 \<le> n \<and> n < 64 \<and> bit pte (n - 2)"
  by (auto simp: PTE2PA_def bit_simps)

lemma page_aligned_bits: "page_aligned a \<longleftrightarrow> (\<forall>n<12. \<not> bit a n)"
proof -
  have "unat a mod 4096 = unat (take_bit 12 a)"
    by (simp add: take_bit_eq_mask unat_and_mask)
  then have "page_aligned a \<longleftrightarrow> take_bit 12 a = 0"
    by (simp add: page_aligned_unat word_unat_eq_iff)
  also have "\<dots> \<longleftrightarrow> (\<forall>n<12. \<not> bit a n)"
    by (auto simp: bit_eq_iff bit_simps)
  finally show ?thesis .
qed

lemma page_aligned_PTE2PA [simp]: "page_aligned (PTE2PA pte)"
  by (simp add: page_aligned_bits bit_PTE2PA)

text \<open>
  A physical page address of at most 56 bits survives the encoding in a page table entry,
  whatever flags are set below bit 10.
\<close>

lemma PTE2PA_PA2PTE [pte_simps]:
  assumes "page_aligned pa" "pa < 2 ^ 56" "flags < 2 ^ 10"
  shows "PTE2PA (PA2PTE pa OR flags) = pa"
proof (rule bit_word_eqI)
  fix n assume "n < LENGTH(64)"
  then have n: "n < 64" by simp
  have hi: "\<not> bit pa k" if "56 \<le> k" for k
    by (rule not_bit_above [OF _ that]) (use assms(2) in \<open>simp add: word_less_nat_alt\<close>)
  have fl: "\<not> bit flags k" if "10 \<le> k" for k
    by (rule not_bit_above [OF _ that]) (use assms(3) in \<open>simp add: word_less_nat_alt\<close>)
  show "bit (PTE2PA (PA2PTE pa OR flags)) n = bit pa n"
  proof (cases "n < 12")
    case True
    with assms(1) show ?thesis by (simp add: page_aligned_bits bit_PTE2PA)
  next
    case False
    with n hi[of n] fl[of "n - 2"] show ?thesis
      by (auto simp: bit_PTE2PA PA2PTE_def bit_simps)
  qed
qed

text \<open>The flag bits of an encoded entry are the flags.\<close>

lemma bit_PA2PTE: "bit (PA2PTE pa) n \<longleftrightarrow> 10 \<le> n \<and> n < 64 \<and> bit pa (n + 2)"
  by (auto simp: PA2PTE_def bit_simps ac_simps)

lemma PA2PTE_and_low [pte_simps]:
  assumes "k < 2 ^ 10"
  shows "(PA2PTE pa OR flags) AND k = flags AND k"
proof (rule bit_word_eqI)
  fix n assume "n < LENGTH(64)"
  have "\<not> bit k n" if "10 \<le> n"
    by (rule not_bit_above [OF _ that]) (use assms in \<open>simp add: word_less_nat_alt\<close>)
  then show "bit ((PA2PTE pa OR flags) AND k) n = bit (flags AND k) n"
    by (auto simp: bit_simps bit_PA2PTE)
qed

lemma PTE_FLAGS_PA2PTE [pte_simps]: "flags < 2 ^ 10 \<Longrightarrow> PTE_FLAGS (PA2PTE pa OR flags) = flags"
proof -
  assume "flags < 2 ^ 10"
  then have "unat flags < 1024" by (simp add: word_less_nat_alt)
  then have "flags AND mask 10 = flags"
    by (simp add: word_unat_eq_iff unat_and_mask)
  moreover have "(PA2PTE pa OR flags) AND 0x3FF = flags AND 0x3FF"
    by (rule PA2PTE_and_low) simp
  ultimately show ?thesis by (simp add: PTE_FLAGS_def x3FF_mask)
qed

section \<open>The register that names the page table\<close>

definition SATP_SV39 :: u64 where "SATP_SV39 = push_bit 60 8"

definition MAKE_SATP :: "u64 \<Rightarrow> u64" where
  "MAKE_SATP pt = SATP_SV39 OR drop_bit 12 pt"

section \<open>Physical memory map\<close>

definition UART0 :: u64 where "UART0 = 0x10000000"
definition VIRTIO0 :: u64 where "VIRTIO0 = 0x10001000"
definition PLIC :: u64 where "PLIC = 0x0c000000"
definition KERNBASE :: u64 where "KERNBASE = 0x80000000"
definition PHYSTOP :: u64 where "PHYSTOP = KERNBASE + 128*1024*1024"
definition TRAMPOLINE :: u64 where "TRAMPOLINE = MAXVA - PGSIZE"
definition KSTACK :: "u64 \<Rightarrow> u64" where "KSTACK p = TRAMPOLINE - p*2*PGSIZE - 3*PGSIZE"
definition TRAPFRAME :: u64 where "TRAPFRAME = TRAMPOLINE - PGSIZE"
definition USYSCALL :: u64 where "USYSCALL = TRAPFRAME - PGSIZE"

lemma unat_PHYSTOP: "unat PHYSTOP = 0x88000000"
  by (simp add: PHYSTOP_def KERNBASE_def)

end
