(* ===== verification/PhysMem.thy ===== *)
theory PhysMem
  imports Riscv
begin

text \<open>
  Physical memory as the kernel sees it: one byte per 64-bit address, with the little-endian
  loads and stores the compiler emits for \<open>uint64\<close> accesses and the C library fills and
  copies. A kernel buffer that the code passes by pointer together with a length is a list
  of bytes.
\<close>

type_synonym memory = "u64 \<Rightarrow> u8"

section \<open>Aligned blocks\<close>

lemma unat_exp64: "n < 64 \<Longrightarrow> unat ((2 :: u64) ^ n) = 2 ^ n"
proof -
  assume "n < 64"
  then have "(2 :: nat) ^ n < 2 ^ 64" by (intro power_strict_increasing) simp_all
  then have "unat (of_nat (2 ^ n) :: u64) = 2 ^ n" by (simp only: unat_of_nat) simp
  then show ?thesis by simp
qed

lemma aligned_block_iff:
  fixes a p :: u64
  assumes al: "unat p mod 2 ^ n = 0" and n: "n < 64"
  shows "a - p < 2 ^ n \<longleftrightarrow> a AND NOT (mask n) = p"
proof
  assume lt: "a - p < 2 ^ n"
  from al obtain k where k: "unat p = 2 ^ n * k" by auto
  have split: "(2 :: nat) ^ 64 = 2 ^ n * 2 ^ (64 - n)" using n by (simp flip: power_add)
  have "unat p < 2 ^ 64" by simp
  then have "2 ^ n * k < 2 ^ n * 2 ^ (64 - n)" by (simp only: k split)
  then have "Suc k \<le> 2 ^ (64 - n)" by simp
  then have "2 ^ n * Suc k \<le> 2 ^ n * 2 ^ (64 - n)" by (rule mult_le_mono2)
  then have room: "unat p + 2 ^ n \<le> 2 ^ 64" by (simp only: k split mult_Suc_right add.commute)
  have o: "unat (a - p) < 2 ^ n" using lt n by (simp add: word_less_nat_alt unat_exp64)
  have "unat (p + (a - p)) = unat p + unat (a - p)"
    using room o by (subst unat_add_lem[THEN iffD1]) simp_all
  then have "unat a = unat p + unat (a - p)" by simp
  moreover from al o have "(unat p + unat (a - p)) mod 2 ^ n = unat (a - p)"
    by (simp add: mod_add_eq[symmetric, of "unat p"])
  ultimately show "a AND NOT (mask n) = p"
    by (simp add: word_unat_eq_iff unat_and_not_mask)
next
  assume "a AND NOT (mask n) = p"
  then have "a - p = a AND mask n" by (auto simp: and_not_mask_eq)
  then have "unat (a - p) < 2 ^ n" by (simp add: unat_and_mask)
  then show "a - p < 2 ^ n" using n by (simp add: word_less_nat_alt unat_exp64)
qed

definition aligned8 :: "u64 \<Rightarrow> bool" where
  "aligned8 a \<longleftrightarrow> unat a mod 8 = 0"

lemma in_cell_iff: "aligned8 a \<Longrightarrow> x - a < 8 \<longleftrightarrow> x AND NOT (mask 3) = a"
  using aligned_block_iff[of a 3 x] by (simp add: aligned8_def)

section \<open>64-bit accesses\<close>

fun load_le :: "nat \<Rightarrow> memory \<Rightarrow> u64 \<Rightarrow> 'a::len word" where
  "load_le 0 m a = 0"
| "load_le (Suc n) m a = ucast (m a) OR push_bit 8 (load_le n m (a + 1))"

definition load64 :: "memory \<Rightarrow> u64 \<Rightarrow> u64" where
  "load64 m a = load_le 8 m a"

definition store64 :: "memory \<Rightarrow> u64 \<Rightarrow> u64 \<Rightarrow> memory" where
  "store64 m a v = (\<lambda>x. if x - a < 8 then ucast (drop_bit (8 * unat (x - a)) v) else m x)"

lemma bit_load_le:
  "bit (load_le k m a :: 'a::len word) n \<longleftrightarrow>
     n < 8 * k \<and> n < LENGTH('a) \<and> bit (m (a + of_nat (n div 8))) (n mod 8)"
proof (induction k arbitrary: a n)
  case 0
  then show ?case by simp
next
  case (Suc k)
  show ?case
  proof (cases "n < 8")
    case True
    then show ?thesis by (auto simp: bit_simps)
  next
    case False
    then obtain j where j: "n = j + 8" by (metis le_add_diff_inverse2 not_less)
    have b: "\<not> bit (m a) n" using False by (auto dest: bit_imp_le_length)
    have "n div 8 = Suc (j div 8)" by (simp add: j)
    then have "a + 1 + of_nat (j div 8) = a + of_nat (n div 8)" by simp
    with Suc.IH[of "a + 1" j] b show ?thesis
      by (auto simp: bit_simps j)
  qed
qed

lemma load64_store64_same [mem_simps]: "load64 (store64 m a v) a = v"
proof (rule bit_word_eqI)
  fix n assume "n < LENGTH(64)"
  then have n: "n < 64" by simp
  have k: "n div 8 < 8" using n by simp
  then have u: "unat (of_nat (n div 8) :: u64) = n div 8"
    by (simp add: unat_of_nat)
  have "(of_nat (n div 8) :: u64) < 8"
    using k u by (simp add: word_less_nat_alt)
  then show "bit (load64 (store64 m a v) a) n = bit v n"
    using n u by (simp add: load64_def bit_load_le store64_def bit_simps)
qed

lemma load64_cong:
  assumes "\<And>x. x - a < 8 \<Longrightarrow> m x = m' x"
  shows "load64 m a = load64 m' a"
proof (rule bit_word_eqI)
  fix n assume "n < LENGTH(64)"
  then have n: "n < 64" by simp
  then have "unat (of_nat (n div 8) :: u64) = n div 8" "n div 8 < 8"
    by (simp_all add: unat_of_nat)
  then have "(of_nat (n div 8) :: u64) < 8" by (simp add: word_less_nat_alt)
  then have "m (a + of_nat (n div 8)) = m' (a + of_nat (n div 8))"
    by (intro assms) simp
  then show "bit (load64 m a) n = bit (load64 m' a) n"
    using n by (simp add: load64_def bit_load_le)
qed

lemma load64_store64_other [mem_simps]:
  assumes "aligned8 a" "aligned8 b" "a \<noteq> b"
  shows "load64 (store64 m a v) b = load64 m b"
  by (rule load64_cong) (use assms in \<open>auto simp: store64_def in_cell_iff\<close>)

lemma load64_byte: "ucast (drop_bit (8 * k) (load64 m a)) = m (a + of_nat k)" if "k < 8"
proof (rule bit_word_eqI)
  fix n assume "n < LENGTH(8)"
  then have "n < 8" by simp
  moreover from this that have "(8 * k + n) div 8 = k" "(8 * k + n) mod 8 = n" by simp_all
  ultimately show "bit (ucast (drop_bit (8 * k) (load64 m a)) :: u8) n = bit (m (a + of_nat k)) n"
    using that by (simp add: bit_simps load64_def bit_load_le)
qed

section \<open>Fills and copies\<close>

definition memset :: "memory \<Rightarrow> u64 \<Rightarrow> u8 \<Rightarrow> u64 \<Rightarrow> memory" where
  "memset m p c n = (\<lambda>x. if x - p < n then c else m x)"

definition memmove :: "memory \<Rightarrow> u64 \<Rightarrow> u64 \<Rightarrow> u64 \<Rightarrow> memory" where
  "memmove m dst src n = (\<lambda>x. if x - dst < n then m (src + (x - dst)) else m x)"

definition write_bytes :: "memory \<Rightarrow> u64 \<Rightarrow> u8 list \<Rightarrow> memory" where
  "write_bytes m p bs = (\<lambda>x. if unat (x - p) < length bs then bs ! unat (x - p) else m x)"

definition read_bytes :: "memory \<Rightarrow> u64 \<Rightarrow> nat \<Rightarrow> u8 list" where
  "read_bytes m p n = map (\<lambda>i. m (p + of_nat i)) [0..<n]"

lemma length_read_bytes [simp]: "length (read_bytes m p n) = n"
  by (simp add: read_bytes_def)

lemma read_write_bytes [mem_simps]:
  "length bs < 2 ^ 64 \<Longrightarrow> read_bytes (write_bytes m p bs) p (length bs) = bs"
  by (rule nth_equalityI)
     (auto simp: read_bytes_def write_bytes_def unat_of_nat)

text \<open>What a write to one page leaves alone: every other page.\<close>

definition same_outside :: "u64 set \<Rightarrow> memory \<Rightarrow> memory \<Rightarrow> bool" where
  "same_outside P m m' \<longleftrightarrow> (\<forall>x. PGROUNDDOWN x \<notin> P \<longrightarrow> m' x = m x)"

lemma same_outside_refl [simp]: "same_outside P m m"
  by (simp add: same_outside_def)

lemma same_outside_trans:
  "same_outside P m m' \<Longrightarrow> same_outside Q m' m'' \<Longrightarrow> same_outside (P \<union> Q) m m''"
  by (auto simp: same_outside_def)

lemma same_outside_mono: "same_outside P m m' \<Longrightarrow> P \<subseteq> Q \<Longrightarrow> same_outside Q m m'"
  by (auto simp: same_outside_def)

lemma same_outside_memset [frame_intros]:
  "page_aligned p \<Longrightarrow> same_outside {p} m (memset m p c PGSIZE)"
  by (auto simp: same_outside_def memset_def in_page_iff)

lemma same_outside_memmove [frame_intros]:
  "page_aligned p \<Longrightarrow> same_outside {p} m (memmove m p src PGSIZE)"
  by (auto simp: same_outside_def memmove_def in_page_iff)

text \<open>An 8-byte cell of a page lies inside the page.\<close>

lemma cell_in_page:
  assumes "aligned8 a" "x - a < 8"
  shows "PGROUNDDOWN x = PGROUNDDOWN a"
proof -
  from assms have a: "a = x AND NOT (mask 3)" by (simp add: in_cell_iff)
  show ?thesis
    unfolding a PGROUNDDOWN_def PGSIZE_minus_1
    by (rule bit_word_eqI) (auto simp: bit_simps)
qed

lemma same_outside_store64 [frame_intros]:
  "aligned8 a \<Longrightarrow> same_outside {PGROUNDDOWN a} m (store64 m a v)"
  by (auto simp: same_outside_def store64_def dest: cell_in_page)

lemma load64_same_outside:
  assumes "same_outside P m m'" "aligned8 a" "PGROUNDDOWN a \<notin> P"
  shows "load64 m' a = load64 m a"
  by (rule load64_cong) (use assms in \<open>auto simp: same_outside_def dest: cell_in_page\<close>)

lemma load_le_zero:
  "(\<And>i. i < n \<Longrightarrow> m (a + of_nat i) = 0) \<Longrightarrow> load_le n m a = (0 :: 'a::len word)"
proof (induction n arbitrary: a)
  case 0
  then show ?case by simp
next
  case (Suc n)
  have "m (a + 1 + of_nat i) = 0" if "i < n" for i
    using Suc.prems[of "Suc i"] that by (simp add: add_ac)
  then have "load_le n m (a + 1) = (0 :: 'a word)" by (rule Suc.IH)
  then show ?case using Suc.prems[of 0] by simp
qed

lemma load64_memset_zero [mem_simps]:
  assumes "page_aligned p" "aligned8 a" "PGROUNDDOWN a = p"
  shows "load64 (memset m p 0 PGSIZE) a = 0"
proof -
  have "memset m p 0 PGSIZE (a + of_nat i) = 0" if "i < 8" for i
  proof -
    have "(of_nat i :: u64) < 8" using that by (simp add: word_less_nat_alt unat_of_nat)
    then have "PGROUNDDOWN (a + of_nat i) = p"
      using cell_in_page[of a "a + of_nat i"] assms by simp
    then show ?thesis using assms(1) by (simp add: memset_def in_page_iff)
  qed
  then show ?thesis unfolding load64_def by (rule load_le_zero)
qed

section \<open>Slots of a page\<close>

text \<open>\<open>&pagetable[i]\<close>: a page holds 512 slots of 8 bytes.\<close>

definition slot :: "u64 \<Rightarrow> u64 \<Rightarrow> u64" where
  "slot p i = p + 8 * i"

lemma unat_8_mult: "i < 512 \<Longrightarrow> unat (8 * i :: u64) = 8 * unat i"
proof -
  assume "i < 512"
  then have "unat i < 512" by (simp add: word_less_nat_alt)
  then show ?thesis by (simp add: unat_word_ariths)
qed

lemma slot_offset_lt: "i < 512 \<Longrightarrow> 8 * i < PGSIZE"
  using unat_8_mult[of i] by (simp add: word_less_nat_alt)

lemma unat_slot: "page_aligned p \<Longrightarrow> i < 512 \<Longrightarrow> unat (slot p i) = unat p + 8 * unat i"
  by (simp add: slot_def unat_page_offset slot_offset_lt unat_8_mult)

lemma PGROUNDDOWN_slot [page_simps]: "page_aligned p \<Longrightarrow> i < 512 \<Longrightarrow> PGROUNDDOWN (slot p i) = p"
  by (simp add: slot_def PGROUNDDOWN_offset slot_offset_lt)

lemma aligned8_slot [page_simps]: "page_aligned p \<Longrightarrow> i < 512 \<Longrightarrow> aligned8 (slot p i)"
proof -
  assume p: "page_aligned p" and i: "i < 512"
  then have "unat p mod 4096 = 0" by (simp add: page_aligned_unat)
  moreover have "unat p mod 4096 mod 8 = unat p mod 8" by (rule mod_mod_cancel) simp
  ultimately have "unat p mod 8 = 0" by simp
  with p i show ?thesis by (simp add: aligned8_def unat_slot mod_add_eq[symmetric, of "unat p"])
qed

lemma slot_inject:
  assumes "page_aligned p" "page_aligned q" "i < 512" "j < 512"
  shows "slot p i = slot q j \<longleftrightarrow> p = q \<and> i = j"
proof
  assume eq: "slot p i = slot q j"
  then have pq: "p = q" using assms PGROUNDDOWN_slot by metis
  with eq assms have "unat i = unat j"
    using unat_slot[of p i] unat_slot[of p j] by simp
  with pq show "p = q \<and> i = j" by (simp add: word_unat_eq_iff)
qed simp

lemma slot_nonzero: "page_aligned p \<Longrightarrow> p \<noteq> 0 \<Longrightarrow> i < 512 \<Longrightarrow> slot p i \<noteq> 0"
  using unat_slot[of p i] by (metis add_is_0 unat_eq_zero)

end
