(* ===== verification/Kalloc.thy ===== *)
theory Kalloc
  imports PhysMem
begin

text \<open>
  The physical page allocator (\<open>kernel/kalloc.c\<close>): a singly linked list of free pages whose links
  are stored in the first eight bytes of the free pages themselves. The state is physical
  memory, the linker symbol \<open>end\<close> and the list head; the relation \<open>chain\<close> reads the list back from
  memory, and the lemmas show that \<open>kfree\<close> and \<open>kalloc\<close> push and pop that list and touch no other
  page. Every operation holds \<open>kmem.lock\<close> while it uses the list, so each is one atomic step.

  The locale \<open>page_allocator\<close> is the contract that the virtual memory code relies on; it is
  interpreted on these definitions at the end, and on the reference-counted allocator
  of the copy-on-write lab in another theory.
\<close>

section \<open>State\<close>

record machine =
  mem :: memory
  kend :: u64

record kmem_machine = machine +
  freelist :: u64

section \<open>Operations\<close>

definition kfree :: "u64 \<Rightarrow> 'a kmem_machine_scheme \<Rightarrow> 'a kmem_machine_scheme res" where
  "kfree pa s =
     (if pa mod PGSIZE \<noteq> 0 \<or> pa < kend s \<or> pa \<ge> PHYSTOP then Inl (Panic ''kfree'')
      else
        let s1 = s\<lparr>mem := memset (mem s) pa 1 PGSIZE\<rparr>;
            s2 = s1\<lparr>mem := store64 (mem s1) pa (freelist s1)\<rparr>
        in Inr (s2\<lparr>freelist := pa\<rparr>))"

definition kalloc :: "'a kmem_machine_scheme \<Rightarrow> u64 \<times> 'a kmem_machine_scheme" where
  "kalloc s =
     (let r = freelist s;
          s1 = (if r \<noteq> 0 then s\<lparr>freelist := load64 (mem s) r\<rparr> else s);
          s2 = (if r \<noteq> 0 then s1\<lparr>mem := memset (mem s1) r 5 PGSIZE\<rparr> else s1)
      in (r, s2))"

lemma kfree_Inr_lt: "kfree p s = Inr s' \<Longrightarrow> p < PHYSTOP"
  by (auto simp: kfree_def split: if_splits)

text \<open>
  The loop of \<open>freerange\<close> stops because \<open>kfree\<close> panics at the first page at or above \<open>PHYSTOP\<close>.
\<close>

lemma below_PHYSTOP_step: "p < PHYSTOP \<Longrightarrow> unat (p + PGSIZE) = unat p + 4096"
  by (subst unat_add_lem[THEN iffD1]) (simp_all add: word_less_nat_alt unat_PHYSTOP)

function freerange_loop :: "u64 \<Rightarrow> u64 \<Rightarrow> 'a kmem_machine_scheme \<Rightarrow> 'a kmem_machine_scheme res" where
  "freerange_loop p pa_end s =
     (if p + PGSIZE \<le> pa_end
      then bindR (kfree p s) (\<lambda>s'. freerange_loop (p + PGSIZE) pa_end s')
      else Inr s)"
  by pat_completeness auto
termination
proof (relation "measure (\<lambda>(p, pa_end, s). unat PHYSTOP - unat p)")
  fix p pa_end :: u64 and s x :: "'a kmem_machine_scheme"
  assume "kfree p s = Inr x"
  then have "p < PHYSTOP" by (rule kfree_Inr_lt)
  then show "((p + PGSIZE, pa_end, x), p, pa_end, s)
      \<in> measure (\<lambda>(p, pa_end, s). unat PHYSTOP - unat p)"
    by (simp add: below_PHYSTOP_step word_less_nat_alt)
qed simp

declare freerange_loop.simps [simp del]

definition freerange :: "u64 \<Rightarrow> u64 \<Rightarrow> 'a kmem_machine_scheme \<Rightarrow> 'a kmem_machine_scheme res" where
  "freerange pa_start pa_end s = freerange_loop (PGROUNDUP pa_start) pa_end s"

definition kinit :: "'a kmem_machine_scheme \<Rightarrow> 'a kmem_machine_scheme res" where
  "kinit s = freerange (kend s) PHYSTOP s"

text \<open>
  \<open>free_mem\<close> walks the links. On a cyclic list the C loop would not end, and the model's value is
  then \<open>None\<close>.
\<close>

partial_function (option) free_mem_loop :: "memory \<Rightarrow> u64 \<Rightarrow> u64 \<Rightarrow> u64 option" where
  "free_mem_loop m r num =
     (if r \<noteq> 0 then free_mem_loop m (load64 m r) (num + 1) else Some num)"

definition free_mem :: "'a kmem_machine_scheme \<Rightarrow> u64 option" where
  "free_mem s = map_option (\<lambda>num. num * PGSIZE) (free_mem_loop (mem s) (freelist s) 0)"

section \<open>The list in memory\<close>

primrec chain :: "memory \<Rightarrow> u64 \<Rightarrow> u64 list \<Rightarrow> bool" where
  "chain m p [] \<longleftrightarrow> p = 0"
| "chain m p (x # xs) \<longleftrightarrow> p = x \<and> x \<noteq> 0 \<and> chain m (load64 m x) xs"

definition managed :: "u64 \<Rightarrow> u64 \<Rightarrow> bool" where
  "managed e p \<longleftrightarrow> page_aligned p \<and> p \<noteq> 0 \<and> e \<le> p \<and> p < PHYSTOP"

definition kmem_inv :: "'a kmem_machine_scheme \<Rightarrow> u64 list \<Rightarrow> bool" where
  "kmem_inv s ps \<longleftrightarrow>
     chain (mem s) (freelist s) ps \<and> distinct ps \<and> (\<forall>p\<in>set ps. managed (kend s) p)"

lemma page_aligned_aligned8: "page_aligned p \<Longrightarrow> aligned8 p"
  using aligned8_slot[of p 0] by (simp add: slot_def)

lemma managedD:
  "managed e p \<Longrightarrow> page_aligned p" "managed e p \<Longrightarrow> p \<noteq> 0" "managed e p \<Longrightarrow> p < PHYSTOP"
  "managed e p \<Longrightarrow> aligned8 p" "managed e p \<Longrightarrow> PGROUNDDOWN p = p" "managed e p \<Longrightarrow> e \<le> p"
  by (simp_all add: managed_def page_aligned_aligned8 PGROUNDDOWN_aligned)

lemma chain_cong:
  "(\<And>x. x \<in> set ps \<Longrightarrow> load64 m' x = load64 m x) \<Longrightarrow> chain m' p ps = chain m p ps"
  by (induction ps arbitrary: p) auto

lemma chain_same_outside:
  assumes "same_outside P m m'" "\<forall>p\<in>set ps. page_aligned p \<and> p \<notin> P"
  shows "chain m' r ps = chain m r ps"
proof (rule chain_cong)
  fix x assume "x \<in> set ps"
  with assms(2) have "aligned8 x" "PGROUNDDOWN x \<notin> P"
    by (auto simp: page_aligned_aligned8 PGROUNDDOWN_aligned)
  with assms(1) show "load64 m' x = load64 m x" by (rule load64_same_outside)
qed

lemma chain_unique: "chain m p xs \<Longrightarrow> chain m p ys \<Longrightarrow> xs = ys"
proof (induction xs arbitrary: p ys)
  case Nil
  then show ?case by (cases ys) auto
next
  case (Cons x xs)
  then show ?case by (cases ys) auto
qed

lemma kmem_inv_unique: "kmem_inv s xs \<Longrightarrow> kmem_inv s ys \<Longrightarrow> xs = ys"
  by (auto simp: kmem_inv_def intro: chain_unique)

section \<open>What the operations do to the list\<close>

lemma same_outside_kfree:
  "page_aligned p \<Longrightarrow> same_outside {p} m (store64 (memset m p 1 PGSIZE) p v)"
proof -
  assume p: "page_aligned p"
  have "same_outside {p} (memset m p 1 PGSIZE) (store64 (memset m p 1 PGSIZE) p v)"
    using same_outside_store64[of p] p by (simp add: page_aligned_aligned8 PGROUNDDOWN_aligned)
  with same_outside_memset[OF p] show ?thesis
    using same_outside_trans[of "{p}" _ _ "{p}"] by fastforce
qed

lemma kfree_managed:
  assumes "managed (kend s) p"
  shows "kfree p s = Inr (s\<lparr>mem := store64 (memset (mem s) p 1 PGSIZE) p (freelist s), freelist := p\<rparr>)"
  using assms by (auto simp: kfree_def managed_def page_aligned_def Let_def)

lemma kfree_panics:
  "\<not> (page_aligned p \<and> kend s \<le> p \<and> p < PHYSTOP) \<Longrightarrow> kfree p s = Inl (Panic ''kfree'')"
  by (simp add: kfree_def page_aligned_def linorder_not_less linorder_not_le)

lemma kfree_push:
  assumes inv: "kmem_inv s ps" and p: "managed (kend s) p" "p \<notin> set ps"
  shows "\<exists>s'. kfree p s = Inr s' \<and> kmem_inv s' (p # ps) \<and> kend s' = kend s \<and>
           same_outside {p} (mem s) (mem s')"
proof -
  let ?m = "store64 (memset (mem s) p 1 PGSIZE) p (freelist s)"
  note al = managedD(1)[OF p(1)]
  have so: "same_outside {p} (mem s) ?m" by (rule same_outside_kfree[OF al])
  have "chain ?m (freelist s) ps = chain (mem s) (freelist s) ps"
    by (rule chain_same_outside[OF so]) (use inv p(2) in \<open>auto simp: kmem_inv_def managed_def\<close>)
  with inv p have "kmem_inv (s\<lparr>mem := ?m, freelist := p\<rparr>) (p # ps)"
    by (auto simp: kmem_inv_def mem_simps managedD(2))
  with kfree_managed[OF p(1)] so show ?thesis by auto
qed

lemma kalloc_empty: "kmem_inv s [] \<Longrightarrow> kalloc s = (0, s)"
  by (simp add: kmem_inv_def kalloc_def)

lemma kalloc_pop:
  assumes inv: "kmem_inv s (p # ps)"
  shows "\<exists>s'. kalloc s = (p, s') \<and> kmem_inv s' ps \<and> kend s' = kend s \<and>
           same_outside {p} (mem s) (mem s')"
proof -
  let ?m = "memset (mem s) p 5 PGSIZE"
  from inv have fl: "freelist s = p" "p \<noteq> 0" and c: "chain (mem s) (load64 (mem s) p) ps"
    and al: "page_aligned p"
    by (auto simp: kmem_inv_def managed_def)
  have so: "same_outside {p} (mem s) ?m" by (rule same_outside_memset[OF al])
  have "chain ?m (load64 (mem s) p) ps"
    using chain_same_outside[OF so, of ps] c inv by (auto simp: kmem_inv_def managed_def)
  with inv fl have "kmem_inv (s\<lparr>freelist := load64 (mem s) p, mem := ?m\<rparr>) ps"
    by (auto simp: kmem_inv_def)
  with fl so show ?thesis by (auto simp: kalloc_def)
qed

lemma free_mem_loop_chain:
  "chain m r ps \<Longrightarrow> free_mem_loop m r n = Some (n + of_nat (length ps))"
proof (induction ps arbitrary: r n)
  case Nil
  then show ?case by (simp add: free_mem_loop.simps)
next
  case (Cons p ps)
  then have "free_mem_loop m (load64 m p) (n + 1) = Some (n + 1 + of_nat (length ps))"
    and "r = p" "p \<noteq> 0" by simp_all
  then show ?case by (simp add: free_mem_loop.simps [of m p n] add_ac)
qed

section \<open>Building the list at boot\<close>

primrec page_range :: "u64 \<Rightarrow> nat \<Rightarrow> u64 list" where
  "page_range p 0 = []"
| "page_range p (Suc n) = p # page_range (p + PGSIZE) n"

lemma set_page_range:
  "page_aligned p \<Longrightarrow> unat p + 4096 * n < 2 ^ 64 \<Longrightarrow>
     set (page_range p n) = {q. page_aligned q \<and> unat p \<le> unat q \<and> unat q < unat p + 4096 * n}"
proof (induction n arbitrary: p)
  case 0
  then show ?case by auto
next
  case (Suc n)
  have u: "unat (p + PGSIZE) = unat p + 4096"
    using Suc.prems(2) by (subst unat_add_lem[THEN iffD1]) simp_all
  have gap: "unat q = unat p \<or> unat p + 4096 \<le> unat q"
    if q: "page_aligned q" "unat p \<le> unat q" for q
  proof -
    from q Suc.prems(1) obtain j k where "unat p = 4096 * j" "unat q = 4096 * k"
      by (auto simp: page_aligned_unat elim!: dvdE)
    with q(2) show ?thesis by auto
  qed
  have rest: "set (page_range (p + PGSIZE) n) =
      {q. page_aligned q \<and> unat p + 4096 \<le> unat q \<and> unat q < unat p + 4096 * Suc n}"
    using Suc.IH[of "p + PGSIZE"] Suc.prems page_aligned_add_PGSIZE[of p]
    by (simp add: u add.assoc)
  have "q \<in> set (page_range p (Suc n)) \<longleftrightarrow>
      page_aligned q \<and> unat p \<le> unat q \<and> unat q < unat p + 4096 * Suc n" for q
  proof (cases "q = p")
    case True
    with Suc.prems(1) show ?thesis by simp
  next
    case False
    then have "unat q \<noteq> unat p" by (simp add: word_unat_eq_iff)
    with gap[of q] False show ?thesis by (auto simp: rest)
  qed
  then show ?case by blast
qed

lemma freerange_loop_pages:
  assumes "kmem_inv s ps" "page_aligned p" "p \<noteq> 0" "kend s \<le> p" "p \<le> PHYSTOP" "pa_end \<le> PHYSTOP"
    and "\<forall>q\<in>set ps. q < p" and "n = (unat pa_end - unat p) div 4096"
  shows "\<exists>s'. freerange_loop p pa_end s = Inr s' \<and> kmem_inv s' (rev (page_range p n) @ ps) \<and>
           kend s' = kend s"
  using assms
proof (induction n arbitrary: p s ps)
  case 0
  have "unat (p + PGSIZE) = unat p + 4096"
    using 0 by (subst unat_add_lem[THEN iffD1]) (simp_all add: word_le_nat_alt unat_PHYSTOP)
  with 0 have "\<not> p + PGSIZE \<le> pa_end" by (simp add: word_le_nat_alt div_eq_0_iff)
  with 0 show ?case by (simp add: freerange_loop.simps [of p])
next
  case (Suc n)
  have u: "unat (p + PGSIZE) = unat p + 4096"
    using Suc.prems by (subst unat_add_lem[THEN iffD1]) (simp_all add: word_le_nat_alt unat_PHYSTOP)
  from Suc.prems(8) have n: "n = (unat pa_end - unat (p + PGSIZE)) div 4096"
    and le: "unat p + 4096 \<le> unat pa_end"
    unfolding u by arith+
  have m: "managed (kend s) p"
    using Suc.prems le by (simp add: managed_def word_le_nat_alt word_less_nat_alt)
  have "p \<notin> set ps" using Suc.prems(7) by auto
  from kfree_push[OF Suc.prems(1) m this] obtain s1 where
    s1: "kfree p s = Inr s1" "kmem_inv s1 (p # ps)" "kend s1 = kend s" by blast
  have "p + PGSIZE \<noteq> 0" using u by (metis add_is_0 unat_eq_zero zero_neq_numeral)
  moreover have "p < p + PGSIZE" using u by (simp add: word_less_nat_alt)
  ultimately have "\<exists>s'. freerange_loop (p + PGSIZE) pa_end s1 = Inr s' \<and>
      kmem_inv s' (rev (page_range (p + PGSIZE) n) @ p # ps) \<and> kend s' = kend s1"
    using Suc.prems s1 le u n
    by (intro Suc.IH) (auto simp: page_aligned_add_PGSIZE word_le_nat_alt word_less_nat_alt)
  moreover have "p + PGSIZE \<le> pa_end" using le u by (simp add: word_le_nat_alt)
  ultimately show ?case using s1 by (simp add: freerange_loop.simps [of p])
qed

lemma kinit_all_pages:
  assumes "freelist s = 0" "0 < kend s" "kend s \<le> PHYSTOP"
  shows "\<exists>s' ps. kinit s = Inr s' \<and> kmem_inv s' ps \<and> kend s' = kend s \<and>
           set ps = {p. managed (kend s) p}"
proof -
  let ?p = "PGROUNDUP (kend s)"
  let ?n = "(unat PHYSTOP - unat ?p) div 4096"
  have k: "unat (kend s) \<le> 0x88000000" using assms(3) by (simp add: word_le_nat_alt unat_PHYSTOP)
  then have up: "unat ?p = (unat (kend s) + 4095) div 4096 * 4096" by (simp add: unat_PGROUNDUP)
  have least: "unat ?p \<le> 4096 * q" if "unat (kend s) \<le> 4096 * q" for q
    unfolding up using that by (rule round_up_least)
  have ge: "unat (kend s) \<le> unat ?p" "unat ?p \<le> 0x88000000"
    using round_up_ge[of "unat (kend s)"] least[of "0x88000"] k by (simp_all add: up)
  have "?p \<noteq> 0" using ge(1) assms(2) by (auto simp: word_less_nat_alt)
  then have "\<exists>s'. freerange_loop ?p PHYSTOP s = Inr s' \<and>
      kmem_inv s' (rev (page_range ?p ?n) @ []) \<and> kend s' = kend s"
    using assms(1) ge by (intro freerange_loop_pages) (auto simp: kmem_inv_def word_le_nat_alt unat_PHYSTOP)
  moreover have "set (page_range ?p ?n) = {p. managed (kend s) p}"
  proof -
    obtain j where j: "unat ?p = 4096 * j" using up by simp
    then have "unat ?p + 4096 * ?n = 0x88000000"
      using ge(2) by (simp add: unat_PHYSTOP div_mult_self1_is_m)
    then have "set (page_range ?p ?n) =
        {q. page_aligned q \<and> unat ?p \<le> unat q \<and> unat q < 0x88000000}"
      using set_page_range[of ?p ?n] by simp
    also have "\<dots> = {p. managed (kend s) p}"
    proof -
      have "unat ?p \<le> unat q" if "page_aligned q" "unat (kend s) \<le> unat q" for q
        using that least by (auto simp: page_aligned_unat elim!: dvdE)
      then show ?thesis using ge assms(2)
        by (auto simp: managed_def word_le_nat_alt word_less_nat_alt unat_PHYSTOP)
    qed
    finally show ?thesis .
  qed
  ultimately show ?thesis
    unfolding kinit_def freerange_def by (metis append_Nil2 set_rev)
qed

section \<open>The allocator's contract\<close>

text \<open>
  What the virtual memory code relies on, whichever \<open>kalloc.c\<close> the kernel is linked with.
  \<open>free_pages\<close> abstracts the free list to a set, \<open>ainv\<close> is the allocator's invariant, and \<open>last_ref\<close> says
  that a call of \<open>kfree\<close> gives the page back (always, unless pages are reference-counted).
\<close>

locale page_allocator =
  fixes kalloc_op :: "'a machine_scheme \<Rightarrow> u64 \<times> 'a machine_scheme"
    and kfree_op :: "u64 \<Rightarrow> 'a machine_scheme \<Rightarrow> 'a machine_scheme res"
    and free_pages :: "'a machine_scheme \<Rightarrow> u64 set"
    and ainv :: "'a machine_scheme \<Rightarrow> bool"
    and last_ref :: "'a machine_scheme \<Rightarrow> u64 \<Rightarrow> bool"
  assumes kalloc_none: "ainv s \<Longrightarrow> kalloc_op s = (0, s') \<Longrightarrow> s' = s \<and> free_pages s = {}"
    and kalloc_some: "ainv s \<Longrightarrow> kalloc_op s = (p, s') \<Longrightarrow> p \<noteq> 0 \<Longrightarrow>
      ainv s' \<and> p \<in> free_pages s \<and> free_pages s' = free_pages s - {p} \<and> kend s' = kend s \<and>
      same_outside {p} (mem s) (mem s') \<and> last_ref s' p \<and>
      (\<forall>q. q \<noteq> p \<longrightarrow> last_ref s' q = last_ref s q)"
    and free_managed: "ainv s \<Longrightarrow> p \<in> free_pages s \<Longrightarrow> managed (kend s) p"
    and mem_frame: "ainv s \<Longrightarrow> same_outside (- free_pages s) (mem s) m \<Longrightarrow>
      ainv (s\<lparr>mem := m\<rparr>) \<and> free_pages (s\<lparr>mem := m\<rparr>) = free_pages s \<and>
      last_ref (s\<lparr>mem := m\<rparr>) = last_ref s"
    and kfree_ok: "ainv s \<Longrightarrow> managed (kend s) p \<Longrightarrow> p \<notin> free_pages s \<Longrightarrow> last_ref s p \<Longrightarrow>
      \<exists>s'. kfree_op p s = Inr s' \<and> ainv s' \<and> free_pages s' = insert p (free_pages s) \<and>
        kend s' = kend s \<and> same_outside {p} (mem s) (mem s') \<and>
        (\<forall>q. q \<noteq> p \<longrightarrow> last_ref s' q = last_ref s q)"
    and kfree_bad: "\<not> (page_aligned p \<and> kend s \<le> p \<and> p < PHYSTOP) \<Longrightarrow>
      kfree_op p s = Inl (Panic ''kfree'')"
begin

lemma kalloc_cases [consumes 1, case_names none some]:
  assumes "ainv s"
  obtains (none) "kalloc_op s = (0, s)" "free_pages s = {}"
  | (some) p s' where "kalloc_op s = (p, s')" "p \<noteq> 0" "ainv s'" "p \<in> free_pages s"
      "managed (kend s) p" "free_pages s' = free_pages s - {p}" "kend s' = kend s"
      "same_outside {p} (mem s) (mem s')"
proof (cases "kalloc_op s")
  case (Pair p s')
  show thesis
  proof (cases "p = 0")
    case True
    with Pair kalloc_none[OF assms] show thesis by (intro none) auto
  next
    case False
    from kalloc_some[OF assms Pair False] free_managed[OF assms, of p] show thesis
      by (intro some[OF Pair False]) auto
  qed
qed

text \<open>Writing a page that is not free keeps the allocator's state.\<close>

lemma write_page:
  assumes "ainv s" "same_outside P (mem s) m" "P \<inter> free_pages s = {}"
  shows "ainv (s\<lparr>mem := m\<rparr>)" "free_pages (s\<lparr>mem := m\<rparr>) = free_pages s"
    "last_ref (s\<lparr>mem := m\<rparr>) = last_ref s"
proof -
  have "same_outside (- free_pages s) (mem s) m"
    by (rule same_outside_mono[OF assms(2)]) (use assms(3) in auto)
  from mem_frame[OF assms(1) this]
  show "ainv (s\<lparr>mem := m\<rparr>)" "free_pages (s\<lparr>mem := m\<rparr>) = free_pages s"
    "last_ref (s\<lparr>mem := m\<rparr>) = last_ref s" by auto
qed

end

text \<open>The lab's allocator keeps the contract; every \<open>kfree\<close> gives the page back.\<close>

definition kmem_ok :: "'a kmem_machine_scheme \<Rightarrow> bool" where
  "kmem_ok s \<longleftrightarrow> (\<exists>ps. kmem_inv s ps)"

definition kmem_free :: "'a kmem_machine_scheme \<Rightarrow> u64 set" where
  "kmem_free s = {p. \<exists>ps. kmem_inv s ps \<and> p \<in> set ps}"

lemma kmem_free_eq: "kmem_inv s ps \<Longrightarrow> kmem_free s = set ps"
  by (auto simp: kmem_free_def dest: kmem_inv_unique)

lemma kmem_inv_mem:
  assumes "kmem_inv s ps" "same_outside (- set ps) (mem s) m"
  shows "kmem_inv (s\<lparr>mem := m\<rparr>) ps"
proof -
  have "chain m (freelist s) ps = chain (mem s) (freelist s) ps"
    by (rule chain_same_outside[OF assms(2)]) (use assms(1) in \<open>auto simp: kmem_inv_def managed_def\<close>)
  with assms(1) show ?thesis by (simp add: kmem_inv_def)
qed

interpretation ka: page_allocator kalloc kfree kmem_free kmem_ok "\<lambda>s p. True"
proof unfold_locales
  fix s s' :: "'a kmem_machine_scheme" and p :: u64
  assume "kmem_ok s"
  then obtain ps where ps: "kmem_inv s ps" by (auto simp: kmem_ok_def)
  note free = kmem_free_eq[OF ps]
  show "s' = s \<and> kmem_free s = {}" if "kalloc s = (0, s')"
    using that ps kalloc_pop[of s] kalloc_empty[of s]
    by (cases ps) (auto simp: free kmem_inv_def)
  show "kmem_ok s' \<and> p \<in> kmem_free s \<and> kmem_free s' = kmem_free s - {p} \<and> kend s' = kend s \<and>
      same_outside {p} (mem s) (mem s') \<and> True \<and> (\<forall>q. q \<noteq> p \<longrightarrow> True = True)"
    if "kalloc s = (p, s')" "p \<noteq> 0"
  proof (cases ps)
    case Nil
    with ps that show ?thesis using kalloc_empty by fastforce
  next
    case (Cons x xs)
    with ps kalloc_pop[of s x xs] that have "kmem_inv s' xs" "x = p" "kend s' = kend s"
      "same_outside {p} (mem s) (mem s')" by auto
    with ps Cons kmem_free_eq[of s' xs] show ?thesis
      by (auto simp: free kmem_ok_def kmem_inv_def)
  qed
  show "managed (kend s) p" if "p \<in> kmem_free s"
    using that ps by (auto simp: free kmem_inv_def)
  show "kmem_ok (s\<lparr>mem := m\<rparr>) \<and> kmem_free (s\<lparr>mem := m\<rparr>) = kmem_free s \<and> (\<lambda>p. True) = (\<lambda>p. True)"
    if "same_outside (- kmem_free s) (mem s) m" for m
    using kmem_inv_mem[OF ps, of m] that kmem_free_eq[of "s\<lparr>mem := m\<rparr>" ps]
    by (auto simp: free kmem_ok_def)
  show "\<exists>s'. kfree p s = Inr s' \<and> kmem_ok s' \<and> kmem_free s' = insert p (kmem_free s) \<and>
      kend s' = kend s \<and> same_outside {p} (mem s) (mem s') \<and> (\<forall>q. q \<noteq> p \<longrightarrow> True = True)"
    if "managed (kend s) p" "p \<notin> kmem_free s" True
    using kfree_push[OF ps, of p] that kmem_free_eq by (force simp: free kmem_ok_def)
qed (rule kfree_panics)

end
