(* ===== verification/Vm.thy ===== *)
theory Vm
  imports Kalloc
begin

text \<open>
  The virtual memory code (\<open>kernel/vm.c\<close> of the page table lab): three-level Sv39 page tables kept
  in physical memory, created and destroyed through the page allocator. The allocator's two
  entry points are arguments (\<open>ka\<close> for \<open>kalloc\<close>, \<open>kf\<close> for \<open>kfree\<close>) of the definitions that call them,
  because each lab links its own \<open>kalloc.c\<close>. A null result is the address \<open>0\<close>, an \<open>int\<close> status is an
  integer, and a panic is a value of the error type.
\<close>

type_synonym 's alloc_fn = "'s \<Rightarrow> u64 \<times> 's"
type_synonym 's free_fn = "u64 \<Rightarrow> 's \<Rightarrow> 's res"

section \<open>Walking a page table\<close>

fun walk_loop :: "'a machine_scheme alloc_fn \<Rightarrow> nat \<Rightarrow> u64 \<Rightarrow> u64 \<Rightarrow> bool \<Rightarrow>
    'a machine_scheme \<Rightarrow> u64 \<times> 'a machine_scheme" where
  "walk_loop ka 0 pagetable va alloc s = (slot pagetable (PX 0 va), s)"
| "walk_loop ka (Suc l) pagetable va alloc s =
     (let pte = slot pagetable (PX (Suc l) va) in
      if load64 (mem s) pte AND PTE_V \<noteq> 0
      then walk_loop ka l (PTE2PA (load64 (mem s) pte)) va alloc s
      else if \<not> alloc then (0, s)
      else let (p, s1) = ka s in
        if p = 0 then (0, s1)
        else let s2 = s1\<lparr>mem := memset (mem s1) p 0 PGSIZE\<rparr>;
                 s3 = s2\<lparr>mem := store64 (mem s2) pte (PA2PTE p OR PTE_V)\<rparr>
             in walk_loop ka l p va alloc s3)"

definition walk :: "'a machine_scheme alloc_fn \<Rightarrow> u64 \<Rightarrow> u64 \<Rightarrow> bool \<Rightarrow> 'a machine_scheme \<Rightarrow>
    (u64 \<times> 'a machine_scheme) res" where
  "walk ka pagetable va alloc s =
     (if va \<ge> MAXVA then Inl (Panic ''walk'') else Inr (walk_loop ka 2 pagetable va alloc s))"

definition walkaddr :: "'a machine_scheme alloc_fn \<Rightarrow> u64 \<Rightarrow> u64 \<Rightarrow> 'a machine_scheme \<Rightarrow> u64 res" where
  "walkaddr ka pagetable va s =
     (if va \<ge> MAXVA then Inr 0
      else bindR (walk ka pagetable va False s) (\<lambda>(pte, s).
        if pte = 0 then Inr 0
        else if load64 (mem s) pte AND PTE_V = 0 then Inr 0
        else if load64 (mem s) pte AND PTE_U = 0 then Inr 0
        else Inr (PTE2PA (load64 (mem s) pte))))"

section \<open>Adding and removing mappings\<close>

lemma walk_Inr_lt: "walk ka pt va alloc s = Inr x \<Longrightarrow> unat va < 2 ^ 38"
  using unat_MAXVA by (auto simp: walk_def word_le_nat_alt split: if_splits)

lemma va_step: "unat va < 2 ^ 39 \<Longrightarrow> unat (va + PGSIZE) = unat va + 4096"
  by (subst unat_add_lem[THEN iffD1]) simp_all

text \<open>
  The loop has no bound of its own in C (\<open>for(;;)\<close>): it ends at the last page or when \<open>walk\<close>
  panics above \<open>MAXVA\<close>.
\<close>

function mappages_loop :: "'a machine_scheme alloc_fn \<Rightarrow> u64 \<Rightarrow> u64 \<Rightarrow> u64 \<Rightarrow> u64 \<Rightarrow> u64 \<Rightarrow>
    'a machine_scheme \<Rightarrow> (int \<times> 'a machine_scheme) res" where
  "mappages_loop ka pagetable a last_a pa perm s =
     bindR (walk ka pagetable a True s) (\<lambda>(pte, s1).
       if pte = 0 then Inr (-1, s1)
       else if load64 (mem s1) pte AND PTE_V \<noteq> 0 then Inl (Panic ''mappages: remap'')
       else let s2 = s1\<lparr>mem := store64 (mem s1) pte (PA2PTE pa OR perm OR PTE_V)\<rparr> in
         if a = last_a then Inr (0, s2)
         else mappages_loop ka pagetable (a + PGSIZE) last_a (pa + PGSIZE) perm s2)"
  by pat_completeness auto
termination
  by (relation "measure (\<lambda>(ka, pagetable, a, last_a, pa, perm, s). 2 ^ 39 - unat a)")
     (auto dest!: walk_Inr_lt simp: va_step)

declare mappages_loop.simps [simp del]

definition mappages :: "'a machine_scheme alloc_fn \<Rightarrow> u64 \<Rightarrow> u64 \<Rightarrow> u64 \<Rightarrow> u64 \<Rightarrow> u64 \<Rightarrow>
    'a machine_scheme \<Rightarrow> (int \<times> 'a machine_scheme) res" where
  "mappages ka pagetable va sz pa perm s =
     (if sz = 0 then Inl (Panic ''mappages: size'')
      else mappages_loop ka pagetable (PGROUNDDOWN va) (PGROUNDDOWN (va + sz - 1)) pa perm s)"

definition kvmmap :: "'a machine_scheme alloc_fn \<Rightarrow> u64 \<Rightarrow> u64 \<Rightarrow> u64 \<Rightarrow> u64 \<Rightarrow> u64 \<Rightarrow>
    'a machine_scheme \<Rightarrow> 'a machine_scheme res" where
  "kvmmap ka kpgtbl va pa sz perm s =
     bindR (mappages ka kpgtbl va sz pa perm s) (\<lambda>(r, s1).
       if r \<noteq> 0 then Inl (Panic ''kvmmap'') else Inr s1)"

function uvmunmap_loop :: "'a machine_scheme alloc_fn \<Rightarrow> 'a machine_scheme free_fn \<Rightarrow> u64 \<Rightarrow> u64 \<Rightarrow>
    u64 \<Rightarrow> bool \<Rightarrow> 'a machine_scheme \<Rightarrow> 'a machine_scheme res" where
  "uvmunmap_loop ka kf pagetable a lim do_free s =
     (if a < lim then
        bindR (walk ka pagetable a False s) (\<lambda>(pte, s1).
          if pte = 0 then Inl (Panic ''uvmunmap: walk'')
          else if load64 (mem s1) pte AND PTE_V = 0 then Inl (Panic ''uvmunmap: not mapped'')
          else if PTE_FLAGS (load64 (mem s1) pte) = PTE_V then Inl (Panic ''uvmunmap: not a leaf'')
          else bindR (if do_free then kf (PTE2PA (load64 (mem s1) pte)) s1 else Inr s1) (\<lambda>s2.
            uvmunmap_loop ka kf pagetable (a + PGSIZE) lim do_free
              (s2\<lparr>mem := store64 (mem s2) pte 0\<rparr>)))
      else Inr s)"
  by pat_completeness auto
termination
  by (relation "measure (\<lambda>(ka, kf, pagetable, a, lim, do_free, s). 2 ^ 39 - unat a)")
     (auto dest!: walk_Inr_lt simp: va_step)

declare uvmunmap_loop.simps [simp del]

definition uvmunmap :: "'a machine_scheme alloc_fn \<Rightarrow> 'a machine_scheme free_fn \<Rightarrow> u64 \<Rightarrow> u64 \<Rightarrow>
    u64 \<Rightarrow> bool \<Rightarrow> 'a machine_scheme \<Rightarrow> 'a machine_scheme res" where
  "uvmunmap ka kf pagetable va npages do_free s =
     (if va mod PGSIZE \<noteq> 0 then Inl (Panic ''uvmunmap: not aligned'')
      else uvmunmap_loop ka kf pagetable va (va + npages * PGSIZE) do_free s)"

definition uvmcreate :: "'a machine_scheme alloc_fn \<Rightarrow> 'a machine_scheme \<Rightarrow> u64 \<times> 'a machine_scheme" where
  "uvmcreate ka s =
     (let (pagetable, s1) = ka s in
      if pagetable = 0 then (0, s1)
      else (pagetable, s1\<lparr>mem := memset (mem s1) pagetable 0 PGSIZE\<rparr>))"

text \<open>
  \<open>uvminit\<close> does not test the page it gets from \<open>kalloc\<close>: filling page 0 is an invalid access. The
  status of \<open>mappages\<close> is dropped.
\<close>

definition uvminit :: "'a machine_scheme alloc_fn \<Rightarrow> u64 \<Rightarrow> u8 list \<Rightarrow> 'a machine_scheme \<Rightarrow>
    'a machine_scheme res" where
  "uvminit ka pagetable src s =
     (if length src \<ge> unat PGSIZE then Inl (Panic ''inituvm: more than a page'')
      else let (p, s1) = ka s in
        if p = 0 then Inl Fault
        else let s2 = s1\<lparr>mem := memset (mem s1) p 0 PGSIZE\<rparr> in
          bindR (mappages ka pagetable 0 PGSIZE p (PTE_W OR PTE_R OR PTE_X OR PTE_U) s2) (\<lambda>(r, s3).
            Inr (s3\<lparr>mem := write_bytes (mem s3) p src\<rparr>)))"

text \<open>The C \<open>int npages\<close> is the quotient cut to 32 bits and extended with its sign.\<close>

definition uvmdealloc :: "'a machine_scheme alloc_fn \<Rightarrow> 'a machine_scheme free_fn \<Rightarrow> u64 \<Rightarrow> u64 \<Rightarrow>
    u64 \<Rightarrow> 'a machine_scheme \<Rightarrow> (u64 \<times> 'a machine_scheme) res" where
  "uvmdealloc ka kf pagetable oldsz newsz s =
     (if newsz \<ge> oldsz then Inr (oldsz, s)
      else if PGROUNDUP newsz < PGROUNDUP oldsz
      then let npages = scast (ucast ((PGROUNDUP oldsz - PGROUNDUP newsz) div PGSIZE) :: u32) in
        bindR (uvmunmap ka kf pagetable (PGROUNDUP newsz) npages True s) (\<lambda>s1. Inr (newsz, s1))
      else Inr (newsz, s))"

lemma mappages_Inr_lt:
  assumes "mappages ka pt a n p perm s = Inr x"
  shows "unat a < 2 ^ 39"
proof -
  from assms obtain y where "walk ka pt (PGROUNDDOWN a) True s = Inr y"
    by (auto simp: mappages_def mappages_loop.simps [of ka pt "PGROUNDDOWN a"] bindR_Inr_iff
        split: if_splits)
  then have "unat (PGROUNDDOWN a) < 2 ^ 38" by (rule walk_Inr_lt)
  moreover have "unat a mod 4096 < 4096" by simp
  ultimately show ?thesis by (simp add: unat_PGROUNDDOWN)
qed

function uvmalloc_loop :: "'a machine_scheme alloc_fn \<Rightarrow> 'a machine_scheme free_fn \<Rightarrow> u64 \<Rightarrow> u64 \<Rightarrow>
    u64 \<Rightarrow> u64 \<Rightarrow> 'a machine_scheme \<Rightarrow> (u64 \<times> 'a machine_scheme) res" where
  "uvmalloc_loop ka kf pagetable oldsz newsz a s =
     (if a < newsz then
        let (p, s1) = ka s in
        if p = 0 then
          bindR (uvmdealloc ka kf pagetable a oldsz s1) (\<lambda>(_, s2). Inr (0, s2))
        else
          let s2 = s1\<lparr>mem := memset (mem s1) p 0 PGSIZE\<rparr> in
          bindR (mappages ka pagetable a PGSIZE p (PTE_W OR PTE_X OR PTE_R OR PTE_U) s2) (\<lambda>(r, s3).
            if r \<noteq> 0 then
              bindR (kf p s3) (\<lambda>s4.
                bindR (uvmdealloc ka kf pagetable a oldsz s4) (\<lambda>(_, s5). Inr (0, s5)))
            else uvmalloc_loop ka kf pagetable oldsz newsz (a + PGSIZE) s3)
      else Inr (newsz, s))"
  by pat_completeness auto
termination
  by (relation "measure (\<lambda>(ka, kf, pagetable, oldsz, newsz, a, s). 2 ^ 40 - unat a)")
     (auto dest!: mappages_Inr_lt simp: va_step)

declare uvmalloc_loop.simps [simp del]

definition uvmalloc :: "'a machine_scheme alloc_fn \<Rightarrow> 'a machine_scheme free_fn \<Rightarrow> u64 \<Rightarrow> u64 \<Rightarrow>
    u64 \<Rightarrow> 'a machine_scheme \<Rightarrow> (u64 \<times> 'a machine_scheme) res" where
  "uvmalloc ka kf pagetable oldsz newsz s =
     (if newsz < oldsz then Inr (oldsz, s)
      else uvmalloc_loop ka kf pagetable (PGROUNDUP oldsz) newsz (PGROUNDUP oldsz) s)"

section \<open>Destroying a page table\<close>

text \<open>
  \<open>freewalk\<close> recurses through memory; the first argument bounds the depth of the recursion. Three
  levels are enough for every well-formed table.
\<close>

fun freewalk :: "'a machine_scheme free_fn \<Rightarrow> nat \<Rightarrow> u64 \<Rightarrow> 'a machine_scheme \<Rightarrow> 'a machine_scheme res" where
  "freewalk kf 0 pagetable s = Inl NoFuel"
| "freewalk kf (Suc d) pagetable s =
     bindR (fold_res (\<lambda>i s.
         let a = slot pagetable (of_nat i); pte = load64 (mem s) a in
         if pte AND PTE_V \<noteq> 0 \<and> pte AND (PTE_R OR PTE_W OR PTE_X) = 0
         then bindR (freewalk kf d (PTE2PA pte) s) (\<lambda>s1. Inr (s1\<lparr>mem := store64 (mem s1) a 0\<rparr>))
         else if pte AND PTE_V \<noteq> 0 then Inl (Panic ''freewalk: leaf'')
         else Inr s) [0..<512] s)
       (\<lambda>s. kf pagetable s)"

definition uvmfree :: "'a machine_scheme alloc_fn \<Rightarrow> 'a machine_scheme free_fn \<Rightarrow> u64 \<Rightarrow> u64 \<Rightarrow>
    'a machine_scheme \<Rightarrow> 'a machine_scheme res" where
  "uvmfree ka kf pagetable sz s =
     bindR (if sz > 0 then uvmunmap ka kf pagetable 0 (PGROUNDUP sz div PGSIZE) True s else Inr s)
       (\<lambda>s1. freewalk kf 3 pagetable s1)"

section \<open>Copying address spaces and buffers\<close>

function uvmcopy_loop :: "'a machine_scheme alloc_fn \<Rightarrow> 'a machine_scheme free_fn \<Rightarrow> u64 \<Rightarrow> u64 \<Rightarrow>
    u64 \<Rightarrow> u64 \<Rightarrow> 'a machine_scheme \<Rightarrow> (int \<times> 'a machine_scheme) res" where
  "uvmcopy_loop ka kf old new sz i s =
     (if i < sz then
        bindR (walk ka old i False s) (\<lambda>(pte, s1).
          if pte = 0 then Inl (Panic ''uvmcopy: pte should exist'')
          else if load64 (mem s1) pte AND PTE_V = 0 then Inl (Panic ''uvmcopy: page not present'')
          else let pa = PTE2PA (load64 (mem s1) pte);
                   flags = PTE_FLAGS (load64 (mem s1) pte);
                   (p, s2) = ka s1 in
            if p = 0 then
              bindR (uvmunmap ka kf new 0 (i div PGSIZE) True s2) (\<lambda>s3. Inr (-1, s3))
            else let s3 = s2\<lparr>mem := memmove (mem s2) p pa PGSIZE\<rparr> in
              bindR (mappages ka new i PGSIZE p flags s3) (\<lambda>(r, s4).
                if r \<noteq> 0 then
                  bindR (kf p s4) (\<lambda>s5.
                    bindR (uvmunmap ka kf new 0 (i div PGSIZE) True s5) (\<lambda>s6. Inr (-1, s6)))
                else uvmcopy_loop ka kf old new sz (i + PGSIZE) s4))
      else Inr (0, s))"
  by pat_completeness auto
termination
  by (relation "measure (\<lambda>(ka, kf, old, new, sz, i, s). 2 ^ 40 - unat i)")
     (auto dest!: mappages_Inr_lt simp: va_step)

declare uvmcopy_loop.simps [simp del]

definition uvmcopy :: "'a machine_scheme alloc_fn \<Rightarrow> 'a machine_scheme free_fn \<Rightarrow> u64 \<Rightarrow> u64 \<Rightarrow>
    u64 \<Rightarrow> 'a machine_scheme \<Rightarrow> (int \<times> 'a machine_scheme) res" where
  "uvmcopy ka kf old new sz s = uvmcopy_loop ka kf old new sz 0 s"

definition uvmclear :: "'a machine_scheme alloc_fn \<Rightarrow> u64 \<Rightarrow> u64 \<Rightarrow> 'a machine_scheme \<Rightarrow>
    'a machine_scheme res" where
  "uvmclear ka pagetable va s =
     bindR (walk ka pagetable va False s) (\<lambda>(pte, s1).
       if pte = 0 then Inl (Panic ''uvmclear'')
       else Inr (s1\<lparr>mem := store64 (mem s1) pte (load64 (mem s1) pte AND NOT PTE_U)\<rparr>))"

text \<open>\<open>n = PGSIZE - (va - va0)\<close>, cut to what is left: at least one byte.\<close>

definition copy_chunk :: "u64 \<Rightarrow> nat \<Rightarrow> nat" where
  "copy_chunk va len = min (unat (PGSIZE - (va - PGROUNDDOWN va))) len"

lemma copy_chunk_pos: "0 < len \<Longrightarrow> 0 < copy_chunk va len"
proof -
  have "va - PGROUNDDOWN va < PGSIZE" by (rule page_offset_lt)
  then have "PGSIZE - (va - PGROUNDDOWN va) \<noteq> 0" by auto
  then show "0 < len \<Longrightarrow> 0 < copy_chunk va len"
    by (simp add: copy_chunk_def unat_gt_0)
qed

function copyout :: "'a machine_scheme alloc_fn \<Rightarrow> u64 \<Rightarrow> u64 \<Rightarrow> u8 list \<Rightarrow> 'a machine_scheme \<Rightarrow>
    (int \<times> 'a machine_scheme) res" where
  "copyout ka pagetable dstva src s =
     (if 0 < length src then
        let va0 = PGROUNDDOWN dstva in
        bindR (walkaddr ka pagetable va0 s) (\<lambda>pa0.
          if pa0 = 0 then Inr (-1, s)
          else let n = copy_chunk dstva (length src) in
            copyout ka pagetable (va0 + PGSIZE) (drop n src)
              (s\<lparr>mem := write_bytes (mem s) (pa0 + (dstva - va0)) (take n src)\<rparr>))
      else Inr (0, s))"
  by pat_completeness auto
termination
  by (relation "measure (\<lambda>(ka, pagetable, dstva, src, s). length src)")
     (use copy_chunk_pos in auto)

declare copyout.simps [simp del]

text \<open>\<open>copyin\<close> returns the status and the bytes it has put into the kernel buffer.\<close>

function copyin :: "'a machine_scheme alloc_fn \<Rightarrow> u64 \<Rightarrow> u64 \<Rightarrow> nat \<Rightarrow> 'a machine_scheme \<Rightarrow>
    (int \<times> u8 list) res" where
  "copyin ka pagetable srcva len s =
     (if 0 < len then
        let va0 = PGROUNDDOWN srcva in
        bindR (walkaddr ka pagetable va0 s) (\<lambda>pa0.
          if pa0 = 0 then Inr (-1, [])
          else let n = copy_chunk srcva len in
            bindR (copyin ka pagetable (va0 + PGSIZE) (len - n) s) (\<lambda>(r, bs).
              Inr (r, read_bytes (mem s) (pa0 + (srcva - va0)) n @ bs)))
      else Inr (0, []))"
  by pat_completeness auto
termination
  by (relation "measure (\<lambda>(ka, pagetable, srcva, len, s). len)") (use copy_chunk_pos in auto)

declare copyin.simps [simp del]

text \<open>The inner loop of \<open>copyinstr\<close>: the bytes stored, and whether the null byte was among them.\<close>

fun copy_until_nul :: "u8 list \<Rightarrow> u8 list \<times> bool" where
  "copy_until_nul [] = ([], False)"
| "copy_until_nul (b # bs) =
     (if b = 0 then ([0], True) else let (r, z) = copy_until_nul bs in (b # r, z))"

function copyinstr :: "'a machine_scheme alloc_fn \<Rightarrow> u64 \<Rightarrow> u64 \<Rightarrow> nat \<Rightarrow> 'a machine_scheme \<Rightarrow>
    (int \<times> u8 list) res" where
  "copyinstr ka pagetable srcva mx s =
     (if 0 < mx then
        let va0 = PGROUNDDOWN srcva in
        bindR (walkaddr ka pagetable va0 s) (\<lambda>pa0.
          if pa0 = 0 then Inr (-1, [])
          else let n = copy_chunk srcva mx;
                   (bs, got_null) = copy_until_nul (read_bytes (mem s) (pa0 + (srcva - va0)) n) in
            if got_null then Inr (0, bs)
            else bindR (copyinstr ka pagetable (va0 + PGSIZE) (mx - n) s) (\<lambda>(r, bs').
              Inr (r, bs @ bs')))
      else Inr (-1, []))"
  by pat_completeness auto
termination
  by (relation "measure (\<lambda>(ka, pagetable, srcva, mx, s). mx)") (use copy_chunk_pos in auto)

declare copyinstr.simps [simp del]

section \<open>Printing a page table\<close>

text \<open>
  \<open>vmprint\<close> writes one line per valid entry: the depth (number of dots), the index, the entry and
  the physical address. The value is the list of lines; the first argument bounds the depth.
\<close>

record vmline =
  vl_level :: nat
  vl_index :: nat
  vl_pte :: u64
  vl_pa :: u64

fun vmprint_from :: "nat \<Rightarrow> nat \<Rightarrow> memory \<Rightarrow> u64 \<Rightarrow> vmline list" where
  "vmprint_from 0 level m pagetable = []"
| "vmprint_from (Suc d) level m pagetable =
     concat (map (\<lambda>i.
       let pte = load64 m (slot pagetable (of_nat i)) in
       if pte AND PTE_V \<noteq> 0
       then \<lparr>vl_level = level, vl_index = i, vl_pte = pte, vl_pa = PTE2PA pte\<rparr> #
            (if pte AND (PTE_R OR PTE_W OR PTE_X) = 0
             then vmprint_from d (level + 1) m (PTE2PA pte) else [])
       else []) [0..<512])"

definition vmprint :: "u64 \<Rightarrow> 'a machine_scheme \<Rightarrow> vmline list" where
  "vmprint pagetable s = vmprint_from 3 1 (mem s) pagetable"

end
