(* ===== verification/PageTable.thy ===== *)
theory PageTable
  imports Vm
begin

text \<open>
  The tree a page table forms in memory. A table of level \<open>l\<close> is a page of 512 entries; at a level
  above 0 every valid entry points to a table of the level below. \<open>tpages\<close> is the set of pages of
  the tree, \<open>pt_wf\<close> says that it is a tree (no page is shared) of pages the allocator manages,
  \<open>leaf_addr\<close> is the address of the level-0 entry of a virtual address, and \<open>lookup\<close> is the abstract
  view of the whole table: the partial map from virtual addresses to valid entries. The
  lemmas of this theory are about memory only; they say how the tree and the map change when
  one entry is written, when a subtree changes, and when a fresh page is linked.
\<close>

definition entry :: "memory \<Rightarrow> u64 \<Rightarrow> u64 \<Rightarrow> u64" where
  "entry m p i = load64 m (slot p i)"

abbreviation valid :: "u64 \<Rightarrow> bool" where
  "valid pte \<equiv> pte AND PTE_V \<noteq> 0"

abbreviation is_table :: "u64 \<Rightarrow> bool" where
  "is_table pte \<equiv> pte AND (PTE_R OR PTE_W OR PTE_X) = 0"

fun tpages :: "nat \<Rightarrow> memory \<Rightarrow> u64 \<Rightarrow> u64 set" where
  "tpages 0 m p = {p}"
| "tpages (Suc l) m p =
     insert p (\<Union>i \<in> {i. i < 512 \<and> valid (entry m p i)}. tpages l m (PTE2PA (entry m p i)))"

fun pt_wf :: "nat \<Rightarrow> memory \<Rightarrow> u64 \<Rightarrow> u64 \<Rightarrow> bool" where
  "pt_wf 0 m e p \<longleftrightarrow> managed e p"
| "pt_wf (Suc l) m e p \<longleftrightarrow> managed e p \<and>
     (\<forall>i<512. valid (entry m p i) \<longrightarrow>
        is_table (entry m p i) \<and> pt_wf l m e (PTE2PA (entry m p i)) \<and>
        p \<notin> tpages l m (PTE2PA (entry m p i))) \<and>
     (\<forall>i<512. \<forall>j<512. i \<noteq> j \<longrightarrow> valid (entry m p i) \<longrightarrow> valid (entry m p j) \<longrightarrow>
        tpages l m (PTE2PA (entry m p i)) \<inter> tpages l m (PTE2PA (entry m p j)) = {})"

fun leaf_addr :: "nat \<Rightarrow> memory \<Rightarrow> u64 \<Rightarrow> u64 \<Rightarrow> u64" where
  "leaf_addr 0 m p va = slot p (PX 0 va)"
| "leaf_addr (Suc l) m p va =
     (let pte = entry m p (PX (Suc l) va) in
      if valid pte then leaf_addr l m (PTE2PA pte) va else 0)"

fun lookup :: "nat \<Rightarrow> memory \<Rightarrow> u64 \<Rightarrow> u64 \<Rightarrow> u64 option" where
  "lookup 0 m p va = (let pte = entry m p (PX 0 va) in if valid pte then Some pte else None)"
| "lookup (Suc l) m p va =
     (let pte = entry m p (PX (Suc l) va) in
      if valid pte then lookup l m (PTE2PA pte) va else None)"

lemma walk_loop_no_alloc: "walk_loop ka l p va False s = (leaf_addr l (mem s) p va, s)"
  by (induction l arbitrary: p) (auto simp: entry_def Let_def)

lemma pt_wf_managed: "pt_wf l m e p \<Longrightarrow> managed e p"
  by (cases l) auto

lemma root_in_tpages [simp]: "p \<in> tpages l m p"
  by (cases l) auto

lemma tpages_managed: "pt_wf l m e p \<Longrightarrow> q \<in> tpages l m p \<Longrightarrow> managed e q"
  by (induction l arbitrary: p) auto

lemma child_subset:
  "i < 512 \<Longrightarrow> valid (entry m p i) \<Longrightarrow> tpages l m (PTE2PA (entry m p i)) \<subseteq> tpages (Suc l) m p"
  by auto

lemma entry_same_outside:
  "same_outside P m m' \<Longrightarrow> page_aligned p \<Longrightarrow> p \<notin> P \<Longrightarrow> i < 512 \<Longrightarrow> entry m' p i = entry m p i"
  unfolding entry_def
  by (rule load64_same_outside) (simp_all add: page_simps)

lemma lookup_cong: "(\<And>k. k \<le> l \<Longrightarrow> PX k va = PX k va') \<Longrightarrow> lookup l m p va = lookup l m p va'"
proof (induction l arbitrary: p)
  case 0
  then show ?case by simp
next
  case (Suc l)
  have "lookup l m q va = lookup l m q va'" for q using Suc by simp
  then show ?case using Suc.prems[of "Suc l"] by (simp add: Let_def)
qed

section \<open>Frame\<close>

lemma tree_frame:
  assumes "pt_wf l m e p" "same_outside P m m'" "P \<inter> tpages l m p = {}"
  shows "tpages l m' p = tpages l m p \<and> pt_wf l m' e p \<and> lookup l m' p = lookup l m p \<and>
         leaf_addr l m' p = leaf_addr l m p"
  using assms
proof (induction l arbitrary: p)
  case 0
  then have "entry m' p i = entry m p i" if "i < 512" for i
    using that by (intro entry_same_outside) (auto simp: managed_def)
  with 0 show ?case by (auto simp: fun_eq_iff)
next
  case (Suc l)
  have e: "entry m' p i = entry m p i" if "i < 512" for i
    using that Suc.prems by (intro entry_same_outside) (auto simp: managed_def)
  have sub: "tpages l m' (PTE2PA (entry m p i)) = tpages l m (PTE2PA (entry m p i)) \<and>
      pt_wf l m' e (PTE2PA (entry m p i)) \<and>
      lookup l m' (PTE2PA (entry m p i)) = lookup l m (PTE2PA (entry m p i)) \<and>
      leaf_addr l m' (PTE2PA (entry m p i)) = leaf_addr l m (PTE2PA (entry m p i))"
    if "i < 512" "valid (entry m p i)" for i
    using that Suc.prems child_subset[OF that] by (intro Suc.IH) auto
  have "tpages (Suc l) m' p = tpages (Suc l) m p" by (simp add: e sub cong: conj_cong)
  moreover have "pt_wf (Suc l) m' e p" using Suc.prems(1) by (simp add: e sub)
  moreover have "lookup (Suc l) m' p = lookup (Suc l) m p"
    "leaf_addr (Suc l) m' p = leaf_addr (Suc l) m p"
    by (auto simp: fun_eq_iff e sub Let_def)
  ultimately show ?case by blast
qed

lemmas tree_frameD =
  tree_frame[THEN conjunct1]
  tree_frame[THEN conjunct2, THEN conjunct1]
  tree_frame[THEN conjunct2, THEN conjunct2, THEN conjunct1]
  tree_frame[THEN conjunct2, THEN conjunct2, THEN conjunct2]

section \<open>Changing one subtree\<close>

text \<open>
  The subtree below entry \<open>i\<close> changes and may grow by pages outside the tree; everything else
  of the tree stays.
\<close>

lemma subtree_replace:
  fixes m m' :: memory
  assumes wf: "pt_wf (Suc l) m e p" and i: "i < 512" "valid (entry m p i)"
    and c: "c = PTE2PA (entry m p i)"
    and so: "same_outside (tpages l m c \<union> N) m m'"
    and N: "N \<inter> tpages (Suc l) m p = {}"
    and wf': "pt_wf l m' e c" and tp': "tpages l m' c = tpages l m c \<union> N"
  shows "pt_wf (Suc l) m' e p \<and> tpages (Suc l) m' p = tpages (Suc l) m p \<union> N \<and>
    (\<forall>va. lookup (Suc l) m' p va =
       (if PX (Suc l) va = i then lookup l m' c va else lookup (Suc l) m p va)) \<and>
    (\<forall>va. leaf_addr (Suc l) m' p va =
       (if PX (Suc l) va = i then leaf_addr l m' c va else leaf_addr (Suc l) m p va))"
proof -
  let ?ch = "\<lambda>j. PTE2PA (entry m p j)"
  have p: "p \<notin> tpages l m c \<union> N" "page_aligned p"
    using wf i c N by (auto simp: managed_def)
  have e: "entry m' p j = entry m p j" if "j < 512" for j
    using entry_same_outside[OF so] p that by blast
  have other: "tpages l m' (?ch j) = tpages l m (?ch j) \<and> pt_wf l m' e (?ch j) \<and>
      lookup l m' (?ch j) = lookup l m (?ch j) \<and> leaf_addr l m' (?ch j) = leaf_addr l m (?ch j)"
    if j: "j < 512" "valid (entry m p j)" "j \<noteq> i" for j
  proof -
    have "tpages l m (?ch j) \<inter> tpages l m c = {}"
      using wf i j c by auto
    moreover have "tpages l m (?ch j) \<inter> N = {}"
      using N child_subset[OF j(1,2), of l] by auto
    ultimately show ?thesis using wf j by (intro tree_frame[OF _ so]) auto
  qed
  have tp: "tpages l m' (?ch j) = (if j = i then tpages l m c \<union> N else tpages l m (?ch j))"
    if "j < 512" "valid (entry m p j)" for j
    using that other[of j] tp' c by auto
  have subN: "tpages l m (?ch j) \<inter> N = {}" if "j < 512" "valid (entry m p j)" for j
    using N child_subset[OF that, of l] by auto
  have "pt_wf (Suc l) m' e p"
  proof -
    have 1: "\<forall>j<512. valid (entry m' p j) \<longrightarrow> is_table (entry m' p j) \<and>
        pt_wf l m' e (PTE2PA (entry m' p j)) \<and> p \<notin> tpages l m' (PTE2PA (entry m' p j))"
      using wf p wf' c other by (auto simp: e tp)
    have 2: "\<forall>j<512. \<forall>k<512. j \<noteq> k \<longrightarrow> valid (entry m' p j) \<longrightarrow> valid (entry m' p k) \<longrightarrow>
        tpages l m' (PTE2PA (entry m' p j)) \<inter> tpages l m' (PTE2PA (entry m' p k)) = {}"
    proof (intro allI impI)
      fix j k assume jk: "j < 512" "k < 512" "j \<noteq> k" "valid (entry m' p j)" "valid (entry m' p k)"
      then have v: "valid (entry m p j)" "valid (entry m p k)" by (simp_all add: e)
      have d: "tpages l m (?ch j) \<inter> tpages l m (?ch k) = {}"
        using wf jk(1,2,3) v by simp
      show "tpages l m' (PTE2PA (entry m' p j)) \<inter> tpages l m' (PTE2PA (entry m' p k)) = {}"
        using d subN[OF jk(1) v(1)] subN[OF jk(2) v(2)] jk c
        by (auto simp: e tp[OF jk(1) v(1)] tp[OF jk(2) v(2)])
    qed
    from wf 1 2 show ?thesis by simp
  qed
  moreover have "tpages (Suc l) m' p = tpages (Suc l) m p \<union> N"
  proof
    show "tpages (Suc l) m' p \<subseteq> tpages (Suc l) m p \<union> N"
      using i c by (auto simp: e tp split: if_splits)
    show "tpages (Suc l) m p \<union> N \<subseteq> tpages (Suc l) m' p"
      using i c tp[OF i] by (auto simp: e) (metis tp Un_iff)+
  qed
  moreover have "lookup (Suc l) m' p va =
      (if PX (Suc l) va = i then lookup l m' c va else lookup (Suc l) m p va)"
    "leaf_addr (Suc l) m' p va =
      (if PX (Suc l) va = i then leaf_addr l m' c va else leaf_addr (Suc l) m p va)" for va
    using i c other[of "PX (Suc l) va"] by (auto simp: e Let_def)
  ultimately show ?thesis by blast
qed

section \<open>Writing a leaf entry\<close>

definition same_vpn :: "nat \<Rightarrow> u64 \<Rightarrow> u64 \<Rightarrow> bool" where
  "same_vpn l va va' \<longleftrightarrow> (\<forall>k\<le>l. PX k va = PX k va')"

lemma same_vpn_Suc: "same_vpn (Suc l) va va' \<longleftrightarrow> PX (Suc l) va = PX (Suc l) va' \<and> same_vpn l va va'"
  by (auto simp: same_vpn_def le_Suc_eq)

lemma same_vpn_refl [simp]: "same_vpn l va va"
  by (simp add: same_vpn_def)

lemma leaf_addr_page:
  "pt_wf l m e p \<Longrightarrow> leaf_addr l m p va \<noteq> 0 \<Longrightarrow>
     aligned8 (leaf_addr l m p va) \<and> PGROUNDDOWN (leaf_addr l m p va) \<in> tpages l m p"
proof (induction l arbitrary: p)
  case 0
  then show ?case by (simp add: page_simps managedD)
next
  case (Suc l)
  let ?i = "PX (Suc l) va"
  let ?c = "PTE2PA (entry m p ?i)"
  from Suc.prems have v: "valid (entry m p ?i)" and a: "leaf_addr (Suc l) m p va = leaf_addr l m ?c va"
    "leaf_addr l m ?c va \<noteq> 0"
    by (auto simp: Let_def split: if_splits)
  have "pt_wf l m e ?c" using Suc.prems v by simp
  from Suc.IH[OF this a(2)] child_subset[OF PX_lt v, of l] show ?case
    unfolding a(1) by blast
qed

lemma entry_store64:
  assumes "page_aligned p" "page_aligned q" "i < 512" "j < 512"
  shows "entry (store64 m (slot p i) v) q j = (if p = q \<and> i = j then v else entry m q j)"
proof (cases "slot p i = slot q j")
  case True
  then have "p = q" "i = j" using assms by (simp_all add: slot_inject)
  then show ?thesis by (simp add: entry_def mem_simps)
next
  case False
  with load64_store64_other[OF aligned8_slot[OF assms(1,3)] aligned8_slot[OF assms(2,4)]]
  show ?thesis by (auto simp: entry_def)
qed

lemma leaf_store:
  assumes "pt_wf l m e p" "leaf_addr l m p va \<noteq> 0"
  shows "pt_wf l (store64 m (leaf_addr l m p va) v) e p \<and>
    tpages l (store64 m (leaf_addr l m p va) v) p = tpages l m p \<and>
    (\<forall>va'. lookup l (store64 m (leaf_addr l m p va) v) p va' =
       (if same_vpn l va' va then (if valid v then Some v else None) else lookup l m p va')) \<and>
    leaf_addr l (store64 m (leaf_addr l m p va) v) p = leaf_addr l m p"
  using assms
proof (induction l arbitrary: p)
  case 0
  then show ?case
    by (auto simp: entry_store64 managedD same_vpn_def Let_def)
next
  case (Suc l)
  let ?i = "PX (Suc l) va"
  define c where "c = PTE2PA (entry m p ?i)"
  define a where "a = leaf_addr l m c va"
  define m' where "m' = store64 m a v"
  from Suc.prems have i: "valid (entry m p ?i)" and eq: "leaf_addr (Suc l) m p va = a" and a: "a \<noteq> 0"
    by (auto simp: Let_def a_def c_def split: if_splits)
  have wf: "pt_wf l m e c" using Suc.prems i by (simp add: c_def)
  have IH: "pt_wf l m' e c" "tpages l m' c = tpages l m c \<union> {}" "leaf_addr l m' c = leaf_addr l m c"
    "\<And>va'. lookup l m' c va' =
       (if same_vpn l va' va then (if valid v then Some v else None) else lookup l m c va')"
    using Suc.IH[OF wf] a by (simp_all add: a_def m'_def)
  have pg: "aligned8 a" "PGROUNDDOWN a \<in> tpages l m c"
    using leaf_addr_page[OF wf] a by (simp_all add: a_def)
  have so: "same_outside (tpages l m c \<union> {}) m m'"
    unfolding m'_def by (rule same_outside_mono[OF same_outside_store64[OF pg(1)]]) (use pg in simp)
  have R: "pt_wf (Suc l) m' e p" "tpages (Suc l) m' p = tpages (Suc l) m p"
    "\<And>va'. lookup (Suc l) m' p va' =
      (if PX (Suc l) va' = ?i then lookup l m' c va' else lookup (Suc l) m p va')"
    "\<And>va'. leaf_addr (Suc l) m' p va' =
      (if PX (Suc l) va' = ?i then leaf_addr l m' c va' else leaf_addr (Suc l) m p va')"
    using subtree_replace[OF Suc.prems(1) PX_lt i c_def so _ IH(1,2)] by auto
  have "lookup (Suc l) m' p va' =
      (if same_vpn (Suc l) va' va then (if valid v then Some v else None) else lookup (Suc l) m p va')"
    for va'
    using i unfolding R(3) same_vpn_Suc IH(4) by (auto simp: Let_def c_def)
  moreover have "leaf_addr (Suc l) m' p va' = leaf_addr (Suc l) m p va'" for va'
    using i unfolding R(4) IH(3) by (simp add: Let_def c_def)
  ultimately show ?case using R(1,2) unfolding eq m'_def by blast
qed

lemma lookup_leaf:
  "pt_wf l m e p \<Longrightarrow> lookup l m p va =
     (let a = leaf_addr l m p va in
      if a = 0 \<or> \<not> valid (load64 m a) then None else Some (load64 m a))"
proof (induction l arbitrary: p)
  case 0
  then have "slot p (PX 0 va) \<noteq> 0" by (intro slot_nonzero) (auto simp: managed_def)
  then show ?case by (simp add: entry_def Let_def)
next
  case (Suc l)
  then show ?case by (auto simp: Let_def)
qed

section \<open>Linking a fresh table\<close>

lemma zero_page_entry: "page_aligned q \<Longrightarrow> i < 512 \<Longrightarrow> entry (memset m q 0 PGSIZE) q i = 0"
  by (simp add: entry_def mem_simps page_simps)

lemma empty_table:
  assumes "managed e q" "\<And>i. i < 512 \<Longrightarrow> entry m q i = 0"
  shows "pt_wf l m e q" "tpages l m q = {q}" "lookup l m q = (\<lambda>_. None)"
  using assms by (cases l; auto simp: fun_eq_iff Let_def)+

text \<open>
  A page outside the tree is zeroed and linked at an invalid entry: the tree gains that page
  and the abstract map does not change.
\<close>

lemma link_fresh:
  assumes wf: "pt_wf (Suc l) m e p" and i: "i < 512" "\<not> valid (entry m p i)"
    and q: "managed e q" "q \<notin> tpages (Suc l) m p"
    and so: "same_outside {q} m m1"
    and m': "m' = store64 (memset m1 q 0 PGSIZE) (slot p i) (PA2PTE q OR PTE_V)"
  shows "pt_wf (Suc l) m' e p \<and> tpages (Suc l) m' p = insert q (tpages (Suc l) m p) \<and>
    lookup (Suc l) m' p = lookup (Suc l) m p \<and> same_outside {p, q} m m' \<and>
    entry m' p i = PA2PTE q OR PTE_V \<and> valid (entry m' p i) \<and> PTE2PA (entry m' p i) = q \<and>
    (\<forall>j<512. entry m' q j = 0)"
proof -
  have al: "page_aligned p" "page_aligned q" "p \<noteq> q"
    using wf q by (auto simp: managed_def)
  have lt: "q < 2 ^ 56" using q(1) by (simp add: managed_def word_less_nat_alt unat_PHYSTOP)
  have so1: "same_outside {q} m (memset m1 q 0 PGSIZE)"
    using same_outside_trans[OF so same_outside_memset[OF al(2), of m1 0]] by simp
  have so2: "same_outside {p} (memset m1 q 0 PGSIZE) m'"
    unfolding m' using same_outside_store64[OF aligned8_slot[OF al(1) i(1)]] i(1) al(1)
    by (simp add: page_simps)
  have so': "same_outside {p, q} m m'"
    using same_outside_trans[OF so1 so2] by (simp add: insert_commute)
  have ep: "entry m' p j = (if j = i then PA2PTE q OR PTE_V else entry m p j)" if "j < 512" for j
    using that al i entry_same_outside[OF so1, of p j] by (simp add: m' entry_store64)
  have eq: "entry m' q j = 0" if "j < 512" for j
    using that al i by (simp add: m' entry_store64 zero_page_entry)
  have v: "valid (PA2PTE q OR PTE_V)" "is_table (PA2PTE q OR PTE_V)" "PTE2PA (PA2PTE q OR PTE_V) = q"
    using al lt by (simp_all add: pte_simps pte_bits)
  note new = empty_table[OF q(1) eq]
  have old: "tpages l m' (PTE2PA (entry m p j)) = tpages l m (PTE2PA (entry m p j)) \<and>
      pt_wf l m' e (PTE2PA (entry m p j)) \<and>
      lookup l m' (PTE2PA (entry m p j)) = lookup l m (PTE2PA (entry m p j))"
    if j: "j < 512" "valid (entry m p j)" for j
  proof -
    have "{p, q} \<inter> tpages l m (PTE2PA (entry m p j)) = {}"
      using wf q j child_subset[OF j, of l] by auto
    with tree_frame[OF _ so', of l e "PTE2PA (entry m p j)"] wf j show ?thesis by auto
  qed
  have qn: "q \<notin> tpages l m (PTE2PA (entry m p j))" if "j < 512" "valid (entry m p j)" for j
    using q child_subset[OF that, of l] by auto
  have "pt_wf (Suc l) m' e p"
    using wf i al v new old qn by (auto simp: ep)
  moreover have "tpages (Suc l) m' p = insert q (tpages (Suc l) m p)"
  proof
    show "tpages (Suc l) m' p \<subseteq> insert q (tpages (Suc l) m p)"
      using old v new by (auto simp: ep split: if_splits)
    have "q \<in> tpages (Suc l) m' p" using i v new by (auto simp: ep)
    moreover have "tpages l m (PTE2PA (entry m p j)) \<subseteq> tpages (Suc l) m' p"
      if j: "j < 512" "valid (entry m p j)" for j
    proof -
      have "entry m' p j = entry m p j" using j i by (auto simp: ep)
      with child_subset[of j m' p l] j old[OF j] show ?thesis by simp
    qed
    ultimately show "insert q (tpages (Suc l) m p) \<subseteq> tpages (Suc l) m' p" by auto
  qed
  moreover have "lookup (Suc l) m' p = lookup (Suc l) m p"
    using i v new old by (auto simp: fun_eq_iff ep Let_def)
  ultimately show ?thesis using so' ep[OF i(1)] v eq by simp
qed

end
