(* ===== verification/VmCorrect.thy ===== *)
theory VmCorrect
  imports PageTable
begin

text \<open>
  Correctness of the virtual memory code against its abstract view: a page table is a partial
  map from virtual pages to entries. The lemmas about code that allocates or frees are proved once,
  inside the allocator's contract \<open>page_allocator\<close>, and reach the kernel through its
  interpretations.
\<close>

definition pt_inv :: "u64 set \<Rightarrow> 'a machine_scheme \<Rightarrow> u64 \<Rightarrow> bool" where
  "pt_inv F s pt \<longleftrightarrow> pt_wf 2 (mem s) (kend s) pt \<and> tpages 2 (mem s) pt \<inter> F = {}"

abbreviation vmap :: "'a machine_scheme \<Rightarrow> u64 \<Rightarrow> u64 \<Rightarrow> u64 option" where
  "vmap s pt \<equiv> lookup 2 (mem s) pt"

section \<open>Virtual pages\<close>

lemma bit_PX: "bit (PX k va) n \<longleftrightarrow> n < 9 \<and> bit va (12 + 9 * k + n)"
  by (auto simp: PX_def PXMASK_mask PXSHIFT_def PGSHIFT_def bit_simps ac_simps dest: bit_imp_le_length)

lemma same_vpn_iff:
  assumes "unat va < 2 ^ 39" "unat va' < 2 ^ 39"
  shows "same_vpn 2 va va' \<longleftrightarrow> PGROUNDDOWN va = PGROUNDDOWN va'"
proof
  assume sv: "same_vpn 2 va va'"
  show "PGROUNDDOWN va = PGROUNDDOWN va'"
  proof (rule bit_word_eqI)
    fix n assume "n < LENGTH(64)"
    consider "n < 12" | "39 \<le> n" | k j where "k \<le> 2" "j < 9" "n = 12 + 9 * k + j"
    proof -
      have "n = 12 + 9 * ((n - 12) div 9) + (n - 12) mod 9" if "12 \<le> n"
        using that by simp
      moreover have "(n - 12) div 9 \<le> 2" if "n < 39" using that by linarith
      ultimately show thesis using that by (meson mod_less_divisor not_less zero_less_numeral)
    qed
    then show "bit (PGROUNDDOWN va) n = bit (PGROUNDDOWN va') n"
    proof cases
      case 3
      then have "bit (PX k va) j = bit (PX k va') j" using sv by (simp add: same_vpn_def)
      with 3 show ?thesis by (simp add: bit_PX PGROUNDDOWN_def PGSIZE_minus_1 bit_simps)
    next
      case 2
      then have "\<not> bit va n" "\<not> bit va' n"
        using not_bit_above[OF assms(1)] not_bit_above[OF assms(2)] by auto
      then show ?thesis by (simp add: PGROUNDDOWN_def bit_simps)
    qed (simp add: PGROUNDDOWN_def PGSIZE_minus_1 bit_simps)
  qed
next
  assume eq: "PGROUNDDOWN va = PGROUNDDOWN va'"
  have b: "bit va n = bit va' n" if "12 \<le> n" for n
  proof -
    have "bit (PGROUNDDOWN va) n = bit (PGROUNDDOWN va') n" by (simp add: eq)
    then show ?thesis using that
      by (auto simp: PGROUNDDOWN_def PGSIZE_minus_1 bit_simps dest: bit_imp_le_length)
  qed
  show "same_vpn 2 va va'"
    unfolding same_vpn_def
    by (intro allI impI bit_word_eqI) (simp add: bit_PX b)
qed

lemma below_MAXVA: "va < MAXVA \<longleftrightarrow> unat va < 2 ^ 38"
  by (simp add: word_less_nat_alt unat_MAXVA)

lemma walk_no_alloc:
  "va < MAXVA \<Longrightarrow> walk ka pt va False s = Inr (leaf_addr 2 (mem s) pt va, s)"
  by (simp add: walk_def walk_loop_no_alloc)

text \<open>\<open>walkaddr\<close> in terms of the abstract map.\<close>

lemma walkaddr_vmap:
  assumes "pt_wf 2 (mem s) e pt" "va < MAXVA"
  shows "walkaddr ka pt va s =
    Inr (case vmap s pt va of None \<Rightarrow> 0 | Some pte \<Rightarrow> if pte AND PTE_U = 0 then 0 else PTE2PA pte)"
  using assms
  by (auto simp: walkaddr_def walk_no_alloc lookup_leaf[OF assms(1)] Let_def)

lemma walkaddr_high: "\<not> va < MAXVA \<Longrightarrow> walkaddr ka pt va s = Inr 0"
  by (simp add: walkaddr_def linorder_not_less)

lemma walk_mapped:
  assumes "pt_wf 2 (mem s) e pt" "va < MAXVA" "vmap s pt va = Some pte"
  shows "walk ka pt va False s = Inr (leaf_addr 2 (mem s) pt va, s)"
    "leaf_addr 2 (mem s) pt va \<noteq> 0" "load64 (mem s) (leaf_addr 2 (mem s) pt va) = pte" "valid pte"
  using assms lookup_leaf[OF assms(1), of va]
  by (auto simp: walk_no_alloc Let_def split: if_splits)

lemma valid_pte [simp]: "valid (PA2PTE pa OR perm OR PTE_V)"
proof -
  have "bit ((PA2PTE pa OR perm OR PTE_V) AND PTE_V) 0" by (simp add: pte_bits bit_simps)
  then show ?thesis by auto
qed

lemma aligned_range_split:
  assumes "page_aligned a" "page_aligned P" "unat a < 2 ^ 38"
  shows "a \<le> P \<longleftrightarrow> P = a \<or> a + PGSIZE \<le> P"
proof -
  have u: "unat (a + PGSIZE) = unat a + 4096" using assms(3) by (intro va_step) simp
  obtain j k where jk: "unat a = 4096 * j" "unat P = 4096 * k"
    using assms(1,2) by (auto simp: page_aligned_unat elim!: dvdE)
  have "4096 * j \<le> 4096 * k \<longleftrightarrow> k = j \<or> 4096 * j + 4096 \<le> 4096 * k" by arith
  then show ?thesis
    using jk u by (simp add: word_le_nat_alt word_unat_eq_iff)
qed

section \<open>Walking with allocation\<close>

context page_allocator
begin

lemma walk_loop_alloc:
  assumes "ainv s" "pt_wf l (mem s) (kend s) p" "tpages l (mem s) p \<inter> free_pages s = {}"
    and "walk_loop kalloc_op l p va True s = (a, s')"
  shows "ainv s' \<and> kend s' = kend s \<and> free_pages s' \<subseteq> free_pages s \<and>
    pt_wf l (mem s') (kend s) p \<and>
    tpages l (mem s') p = tpages l (mem s) p \<union> (free_pages s - free_pages s') \<and>
    lookup l (mem s') p = lookup l (mem s) p \<and>
    same_outside (tpages l (mem s') p) (mem s) (mem s') \<and>
    (a = 0 \<longrightarrow> free_pages s' = {}) \<and> (a \<noteq> 0 \<longrightarrow> a = leaf_addr l (mem s') p va)"
  using assms
proof (induction l arbitrary: p s)
  case 0
  then have "slot p (PX 0 va) \<noteq> 0" by (intro slot_nonzero) (auto simp: managed_def)
  with 0 show ?case by auto
next
  case (Suc l)
  let ?i = "PX (Suc l) va"
  have below: "ainv s' \<and> kend s' = kend t \<and> free_pages s' \<subseteq> free_pages t \<and>
      pt_wf (Suc l) (mem s') (kend t) p \<and>
      tpages (Suc l) (mem s') p = tpages (Suc l) (mem t) p \<union> (free_pages t - free_pages s') \<and>
      lookup (Suc l) (mem s') p = lookup (Suc l) (mem t) p \<and>
      same_outside (tpages (Suc l) (mem s') p) (mem t) (mem s') \<and>
      (a = 0 \<longrightarrow> free_pages s' = {}) \<and> (a \<noteq> 0 \<longrightarrow> a = leaf_addr (Suc l) (mem s') p va)"
    if t: "ainv t" "pt_wf (Suc l) (mem t) (kend t) p" "tpages (Suc l) (mem t) p \<inter> free_pages t = {}"
      "valid (entry (mem t) p ?i)"
      "walk_loop kalloc_op l (PTE2PA (entry (mem t) p ?i)) va True t = (a, s')" for t
  proof -
    define c where "c = PTE2PA (entry (mem t) p ?i)"
    have sub: "tpages l (mem t) c \<subseteq> tpages (Suc l) (mem t) p"
      unfolding c_def by (rule child_subset) (use t in simp_all)
    have wfc: "pt_wf l (mem t) (kend t) c" using t(2,4) by (simp add: c_def)
    have "tpages l (mem t) c \<inter> free_pages t = {}" using sub t(3) by auto
    from Suc.IH[OF t(1) wfc this] t(5)
    have IH: "ainv s'" "kend s' = kend t" "free_pages s' \<subseteq> free_pages t"
      "pt_wf l (mem s') (kend t) c"
      "tpages l (mem s') c = tpages l (mem t) c \<union> (free_pages t - free_pages s')"
      "lookup l (mem s') c = lookup l (mem t) c"
      "same_outside (tpages l (mem s') c) (mem t) (mem s')"
      "a = 0 \<Longrightarrow> free_pages s' = {}" "a \<noteq> 0 \<Longrightarrow> a = leaf_addr l (mem s') c va"
      by (auto simp: c_def)
    have so: "same_outside (tpages l (mem t) c \<union> (free_pages t - free_pages s')) (mem t) (mem s')"
      using IH(5,7) by simp
    have N: "(free_pages t - free_pages s') \<inter> tpages (Suc l) (mem t) p = {}" using t(3) by auto
    have R: "pt_wf (Suc l) (mem s') (kend t) p"
      "tpages (Suc l) (mem s') p = tpages (Suc l) (mem t) p \<union> (free_pages t - free_pages s')"
      "\<And>va'. lookup (Suc l) (mem s') p va' =
        (if PX (Suc l) va' = ?i then lookup l (mem s') c va' else lookup (Suc l) (mem t) p va')"
      "leaf_addr (Suc l) (mem s') p va = leaf_addr l (mem s') c va"
      using subtree_replace[OF t(2) PX_lt t(4) c_def so N IH(4,5)] by auto
    have "lookup (Suc l) (mem s') p = lookup (Suc l) (mem t) p"
    proof
      fix va' show "lookup (Suc l) (mem s') p va' = lookup (Suc l) (mem t) p va'"
        unfolding R(3) IH(6) using t(4) by (simp add: c_def Let_def)
    qed
    moreover have "same_outside (tpages (Suc l) (mem s') p) (mem t) (mem s')"
      by (rule same_outside_mono[OF so]) (use R(2) sub in auto)
    ultimately show ?thesis using IH R by simp
  qed
  show ?case
  proof (cases "valid (entry (mem s) p ?i)")
    case True
    with Suc.prems(4) have "walk_loop kalloc_op l (PTE2PA (entry (mem s) p ?i)) va True s = (a, s')"
      by (simp add: entry_def Let_def)
    from below[OF Suc.prems(1,2,3) True this] show ?thesis by blast
  next
    case inv: False
    from Suc.prems(1) show ?thesis
    proof (cases rule: kalloc_cases)
      case none
      with inv Suc.prems show ?thesis by (simp add: entry_def Let_def)
    next
      case (some q s1)
      define m3 where "m3 = store64 (memset (mem s1) q 0 PGSIZE) (slot p ?i) (PA2PTE q OR PTE_V)"
      define s3 where "s3 = s1\<lparr>mem := m3\<rparr>"
      have q: "q \<notin> tpages (Suc l) (mem s) p" using some Suc.prems(3) by auto
      have L: "pt_wf (Suc l) m3 (kend s) p" "tpages (Suc l) m3 p = insert q (tpages (Suc l) (mem s) p)"
        "lookup (Suc l) m3 p = lookup (Suc l) (mem s) p" "same_outside {p, q} (mem s) m3"
        "valid (entry m3 p ?i)" "PTE2PA (entry m3 p ?i) = q"
        using link_fresh[OF Suc.prems(2) PX_lt _ some(5) q some(8) m3_def] inv by auto
      have w: "walk_loop kalloc_op l (PTE2PA (entry (mem s3) p ?i)) va True s3 = (a, s')"
        using Suc.prems(4) inv some(1,2) L(6) by (simp add: entry_def Let_def s3_def m3_def)
      have al: "page_aligned p" "page_aligned q"
        using Suc.prems(2) some(5) by (simp_all add: managed_def)
      have so3: "same_outside {q, p} (mem s1) m3"
      proof -
        have "same_outside {p} (memset (mem s1) q 0 PGSIZE) m3"
          unfolding m3_def using same_outside_store64[OF aligned8_slot[OF al(1) PX_lt]] al(1)
          by (simp add: PGROUNDDOWN_slot)
        from same_outside_trans[OF same_outside_memset[OF al(2)] this] show ?thesis
          by (simp add: insert_commute)
      qed
      have "p \<notin> free_pages s" using Suc.prems(3) root_in_tpages[of p "Suc l"] by blast
      then have "{q, p} \<inter> free_pages s1 = {}" using some by auto
      from write_page[OF some(3) so3 this]
      have t: "ainv s3" "free_pages s3 = free_pages s - {q}" "kend s3 = kend s" "mem s3 = m3"
        using some by (simp_all add: s3_def)
      have d: "tpages (Suc l) (mem s3) p \<inter> free_pages s3 = {}"
        using Suc.prems(3) L(2) t(2,4) by auto
      have B: "ainv s'" "kend s' = kend s" "free_pages s' \<subseteq> free_pages s - {q}"
        "pt_wf (Suc l) (mem s') (kend s) p"
        "tpages (Suc l) (mem s') p =
           insert q (tpages (Suc l) (mem s) p) \<union> (free_pages s - {q} - free_pages s')"
        "lookup (Suc l) (mem s') p = lookup (Suc l) (mem s) p"
        "same_outside (tpages (Suc l) (mem s') p) m3 (mem s')"
        "a = 0 \<Longrightarrow> free_pages s' = {}" "a \<noteq> 0 \<Longrightarrow> a = leaf_addr (Suc l) (mem s') p va"
        using below[OF t(1) _ d _ w] L t by auto
      have "same_outside ({p, q} \<union> tpages (Suc l) (mem s') p) (mem s) (mem s')"
        by (rule same_outside_trans[OF L(4) B(7)])
      moreover have "{p, q} \<union> tpages (Suc l) (mem s') p = tpages (Suc l) (mem s') p"
        using B(5) root_in_tpages[of p "Suc l"] by blast
      moreover have "insert q (tpages (Suc l) (mem s) p) \<union> (free_pages s - {q} - free_pages s') =
          tpages (Suc l) (mem s) p \<union> (free_pages s - free_pages s')"
        using B(3) some(4) by blast
      ultimately show ?thesis using B by auto
    qed
  qed
qed

text \<open>
  \<open>grown\<close>: the allocator and the tree are intact, the tree has gained exactly the pages the
  allocator has lost, and no other page has been written.
\<close>

definition grown :: "u64 \<Rightarrow> 'a machine_scheme \<Rightarrow> 'a machine_scheme \<Rightarrow> bool" where
  "grown pt s s' \<longleftrightarrow> ainv s' \<and> kend s' = kend s \<and> pt_inv (free_pages s') s' pt \<and>
     free_pages s' \<subseteq> free_pages s \<and>
     tpages 2 (mem s') pt = tpages 2 (mem s) pt \<union> (free_pages s - free_pages s') \<and>
     same_outside (tpages 2 (mem s') pt) (mem s) (mem s')"

lemma grown_trans: "grown pt s s1 \<Longrightarrow> grown pt s1 s2 \<Longrightarrow> grown pt s s2"
proof -
  assume a: "grown pt s s1" and b: "grown pt s1 s2"
  then have t: "tpages 2 (mem s2) pt = tpages 2 (mem s) pt \<union> (free_pages s - free_pages s2)"
    and sub: "tpages 2 (mem s1) pt \<subseteq> tpages 2 (mem s2) pt"
    by (auto simp: grown_def)
  have "same_outside (tpages 2 (mem s1) pt \<union> tpages 2 (mem s2) pt) (mem s) (mem s2)"
    using a b same_outside_trans unfolding grown_def by blast
  then have "same_outside (tpages 2 (mem s2) pt) (mem s) (mem s2)"
    by (rule same_outside_mono) (use sub in auto)
  with a b t show "grown pt s s2" by (auto simp: grown_def)
qed

lemma walk_alloc:
  assumes "ainv s" "pt_inv (free_pages s) s pt" "va < MAXVA"
  shows "\<exists>a s'. walk kalloc_op pt va True s = Inr (a, s') \<and> grown pt s s' \<and> vmap s' pt = vmap s pt \<and>
    (a = 0 \<longrightarrow> free_pages s' = {}) \<and> (a \<noteq> 0 \<longrightarrow> a = leaf_addr 2 (mem s') pt va)"
proof -
  obtain a s' where w: "walk_loop kalloc_op 2 pt va True s = (a, s')"
    by (cases "walk_loop kalloc_op 2 pt va True s")
  then have e: "walk kalloc_op pt va True s = Inr (a, s')"
    using assms(3) by (simp add: walk_def)
  have i: "pt_wf 2 (mem s) (kend s) pt" "tpages 2 (mem s) pt \<inter> free_pages s = {}"
    using assms(2) by (simp_all add: pt_inv_def)
  note W = walk_loop_alloc[OF assms(1) i w]
  have "tpages 2 (mem s') pt \<inter> free_pages s' = {}" using W i(2) by blast
  with W have "grown pt s s'" unfolding grown_def pt_inv_def by metis
  with W e show ?thesis by metis
qed

text \<open>Storing an entry at the leaf that \<open>walk\<close> found.\<close>

lemma store_leaf:
  assumes "ainv s" "pt_inv (free_pages s) s pt" "a = leaf_addr 2 (mem s) pt va" "a \<noteq> 0"
    and s': "s' = s\<lparr>mem := store64 (mem s) a v\<rparr>"
  shows "grown pt s s'" "free_pages s' = free_pages s" "last_ref s' = last_ref s"
    "vmap s' pt va' =
      (if same_vpn 2 va' va then (if valid v then Some v else None) else vmap s pt va')"
proof -
  have wf: "pt_wf 2 (mem s) (kend s) pt" and d: "tpages 2 (mem s) pt \<inter> free_pages s = {}"
    using assms(2) by (simp_all add: pt_inv_def)
  have pg: "aligned8 a" "PGROUNDDOWN a \<in> tpages 2 (mem s) pt"
    using leaf_addr_page[OF wf] assms(3,4) by auto
  have so: "same_outside {PGROUNDDOWN a} (mem s) (store64 (mem s) a v)"
    by (rule same_outside_store64[OF pg(1)])
  have "{PGROUNDDOWN a} \<inter> free_pages s = {}" using pg d by auto
  note A = write_page[OF assms(1) so this]
  show F: "free_pages s' = free_pages s" "last_ref s' = last_ref s" using A by (simp_all add: s')
  have so': "same_outside (tpages 2 (mem s) pt) (mem s) (mem s')"
    using same_outside_mono[OF so] pg(2) by (simp add: s')
  note L = leaf_store[OF wf, of va v, folded assms(3), OF assms(4)]
  show "grown pt s s'"
    using L d so' A by (simp add: grown_def pt_inv_def s')
  show "vmap s' pt va' =
      (if same_vpn 2 va' va then (if valid v then Some v else None) else vmap s pt va')"
    using L by (simp add: s')
qed

section \<open>Mapping pages\<close>

text \<open>One turn of the loop of \<open>mappages\<close>.\<close>

lemma map_step:
  assumes "ainv s" "pt_inv (free_pages s) s pt" "page_aligned a" "a < MAXVA" "vmap s pt a = None"
  shows "(\<exists>s1. walk kalloc_op pt a True s = Inr (0, s1) \<and> grown pt s s1 \<and> free_pages s1 = {}) \<or>
    (\<exists>p s1 s2. walk kalloc_op pt a True s = Inr (p, s1) \<and> p \<noteq> 0 \<and> \<not> valid (load64 (mem s1) p) \<and>
       s2 = s1\<lparr>mem := store64 (mem s1) p (PA2PTE pa OR perm OR PTE_V)\<rparr> \<and> grown pt s s2 \<and>
       (\<forall>va. unat va < 2 ^ 39 \<longrightarrow> vmap s2 pt va =
          (if PGROUNDDOWN va = a then Some (PA2PTE pa OR perm OR PTE_V) else vmap s pt va)))"
proof -
  obtain p s1 where w: "walk kalloc_op pt a True s = Inr (p, s1)" and g: "grown pt s s1"
    and vm: "vmap s1 pt = vmap s pt"
    and p: "p = 0 \<Longrightarrow> free_pages s1 = {}" "p \<noteq> 0 \<Longrightarrow> p = leaf_addr 2 (mem s1) pt a"
    using walk_alloc[OF assms(1,2,4)] by blast
  show ?thesis
  proof (cases "p = 0")
    case True
    with p have "free_pages s1 = {}" by simp
    with w g True show ?thesis by auto
  next
    case False
    from g have inv: "ainv s1" "pt_inv (free_pages s1) s1 pt" by (simp_all add: grown_def)
    have nv: "\<not> valid (load64 (mem s1) p)"
      using lookup_leaf[of 2 "mem s1" "kend s1" pt a] inv(2) p(2)[OF False] False vm assms(5)
      by (auto simp: pt_inv_def Let_def split: if_splits)
    note S = store_leaf[OF inv p(2)[OF False] False refl]
    have "same_vpn 2 va a \<longleftrightarrow> PGROUNDDOWN va = a" if "unat va < 2 ^ 39" for va
      using that assms(3,4) by (subst same_vpn_iff) (simp_all add: below_MAXVA PGROUNDDOWN_aligned)
    then have "vmap (s1\<lparr>mem := store64 (mem s1) p (PA2PTE pa OR perm OR PTE_V)\<rparr>) pt va =
        (if PGROUNDDOWN va = a then Some (PA2PTE pa OR perm OR PTE_V) else vmap s pt va)"
      if "unat va < 2 ^ 39" for va
      using that S(4) vm by simp
    with w False nv grown_trans[OF g S(1)] show ?thesis by blast
  qed
qed

lemma mappages_loop_spec:
  assumes "ainv s" "pt_inv (free_pages s) s pt" "page_aligned a" "unat last_a < 2 ^ 38"
    "unat last_a = unat a + 4096 * n"
    "\<And>va. unat va < 2 ^ 39 \<Longrightarrow> a \<le> PGROUNDDOWN va \<Longrightarrow> PGROUNDDOWN va \<le> last_a \<Longrightarrow> vmap s pt va = None"
  shows "\<exists>r s'. mappages_loop kalloc_op pt a last_a pa perm s = Inr (r, s') \<and> grown pt s s' \<and>
    (r = 0 \<and> (\<forall>va. unat va < 2 ^ 39 \<longrightarrow> vmap s' pt va =
        (if a \<le> PGROUNDDOWN va \<and> PGROUNDDOWN va \<le> last_a
         then Some (PA2PTE (pa + (PGROUNDDOWN va - a)) OR perm OR PTE_V) else vmap s pt va)) \<or>
     r = -1 \<and> free_pages s' = {})"
  using assms
proof (induction n arbitrary: a pa s)
  case 0
  then have last: "last_a = a" and am: "a < MAXVA"
    by (simp_all add: word_unat_eq_iff below_MAXVA)
  have "vmap s pt a = None" using 0(6)[of a] am 0(3) by (simp add: last PGROUNDDOWN_aligned below_MAXVA)
  from map_step[OF 0(1,2,3) am this, of pa perm] show ?case
    by (elim disjE exE conjE; simp add: mappages_loop.simps [of kalloc_op pt a] last)
       (auto simp: antisym_conv)
next
  case (Suc n)
  have am: "a < MAXVA" "unat a < 2 ^ 38" and u: "unat (a + PGSIZE) = unat a + 4096"
    using Suc.prems(4,5) by (auto simp: below_MAXVA intro!: va_step)
  have le: "a \<le> last_a" and ne: "a \<noteq> last_a" using Suc.prems(5) by (auto simp: word_le_nat_alt)
  have "vmap s pt a = None"
    using Suc.prems(3) Suc.prems(6)[of a] am le by (simp add: PGROUNDDOWN_aligned)
  from map_step[OF Suc.prems(1,2,3) am(1) this, of pa perm] show ?case
  proof (elim disjE exE conjE)
    fix s1 assume "walk kalloc_op pt a True s = Inr (0, s1)" "grown pt s s1" "free_pages s1 = {}"
    then show ?thesis by (simp add: mappages_loop.simps [of kalloc_op pt a])
  next
    fix p s1 s2
    assume w: "walk kalloc_op pt a True s = Inr (p, s1)" "p \<noteq> 0" "\<not> valid (load64 (mem s1) p)"
      and s2: "s2 = s1\<lparr>mem := store64 (mem s1) p (PA2PTE pa OR perm OR PTE_V)\<rparr>"
      and g: "grown pt s s2"
      and vm: "\<forall>va. unat va < 2 ^ 39 \<longrightarrow> vmap s2 pt va =
          (if PGROUNDDOWN va = a then Some (PA2PTE pa OR perm OR PTE_V) else vmap s pt va)"
    have split: "a \<le> PGROUNDDOWN va \<longleftrightarrow> PGROUNDDOWN va = a \<or> a + PGSIZE \<le> PGROUNDDOWN va" for va
      by (rule aligned_range_split) (use Suc.prems(3) am in simp_all)
    have lt: "a < a + PGSIZE" using u by (simp add: word_less_nat_alt)
    have "\<exists>r s'. mappages_loop kalloc_op pt (a + PGSIZE) last_a (pa + PGSIZE) perm s2 = Inr (r, s') \<and>
      grown pt s2 s' \<and>
      (r = 0 \<and> (\<forall>va. unat va < 2 ^ 39 \<longrightarrow> vmap s' pt va =
        (if a + PGSIZE \<le> PGROUNDDOWN va \<and> PGROUNDDOWN va \<le> last_a
         then Some (PA2PTE (pa + PGSIZE + (PGROUNDDOWN va - (a + PGSIZE))) OR perm OR PTE_V)
         else vmap s2 pt va)) \<or> r = -1 \<and> free_pages s' = {})"
    proof (rule Suc.IH)
      show "unat last_a = unat (a + PGSIZE) + 4096 * n" using Suc.prems(5) u by simp
      show "vmap s2 pt va = None"
        if "unat va < 2 ^ 39" "a + PGSIZE \<le> PGROUNDDOWN va" "PGROUNDDOWN va \<le> last_a" for va
        using that vm Suc.prems(6)[of va] split[of va] lt by auto
    qed (use g Suc.prems(3,4) in \<open>simp_all add: grown_def page_aligned_add_PGSIZE\<close>)
    then obtain r s' where L: "mappages_loop kalloc_op pt (a + PGSIZE) last_a (pa + PGSIZE) perm s2 = Inr (r, s')"
      "grown pt s2 s'" and
      R: "r = 0 \<and> (\<forall>va. unat va < 2 ^ 39 \<longrightarrow> vmap s' pt va =
        (if a + PGSIZE \<le> PGROUNDDOWN va \<and> PGROUNDDOWN va \<le> last_a
         then Some (PA2PTE (pa + PGSIZE + (PGROUNDDOWN va - (a + PGSIZE))) OR perm OR PTE_V)
         else vmap s2 pt va)) \<or> r = -1 \<and> free_pages s' = {}" by blast
    have "mappages_loop kalloc_op pt a last_a pa perm s = Inr (r, s')"
      using w ne L(1) s2 by (simp add: mappages_loop.simps [of kalloc_op pt a])
    moreover have "vmap s' pt va =
        (if a \<le> PGROUNDDOWN va \<and> PGROUNDDOWN va \<le> last_a
         then Some (PA2PTE (pa + (PGROUNDDOWN va - a)) OR perm OR PTE_V) else vmap s pt va)"
      if "r = 0" "unat va < 2 ^ 39" for va
      using R that vm split[of va] le lt by (auto simp: algebra_simps)
    ultimately show ?thesis using grown_trans[OF g L(2)] R by blast
  qed
qed

lemma mappages_spec:
  assumes "ainv s" "pt_inv (free_pages s) s pt" "0 < sz" "unat va + unat sz \<le> 2 ^ 38"
    "\<And>v. unat v < 2 ^ 39 \<Longrightarrow> PGROUNDDOWN va \<le> PGROUNDDOWN v \<Longrightarrow> PGROUNDDOWN v \<le> PGROUNDDOWN (va + sz - 1) \<Longrightarrow>
       vmap s pt v = None"
  shows "\<exists>r s'. mappages kalloc_op pt va sz pa perm s = Inr (r, s') \<and> grown pt s s' \<and>
    (r = 0 \<and> (\<forall>v. unat v < 2 ^ 39 \<longrightarrow> vmap s' pt v =
        (if PGROUNDDOWN va \<le> PGROUNDDOWN v \<and> PGROUNDDOWN v \<le> PGROUNDDOWN (va + sz - 1)
         then Some (PA2PTE (pa + (PGROUNDDOWN v - PGROUNDDOWN va)) OR perm OR PTE_V)
         else vmap s pt v)) \<or>
     r = -1 \<and> free_pages s' = {})"
proof -
  let ?a = "PGROUNDDOWN va" and ?l = "PGROUNDDOWN (va + sz - 1)"
  have sz: "0 < unat sz" using assms(3) by (simp add: word_less_nat_alt)
  have u: "unat (va + sz - 1) = unat va + unat sz - 1"
  proof -
    have "unat (va + sz) = unat va + unat sz"
      using assms(4) by (subst unat_add_lem[THEN iffD1]) simp_all
    moreover have "1 \<le> va + sz" using sz calculation by (simp add: word_le_nat_alt)
    ultimately show ?thesis by (simp add: unat_sub)
  qed
  have le: "unat ?a \<le> unat ?l"
  proof -
    have "unat va div 4096 * 4096 \<le> unat (va + sz - 1) div 4096 * 4096"
      by (intro mult_right_mono div_le_mono) (use u sz in simp_all)
    then show ?thesis by (simp add: unat_PGROUNDDOWN minus_mod_eq_div_mult)
  qed
  have d: "4096 dvd unat ?a" "4096 dvd unat ?l"
    by (simp_all add: unat_PGROUNDDOWN minus_mod_eq_div_mult)
  then have "4096 dvd unat ?l - unat ?a" by (rule dvd_diff_nat[rotated])
  then obtain n where "unat ?l - unat ?a = 4096 * n" by (auto elim: dvdE)
  with le have n: "unat ?l = unat ?a + 4096 * n" by simp
  have lt: "unat ?l < 2 ^ 38" using assms(4) sz by (simp add: unat_PGROUNDDOWN u)
  have al: "page_aligned ?a" using d(1) by (simp add: page_aligned_unat)
  have "sz \<noteq> 0" using assms(3) by auto
  with mappages_loop_spec[OF assms(1,2) al lt n, of pa perm] assms(5) show ?thesis
    by (simp add: mappages_def)
qed

end

end
