(* ===== verification/VmUnmap.thy ===== *)
theory VmUnmap
  imports VmCorrect
begin

text \<open>
  Tearing address spaces down: \<open>uvmunmap\<close> removes a range of mappings and can give their physical
  pages back to the allocator, and \<open>freewalk\<close> gives back the pages of the page table itself. The
  lemmas are stated for any allocator that keeps the contract \<open>page_allocator\<close>.
\<close>

definition vpages :: "u64 \<Rightarrow> u64 \<Rightarrow> u64 set" where
  "vpages a lim = {va. page_aligned va \<and> a \<le> va \<and> va < lim}"

text \<open>The physical pages that a set of virtual pages is mapped to.\<close>

definition frames :: "'a machine_scheme \<Rightarrow> u64 \<Rightarrow> u64 set \<Rightarrow> u64 set" where
  "frames s pt A = {PTE2PA pte | pte. \<exists>va\<in>A. vmap s pt va = Some pte}"

definition mapped_leaves :: "'a machine_scheme \<Rightarrow> u64 \<Rightarrow> u64 set \<Rightarrow> bool" where
  "mapped_leaves s pt A \<longleftrightarrow> (\<forall>va\<in>A. \<exists>pte. vmap s pt va = Some pte \<and> PTE_FLAGS pte \<noteq> PTE_V)"

definition frames_inj :: "'a machine_scheme \<Rightarrow> u64 \<Rightarrow> u64 set \<Rightarrow> bool" where
  "frames_inj s pt A \<longleftrightarrow> inj_on (\<lambda>va. PTE2PA (the (vmap s pt va))) A"

lemma vpages_Cons:
  assumes "page_aligned a" "unat lim = unat a + 4096 * Suc n" "unat lim \<le> 2 ^ 38"
  shows "vpages a lim = insert a (vpages (a + PGSIZE) lim)" "a \<notin> vpages (a + PGSIZE) lim" "a < lim"
proof -
  have lt: "unat a < 2 ^ 38" and u: "unat (a + PGSIZE) = unat a + 4096"
    using assms by (auto intro!: va_step)
  show 1: "a < lim" using assms(2) by (simp add: word_less_nat_alt)
  show "vpages a lim = insert a (vpages (a + PGSIZE) lim)"
    using aligned_range_split[OF assms(1) _ lt] assms(1) 1 by (auto simp: vpages_def)
  show "a \<notin> vpages (a + PGSIZE) lim" using u by (simp add: vpages_def word_le_nat_alt)
qed

lemma vpages_empty: "unat lim = unat a \<Longrightarrow> vpages a lim = {}"
  by (auto simp: vpages_def word_le_nat_alt word_less_nat_alt)

lemma vpages_below: "va \<in> vpages a lim \<Longrightarrow> unat lim \<le> 2 ^ 38 \<Longrightarrow> va < MAXVA"
  unfolding below_MAXVA by (auto simp: vpages_def word_less_nat_alt)

section \<open>Trees without leaves\<close>

lemma PX_update:
  assumes "l \<le> 2" "i < 512"
  shows "\<exists>va'. PX l va' = i \<and> (\<forall>k. k \<noteq> l \<longrightarrow> PX k va' = PX k va)"
proof -
  let ?w = "push_bit (12 + 9 * l) (mask 9) :: u64"
  let ?va = "(va AND NOT ?w) OR push_bit (12 + 9 * l) i"
  have i: "bit i n \<Longrightarrow> n < 9" for n
    using not_bit_above[of i 9 n] assms(2) by (force simp: word_less_nat_alt)
  have i2: "bit i n \<Longrightarrow> 9 * l + n < 52" for n using i[of n] assms(1) by simp
  have "PX l ?va = i"
    using i i2 by (auto intro!: bit_word_eqI simp: bit_PX bit_simps)
  moreover have "PX k ?va = PX k va" if "k \<noteq> l" for k
  proof (rule bit_word_eqI)
    fix n
    have "12 + 9 * k + n - (12 + 9 * l) < 9 \<Longrightarrow> 12 + 9 * l \<le> 12 + 9 * k + n \<Longrightarrow> n < 9 \<Longrightarrow> False"
      using that by presburger
    then show "bit (PX k ?va) n = bit (PX k va) n"
      using i by (auto simp: bit_PX bit_simps dest: bit_imp_le_length)
  qed
  ultimately show ?thesis by blast
qed

lemma no_leaf_child:
  assumes "\<And>va. lookup (Suc l) m p va = None" "Suc l \<le> 2" "i < 512" "valid (entry m p i)"
  shows "lookup l m (PTE2PA (entry m p i)) va = None"
proof -
  obtain va' where va': "PX (Suc l) va' = i" "\<And>k. k \<le> l \<Longrightarrow> PX k va = PX k va'"
    using PX_update[OF assms(2,3), of va] by (metis Suc_n_not_le_n)
  have "lookup (Suc l) m p va' = lookup l m (PTE2PA (entry m p i)) va'"
    using va'(1) assms(4) by (simp add: Let_def)
  with assms(1) lookup_cong[OF va'(2)] show ?thesis by simp
qed

lemma no_leaf_entry:
  assumes "\<And>va. lookup 0 m p va = None" "i < 512"
  shows "\<not> valid (entry m p i)"
proof -
  obtain va where "PX 0 va = i" using PX_update[of 0 i] assms(2) by auto
  with assms(1)[of va] show ?thesis by (auto simp: Let_def split: if_splits)
qed

text \<open>The pages of the first \<open>k\<close> subtrees of a table.\<close>

definition subtrees :: "nat \<Rightarrow> memory \<Rightarrow> u64 \<Rightarrow> nat \<Rightarrow> u64 set" where
  "subtrees l m p k = (\<Union>j \<in> {j. j < k \<and> valid (entry m p (of_nat j))}. tpages l m (PTE2PA (entry m p (of_nat j))))"

lemma of_nat_lt_512: "j < 512 \<Longrightarrow> (of_nat j :: u64) < 512"
  by (simp add: word_less_nat_alt unat_of_nat)

lemma of_nat_eq_512: "j < 512 \<Longrightarrow> k < 512 \<Longrightarrow> (of_nat j :: u64) = of_nat k \<longleftrightarrow> j = k"
  by (simp add: word_unat_eq_iff unat_of_nat)

lemma subtrees_all: "insert p (subtrees l m p 512) = tpages (Suc l) m p"
proof -
  have "i < 512 \<Longrightarrow> \<exists>j<512. i = of_nat j" for i :: u64
    by (rule exI[of _ "unat i"]) (simp add: word_less_nat_alt)
  then show ?thesis
    by (force simp: subtrees_def of_nat_lt_512)
qed

lemma subtrees_Suc:
  "subtrees l m p (Suc k) = subtrees l m p k \<union>
     (if valid (entry m p (of_nat k)) then tpages l m (PTE2PA (entry m p (of_nat k))) else {})"
  by (auto simp: subtrees_def less_Suc_eq)

lemma subtrees_disjoint:
  assumes "pt_wf (Suc l) m e p" "k < 512" "valid (entry m p (of_nat k))"
  shows "insert p (subtrees l m p k) \<inter> tpages l m (PTE2PA (entry m p (of_nat k))) = {}"
proof -
  have "tpages l m (PTE2PA (entry m p (of_nat j))) \<inter> tpages l m (PTE2PA (entry m p (of_nat k))) = {}"
    if "j < k" "valid (entry m p (of_nat j))" for j
    using assms that of_nat_eq_512[of j k] by (simp add: of_nat_lt_512)
  moreover have "p \<notin> tpages l m (PTE2PA (entry m p (of_nat k)))"
    using assms by (simp add: of_nat_lt_512)
  ultimately show ?thesis by (fastforce simp: subtrees_def)
qed

lemma root_not_in_subtrees: "pt_wf (Suc l) m e p \<Longrightarrow> k \<le> 512 \<Longrightarrow> p \<notin> subtrees l m p k"
  using subtrees_disjoint[of l m e p] by (fastforce simp: subtrees_def)

lemma lookup_low_bits: "lookup 2 m p va = lookup 2 m p (va AND mask 39)"
proof (rule lookup_cong)
  fix k :: nat assume "k \<le> 2"
  then have "9 * k + n < 27" "9 * k + n < 52" if "n < 9" for n using that by simp_all
  then show "PX k va = PX k (va AND mask 39)"
    by (auto intro!: bit_word_eqI simp: bit_PX bit_simps dest: bit_imp_le_length)
qed

lemma lookup_all_None:
  assumes "\<And>va. unat va < 2 ^ 39 \<Longrightarrow> lookup 2 m p va = None"
  shows "lookup 2 m p va = None"
  by (subst lookup_low_bits, rule assms) (simp add: unat_and_mask)

section \<open>Removing mappings\<close>

context page_allocator
begin

text \<open>
  \<open>shrunk\<close>: the tree has the same pages, the allocator has gained the pages \<open>G\<close>, and nothing else
  has been written.
\<close>

definition shrunk :: "u64 \<Rightarrow> u64 set \<Rightarrow> 'a machine_scheme \<Rightarrow> 'a machine_scheme \<Rightarrow> bool" where
  "shrunk pt G s s' \<longleftrightarrow> ainv s' \<and> kend s' = kend s \<and> pt_inv (free_pages s') s' pt \<and>
     free_pages s' = free_pages s \<union> G \<and> tpages 2 (mem s') pt = tpages 2 (mem s) pt \<and>
     same_outside (tpages 2 (mem s) pt \<union> G) (mem s) (mem s') \<and>
     (\<forall>q. q \<notin> G \<longrightarrow> last_ref s' q = last_ref s q)"

lemma shrunk_trans: "shrunk pt G s s1 \<Longrightarrow> shrunk pt H s1 s2 \<Longrightarrow> shrunk pt (G \<union> H) s s2"
proof -
  assume a: "shrunk pt G s s1" and b: "shrunk pt H s1 s2"
  have "same_outside ((tpages 2 (mem s) pt \<union> G) \<union> (tpages 2 (mem s) pt \<union> H)) (mem s) (mem s2)"
    using a b same_outside_trans unfolding shrunk_def by metis
  then have "same_outside (tpages 2 (mem s) pt \<union> (G \<union> H)) (mem s) (mem s2)"
    by (rule same_outside_mono) auto
  with a b show ?thesis unfolding shrunk_def by auto
qed

definition releasable :: "u64 \<Rightarrow> u64 set \<Rightarrow> 'a machine_scheme \<Rightarrow> bool" where
  "releasable pt A s \<longleftrightarrow> frames_inj s pt A \<and>
     (\<forall>p\<in>frames s pt A. managed (kend s) p \<and> p \<notin> free_pages s \<and> p \<notin> tpages 2 (mem s) pt \<and> last_ref s p)"

text \<open>One turn of the loop of \<open>uvmunmap\<close>: the entry is cleared, after its page went back if asked.\<close>

lemma unmap_step:
  assumes "ainv s" "pt_inv (free_pages s) s pt" "page_aligned a" "a < MAXVA"
    and vm: "vmap s pt a = Some pte"
    and rel: "do_free \<Longrightarrow> managed (kend s) (PTE2PA pte) \<and> PTE2PA pte \<notin> free_pages s \<and>
      PTE2PA pte \<notin> tpages 2 (mem s) pt \<and> last_ref s (PTE2PA pte)"
  shows "\<exists>s1 s2. (if do_free then kfree_op (PTE2PA pte) s else Inr s) = Inr s1 \<and>
    s2 = s1\<lparr>mem := store64 (mem s1) (leaf_addr 2 (mem s) pt a) 0\<rparr> \<and>
    shrunk pt (if do_free then {PTE2PA pte} else {}) s s2 \<and>
    (\<forall>va. unat va < 2 ^ 39 \<longrightarrow> vmap s2 pt va = (if PGROUNDDOWN va = a then None else vmap s pt va))"
proof -
  let ?G = "if do_free then {PTE2PA pte} else {}"
  have wf: "pt_wf 2 (mem s) (kend s) pt" and d: "tpages 2 (mem s) pt \<inter> free_pages s = {}"
    using assms(2) by (simp_all add: pt_inv_def)
  obtain s1 where s1: "(if do_free then kfree_op (PTE2PA pte) s else Inr s) = Inr s1"
    "ainv s1" "free_pages s1 = free_pages s \<union> ?G" "kend s1 = kend s" "same_outside ?G (mem s) (mem s1)"
    "\<forall>q. q \<notin> ?G \<longrightarrow> last_ref s1 q = last_ref s q"
  proof (cases do_free)
    case True
    with kfree_ok[OF assms(1), of "PTE2PA pte"] rel that show thesis by auto
  qed (use that[of s] assms(1) in simp)
  have disj: "?G \<inter> tpages 2 (mem s) pt = {}" using rel by auto
  note fr = tree_frameD[OF wf s1(5) disj]
  have inv1: "pt_inv (free_pages s1) s1 pt"
    using fr s1(3,4) d disj by (auto simp: pt_inv_def)
  define s2 where "s2 = s1\<lparr>mem := store64 (mem s1) (leaf_addr 2 (mem s) pt a) 0\<rparr>"
  have nz: "leaf_addr 2 (mem s1) pt a \<noteq> 0"
    using walk_mapped(2)[OF wf assms(4) vm] by (simp add: fr(4))
  have a1: "leaf_addr 2 (mem s) pt a = leaf_addr 2 (mem s1) pt a" by (simp add: fr(4))
  note S = store_leaf[OF s1(2) inv1 a1, of s2 0, unfolded a1, OF nz s2_def[unfolded a1]]
  have sv: "same_vpn 2 va a \<longleftrightarrow> PGROUNDDOWN va = a" if "unat va < 2 ^ 39" for va
    using that assms(3,4) by (subst same_vpn_iff) (simp_all add: below_MAXVA PGROUNDDOWN_aligned)
  have v2: "\<forall>va. unat va < 2 ^ 39 \<longrightarrow> vmap s2 pt va = (if PGROUNDDOWN va = a then None else vmap s pt va)"
    using S(4) sv by (simp add: fr(3))
  have "same_outside (?G \<union> tpages 2 (mem s2) pt) (mem s) (mem s2)"
    using same_outside_trans[OF s1(5)] S(1) by (auto simp: grown_def)
  moreover have "tpages 2 (mem s2) pt = tpages 2 (mem s) pt"
    using S(1,2) fr(1) by (simp add: grown_def)
  ultimately have "shrunk pt ?G s s2"
    using S(1,2,3) s1 unfolding shrunk_def grown_def by (simp add: Un_commute)
  with s1(1) s2_def v2 show ?thesis by blast
qed

lemma uvmunmap_loop_spec:
  assumes "ainv s" "pt_inv (free_pages s) s pt" "page_aligned a"
    "unat lim = unat a + 4096 * n" "unat lim \<le> 2 ^ 38"
    "mapped_leaves s pt (vpages a lim)" "do_free \<Longrightarrow> releasable pt (vpages a lim) s"
  shows "\<exists>s'. uvmunmap_loop kalloc_op kfree_op pt a lim do_free s = Inr s' \<and>
    shrunk pt (if do_free then frames s pt (vpages a lim) else {}) s s' \<and>
    (\<forall>va. unat va < 2 ^ 39 \<longrightarrow> vmap s' pt va =
       (if PGROUNDDOWN va \<in> vpages a lim then None else vmap s pt va))"
  using assms
proof (induction n arbitrary: a s)
  case 0
  then have "vpages a lim = {}" "\<not> a < lim"
    using vpages_empty[of lim a] by (simp_all add: word_less_nat_alt)
  with 0 show ?case
    by (simp add: uvmunmap_loop.simps[of _ _ _ a] shrunk_def frames_def)
next
  case (Suc n)
  note V = vpages_Cons[OF Suc.prems(3,4,5)]
  have am: "a < MAXVA" using V(1) Suc.prems(5) by (auto intro: vpages_below)
  have wf: "pt_wf 2 (mem s) (kend s) pt" using Suc.prems(2) by (simp add: pt_inv_def)
  from Suc.prems(6) obtain pte where pte: "vmap s pt a = Some pte" "PTE_FLAGS pte \<noteq> PTE_V"
    by (auto simp: mapped_leaves_def V)
  have F: "frames s pt (vpages a lim) = insert (PTE2PA pte) (frames s pt (vpages (a + PGSIZE) lim))"
    using pte(1) by (auto simp: frames_def V(1))
  have rel: "managed (kend s) (PTE2PA pte) \<and> PTE2PA pte \<notin> free_pages s \<and>
      PTE2PA pte \<notin> tpages 2 (mem s) pt \<and> last_ref s (PTE2PA pte)" if do_free
    using Suc.prems(7)[OF that] by (simp add: releasable_def F)
  from unmap_step[OF Suc.prems(1,2,3) am pte(1) rel] obtain s1 s2 where
    s1: "(if do_free then kfree_op (PTE2PA pte) s else Inr s) = Inr s1"
    and s2: "s2 = s1\<lparr>mem := store64 (mem s1) (leaf_addr 2 (mem s) pt a) 0\<rparr>"
    and sh: "shrunk pt (if do_free then {PTE2PA pte} else {}) s s2"
    and vm: "\<forall>va. unat va < 2 ^ 39 \<longrightarrow> vmap s2 pt va = (if PGROUNDDOWN va = a then None else vmap s pt va)"
    by blast
  then have sh2: "ainv s2" "pt_inv (free_pages s2) s2 pt" unfolding shrunk_def by blast+
  let ?A = "vpages (a + PGSIZE) lim"
  have eqA: "vmap s2 pt va = vmap s pt va" if "va \<in> ?A" for va
  proof -
    have "va < MAXVA" "PGROUNDDOWN va \<noteq> a" using that V(2) Suc.prems(5)
      by (auto intro: vpages_below simp: vpages_def PGROUNDDOWN_aligned)
    then have "unat va < 2 ^ 39" "PGROUNDDOWN va \<noteq> a" by (simp_all add: below_MAXVA)
    then show ?thesis using vm by simp
  qed
  have frA: "frames s2 pt ?A = frames s pt ?A" using eqA by (auto simp: frames_def)
  have u: "unat (a + PGSIZE) = unat a + 4096" using Suc.prems(4,5) by (intro va_step) simp
  have "\<exists>s'. uvmunmap_loop kalloc_op kfree_op pt (a + PGSIZE) lim do_free s2 = Inr s' \<and>
    shrunk pt (if do_free then frames s2 pt ?A else {}) s2 s' \<and>
    (\<forall>va. unat va < 2 ^ 39 \<longrightarrow> vmap s' pt va = (if PGROUNDDOWN va \<in> ?A then None else vmap s2 pt va))"
  proof (rule Suc.IH)
    show "mapped_leaves s2 pt ?A" using Suc.prems(6) eqA by (auto simp: mapped_leaves_def V(1))
    assume df: do_free
    have r: "releasable pt (insert a ?A) s" using Suc.prems(7)[OF df] by (simp add: V(1))
    have inj: "frames_inj s pt (insert a ?A)" using r by (simp add: releasable_def)
    have "inj_on (\<lambda>va. PTE2PA (the (vmap s2 pt va))) ?A =
        inj_on (\<lambda>va. PTE2PA (the (vmap s pt va))) ?A"
      by (rule inj_on_cong) (simp add: eqA)
    then have "frames_inj s2 pt ?A" using inj by (simp add: frames_inj_def)
    moreover have "PTE2PA pte \<notin> frames s pt ?A"
      using inj V(2) pte(1) by (force simp: frames_inj_def frames_def)
    moreover from calculation have "last_ref s2 p" if "p \<in> frames s pt ?A" for p
      using that r sh df F unfolding V(1)[symmetric] releasable_def shrunk_def by (metis insertCI singletonD)
    ultimately show "releasable pt ?A s2"
      using r sh df frA F unfolding V(1)[symmetric] releasable_def shrunk_def by auto
  qed (use sh2 Suc.prems u in \<open>simp_all add: page_aligned_add_PGSIZE\<close>)
  then obtain s' where L: "uvmunmap_loop kalloc_op kfree_op pt (a + PGSIZE) lim do_free s2 = Inr s'"
    "shrunk pt (if do_free then frames s pt ?A else {}) s2 s'"
    "\<forall>va. unat va < 2 ^ 39 \<longrightarrow> vmap s' pt va = (if PGROUNDDOWN va \<in> ?A then None else vmap s2 pt va)"
    unfolding frA by blast
  have w: "uvmunmap_loop kalloc_op kfree_op pt a lim do_free s = Inr s'"
    using walk_mapped[OF wf am pte(1)] pte(2) V(3) s1 L(1) s2
    by (cases do_free) (simp_all add: uvmunmap_loop.simps[of _ _ _ a])
  have "shrunk pt (if do_free then frames s pt (vpages a lim) else {}) s s'"
    using shrunk_trans[OF sh L(2)] by (cases do_free) (simp_all add: F)
  moreover have "\<forall>va. unat va < 2 ^ 39 \<longrightarrow> vmap s' pt va =
      (if PGROUNDDOWN va \<in> vpages a lim then None else vmap s pt va)"
    using L(3) vm by (auto simp: V(1))
  ultimately show ?case using w by blast
qed

lemma uvmunmap_spec:
  assumes "ainv s" "pt_inv (free_pages s) s pt" "page_aligned va"
    "unat va + 4096 * unat npages \<le> 2 ^ 38"
    "mapped_leaves s pt (vpages va (va + npages * PGSIZE))"
    "do_free \<Longrightarrow> releasable pt (vpages va (va + npages * PGSIZE)) s"
  shows "\<exists>s'. uvmunmap kalloc_op kfree_op pt va npages do_free s = Inr s' \<and>
    shrunk pt (if do_free then frames s pt (vpages va (va + npages * PGSIZE)) else {}) s s' \<and>
    (\<forall>v. unat v < 2 ^ 39 \<longrightarrow> vmap s' pt v =
       (if PGROUNDDOWN v \<in> vpages va (va + npages * PGSIZE) then None else vmap s pt v))"
proof -
  have "unat (npages * PGSIZE) = unat npages * 4096"
    using assms(4) by (subst unat_mult_lem[THEN iffD1]) simp_all
  then have u: "unat (va + npages * PGSIZE) = unat va + 4096 * unat npages"
    using assms(4) by (subst unat_add_lem[THEN iffD1]) simp_all
  have "unat (va + npages * PGSIZE) \<le> 2 ^ 38" using assms(4) u by simp
  note L = uvmunmap_loop_spec[OF assms(1,2,3) u this assms(5,6)]
  show ?thesis using L assms(3) by (simp add: uvmunmap_def page_aligned_def)
qed

section \<open>Freeing the page table\<close>

text \<open>
  \<open>freewalk\<close> on a tree without leaf mappings gives back every page of the tree, once each, and
  three levels of recursion are enough for a three-level table.
\<close>

definition released :: "u64 set \<Rightarrow> 'a machine_scheme \<Rightarrow> 'a machine_scheme \<Rightarrow> bool" where
  "released T s s' \<longleftrightarrow> ainv s' \<and> kend s' = kend s \<and> free_pages s' = free_pages s \<union> T \<and>
     same_outside T (mem s) (mem s') \<and> (\<forall>q. q \<notin> T \<longrightarrow> last_ref s' q = last_ref s q)"

lemma released_kfree:
  "ainv s \<Longrightarrow> managed (kend s) p \<Longrightarrow> p \<notin> free_pages s \<Longrightarrow> last_ref s p \<Longrightarrow>
     \<exists>s'. kfree_op p s = Inr s' \<and> released {p} s s'"
  using kfree_ok[of s p] by (auto simp: released_def)

text \<open>Clearing one subtree and its entry: the body of the loop of \<open>freewalk\<close>.\<close>

abbreviation freewalk_body :: "nat \<Rightarrow> u64 \<Rightarrow> nat \<Rightarrow> 'a machine_scheme \<Rightarrow> 'a machine_scheme res" where
  "freewalk_body d p i s \<equiv>
     (let a = slot p (of_nat i); pte = load64 (mem s) a in
      if pte AND PTE_V \<noteq> 0 \<and> pte AND (PTE_R OR PTE_W OR PTE_X) = 0
      then bindR (freewalk kfree_op d (PTE2PA pte) s) (\<lambda>s1. Inr (s1\<lparr>mem := store64 (mem s1) a 0\<rparr>))
      else if pte AND PTE_V \<noteq> 0 then Inl (Panic ''freewalk: leaf'')
      else Inr s)"

definition half_freed :: "nat \<Rightarrow> u64 \<Rightarrow> nat \<Rightarrow> 'a machine_scheme \<Rightarrow> 'a machine_scheme \<Rightarrow> bool" where
  "half_freed l p k s t \<longleftrightarrow> ainv t \<and> kend t = kend s \<and>
     free_pages t = free_pages s \<union> subtrees l (mem s) p k \<and>
     same_outside (insert p (subtrees l (mem s) p k)) (mem s) (mem t) \<and>
     (\<forall>q. q \<notin> subtrees l (mem s) p k \<longrightarrow> last_ref t q = last_ref s q) \<and>
     (\<forall>j<512. k \<le> j \<longrightarrow> entry (mem t) p (of_nat j) = entry (mem s) p (of_nat j))"

lemma freewalk_step:
  assumes IH: "\<And>c t. ainv t \<Longrightarrow> pt_wf l (mem t) (kend t) c \<Longrightarrow> tpages l (mem t) c \<inter> free_pages t = {} \<Longrightarrow>
      (\<And>va. lookup l (mem t) c va = None) \<Longrightarrow> (\<And>q. q \<in> tpages l (mem t) c \<Longrightarrow> last_ref t q) \<Longrightarrow>
      \<exists>s'. freewalk kfree_op (Suc l) c t = Inr s' \<and> released (tpages l (mem t) c) t s'"
    and s: "pt_wf (Suc l) (mem s) (kend s) p" "Suc l \<le> 2" "tpages (Suc l) (mem s) p \<inter> free_pages s = {}"
      "\<And>va. lookup (Suc l) (mem s) p va = None" "\<And>q. q \<in> tpages (Suc l) (mem s) p \<Longrightarrow> last_ref s q"
    and k: "k < 512" and t: "half_freed l p k s t"
  shows "\<exists>t'. freewalk_body (Suc l) p k t = Inr t' \<and> half_freed l p (Suc k) s t'"
proof -
  define pte where "pte = entry (mem s) p (of_nat k)"
  note k' = of_nat_lt_512[OF k]
  have e: "load64 (mem t) (slot p (of_nat k)) = pte"
    using t k by (simp add: half_freed_def pte_def entry_def)
  show ?thesis
  proof (cases "valid pte")
    case False
    then have "half_freed l p (Suc k) s t"
      using t by (simp add: half_freed_def subtrees_Suc pte_def)
    with False show ?thesis by (simp add: e Let_def)
  next
    case True
    let ?c = "PTE2PA pte" and ?T = "subtrees l (mem s) p k"
    let ?C = "tpages l (mem s) ?c"
    have v: "valid (entry (mem s) p (of_nat k))" using True by (simp add: pte_def)
    have wfc: "pt_wf l (mem s) (kend s) ?c" and tb: "is_table pte"
      using s(1) k' v by (simp_all add: pte_def)
    note d = subtrees_disjoint[OF s(1) k v, folded pte_def]
    have so: "same_outside (insert p ?T) (mem s) (mem t)" using t by (simp add: half_freed_def)
    note fr = tree_frameD[OF wfc so d]
    have sub: "?C \<subseteq> tpages (Suc l) (mem s) p"
      using child_subset[OF k' v] by (simp add: pte_def)
    have kt: "kend t = kend s" "ainv t" using t by (simp_all add: half_freed_def)
    have "\<exists>s'. freewalk kfree_op (Suc l) ?c t = Inr s' \<and> released (tpages l (mem t) ?c) t s'"
    proof (rule IH)
      show "tpages l (mem t) ?c \<inter> free_pages t = {}"
        using t d sub s(3) unfolding fr by (auto simp: half_freed_def)
      show "lookup l (mem t) ?c va = None" for va
        using no_leaf_child[OF s(4,2) k' v] unfolding fr by (simp add: pte_def)
      show "last_ref t q" if "q \<in> tpages l (mem t) ?c" for q
      proof -
        have q: "q \<in> ?C" using that by (simp add: fr)
        then have "q \<notin> ?T" "last_ref s q" using d sub s(5)[of q] by blast+
        then show ?thesis using t by (simp add: half_freed_def)
      qed
    qed (use kt fr in simp_all)
    then obtain t1 where t1: "freewalk kfree_op (Suc l) ?c t = Inr t1" "released ?C t t1"
      by (auto simp: fr)
    define t' where "t' = t1\<lparr>mem := store64 (mem t1) (slot p (of_nat k)) 0\<rparr>"
    have al: "page_aligned p" using s(1) by (simp add: managed_def)
    have so1: "same_outside {p} (mem t1) (store64 (mem t1) (slot p (of_nat k)) 0)"
      using same_outside_store64[OF aligned8_slot[OF al k']] by (simp add: PGROUNDDOWN_slot al k')
    have p: "p \<notin> free_pages s" "p \<notin> ?C" "p \<notin> ?T"
      using s(3) d root_in_tpages[of p "Suc l" "mem s"] root_not_in_subtrees[OF s(1)] k by auto
    have fp: "free_pages t1 = free_pages s \<union> ?T \<union> ?C"
      using t t1(2) by (simp add: half_freed_def released_def)
    have "{p} \<inter> free_pages t1 = {}" using fp p by auto
    from write_page[OF _ so1 this] t1(2)
    have W: "ainv t'" "free_pages t' = free_pages t1" "last_ref t' = last_ref t1"
      by (simp_all add: t'_def released_def)
    have "same_outside (insert p ?T \<union> (?C \<union> {p})) (mem s) (mem t')"
      using same_outside_trans[OF so same_outside_trans[OF _ so1]] t1(2)
      by (simp add: released_def t'_def)
    moreover have "insert p ?T \<union> (?C \<union> {p}) = insert p (subtrees l (mem s) p (Suc k))"
      using v by (auto simp: subtrees_Suc pte_def)
    moreover have "entry (mem t') p (of_nat j) = entry (mem s) p (of_nat j)" if "j < 512" "Suc k \<le> j" for j
    proof -
      have "entry (mem t1) p (of_nat j) = entry (mem t) p (of_nat j)"
        using t1(2) p(2) al by (intro entry_same_outside) (auto simp: released_def of_nat_lt_512 that)
      then show ?thesis
        using that t k of_nat_eq_512[of k j] by (simp add: t'_def entry_store64 al of_nat_lt_512 half_freed_def)
    qed
    ultimately have "half_freed l p (Suc k) s t'"
      using W fp t t1(2) v
      by (auto simp: half_freed_def released_def subtrees_Suc pte_def t'_def)
    moreover have "freewalk_body (Suc l) p k t = Inr t'"
      using True tb t1(1) by (simp add: e Let_def t'_def)
    ultimately show ?thesis by blast
  qed
qed

lemma freewalk_spec:
  assumes "l \<le> 2" "ainv s" "pt_wf l (mem s) (kend s) p" "tpages l (mem s) p \<inter> free_pages s = {}"
    "\<And>va. lookup l (mem s) p va = None" "\<And>q. q \<in> tpages l (mem s) p \<Longrightarrow> last_ref s q"
  shows "\<exists>s'. freewalk kfree_op (Suc l) p s = Inr s' \<and> released (tpages l (mem s) p) s s'"
  using assms
proof (induction l arbitrary: p s)
  case 0
  have "fold_res (freewalk_body 0 p) [0..<n] s = Inr s" if "n \<le> 512" for n
    using that
  proof (induction n)
    case (Suc n)
    have "\<not> valid (load64 (mem s) (slot p (of_nat n)))"
      using no_leaf_entry[OF 0(5), of "of_nat n"] Suc.prems by (simp add: entry_def of_nat_lt_512)
    with Suc show ?case by (simp add: fold_res_append Let_def)
  qed simp
  from this[of 512] released_kfree[OF 0(2), of p] 0 show ?case by simp
next
  case (Suc l)
  have l: "l \<le> 2" using Suc.prems(1) by simp
  have step: "\<exists>t'. freewalk_body (Suc l) p k t = Inr t' \<and> half_freed l p (Suc k) s t'"
    if "k < 512" "half_freed l p k s t" for k t
    by (rule freewalk_step[OF _ Suc.prems(3,1,4,5,6) that]) (rule Suc.IH[OF l])
  have loop: "\<exists>t. fold_res (freewalk_body (Suc l) p) [0..<n] s = Inr t \<and> half_freed l p n s t"
    if "n \<le> 512" for n
    using that
  proof (induction n)
    case 0
    show ?case using Suc.prems by (simp add: half_freed_def subtrees_def)
  next
    case (Suc n)
    then obtain t where t: "fold_res (freewalk_body (Suc l) p) [0..<n] s = Inr t" "half_freed l p n s t"
      by auto
    from step[OF _ t(2)] Suc.prems obtain t' where
      "freewalk_body (Suc l) p n t = Inr t'" "half_freed l p (Suc n) s t'" by auto
    with t(1) show ?case by (simp add: fold_res_append)
  qed
  from loop[of 512] obtain t where t: "fold_res (freewalk_body (Suc l) p) [0..<512] s = Inr t"
    "half_freed l p 512 s t" by auto
  have p: "managed (kend s) p" "p \<notin> free_pages s" "p \<notin> subtrees l (mem s) p 512" "last_ref s p"
    using Suc.prems root_not_in_subtrees[OF Suc.prems(3)] root_in_tpages[of p "Suc l" "mem s"] by auto
  have "\<exists>s'. kfree_op p t = Inr s' \<and> released {p} t s'"
    by (rule released_kfree) (use t(2) p in \<open>auto simp: half_freed_def\<close>)
  then obtain s' where s': "kfree_op p t = Inr s'" "released {p} t s'" by blast
  have "same_outside (insert p (subtrees l (mem s) p 512) \<union> {p}) (mem s) (mem s')"
    using t(2) s'(2) same_outside_trans unfolding half_freed_def released_def by blast
  then have "released (insert p (subtrees l (mem s) p 512)) s s'"
    using t(2) s'(2) by (auto simp: half_freed_def released_def)
  with t(1) s'(1) show ?case unfolding subtrees_all by auto
qed

text \<open>
  \<open>uvmfree\<close> on an address space whose only mappings are the user pages below \<open>sz\<close>: every page of user
  memory and every page of the page table goes back to the allocator.
\<close>

lemma uvmfree_spec:
  assumes "ainv s" "pt_inv (free_pages s) s pt" "unat sz \<le> 2 ^ 38"
    and A: "A = vpages 0 (PGROUNDUP sz)"
    and "mapped_leaves s pt A" "releasable pt A s"
    and only: "\<And>va. unat va < 2 ^ 39 \<Longrightarrow> PGROUNDDOWN va \<notin> A \<Longrightarrow> vmap s pt va = None"
    and lr: "\<And>q. q \<in> tpages 2 (mem s) pt \<Longrightarrow> last_ref s q"
  shows "\<exists>s'. uvmfree kalloc_op kfree_op pt sz s = Inr s' \<and>
    released (tpages 2 (mem s) pt \<union> frames s pt A) s s'"
proof -
  have up: "unat (PGROUNDUP sz) = (unat sz + 4095) div 4096 * 4096"
    using assms(3) by (intro unat_PGROUNDUP) simp
  have n: "unat (PGROUNDUP sz div PGSIZE) = (unat sz + 4095) div 4096" by (simp add: unat_div up)
  have "unat (PGROUNDUP sz div PGSIZE * PGSIZE) = unat (PGROUNDUP sz)"
    unfolding n[unfolded unat_div] using assms(3)
    by (subst unat_mult_lem[THEN iffD1]) (simp_all add: n up)
  then have lim: "0 + PGROUNDUP sz div PGSIZE * PGSIZE = PGROUNDUP sz"
    by (simp add: word_unat_eq_iff)
  have bound: "unat (0 :: u64) + 4096 * unat (PGROUNDUP sz div PGSIZE) \<le> 2 ^ 38"
    using round_up_least[of "unat sz" "2 ^ 26"] assms(3) by (simp add: n mult.commute)
  have "\<exists>s1. (if sz > 0 then uvmunmap kalloc_op kfree_op pt 0 (PGROUNDUP sz div PGSIZE) True s else Inr s)
      = Inr s1 \<and> shrunk pt (frames s pt A) s s1 \<and>
      (\<forall>v. unat v < 2 ^ 39 \<longrightarrow> vmap s1 pt v = (if PGROUNDDOWN v \<in> A then None else vmap s pt v))"
  proof (cases "sz > 0")
    case True
    with uvmunmap_spec[OF assms(1,2) page_aligned_0 bound, unfolded lim, folded A, of True] assms(5,6)
    show ?thesis by simp
  next
    case False
    then have "sz = 0" by (simp add: word_neq_0_conv[symmetric])
    then have "A = {}" unfolding A using up by (intro vpages_empty) simp
    with False assms(1,2) show ?thesis by (simp add: shrunk_def frames_def)
  qed
  then obtain s1 where s1: "(if sz > 0 then uvmunmap kalloc_op kfree_op pt 0 (PGROUNDUP sz div PGSIZE) True s
      else Inr s) = Inr s1" "shrunk pt (frames s pt A) s s1"
    and vm: "\<forall>v. unat v < 2 ^ 39 \<longrightarrow> vmap s1 pt v = (if PGROUNDDOWN v \<in> A then None else vmap s pt v)"
    by blast
  let ?T = "tpages 2 (mem s) pt"
  have T: "tpages 2 (mem s1) pt = ?T" "?T \<inter> frames s pt A = {}"
    using s1(2) assms(6) by (auto simp: shrunk_def releasable_def simp del: tpages.simps)
  have "\<exists>s'. freewalk kfree_op (Suc 2) pt s1 = Inr s' \<and> released (tpages 2 (mem s1) pt) s1 s'"
  proof (rule freewalk_spec)
    show "lookup 2 (mem s1) pt va = None" for va
      by (rule lookup_all_None) (use vm only in auto)
    show "last_ref s1 q" if "q \<in> tpages 2 (mem s1) pt" for q
      using that T lr[of q] s1(2) unfolding shrunk_def by (metis IntI empty_iff)
  qed (use s1(2) in \<open>auto simp: shrunk_def pt_inv_def\<close>)
  then obtain s' where s': "freewalk kfree_op 3 pt s1 = Inr s'" "released ?T s1 s'"
    by (auto simp: T numeral_3_eq_3)
  have "same_outside (?T \<union> frames s pt A \<union> ?T) (mem s) (mem s')"
    using s1(2) s'(2) same_outside_trans unfolding shrunk_def released_def by blast
  moreover have "?T \<union> frames s pt A \<union> ?T = ?T \<union> frames s pt A" by blast
  ultimately have "released (?T \<union> frames s pt A) s s'"
    using s1(2) s'(2) unfolding shrunk_def released_def by auto
  with s1(1) s'(1) show ?thesis unfolding uvmfree_def by auto
qed

end

end
