(* ===== verification/VmCopy.thy ===== *)
theory VmCopy
  imports VmCorrect
begin

text \<open>
  Moving bytes between the kernel and a user address space. \<open>uaddr\<close> is the address translation a
  user access goes through; \<open>copyout\<close> and \<open>copyin\<close>, which work page by page, are shown to be the
  byte-wise copy through that translation.
\<close>

definition uaddr :: "'a machine_scheme \<Rightarrow> u64 \<Rightarrow> u64 \<Rightarrow> u64 option" where
  "uaddr s pt va =
     (if va < MAXVA then
        (case vmap s pt va of None \<Rightarrow> None
         | Some pte \<Rightarrow> if pte AND PTE_U \<noteq> 0 \<and> PTE2PA pte \<noteq> 0
                       then Some (PTE2PA pte + (va - PGROUNDDOWN va)) else None)
      else None)"

lemma lookup_page:
  assumes "unat va < 2 ^ 39" "unat va' < 2 ^ 39" "PGROUNDDOWN va = PGROUNDDOWN va'"
  shows "vmap s pt va = vmap s pt va'"
  using assms same_vpn_iff[OF assms(1,2)] by (auto intro: lookup_cong simp: same_vpn_def)

text \<open>The page a chunk lies in, and how the chunk moves on.\<close>

lemma page_less_MAXVA: "PGROUNDDOWN va < MAXVA \<longleftrightarrow> va < MAXVA"
proof -
  have "unat va - unat va mod 4096 < 4096 * 2 ^ 26 \<longleftrightarrow> unat va < 4096 * 2 ^ 26"
    using less_mult_imp_div_less[of "unat va" "2 ^ 26" 4096] div_less_iff_less_mult[of 4096 "unat va" "2 ^ 26"]
    by (simp add: minus_mod_eq_mult_div)
  then show ?thesis unfolding below_MAXVA unat_PGROUNDDOWN by simp
qed

lemma offset_unat: "unat (va - PGROUNDDOWN va) = unat va mod 4096"
proof -
  have "PGROUNDDOWN va \<le> va" by (simp add: word_le_nat_alt unat_PGROUNDDOWN)
  then show ?thesis by (simp add: unat_sub unat_PGROUNDDOWN)
qed

lemma chunk_len: "copy_chunk va len = min (4096 - unat va mod 4096) len"
proof -
  have "va - PGROUNDDOWN va \<le> PGSIZE" using page_offset_lt[of va] by simp
  then have "unat (PGSIZE - (va - PGROUNDDOWN va)) = 4096 - unat va mod 4096"
    by (simp add: unat_sub offset_unat)
  then show ?thesis by (simp add: copy_chunk_def)
qed

lemma chunk_addr:
  assumes "i < copy_chunk va len" "unat va + len \<le> 2 ^ 64"
  shows "unat (va + of_nat i) = unat va + i" "PGROUNDDOWN (va + of_nat i) = PGROUNDDOWN va"
    "(va + of_nat i) - PGROUNDDOWN (va + of_nat i) = (va - PGROUNDDOWN va) + of_nat i"
proof -
  have i: "i < 4096 - unat va mod 4096" "i < len" using assms(1) by (simp_all add: chunk_len)
  have ui: "unat (of_nat i :: u64) = i" using i assms(2) by (simp add: unat_of_nat)
  show u: "unat (va + of_nat i) = unat va + i"
    using i assms(2) by (subst unat_add_lem[THEN iffD1]) (simp_all add: ui)
  have "(unat va + i) - (unat va + i) mod 4096 = unat va - unat va mod 4096"
  proof -
    have "(unat va mod 4096 + i) mod 4096 = unat va mod 4096 + i" using i by simp
    then have "(unat va + i) mod 4096 = unat va mod 4096 + i" by (metis mod_add_left_eq)
    then show ?thesis by simp
  qed
  then show p: "PGROUNDDOWN (va + of_nat i) = PGROUNDDOWN va"
    by (simp add: word_unat_eq_iff unat_PGROUNDDOWN u)
  show "(va + of_nat i) - PGROUNDDOWN (va + of_nat i) = (va - PGROUNDDOWN va) + of_nat i"
    unfolding p by (simp add: algebra_simps)
qed

lemma chunk_next:
  assumes "copy_chunk va len < len"
  shows "PGROUNDDOWN va + PGSIZE = va + of_nat (copy_chunk va len)"
proof -
  have n: "copy_chunk va len = unat (PGSIZE - (va - PGROUNDDOWN va))"
    using assms by (simp add: copy_chunk_def)
  show ?thesis unfolding n by simp
qed

lemma uaddr_chunk:
  assumes "i < copy_chunk va len" "unat va + len \<le> 2 ^ 64" "va < MAXVA"
  shows "uaddr s pt (va + of_nat i) = map_option (\<lambda>a. a + of_nat i) (uaddr s pt va)"
proof -
  note c = chunk_addr[OF assms(1,2)]
  have m: "va + of_nat i < MAXVA" using page_less_MAXVA[of "va + of_nat i"] page_less_MAXVA[of va] assms(3)
    by (simp add: c(2))
  have "vmap s pt (va + of_nat i) = vmap s pt va"
    by (rule lookup_page) (use m assms(3) c(2) in \<open>auto simp: below_MAXVA\<close>)
  then show ?thesis using m assms(3) c(3) by (auto simp: uaddr_def add.assoc split: option.splits)
qed

lemma walkaddr_uaddr:
  assumes "pt_wf 2 (mem s) e pt"
  shows "walkaddr ka pt (PGROUNDDOWN va) s =
    Inr (case uaddr s pt va of None \<Rightarrow> 0 | Some a \<Rightarrow> a - (va - PGROUNDDOWN va))"
proof (cases "va < MAXVA")
  case True
  then have p: "PGROUNDDOWN va < MAXVA" by (simp add: page_less_MAXVA)
  have "vmap s pt (PGROUNDDOWN va) = vmap s pt va"
    by (rule lookup_page) (use True p in \<open>auto simp: below_MAXVA\<close>)
  with True p walkaddr_vmap[OF assms p, of ka] show ?thesis
    by (auto simp: uaddr_def split: option.splits)
next
  case False
  then show ?thesis by (simp add: uaddr_def page_less_MAXVA walkaddr_high)
qed

lemma uaddr_page:
  assumes "uaddr s pt va = Some a"
  shows "a - (va - PGROUNDDOWN va) \<noteq> 0" "page_aligned (a - (va - PGROUNDDOWN va))"
    "PGROUNDDOWN a = a - (va - PGROUNDDOWN va)" "va < MAXVA"
  using assms page_offset_lt[of va]
  by (auto simp: uaddr_def PGROUNDDOWN_offset split: if_splits option.splits)

section \<open>copyin\<close>

lemma copyin_bytes:
  assumes "pt_wf 2 (mem s) e pt" "unat srcva + len \<le> 2 ^ 64"
    "\<forall>i<len. uaddr s pt (srcva + of_nat i) \<noteq> None"
  shows "copyin ka pt srcva len s =
    Inr (0, map (\<lambda>i. mem s (the (uaddr s pt (srcva + of_nat i)))) [0..<len])"
  using assms(2,3)
proof (induction len arbitrary: srcva rule: less_induct)
  case (less len)
  show ?case
  proof (cases "0 < len")
    case False
    then show ?thesis by (simp add: copyin.simps)
  next
    case True
    let ?n = "copy_chunk srcva len"
    have n: "0 < ?n" "?n \<le> len" using True by (simp_all add: copy_chunk_pos) (simp add: copy_chunk_def)
    from less.prems(2) True obtain a where a: "uaddr s pt srcva = Some a" by force
    note up = uaddr_page[OF a]
    have rest: "copyin ka pt (PGROUNDDOWN srcva + PGSIZE) (len - ?n) s =
        Inr (0, map (\<lambda>i. mem s (the (uaddr s pt (srcva + of_nat (?n + i))))) [0..<len - ?n])"
    proof (cases "?n < len")
      case False
      then show ?thesis by (simp add: copyin.simps)
    next
      case lt: True
      have nx: "unat (srcva + of_nat ?n) = unat srcva + ?n"
        using lt less.prems(1) by (subst unat_add_lem[THEN iffD1]) (simp_all add: unat_of_nat)
      have "copyin ka pt (srcva + of_nat ?n) (len - ?n) s =
          Inr (0, map (\<lambda>i. mem s (the (uaddr s pt (srcva + of_nat ?n + of_nat i)))) [0..<len - ?n])"
      proof (rule less.IH)
        show "\<forall>i<len - ?n. uaddr s pt (srcva + of_nat ?n + of_nat i) \<noteq> None"
        proof (intro allI impI)
          fix i assume "i < len - ?n"
          then have "?n + i < len" by simp
          with less.prems(2) have "uaddr s pt (srcva + of_nat (?n + i)) \<noteq> None" by blast
          then show "uaddr s pt (srcva + of_nat ?n + of_nat i) \<noteq> None" by (simp add: add.assoc)
        qed
      qed (use n lt less.prems(1) nx in simp_all)
      then show ?thesis using chunk_next[OF lt] by (simp add: add.assoc)
    qed
    have here: "read_bytes (mem s) a ?n = map (\<lambda>i. mem s (the (uaddr s pt (srcva + of_nat i)))) [0..<?n]"
      by (simp add: read_bytes_def uaddr_chunk[OF _ less.prems(1) up(4)] a)
    have split: "[0..<len] = [0..<?n] @ map (\<lambda>i. ?n + i) [0..<len - ?n]"
    proof -
      have "[0..<len] = [0..<?n] @ [?n..<?n + (len - ?n)]" using n upt_add_eq_append[of 0 ?n "len - ?n"] by simp
      then show ?thesis by (simp add: map_add_upt add.commute)
    qed
    show ?thesis
      using True a up(1) rest here
      by (simp add: copyin.simps[of ka pt srcva len] walkaddr_uaddr[OF assms(1)] split Let_def o_def)
  qed
qed

section \<open>copyout\<close>

lemma uaddr_frame:
  assumes "pt_wf 2 (mem s) e pt" "same_outside P (mem s) m" "P \<inter> tpages 2 (mem s) pt = {}"
  shows "uaddr (s\<lparr>mem := m\<rparr>) pt = uaddr s pt"
  using tree_frameD(3)[OF assms] by (simp add: uaddr_def fun_eq_iff)

lemma write_bytes_same_outside:
  assumes "page_aligned p" "off < PGSIZE" "unat off + length bs \<le> 4096"
  shows "same_outside {p} m (write_bytes m (p + off) bs)"
proof -
  have "PGROUNDDOWN x = p" if x: "unat (x - (p + off)) < length bs" for x
  proof -
    have "unat off + unat (x - (p + off)) < 4096" using x assms(3) by simp
    moreover have "unat (off + (x - (p + off))) \<le> unat off + unat (x - (p + off))"
      by (metis unat_word_ariths(1) mod_less_eq_dividend)
    ultimately have "off + (x - (p + off)) < PGSIZE" by (simp only: word_less_nat_alt unat_PGSIZE)
    moreover have "off + (x - (p + off)) = x - p" by simp
    ultimately show ?thesis using in_page_iff[OF assms(1)] by metis
  qed
  then show ?thesis by (auto simp: same_outside_def write_bytes_def)
qed

lemma copyout_bytes:
  assumes "pt_wf 2 (mem s) e pt" "unat dstva + length src \<le> 2 ^ 64"
    and "\<forall>i<length src. \<exists>a. uaddr s pt (dstva + of_nat i) = Some a \<and> PGROUNDDOWN a \<notin> tpages 2 (mem s) pt"
    and "\<forall>i<length src. \<forall>j<length src. uaddr s pt (dstva + of_nat i) = uaddr s pt (dstva + of_nat j) \<longrightarrow> i = j"
  shows "\<exists>m. copyout ka pt dstva src s = Inr (0, s\<lparr>mem := m\<rparr>) \<and>
    (\<forall>i<length src. m (the (uaddr s pt (dstva + of_nat i))) = src ! i) \<and>
    (\<forall>x. (\<forall>i<length src. uaddr s pt (dstva + of_nat i) \<noteq> Some x) \<longrightarrow> m x = mem s x)"
  using assms
proof (induction "length src" arbitrary: dstva src s rule: less_induct)
  case less
  let ?u = "\<lambda>i. uaddr s pt (dstva + of_nat i)"
  show ?case
  proof (cases "0 < length src")
    case False
    then show ?thesis by (auto simp: copyout.simps intro!: exI[of _ "mem s"])
  next
    case True
    define n where "n = copy_chunk dstva (length src)"
    have n: "0 < n" "n \<le> length src" unfolding n_def
      using copy_chunk_pos[OF True] by (simp, simp add: copy_chunk_def)
    from less.prems(3) True obtain a where a: "uaddr s pt dstva = Some a" "PGROUNDDOWN a \<notin> tpages 2 (mem s) pt"
      by force
    note up = uaddr_page[OF a(1)]
    let ?off = "dstva - PGROUNDDOWN dstva"
    have uc: "?u i = Some (a + of_nat i)" if "i < n" for i
      using that by (simp add: n_def uaddr_chunk[OF _ less.prems(2) up(4)] a)
    define m1 where "m1 = write_bytes (mem s) a (take n src)"
    define s1 where "s1 = s\<lparr>mem := m1\<rparr>"
    have so: "same_outside {PGROUNDDOWN a} (mem s) m1"
      using write_bytes_same_outside[OF up(2) page_offset_lt[of dstva], of "take n src" "mem s"] up(3) n
      by (simp add: m1_def offset_unat n_def chunk_len)
    note fr = tree_frameD[OF less.prems(1) so]
    have u1: "uaddr s1 pt = uaddr s pt"
      unfolding s1_def by (rule uaddr_frame[OF less.prems(1) so]) (use a in simp)
    have in1: "m1 (the (?u i)) = src ! i" if "i < n" for i
      using that n uc[OF that] less.prems(2) by (simp add: m1_def write_bytes_def unat_of_nat)
    have out1: "m1 x = mem s x" if "\<forall>i<n. ?u i \<noteq> Some x" for x
    proof -
      have "\<not> unat (x - a) < n"
      proof
        assume lt: "unat (x - a) < n"
        from that uc[OF lt] have "a + of_nat (unat (x - a)) \<noteq> x" using lt by auto
        then show False by simp
      qed
      then show ?thesis using n by (simp add: m1_def write_bytes_def)
    qed
    have co: "copyout ka pt dstva src s = copyout ka pt (PGROUNDDOWN dstva + PGSIZE) (drop n src) s1"
      using True a up(1) by (simp add: copyout.simps[of ka pt dstva] walkaddr_uaddr[OF less.prems(1)]
          Let_def n_def s1_def m1_def)
    show ?thesis
    proof (cases "n < length src")
      case False
      then have "n = length src" using n by simp
      with co in1 out1 show ?thesis by (auto simp: copyout.simps s1_def intro!: exI[of _ m1])
    next
      case lt: True
      have nx: "unat (dstva + of_nat n) = unat dstva + n"
        using lt less.prems(2) by (subst unat_add_lem[THEN iffD1]) (simp_all add: unat_of_nat)
      have sh: "uaddr s1 pt (dstva + of_nat n + of_nat i) = ?u (n + i)" for i
        by (simp add: u1 add.assoc)
      have "\<exists>m. copyout ka pt (dstva + of_nat n) (drop n src) s1 = Inr (0, s1\<lparr>mem := m\<rparr>) \<and>
        (\<forall>i<length (drop n src). m (the (uaddr s1 pt (dstva + of_nat n + of_nat i))) = drop n src ! i) \<and>
        (\<forall>x. (\<forall>i<length (drop n src). uaddr s1 pt (dstva + of_nat n + of_nat i) \<noteq> Some x) \<longrightarrow>
          m x = mem s1 x)"
      proof (rule less.hyps)
        show "pt_wf 2 (mem s1) e pt" using fr(2) a(2) by (simp add: s1_def)
        have T: "tpages 2 (mem s1) pt = tpages 2 (mem s) pt" using fr(1) a(2) by (simp add: s1_def)
        show "\<forall>i<length (drop n src). \<exists>a. uaddr s1 pt (dstva + of_nat n + of_nat i) = Some a \<and>
            PGROUNDDOWN a \<notin> tpages 2 (mem s1) pt"
          unfolding sh T using less.prems(3) by (simp add: less_diff_conv add.commute del: of_nat_add)
        show "\<forall>i<length (drop n src). \<forall>j<length (drop n src). uaddr s1 pt (dstva + of_nat n + of_nat i) =
            uaddr s1 pt (dstva + of_nat n + of_nat j) \<longrightarrow> i = j"
          unfolding sh using less.prems(4) by (simp add: less_diff_conv add.commute del: of_nat_add) fastforce
      qed (use lt n nx less.prems(2) in auto)
      then obtain m where m: "copyout ka pt (dstva + of_nat n) (drop n src) s1 = Inr (0, s1\<lparr>mem := m\<rparr>)"
        "\<And>i. n + i < length src \<Longrightarrow> m (the (?u (n + i))) = src ! (n + i)"
        "\<And>x. (\<And>i. n + i < length src \<Longrightarrow> ?u (n + i) \<noteq> Some x) \<Longrightarrow> m x = m1 x"
        unfolding sh by (auto simp: s1_def less_diff_conv add.commute)
      have "m (the (?u i)) = src ! i" if i: "i < length src" for i
      proof (cases "i < n")
        case True
        have "m (the (?u i)) = m1 (the (?u i))"
          using less.prems(4) True i uc[OF True] by (intro m(3)) (metis not_add_less1 option.sel)
        with in1[OF True] show ?thesis by simp
      next
        case False
        with m(2)[of "i - n"] i show ?thesis by simp
      qed
      moreover have "m x = mem s x" if "\<forall>i<length src. ?u i \<noteq> Some x" for x
        using m(3)[of x] out1[of x] that n by (auto simp del: of_nat_add)
      ultimately show ?thesis
        using co m(1) chunk_next[of dstva "length src"] lt by (auto simp: n_def[symmetric] s1_def)
    qed
  qed
qed

end
