(* ===== verification/VmProps.thy ===== *)
theory VmProps
  imports VmUnmap VmCopy
begin

text \<open>
  The properties of the page allocator and of the virtual memory code linked with it: the lemmas
  proved in the allocator's contract, read off through its interpretation on \<open>kalloc\<close> and \<open>kfree\<close>.
  The state \<open>one_page\<close> is a small concrete machine on which they are exercised: a three-level
  page table that maps one user page at address 0, and one free page.
\<close>

section \<open>A concrete address space\<close>

definition P0 :: u64 where "P0 = 0x80000000"
definition P1 :: u64 where "P1 = 0x80001000"
definition P2 :: u64 where "P2 = 0x80002000"
definition P3 :: u64 where "P3 = 0x80003000"
definition P4 :: u64 where "P4 = 0x80004000"

definition user_pte :: u64 where
  "user_pte = PA2PTE P3 OR (PTE_R OR PTE_W OR PTE_U) OR PTE_V"

definition tree_mem :: "u64 \<Rightarrow> memory" where
  "tree_mem u = store64 (store64 (store64 (\<lambda>_. 0) (slot P0 0) (PA2PTE P1 OR PTE_V))
     (slot P1 0) (PA2PTE P2 OR PTE_V)) (slot P2 0) u"

definition one_page_mem :: memory where
  "one_page_mem = tree_mem user_pte"

definition one_page :: kmem_machine where
  "one_page = \<lparr>mem = one_page_mem, kend = KERNBASE, freelist = P4\<rparr>"

lemmas P_defs = P0_def P1_def P2_def P3_def P4_def

lemma P_aligned [simp]: "page_aligned P0" "page_aligned P1" "page_aligned P2" "page_aligned P3" "page_aligned P4"
  by (simp_all add: P_defs page_aligned_unat)

lemma P_managed [simp]: "managed KERNBASE P0" "managed KERNBASE P1" "managed KERNBASE P2"
  "managed KERNBASE P3" "managed KERNBASE P4"
  by (simp_all add: managed_def) (simp_all add: P_defs KERNBASE_def PHYSTOP_def)

lemma P_neq [simp]:
  "P0 \<noteq> P1" "P0 \<noteq> P2" "P0 \<noteq> P3" "P0 \<noteq> P4" "P1 \<noteq> P0" "P1 \<noteq> P2" "P1 \<noteq> P3" "P1 \<noteq> P4"
  "P2 \<noteq> P0" "P2 \<noteq> P1" "P2 \<noteq> P3" "P2 \<noteq> P4" "P3 \<noteq> P0" "P3 \<noteq> P1" "P3 \<noteq> P2" "P3 \<noteq> P4"
  "P4 \<noteq> P0" "P4 \<noteq> P1" "P4 \<noteq> P2" "P4 \<noteq> P3" "P4 \<noteq> 0"
  by (simp_all add: P_defs)

lemma entry_zero_mem: "entry (\<lambda>_. 0) p i = 0"
  by (simp add: entry_def load64_def load_le_zero)

lemma user_pte_simps [simp]:
  "valid user_pte" "PTE2PA user_pte = P3" "user_pte AND PTE_U \<noteq> 0" "PTE_FLAGS user_pte \<noteq> PTE_V"
  by (simp_all add: user_pte_def P3_def PA2PTE_def PTE2PA_def PTE_FLAGS_def pte_bits)

lemma table_pte_simps [simp]:
  "valid (PA2PTE P1 OR PTE_V)" "is_table (PA2PTE P1 OR PTE_V)" "PTE2PA (PA2PTE P1 OR PTE_V) = P1"
  "valid (PA2PTE P2 OR PTE_V)" "is_table (PA2PTE P2 OR PTE_V)" "PTE2PA (PA2PTE P2 OR PTE_V) = P2"
  by (simp_all add: P_defs PA2PTE_def PTE2PA_def pte_bits)

lemma tree_entry:
  assumes "i < 512"
  shows "entry (tree_mem u) P0 i = (if i = 0 then PA2PTE P1 OR PTE_V else 0)"
    "entry (tree_mem u) P1 i = (if i = 0 then PA2PTE P2 OR PTE_V else 0)"
    "entry (tree_mem u) P2 i = (if i = 0 then u else 0)" "entry (tree_mem u) P4 i = 0"
  using assms by (auto simp: tree_mem_def entry_store64 entry_zero_mem)

lemma one_entry_table:
  assumes e: "\<And>i. i < 512 \<Longrightarrow> entry m p i = (if i = 0 then e else 0)" and "valid e" "PTE2PA e = c"
  shows "tpages (Suc l) m p = insert p (tpages l m c)"
    "lookup (Suc l) m p va = (if PX (Suc l) va = 0 then lookup l m c va else None)"
    "is_table e \<Longrightarrow> managed ke p \<Longrightarrow> pt_wf l m ke c \<Longrightarrow> p \<notin> tpages l m c \<Longrightarrow> pt_wf (Suc l) m ke p"
proof -
  have v: "i < 512 \<and> valid (entry m p i) \<longleftrightarrow> i = 0" for i
    using assms(2) by (auto simp: e word_less_nat_alt split: if_splits)
  have z: "entry m p 0 = e" by (simp add: e word_less_nat_alt)
  show "tpages (Suc l) m p = insert p (tpages l m c)" by (simp add: v z assms(3))
  show "lookup (Suc l) m p va = (if PX (Suc l) va = 0 then lookup l m c va else None)"
    using assms(2,3) by (simp add: e Let_def)
  assume a: "is_table e" "managed ke p" "pt_wf l m ke c" "p \<notin> tpages l m c"
  have "is_table (entry m p i) \<and> pt_wf l m ke (PTE2PA (entry m p i)) \<and> p \<notin> tpages l m (PTE2PA (entry m p i))"
    if "i < 512" "valid (entry m p i)" for i
    using v[of i] that a z assms(3) by simp
  moreover have "i = j" if "i < 512" "j < 512" "valid (entry m p i)" "valid (entry m p j)" for i j
    using v[of i] v[of j] that by simp
  ultimately show "pt_wf (Suc l) m ke p" using a(2) by (simp, blast)
qed

lemmas tree_tables =
  one_entry_table[OF tree_entry(2) table_pte_simps(4,6)]
  one_entry_table[OF tree_entry(1) table_pte_simps(1,3)]

lemma tree_leaf: "valid u \<Longrightarrow> lookup 0 (tree_mem u) P2 va = (if PX 0 va = 0 then Some u else None)"
  by (simp add: tree_entry)

lemma tree_shape:
  "pt_wf 2 (tree_mem u) KERNBASE P0" "tpages 2 (tree_mem u) P0 = {P0, P1, P2}"
  "valid u \<Longrightarrow> lookup 2 (tree_mem u) P0 va =
     (if PX 2 va = 0 \<and> PX 1 va = 0 \<and> PX 0 va = 0 then Some u else None)"
  unfolding numeral_2_eq_2
  by (simp_all add: tree_tables tree_leaf del: tpages.simps(2) lookup.simps pt_wf.simps(2))

lemma tree_vmap:
  "valid u \<Longrightarrow> unat va < 2 ^ 39 \<Longrightarrow> lookup 2 (tree_mem u) P0 va = (if PGROUNDDOWN va = 0 then Some u else None)"
proof -
  assume u: "valid u" and va: "unat va < 2 ^ 39"
  have "same_vpn 2 va 0 \<longleftrightarrow> PX 2 va = 0 \<and> PX 1 va = 0 \<and> PX 0 va = 0"
    by (auto simp: same_vpn_def le_Suc_eq numeral_2_eq_2 PX_def)
  moreover have "same_vpn 2 va 0 \<longleftrightarrow> PGROUNDDOWN va = PGROUNDDOWN 0"
    using va by (intro same_vpn_iff) simp_all
  ultimately show ?thesis by (simp add: tree_shape(3)[OF u] PGROUNDDOWN_aligned)
qed

lemma tree_free: "load64 (tree_mem u) P4 = 0"
  using tree_entry(4)[of 0 u] by (simp add: entry_def slot_def word_less_nat_alt)

lemmas one_page_tree_simps [simp] = tree_shape(1,2)[of user_pte, folded one_page_mem_def]

lemma one_page_sel [simp]: "mem one_page = one_page_mem" "kend one_page = KERNBASE" "freelist one_page = P4"
  by (simp_all add: one_page_def)

lemma one_page_kmem [simp]: "kmem_inv one_page [P4]" "kmem_ok one_page" "kmem_free one_page = {P4}"
proof -
  show k: "kmem_inv one_page [P4]" by (simp add: kmem_inv_def tree_free one_page_mem_def)
  show "kmem_ok one_page" using k by (auto simp: kmem_ok_def)
  show "kmem_free one_page = {P4}" using kmem_free_eq[OF k] by simp
qed

lemma one_page_inv [simp]: "pt_inv {P4} one_page P0"
  by (simp add: pt_inv_def)

lemmas one_page_vmap = tree_vmap[of user_pte, OF user_pte_simps(1), folded one_page_mem_def]

section \<open>The page allocator\<close>

text \<open>
  At boot, \<open>kinit\<close> does not panic and leaves exactly the pages between the end of the kernel and
  \<open>PHYSTOP\<close> on the free list, each once.
\<close>

theorem kinit_frees_all_pages:
  assumes "freelist s = 0" "0 < kend s" "kend s \<le> PHYSTOP"
  shows "\<exists>s' ps. kinit s = Inr s' \<and> kmem_inv s' ps \<and> distinct ps \<and>
    set ps = {p. page_aligned p \<and> p \<noteq> 0 \<and> kend s \<le> p \<and> p < PHYSTOP}"
  using kinit_all_pages[OF assms] by (auto simp: kmem_inv_def managed_def)

theorem kinit_frees_all_pages_witness:
  "\<exists>s' ps. kinit \<lparr>mem = (\<lambda>_. 0), kend = 0x87FFF000, freelist = 0\<rparr> = Inr s' \<and> kmem_inv s' ps \<and>
     distinct ps \<and> set ps = {p. page_aligned p \<and> p \<noteq> 0 \<and> 0x87FFF000 \<le> p \<and> p < PHYSTOP}"
  using kinit_frees_all_pages[of "\<lparr>mem = (\<lambda>_. 0), kend = 0x87FFF000, freelist = 0\<rparr>"]
  by (simp add: PHYSTOP_def KERNBASE_def)

text \<open>
  The free list is a stack of distinct pages threaded through the free pages: \<open>kfree\<close> pushes its
  page, the next \<open>kalloc\<close> returns that page and restores the list, and neither touches any other page.
\<close>

theorem kfree_kalloc_stack:
  assumes "kmem_inv s ps" "managed (kend s) p" "p \<notin> set ps"
  shows "\<exists>s1 s2. kfree p s = Inr s1 \<and> kmem_inv s1 (p # ps) \<and> same_outside {p} (mem s) (mem s1) \<and>
    kalloc s1 = (p, s2) \<and> kmem_inv s2 ps \<and> same_outside {p} (mem s1) (mem s2)"
proof -
  from kfree_push[OF assms] obtain s1 where s1: "kfree p s = Inr s1" "kmem_inv s1 (p # ps)"
    "same_outside {p} (mem s) (mem s1)" by blast
  with kalloc_pop[OF s1(2)] show ?thesis by blast
qed

theorem kfree_kalloc_stack_witness:
  "\<exists>s1 s2. kfree P3 one_page = Inr s1 \<and> kmem_inv s1 [P3, P4] \<and>
     same_outside {P3} one_page_mem (mem s1) \<and> kalloc s1 = (P3, s2) \<and> kmem_inv s2 [P4] \<and>
     same_outside {P3} (mem s1) (mem s2)"
  using kfree_kalloc_stack[of one_page "[P4]" P3] by simp

text \<open>
  C17: \<open>free_mem\<close>, which \<open>sysinfo\<close> reports, terminates on the list the invariant describes and counts
  its bytes.
\<close>

theorem free_mem_counts:
  assumes "kmem_inv s ps"
  shows "free_mem s = Some (of_nat (length ps) * PGSIZE)"
  using free_mem_loop_chain[of "mem s" "freelist s" ps 0] assms
  by (simp add: free_mem_def kmem_inv_def)

theorem free_mem_counts_witness: "free_mem one_page = Some PGSIZE"
  using free_mem_counts[of one_page "[P4]"] by simp

section \<open>Page tables\<close>

text \<open>
  C2: \<open>mappages\<close> on a range that is not mapped never panics. It either succeeds, and then the abstract
  map of the table is updated on exactly the pages of the range, page by page to consecutive
  physical pages with the permissions asked for; or it returns -1 because no page is left. In both
  cases the table stays a well-formed tree that shares no page with the free list, and only the
  pages that left the free list were added to it.
\<close>

theorem mappages_correct:
  assumes "kmem_ok s" "pt_inv (kmem_free s) s pt" "0 < sz" "unat va + unat sz \<le> 2 ^ 38"
    and "\<And>v. unat v < 2 ^ 39 \<Longrightarrow> PGROUNDDOWN va \<le> PGROUNDDOWN v \<Longrightarrow>
       PGROUNDDOWN v \<le> PGROUNDDOWN (va + sz - 1) \<Longrightarrow> vmap s pt v = None"
  shows "\<exists>r s'. mappages kalloc pt va sz pa perm s = Inr (r, s') \<and>
    kmem_ok s' \<and> pt_inv (kmem_free s') s' pt \<and> kmem_free s' \<subseteq> kmem_free s \<and>
    tpages 2 (mem s') pt = tpages 2 (mem s) pt \<union> (kmem_free s - kmem_free s') \<and>
    same_outside (tpages 2 (mem s') pt) (mem s) (mem s') \<and>
    (r = 0 \<and> (\<forall>v. unat v < 2 ^ 39 \<longrightarrow> vmap s' pt v =
        (if PGROUNDDOWN va \<le> PGROUNDDOWN v \<and> PGROUNDDOWN v \<le> PGROUNDDOWN (va + sz - 1)
         then Some (PA2PTE (pa + (PGROUNDDOWN v - PGROUNDDOWN va)) OR perm OR PTE_V)
         else vmap s pt v)) \<or>
     r = -1 \<and> kmem_free s' = {})"
  using ka.mappages_spec[OF assms] unfolding ka.grown_def by blast

theorem mappages_correct_witness:
  "\<exists>r s'. mappages kalloc P0 0x1000 0x1000 P4 PTE_R one_page = Inr (r, s') \<and> kmem_ok s' \<and>
    pt_inv (kmem_free s') s' P0 \<and> (r = 0 \<or> r = -1)"
proof -
  have n: "vmap one_page P0 v = None" if "unat v < 2 ^ 39" "PGROUNDDOWN 0x1000 \<le> PGROUNDDOWN v" for v
    using that by (auto simp: one_page_vmap PGROUNDDOWN_def PGSIZE_def)
  show ?thesis
    using mappages_correct[where s = one_page and pt = P0 and va = "0x1000" and sz = "0x1000" and
        pa = P4 and perm = PTE_R, OF _ _ _ _ n] by auto
qed

text \<open>
  C9: \<open>uvmunmap\<close> on a range of mapped leaf entries does not panic, removes exactly the mappings of the
  range, keeps the table well formed, and (when asked to free) gives exactly the physical pages of
  the range back to the allocator.
\<close>

theorem uvmunmap_correct:
  assumes "kmem_ok s" "pt_inv (kmem_free s) s pt" "page_aligned va"
    and "unat va + 4096 * unat npages \<le> 2 ^ 38"
    and "A = vpages va (va + npages * PGSIZE)" "mapped_leaves s pt A"
    and "do_free \<Longrightarrow> frames_inj s pt A"
    and "do_free \<Longrightarrow> \<forall>p\<in>frames s pt A. managed (kend s) p \<and> p \<notin> kmem_free s \<and> p \<notin> tpages 2 (mem s) pt"
  shows "\<exists>s'. uvmunmap kalloc kfree pt va npages do_free s = Inr s' \<and>
    kmem_ok s' \<and> pt_inv (kmem_free s') s' pt \<and> tpages 2 (mem s') pt = tpages 2 (mem s) pt \<and>
    kmem_free s' = kmem_free s \<union> (if do_free then frames s pt A else {}) \<and>
    (\<forall>v. unat v < 2 ^ 39 \<longrightarrow> vmap s' pt v = (if PGROUNDDOWN v \<in> A then None else vmap s pt v))"
  using ka.uvmunmap_spec[OF assms(1-4), of do_free] assms(5-8)
  unfolding ka.shrunk_def ka.releasable_def by auto

lemma one_page_vpages: "vpages 0 PGSIZE = {0}"
proof -
  have "unat va = 0" if "4096 dvd unat va" "unat va < 4096" for va :: u64
    using that by (meson dvd_imp_le not_le zero_less_iff_neq_zero)
  then show ?thesis
    by (auto simp: vpages_def page_aligned_unat word_less_nat_alt dvd_eq_mod_eq_0 word_unat_eq_iff)
qed

lemma one_page_user [simp]:
  "lookup 2 one_page_mem P0 0 = Some user_pte" "frames one_page P0 {0} = {P3}" "frames_inj one_page P0 {0}"
  "mapped_leaves one_page P0 {0}"
  using one_page_vmap[of 0]
  by (simp_all add: PGROUNDDOWN_aligned frames_def frames_inj_def mapped_leaves_def)

theorem uvmunmap_correct_witness:
  "\<exists>s'. uvmunmap kalloc kfree P0 0 1 True one_page = Inr s' \<and> kmem_ok s' \<and> kmem_free s' = {P3, P4} \<and>
     vmap s' P0 0 = None"
proof -
  have A: "vpages 0 (0 + 1 * PGSIZE) = {0}" using one_page_vpages by simp
  obtain s' where s': "uvmunmap kalloc kfree P0 0 1 True one_page = Inr s'" "kmem_ok s'"
    "kmem_free s' = {P4} \<union> {P3}"
    "\<forall>v. unat v < 2 ^ 39 \<longrightarrow> vmap s' P0 v = (if PGROUNDDOWN v \<in> {0} then None else vmap one_page P0 v)"
    using uvmunmap_correct[of one_page P0 0 1 "{0}" True, OF _ _ _ _ A[symmetric]] by auto
  have "vmap s' P0 0 = None" using s'(4) by (simp add: PGROUNDDOWN_aligned)
  with s' show ?thesis by auto
qed

text \<open>
  C8: \<open>uvmfree\<close> on an address space whose mappings are the user pages below \<open>sz\<close> does not panic and
  leaks nothing: afterwards the free list has gained every user page and every page of the page
  table (so the recursion of \<open>freewalk\<close> is never deeper than three levels).
\<close>

theorem uvmfree_frees_everything:
  assumes "kmem_ok s" "pt_inv (kmem_free s) s pt" "unat sz \<le> 2 ^ 38"
    and "A = vpages 0 (PGROUNDUP sz)" "mapped_leaves s pt A" "frames_inj s pt A"
    and "\<forall>p\<in>frames s pt A. managed (kend s) p \<and> p \<notin> kmem_free s \<and> p \<notin> tpages 2 (mem s) pt"
    and "\<And>va. unat va < 2 ^ 39 \<Longrightarrow> PGROUNDDOWN va \<notin> A \<Longrightarrow> vmap s pt va = None"
  shows "\<exists>s'. uvmfree kalloc kfree pt sz s = Inr s' \<and> kmem_ok s' \<and>
    kmem_free s' = kmem_free s \<union> tpages 2 (mem s) pt \<union> frames s pt A \<and>
    same_outside (tpages 2 (mem s) pt \<union> frames s pt A) (mem s) (mem s')"
  using ka.uvmfree_spec[OF assms(1-5) _ assms(8)] assms(6,7)
  unfolding ka.released_def ka.releasable_def by (auto simp: Un_assoc)

theorem uvmfree_frees_everything_witness:
  "\<exists>s'. uvmfree kalloc kfree P0 5 one_page = Inr s' \<and> kmem_ok s' \<and>
    kmem_free s' = {P0, P1, P2, P3, P4}"
proof -
  have "unat (PGROUNDUP 5) = unat PGSIZE" by (simp add: unat_PGROUNDUP)
  then have "PGROUNDUP 5 = PGSIZE" by (rule word_unat_eq_iff[THEN iffD2])
  then have A: "{0} = vpages 0 (PGROUNDUP 5)" using one_page_vpages by simp
  have "\<exists>s'. uvmfree kalloc kfree P0 5 one_page = Inr s' \<and> kmem_ok s' \<and>
    kmem_free s' = kmem_free one_page \<union> tpages 2 (mem one_page) P0 \<union> frames one_page P0 {0} \<and>
    same_outside (tpages 2 (mem one_page) P0 \<union> frames one_page P0 {0}) (mem one_page) (mem s')"
    by (rule uvmfree_frees_everything[OF _ _ _ A]) (simp_all add: one_page_vmap)
  then show ?thesis by auto
qed

section \<open>Copying\<close>

text \<open>
  C13: what \<open>copyout\<close> writes into a user address space, \<open>copyin\<close> reads back: if every byte of the
  destination is mapped for the user, no two of them to the same place and none into the page
  table, both return 0 and the bytes read are the bytes written, whatever page boundaries lie
  between them.
\<close>

theorem copyout_copyin:
  assumes "pt_wf 2 (mem s) e pt" "unat va + length src \<le> 2 ^ 64"
    and "\<forall>i<length src. \<exists>a. uaddr s pt (va + of_nat i) = Some a \<and> PGROUNDDOWN a \<notin> tpages 2 (mem s) pt"
    and "\<forall>i<length src. \<forall>j<length src. uaddr s pt (va + of_nat i) = uaddr s pt (va + of_nat j) \<longrightarrow> i = j"
  shows "\<exists>s'. copyout ka pt va src s = Inr (0, s') \<and> copyin ka' pt va (length src) s' = Inr (0, src)"
proof -
  from copyout_bytes[OF assms] obtain m where m: "copyout ka pt va src s = Inr (0, s\<lparr>mem := m\<rparr>)"
    "\<forall>i<length src. m (the (uaddr s pt (va + of_nat i))) = src ! i"
    "\<forall>x. (\<forall>i<length src. uaddr s pt (va + of_nat i) \<noteq> Some x) \<longrightarrow> m x = mem s x" by blast
  have so: "same_outside (- tpages 2 (mem s) pt) (mem s) m"
    using m(3) assms(3) by (force simp: same_outside_def)
  note fr = tree_frameD[OF assms(1) so] uaddr_frame[OF assms(1) so]
  have "copyin ka' pt va (length src) (s\<lparr>mem := m\<rparr>) =
      Inr (0, map (\<lambda>i. m (the (uaddr s pt (va + of_nat i)))) [0..<length src])"
    using copyin_bytes[of "s\<lparr>mem := m\<rparr>" e pt va "length src" ka'] assms(2,3) fr by auto
  also have "map (\<lambda>i. m (the (uaddr s pt (va + of_nat i)))) [0..<length src] = src"
    using m(2) by (intro nth_equalityI) auto
  finally show ?thesis using m(1) by blast
qed

lemma one_page_uaddr: "va < PGSIZE \<Longrightarrow> uaddr one_page P0 va = Some (P3 + va)"
proof -
  assume va: "va < PGSIZE"
  then have p: "PGROUNDDOWN va = 0" and u: "unat va < 4096"
    using PGROUNDDOWN_offset[of 0 va] by (simp_all add: word_less_nat_alt)
  have "P3 \<noteq> 0" by (simp add: P3_def)
  with p u show ?thesis by (simp add: uaddr_def below_MAXVA one_page_vmap)
qed

theorem copyout_copyin_witness:
  "\<exists>s'. copyout kalloc P0 4 [1, 2, 3] one_page = Inr (0, s') \<and> copyin kalloc P0 4 3 s' = Inr (0, [1, 2, 3])"
proof -
  have "(4 :: u64) + of_nat i < PGSIZE" if "i < 3" for i
    using that by (auto simp: less_Suc_eq numeral_3_eq_3 PGSIZE_def)
  then have u: "uaddr one_page P0 (4 + of_nat i) = Some (P3 + (4 + of_nat i))"
    and g: "PGROUNDDOWN (P3 + (4 + of_nat i)) = P3" if "i < 3" for i
    using that by (simp_all add: one_page_uaddr PGROUNDDOWN_offset)
  have "(of_nat i :: u64) = of_nat j \<longleftrightarrow> i = j" if "i < 3" "j < 3" for i j
    using that by (simp add: word_unat_eq_iff unat_of_nat)
  then show ?thesis
    using copyout_copyin[of one_page KERNBASE P0 4 "[1, 2, 3]" kalloc kalloc]
    by (simp add: u g numeral_3_eq_3[symmetric])
qed

end
