(* ===== verification/KallocCow.thy ===== *)
theory KallocCow
  imports VmUnmap
begin

text \<open>
  The allocator of the copy-on-write lab (\<open>xv6-labs-cow/kalloc.c\<close>): the free list of \<open>Kalloc\<close> and, for
  every physical page, an 8-bit count of the page tables that map it. \<open>kfree\<close> drops one reference
  and gives the page back when the count reaches zero. The allocator keeps the contract
  \<open>page_allocator\<close> with \<open>last_ref\<close> meaning that the count is one.
\<close>

record cow_machine = kmem_machine +
  ref_cnt :: "u64 \<Rightarrow> u8"

definition cow_index :: "u64 \<Rightarrow> u64" where
  "cow_index pa = drop_bit 12 (pa - KERNBASE)"

definition increfcnt :: "u64 \<Rightarrow> 'a cow_machine_scheme \<Rightarrow> 'a cow_machine_scheme" where
  "increfcnt pa s =
     (if pa < KERNBASE then s
      else let i = cow_index pa in s\<lparr>ref_cnt := (ref_cnt s)(i := ref_cnt s i + 1)\<rparr>)"

definition decrefcnt :: "u64 \<Rightarrow> 'a cow_machine_scheme \<Rightarrow> u8 \<times> 'a cow_machine_scheme" where
  "decrefcnt pa s =
     (if pa < KERNBASE then (0, s)
      else let i = cow_index pa; ret = ref_cnt s i - 1
           in (ret, s\<lparr>ref_cnt := (ref_cnt s)(i := ret)\<rparr>))"

definition cow_kfree :: "u64 \<Rightarrow> 'a cow_machine_scheme \<Rightarrow> 'a cow_machine_scheme res" where
  "cow_kfree pa s =
     (if pa mod PGSIZE \<noteq> 0 \<or> pa < kend s \<or> pa \<ge> PHYSTOP then Inl (Panic ''kfree'')
      else let (c, s0) = decrefcnt pa s in
        if c \<noteq> 0 then Inr s0
        else
          let s1 = s0\<lparr>mem := memset (mem s0) pa 1 PGSIZE\<rparr>;
              s2 = s1\<lparr>mem := store64 (mem s1) pa (freelist s1)\<rparr>
          in Inr (s2\<lparr>freelist := pa\<rparr>))"

definition cow_kalloc :: "'a cow_machine_scheme \<Rightarrow> u64 \<times> 'a cow_machine_scheme" where
  "cow_kalloc s =
     (let r = freelist s;
          s1 = (if r \<noteq> 0 then s\<lparr>freelist := load64 (mem s) r\<rparr> else s);
          s2 = increfcnt r s1;
          s3 = (if r \<noteq> 0 then s2\<lparr>mem := memset (mem s2) r 5 PGSIZE\<rparr> else s2)
      in (r, s3))"

lemma cow_kfree_Inr_lt: "cow_kfree p s = Inr s' \<Longrightarrow> p < PHYSTOP"
  by (auto simp: cow_kfree_def split: if_splits)

function cow_freerange_loop :: "u64 \<Rightarrow> u64 \<Rightarrow> 'a cow_machine_scheme \<Rightarrow> 'a cow_machine_scheme res" where
  "cow_freerange_loop p pa_end s =
     (if p + PGSIZE \<le> pa_end
      then bindR (cow_kfree p (increfcnt p s)) (\<lambda>s'. cow_freerange_loop (p + PGSIZE) pa_end s')
      else Inr s)"
  by pat_completeness auto
termination
proof (relation "measure (\<lambda>(p, pa_end, s). unat PHYSTOP - unat p)")
  fix p pa_end :: u64 and s x :: "'a cow_machine_scheme"
  assume "cow_kfree p (increfcnt p s) = Inr x"
  then have "p < PHYSTOP" by (rule cow_kfree_Inr_lt)
  then show "((p + PGSIZE, pa_end, x), p, pa_end, s)
      \<in> measure (\<lambda>(p, pa_end, s). unat PHYSTOP - unat p)"
    by (simp add: below_PHYSTOP_step word_less_nat_alt)
qed simp

declare cow_freerange_loop.simps [simp del]

definition cow_freerange :: "u64 \<Rightarrow> u64 \<Rightarrow> 'a cow_machine_scheme \<Rightarrow> 'a cow_machine_scheme res" where
  "cow_freerange pa_start pa_end s = cow_freerange_loop (PGROUNDUP pa_start) pa_end s"

definition cow_kinit :: "'a cow_machine_scheme \<Rightarrow> 'a cow_machine_scheme res" where
  "cow_kinit s = cow_freerange (kend s) PHYSTOP s"

section \<open>Reference counts\<close>

lemma cow_index_unat: "KERNBASE \<le> p \<Longrightarrow> unat (cow_index p) = (unat p - 0x80000000) div 4096"
  by (simp add: cow_index_def drop_bit_eq_div unat_div unat_sub KERNBASE_def)

lemma cow_index_inject:
  assumes "page_aligned p" "page_aligned q" "KERNBASE \<le> p" "KERNBASE \<le> q"
  shows "cow_index p = cow_index q \<longleftrightarrow> p = q"
proof
  assume "cow_index p = cow_index q"
  then have "(unat p - 0x80000000) div 4096 = (unat q - 0x80000000) div 4096"
    using cow_index_unat[OF assms(3)] cow_index_unat[OF assms(4)] by simp
  moreover obtain j k where "unat p = 4096 * j" "unat q = 4096 * k"
    using assms(1,2) by (auto simp: page_aligned_unat elim!: dvdE)
  moreover have "0x80000000 \<le> unat p" "0x80000000 \<le> unat q"
    using assms(3,4) by (simp_all add: word_le_nat_alt KERNBASE_def)
  ultimately show "p = q" by (auto simp: word_unat_eq_iff)
qed simp

text \<open>The array \<open>cows\<close> is never accessed beyond its end for a page of physical memory.\<close>

lemma cow_index_bound: "KERNBASE \<le> p \<Longrightarrow> p < PHYSTOP \<Longrightarrow> unat (cow_index p) < 2 ^ 27 div 4096"
  by (simp add: cow_index_unat word_less_nat_alt unat_PHYSTOP word_le_nat_alt KERNBASE_def)

abbreviation count :: "'a cow_machine_scheme \<Rightarrow> u64 \<Rightarrow> u8" where
  "count s p \<equiv> ref_cnt s (cow_index p)"

text \<open>At boot, taking a reference and dropping it again is the plain \<open>kfree\<close>.\<close>

lemma cow_kfree_increfcnt:
  assumes "count s p = 0"
  shows "cow_kfree p (increfcnt p s) = kfree p s"
proof -
  have "(ref_cnt s)(cow_index p := 0) = ref_cnt s" using assms by (simp add: fun_upd_idem)
  then show ?thesis
    using assms by (auto simp: cow_kfree_def increfcnt_def decrefcnt_def kfree_def Let_def)
qed

lemma kfree_ref_cnt: "kfree p s = Inr s' \<Longrightarrow> ref_cnt s' = ref_cnt s"
  by (auto simp: kfree_def Let_def split: if_splits)

lemma cow_freerange_loop_eq:
  "(\<And>i. ref_cnt s i = 0) \<Longrightarrow> cow_freerange_loop p e s = freerange_loop p e s"
proof (induction p e s rule: cow_freerange_loop.induct)
  case (1 p e s)
  show ?case
  proof (cases "p + PGSIZE \<le> e \<and> (\<exists>x. kfree p s = Inr x)")
    case True
    then obtain x where x: "kfree p s = Inr x" "p + PGSIZE \<le> e" by blast
    then have "cow_freerange_loop (p + PGSIZE) e x = freerange_loop (p + PGSIZE) e x"
      using 1 kfree_ref_cnt[OF x(1)] by (simp add: cow_kfree_increfcnt)
    with x 1 show ?thesis
      by (simp add: cow_freerange_loop.simps[of p] freerange_loop.simps[of p] cow_kfree_increfcnt)
  next
    case False
    with 1 show ?thesis
      by (cases "kfree p s")
         (auto simp: cow_freerange_loop.simps[of p] freerange_loop.simps[of p] cow_kfree_increfcnt)
  qed
qed

section \<open>The contract\<close>

definition cow_inv :: "'a cow_machine_scheme \<Rightarrow> u64 list \<Rightarrow> bool" where
  "cow_inv s ps \<longleftrightarrow> kmem_inv s ps \<and> KERNBASE \<le> kend s \<and> (\<forall>p\<in>set ps. count s p = 0)"

definition cow_ok :: "'a cow_machine_scheme \<Rightarrow> bool" where
  "cow_ok s \<longleftrightarrow> (\<exists>ps. cow_inv s ps)"

definition cow_last :: "'a cow_machine_scheme \<Rightarrow> u64 \<Rightarrow> bool" where
  "cow_last s p \<longleftrightarrow> managed (kend s) p \<and> count s p = 1"

lemma managed_base: "managed e p \<Longrightarrow> KERNBASE \<le> e \<Longrightarrow> KERNBASE \<le> p \<and> \<not> p < KERNBASE"
  by (auto simp: managed_def)

lemma managed_index_inject:
  "managed e p \<Longrightarrow> managed e q \<Longrightarrow> KERNBASE \<le> e \<Longrightarrow> cow_index p = cow_index q \<longleftrightarrow> p = q"
  using managed_base by (intro cow_index_inject) (auto simp: managed_def)

lemma cow_inv_free: "cow_inv s ps \<Longrightarrow> kmem_free s = set ps"
  by (simp add: cow_inv_def kmem_free_eq)

lemma kmem_inv_ref_cnt [simp]: "kmem_inv (s\<lparr>ref_cnt := c\<rparr>) ps = kmem_inv s ps"
  by (simp add: kmem_inv_def)

lemma kmem_free_ref_cnt [simp]: "kmem_free (s\<lparr>ref_cnt := c\<rparr>) = kmem_free s"
  by (simp add: kmem_free_def)

text \<open>Dropping a reference that is not the last one only lowers the count.\<close>

lemma cow_kfree_shared:
  assumes "managed (kend s) p" "KERNBASE \<le> kend s" "count s p \<noteq> 1"
  shows "cow_kfree p s = Inr (s\<lparr>ref_cnt := (ref_cnt s)(cow_index p := count s p - 1)\<rparr>)"
proof -
  have "count s p - 1 \<noteq> 0" using assms(3) by simp
  then show ?thesis using assms(1) managed_base[OF assms(1,2)]
    by (auto simp: cow_kfree_def decrefcnt_def Let_def managed_def page_aligned_def)
qed

text \<open>Dropping the last reference is the plain \<open>kfree\<close>.\<close>

lemma cow_kfree_last:
  assumes "managed (kend s) p" "KERNBASE \<le> kend s" "count s p = 1"
  shows "cow_kfree p s = kfree p (s\<lparr>ref_cnt := (ref_cnt s)(cow_index p := 0)\<rparr>)"
  using assms(1,3) managed_base[OF assms(1,2)]
  by (auto simp: cow_kfree_def kfree_def decrefcnt_def Let_def managed_def page_aligned_def)

lemma cow_kalloc_eq:
  assumes "kalloc s = (p, s1)"
  shows "cow_kalloc s = (p, increfcnt p s1)"
  using assms by (auto simp: cow_kalloc_def kalloc_def increfcnt_def Let_def)

lemma cow_kfree_push:
  assumes "cow_inv s ps" "managed (kend s) p" "p \<notin> set ps" "count s p = 1"
  shows "\<exists>s'. cow_kfree p s = Inr s' \<and> cow_inv s' (p # ps) \<and> kend s' = kend s \<and>
    same_outside {p} (mem s) (mem s') \<and> ref_cnt s' = (ref_cnt s)(cow_index p := 0)"
proof -
  let ?s = "s\<lparr>ref_cnt := (ref_cnt s)(cow_index p := 0)\<rparr>"
  have i: "kmem_inv ?s ps" "KERNBASE \<le> kend s" using assms(1) by (simp_all add: cow_inv_def)
  from kfree_push[OF i(1), of p] assms(2,3) obtain s' where
    s': "kfree p ?s = Inr s'" "kmem_inv s' (p # ps)" "kend s' = kend s" "same_outside {p} (mem s) (mem s')"
    by auto
  from kfree_ref_cnt[OF s'(1)] have "ref_cnt s' = (ref_cnt s)(cow_index p := 0)" by simp
  moreover from this have "cow_inv s' (p # ps)"
    using s' assms(1) i(2) by (simp add: cow_inv_def)
  ultimately show ?thesis using s' cow_kfree_last[OF assms(2) i(2) assms(4)] by auto
qed

lemma cow_kalloc_pop:
  assumes "cow_inv s (p # ps)"
  shows "\<exists>s'. cow_kalloc s = (p, s') \<and> cow_inv s' ps \<and> kend s' = kend s \<and>
    same_outside {p} (mem s) (mem s') \<and> ref_cnt s' = (ref_cnt s)(cow_index p := 1)"
proof -
  have i: "kmem_inv s (p # ps)" "KERNBASE \<le> kend s" "managed (kend s) p" "count s p = 0"
    using assms by (auto simp: cow_inv_def kmem_inv_def)
  from kalloc_pop[OF i(1)] obtain s1 where s1: "kalloc s = (p, s1)" "kmem_inv s1 ps" "kend s1 = kend s"
    "same_outside {p} (mem s) (mem s1)" by blast
  have rc: "ref_cnt s1 = ref_cnt s" using s1(1) by (auto simp: kalloc_def Let_def)
  have inc: "increfcnt p s1 = s1\<lparr>ref_cnt := (ref_cnt s)(cow_index p := 1)\<rparr>"
    using managed_base[OF i(3,2)] i(4) by (simp add: increfcnt_def rc)
  have "cow_index q \<noteq> cow_index p" if "q \<in> set ps" for q
    using managed_index_inject[of "kend s" q p] i that by (auto simp: kmem_inv_def)
  then have "cow_inv (increfcnt p s1) ps"
    using assms s1(2,3) by (simp add: cow_inv_def inc)
  with s1 inc cow_kalloc_eq[OF s1(1)] show ?thesis by auto
qed

lemma cow_kalloc_empty: "cow_inv s [] \<Longrightarrow> cow_kalloc s = (0, s)"
  using cow_kalloc_eq[OF kalloc_empty, of s] by (simp add: cow_inv_def increfcnt_def KERNBASE_def)

interpretation cka: page_allocator cow_kalloc cow_kfree kmem_free cow_ok cow_last
proof unfold_locales
  fix s s' :: "'a cow_machine_scheme" and p :: u64
  assume "cow_ok s"
  then obtain ps where ps: "cow_inv s ps" by (auto simp: cow_ok_def)
  note free = cow_inv_free[OF ps]
  have base: "KERNBASE \<le> kend s" using ps by (simp add: cow_inv_def)
  have frame: "\<forall>q. q \<noteq> p \<longrightarrow> cow_last t q = cow_last s q"
    if "managed (kend s) p" "kend t = kend s" "ref_cnt t = (ref_cnt s)(cow_index p := v)" for t :: "'a cow_machine_scheme" and v
    using that managed_index_inject[OF _ that(1) base] by (auto simp: cow_last_def)
  show "s' = s \<and> kmem_free s = {}" if "cow_kalloc s = (0, s')"
    using that ps cow_kalloc_pop[of s] cow_kalloc_empty[of s]
    by (cases ps) (auto simp: free cow_inv_def kmem_inv_def)
  show "cow_ok s' \<and> p \<in> kmem_free s \<and> kmem_free s' = kmem_free s - {p} \<and> kend s' = kend s \<and>
      same_outside {p} (mem s) (mem s') \<and> cow_last s' p \<and> (\<forall>q. q \<noteq> p \<longrightarrow> cow_last s' q = cow_last s q)"
    if k: "cow_kalloc s = (p, s')" "p \<noteq> 0"
  proof (cases ps)
    case Nil
    with ps k show ?thesis using cow_kalloc_empty by fastforce
  next
    case (Cons x xs)
    with ps cow_kalloc_pop[of s x xs] k have n: "cow_inv s' xs" "x = p" "kend s' = kend s"
      "same_outside {p} (mem s) (mem s')" "ref_cnt s' = (ref_cnt s)(cow_index p := 1)" by auto
    moreover have m: "managed (kend s) p" "p \<notin> set xs"
      using ps Cons n(2) by (auto simp: cow_inv_def kmem_inv_def)
    ultimately show ?thesis using frame[OF m(1) n(3,5)] cow_inv_free[OF n(1)] Cons
      by (auto simp: free cow_ok_def cow_last_def)
  qed
  show "managed (kend s) p" if "p \<in> kmem_free s"
    using that ps by (auto simp: free cow_inv_def kmem_inv_def)
  show "cow_ok (s\<lparr>mem := m\<rparr>) \<and> kmem_free (s\<lparr>mem := m\<rparr>) = kmem_free s \<and> cow_last (s\<lparr>mem := m\<rparr>) = cow_last s"
    if so: "same_outside (- kmem_free s) (mem s) m" for m
  proof -
    have "cow_inv (s\<lparr>mem := m\<rparr>) ps"
      using ps kmem_inv_mem[of s ps m] so by (simp add: cow_inv_def free)
    then show ?thesis using cow_inv_free[of "s\<lparr>mem := m\<rparr>" ps] by (auto simp: cow_ok_def free cow_last_def)
  qed
  show "\<exists>s'. cow_kfree p s = Inr s' \<and> cow_ok s' \<and> kmem_free s' = insert p (kmem_free s) \<and>
      kend s' = kend s \<and> same_outside {p} (mem s) (mem s') \<and> (\<forall>q. q \<noteq> p \<longrightarrow> cow_last s' q = cow_last s q)"
    if k: "managed (kend s) p" "p \<notin> kmem_free s" "cow_last s p"
  proof -
    from cow_kfree_push[OF ps, of p] k obtain s' where n: "cow_kfree p s = Inr s'" "cow_inv s' (p # ps)"
      "kend s' = kend s" "same_outside {p} (mem s) (mem s')" "ref_cnt s' = (ref_cnt s)(cow_index p := 0)"
      by (auto simp: free cow_last_def)
    with frame[OF k(1) n(3,5)] cow_inv_free[OF n(2)] show ?thesis by (auto simp: free cow_ok_def)
  qed
qed (simp add: cow_kfree_def page_aligned_def linorder_not_less linorder_not_le)

end
