(* ===== verification/VmCow.thy ===== *)
theory VmCow
  imports VmCopy KallocCow
begin

text \<open>
  Copy-on-write (\<open>xv6-labs-cow/vm.c\<close> and \<open>walkcowaddr\<close> of \<open>xv6-labs-cow/trap.c\<close>), on top of the
  reference-counted allocator: \<open>uvmcopy\<close> shares the parent's pages read-only with the child, and
  \<open>walkcowaddr\<close> makes a private copy at the first write, from a store fault or from \<open>copyout\<close>.
\<close>

section \<open>Operations\<close>

function uvmcopy_cow_loop :: "u64 \<Rightarrow> u64 \<Rightarrow> u64 \<Rightarrow> u64 \<Rightarrow> 'a cow_machine_scheme \<Rightarrow>
    (int \<times> 'a cow_machine_scheme) res" where
  "uvmcopy_cow_loop old new sz i s =
     (if i < sz then
        bindR (walk cow_kalloc old i False s) (\<lambda>(pte, s1).
          if pte = 0 then Inl (Panic ''uvmcopy: pte should exist'')
          else if load64 (mem s1) pte AND PTE_V = 0 then Inl (Panic ''uvmcopy: page not present'')
          else let pa = PTE2PA (load64 (mem s1) pte);
                   flags = (PTE_FLAGS (load64 (mem s1) pte) AND NOT PTE_W) OR PTE_COW;
                   s2 = s1\<lparr>mem := store64 (mem s1) pte (PA2PTE pa OR flags)\<rparr> in
            bindR (mappages cow_kalloc new i PGSIZE pa flags s2) (\<lambda>(r, s3).
              if r \<noteq> 0 then
                bindR (uvmunmap cow_kalloc cow_kfree new 0 (i div PGSIZE) True s3) (\<lambda>s4. Inr (-1, s4))
              else uvmcopy_cow_loop old new sz (i + PGSIZE) (increfcnt pa s3)))
      else Inr (0, s))"
  by pat_completeness auto
termination
  by (relation "measure (\<lambda>(old, new, sz, i, s). 2 ^ 40 - unat i)")
     (auto dest!: mappages_Inr_lt simp: va_step)

declare uvmcopy_cow_loop.simps [simp del]

definition uvmcopy_cow :: "u64 \<Rightarrow> u64 \<Rightarrow> u64 \<Rightarrow> 'a cow_machine_scheme \<Rightarrow>
    (int \<times> 'a cow_machine_scheme) res" where
  "uvmcopy_cow old new sz s = uvmcopy_cow_loop old new sz 0 s"

definition walkcowaddr :: "u64 \<Rightarrow> u64 \<Rightarrow> 'a cow_machine_scheme \<Rightarrow> (u64 \<times> 'a cow_machine_scheme) res" where
  "walkcowaddr pagetable va s =
     (if va \<ge> MAXVA then Inr (0, s)
      else bindR (walk cow_kalloc pagetable va False s) (\<lambda>(pte, s).
        if pte = 0 then Inr (0, s)
        else if load64 (mem s) pte AND PTE_V = 0 then Inr (0, s)
        else if load64 (mem s) pte AND PTE_U = 0 then Inr (0, s)
        else let pa = PTE2PA (load64 (mem s) pte) in
          if load64 (mem s) pte AND PTE_W = 0 then
            if load64 (mem s) pte AND PTE_COW = 0 then Inr (0, s)
            else let (p, s1) = cow_kalloc s in
              if p = 0 then Inr (0, s1)
              else let s2 = s1\<lparr>mem := memmove (mem s1) p pa PGSIZE\<rparr>;
                       flags = (PTE_FLAGS (load64 (mem s2) pte) AND NOT PTE_COW) OR PTE_W in
                bindR (uvmunmap cow_kalloc cow_kfree pagetable (PGROUNDDOWN va) 1 True s2) (\<lambda>s3.
                  bindR (mappages cow_kalloc pagetable (PGROUNDDOWN va) PGSIZE p flags s3) (\<lambda>(r, s4).
                    if r \<noteq> 0 then bindR (cow_kfree p s4) (\<lambda>s5. Inr (0, s5))
                    else Inr (p, s4)))
          else Inr (pa, s)))"

function copyout_cow :: "u64 \<Rightarrow> u64 \<Rightarrow> u8 list \<Rightarrow> 'a cow_machine_scheme \<Rightarrow>
    (int \<times> 'a cow_machine_scheme) res" where
  "copyout_cow pagetable dstva src s =
     (if 0 < length src then
        let va0 = PGROUNDDOWN dstva in
        bindR (walkcowaddr pagetable va0 s) (\<lambda>(pa0, s1).
          if pa0 = 0 then Inr (-1, s1)
          else let n = copy_chunk dstva (length src) in
            copyout_cow pagetable (va0 + PGSIZE) (drop n src)
              (s1\<lparr>mem := write_bytes (mem s1) (pa0 + (dstva - va0)) (take n src)\<rparr>))
      else Inr (0, s))"
  by pat_completeness auto
termination
  by (relation "measure (\<lambda>(pagetable, dstva, src, s). length src)") (use copy_chunk_pos in auto)

declare copyout_cow.simps [simp del]

section \<open>One page\<close>

lemma walk_loop_present:
  "leaf_addr l (mem s) p va \<noteq> 0 \<Longrightarrow> walk_loop ka l p va alloc s = (leaf_addr l (mem s) p va, s)"
  by (induction l arbitrary: p) (auto simp: entry_def Let_def split: if_splits)

lemma uvmunmap_one:
  assumes "pt_wf 2 (mem s) e pt" "page_aligned a" "a < MAXVA" "vmap s pt a = Some pte"
    "PTE_FLAGS pte \<noteq> PTE_V" "kf (PTE2PA pte) s = Inr s1"
  shows "uvmunmap ka kf pt a 1 True s =
    Inr (s1\<lparr>mem := store64 (mem s1) (leaf_addr 2 (mem s) pt a) 0\<rparr>)"
proof -
  have "unat a < 2 ^ 38" using assms(3) by (simp add: below_MAXVA)
  then have "a < a + PGSIZE" by (simp add: word_less_nat_alt va_step)
  then show ?thesis
    using walk_mapped[OF assms(1,3,4)] assms(2,5,6)
    by (simp add: uvmunmap_def page_aligned_def uvmunmap_loop.simps[of ka kf pt a]
        uvmunmap_loop.simps[of ka kf pt "a + PGSIZE"])
qed

lemma page_last: "page_aligned a \<Longrightarrow> PGROUNDDOWN (a + PGSIZE - 1) = a"
proof -
  have "(4095 :: u64) < PGSIZE" by (simp add: PGSIZE_def)
  moreover have "a + PGSIZE - 1 = a + 4095" by (simp add: PGSIZE_def)
  ultimately show "page_aligned a \<Longrightarrow> PGROUNDDOWN (a + PGSIZE - 1) = a"
    by (simp only: PGROUNDDOWN_offset)
qed

lemma mappages_one:
  assumes "page_aligned a" "a < MAXVA" "leaf_addr 2 (mem s) pt a = l" "l \<noteq> 0"
    "\<not> valid (load64 (mem s) l)"
  shows "mappages ka pt a PGSIZE pa perm s =
    Inr (0, s\<lparr>mem := store64 (mem s) l (PA2PTE pa OR perm OR PTE_V)\<rparr>)"
  using assms walk_loop_present[of 2 s pt a ka True]
  by (simp add: mappages_def PGROUNDDOWN_aligned page_last mappages_loop.simps[of ka pt a] walk_def)

section \<open>Breaking a share\<close>

text \<open>
  Dropping a reference to a page that is in use: the page goes back only with the last reference.
\<close>

lemma cow_drop:
  assumes "cow_ok s" "managed (kend s) p" "p \<notin> kmem_free s" "count s p \<noteq> 0"
  shows "\<exists>s'. cow_kfree p s = Inr s' \<and> cow_ok s' \<and> kend s' = kend s \<and>
    kmem_free s' = kmem_free s \<union> (if count s p = 1 then {p} else {}) \<and>
    same_outside (if count s p = 1 then {p} else {}) (mem s) (mem s') \<and>
    ref_cnt s' = (ref_cnt s)(cow_index p := count s p - 1)"
proof -
  from assms(1) obtain ps where ps: "cow_inv s ps" by (auto simp: cow_ok_def)
  note free = cow_inv_free[OF ps]
  have base: "KERNBASE \<le> kend s" using ps by (simp add: cow_inv_def)
  show ?thesis
  proof (cases "count s p = 1")
    case True
    with cow_kfree_push[OF ps assms(2) _ True] assms(3) free obtain s' where
      s': "cow_kfree p s = Inr s'" "cow_inv s' (p # ps)" "kend s' = kend s"
      "same_outside {p} (mem s) (mem s')" "ref_cnt s' = (ref_cnt s)(cow_index p := 0)" by auto
    with cow_inv_free[OF s'(2)] True free show ?thesis by (auto simp: cow_ok_def)
  next
    case False
    let ?s = "s\<lparr>ref_cnt := (ref_cnt s)(cow_index p := count s p - 1)\<rparr>"
    have "cow_index q \<noteq> cow_index p" if "q \<in> set ps" for q
      using managed_index_inject[OF _ assms(2) base, of q] ps that assms(3) free
      by (auto simp: cow_inv_def kmem_inv_def)
    then have "cow_inv ?s ps" using ps by (simp add: cow_inv_def)
    with cow_kfree_shared[OF assms(2) base False] False show ?thesis by (auto simp: cow_ok_def)
  qed
qed

lemma cow_flags_leaf:
  "pte AND PTE_COW \<noteq> 0 \<Longrightarrow> PTE_FLAGS pte \<noteq> PTE_V"
proof
  assume "pte AND PTE_COW \<noteq> 0" and e: "PTE_FLAGS pte = PTE_V"
  then have "bit pte 8" by (simp add: pte_bits bit_iff_and_push_bit_not_eq_0 push_bit_eq_mult)
  then have "bit (PTE_FLAGS pte) 8" by (simp add: PTE_FLAGS_def x3FF_mask bit_simps)
  then show False unfolding e by (simp add: pte_bits bit_simps)
qed

lemma memmove_page:
  assumes "page_aligned p" "off < PGSIZE"
  shows "memmove m p src PGSIZE (p + off) = m (src + off)"
  using assms by (simp add: memmove_def)

lemma walkcowaddr_alloc:
  assumes "pt_wf 2 (mem s) e pt" "va < MAXVA" "vmap s pt va = Some pte"
    "pte AND PTE_U \<noteq> 0" "pte AND PTE_W = 0" "pte AND PTE_COW \<noteq> 0"
    "cow_kalloc s = (p, s1)"
  shows "walkcowaddr pt va s =
    (if p = 0 then Inr (0, s1)
     else let s2 = s1\<lparr>mem := memmove (mem s1) p (PTE2PA pte) PGSIZE\<rparr>;
              flags = (PTE_FLAGS (load64 (mem s2) (leaf_addr 2 (mem s) pt va)) AND NOT PTE_COW) OR PTE_W in
       bindR (uvmunmap cow_kalloc cow_kfree pt (PGROUNDDOWN va) 1 True s2) (\<lambda>s3.
         bindR (mappages cow_kalloc pt (PGROUNDDOWN va) PGSIZE p flags s3) (\<lambda>(r, s4).
           if r \<noteq> 0 then bindR (cow_kfree p s4) (\<lambda>s5. Inr (0, s5)) else Inr (p, s4))))"
  using walk_mapped[OF assms(1,2,3)] assms(2,4-7)
  by (auto simp: walkcowaddr_def Let_def linorder_not_le)

text \<open>Replacing the shared page under a virtual page: the entry is cleared, then written again.\<close>

lemma cow_remap:
  fixes s :: "'a cow_machine_scheme"
  assumes ok: "cow_ok s" "pt_inv (kmem_free s) s pt" and a: "page_aligned a" "a < MAXVA"
    and vm: "vmap s pt a = Some pte" "PTE_FLAGS pte \<noteq> PTE_V"
    and old: "old = PTE2PA pte" "managed (kend s) old" "old \<notin> kmem_free s" "old \<notin> tpages 2 (mem s) pt"
      "count s old \<noteq> 0"
    and G: "G = (if count s old = 1 then {old} else {})"
  shows "\<exists>s1 s'. uvmunmap cow_kalloc cow_kfree pt a 1 True s = Inr s1 \<and>
    mappages cow_kalloc pt a PGSIZE p flags s1 = Inr (0, s') \<and> cow_ok s' \<and>
    pt_inv (kmem_free s') s' pt \<and> kmem_free s' = kmem_free s \<union> G \<and>
    same_outside (tpages 2 (mem s) pt \<union> G) (mem s) (mem s') \<and>
    (\<forall>v. unat v < 2 ^ 39 \<longrightarrow> vmap s' pt v =
       (if PGROUNDDOWN v = a then Some (PA2PTE p OR flags OR PTE_V) else vmap s pt v)) \<and>
    ref_cnt s' = (ref_cnt s)(cow_index old := count s old - 1)"
proof -
  define l where "l = leaf_addr 2 (mem s) pt a"
  have wf: "pt_wf 2 (mem s) (kend s) pt" and dj: "tpages 2 (mem s) pt \<inter> kmem_free s = {}"
    using ok(2) by (simp_all add: pt_inv_def)
  from cow_drop[OF ok(1) old(2,3,5)] obtain s0 where s0: "cow_kfree old s = Inr s0" "cow_ok s0"
    "kend s0 = kend s" "kmem_free s0 = kmem_free s \<union> G" "same_outside G (mem s) (mem s0)"
    "ref_cnt s0 = (ref_cnt s)(cow_index old := count s old - 1)" unfolding G by blast
  have GT: "G \<inter> tpages 2 (mem s) pt = {}" using old(4) by (simp add: G)
  note fr = tree_frameD[OF wf s0(5) GT]
  have inv0: "pt_inv (kmem_free s0) s0 pt" using dj GT fr s0(3,4) by (auto simp: pt_inv_def)
  have l: "l \<noteq> 0" "l = leaf_addr 2 (mem s0) pt a"
    using walk_mapped(2)[OF wf a(2) vm(1)] fr(4) by (simp_all add: l_def)
  define s1 where "s1 = s0\<lparr>mem := store64 (mem s0) l 0\<rparr>"
  define s2 where "s2 = s1\<lparr>mem := store64 (mem s1) l (PA2PTE p OR flags OR PTE_V)\<rparr>"
  note S1 = cka.store_leaf[OF s0(2) inv0 l(2,1) s1_def]
  have inv1: "cow_ok s1" "pt_inv (kmem_free s1) s1 pt" using S1(1) by (simp_all add: cka.grown_def)
  have l1: "l = leaf_addr 2 (mem s1) pt a" "\<not> valid (load64 (mem s1) l)"
    using leaf_store[of 2 "mem s0" "kend s" pt a 0] fr(2) l by (simp_all add: s1_def mem_simps)
  note S2 = cka.store_leaf[OF inv1 l1(1) l(1) s2_def]
  have sv: "same_vpn 2 v a \<longleftrightarrow> PGROUNDDOWN v = a" if "unat v < 2 ^ 39" for v
    using that a by (subst same_vpn_iff) (simp_all add: below_MAXVA PGROUNDDOWN_aligned)
  have u: "uvmunmap cow_kalloc cow_kfree pt a 1 True s = Inr s1"
    unfolding s1_def l_def by (rule uvmunmap_one[OF wf a vm]) (use s0(1) old(1) in simp)
  have m: "mappages cow_kalloc pt a PGSIZE p flags s1 = Inr (0, s2)"
    unfolding s2_def by (rule mappages_one[OF a l1(1)[symmetric] l(1) l1(2)])
  have T: "tpages 2 (mem s2) pt = tpages 2 (mem s) pt" "tpages 2 (mem s1) pt = tpages 2 (mem s) pt"
    using S1(1,2) S2(1,2) fr(1) by (simp_all add: cka.grown_def)
  have "same_outside (tpages 2 (mem s) pt) (mem s0) (mem s1)" "same_outside (tpages 2 (mem s) pt) (mem s1) (mem s2)"
    using S1(1) S2(1) T unfolding cka.grown_def by metis+
  from same_outside_trans[OF s0(5) same_outside_trans[OF this]]
  have "same_outside (G \<union> (tpages 2 (mem s) pt \<union> tpages 2 (mem s) pt)) (mem s) (mem s2)" .
  then have so: "same_outside (tpages 2 (mem s) pt \<union> G) (mem s) (mem s2)" by (simp add: Un_commute)
  have v: "vmap s2 pt v = (if PGROUNDDOWN v = a then Some (PA2PTE p OR flags OR PTE_V) else vmap s pt v)"
    if "unat v < 2 ^ 39" for v
    using S1(4) S2(4) sv[OF that] by (simp add: fr(3))
  have "cow_ok s2" "pt_inv (kmem_free s2) s2 pt" "kmem_free s2 = kmem_free s \<union> G"
    using S1(2) S2(1,2) s0(4) by (simp_all add: cka.grown_def)
  moreover have "ref_cnt s2 = (ref_cnt s)(cow_index old := count s old - 1)"
    by (simp add: s2_def s1_def s0(6))
  ultimately show ?thesis using u m so v by blast
qed

text \<open>
  The copy has the contents of the shared page, only the entry of the faulting page changes, and the
  shared page loses one reference.
\<close>

lemma walkcowaddr_copy:
  fixes s :: "'a cow_machine_scheme"
  assumes ok: "cow_ok s" "pt_inv (kmem_free s) s pt" and va: "va < MAXVA" and vm: "vmap s pt va = Some pte"
    and pte: "pte AND PTE_U \<noteq> 0" "pte AND PTE_W = 0" "pte AND PTE_COW \<noteq> 0"
    and pa: "managed (kend s) (PTE2PA pte)" "PTE2PA pte \<notin> kmem_free s"
      "PTE2PA pte \<notin> tpages 2 (mem s) pt" "count s (PTE2PA pte) \<noteq> 0"
    and ne: "kmem_free s \<noteq> {}"
  shows "\<exists>p s'. walkcowaddr pt va s = Inr (p, s') \<and> p \<in> kmem_free s \<and> cow_ok s' \<and>
    pt_inv (kmem_free s') s' pt \<and>
    kmem_free s' = kmem_free s - {p} \<union> (if count s (PTE2PA pte) = 1 then {PTE2PA pte} else {}) \<and>
    (\<forall>v. unat v < 2 ^ 39 \<longrightarrow> vmap s' pt v =
       (if PGROUNDDOWN v = PGROUNDDOWN va
        then Some (PA2PTE p OR (PTE_FLAGS pte AND NOT PTE_COW OR PTE_W) OR PTE_V) else vmap s pt v)) \<and>
    (\<forall>off<PGSIZE. mem s' (p + off) = mem s (PTE2PA pte + off)) \<and>
    count s' (PTE2PA pte) = count s (PTE2PA pte) - 1"
proof -
  define old where "old = PTE2PA pte"
  define a where "a = PGROUNDDOWN va"
  have a: "page_aligned a" "a < MAXVA" using va page_less_MAXVA[of va] by (simp_all add: a_def)
  have wf: "pt_wf 2 (mem s) (kend s) pt" and dj: "tpages 2 (mem s) pt \<inter> kmem_free s = {}"
    using ok(2) by (simp_all add: pt_inv_def)
  from ok(1) obtain ps where ps: "cow_inv s ps" by (auto simp: cow_ok_def)
  with ne obtain p xs where "ps = p # xs" using cow_inv_free[OF ps] by (cases ps) auto
  with ps have pxs: "cow_inv s (p # xs)" by simp
  note free = cow_inv_free[OF pxs]
  have pf: "p \<in> kmem_free s" and mp: "managed (kend s) p" and base: "KERNBASE \<le> kend s" and xs: "p \<notin> set xs"
    using pxs free by (auto simp: cow_inv_def kmem_inv_def)
  have alp: "page_aligned p" "p \<noteq> 0" using mp by (simp_all add: managed_def)
  have pT: "p \<notin> tpages 2 (mem s) pt" and po: "p \<noteq> old" using pf dj pa(2) by (auto simp: old_def)
  obtain s1 where k: "cow_kalloc s = (p, s1)" "cow_inv s1 xs" "kend s1 = kend s"
    "same_outside {p} (mem s) (mem s1)" "ref_cnt s1 = (ref_cnt s)(cow_index p := 1)"
    using cow_kalloc_pop[OF pxs] by blast
  define s2 where "s2 = s1\<lparr>mem := memmove (mem s1) p old PGSIZE\<rparr>"
  have so12: "same_outside {p} (mem s1) (mem s2)"
    by (simp add: s2_def same_outside_memmove alp)
  have so2: "same_outside {p} (mem s) (mem s2)" using same_outside_trans[OF k(4) so12] by simp
  have ok1: "cow_ok s1" "kmem_free s1 = kmem_free s - {p}"
    using k(2) cow_inv_free[OF k(2)] free xs by (auto simp: cow_ok_def)
  have "{p} \<inter> kmem_free s1 = {}" using ok1(2) by simp
  from cka.write_page[OF ok1(1) so12 this] have ok2: "cow_ok s2" "kmem_free s2 = kmem_free s - {p}"
    by (simp_all add: s2_def ok1(2))
  have "{p} \<inter> tpages 2 (mem s) pt = {}" using pT by simp
  note fr2 = tree_frameD[OF wf so2 this]
  have k2: "kend s2 = kend s" by (simp add: s2_def k(3))
  have vm2: "vmap s2 pt a = Some pte"
    using lookup_page[of a va s pt] va a(2) vm by (simp add: fr2 a_def below_MAXVA)
  have ld2: "load64 (mem s2) (leaf_addr 2 (mem s) pt va) = pte"
    using walk_mapped(3)[OF fr2(2) va, of pte] vm by (simp add: fr2)
  have alo: "page_aligned old" by (simp add: old_def)
  have cp2: "mem s2 (p + off) = mem s (old + off)" if "off < PGSIZE" for off
  proof -
    have "mem s1 (old + off) = mem s (old + off)"
      using k(4) po PGROUNDDOWN_offset[OF alo that] by (simp add: same_outside_def)
    then show ?thesis using memmove_page[OF alp(1) that] by (simp add: s2_def)
  qed
  have c2: "count s2 old = count s old"
    using managed_index_inject[OF mp pa(1) base] po by (simp add: s2_def k(5) old_def)
  have "managed (kend s2) old" "old \<notin> kmem_free s2" "old \<notin> tpages 2 (mem s2) pt" "count s2 old \<noteq> 0"
    using pa c2 by (simp_all add: k2 ok2 fr2 old_def)
  moreover have inv2: "pt_inv (kmem_free s2) s2 pt" using dj by (auto simp: pt_inv_def ok2 k2 fr2)
  ultimately obtain s3 s4 where r: "uvmunmap cow_kalloc cow_kfree pt a 1 True s2 = Inr s3"
    "mappages cow_kalloc pt a PGSIZE p (PTE_FLAGS pte AND NOT PTE_COW OR PTE_W) s3 = Inr (0, s4)"
    "cow_ok s4" "pt_inv (kmem_free s4) s4 pt"
    "kmem_free s4 = kmem_free s - {p} \<union> (if count s old = 1 then {old} else {})"
    "same_outside (tpages 2 (mem s) pt \<union> (if count s old = 1 then {old} else {})) (mem s2) (mem s4)"
    "\<forall>v. unat v < 2 ^ 39 \<longrightarrow> vmap s4 pt v = (if PGROUNDDOWN v = a
        then Some (PA2PTE p OR (PTE_FLAGS pte AND NOT PTE_COW OR PTE_W) OR PTE_V) else vmap s pt v)"
    "ref_cnt s4 = (ref_cnt s2)(cow_index old := count s old - 1)"
    using cow_remap[OF ok2(1) inv2 a vm2 cow_flags_leaf[OF pte(3)] old_def, of _ p]
    unfolding c2 ok2 fr2 by blast
  have w: "walkcowaddr pt va s = Inr (p, s4)"
    using walkcowaddr_alloc[OF wf va vm pte k(1), folded old_def a_def, folded s2_def] alp(2) r(1,2)
    by (simp add: Let_def s2_def[symmetric] old_def[symmetric] a_def[symmetric] ld2)
  have "mem s4 (p + off) = mem s (old + off)" if "off < PGSIZE" for off
    using r(6) cp2[OF that] PGROUNDDOWN_offset[OF alp(1) that] pT po by (auto simp: same_outside_def split: if_splits)
  moreover have "count s4 old = count s old - 1" by (simp add: r(8))
  ultimately show ?thesis
    using w pf r(3,4,5,7) unfolding old_def a_def by blast
qed

end
