(* ===== verification/KallocPercpu.thy ===== *)
theory KallocPercpu
  imports Kalloc
begin

text \<open>
  The allocator of the locks lab (\<open>xv6-lab-locks/kalloc.c\<close>): one free list and one lock per CPU. A freed
  page goes to the list of the CPU whose part of memory it lies in; \<open>kalloc\<close> takes from the list of
  the CPU it runs on and, when that is empty, steals from the others in order. The field
  \<open>hartid\<close> is the value \<open>cpuid()\<close> reads.

  The sequential definitions keep the contract \<open>page_allocator\<close>. Because \<open>kalloc\<close> releases one
  lock before it takes the next, the last section models it as a thread of atomic steps (one critical
  section each) and shows that no interleaving of the CPUs hands a page out twice or loses one.
\<close>

definition NCPU :: nat where "NCPU = 8"

record percpu_machine = machine +
  freelists :: "u64 list"
  hartid :: nat

section \<open>Operations\<close>

definition chunk_size :: "u64 \<Rightarrow> u64" where
  "chunk_size e = (PHYSTOP - e) div of_nat NCPU"

function pa2cpuid_loop :: "u64 \<Rightarrow> u64 \<Rightarrow> nat \<Rightarrow> u64 \<Rightarrow> u64 \<Rightarrow> int" where
  "pa2cpuid_loop pa chunk cpu p_start p_end =
     (if p_end \<le> PHYSTOP \<and> cpu < NCPU then
        if pa \<le> p_end \<and> pa \<ge> p_start then int cpu
        else pa2cpuid_loop pa chunk (cpu + 1) (p_start + chunk) (p_end + chunk)
      else -1)"
  by pat_completeness auto
termination by (relation "measure (\<lambda>(pa, chunk, cpu, p_start, p_end). NCPU - cpu)") auto

declare pa2cpuid_loop.simps [simp del]

definition pa2cpuid :: "u64 \<Rightarrow> 'a percpu_machine_scheme \<Rightarrow> int" where
  "pa2cpuid pa s =
     (let chunk = chunk_size (kend s) in pa2cpuid_loop pa chunk 0 (kend s) (kend s + chunk))"

text \<open>The critical section that takes the first page of a list, if there is one.\<close>

definition take_page :: "nat \<Rightarrow> 'a percpu_machine_scheme \<Rightarrow> u64 \<times> 'a percpu_machine_scheme" where
  "take_page cpu s =
     (let r = freelists s ! cpu in
      if r \<noteq> 0 then (r, s\<lparr>freelists := (freelists s)[cpu := load64 (mem s) r]\<rparr>) else (0, s))"

fun find_freepage_loop :: "nat \<Rightarrow> nat list \<Rightarrow> 'a percpu_machine_scheme \<Rightarrow> u64 \<times> 'a percpu_machine_scheme" where
  "find_freepage_loop sid [] s = (0, s)"
| "find_freepage_loop sid (cpu # ids) s =
     (if cpu = sid then find_freepage_loop sid ids s
      else let (r, s') = take_page cpu s in
        if r \<noteq> 0 then (r, s') else find_freepage_loop sid ids s')"

definition find_freepage :: "nat \<Rightarrow> 'a percpu_machine_scheme \<Rightarrow> u64 \<times> 'a percpu_machine_scheme" where
  "find_freepage sid s = find_freepage_loop sid [0..<NCPU] s"

definition steal_mem :: "nat \<Rightarrow> 'a percpu_machine_scheme \<Rightarrow> u64 \<times> 'a percpu_machine_scheme" where
  "steal_mem sid s = find_freepage sid s"

definition percpu_kalloc :: "'a percpu_machine_scheme \<Rightarrow> u64 \<times> 'a percpu_machine_scheme" where
  "percpu_kalloc s =
     (let cid = hartid s;
          (r, s1) = take_page cid s;
          (r', s2) = (if r \<noteq> 0 then (r, s1) else steal_mem cid s1)
      in if r' \<noteq> 0 then (r', s2\<lparr>mem := memset (mem s2) r' 5 PGSIZE\<rparr>) else (r', s2))"

definition percpu_kfree :: "u64 \<Rightarrow> 'a percpu_machine_scheme \<Rightarrow> 'a percpu_machine_scheme res" where
  "percpu_kfree pa s =
     (if pa mod PGSIZE \<noteq> 0 \<or> pa < kend s \<or> pa \<ge> PHYSTOP then Inl (Panic ''kfree'')
      else
        let s1 = s\<lparr>mem := memset (mem s) pa 1 PGSIZE\<rparr>; tid = pa2cpuid pa s1 in
        if tid < 0 then Inl (Panic ''runout mem'')
        else
          let s2 = s1\<lparr>mem := store64 (mem s1) pa (freelists s1 ! nat tid)\<rparr>
          in Inr (s2\<lparr>freelists := (freelists s2)[nat tid := pa]\<rparr>))"

lemma percpu_kfree_Inr_lt: "percpu_kfree p s = Inr s' \<Longrightarrow> p < PHYSTOP"
  by (auto simp: percpu_kfree_def split: if_splits)

function percpu_freerange_loop :: "u64 \<Rightarrow> u64 \<Rightarrow> 'a percpu_machine_scheme \<Rightarrow> 'a percpu_machine_scheme res" where
  "percpu_freerange_loop p pa_end s =
     (if p + PGSIZE \<le> pa_end
      then bindR (percpu_kfree p s) (\<lambda>s'. percpu_freerange_loop (p + PGSIZE) pa_end s')
      else Inr s)"
  by pat_completeness auto
termination
proof (relation "measure (\<lambda>(p, pa_end, s). unat PHYSTOP - unat p)")
  fix p pa_end :: u64 and s x :: "'a percpu_machine_scheme"
  assume "percpu_kfree p s = Inr x"
  then have "p < PHYSTOP" by (rule percpu_kfree_Inr_lt)
  then show "((p + PGSIZE, pa_end, x), p, pa_end, s)
      \<in> measure (\<lambda>(p, pa_end, s). unat PHYSTOP - unat p)"
    by (simp add: below_PHYSTOP_step word_less_nat_alt)
qed simp

declare percpu_freerange_loop.simps [simp del]

definition percpu_freerange :: "u64 \<Rightarrow> u64 \<Rightarrow> 'a percpu_machine_scheme \<Rightarrow> 'a percpu_machine_scheme res" where
  "percpu_freerange pa_start pa_end s = percpu_freerange_loop (PGROUNDUP pa_start) pa_end s"

definition percpu_kinit :: "'a percpu_machine_scheme \<Rightarrow> 'a percpu_machine_scheme res" where
  "percpu_kinit s =
     (let chunk = chunk_size (kend s) in
      fold_res (\<lambda>cpu s.
        let start_offset = of_nat cpu * chunk;
            end_offset = of_nat (NCPU - cpu - 1) * chunk
        in percpu_freerange (kend s + start_offset) (PHYSTOP - end_offset) s) [0..<NCPU] s)"

section \<open>Every page has an owner\<close>

lemma chunk_bounds:
  assumes "e \<le> PHYSTOP"
  shows "unat (chunk_size e) = (0x88000000 - unat e) div 8" "unat e \<le> 0x88000000"
  using assms by (simp_all add: chunk_size_def NCPU_def unat_div unat_sub unat_PHYSTOP word_le_nat_alt)

lemma pa2cpuid_loop_finds:
  assumes "e \<le> PHYSTOP" "c = unat (chunk_size e)" "k < 8"
    and "unat p_start = unat e + k * c" "unat p_end = unat e + (k + 1) * c"
    and "unat p_start \<le> unat pa" "unat pa \<le> unat e + 8 * c"
  shows "0 \<le> pa2cpuid_loop pa (chunk_size e) k p_start p_end \<and>
    pa2cpuid_loop pa (chunk_size e) k p_start p_end < 8"
  using assms(3-7)
proof (induction "8 - k" arbitrary: k p_start p_end)
  case (Suc n)
  have b: "unat e + 8 * c \<le> 0x88000000" "c \<le> 0x88000000"
    using chunk_bounds[OF assms(1)] assms(2) by simp_all
  have kc: "(k + 1) * c \<le> 8 * c" "k * c \<le> 8 * c" using Suc.prems(1) by (auto intro: mult_le_mono1)
  have top: "unat p_start \<le> 0x88000000" "unat p_end \<le> 0x88000000"
    using kc b Suc.prems(2,3) by linarith+
  have step: "pa2cpuid_loop pa (chunk_size e) k p_start p_end =
      (if pa \<le> p_end then int k
       else pa2cpuid_loop pa (chunk_size e) (k + 1) (p_start + chunk_size e) (p_end + chunk_size e))"
    using top(2) Suc.prems(1,4)
    by (simp add: pa2cpuid_loop.simps[of pa _ k] word_le_nat_alt unat_PHYSTOP NCPU_def)
  show ?case
  proof (cases "pa \<le> p_end")
    case True
    with step Suc.prems(1) show ?thesis by simp
  next
    case False
    then have lt: "unat p_end < unat pa" by (simp add: word_le_nat_alt)
    have k: "k + 1 < 8"
    proof (rule ccontr)
      assume "\<not> k + 1 < 8"
      then have "k + 1 = 8" using Suc.prems(1) by simp
      with lt Suc.prems(3,5) show False by simp
    qed
    have u1: "unat (p_start + chunk_size e) = unat p_start + c"
      using top(1) b(2) by (subst unat_add_lem[THEN iffD1]) (simp_all add: assms(2))
    have u2: "unat (p_end + chunk_size e) = unat p_end + c"
      using top(2) b(2) by (subst unat_add_lem[THEN iffD1]) (simp_all add: assms(2))
    have "0 \<le> pa2cpuid_loop pa (chunk_size e) (k + 1) (p_start + chunk_size e) (p_end + chunk_size e) \<and>
      pa2cpuid_loop pa (chunk_size e) (k + 1) (p_start + chunk_size e) (p_end + chunk_size e) < 8"
    proof (rule Suc.hyps(1))
      show "n = 8 - (k + 1)" using Suc.hyps(2) by simp
      show "unat (p_start + chunk_size e) \<le> unat pa" using lt Suc.prems(2,3) by (simp add: u1)
    qed (use k Suc.prems in \<open>simp_all add: u1 u2\<close>)
    with step False show ?thesis by simp
  qed
qed simp

lemma managed_below_chunks:
  assumes "managed e p" "0 < e"
  shows "e \<le> PHYSTOP" "unat p \<le> unat e + 8 * unat (chunk_size e)" "unat e \<le> unat p"
proof -
  have a: "page_aligned p" "e \<le> p" "p < PHYSTOP" using assms(1) by (simp_all add: managed_def)
  then show e: "e \<le> PHYSTOP" by simp
  show "unat e \<le> unat p" using a(2) by (simp add: word_le_nat_alt)
  obtain k where "unat p = 4096 * k" using a(1) by (auto simp: page_aligned_unat elim!: dvdE)
  moreover have "unat p < 0x88000000" using a(3) by (simp add: word_less_nat_alt unat_PHYSTOP)
  ultimately have "k < 0x88000" "unat p = 4096 * k" by simp_all
  then have "unat p + 8 \<le> 0x88000000" by simp
  moreover have "0x88000000 - unat e < 8 * ((0x88000000 - unat e) div 8) + 8" by simp
  ultimately show "unat p \<le> unat e + 8 * unat (chunk_size e)"
    using chunk_bounds[OF e] by simp
qed

lemma pa2cpuid_range:
  assumes "managed (kend s) p" "0 < kend s"
  shows "0 \<le> pa2cpuid p s \<and> nat (pa2cpuid p s) < NCPU"
proof -
  note b = managed_below_chunks[OF assms]
  have "unat (kend s + chunk_size (kend s)) = unat (kend s) + unat (chunk_size (kend s))"
    using chunk_bounds[OF b(1)] by (subst unat_add_lem[THEN iffD1]) simp_all
  with pa2cpuid_loop_finds[OF b(1) refl, of 0 "kend s" "kend s + chunk_size (kend s)" p] b
  show ?thesis by (simp add: pa2cpuid_def NCPU_def Let_def nat_less_iff)
qed

section \<open>The lists in memory\<close>

definition percpu_inv :: "'a percpu_machine_scheme \<Rightarrow> u64 list list \<Rightarrow> bool" where
  "percpu_inv s pss \<longleftrightarrow> length (freelists s) = NCPU \<and> length pss = NCPU \<and> hartid s < NCPU \<and> 0 < kend s \<and>
     (\<forall>i<NCPU. chain (mem s) (freelists s ! i) (pss ! i)) \<and> distinct (concat pss) \<and>
     (\<forall>p\<in>set (concat pss). managed (kend s) p)"

lemma distinct_concat_update:
  assumes "distinct (concat xss)" "i < length xss" "distinct ys" "set ys \<inter> (set (concat xss) - set (xss ! i)) = {}"
  shows "distinct (concat (xss[i := ys]))"
    "set (concat (xss[i := ys])) = (set (concat xss) - set (xss ! i)) \<union> set ys"
proof -
  define A C where "A = concat (take i xss)" and "C = concat (drop (Suc i) xss)"
  have split: "xss = take i xss @ xss ! i # drop (Suc i) xss" using assms(2) by (rule id_take_nth_drop)
  have u: "xss[i := ys] = take i xss @ ys # drop (Suc i) xss" using assms(2) by (rule upd_conv_take_nth_drop)
  have c: "concat xss = A @ xss ! i @ C" by (subst split) (simp add: A_def C_def)
  have u': "concat (xss[i := ys]) = A @ ys @ C" by (simp add: u A_def C_def)
  show "distinct (concat (xss[i := ys]))" "set (concat (xss[i := ys])) = (set (concat xss) - set (xss ! i)) \<union> set ys"
    using assms(1,3,4) unfolding u' c by (auto simp del: set_concat)
qed

lemma nth_disjoint_concat:
  "distinct (concat xss) \<Longrightarrow> i < length xss \<Longrightarrow> j < length xss \<Longrightarrow> i \<noteq> j \<Longrightarrow> set (xss ! i) \<inter> set (xss ! j) = {}"
proof (induction xss arbitrary: i j)
  case (Cons xs xss)
  then show ?case by (cases i; cases j) (fastforce simp: in_set_conv_nth)+
qed simp

lemma percpu_chains_frame:
  assumes "percpu_inv s pss" "same_outside P (mem s) m" "P \<inter> set (concat pss) \<subseteq> set (pss ! k)" "i < NCPU" "i \<noteq> k"
    "k < NCPU"
  shows "chain m (freelists s ! i) (pss ! i)"
proof -
  have "pss ! i \<in> set pss" using assms(1,4) by (simp add: percpu_inv_def)
  then have i: "set (pss ! i) \<subseteq> set (concat pss)" by auto
  have "set (pss ! i) \<inter> set (pss ! k) = {}"
    using assms(1,4-6) by (intro nth_disjoint_concat) (simp_all add: percpu_inv_def)
  then have "\<forall>p\<in>set (pss ! i). page_aligned p \<and> p \<notin> P"
    using assms(1,3) i unfolding percpu_inv_def managed_def by blast
  with chain_same_outside[OF assms(2)] assms(1,4) show ?thesis by (simp add: percpu_inv_def)
qed

text \<open>\<open>took s pss p s'\<close>: \<open>s'\<close> is \<open>s\<close> with the first page \<open>p\<close> of one of the lists taken off it.\<close>

definition took :: "'a percpu_machine_scheme \<Rightarrow> u64 list list \<Rightarrow> u64 \<Rightarrow> 'a percpu_machine_scheme \<Rightarrow> bool" where
  "took s pss p s' \<longleftrightarrow> (\<exists>k<NCPU. \<exists>ps. pss ! k = p # ps \<and> percpu_inv s' (pss[k := ps])) \<and> p \<noteq> 0 \<and>
     mem s' = mem s \<and> kend s' = kend s \<and> hartid s' = hartid s"

lemma take_page_cases:
  assumes inv: "percpu_inv s pss" and k: "k < NCPU"
  obtains (none) "pss ! k = []" "take_page k s = (0, s)"
  | (some) p s' where "take_page k s = (p, s')" "took s pss p s'"
proof (cases "pss ! k")
  case Nil
  with inv k have "freelists s ! k = 0" by (auto simp: percpu_inv_def)
  with Nil show thesis by (intro none) (simp_all add: take_page_def)
next
  case (Cons p ps)
  have c: "chain (mem s) (freelists s ! k) (p # ps)" using inv k Cons by (metis percpu_inv_def)
  then have f: "freelists s ! k = p" "p \<noteq> 0" "chain (mem s) (load64 (mem s) p) ps" by simp_all
  let ?s = "s\<lparr>freelists := (freelists s)[k := load64 (mem s) p]\<rparr>"
  have len: "k < length pss" "k < length (freelists s)" using inv k by (simp_all add: percpu_inv_def)
  have d: "distinct (pss ! k)" using inv len(1) by (auto simp: percpu_inv_def distinct_concat_iff)
  have sub: "set ps \<inter> (set (concat pss) - set (pss ! k)) = {}" using Cons by auto
  have "distinct (concat pss)" using inv by (simp add: percpu_inv_def)
  note du = distinct_concat_update[OF this len(1) _ sub]
  have "percpu_inv ?s (pss[k := ps])"
    using inv f(3) du d Cons len unfolding percpu_inv_def
    by (auto simp: nth_list_update simp del: set_concat)
       (metis UnE DiffD1 Cons len(1) nth_mem list.set_intros(2) UN_I set_concat)
  then show thesis using f Cons k by (intro some[of p ?s]) (auto simp: take_page_def took_def)
qed

lemma took_set:
  assumes "percpu_inv s pss" "took s pss p s'"
  shows "\<exists>pss'. percpu_inv s' pss' \<and> p \<in> set (concat pss) \<and> set (concat pss') = set (concat pss) - {p}"
proof -
  from assms(2) obtain k ps where k: "k < NCPU" "pss ! k = p # ps" "percpu_inv s' (pss[k := ps])"
    by (auto simp: took_def)
  have len: "k < length pss" "distinct (concat pss)" using assms(1) k(1) by (simp_all add: percpu_inv_def)
  then have d: "distinct (p # ps)" using k(2) by (metis distinct_concat_iff nth_mem)
  have sub: "set (p # ps) \<subseteq> set (concat pss)" using k(2) nth_mem[OF len(1)] by (metis UN_upper set_concat)
  have "set (concat (pss[k := ps])) = (set (concat pss) - set (p # ps)) \<union> set ps"
    using distinct_concat_update(2)[OF len(2,1), of ps] d k(2) by (auto simp del: set_concat)
  with k(3) d sub show ?thesis by (intro exI[of _ "pss[k := ps]"]) (auto simp del: set_concat)
qed

lemma find_freepage_loop_cases:
  assumes inv: "percpu_inv s pss" and ids: "\<forall>i\<in>set ids. i < NCPU"
  obtains (none) "\<forall>i\<in>set ids. i \<noteq> sid \<longrightarrow> pss ! i = []" "find_freepage_loop sid ids s = (0, s)"
  | (some) p s' where "find_freepage_loop sid ids s = (p, s')" "took s pss p s'"
  using ids
proof (induction ids arbitrary: thesis)
  case (Cons i ids)
  note rest = Cons.IH
  show ?case
  proof (cases "i = sid")
    case True
    with rest Cons.prems show ?thesis by auto
  next
    case False
    have i: "i < NCPU" using Cons.prems(3) by simp
    show ?thesis
      using inv i
    proof (cases rule: take_page_cases)
      case none
      with rest Cons.prems False show ?thesis by auto
    next
      case (some p s')
      with Cons.prems(2) False show ?thesis by (auto simp: took_def)
    qed
  qed
qed simp

lemma percpu_kalloc_cases:
  assumes inv: "percpu_inv s pss"
  obtains (none) "set (concat pss) = {}" "percpu_kalloc s = (0, s)"
  | (some) p s1 where "percpu_kalloc s = (p, s1\<lparr>mem := memset (mem s1) p 5 PGSIZE\<rparr>)" "took s pss p s1"
proof -
  have h: "hartid s < NCPU" and len: "length pss = NCPU" using inv by (simp_all add: percpu_inv_def)
  show thesis
    using inv h
  proof (cases rule: take_page_cases)
    case own: none
    have ids: "\<forall>i\<in>set [0..<NCPU]. i < NCPU" by simp
    show thesis
      using inv ids
    proof (cases rule: find_freepage_loop_cases[where sid = "hartid s"])
      case none
      then have "\<forall>i<NCPU. pss ! i = []" using own(1) by (metis atLeastLessThan_iff le0 set_upt)
      then have "set (concat pss) = {}" using len by (auto simp: in_set_conv_nth)
      then show thesis using own none
        by (intro that(1)) (simp_all add: percpu_kalloc_def steal_mem_def find_freepage_def)
    next
      case (some p s1)
      then show thesis using own
        by (intro that(2)[of p s1]) (simp_all add: percpu_kalloc_def steal_mem_def find_freepage_def took_def)
    qed
  next
    case (some p s1)
    then show thesis
      by (intro that(2)[of p s1]) (simp_all add: percpu_kalloc_def took_def)
  qed
qed

lemma percpu_inv_mem:
  assumes "percpu_inv s pss" "same_outside P (mem s) m" "P \<inter> set (concat pss) = {}"
  shows "percpu_inv (s\<lparr>mem := m\<rparr>) pss"
proof -
  have "chain m (freelists s ! i) (pss ! i)" if i: "i < NCPU" for i
  proof -
    have "pss ! i \<in> set pss" using assms(1) i by (simp add: percpu_inv_def)
    then have "set (pss ! i) \<subseteq> set (concat pss)" by auto
    then have "\<forall>p\<in>set (pss ! i). page_aligned p \<and> p \<notin> P"
      using assms(1,3) unfolding percpu_inv_def managed_def by blast
    with chain_same_outside[OF assms(2)] assms(1) i show ?thesis by (simp add: percpu_inv_def)
  qed
  with assms(1) show ?thesis by (simp add: percpu_inv_def)
qed

lemma percpu_push:
  assumes inv: "percpu_inv s pss" and p: "managed (kend s) p" "p \<notin> set (concat pss)" and k: "k < NCPU"
    and m: "m = store64 (memset (mem s) p 1 PGSIZE) p (freelists s ! k)"
  shows "percpu_inv (s\<lparr>mem := m, freelists := (freelists s)[k := p]\<rparr>) (pss[k := p # pss ! k])"
    "set (concat (pss[k := p # pss ! k])) = insert p (set (concat pss))" "same_outside {p} (mem s) m"
proof -
  show so: "same_outside {p} (mem s) m" unfolding m by (rule same_outside_kfree[OF managedD(1)[OF p(1)]])
  have "{p} \<inter> set (concat pss) = {}" using p(2) by simp
  from percpu_inv_mem[OF inv so this] have inv': "percpu_inv (s\<lparr>mem := m\<rparr>) pss" .
  have len: "k < length pss" "k < length (freelists s)" "distinct (concat pss)"
    using inv k by (simp_all add: percpu_inv_def)
  have kin: "pss ! k \<in> set pss" using len(1) by simp
  then have sub: "set (pss ! k) \<subseteq> set (concat pss)" by auto
  have d: "distinct (p # pss ! k)" using len(3) kin p(2) sub by (auto simp: distinct_concat_iff simp del: set_concat)
  have "set (p # pss ! k) \<inter> (set (concat pss) - set (pss ! k)) = {}" using p(2) by (auto simp del: set_concat)
  note du = distinct_concat_update[OF len(3,1) d this]
  show S: "set (concat (pss[k := p # pss ! k])) = insert p (set (concat pss))"
    unfolding du(2) using sub by (auto simp del: set_concat)
  have "load64 m p = freelists s ! k" by (simp add: m mem_simps)
  then show "percpu_inv (s\<lparr>mem := m, freelists := (freelists s)[k := p]\<rparr>) (pss[k := p # pss ! k])"
    using inv' du(1) S p managedD(2)[OF p(1)] len unfolding percpu_inv_def
    by (auto simp: nth_list_update simp del: set_concat)
qed

lemma percpu_kfree_push:
  assumes inv: "percpu_inv s pss" and p: "managed (kend s) p" "p \<notin> set (concat pss)"
  shows "\<exists>s' pss'. percpu_kfree p s = Inr s' \<and> percpu_inv s' pss' \<and> kend s' = kend s \<and>
    set (concat pss') = insert p (set (concat pss)) \<and> same_outside {p} (mem s) (mem s')"
proof -
  let ?s1 = "s\<lparr>mem := memset (mem s) p 1 PGSIZE\<rparr>"
  have "0 < kend s" using inv by (simp add: percpu_inv_def)
  with pa2cpuid_range[of ?s1 p] p(1) have t: "0 \<le> pa2cpuid p ?s1" "nat (pa2cpuid p ?s1) < NCPU" by simp_all
  note P = percpu_push[OF inv p t(2) refl]
  show ?thesis using P t(1) p(1)
    by (auto simp: percpu_kfree_def Let_def managed_def page_aligned_def simp del: set_concat)
qed

section \<open>The contract\<close>

definition percpu_ok :: "'a percpu_machine_scheme \<Rightarrow> bool" where
  "percpu_ok s \<longleftrightarrow> (\<exists>pss. percpu_inv s pss)"

definition percpu_free :: "'a percpu_machine_scheme \<Rightarrow> u64 set" where
  "percpu_free s = {p. \<exists>pss. percpu_inv s pss \<and> p \<in> set (concat pss)}"

lemma percpu_inv_unique: "percpu_inv s pss \<Longrightarrow> percpu_inv s qss \<Longrightarrow> pss = qss"
  by (rule nth_equalityI) (auto simp: percpu_inv_def intro: chain_unique)

lemma percpu_free_eq: "percpu_inv s pss \<Longrightarrow> percpu_free s = set (concat pss)"
  by (auto simp: percpu_free_def dest: percpu_inv_unique simp del: set_concat)

lemma took_kalloc:
  assumes "percpu_inv s pss" "took s pss p s1"
  shows "\<exists>qss. percpu_inv (s1\<lparr>mem := memset (mem s1) p 5 PGSIZE\<rparr>) qss \<and> p \<in> set (concat pss) \<and>
    set (concat qss) = set (concat pss) - {p} \<and> same_outside {p} (mem s) (memset (mem s1) p 5 PGSIZE)"
proof -
  from took_set[OF assms] obtain qss where q: "percpu_inv s1 qss" "p \<in> set (concat pss)"
    "set (concat qss) = set (concat pss) - {p}" by blast
  then have "page_aligned p" using assms(1) by (simp add: percpu_inv_def managed_def del: set_concat)
  then have so: "same_outside {p} (mem s1) (memset (mem s1) p 5 PGSIZE)" by (rule same_outside_memset)
  have "{p} \<inter> set (concat qss) = {}" using q(3) by simp
  from percpu_inv_mem[OF q(1) so this] q so assms(2) show ?thesis by (auto simp: took_def simp del: set_concat)
qed

interpretation pka: page_allocator percpu_kalloc percpu_kfree percpu_free percpu_ok "\<lambda>s p. True"
proof unfold_locales
  fix s s' :: "'a percpu_machine_scheme" and p :: u64
  assume "percpu_ok s"
  then obtain pss where inv: "percpu_inv s pss" by (auto simp: percpu_ok_def)
  note free = percpu_free_eq[OF inv]
  show "s' = s \<and> percpu_free s = {}" if "percpu_kalloc s = (0, s')"
    using inv
  proof (cases rule: percpu_kalloc_cases)
    case none
    with that free show ?thesis by simp
  next
    case (some p s1)
    with that show ?thesis by (simp add: took_def)
  qed
  show "percpu_ok s' \<and> p \<in> percpu_free s \<and> percpu_free s' = percpu_free s - {p} \<and> kend s' = kend s \<and>
      same_outside {p} (mem s) (mem s') \<and> True \<and> (\<forall>q. q \<noteq> p \<longrightarrow> True = True)"
    if k: "percpu_kalloc s = (p, s')" "p \<noteq> 0"
    using inv
  proof (cases rule: percpu_kalloc_cases)
    case none
    with k show ?thesis by simp
  next
    case (some q s1)
    with k have e: "q = p" "s' = s1\<lparr>mem := memset (mem s1) p 5 PGSIZE\<rparr>" by auto
    from took_kalloc[OF inv some(2)] obtain qss where
      t: "percpu_inv s' qss" "p \<in> set (concat pss)" "set (concat qss) = set (concat pss) - {p}"
        "same_outside {p} (mem s) (mem s')" unfolding e by auto
    show ?thesis unfolding free percpu_free_eq[OF t(1)] using t some(2) e
      by (auto simp: percpu_ok_def took_def simp del: set_concat)
  qed
  show "managed (kend s) p" if "p \<in> percpu_free s"
    using that inv unfolding free by (simp add: percpu_inv_def del: set_concat)
  show "percpu_ok (s\<lparr>mem := m\<rparr>) \<and> percpu_free (s\<lparr>mem := m\<rparr>) = percpu_free s \<and> (\<lambda>p. True) = (\<lambda>p. True)"
    if "same_outside (- percpu_free s) (mem s) m" for m
  proof -
    have "percpu_inv (s\<lparr>mem := m\<rparr>) pss"
      by (rule percpu_inv_mem[OF inv that]) (simp add: free del: set_concat)
    with percpu_free_eq[OF this] show ?thesis by (auto simp: percpu_ok_def free simp del: set_concat)
  qed
  show "\<exists>s'. percpu_kfree p s = Inr s' \<and> percpu_ok s' \<and> percpu_free s' = insert p (percpu_free s) \<and>
      kend s' = kend s \<and> same_outside {p} (mem s) (mem s') \<and> (\<forall>q. q \<noteq> p \<longrightarrow> True = True)"
    if k: "managed (kend s) p" "p \<notin> percpu_free s" True
  proof -
    from percpu_kfree_push[OF inv k(1)] k(2) obtain s' pss' where
      t: "percpu_kfree p s = Inr s'" "percpu_inv s' pss'" "kend s' = kend s"
        "set (concat pss') = insert p (set (concat pss))" "same_outside {p} (mem s) (mem s')"
      unfolding free by blast
    then show ?thesis unfolding free using percpu_free_eq[OF t(2)] by (auto simp: percpu_ok_def simp del: set_concat)
  qed
qed (simp add: percpu_kfree_def page_aligned_def linorder_not_less linorder_not_le)

section \<open>Building the lists at boot\<close>

lemma percpu_freerange_loop_pages:
  assumes "percpu_ok s" "page_aligned p" "p \<noteq> 0" "kend s \<le> p" "unat p \<le> 0x88000000" "pa_end \<le> PHYSTOP"
    and "n = (unat pa_end - unat p) div 4096" "set (page_range p n) \<inter> percpu_free s = {}"
  shows "\<exists>s'. percpu_freerange_loop p pa_end s = Inr s' \<and> percpu_ok s' \<and> kend s' = kend s \<and>
    percpu_free s' = percpu_free s \<union> set (page_range p n)"
  using assms
proof (induction n arbitrary: p s)
  case 0
  have "unat (p + PGSIZE) = unat p + 4096"
    using 0 by (subst unat_add_lem[THEN iffD1]) simp_all
  with 0 have "\<not> p + PGSIZE \<le> pa_end" by (simp add: word_le_nat_alt div_eq_0_iff)
  with 0 show ?case by (simp add: percpu_freerange_loop.simps [of p])
next
  case (Suc n)
  have u: "unat (p + PGSIZE) = unat p + 4096"
    using Suc.prems(5) by (subst unat_add_lem[THEN iffD1]) simp_all
  have pe: "unat pa_end \<le> 0x88000000" using Suc.prems(6) by (simp add: word_le_nat_alt unat_PHYSTOP)
  from Suc.prems(7) have n: "n = (unat pa_end - unat (p + PGSIZE)) div 4096"
    and le: "unat p + 4096 \<le> unat pa_end"
    unfolding u by arith+
  have m: "managed (kend s) p"
    using Suc.prems(2,3,4) le pe by (simp add: managed_def word_less_nat_alt unat_PHYSTOP)
  have "p \<notin> percpu_free s" using Suc.prems(8) by auto
  from pka.kfree_ok[OF Suc.prems(1) m this] obtain s1 where
    s1: "percpu_kfree p s = Inr s1" "percpu_ok s1" "percpu_free s1 = insert p (percpu_free s)" "kend s1 = kend s"
    by auto
  have rng: "set (page_range (p + PGSIZE) n) =
      {q. page_aligned q \<and> unat p + 4096 \<le> unat q \<and> unat q < unat p + 4096 + 4096 * n}"
    using set_page_range[of "p + PGSIZE" n] Suc.prems(2,5,7) le pe u
    by (simp add: page_aligned_add_PGSIZE n)
  have "p + PGSIZE \<noteq> 0" using u by (metis add_is_0 unat_eq_zero zero_neq_numeral)
  moreover have "kend s1 \<le> p + PGSIZE" using Suc.prems(4) u s1(4) by (simp add: word_le_nat_alt)
  moreover have "set (page_range (p + PGSIZE) n) \<inter> percpu_free s1 = {}"
    using Suc.prems(8) rng by (auto simp: s1(3))
  ultimately have "\<exists>s'. percpu_freerange_loop (p + PGSIZE) pa_end s1 = Inr s' \<and> percpu_ok s' \<and>
      kend s' = kend s1 \<and> percpu_free s' = percpu_free s1 \<union> set (page_range (p + PGSIZE) n)"
    using Suc.prems s1(2) le pe n u by (intro Suc.IH) (simp_all add: page_aligned_add_PGSIZE)
  moreover have "p + PGSIZE \<le> pa_end" using le u by (simp add: word_le_nat_alt)
  ultimately show ?case using s1 by (simp add: percpu_freerange_loop.simps [of p])
qed

definition chunk_pages :: "u64 \<Rightarrow> nat \<Rightarrow> u64 set" where
  "chunk_pages e k = {p. page_aligned p \<and> unat e + k * unat (chunk_size e) \<le> unat p \<and>
     unat p + 4096 \<le> 0x88000000 - (7 - k) * unat (chunk_size e)}"

lemma chunk_ends:
  assumes "e \<le> PHYSTOP" "k < 8" and c: "c = unat (chunk_size e)"
  shows "unat (e + of_nat k * chunk_size e) = unat e + k * c"
    "unat (PHYSTOP - of_nat (7 - k) * chunk_size e) = 0x88000000 - (7 - k) * c"
    "unat e + k * c \<le> 0x88000000" "(7 - k) * c \<le> 0x88000000"
    "0x88000000 - (7 - k) * c < unat e + (k + 1) * c + 8"
proof -
  note b = chunk_bounds[OF assms(1), folded c]
  have "8 * c \<le> 0x88000000 - unat e" using b(1) by simp
  moreover have "k * c \<le> 8 * c" by (rule mult_le_mono1) (use assms(2) in simp)
  moreover have "(7 - k) * c \<le> 8 * c" by (rule mult_le_mono1) simp
  ultimately show le: "unat e + k * c \<le> 0x88000000" "(7 - k) * c \<le> 0x88000000" using b(2) by linarith+
  have m: "unat (of_nat j * chunk_size e) = j * c" if "j \<le> 7" for j
  proof -
    have "j * c \<le> 7 * c" using that by (rule mult_le_mono1)
    also have "\<dots> \<le> 0x88000000" using b by simp
    finally show ?thesis using that
      by (subst unat_mult_lem[THEN iffD1]) (simp_all add: unat_of_nat c)
  qed
  show "unat (e + of_nat k * chunk_size e) = unat e + k * c"
    using le(1) m[of k] assms(2) by (subst unat_add_lem[THEN iffD1]) simp_all
  show "unat (PHYSTOP - of_nat (7 - k) * chunk_size e) = 0x88000000 - (7 - k) * c"
    using le(2) m[of "7 - k"] by (simp add: unat_sub word_le_nat_alt unat_PHYSTOP)
  have "(7 - k) * c + (k + 1) * c = 8 * c" using assms(2) by (simp flip: add_mult_distrib)
  moreover have "0x88000000 - unat e < 8 * c + 8" unfolding b(1) by simp
  ultimately show "0x88000000 - (7 - k) * c < unat e + (k + 1) * c + 8" using le b(2) by linarith
qed

lemma chunk_pages_disjoint:
  assumes "e \<le> PHYSTOP" "j < k" "k < 8"
  shows "chunk_pages e j \<inter> chunk_pages e k = {}"
proof -
  define c where "c = unat (chunk_size e)"
  have "(j + 1) * c \<le> k * c" using assms(2) by (intro mult_le_mono1) simp
  moreover have "0x88000000 - (7 - j) * c < unat e + (j + 1) * c + 8"
    using chunk_ends(5)[OF assms(1) _ refl, of j] assms by (simp add: c_def)
  ultimately show ?thesis by (auto simp: chunk_pages_def c_def[symmetric])
qed

lemma percpu_freerange_chunk:
  assumes "percpu_ok s" "0 < kend s" "kend s \<le> PHYSTOP" "k < 8" "chunk_pages (kend s) k \<inter> percpu_free s = {}"
  shows "\<exists>s'. percpu_freerange (kend s + of_nat k * chunk_size (kend s))
      (PHYSTOP - of_nat (7 - k) * chunk_size (kend s)) s = Inr s' \<and>
    percpu_ok s' \<and> kend s' = kend s \<and> percpu_free s' = percpu_free s \<union> chunk_pages (kend s) k"
proof -
  define c where "c = unat (chunk_size (kend s))"
  define a where "a = kend s + of_nat k * chunk_size (kend s)"
  define e where "e = PHYSTOP - of_nat (7 - k) * chunk_size (kend s)"
  note ce = chunk_ends[OF assms(3,4) c_def, folded a_def e_def]
  have up: "unat (PGROUNDUP a) = (unat a + 4095) div 4096 * 4096"
    by (rule unat_PGROUNDUP) (use ce in simp)
  have least: "unat (PGROUNDUP a) \<le> 4096 * q" if "unat a \<le> 4096 * q" for q
    unfolding up using that by (rule round_up_least)
  have ge: "unat a \<le> unat (PGROUNDUP a)" unfolding up by (rule round_up_ge)
  have top: "unat (PGROUNDUP a) \<le> 0x88000000" using least[of "0x88000"] ce(1,3) by simp
  define n where "n = (unat e - unat (PGROUNDUP a)) div 4096"
  have rng: "set (page_range (PGROUNDUP a) n) = chunk_pages (kend s) k"
  proof -
    obtain j where j: "unat (PGROUNDUP a) = 4096 * j" using up by simp
    have "unat (PGROUNDUP a) + 4096 * n < 2 ^ 64" using top ce(2) by (simp add: n_def)
    then have "set (page_range (PGROUNDUP a) n) =
        {q. page_aligned q \<and> unat (PGROUNDUP a) \<le> unat q \<and> unat q < unat (PGROUNDUP a) + 4096 * n}"
      by (intro set_page_range) simp_all
    also have "\<dots> = {q. page_aligned q \<and> unat a \<le> unat q \<and> unat q + 4096 \<le> unat e}"
    proof -
      have "unat (PGROUNDUP a) \<le> unat q \<and> unat q < unat (PGROUNDUP a) + 4096 * n \<longleftrightarrow>
          unat a \<le> unat q \<and> unat q + 4096 \<le> unat e" if q: "page_aligned q" for q
      proof -
        obtain i where i: "unat q = 4096 * i" using q by (auto simp: page_aligned_unat elim!: dvdE)
        have "unat (PGROUNDUP a) \<le> unat q \<longleftrightarrow> unat a \<le> unat q" using least[of i] ge i by auto
        moreover have "unat q < unat (PGROUNDUP a) + 4096 * n \<longleftrightarrow> unat q + 4096 \<le> unat e"
          if le: "unat (PGROUNDUP a) \<le> unat q"
        proof -
          have "j \<le> i" using le i j by simp
          then obtain d where d: "i = j + d" by (auto simp: le_iff_add)
          have "d < n \<longleftrightarrow> Suc d * 4096 \<le> unat e - 4096 * j"
            unfolding n_def j by (simp add: less_eq_div_iff_mult_less_eq Suc_le_eq[symmetric])
          then show ?thesis unfolding i j d by auto
        qed
        ultimately show ?thesis by blast
      qed
      then show ?thesis by blast
    qed
    finally show ?thesis by (simp add: chunk_pages_def ce c_def)
  qed
  have "PGROUNDUP a \<noteq> 0" using ge ce(1) assms(2) by (auto simp: word_less_nat_alt)
  moreover have "kend s \<le> PGROUNDUP a" using ge ce(1) by (simp add: word_le_nat_alt)
  moreover have "e \<le> PHYSTOP" using ce(2) by (simp add: word_le_nat_alt unat_PHYSTOP)
  ultimately have "\<exists>s'. percpu_freerange_loop (PGROUNDUP a) e s = Inr s' \<and> percpu_ok s' \<and> kend s' = kend s \<and>
      percpu_free s' = percpu_free s \<union> set (page_range (PGROUNDUP a) n)"
    using assms(1,5) top rng n_def by (intro percpu_freerange_loop_pages) simp_all
  then show ?thesis unfolding rng by (simp add: percpu_freerange_def a_def e_def)
qed

lemma percpu_kinit_pages:
  assumes ok: "percpu_ok s" "percpu_free s = {}" and e: "0 < kend s" "kend s \<le> PHYSTOP"
  shows "\<exists>s'. percpu_kinit s = Inr s' \<and> percpu_ok s' \<and> kend s' = kend s \<and>
    percpu_free s' = (\<Union>k<8. chunk_pages (kend s) k)"
proof -
  let ?f = "\<lambda>cpu t. percpu_freerange (kend t + of_nat cpu * chunk_size (kend s))
    (PHYSTOP - of_nat (NCPU - cpu - 1) * chunk_size (kend s)) t"
  have "\<exists>s'. fold_res ?f [0..<k] s = Inr s' \<and> percpu_ok s' \<and> kend s' = kend s \<and>
      percpu_free s' = (\<Union>j<k. chunk_pages (kend s) j)" if "k \<le> 8" for k
    using that
  proof (induction k)
    case 0
    then show ?case using ok by simp
  next
    case (Suc k)
    then obtain t where t: "fold_res ?f [0..<k] s = Inr t" "percpu_ok t" "kend t = kend s"
      "percpu_free t = (\<Union>j<k. chunk_pages (kend s) j)" by auto
    have "chunk_pages (kend t) k \<inter> percpu_free t = {}"
      using chunk_pages_disjoint[OF e(2)] Suc.prems t(3,4) by fastforce
    from percpu_freerange_chunk[OF t(2) _ _ _ this] e Suc.prems t(3) obtain t' where
      "?f k t = Inr t'" "percpu_ok t'" "kend t' = kend s" "percpu_free t' = percpu_free t \<union> chunk_pages (kend s) k"
      by (auto simp: NCPU_def)
    with t show ?case by (simp add: fold_res_append lessThan_Suc Un_commute)
  qed
  from this[of 8] show ?thesis by (simp add: percpu_kinit_def NCPU_def Let_def)
qed

section \<open>Interleavings of the CPUs\<close>

text \<open>
  What a CPU is doing: it runs other code, it has found its own list empty and is about to look at
  list \<open>i\<close>, or it holds a page it was given.
\<close>

datatype alloc_pc = Idle | Scan nat | Hold u64

type_synonym 'a alloc_config = "'a percpu_machine_scheme \<times> (nat \<Rightarrow> alloc_pc)"

inductive alloc_step :: "'a alloc_config \<Rightarrow> 'a alloc_config \<Rightarrow> bool" where
  own_hit: "\<lbrakk>c < NCPU; pcs c = Idle; take_page c s = (r, s'); r \<noteq> 0\<rbrakk>
    \<Longrightarrow> alloc_step (s, pcs) (s', pcs(c := Hold r))"
| own_miss: "\<lbrakk>c < NCPU; pcs c = Idle; take_page c s = (0, s')\<rbrakk>
    \<Longrightarrow> alloc_step (s, pcs) (s', pcs(c := Scan 0))"
| scan_self: "\<lbrakk>c < NCPU; pcs c = Scan c\<rbrakk> \<Longrightarrow> alloc_step (s, pcs) (s, pcs(c := Scan (c + 1)))"
| scan_hit: "\<lbrakk>c < NCPU; pcs c = Scan i; i < NCPU; i \<noteq> c; take_page i s = (r, s'); r \<noteq> 0\<rbrakk>
    \<Longrightarrow> alloc_step (s, pcs) (s', pcs(c := Hold r))"
| scan_miss: "\<lbrakk>c < NCPU; pcs c = Scan i; i < NCPU; i \<noteq> c; take_page i s = (0, s')\<rbrakk>
    \<Longrightarrow> alloc_step (s, pcs) (s', pcs(c := Scan (i + 1)))"
| scan_fail: "\<lbrakk>c < NCPU; pcs c = Scan NCPU\<rbrakk> \<Longrightarrow> alloc_step (s, pcs) (s, pcs(c := Idle))"
| use: "\<lbrakk>c < NCPU; pcs c = Hold r; same_outside {r} (mem s) m\<rbrakk>
    \<Longrightarrow> alloc_step (s, pcs) (s\<lparr>mem := m\<rparr>, pcs)"
| free: "\<lbrakk>c < NCPU; pcs c = Hold r; percpu_kfree r s = Inr s'\<rbrakk>
    \<Longrightarrow> alloc_step (s, pcs) (s', pcs(c := Idle))"

inductive_cases alloc_step_cases: "alloc_step x y"

definition held :: "(nat \<Rightarrow> alloc_pc) \<Rightarrow> u64 set" where
  "held pcs = {r. \<exists>c. pcs c = Hold r}"

text \<open>Every page of \<open>T\<close> is on exactly one list or held by exactly one CPU.\<close>

definition page_account :: "u64 set \<Rightarrow> 'a alloc_config \<Rightarrow> bool" where
  "page_account T x \<longleftrightarrow> (case x of (s, pcs) \<Rightarrow>
     percpu_ok s \<and> percpu_free s \<union> held pcs = T \<and> percpu_free s \<inter> held pcs = {} \<and>
     (\<forall>r\<in>held pcs. managed (kend s) r) \<and>
     (\<forall>c d r. pcs c = Hold r \<longrightarrow> pcs d = Hold r \<longrightarrow> c = d))"

lemma heldI: "pcs c = Hold r \<Longrightarrow> r \<in> held pcs"
  by (auto simp: held_def)

lemma held_drop:
  assumes "pcs c = Hold r" "\<And>d. pcs d = Hold r \<Longrightarrow> d = c"
  shows "held (pcs(c := Idle)) = held pcs - {r}"
proof (intro equalityI subsetI)
  fix q assume "q \<in> held (pcs(c := Idle))"
  then obtain d where "(pcs(c := Idle)) d = Hold q" by (auto simp: held_def)
  then have "d \<noteq> c" "pcs d = Hold q" by (auto split: if_splits)
  moreover from this have "q \<noteq> r" using assms(2) by blast
  ultimately show "q \<in> held pcs - {r}" by (blast intro: heldI)
next
  fix q assume "q \<in> held pcs - {r}"
  then obtain d where "pcs d = Hold q" "q \<noteq> r" by (auto simp: held_def)
  with assms(1) have "(pcs(c := Idle)) d = Hold q" by auto
  then show "q \<in> held (pcs(c := Idle))" by (rule heldI)
qed

lemma held_other:
  assumes "\<And>q. pcs c \<noteq> Hold q"
  shows "held (pcs(c := v)) = held pcs \<union> {r. v = Hold r}"
proof (intro equalityI subsetI)
  fix q assume "q \<in> held (pcs(c := v))"
  then obtain d where "(pcs(c := v)) d = Hold q" by (auto simp: held_def)
  then show "q \<in> held pcs \<union> {r. v = Hold r}" by (auto simp: held_def split: if_splits)
next
  fix q assume "q \<in> held pcs \<union> {r. v = Hold r}"
  then consider d where "pcs d = Hold q" | "v = Hold q" by (auto simp: held_def)
  then show "q \<in> held (pcs(c := v))"
  proof cases
    case 1
    with assms have "(pcs(c := v)) d = Hold q" by auto
    then show ?thesis by (rule heldI)
  next
    case 2
    then have "(pcs(c := v)) c = Hold q" by simp
    then show ?thesis by (rule heldI)
  qed
qed

lemma percpu_take:
  assumes "percpu_ok s" "k < NCPU" "take_page k s = (r, s')"
  shows "if r = 0 then s' = s
    else percpu_ok s' \<and> r \<in> percpu_free s \<and> percpu_free s' = percpu_free s - {r} \<and> kend s' = kend s"
proof -
  from assms(1) obtain pss where inv: "percpu_inv s pss" by (auto simp: percpu_ok_def)
  show ?thesis
    using inv assms(2)
  proof (cases rule: take_page_cases)
    case none
    with assms(3) show ?thesis by simp
  next
    case (some p t)
    with assms(3) have e: "p = r" "t = s'" by simp_all
    from took_set[OF inv some(2)] obtain qss where "percpu_inv s' qss" "r \<in> set (concat pss)"
      "set (concat qss) = set (concat pss) - {r}" unfolding e by blast
    with some(2) e percpu_free_eq[OF inv] percpu_free_eq[of s' qss] show ?thesis
      by (auto simp: percpu_ok_def took_def simp del: set_concat)
  qed
qed

lemma account_uniq: "page_account T (s, pcs) \<Longrightarrow> pcs c = Hold r \<Longrightarrow> pcs d = Hold r \<Longrightarrow> c = d"
  unfolding page_account_def by blast

lemma page_accountD:
  assumes "page_account T (s, pcs)"
  shows "percpu_ok s" "percpu_free s \<union> held pcs = T" "percpu_free s \<inter> held pcs = {}"
    "\<forall>r\<in>held pcs. managed (kend s) r"
  using assms unfolding page_account_def by blast+

lemma page_accountI:
  assumes "percpu_ok s" "percpu_free s \<union> held pcs = T" "percpu_free s \<inter> held pcs = {}"
    "\<forall>r\<in>held pcs. managed (kend s) r" "\<And>c d r. pcs c = Hold r \<Longrightarrow> pcs d = Hold r \<Longrightarrow> c = d"
  shows "page_account T (s, pcs)"
  using assms unfolding page_account_def by blast

lemma account_take:
  assumes acc: "page_account T (s, pcs)" and "\<And>q. pcs c \<noteq> Hold q" "k < NCPU" "take_page k s = (r, s')" "r \<noteq> 0"
  shows "page_account T (s', pcs(c := Hold r))"
proof (rule page_accountI)
  note a = page_accountD[OF acc]
  have t: "percpu_ok s'" "r \<in> percpu_free s" "percpu_free s' = percpu_free s - {r}" "kend s' = kend s"
    using percpu_take[OF a(1) assms(3,4)] assms(5) by simp_all
  have h: "held (pcs(c := Hold r)) = insert r (held pcs)" using held_other[of pcs c "Hold r"] assms(2) by auto
  have r: "r \<notin> held pcs" using a(3) t(2) by blast
  show "percpu_ok s'" by (rule t)
  show "percpu_free s' \<union> held (pcs(c := Hold r)) = T" "percpu_free s' \<inter> held (pcs(c := Hold r)) = {}"
    using a t r unfolding h by blast+
  show "\<forall>q\<in>held (pcs(c := Hold r)). managed (kend s') q"
    using a(4) pka.free_managed[OF a(1) t(2)] unfolding h t by blast
  show "x = y" if "(pcs(c := Hold r)) x = Hold q" "(pcs(c := Hold r)) y = Hold q" for x y q
    using that r heldI[of pcs _ r] account_uniq[OF acc, of x q y] by (auto split: if_splits)
qed

lemma account_quiet:
  assumes acc: "page_account T (s, pcs)" and "\<And>q. pcs c \<noteq> Hold q" "\<And>q. v \<noteq> Hold q"
  shows "page_account T (s, pcs(c := v))"
proof -
  have h: "held (pcs(c := v)) = held pcs" using held_other[of pcs c v] assms(2,3) by auto
  have "x = y" if "(pcs(c := v)) x = Hold q" "(pcs(c := v)) y = Hold q" for x y q
    using that assms(3) account_uniq[OF acc, of x q y] by (auto split: if_splits)
  then show ?thesis using page_accountD[OF acc] by (intro page_accountI) (simp_all only: h)
qed

lemma account_free:
  assumes acc: "page_account T (s, pcs)" and c: "pcs c = Hold r" and f: "percpu_kfree r s = Inr s'"
  shows "page_account T (s', pcs(c := Idle))"
proof (rule page_accountI)
  note a = page_accountD[OF acc]
  have r: "r \<in> held pcs" using c by (rule heldI)
  have ok: "managed (kend s) r" "r \<notin> percpu_free s" using a r by blast+
  from pka.kfree_ok[OF a(1) ok] f
  have t: "percpu_ok s'" "percpu_free s' = insert r (percpu_free s)" "kend s' = kend s" by auto
  have h: "held (pcs(c := Idle)) = held pcs - {r}"
    by (rule held_drop) (use c account_uniq[OF acc _ c] in blast)+
  show "percpu_ok s'" by (rule t)
  show "percpu_free s' \<union> held (pcs(c := Idle)) = T" "percpu_free s' \<inter> held (pcs(c := Idle)) = {}"
    unfolding h t(2) using a(2,3) r by auto
  show "\<forall>q\<in>held (pcs(c := Idle)). managed (kend s') q" using a(4) unfolding h t by blast
  show "x = y" if "(pcs(c := Idle)) x = Hold q" "(pcs(c := Idle)) y = Hold q" for x y q
    using that account_uniq[OF acc, of x q y] by (auto split: if_splits)
qed

lemma account_use:
  assumes acc: "page_account T (s, pcs)" and c: "pcs c = Hold r" and so: "same_outside {r} (mem s) m"
  shows "page_account T (s\<lparr>mem := m\<rparr>, pcs)"
proof -
  note a = page_accountD[OF acc]
  have "{r} \<inter> percpu_free s = {}" using a heldI[of pcs c r] c by blast
  note w = pka.write_page[OF a(1) so this]
  show ?thesis
  proof (rule page_accountI)
    show "c = d" if "pcs c = Hold r" "pcs d = Hold r" for c d r
      using account_uniq[OF acc that] .
  qed (use a w in simp_all)
qed

lemma page_account_step: "alloc_step x y \<Longrightarrow> page_account T x \<Longrightarrow> page_account T y"
proof (induction rule: alloc_step.induct)
  case (own_hit c pcs s r s')
  then show ?case by (intro account_take[of T s pcs c c r s']) simp_all
next
  case (own_miss c pcs s s')
  then have "s' = s" using percpu_take[of s c 0 s'] page_accountD(1) by force
  with own_miss show ?case by (intro account_quiet) simp_all
next
  case (scan_hit c pcs i s r s')
  then show ?case by (intro account_take[of T s pcs c i r s']) simp_all
next
  case (scan_miss c pcs i s s')
  then have "s' = s" using percpu_take[of s i 0 s'] page_accountD(1) by force
  with scan_miss show ?case by (intro account_quiet) simp_all
next
  case (use c pcs r s m)
  then show ?case by (intro account_use)
next
  case (free c pcs r s s')
  then show ?case by (intro account_free)
qed (intro account_quiet; simp)+

lemma page_account_reachable: "alloc_step\<^sup>*\<^sup>* x y \<Longrightarrow> page_account T x \<Longrightarrow> page_account T y"
  by (induction rule: rtranclp_induct) (auto intro: page_account_step)

end
