(* ===== verification/AllocProps.thy ===== *)
theory AllocProps
  imports VmProps VmCow KallocPercpu
begin

text \<open>
  The properties of the two other allocators: reference counts and copy-on-write on top of them, and
  the per-CPU free lists with work stealing.
\<close>

section \<open>Copy-on-write\<close>

text \<open>
  C16: dropping a reference in the copy-on-write allocator frees a page exactly when the count
  reaches zero: with the last reference the page joins the free list, with any earlier one the
  count falls by one and no byte of memory changes.
\<close>

theorem cow_kfree_counts:
  assumes "cow_ok s" "managed (kend s) p" "p \<notin> kmem_free s" "count s p \<noteq> 0"
  shows "\<exists>s'. cow_kfree p s = Inr s' \<and> cow_ok s' \<and>
    kmem_free s' = kmem_free s \<union> (if count s p = 1 then {p} else {}) \<and>
    same_outside (if count s p = 1 then {p} else {}) (mem s) (mem s') \<and>
    ref_cnt s' = (ref_cnt s)(cow_index p := count s p - 1)"
  using cow_drop[OF assms] by blast

definition cow_pte :: u64 where
  "cow_pte = PA2PTE P3 OR (PTE_R OR PTE_U OR PTE_COW) OR PTE_V"

definition cow_page :: cow_machine where
  "cow_page = \<lparr>mem = tree_mem cow_pte, kend = KERNBASE, freelist = P4,
     ref_cnt = (\<lambda>_. 0)(cow_index P3 := 2)\<rparr>"

lemma cow_page_sel [simp]:
  "mem cow_page = tree_mem cow_pte" "kend cow_page = KERNBASE" "freelist cow_page = P4"
  "ref_cnt cow_page = (\<lambda>_. 0)(cow_index P3 := 2)"
  by (simp_all add: cow_page_def)

lemma cow_pte_simps [simp]:
  "valid cow_pte" "PTE2PA cow_pte = P3" "cow_pte AND PTE_U \<noteq> 0" "cow_pte AND PTE_W = 0" "cow_pte AND PTE_COW \<noteq> 0"
  by (simp_all add: cow_pte_def P3_def PA2PTE_def PTE2PA_def pte_bits)

lemma cow_page_ok [simp]: "cow_ok cow_page" "kmem_free cow_page = {P4}" "pt_inv {P4} cow_page P0"
proof -
  have "cow_index P4 \<noteq> cow_index P3"
    using managed_index_inject[of KERNBASE P4 P3] by simp
  then have i: "cow_inv cow_page [P4]"
    by (simp add: cow_inv_def kmem_inv_def tree_free)
  then show "cow_ok cow_page" by (auto simp: cow_ok_def)
  show "kmem_free cow_page = {P4}" using cow_inv_free[OF i] by simp
  show "pt_inv {P4} cow_page P0" by (simp add: pt_inv_def tree_shape)
qed

theorem cow_kfree_counts_witness:
  "\<exists>s'. cow_kfree P3 cow_page = Inr s' \<and> cow_ok s' \<and> kmem_free s' = {P4} \<and> count s' P3 = 1"
  using cow_kfree_counts[of cow_page P3] by auto

text \<open>
  C6: a write to a shared copy-on-write page (a store fault, or \<open>copyout\<close>) gives the process a private
  writable page: while a free page exists \<open>walkcowaddr\<close> returns one that was free, its bytes are the
  bytes of the shared page, only the mapping of that virtual page changes, the table stays well
  formed, and the shared page has one reference less (and is freed if that was the last).
\<close>

theorem walkcowaddr_breaks_share:
  assumes "cow_ok s" "pt_inv (kmem_free s) s pt" "va < MAXVA" "vmap s pt va = Some pte"
    and "pte AND PTE_U \<noteq> 0" "pte AND PTE_W = 0" "pte AND PTE_COW \<noteq> 0"
    and "managed (kend s) (PTE2PA pte)" "PTE2PA pte \<notin> kmem_free s"
    and "PTE2PA pte \<notin> tpages 2 (mem s) pt" "count s (PTE2PA pte) \<noteq> 0" "kmem_free s \<noteq> {}"
  shows "\<exists>p s'. walkcowaddr pt va s = Inr (p, s') \<and> p \<in> kmem_free s \<and> cow_ok s' \<and>
    pt_inv (kmem_free s') s' pt \<and>
    kmem_free s' = kmem_free s - {p} \<union> (if count s (PTE2PA pte) = 1 then {PTE2PA pte} else {}) \<and>
    (\<forall>v. unat v < 2 ^ 39 \<longrightarrow> vmap s' pt v =
       (if PGROUNDDOWN v = PGROUNDDOWN va
        then Some (PA2PTE p OR (PTE_FLAGS pte AND NOT PTE_COW OR PTE_W) OR PTE_V) else vmap s pt v)) \<and>
    (\<forall>off<PGSIZE. mem s' (p + off) = mem s (PTE2PA pte + off)) \<and>
    count s' (PTE2PA pte) = count s (PTE2PA pte) - 1"
  using walkcowaddr_copy[OF assms] .

theorem walkcowaddr_breaks_share_witness:
  "\<exists>s'. walkcowaddr P0 0 cow_page = Inr (P4, s') \<and> cow_ok s' \<and> kmem_free s' = {} \<and> count s' P3 = 1"
proof -
  have v: "vmap cow_page P0 0 = Some cow_pte" by (simp add: tree_vmap PGROUNDDOWN_aligned)
  have "(0 :: u64) < MAXVA" by (simp add: below_MAXVA)
  from walkcowaddr_breaks_share[of cow_page P0 0 cow_pte, OF _ _ this v]
  show ?thesis by (auto simp: tree_shape)
qed

section \<open>Per-CPU free lists\<close>


definition two_lists :: percpu_machine where
  "two_lists = \<lparr>mem = (\<lambda>_. 0), kend = KERNBASE, freelists = [0, P4, 0, 0, 0, 0, 0, 0], hartid = 0\<rparr>"

lemma two_lists_inv: "percpu_inv two_lists [[], [P4], [], [], [], [], [], []]"
proof -
  have "load64 (\<lambda>_. 0) P4 = 0" by (simp add: load64_def load_le_zero)
  moreover have "0 < KERNBASE" by (simp add: KERNBASE_def)
  ultimately show ?thesis
    by (simp add: percpu_inv_def two_lists_def NCPU_def) (simp add: eval_nat_numeral All_less_Suc)
qed


text \<open>
  \<open>kfree\<close> in the per-CPU allocator always finds a list for a page of physical memory: it never
  panics with "runout mem", and the page ends up on exactly one list.
\<close>

theorem percpu_kfree_total:
  assumes "percpu_ok s" "managed (kend s) p" "p \<notin> percpu_free s"
  shows "\<exists>s'. percpu_kfree p s = Inr s' \<and> percpu_ok s' \<and> percpu_free s' = insert p (percpu_free s) \<and>
    same_outside {p} (mem s) (mem s')"
  using pka.kfree_ok[OF assms(1,2,3)] by auto

theorem percpu_kfree_total_witness:
  "\<exists>s'. percpu_kfree P3 two_lists = Inr s' \<and> percpu_free s' = {P3, P4}"
proof -
  have "percpu_free two_lists = {P4}" "percpu_ok two_lists"
    using percpu_free_eq[OF two_lists_inv] two_lists_inv by (auto simp: percpu_ok_def)
  then show ?thesis using percpu_kfree_total[of two_lists P3] by (auto simp: two_lists_def)
qed

text \<open>
  What the per-CPU \<open>kinit\<close> frees. Memory is cut into eight parts whose length need not be a
  multiple of the page size; exactly the pages that lie inside one part are freed. A page across the
  border of two parts is on no list and can never be allocated.
\<close>

theorem percpu_kinit_drops_border_pages:
  assumes "percpu_ok s" "percpu_free s = {}" "0 < kend s" "kend s \<le> PHYSTOP"
  shows "\<exists>s'. percpu_kinit s = Inr s' \<and> percpu_ok s' \<and>
    percpu_free s' = {p. page_aligned p \<and> (\<exists>k<8.
       unat (kend s) + k * unat (chunk_size (kend s)) \<le> unat p \<and>
       unat p + 4096 \<le> 0x88000000 - (7 - k) * unat (chunk_size (kend s)))}"
  using percpu_kinit_pages[OF assms] by (auto simp: chunk_pages_def)

definition boot_lists :: percpu_machine where
  "boot_lists = \<lparr>mem = (\<lambda>_. 0), kend = 0x80020800, freelists = [0, 0, 0, 0, 0, 0, 0, 0], hartid = 0\<rparr>"

theorem percpu_kinit_drops_border_pages_witness:
  "\<exists>s'. percpu_kinit boot_lists = Inr s' \<and> percpu_ok s' \<and> 0x8101C000 \<notin> percpu_free s' \<and>
     managed (kend boot_lists) 0x8101C000"
proof -
  have "percpu_inv boot_lists [[], [], [], [], [], [], [], []]"
    by (simp add: percpu_inv_def boot_lists_def NCPU_def) (simp add: eval_nat_numeral All_less_Suc)
  then have ok: "percpu_ok boot_lists" "percpu_free boot_lists = {}"
    using percpu_free_eq[of boot_lists] by (auto simp: percpu_ok_def)
  have k: "kend boot_lists = 0x80020800" by (simp add: boot_lists_def)
  have c: "unat (chunk_size 0x80020800) = 16760576"
    by (simp add: chunk_bounds PHYSTOP_def KERNBASE_def)
  have "\<not> (2147616768 + k * 16760576 \<le> 2164375552 \<and> (2164379648 :: nat) \<le> 2281701376 - (7 - k) * 16760576)" for k
    by (cases k) simp_all
  then have "0x8101C000 \<notin> {p. page_aligned p \<and> (\<exists>k<8. unat (0x80020800 :: u64) + k * 16760576 \<le> unat p \<and>
       unat p + 4096 \<le> 0x88000000 - (7 - k) * 16760576)}"
    by simp
  moreover have "managed (kend boot_lists) 0x8101C000"
    by (simp add: managed_def k page_aligned_unat PHYSTOP_def KERNBASE_def)
  ultimately show ?thesis
    using percpu_kinit_drops_border_pages[OF ok] by (auto simp: k c PHYSTOP_def KERNBASE_def)
qed

end
