(* ===== verification/VmFrame.thy ===== *)
theory VmFrame
  imports Vm
begin

text \<open>
  The virtual memory code changes memory and the allocator and nothing else: whatever part \<open>g\<close> of
  the state does not depend on memory and survives \<open>kalloc\<close> and \<open>kfree\<close> survives every operation of
  \<open>vm.c\<close>. The process table of the kernel is such a part.
\<close>

locale outside_memory =
  fixes ka :: "'a machine_scheme \<Rightarrow> u64 \<times> 'a machine_scheme"
    and kf :: "u64 \<Rightarrow> 'a machine_scheme \<Rightarrow> 'a machine_scheme res"
    and g :: "'a machine_scheme \<Rightarrow> 'b"
  assumes g_mem [simp]: "g (s\<lparr>mem := m\<rparr>) = g s"
    and g_kalloc: "ka s = (p, s') \<Longrightarrow> g s' = g s"
    and g_kfree: "kf p s = Inr s' \<Longrightarrow> g s' = g s"
begin

lemma g_walk_loop: "walk_loop ka l pt va alloc s = (a, s') \<Longrightarrow> g s' = g s"
proof (induction l arbitrary: pt s)
  case (Suc l)
  then show ?case by (auto simp: Let_def split: if_splits prod.splits dest: g_kalloc Suc.IH)
qed simp

lemma g_walk: "walk ka pt va alloc s = Inr (a, s') \<Longrightarrow> g s' = g s"
  by (auto simp: walk_def split: if_splits dest: g_walk_loop)

lemma g_mappages_loop: "mappages_loop ka pt a last_a pa perm s = Inr (r, s') \<Longrightarrow> g s' = g s"
proof (induction ka' \<equiv> ka pt a last_a pa perm s rule: mappages_loop.induct)
  case (1 pt a last_a pa perm s)
  from "1.prems" obtain p s1 where w: "walk ka pt a True s = Inr (p, s1)"
    by (auto simp: mappages_loop.simps[of ka pt a] bindR_Inr_iff)
  note g1 = g_walk[OF w]
  show ?case
    using "1.prems" "1.hyps"[OF w refl] g1 w
    by (auto simp: mappages_loop.simps[of ka pt a] Let_def split: if_splits)
qed

lemma g_mappages: "mappages ka pt va sz pa perm s = Inr (r, s') \<Longrightarrow> g s' = g s"
  by (auto simp: mappages_def split: if_splits dest: g_mappages_loop)

lemma g_kvmmap: "kvmmap ka pt va pa sz perm s = Inr s' \<Longrightarrow> g s' = g s"
  by (auto simp: kvmmap_def bindR_Inr_iff split: if_splits dest: g_mappages)

lemma g_uvmunmap_loop: "uvmunmap_loop ka kf pt a lim do_free s = Inr s' \<Longrightarrow> g s' = g s"
proof (induction ka' \<equiv> ka kf' \<equiv> kf pt a lim do_free s rule: uvmunmap_loop.induct)
  case (1 pt a lim do_free s)
  show ?case
  proof (cases "a < lim")
    case True
    with "1.prems" obtain p s1 where w: "walk ka pt a False s = Inr (p, s1)"
      by (auto simp: uvmunmap_loop.simps[of ka kf pt a] bindR_Inr_iff)
    with True "1.prems" obtain s2 where
      f: "p \<noteq> 0" "load64 (mem s1) p AND PTE_V \<noteq> 0" "PTE_FLAGS (load64 (mem s1) p) \<noteq> PTE_V"
        "(if do_free then kf (PTE2PA (load64 (mem s1) p)) s1 else Inr s1) = Inr s2"
        "uvmunmap_loop ka kf pt (a + PGSIZE) lim do_free (s2\<lparr>mem := store64 (mem s2) p 0\<rparr>) = Inr s'"
      by (auto simp: uvmunmap_loop.simps[of ka kf pt a] bindR_Inr_iff split: if_splits)
    have "g s2 = g s1" using f(4) by (auto split: if_splits dest: g_kfree)
    with g_walk[OF w] "1.hyps"[OF True w refl f(1) _ f(3,4,5)] f(2) show ?thesis by auto
  next
    case False
    with "1.prems" show ?thesis by (simp add: uvmunmap_loop.simps[of ka kf pt a])
  qed
qed

lemma g_uvmunmap: "uvmunmap ka kf pt va n do_free s = Inr s' \<Longrightarrow> g s' = g s"
  by (auto simp: uvmunmap_def split: if_splits dest: g_uvmunmap_loop)

lemma g_uvmcreate: "uvmcreate ka s = (p, s') \<Longrightarrow> g s' = g s"
  by (auto simp: uvmcreate_def split: prod.splits if_splits dest: g_kalloc)

lemma g_uvminit: "uvminit ka pt src s = Inr s' \<Longrightarrow> g s' = g s"
  by (auto simp: uvminit_def bindR_Inr_iff Let_def split: prod.splits if_splits
      dest!: g_mappages dest: g_kalloc)

lemma g_uvmdealloc: "uvmdealloc ka kf pt old new s = Inr (r, s') \<Longrightarrow> g s' = g s"
  by (auto simp: uvmdealloc_def bindR_Inr_iff Let_def split: if_splits dest: g_uvmunmap)

lemma g_uvmalloc_loop: "uvmalloc_loop ka kf pt old new a s = Inr (r, s') \<Longrightarrow> g s' = g s"
proof (induction ka' \<equiv> ka kf' \<equiv> kf pt old new a s rule: uvmalloc_loop.induct)
  case (1 pt old new a s)
  show ?case
  proof (cases "a < new")
    case True
    obtain p s1 where k: "ka s = (p, s1)" by (cases "ka s")
    note gk = g_kalloc[OF k]
    show ?thesis
    proof (cases "p = 0")
      case z: True
      with True k "1.prems" show ?thesis
        by (auto simp: uvmalloc_loop.simps[of ka kf pt old] bindR_Inr_iff gk dest!: g_uvmdealloc)
    next
      case nz: False
      define s2 where "s2 = s1\<lparr>mem := memset (mem s1) p 0 PGSIZE\<rparr>"
      have g2: "g s2 = g s" by (simp add: s2_def gk)
      from nz True k "1.prems" obtain q s3 where
        m: "mappages ka pt a PGSIZE p (PTE_W OR PTE_X OR PTE_R OR PTE_U) s2 = Inr (q, s3)"
        by (auto simp: uvmalloc_loop.simps[of ka kf pt old] bindR_Inr_iff s2_def)
      show ?thesis
      proof (cases "q = 0")
        case q: True
        with m nz True k "1.prems" have "uvmalloc_loop ka kf pt old new (a + PGSIZE) s3 = Inr (r, s')"
          by (simp add: uvmalloc_loop.simps[of ka kf pt old new a] s2_def)
        from "1.hyps"[OF True k[symmetric] refl nz s2_def m refl _ this] q g_mappages[OF m] g2 show ?thesis by simp
      next
        case q: False
        with m nz True k "1.prems" obtain s4 u where "kf p s3 = Inr s4" "uvmdealloc ka kf pt a old s4 = Inr (u, s')"
          by (auto simp: uvmalloc_loop.simps[of ka kf pt old new a] s2_def bindR_Inr_iff)
        with g_mappages[OF m] g2 show ?thesis by (auto dest!: g_kfree g_uvmdealloc)
      qed
    qed
  next
    case False
    with "1.prems" show ?thesis by (simp add: uvmalloc_loop.simps[of ka kf pt old])
  qed
qed

lemma g_uvmalloc: "uvmalloc ka kf pt old new s = Inr (r, s') \<Longrightarrow> g s' = g s"
  by (auto simp: uvmalloc_def split: if_splits dest: g_uvmalloc_loop)

lemma g_fold_res:
  "(\<And>i s s'. f i s = Inr s' \<Longrightarrow> g s' = g s) \<Longrightarrow> fold_res f xs s = Inr s' \<Longrightarrow> g s' = g s"
  by (induction xs arbitrary: s) (auto simp: bindR_Inr_iff)

lemma g_freewalk: "freewalk kf d pt s = Inr s' \<Longrightarrow> g s' = g s"
proof (induction d arbitrary: pt s s')
  case (Suc d)
  from Suc.prems obtain t where t: "fold_res (\<lambda>i s.
         let a = slot pt (of_nat i); pte = load64 (mem s) a in
         if pte AND PTE_V \<noteq> 0 \<and> pte AND (PTE_R OR PTE_W OR PTE_X) = 0
         then bindR (freewalk kf d (PTE2PA pte) s) (\<lambda>s1. Inr (s1\<lparr>mem := store64 (mem s1) a 0\<rparr>))
         else if pte AND PTE_V \<noteq> 0 then Inl (Panic ''freewalk: leaf'')
         else Inr s) [0..<512] s = Inr t" "kf pt t = Inr s'"
    by (auto simp: bindR_Inr_iff)
  have "g t = g s"
    by (rule g_fold_res[OF _ t(1)]) (auto simp: Let_def bindR_Inr_iff split: if_splits dest: Suc.IH)
  with g_kfree[OF t(2)] show ?case by simp
qed simp

lemma g_uvmfree: "uvmfree ka kf pt sz s = Inr s' \<Longrightarrow> g s' = g s"
  by (auto simp: uvmfree_def bindR_Inr_iff split: if_splits dest!: g_freewalk g_uvmunmap)

lemma g_uvmcopy_loop: "uvmcopy_loop ka kf old new sz i s = Inr (r, s') \<Longrightarrow> g s' = g s"
proof (induction ka' \<equiv> ka kf' \<equiv> kf old new sz i s rule: uvmcopy_loop.induct)
  case (1 old new sz i s)
  note simps = uvmcopy_loop.simps[of ka kf old new sz i s]
  show ?case
  proof (cases "i < sz")
    case True
    with "1.prems" obtain p s1 where w: "walk ka old i False s = Inr (p, s1)"
      by (auto simp: simps bindR_Inr_iff)
    with True "1.prems" have pv: "p \<noteq> 0" "load64 (mem s1) p AND PTE_V \<noteq> 0"
      by (auto simp: simps split: if_splits)
    define pa fl where "pa = PTE2PA (load64 (mem s1) p)" and "fl = PTE_FLAGS (load64 (mem s1) p)"
    obtain q s2 where k: "ka s1 = (q, s2)" by (cases "ka s1")
    have g2: "g s2 = g s" using g_walk[OF w] g_kalloc[OF k] by simp
    show ?thesis
    proof (cases "q = 0")
      case z: True
      with True w pv k "1.prems" show ?thesis
        by (auto simp: simps bindR_Inr_iff Let_def g2 dest!: g_uvmunmap)
    next
      case nz: False
      define s3 where "s3 = s2\<lparr>mem := memmove (mem s2) q pa PGSIZE\<rparr>"
      have g3: "g s3 = g s" by (simp add: s3_def g2)
      from nz True w pv k "1.prems" obtain e s4 where m: "mappages ka new i PGSIZE q fl s3 = Inr (e, s4)"
        by (auto simp: simps bindR_Inr_iff Let_def s3_def pa_def fl_def)
      show ?thesis
      proof (cases "e = 0")
        case e: True
        with m nz True w pv k "1.prems" have "uvmcopy_loop ka kf old new sz (i + PGSIZE) s4 = Inr (r, s')"
          by (simp add: simps Let_def s3_def pa_def fl_def)
        from "1.hyps"[OF True w refl pv(1) _ pa_def fl_def k[symmetric] refl nz s3_def m refl _ this] pv(2) e
          g_mappages[OF m] g3 show ?thesis by simp
      next
        case e: False
        with m nz True w pv k "1.prems" obtain s5 where "kf q s4 = Inr s5"
          "uvmunmap ka kf new 0 (i div PGSIZE) True s5 = Inr s'"
          by (auto simp: simps Let_def s3_def pa_def fl_def bindR_Inr_iff)
        with g_mappages[OF m] g3 show ?thesis by (auto dest!: g_kfree g_uvmunmap)
      qed
    qed
  next
    case False
    with "1.prems" show ?thesis by (simp add: simps)
  qed
qed

lemma g_uvmcopy: "uvmcopy ka kf old new sz s = Inr (r, s') \<Longrightarrow> g s' = g s"
  by (simp add: uvmcopy_def g_uvmcopy_loop)

lemma g_copyout: "copyout ka pt va src s = Inr (r, s') \<Longrightarrow> g s' = g s"
proof (induction ka' \<equiv> ka pt va src s rule: copyout.induct)
  case (1 pt va src s)
  show ?case
  proof (cases "0 < length src")
    case True
    with "1.prems" obtain pa where w: "walkaddr ka pt (PGROUNDDOWN va) s = Inr pa"
      by (auto simp: copyout.simps[of ka pt va] bindR_Inr_iff Let_def)
    show ?thesis
    proof (cases "pa = 0")
      case z: True
      with w True "1.prems" show ?thesis by (simp add: copyout.simps[of ka pt va] Let_def)
    next
      case nz: False
      with w True "1.prems" "1.hyps"[OF True refl w nz refl] show ?thesis
        by (simp add: copyout.simps[of ka pt va] Let_def)
    qed
  next
    case False
    with "1.prems" show ?thesis by (simp add: copyout.simps[of ka pt va])
  qed
qed

end

end
