(* ===== verification/Proc.thy ===== *)
theory Proc
  imports VmFrame
begin

text \<open>
  Processes (\<open>xv6-lab-syscalls/proc.c\<close> and \<open>proc.h\<close>): the process table, creation and destruction of
  processes, sleep and wakeup, and the scheduler. The kernel state extends the machine and its
  allocator, so \<open>kalloc\<close>, \<open>kfree\<close> and the operations of \<open>vm.c\<close> apply to it as they are. A \<open>struct proc *\<close> is an
  index into the table, a sleep channel is the address of a process or of another object, and the
  struct in which the CPU keeps its current process is \<open>cpus\<close>. Each region between \<open>acquire\<close> and
  \<open>release\<close> is atomic; what \<open>sched\<close> asks of locks and interrupts is an argument, because
  \<open>spinlock.c\<close> is not part of the sources. So are the file system calls of \<open>fork\<close>, \<open>exit\<close> and \<open>userinit\<close>.

  A process that gives up the CPU is in the state \<open>swtch\<close> leaves behind; what it does when it
  is switched to again is the separate definition \<open>sleep_resume\<close>.
\<close>

section \<open>State\<close>

definition NPROC :: nat where "NPROC = 64"
definition NOFILE :: nat where "NOFILE = 16"

datatype procstate = UNUSED | USED | SLEEPING | RUNNABLE | RUNNING | ZOMBIE

datatype channel = NoChan | ChanProc nat | ChanAddr u64

record proc =
  pstate :: procstate
  chan :: channel
  killed :: int
  xstate :: int
  pid :: int
  parent :: "nat option"
  kstack :: u64
  psz :: u64
  pagetable :: u64
  trapframe :: u64
  context_ra :: u64
  context_sp :: u64
  ofile :: "u64 list"
  cwd :: u64
  pname :: string
  trace_mask :: int

record kernel = kmem_machine +
  procs :: "proc list"
  nextpid :: int
  initproc :: "nat option"
  cpus :: "nat option list"
  hart :: nat
  trampoline :: u64
  forkret_addr :: u64

text \<open>The file system calls of the process code.\<close>

record 's fs_ops =
  op_filedup :: "u64 \<Rightarrow> 's \<Rightarrow> (u64 \<times> 's) res"
  op_fileclose :: "u64 \<Rightarrow> 's \<Rightarrow> 's res"
  op_idup :: "u64 \<Rightarrow> 's \<Rightarrow> (u64 \<times> 's) res"
  op_iput :: "u64 \<Rightarrow> 's \<Rightarrow> 's res"
  op_namei :: "string \<Rightarrow> 's \<Rightarrow> (u64 \<times> 's) res"

text \<open>Offsets of the fields of \<open>struct trapframe\<close>.\<close>

definition TF_epc :: u64 where "TF_epc = 24"
definition TF_sp :: u64 where "TF_sp = 48"
definition TF_a0 :: u64 where "TF_a0 = 112"
definition TF_a7 :: u64 where "TF_a7 = 168"
definition sizeof_trapframe :: u64 where "sizeof_trapframe = 288"

definition upd_proc :: "nat \<Rightarrow> (proc \<Rightarrow> proc) \<Rightarrow> 'a kernel_scheme \<Rightarrow> 'a kernel_scheme" where
  "upd_proc i f s = s\<lparr>procs := (procs s)[i := f (procs s ! i)]\<rparr>"

abbreviation getp :: "'a kernel_scheme \<Rightarrow> nat \<Rightarrow> proc" where
  "getp s i \<equiv> procs s ! i"

section \<open>Boot\<close>

definition proc_mapstacks :: "u64 \<Rightarrow> 'a kernel_scheme \<Rightarrow> 'a kernel_scheme res" where
  "proc_mapstacks kpgtbl s =
     fold_res (\<lambda>i s. let (pa, s1) = kalloc s in
       if pa = 0 then Inl (Panic ''kalloc'')
       else kvmmap kalloc kpgtbl (KSTACK (of_nat i)) pa PGSIZE (PTE_R OR PTE_W) s1) [0..<NPROC] s"

definition procinit :: "'a kernel_scheme \<Rightarrow> 'a kernel_scheme" where
  "procinit s = fold (\<lambda>i. upd_proc i (\<lambda>p. p\<lparr>kstack := KSTACK (of_nat i)\<rparr>)) [0..<NPROC] s"

definition cpuid :: "'a kernel_scheme \<Rightarrow> nat" where
  "cpuid s = hart s"

definition mycpu :: "'a kernel_scheme \<Rightarrow> nat" where
  "mycpu s = cpuid s"

definition myproc :: "'a kernel_scheme \<Rightarrow> nat option" where
  "myproc s = cpus s ! mycpu s"

text \<open>Dereferencing \<open>myproc()\<close>.\<close>

definition the_proc :: "'a kernel_scheme \<Rightarrow> (nat \<Rightarrow> 'b res) \<Rightarrow> 'b res" where
  "the_proc s f = (case myproc s of None \<Rightarrow> Inl Fault | Some i \<Rightarrow> f i)"

definition allocpid :: "'a kernel_scheme \<Rightarrow> int \<times> 'a kernel_scheme" where
  "allocpid s = (nextpid s, s\<lparr>nextpid := c_int (nextpid s + 1)\<rparr>)"

section \<open>Page tables of processes\<close>

definition proc_pagetable :: "nat \<Rightarrow> 'a kernel_scheme \<Rightarrow> (u64 \<times> 'a kernel_scheme) res" where
  "proc_pagetable i s =
     (let (pt, s1) = uvmcreate kalloc s in
      if pt = 0 then Inr (0, s1)
      else bindR (mappages kalloc pt TRAMPOLINE PGSIZE (trampoline s1) (PTE_R OR PTE_X) s1) (\<lambda>(r, s2).
        if r < 0 then bindR (uvmfree kalloc kfree pt 0 s2) (\<lambda>s3. Inr (0, s3))
        else bindR (mappages kalloc pt TRAPFRAME PGSIZE (trapframe (getp s2 i)) (PTE_R OR PTE_W) s2) (\<lambda>(r, s3).
          if r < 0 then
            bindR (uvmunmap kalloc kfree pt TRAMPOLINE 1 False s3) (\<lambda>s4.
              bindR (uvmfree kalloc kfree pt 0 s4) (\<lambda>s5. Inr (0, s5)))
          else Inr (pt, s3))))"

definition proc_freepagetable :: "u64 \<Rightarrow> u64 \<Rightarrow> 'a kernel_scheme \<Rightarrow> 'a kernel_scheme res" where
  "proc_freepagetable pt sz s =
     bindR (uvmunmap kalloc kfree pt TRAMPOLINE 1 False s) (\<lambda>s1.
       bindR (uvmunmap kalloc kfree pt TRAPFRAME 1 False s1) (\<lambda>s2. uvmfree kalloc kfree pt sz s2))"

definition freeproc :: "nat \<Rightarrow> 'a kernel_scheme \<Rightarrow> 'a kernel_scheme res" where
  "freeproc i s =
     bindR (if trapframe (getp s i) \<noteq> 0 then kfree (trapframe (getp s i)) s else Inr s) (\<lambda>s1.
       let s2 = upd_proc i (\<lambda>p. p\<lparr>trapframe := 0\<rparr>) s1 in
       bindR (if pagetable (getp s2 i) \<noteq> 0
              then proc_freepagetable (pagetable (getp s2 i)) (psz (getp s2 i)) s2 else Inr s2) (\<lambda>s3.
         Inr (upd_proc i (\<lambda>p. p\<lparr>pagetable := 0, psz := 0, pid := 0, parent := None, pname := [],
           chan := NoChan, killed := 0, xstate := 0, pstate := UNUSED\<rparr>) s3)))"

definition allocproc :: "'a kernel_scheme \<Rightarrow> (nat option \<times> 'a kernel_scheme) res" where
  "allocproc s =
     (case find (\<lambda>i. pstate (getp s i) = UNUSED) [0..<NPROC] of
        None \<Rightarrow> Inr (None, s)
      | Some i \<Rightarrow>
        let (pd, s1) = allocpid s;
            s2 = upd_proc i (\<lambda>p. p\<lparr>pid := pd, pstate := USED\<rparr>) s1;
            (tf, s3) = kalloc s2;
            s4 = upd_proc i (\<lambda>p. p\<lparr>trapframe := tf\<rparr>) s3 in
        if tf = 0 then bindR (freeproc i s4) (\<lambda>s5. Inr (None, s5))
        else bindR (proc_pagetable i s4) (\<lambda>(pt, s5).
          let s6 = upd_proc i (\<lambda>p. p\<lparr>pagetable := pt\<rparr>) s5 in
          if pt = 0 then bindR (freeproc i s6) (\<lambda>s7. Inr (None, s7))
          else Inr (Some i, upd_proc i (\<lambda>p. p\<lparr>context_ra := forkret_addr s6,
                 context_sp := kstack p + PGSIZE\<rparr>) s6)))"

section \<open>Creating processes\<close>

definition initcode :: "u8 list" where
  "initcode = [
    0x17, 0x05, 0x00, 0x00, 0x13, 0x05, 0x45, 0x02,
    0x97, 0x05, 0x00, 0x00, 0x93, 0x85, 0x35, 0x02,
    0x93, 0x08, 0x70, 0x00, 0x73, 0x00, 0x00, 0x00,
    0x93, 0x08, 0x20, 0x00, 0x73, 0x00, 0x00, 0x00,
    0xef, 0xf0, 0x9f, 0xff, 0x2f, 0x69, 0x6e, 0x69,
    0x74, 0x00, 0x00, 0x24, 0x00, 0x00, 0x00, 0x00,
    0x00, 0x00, 0x00, 0x00]"

text \<open>\<open>safestrcpy\<close> keeps at most \<open>n - 1\<close> characters.\<close>

definition safestrcpy :: "string \<Rightarrow> nat \<Rightarrow> string" where
  "safestrcpy t n = take (n - 1) t"

text \<open>\<open>userinit\<close> uses the result of \<open>allocproc\<close> without a test.\<close>

definition userinit :: "'a kernel_scheme fs_ops \<Rightarrow> 'a kernel_scheme \<Rightarrow> 'a kernel_scheme res" where
  "userinit ops s =
     bindR (allocproc s) (\<lambda>(r, s1).
       let s2 = s1\<lparr>initproc := r\<rparr> in
       case r of None \<Rightarrow> Inl Fault
       | Some i \<Rightarrow>
         bindR (uvminit kalloc (pagetable (getp s2 i)) initcode s2) (\<lambda>s3.
           let s4 = upd_proc i (\<lambda>p. p\<lparr>psz := PGSIZE\<rparr>) s3;
               s5 = s4\<lparr>mem := store64 (mem s4) (trapframe (getp s4 i) + TF_epc) 0\<rparr>;
               s6 = s5\<lparr>mem := store64 (mem s5) (trapframe (getp s5 i) + TF_sp) PGSIZE\<rparr>;
               s7 = upd_proc i (\<lambda>p. p\<lparr>pname := safestrcpy ''initcode'' 16\<rparr>) s6 in
           bindR (op_namei ops ''/'' s7) (\<lambda>(ip, s8).
             Inr (upd_proc i (\<lambda>p. p\<lparr>cwd := ip, pstate := RUNNABLE\<rparr>) s8))))"

text \<open>
  The local \<open>sz\<close> of \<open>growproc\<close> is a 32-bit unsigned integer, so \<open>sz + n\<close> wraps at 32 bits and the size
  that is stored back is its zero extension.
\<close>

definition growproc :: "int \<Rightarrow> 'a kernel_scheme \<Rightarrow> (int \<times> 'a kernel_scheme) res" where
  "growproc n s = the_proc s (\<lambda>i.
     let sz = ucast (psz (getp s i)) :: u32; newsz = ucast (sz + of_int n) :: u64 in
     if n > 0 then
       bindR (uvmalloc kalloc kfree (pagetable (getp s i)) (ucast sz) newsz s) (\<lambda>(r, s1).
         let sz' = ucast r :: u32 in
         if sz' = 0 then Inr (-1, s1) else Inr (0, upd_proc i (\<lambda>p. p\<lparr>psz := ucast sz'\<rparr>) s1))
     else if n < 0 then
       bindR (uvmdealloc kalloc kfree (pagetable (getp s i)) (ucast sz) newsz s) (\<lambda>(r, s1).
         Inr (0, upd_proc i (\<lambda>p. p\<lparr>psz := ucast (ucast r :: u32)\<rparr>) s1))
     else Inr (0, upd_proc i (\<lambda>p. p\<lparr>psz := ucast sz\<rparr>) s))"

definition fork_files :: "'a kernel_scheme fs_ops \<Rightarrow> nat \<Rightarrow> nat \<Rightarrow> 'a kernel_scheme \<Rightarrow> 'a kernel_scheme res" where
  "fork_files ops p np s =
     fold_res (\<lambda>i s. let f = ofile (getp s p) ! i in
       if f \<noteq> 0 then bindR (op_filedup ops f s) (\<lambda>(f', s1).
         Inr (upd_proc np (\<lambda>q. q\<lparr>ofile := (ofile q)[i := f']\<rparr>) s1))
       else Inr s) [0..<NOFILE] s"

definition fork :: "'a kernel_scheme fs_ops \<Rightarrow> 'a kernel_scheme \<Rightarrow> (int \<times> 'a kernel_scheme) res" where
  "fork ops s = the_proc s (\<lambda>p.
     bindR (allocproc s) (\<lambda>(r, s1).
       case r of None \<Rightarrow> Inr (-1, s1)
       | Some np \<Rightarrow>
         bindR (uvmcopy kalloc kfree (pagetable (getp s1 p)) (pagetable (getp s1 np)) (psz (getp s1 p)) s1)
           (\<lambda>(c, s2).
           if c < 0 then bindR (freeproc np s2) (\<lambda>s3. Inr (-1, s3))
           else
             let s3 = upd_proc np (\<lambda>q. q\<lparr>psz := psz (getp s2 p)\<rparr>) s2;
                 s4 = s3\<lparr>mem := memmove (mem s3) (trapframe (getp s3 np)) (trapframe (getp s3 p)) sizeof_trapframe\<rparr>;
                 s5 = s4\<lparr>mem := store64 (mem s4) (trapframe (getp s4 np) + TF_a0) 0\<rparr> in
             bindR (fork_files ops p np s5) (\<lambda>s6.
               bindR (op_idup ops (cwd (getp s6 p)) s6) (\<lambda>(ip, s7).
                 let s8 = upd_proc np (\<lambda>q. q\<lparr>cwd := ip, trace_mask := trace_mask (getp s7 p),
                       pname := safestrcpy (pname (getp s7 p)) 16\<rparr>) s7;
                     pd = pid (getp s8 np);
                     s9 = upd_proc np (\<lambda>q. q\<lparr>parent := Some p\<rparr>) s8
                 in Inr (pd, upd_proc np (\<lambda>q. q\<lparr>pstate := RUNNABLE\<rparr>) s9))))))"

section \<open>Sleep and wakeup\<close>

definition wakeup_one :: "channel \<Rightarrow> nat option \<Rightarrow> nat \<Rightarrow> 'a kernel_scheme \<Rightarrow> 'a kernel_scheme" where
  "wakeup_one ch me i s =
     (if Some i \<noteq> me \<and> pstate (getp s i) = SLEEPING \<and> chan (getp s i) = ch
      then upd_proc i (\<lambda>p. p\<lparr>pstate := RUNNABLE\<rparr>) s else s)"

definition wakeup :: "channel \<Rightarrow> 'a kernel_scheme \<Rightarrow> 'a kernel_scheme" where
  "wakeup ch s = fold (wakeup_one ch (myproc s)) [0..<NPROC] s"

text \<open>What \<open>sched\<close> checks besides the state of the process.\<close>

record sched_ctx =
  holding_plock :: bool
  noff :: int
  intr_enabled :: bool

definition sched :: "sched_ctx \<Rightarrow> 'a kernel_scheme \<Rightarrow> 'a kernel_scheme res" where
  "sched c s = the_proc s (\<lambda>i.
     if \<not> holding_plock c then Inl (Panic ''sched p->lock'')
     else if noff c \<noteq> 1 then Inl (Panic ''sched locks'')
     else if pstate (getp s i) = RUNNING then Inl (Panic ''sched running'')
     else if intr_enabled c then Inl (Panic ''sched interruptible'')
     else Inr (s\<lparr>cpus := (cpus s)[mycpu s := None]\<rparr>))"

definition yield :: "sched_ctx \<Rightarrow> 'a kernel_scheme \<Rightarrow> 'a kernel_scheme res" where
  "yield c s = the_proc s (\<lambda>i. sched c (upd_proc i (\<lambda>p. p\<lparr>pstate := RUNNABLE\<rparr>) s))"

definition sleep :: "sched_ctx \<Rightarrow> channel \<Rightarrow> 'a kernel_scheme \<Rightarrow> 'a kernel_scheme res" where
  "sleep c ch s = the_proc s (\<lambda>i.
     sched c (upd_proc i (\<lambda>p. p\<lparr>chan := ch, pstate := SLEEPING\<rparr>) s))"

definition sleep_resume :: "'a kernel_scheme \<Rightarrow> 'a kernel_scheme res" where
  "sleep_resume s = the_proc s (\<lambda>i. Inr (upd_proc i (\<lambda>p. p\<lparr>chan := NoChan\<rparr>) s))"

section \<open>Exit and wait\<close>

text \<open>The address of a process as a channel; the null pointer is no process.\<close>

definition chan_of :: "nat option \<Rightarrow> channel" where
  "chan_of r = (case r of None \<Rightarrow> NoChan | Some i \<Rightarrow> ChanProc i)"

definition reparent_one :: "nat \<Rightarrow> nat \<Rightarrow> 'a kernel_scheme \<Rightarrow> 'a kernel_scheme" where
  "reparent_one p i s =
     (if parent (getp s i) = Some p
      then wakeup (chan_of (initproc s)) (upd_proc i (\<lambda>q. q\<lparr>parent := initproc s\<rparr>) s) else s)"

definition reparent :: "nat \<Rightarrow> 'a kernel_scheme \<Rightarrow> 'a kernel_scheme" where
  "reparent p s = fold (reparent_one p) [0..<NPROC] s"

definition exit_files :: "'a kernel_scheme fs_ops \<Rightarrow> nat \<Rightarrow> 'a kernel_scheme \<Rightarrow> 'a kernel_scheme res" where
  "exit_files ops p s =
     fold_res (\<lambda>fd s. let f = ofile (getp s p) ! fd in
       if f \<noteq> 0 then bindR (op_fileclose ops f s) (\<lambda>s1.
         Inr (upd_proc p (\<lambda>q. q\<lparr>ofile := (ofile q)[fd := 0]\<rparr>) s1))
       else Inr s) [0..<NOFILE] s"

text \<open>\<open>exit\<close> does not return: the result is the state after \<open>swtch\<close> to the scheduler.\<close>

definition exit :: "'a kernel_scheme fs_ops \<Rightarrow> sched_ctx \<Rightarrow> int \<Rightarrow> 'a kernel_scheme \<Rightarrow> 'a kernel_scheme res" where
  "exit ops c status s = the_proc s (\<lambda>p.
     if initproc s = Some p then Inl (Panic ''init exiting'')
     else bindR (exit_files ops p s) (\<lambda>s1.
       bindR (op_iput ops (cwd (getp s1 p)) s1) (\<lambda>s2.
         let s3 = upd_proc p (\<lambda>q. q\<lparr>cwd := 0\<rparr>) s2;
             s4 = reparent p s3;
             s5 = wakeup (chan_of (parent (getp s4 p))) s4
         in sched c (upd_proc p (\<lambda>q. q\<lparr>xstate := status, pstate := ZOMBIE\<rparr>) s5))))"

text \<open>One round of the loop of \<open>wait\<close>: it returns a status, or it goes to sleep on its own address.\<close>

datatype wait_outcome = WaitReturn int | WaitSleep

fun wait_scan :: "nat \<Rightarrow> u64 \<Rightarrow> nat list \<Rightarrow> bool \<Rightarrow> 'a kernel_scheme \<Rightarrow>
    ((int option \<times> bool) \<times> 'a kernel_scheme) res" where
  "wait_scan p addr [] havekids s = Inr ((None, havekids), s)"
| "wait_scan p addr (i # is) havekids s =
     (if parent (getp s i) = Some p then
        if pstate (getp s i) = ZOMBIE then
          let pd = pid (getp s i) in
          bindR (if addr \<noteq> 0
                 then copyout kalloc (pagetable (getp s p)) addr
                        (map (\<lambda>k. ucast (drop_bit (8 * k) (word_of_int (xstate (getp s i)) :: u32))) [0..<4]) s
                 else Inr (0, s)) (\<lambda>(r, s1).
            if addr \<noteq> 0 \<and> r < 0 then Inr ((Some (-1), True), s1)
            else bindR (freeproc i s1) (\<lambda>s2. Inr ((Some pd, True), s2)))
        else wait_scan p addr is True s
      else wait_scan p addr is havekids s)"

definition wait_round :: "u64 \<Rightarrow> 'a kernel_scheme \<Rightarrow> (wait_outcome \<times> 'a kernel_scheme) res" where
  "wait_round addr s = the_proc s (\<lambda>p.
     bindR (wait_scan p addr [0..<NPROC] False s) (\<lambda>((r, havekids), s1).
       case r of Some v \<Rightarrow> Inr (WaitReturn v, s1)
       | None \<Rightarrow> if \<not> havekids \<or> killed (getp s1 p) \<noteq> 0 then Inr (WaitReturn (-1), s1)
                 else Inr (WaitSleep, s1)))"

section \<open>Scheduling\<close>

text \<open>One visit of the scheduler's loop to process \<open>i\<close>, up to the switch to it.\<close>

definition scheduler_visit :: "nat \<Rightarrow> 'a kernel_scheme \<Rightarrow> 'a kernel_scheme" where
  "scheduler_visit i s =
     (if pstate (getp s i) = RUNNABLE
      then (upd_proc i (\<lambda>p. p\<lparr>pstate := RUNNING\<rparr>) s)\<lparr>cpus := (cpus s)[mycpu s := Some i]\<rparr>
      else s)"

definition forkret :: "bool \<Rightarrow> ('a kernel_scheme \<Rightarrow> 'a kernel_scheme res) \<Rightarrow> 'a kernel_scheme \<Rightarrow>
    (bool \<times> 'a kernel_scheme) res" where
  "forkret first fsinit s =
     (if first then bindR (fsinit s) (\<lambda>s1. Inr (False, s1)) else Inr (first, s))"

fun kill_scan :: "int \<Rightarrow> nat list \<Rightarrow> 'a kernel_scheme \<Rightarrow> int \<times> 'a kernel_scheme" where
  "kill_scan pd [] s = (-1, s)"
| "kill_scan pd (i # is) s =
     (if pid (getp s i) = pd then
        (0, upd_proc i (\<lambda>p. p\<lparr>killed := 1,
              pstate := (if pstate p = SLEEPING then RUNNABLE else pstate p)\<rparr>) s)
      else kill_scan pd is s)"

definition kill :: "int \<Rightarrow> 'a kernel_scheme \<Rightarrow> int \<times> 'a kernel_scheme" where
  "kill pd s = kill_scan pd [0..<NPROC] s"

section \<open>Helpers\<close>

definition either_copyout :: "bool \<Rightarrow> u64 \<Rightarrow> u8 list \<Rightarrow> 'a kernel_scheme \<Rightarrow> (int \<times> 'a kernel_scheme) res" where
  "either_copyout user_dst dst src s =
     (if user_dst then the_proc s (\<lambda>i. copyout kalloc (pagetable (getp s i)) dst src s)
      else Inr (0, s\<lparr>mem := write_bytes (mem s) dst src\<rparr>))"

definition either_copyin :: "bool \<Rightarrow> u64 \<Rightarrow> nat \<Rightarrow> 'a kernel_scheme \<Rightarrow> (int \<times> u8 list) res" where
  "either_copyin user_src src len s =
     (if user_src then the_proc s (\<lambda>i. copyin kalloc (pagetable (getp s i)) src len s)
      else Inr (0, read_bytes (mem s) src len))"

definition state_name :: "procstate \<Rightarrow> string" where
  "state_name st = (case st of UNUSED \<Rightarrow> ''unused'' | SLEEPING \<Rightarrow> ''sleep '' | RUNNABLE \<Rightarrow> ''runble''
     | RUNNING \<Rightarrow> ''run   '' | ZOMBIE \<Rightarrow> ''zombie'' | USED \<Rightarrow> ''???'')"

text \<open>The lines \<open>procdump\<close> prints.\<close>

definition procdump :: "'a kernel_scheme \<Rightarrow> (int \<times> string \<times> string) list" where
  "procdump s = map (\<lambda>p. (pid p, state_name (pstate p), pname p))
     (filter (\<lambda>p. pstate p \<noteq> UNUSED) (procs s))"

definition nproc :: "'a kernel_scheme \<Rightarrow> u64" where
  "nproc s = fold (\<lambda>i num. if pstate (getp s i) \<noteq> UNUSED then num + 1 else num) [0..<NPROC] 0"

end
