(* ===== verification/ProcCorrect.thy ===== *)
theory ProcCorrect
  imports Proc
begin

text \<open>
  What the process operations do to the process table, and the invariants of scheduling. The
  operations that create and destroy address spaces are framed through \<open>outside_memory\<close>: the table
  is not in the memory that \<open>vm.c\<close> writes.
\<close>

section \<open>Updating one process\<close>

lemma procs_upd_proc [simp]:
  "procs (upd_proc i f s) = (procs s)[i := f (procs s ! i)]"
  "cpus (upd_proc i f s) = cpus s" "hart (upd_proc i f s) = hart s" "initproc (upd_proc i f s) = initproc s"
  "nextpid (upd_proc i f s) = nextpid s" "mem (upd_proc i f s) = mem s" "kend (upd_proc i f s) = kend s"
  "freelist (upd_proc i f s) = freelist s"
  by (simp_all add: upd_proc_def)

lemma myproc_upd_proc [simp]: "myproc (upd_proc i f s) = myproc s"
  by (simp add: myproc_def mycpu_def cpuid_def)

section \<open>The part of the state that the memory operations leave alone\<close>

definition kstat :: "'a kernel_scheme \<Rightarrow> proc list \<times> int \<times> nat option \<times> nat option list \<times> nat" where
  "kstat s = (procs s, nextpid s, initproc s, cpus s, hart s)"

interpretation kf: outside_memory kalloc kfree kstat
  by unfold_locales
     (auto simp: kstat_def kalloc_def kfree_def Let_def split: if_splits)

lemma kstat_eqD:
  assumes "kstat s' = kstat s"
  shows "procs s' = procs s" "nextpid s' = nextpid s" "initproc s' = initproc s" "cpus s' = cpus s"
    "hart s' = hart s" "myproc s' = myproc s"
  using assms by (simp_all add: kstat_def myproc_def mycpu_def cpuid_def)

lemma kstat_proc_pagetable: "proc_pagetable i s = Inr (pt, s') \<Longrightarrow> kstat s' = kstat s"
  by (auto simp: proc_pagetable_def bindR_Inr_iff Let_def split: prod.splits if_splits
      dest!: kf.g_uvmcreate kf.g_mappages kf.g_uvmfree kf.g_uvmunmap)

lemma kstat_proc_freepagetable: "proc_freepagetable pt sz s = Inr s' \<Longrightarrow> kstat s' = kstat s"
  by (auto simp: proc_freepagetable_def bindR_Inr_iff dest!: kf.g_uvmunmap kf.g_uvmfree)

definition cleared :: "proc \<Rightarrow> proc" where
  "cleared p = p\<lparr>trapframe := 0, pagetable := 0, psz := 0, pid := 0, parent := None, pname := [],
     chan := NoChan, killed := 0, xstate := 0, pstate := UNUSED\<rparr>"

text \<open>\<open>freeproc\<close> empties the slot and touches no other process.\<close>

lemma freeproc_spec:
  assumes "freeproc i s = Inr s'" "i < length (procs s)"
  shows "procs s' = (procs s)[i := cleared (getp s i)]" "nextpid s' = nextpid s"
    "initproc s' = initproc s" "cpus s' = cpus s" "hart s' = hart s"
proof -
  from assms(1) obtain s1 s3 where
    s1: "(if trapframe (getp s i) \<noteq> 0 then kfree (trapframe (getp s i)) s else Inr s) = Inr s1"
    and s3: "(if pagetable (getp (upd_proc i (\<lambda>p. p\<lparr>trapframe := 0\<rparr>) s1) i) \<noteq> 0
        then proc_freepagetable (pagetable (getp (upd_proc i (\<lambda>p. p\<lparr>trapframe := 0\<rparr>) s1) i))
          (psz (getp (upd_proc i (\<lambda>p. p\<lparr>trapframe := 0\<rparr>) s1) i)) (upd_proc i (\<lambda>p. p\<lparr>trapframe := 0\<rparr>) s1)
        else Inr (upd_proc i (\<lambda>p. p\<lparr>trapframe := 0\<rparr>) s1)) = Inr s3"
    and s': "s' = upd_proc i (\<lambda>p. p\<lparr>pagetable := 0, psz := 0, pid := 0, parent := None, pname := [],
           chan := NoChan, killed := 0, xstate := 0, pstate := UNUSED\<rparr>) s3"
    unfolding freeproc_def bindR_Inr_iff Let_def by blast
  have "kstat s1 = kstat s" using s1 by (auto split: if_splits dest: kf.g_kfree)
  note e1 = kstat_eqD[OF this]
  have "kstat s3 = kstat (upd_proc i (\<lambda>p. p\<lparr>trapframe := 0\<rparr>) s1)"
    using s3 by (auto split: if_splits dest: kstat_proc_freepagetable)
  note e3 = kstat_eqD[OF this]
  show "procs s' = (procs s)[i := cleared (getp s i)]"
    using assms(2) by (simp add: s' e1 e3 cleared_def)
  show "nextpid s' = nextpid s" "initproc s' = initproc s" "cpus s' = cpus s" "hart s' = hart s"
    by (simp_all add: s' e1 e3)
qed

lemma find_Some_upt: "find P [0..<n] = Some i \<Longrightarrow> i < n \<and> P i"
  by (auto simp: find_Some_iff)

text \<open>
  \<open>allocproc\<close> takes an \<open>UNUSED\<close> slot and gives it the next pid; when memory runs out the slot is
  empty again.
\<close>

lemma allocproc_Some:
  assumes "allocproc s = Inr (Some i, s')" "length (procs s) = NPROC"
  shows "i < NPROC \<and> pstate (getp s i) = UNUSED \<and> nextpid s' = c_int (nextpid s + 1) \<and>
    initproc s' = initproc s \<and> cpus s' = cpus s \<and> hart s' = hart s \<and>
    (\<exists>tf pt ra. tf \<noteq> 0 \<and> pt \<noteq> 0 \<and> procs s' = (procs s)[i := (getp s i)\<lparr>pid := nextpid s, pstate := USED,
       trapframe := tf, pagetable := pt, context_ra := ra, context_sp := kstack (getp s i) + PGSIZE\<rparr>])"
proof -
  from assms(1) obtain j where f: "find (\<lambda>i. pstate (getp s i) = UNUSED) [0..<NPROC] = Some j"
    by (auto simp: allocproc_def split: option.splits)
  define s2 where "s2 = upd_proc j (\<lambda>p. p\<lparr>pid := nextpid s, pstate := USED\<rparr>) (s\<lparr>nextpid := c_int (nextpid s + 1)\<rparr>)"
  obtain tf s3 where k: "kalloc s2 = (tf, s3)" by (cases "kalloc s2")
  define s4 where "s4 = upd_proc j (\<lambda>p. p\<lparr>trapframe := tf\<rparr>) s3"
  have tf: "tf \<noteq> 0"
    using assms(1) f k by (auto simp: allocproc_def allocpid_def s2_def bindR_Inr_iff Let_def)
  with assms(1) f k obtain pt s5 where pp: "proc_pagetable j s4 = Inr (pt, s5)"
    by (auto simp: allocproc_def allocpid_def s2_def s4_def bindR_Inr_iff Let_def)
  have pt: "pt \<noteq> 0" and s': "i = j" "s' = upd_proc j (\<lambda>p. p\<lparr>context_ra := forkret_addr (upd_proc j (\<lambda>p. p\<lparr>pagetable := pt\<rparr>) s5),
      context_sp := kstack p + PGSIZE\<rparr>) (upd_proc j (\<lambda>p. p\<lparr>pagetable := pt\<rparr>) s5)"
    using assms(1) f k tf pp
    by (auto simp: allocproc_def allocpid_def s2_def s4_def bindR_Inr_iff Let_def split: if_splits)
  note e3 = kstat_eqD[OF kf.g_kalloc[OF k]] and e5 = kstat_eqD[OF kstat_proc_pagetable[OF pp]]
  have j: "j < NPROC" "pstate (getp s j) = UNUSED" using find_Some_upt[OF f] by simp_all
  have "procs s' = (procs s)[j := (getp s j)\<lparr>pid := nextpid s, pstate := USED, trapframe := tf, pagetable := pt,
      context_ra := forkret_addr (upd_proc j (\<lambda>p. p\<lparr>pagetable := pt\<rparr>) s5), context_sp := kstack (getp s j) + PGSIZE\<rparr>]"
    using j assms(2) by (simp add: s' e5 s4_def e3 s2_def)
  with tf pt j show ?thesis by (auto simp: s' e5 s4_def e3 s2_def)
qed

lemma allocproc_None:
  assumes "allocproc s = Inr (None, s')" "length (procs s) = NPROC"
  shows "initproc s' = initproc s \<and> cpus s' = cpus s \<and> hart s' = hart s \<and>
    (procs s' = procs s \<and> nextpid s' = nextpid s \<or>
     nextpid s' = c_int (nextpid s + 1) \<and>
     (\<exists>i<NPROC. pstate (getp s i) = UNUSED \<and> procs s' = (procs s)[i := cleared (getp s i)]))"
proof (cases "find (\<lambda>i. pstate (getp s i) = UNUSED) [0..<NPROC]")
  case None
  with assms(1) show ?thesis by (simp add: allocproc_def)
next
  case (Some j)
  define s2 where "s2 = upd_proc j (\<lambda>p. p\<lparr>pid := nextpid s, pstate := USED\<rparr>) (s\<lparr>nextpid := c_int (nextpid s + 1)\<rparr>)"
  obtain tf s3 where k: "kalloc s2 = (tf, s3)" by (cases "kalloc s2")
  define s4 where "s4 = upd_proc j (\<lambda>p. p\<lparr>trapframe := tf\<rparr>) s3"
  note e3 = kstat_eqD[OF kf.g_kalloc[OF k]]
  have j: "j < NPROC" "pstate (getp s j) = UNUSED" using find_Some_upt[OF Some] by simp_all
  have "\<exists>t pt. kstat t = kstat s4 \<and> freeproc j (upd_proc j (\<lambda>p. p\<lparr>pagetable := pt\<rparr>) t) = Inr s'"
  proof (cases "tf = 0")
    case True
    have "upd_proc j (\<lambda>p. p\<lparr>pagetable := pagetable (getp s4 j)\<rparr>) s4 = s4"
      by (simp add: upd_proc_def)
    with True assms(1) Some k show ?thesis
      by (intro exI[of _ s4] exI[of _ "pagetable (getp s4 j)"])
         (auto simp: allocproc_def allocpid_def s2_def s4_def bindR_Inr_iff Let_def)
  next
    case False
    with assms(1) Some k obtain pt s5 where pp: "proc_pagetable j s4 = Inr (pt, s5)"
      by (auto simp: allocproc_def allocpid_def s2_def s4_def bindR_Inr_iff Let_def)
    with False assms(1) Some k show ?thesis
      by (intro exI[of _ s5] exI[of _ pt])
         (auto simp: allocproc_def allocpid_def s2_def s4_def bindR_Inr_iff Let_def kstat_proc_pagetable
           split: if_splits)
  qed
  then obtain t pt where t: "kstat t = kstat s4"
    "freeproc j (upd_proc j (\<lambda>p. p\<lparr>pagetable := pt\<rparr>) t) = Inr s'" by blast
  note et = kstat_eqD[OF t(1)]
  have len: "j < length (procs (upd_proc j (\<lambda>p. p\<lparr>pagetable := pt\<rparr>) t))"
    using j assms(2) by (simp add: et s4_def e3 s2_def)
  note F = freeproc_spec[OF t(2) len]
  have "procs s' = (procs s)[j := cleared (getp s j)]"
    using F(1) j assms(2) by (simp add: et s4_def e3 s2_def cleared_def)
  with F j show ?thesis by (auto simp: et s4_def e3 s2_def)
qed

section \<open>Wakeup, kill and reparent\<close>

definition woken :: "channel \<Rightarrow> nat option \<Rightarrow> nat \<Rightarrow> proc \<Rightarrow> proc" where
  "woken ch me i p =
     (if Some i \<noteq> me \<and> pstate p = SLEEPING \<and> chan p = ch then p\<lparr>pstate := RUNNABLE\<rparr> else p)"

lemma wakeup_fold:
  "(\<forall>i\<in>set is. i < length (procs s)) \<Longrightarrow>
   length (procs (fold (wakeup_one ch me) is s)) = length (procs s) \<and>
   (\<forall>j<length (procs s). getp (fold (wakeup_one ch me) is s) j =
      (if j \<in> set is then woken ch me j (getp s j) else getp s j)) \<and>
   kstat (fold (wakeup_one ch me) is s) = (procs (fold (wakeup_one ch me) is s), nextpid s, initproc s, cpus s, hart s)"
proof (induction "is" arbitrary: s)
  case Nil
  then show ?case by (simp add: kstat_def)
next
  case (Cons i "is")
  let ?s = "wakeup_one ch me i s"
  have l: "length (procs ?s) = length (procs s)" by (simp add: wakeup_one_def)
  have g: "getp ?s j = (if j = i then woken ch me j (getp s j) else getp s j)" if "j < length (procs s)" for j
    using that Cons.prems by (auto simp: wakeup_one_def woken_def nth_list_update)
  have k: "nextpid ?s = nextpid s" "initproc ?s = initproc s" "cpus ?s = cpus s" "hart ?s = hart s"
    by (simp_all add: wakeup_one_def)
  have w: "woken ch me j (woken ch me j p) = woken ch me j p" for j p by (simp add: woken_def)
  have "\<forall>i\<in>set is. i < length (procs ?s)" using Cons.prems l by simp
  from Cons.IH[OF this] g l k w show ?case by auto
qed

lemma wakeup_spec:
  assumes "length (procs s) = NPROC"
  shows "length (procs (wakeup ch s)) = NPROC"
    "j < NPROC \<Longrightarrow> getp (wakeup ch s) j = woken ch (myproc s) j (getp s j)"
    "nextpid (wakeup ch s) = nextpid s" "initproc (wakeup ch s) = initproc s" "cpus (wakeup ch s) = cpus s"
    "hart (wakeup ch s) = hart s" "myproc (wakeup ch s) = myproc s"
  using wakeup_fold[of "[0..<NPROC]" s ch "myproc s"] assms
  by (auto simp: wakeup_def kstat_def myproc_def mycpu_def cpuid_def)

text \<open>Reparenting changes parents and wakes \<open>init\<close>, if it is asleep waiting for a child.\<close>

definition rewoken :: "nat option \<Rightarrow> channel \<Rightarrow> nat \<Rightarrow> proc \<Rightarrow> proc \<Rightarrow> bool" where
  "rewoken me ch j p q \<longleftrightarrow> q = p\<lparr>parent := parent q\<rparr> \<or>
     Some j \<noteq> me \<and> pstate p = SLEEPING \<and> chan p = ch \<and> q = p\<lparr>parent := parent q, pstate := RUNNABLE\<rparr>"

lemma rewoken_trans: "rewoken me ch j p q \<Longrightarrow> rewoken me ch j q r \<Longrightarrow> rewoken me ch j p r"
  by (cases p; cases q; cases r) (auto simp: rewoken_def)

lemma reparent_one_spec:
  assumes "length (procs s) = NPROC" "i < NPROC"
  shows "length (procs (reparent_one p i s)) = NPROC"
    "j < NPROC \<Longrightarrow> parent (getp (reparent_one p i s) j) =
       (if j = i \<and> parent (getp s j) = Some p then initproc s else parent (getp s j))"
    "j < NPROC \<Longrightarrow> rewoken (myproc s) (chan_of (initproc s)) j (getp s j) (getp (reparent_one p i s) j)"
    "nextpid (reparent_one p i s) = nextpid s" "initproc (reparent_one p i s) = initproc s"
    "cpus (reparent_one p i s) = cpus s" "hart (reparent_one p i s) = hart s" "myproc (reparent_one p i s) = myproc s"
proof -
  let ?u = "upd_proc i (\<lambda>q. q\<lparr>parent := initproc s\<rparr>) s"
  have lu: "length (procs ?u) = NPROC" using assms by simp
  note W = wakeup_spec[OF lu, where ch = "chan_of (initproc s)"]
  show "length (procs (reparent_one p i s)) = NPROC" "nextpid (reparent_one p i s) = nextpid s"
    "initproc (reparent_one p i s) = initproc s" "cpus (reparent_one p i s) = cpus s"
    "hart (reparent_one p i s) = hart s" "myproc (reparent_one p i s) = myproc s"
    using W assms(1) by (simp_all add: reparent_one_def)
  assume j: "j < NPROC"
  show "parent (getp (reparent_one p i s) j) =
       (if j = i \<and> parent (getp s j) = Some p then initproc s else parent (getp s j))"
    "rewoken (myproc s) (chan_of (initproc s)) j (getp s j) (getp (reparent_one p i s) j)"
    using W(2)[OF j] assms j by (auto simp: reparent_one_def woken_def rewoken_def nth_list_update)
qed

lemma reparent_fold:
  assumes "length (procs s) = NPROC" "\<forall>i\<in>set is. i < NPROC" and t: "t = fold (reparent_one p) is s"
  shows "length (procs t) = NPROC \<and>
   (\<forall>j<NPROC. parent (getp t j) =
      (if j \<in> set is \<and> parent (getp s j) = Some p then initproc s else parent (getp s j))) \<and>
   (\<forall>j<NPROC. rewoken (myproc s) (chan_of (initproc s)) j (getp s j) (getp t j)) \<and>
   nextpid t = nextpid s \<and> initproc t = initproc s \<and> cpus t = cpus s \<and> hart t = hart s \<and> myproc t = myproc s"
  using assms
proof (induction "is" arbitrary: s)
  case Nil
  then show ?case by (simp add: rewoken_def)
next
  case (Cons i "is")
  have i: "i < NPROC" "\<forall>i\<in>set is. i < NPROC" using Cons.prems(2) by simp_all
  note R = reparent_one_spec[OF Cons.prems(1) i(1), where p = p]
  have IH: "length (procs t) = NPROC"
    "\<And>j. j < NPROC \<Longrightarrow> parent (getp t j) = (if j \<in> set is \<and> parent (getp (reparent_one p i s) j) = Some p
        then initproc s else parent (getp (reparent_one p i s) j))"
    "\<And>j. j < NPROC \<Longrightarrow> rewoken (myproc s) (chan_of (initproc s)) j (getp (reparent_one p i s) j) (getp t j)"
    "nextpid t = nextpid s" "initproc t = initproc s" "cpus t = cpus s" "hart t = hart s" "myproc t = myproc s"
    using Cons.IH[OF R(1) i(2)] Cons.prems(3) R(4-8) by simp_all
  have "rewoken (myproc s) (chan_of (initproc s)) j (getp s j) (getp t j)" if "j < NPROC" for j
    using R(3)[OF that] IH(3)[OF that] by (rule rewoken_trans)
  with IH R(2) show ?case by auto
qed

lemmas reparent_spec = reparent_fold[of _ "[0..<NPROC]" _ p for p, folded reparent_def, OF _ _ refl, simplified]

lemma kill_scan_spec:
  "kill_scan pd is s =
    (case find (\<lambda>i. pid (getp s i) = pd) is of None \<Rightarrow> (-1, s)
     | Some i \<Rightarrow> (0, upd_proc i (\<lambda>p. p\<lparr>killed := 1,
         pstate := (if pstate p = SLEEPING then RUNNABLE else pstate p)\<rparr>) s))"
  by (induction "is") auto

lemma nproc_fold:
  "fold (\<lambda>i num. if pstate (getp s i) \<noteq> UNUSED then num + 1 else num) is n =
     (n :: u64) + of_nat (length (filter (\<lambda>i. pstate (getp s i) \<noteq> UNUSED) is))"
  by (induction "is" arbitrary: n) (auto simp: add.assoc)

lemma nproc_count:
  "length (procs s) = NPROC \<Longrightarrow> nproc s = of_nat (length (filter (\<lambda>p. pstate p \<noteq> UNUSED) (procs s)))"
proof -
  assume l: "length (procs s) = NPROC"
  have "map (getp s) [0..<NPROC] = procs s" using l by (metis map_nth)
  then have "length (filter (\<lambda>p. pstate p \<noteq> UNUSED) (procs s)) =
      length (filter (\<lambda>i. pstate (getp s i) \<noteq> UNUSED) [0..<NPROC])"
    by (metis (mono_tags, lifting) comp_apply filter_cong filter_map length_map)
  then show ?thesis by (simp add: nproc_def nproc_fold)
qed

section \<open>Exit\<close>

text \<open>
  What the process code relies on from the file system calls: they change neither the process
  table (each acts on files and inodes) nor the state of the CPUs, and \<open>filedup\<close> and \<open>idup\<close> return their
  argument.
\<close>

definition fs_ops_ok :: "'a kernel_scheme fs_ops \<Rightarrow> bool" where
  "fs_ops_ok ops \<longleftrightarrow>
     (\<forall>f s f' s'. op_filedup ops f s = Inr (f', s') \<longrightarrow> kstat s' = kstat s \<and> f' = f) \<and>
     (\<forall>f s s'. op_fileclose ops f s = Inr s' \<longrightarrow> kstat s' = kstat s) \<and>
     (\<forall>f s f' s'. op_idup ops f s = Inr (f', s') \<longrightarrow> kstat s' = kstat s \<and> f' = f) \<and>
     (\<forall>f s s'. op_iput ops f s = Inr s' \<longrightarrow> kstat s' = kstat s)"

lemma exit_files_fold:
  assumes "fs_ops_ok ops" "fold_res (\<lambda>fd s. let f = ofile (getp s p) ! fd in
       if f \<noteq> 0 then bindR (op_fileclose ops f s) (\<lambda>s1.
         Inr (upd_proc p (\<lambda>q. q\<lparr>ofile := (ofile q)[fd := 0]\<rparr>) s1))
       else Inr s) fds s = Inr s'" "p < length (procs s)"
  shows "\<exists>fs. procs s' = (procs s)[p := (getp s p)\<lparr>ofile := fs\<rparr>] \<and> nextpid s' = nextpid s \<and>
    initproc s' = initproc s \<and> cpus s' = cpus s \<and> hart s' = hart s \<and> length fs = length (ofile (getp s p)) \<and>
    (\<forall>i<length fs. fs ! i = (if i \<in> set fds then 0 else ofile (getp s p) ! i))"
  using assms(2,3)
proof (induction fds arbitrary: s)
  case Nil
  then show ?case by (intro exI[of _ "ofile (getp s p)"]) simp
next
  case (Cons fd fds)
  let ?f = "ofile (getp s p) ! fd"
  show ?case
  proof (cases "?f = 0")
    case True
    with Cons.prems Cons.IH[of s] obtain fs where "procs s' = (procs s)[p := (getp s p)\<lparr>ofile := fs\<rparr>]"
      "nextpid s' = nextpid s" "initproc s' = initproc s" "cpus s' = cpus s" "hart s' = hart s"
      "length fs = length (ofile (getp s p))"
      "\<forall>i<length fs. fs ! i = (if i \<in> set fds then 0 else ofile (getp s p) ! i)" by auto
    with True show ?thesis by (intro exI[of _ fs]) auto
  next
    case False
    with Cons.prems(1) obtain s1 where c: "op_fileclose ops ?f s = Inr s1"
      and r: "fold_res (\<lambda>fd s. let f = ofile (getp s p) ! fd in
       if f \<noteq> 0 then bindR (op_fileclose ops f s) (\<lambda>s1.
         Inr (upd_proc p (\<lambda>q. q\<lparr>ofile := (ofile q)[fd := 0]\<rparr>) s1))
       else Inr s) fds (upd_proc p (\<lambda>q. q\<lparr>ofile := (ofile q)[fd := 0]\<rparr>) s1) = Inr s'"
      by (auto simp: Let_def bindR_Inr_iff)
    have "kstat s1 = kstat s" using assms(1) c by (auto simp: fs_ops_ok_def)
    note e = kstat_eqD[OF this]
    from Cons.IH[OF r] Cons.prems(2) obtain fs where
      "procs s' = (procs s)[p := (getp s p)\<lparr>ofile := fs\<rparr>]" "nextpid s' = nextpid s" "initproc s' = initproc s"
      "cpus s' = cpus s" "hart s' = hart s" "length fs = length (ofile (getp s p))"
      "\<forall>i<length fs. fs ! i = (if i \<in> set fds then 0 else (ofile (getp s p))[fd := 0] ! i)"
      by (auto simp: e)
    then show ?thesis by (intro exI[of _ fs]) (auto simp: nth_list_update)
  qed
qed

lemma sched_ok:
  "holding_plock c \<Longrightarrow> noff c = 1 \<Longrightarrow> \<not> intr_enabled c \<Longrightarrow> myproc s = Some i \<Longrightarrow> pstate (getp s i) \<noteq> RUNNING \<Longrightarrow>
     sched c s = Inr (s\<lparr>cpus := (cpus s)[mycpu s := None]\<rparr>)"
  by (simp add: sched_def the_proc_def)

lemma sched_Inr:
  assumes "sched c s = Inr s'"
  shows "\<exists>i. myproc s = Some i \<and> pstate (getp s i) \<noteq> RUNNING \<and> s' = s\<lparr>cpus := (cpus s)[hart s := None]\<rparr>"
  using assms by (auto simp: sched_def the_proc_def mycpu_def cpuid_def split: option.splits if_splits)

text \<open>The state in which \<open>exit\<close> wakes the parent: files closed, children handed to \<open>init\<close>.\<close>

lemma exit_shape:
  assumes ops: "fs_ops_ok ops" and len: "length (procs s) = NPROC" "length (ofile (getp s p)) = NOFILE"
    and p: "myproc s = Some p" "p < NPROC" and e: "exit ops c status s = Inr s'"
  obtains s4 where "initproc s \<noteq> Some p" "length (procs s4) = NPROC"
    "\<And>j. j < NPROC \<Longrightarrow> parent (getp s4 j) = (if parent (getp s j) = Some p then initproc s else parent (getp s j))"
    "\<And>j. j < NPROC \<Longrightarrow> rewoken (Some p) (chan_of (initproc s)) j
       (if j = p then (getp s p)\<lparr>ofile := replicate NOFILE 0, cwd := 0\<rparr> else getp s j) (getp s4 j)"
    "nextpid s4 = nextpid s" "initproc s4 = initproc s" "cpus s4 = cpus s" "hart s4 = hart s" "myproc s4 = Some p"
    "s' = (upd_proc p (\<lambda>q. q\<lparr>xstate := status, pstate := ZOMBIE\<rparr>)
       (wakeup (chan_of (parent (getp s4 p))) s4))\<lparr>cpus := (cpus s)[hart s := None]\<rparr>"
proof -
  from e p obtain s1 s2 where ni: "initproc s \<noteq> Some p" and f: "exit_files ops p s = Inr s1"
    and i: "op_iput ops (cwd (getp s1 p)) s1 = Inr s2"
    and sc: "sched c (upd_proc p (\<lambda>q. q\<lparr>xstate := status, pstate := ZOMBIE\<rparr>)
      (wakeup (chan_of (parent (getp (reparent p (upd_proc p (\<lambda>q. q\<lparr>cwd := 0\<rparr>) s2)) p)))
         (reparent p (upd_proc p (\<lambda>q. q\<lparr>cwd := 0\<rparr>) s2)))) = Inr s'"
    by (auto simp: exit_def the_proc_def bindR_Inr_iff Let_def split: if_splits)
  have pl: "p < length (procs s)" using len(1) p(2) by simp
  from exit_files_fold[OF ops f[unfolded exit_files_def] pl] obtain fs where
    F: "procs s1 = (procs s)[p := (getp s p)\<lparr>ofile := fs\<rparr>]" "nextpid s1 = nextpid s" "initproc s1 = initproc s"
      "cpus s1 = cpus s" "hart s1 = hart s" "length fs = length (ofile (getp s p))"
      "\<forall>i<length fs. fs ! i = (if i \<in> set [0..<NOFILE] then 0 else ofile (getp s p) ! i)" by blast
  have fs: "fs = replicate NOFILE 0" using F(6,7) len(2) by (intro nth_equalityI) auto
  have "kstat s2 = kstat s1" using ops i by (auto simp: fs_ops_ok_def)
  note e2 = kstat_eqD[OF this]
  define s3 where "s3 = upd_proc p (\<lambda>q. q\<lparr>cwd := 0\<rparr>) s2"
  define s4 where "s4 = reparent p s3"
  have l3: "length (procs s3) = NPROC" using len(1) by (simp add: s3_def e2 F)
  have g3: "getp s3 j = (if j = p then (getp s p)\<lparr>ofile := replicate NOFILE 0, cwd := 0\<rparr> else getp s j)"
    if "j < NPROC" for j
    using that len(1) p(2) by (auto simp: s3_def e2 F fs nth_list_update)
  have k3: "nextpid s3 = nextpid s" "initproc s3 = initproc s" "cpus s3 = cpus s" "hart s3 = hart s" "myproc s3 = Some p"
    using p(1) by (simp_all add: s3_def e2 F myproc_def mycpu_def cpuid_def)
  note R = reparent_spec[OF l3, of p, folded s4_def, unfolded k3]
  have l4: "length (procs s4) = NPROC" using R by simp
  note W = wakeup_spec[OF l4, where ch = "chan_of (parent (getp s4 p))"]
  from sched_Inr[OF sc[folded s3_def, folded s4_def]] W R
  have s': "s' = (upd_proc p (\<lambda>q. q\<lparr>xstate := status, pstate := ZOMBIE\<rparr>)
       (wakeup (chan_of (parent (getp s4 p))) s4))\<lparr>cpus := (cpus s)[hart s := None]\<rparr>" by auto
  show thesis
    by (rule that[of s4]) (use R ni l4 s' g3 in simp_all)
qed

text \<open>
  \<open>exit\<close> leaves a zombie with the given status, its files closed, its children with \<open>init\<close>, its
  parent woken, and the CPU without a process.
\<close>

lemma exit_spec:
  assumes ops: "fs_ops_ok ops" and len: "length (procs s) = NPROC" "length (ofile (getp s p)) = NOFILE"
    and p: "myproc s = Some p" "p < NPROC" and e: "exit ops c status s = Inr s'"
  shows "initproc s \<noteq> Some p \<and> pstate (getp s' p) = ZOMBIE \<and> xstate (getp s' p) = status \<and>
    ofile (getp s' p) = replicate NOFILE 0 \<and> cwd (getp s' p) = 0 \<and> pid (getp s' p) = pid (getp s p) \<and>
    length (procs s') = NPROC \<and> cpus s' = (cpus s)[hart s := None] \<and> hart s' = hart s \<and>
    nextpid s' = nextpid s \<and> initproc s' = initproc s \<and>
    (\<forall>j<NPROC. parent (getp s' j) = (if parent (getp s j) = Some p then initproc s else parent (getp s j))) \<and>
    (\<forall>j<NPROC. j \<noteq> p \<longrightarrow> pid (getp s' j) = pid (getp s j) \<and>
       (pstate (getp s' j) = pstate (getp s j) \<or> pstate (getp s j) = SLEEPING \<and> pstate (getp s' j) = RUNNABLE)) \<and>
    (\<forall>q<NPROC. q \<noteq> p \<longrightarrow> parent (getp s' p) = Some q \<longrightarrow> pstate (getp s q) = SLEEPING \<longrightarrow>
       chan (getp s q) = ChanProc q \<longrightarrow> pstate (getp s' q) = RUNNABLE)"
proof -
  from exit_shape[OF assms] obtain s4 where ni: "initproc s \<noteq> Some p" and l4: "length (procs s4) = NPROC"
    and par: "\<And>j. j < NPROC \<Longrightarrow> parent (getp s4 j) = (if parent (getp s j) = Some p then initproc s else parent (getp s j))"
    and rw: "\<And>j. j < NPROC \<Longrightarrow> rewoken (Some p) (chan_of (initproc s)) j
       (if j = p then (getp s p)\<lparr>ofile := replicate NOFILE 0, cwd := 0\<rparr> else getp s j) (getp s4 j)"
    and k4: "nextpid s4 = nextpid s" "initproc s4 = initproc s" "cpus s4 = cpus s" "hart s4 = hart s" "myproc s4 = Some p"
    and s': "s' = (upd_proc p (\<lambda>q. q\<lparr>xstate := status, pstate := ZOMBIE\<rparr>)
       (wakeup (chan_of (parent (getp s4 p))) s4))\<lparr>cpus := (cpus s)[hart s := None]\<rparr>" by blast
  note W = wakeup_spec[OF l4, where ch = "chan_of (parent (getp s4 p))"]
  have P: "getp s' p = (getp s4 p)\<lparr>xstate := status, pstate := ZOMBIE\<rparr>"
    using W(1) W(2)[OF p(2)] p(2) k4 by (simp add: s' woken_def)
  have J: "getp s' j = woken (chan_of (parent (getp s4 p))) (Some p) j (getp s4 j)" if "j < NPROC" "j \<noteq> p" for j
    using W(2)[OF that(1)] that k4 by (simp add: s')
  have P4: "getp s4 p = (getp s p)\<lparr>ofile := replicate NOFILE 0, cwd := 0, parent := parent (getp s4 p)\<rparr>"
    using rw[OF p(2)] by (simp add: rewoken_def)
  have J4: "rewoken (Some p) (chan_of (initproc s)) j (getp s j) (getp s4 j)" if "j < NPROC" "j \<noteq> p" for j
    using rw[OF that(1)] that(2) by simp
  have others: "pid (getp s' j) = pid (getp s j) \<and> parent (getp s' j) = parent (getp s4 j) \<and>
      (pstate (getp s' j) = pstate (getp s j) \<or> pstate (getp s j) = SLEEPING \<and> pstate (getp s' j) = RUNNABLE)"
    if "j < NPROC" "j \<noteq> p" for j
    using J[OF that] J4[OF that] by (cases "getp s j"; cases "getp s4 j") (auto simp: woken_def rewoken_def)
  have wk: "pstate (getp s' q) = RUNNABLE"
    if "q < NPROC" "q \<noteq> p" "parent (getp s' p) = Some q" "pstate (getp s q) = SLEEPING" "chan (getp s q) = ChanProc q" for q
    using J[OF that(1,2)] J4[OF that(1,2)] that(2-5) P
    by (cases "getp s q"; cases "getp s4 q") (auto simp: woken_def rewoken_def chan_of_def)
  have "parent (getp s' j) = (if parent (getp s j) = Some p then initproc s else parent (getp s j))"
    if "j < NPROC" for j
    using others[OF that] par[OF that] P by (cases "j = p") simp_all
  moreover have "pid (getp s' p) = pid (getp s p)" "ofile (getp s' p) = replicate NOFILE 0" "cwd (getp s' p) = 0"
    "pstate (getp s' p) = ZOMBIE" "xstate (getp s' p) = status"
    by (subst P, subst P4, simp)+
  moreover have "length (procs s') = NPROC" "cpus s' = (cpus s)[hart s := None]" "hart s' = hart s"
    "nextpid s' = nextpid s" "initproc s' = initproc s"
    using W(1,3-6) k4 by (simp_all add: s')
  ultimately show ?thesis using ni others wk by blast
qed

text \<open>With file system calls that return, \<open>exit\<close> reaches the scheduler.\<close>

lemma exit_files_returns:
  assumes "\<And>f t. \<exists>t'. op_fileclose ops f t = Inr t'"
  shows "\<exists>s'. fold_res (\<lambda>fd s. let f = ofile (getp s p) ! fd in
       if f \<noteq> 0 then bindR (op_fileclose ops f s) (\<lambda>s1.
         Inr (upd_proc p (\<lambda>q. q\<lparr>ofile := (ofile q)[fd := 0]\<rparr>) s1))
       else Inr s) fds s = Inr s'"
proof (induction fds arbitrary: s)
  case (Cons fd fds)
  obtain t where "op_fileclose ops (ofile (getp s p) ! fd) s = Inr t" using assms by blast
  with Cons.IH show ?case by (simp add: Let_def)
qed simp

lemma exit_returns:
  assumes ops: "fs_ops_ok ops" and len: "length (procs s) = NPROC" "length (ofile (getp s p)) = NOFILE"
    and p: "myproc s = Some p" "p < NPROC" "initproc s \<noteq> Some p"
    and c: "holding_plock c" "noff c = 1" "\<not> intr_enabled c"
    and ret: "\<And>f t. \<exists>t'. op_fileclose ops f t = Inr t'" "\<And>f t. \<exists>t'. op_iput ops f t = Inr t'"
  shows "\<exists>s'. exit ops c status s = Inr s'"
proof -
  obtain s1 where f: "exit_files ops p s = Inr s1"
    using exit_files_returns[OF ret(1), of p "[0..<NOFILE]" s] unfolding exit_files_def by blast
  obtain s2 where i: "op_iput ops (cwd (getp s1 p)) s1 = Inr s2" using ret(2) by blast
  have pl: "p < length (procs s)" using len(1) p(2) by simp
  from exit_files_fold[OF ops f[unfolded exit_files_def] pl]
  have F: "length (procs s1) = NPROC" "cpus s1 = cpus s" "hart s1 = hart s" using len(1) by auto
  have "kstat s2 = kstat s1" using ops i by (auto simp: fs_ops_ok_def)
  note e2 = kstat_eqD[OF this]
  define s3 where "s3 = upd_proc p (\<lambda>q. q\<lparr>cwd := 0\<rparr>) s2"
  have l3: "length (procs s3) = NPROC" and my3: "myproc s3 = Some p"
    using p(1) F by (simp_all add: s3_def e2 myproc_def mycpu_def cpuid_def)
  note R = reparent_spec[OF l3, of p]
  define s4 where "s4 = reparent p s3"
  define s5 where "s5 = wakeup (chan_of (parent (getp s4 p))) s4"
  have l4: "length (procs s4) = NPROC" "myproc s4 = Some p" using R my3 by (simp_all add: s4_def)
  note W = wakeup_spec[OF l4(1), where ch = "chan_of (parent (getp s4 p))", folded s5_def]
  have "\<exists>s'. sched c (upd_proc p (\<lambda>q. q\<lparr>xstate := status, pstate := ZOMBIE\<rparr>) s5) = Inr s'"
    using sched_ok[OF c, of "upd_proc p (\<lambda>q. q\<lparr>xstate := status, pstate := ZOMBIE\<rparr>) s5" p] W l4 p(2)
    by simp
  then show ?thesis
    using p f i by (simp add: exit_def the_proc_def s3_def s4_def s5_def Let_def)
qed

section \<open>Wait\<close>

lemma wait_scan_none:
  "find (\<lambda>i. parent (getp s i) = Some p \<and> pstate (getp s i) = ZOMBIE) is = None \<Longrightarrow>
   wait_scan p addr is hk s = Inr ((None, hk \<or> (\<exists>i\<in>set is. parent (getp s i) = Some p)), s)"
  by (induction "is" arbitrary: hk) (auto split: if_splits)

lemma wait_scan_zombie:
  assumes "find (\<lambda>i. parent (getp s i) = Some p \<and> pstate (getp s i) = ZOMBIE) is = Some i"
    "wait_scan p addr is hk s = Inr ((r, hk'), s')" "i < length (procs s)"
  shows "(r = Some (pid (getp s i)) \<and> procs s' = (procs s)[i := cleared (getp s i)] \<or>
    addr \<noteq> 0 \<and> r = Some (-1) \<and> procs s' = procs s) \<and> cpus s' = cpus s \<and> hart s' = hart s"
  using assms
proof (induction "is" arbitrary: hk)
  case (Cons j "is")
  show ?case
  proof (cases "parent (getp s j) = Some p \<and> pstate (getp s j) = ZOMBIE")
    case False
    with Cons show ?thesis by (auto split: if_splits)
  next
    case True
    then have ij: "i = j" using Cons.prems(1) by simp
    let ?co = "if addr \<noteq> 0 then copyout kalloc (pagetable (getp s p)) addr
        (map (\<lambda>k. ucast (drop_bit (8 * k) (word_of_int (xstate (getp s j)) :: u32))) [0..<4]) s else Inr (0, s)"
    from Cons.prems(2) True obtain c s1 where co: "?co = Inr (c, s1)"
      by (auto simp: bindR_Inr_iff Let_def)
    have "kstat s1 = kstat s" using co by (auto split: if_splits dest: kf.g_copyout)
    note e = kstat_eqD[OF this]
    have r: "(if addr \<noteq> 0 \<and> c < 0 then Inr ((Some (-1), True), s1)
            else bindR (freeproc j s1) (\<lambda>s2. Inr ((Some (pid (getp s j)), True), s2))) = Inr ((r, hk'), s')"
      using Cons.prems(2) True co by (simp add: Let_def)
    show ?thesis
    proof (cases "addr \<noteq> 0 \<and> c < 0")
      case t: True
      with r e show ?thesis by simp
    next
      case f: False
      with r obtain s2 where "freeproc j s1 = Inr s2" "r = Some (pid (getp s j))" "s' = s2"
        by (auto simp: bindR_Inr_iff split: if_splits)
      with freeproc_spec[of j s1 s2] Cons.prems(3) ij e show ?thesis by simp
    qed
  qed
qed simp

section \<open>Fork\<close>

definition fork_ofile :: "u64 list \<Rightarrow> u64 list \<Rightarrow> nat list \<Rightarrow> u64 list \<Rightarrow> bool" where
  "fork_ofile pf cf is fs \<longleftrightarrow> length fs = length cf \<and>
     (\<forall>i<length fs. fs ! i = (if i \<in> set is \<and> pf ! i \<noteq> 0 then pf ! i else cf ! i))"

lemma fork_files_fold:
  assumes "fs_ops_ok ops" "p \<noteq> np" "fold_res (\<lambda>i s. let f = ofile (getp s p) ! i in
       if f \<noteq> 0 then bindR (op_filedup ops f s) (\<lambda>(f', s1).
         Inr (upd_proc np (\<lambda>q. q\<lparr>ofile := (ofile q)[i := f']\<rparr>) s1))
       else Inr s) is s = Inr s'" "np < length (procs s)"
  shows "\<exists>fs. fork_ofile (ofile (getp s p)) (ofile (getp s np)) is fs \<and>
    procs s' = (procs s)[np := (getp s np)\<lparr>ofile := fs\<rparr>] \<and> nextpid s' = nextpid s \<and>
    initproc s' = initproc s \<and> cpus s' = cpus s \<and> hart s' = hart s"
  using assms(3,4)
proof (induction "is" arbitrary: s)
  case Nil
  then show ?case by (intro exI[of _ "ofile (getp s np)"]) (simp add: fork_ofile_def)
next
  case (Cons i "is")
  let ?f = "ofile (getp s p) ! i"
  show ?case
  proof (cases "?f = 0")
    case True
    with Cons.prems Cons.IH[of s] obtain fs where
      "fork_ofile (ofile (getp s p)) (ofile (getp s np)) is fs" "procs s' = (procs s)[np := (getp s np)\<lparr>ofile := fs\<rparr>]"
      "nextpid s' = nextpid s" "initproc s' = initproc s" "cpus s' = cpus s" "hart s' = hart s" by auto
    with True show ?thesis by (intro exI[of _ fs]) (auto simp: fork_ofile_def)
  next
    case False
    with Cons.prems(1) obtain f' s1 where c: "op_filedup ops ?f s = Inr (f', s1)"
      and r: "fold_res (\<lambda>i s. let f = ofile (getp s p) ! i in
       if f \<noteq> 0 then bindR (op_filedup ops f s) (\<lambda>(f', s1).
         Inr (upd_proc np (\<lambda>q. q\<lparr>ofile := (ofile q)[i := f']\<rparr>) s1))
       else Inr s) is (upd_proc np (\<lambda>q. q\<lparr>ofile := (ofile q)[i := f']\<rparr>) s1) = Inr s'"
      by (auto simp: Let_def bindR_Inr_iff)
    have k: "kstat s1 = kstat s" "f' = ?f" using assms(1) c by (auto simp: fs_ops_ok_def)
    note e = kstat_eqD[OF k(1)]
    from Cons.IH[OF r] Cons.prems(2) assms(2) obtain fs where
      "fork_ofile (ofile (getp s p)) ((ofile (getp s np))[i := ?f]) is fs"
      "procs s' = (procs s)[np := (getp s np)\<lparr>ofile := fs\<rparr>]"
      "nextpid s' = nextpid s" "initproc s' = initproc s" "cpus s' = cpus s" "hart s' = hart s"
      by (auto simp: e k(2))
    with False show ?thesis
      by (intro exI[of _ fs]) (auto simp: fork_ofile_def nth_list_update, metis nth_list_update_neq)
  qed
qed

text \<open>
  A child that \<open>fork\<close> has made: it sits in a slot that was free, runs a copy of the parent, and the
  rest of the table is as it was.
\<close>

definition forked :: "nat \<Rightarrow> nat \<Rightarrow> 'a kernel_scheme \<Rightarrow> 'a kernel_scheme \<Rightarrow> bool" where
  "forked p np s s' \<longleftrightarrow> np < NPROC \<and> np \<noteq> p \<and> pstate (getp s np) = UNUSED \<and>
     (\<exists>child. procs s' = (procs s)[np := child] \<and> pstate child = RUNNABLE \<and> pid child = nextpid s \<and>
        parent child = Some p \<and> psz child = psz (getp s p) \<and> trace_mask child = trace_mask (getp s p) \<and>
        cwd child = cwd (getp s p) \<and> killed child = killed (getp s np) \<and> chan child = chan (getp s np) \<and>
        fork_ofile (ofile (getp s p)) (ofile (getp s np)) [0..<NOFILE] (ofile child)) \<and>
     nextpid s' = c_int (nextpid s + 1) \<and> initproc s' = initproc s \<and> cpus s' = cpus s \<and> hart s' = hart s"

lemma fork_spec:
  assumes ops: "fs_ops_ok ops" and len: "length (procs s) = NPROC"
    and p: "myproc s = Some p" "p < NPROC" "pstate (getp s p) \<noteq> UNUSED"
    and f: "fork ops s = Inr (r, s')"
  shows "r = nextpid s \<and> (\<exists>np. forked p np s s') \<or>
    r = -1 \<and> initproc s' = initproc s \<and> cpus s' = cpus s \<and> hart s' = hart s \<and>
    (procs s' = procs s \<or> (\<exists>i<NPROC. \<exists>q. pstate (getp s i) = UNUSED \<and> pstate q = UNUSED \<and>
       ofile q = ofile (getp s i) \<and> procs s' = (procs s)[i := q]))"
proof -
  from f p obtain o1 s1 where a: "allocproc s = Inr (o1, s1)"
    by (auto simp: fork_def the_proc_def bindR_Inr_iff)
  show ?thesis
  proof (cases o1)
    case None
    with f p a have s1: "r = -1" "s' = s1" by (auto simp: fork_def the_proc_def)
    have "pstate (cleared q) = UNUSED \<and> ofile (cleared q) = ofile q" for q by (simp add: cleared_def)
    with allocproc_None[OF a[unfolded None] len] s1 show ?thesis by blast
  next
    case (Some np)
    from allocproc_Some[OF a[unfolded Some] len] obtain tf pt ra where
      A: "np < NPROC" "pstate (getp s np) = UNUSED" "nextpid s1 = c_int (nextpid s + 1)" "initproc s1 = initproc s"
        "cpus s1 = cpus s" "hart s1 = hart s"
      and ps1: "procs s1 = (procs s)[np := (getp s np)\<lparr>pid := nextpid s, pstate := USED, trapframe := tf,
        pagetable := pt, context_ra := ra, context_sp := kstack (getp s np) + PGSIZE\<rparr>]" by blast
    have ne: "np \<noteq> p" using A(2) p(3) by auto
    from f p a Some obtain c s2 where u: "uvmcopy kalloc kfree (pagetable (getp s1 p)) (pagetable (getp s1 np))
        (psz (getp s1 p)) s1 = Inr (c, s2)"
      by (auto simp: fork_def the_proc_def bindR_Inr_iff)
    note e2 = kstat_eqD[OF kf.g_uvmcopy[OF u]]
    show ?thesis
    proof (cases "c < 0")
      case True
      with f p a Some u obtain s3 where "freeproc np s2 = Inr s3" "r = -1" "s' = s3"
        by (auto simp: fork_def the_proc_def bindR_Inr_iff)
      then show ?thesis using freeproc_spec[of np s2 s3] A ps1 len e2
        by (intro disjI2 conjI) (simp_all, intro exI[of _ np] conjI exI[of _ "cleared (getp s1 np)"],
            simp_all add: cleared_def)
    next
      case False
      define s5 where "s5 = (let s3 = upd_proc np (\<lambda>q. q\<lparr>psz := psz (getp s2 p)\<rparr>) s2;
                 s4 = s3\<lparr>mem := memmove (mem s3) (trapframe (getp s3 np)) (trapframe (getp s3 p)) sizeof_trapframe\<rparr>
             in s4\<lparr>mem := store64 (mem s4) (trapframe (getp s4 np) + TF_a0) 0\<rparr>)"
      from False f p a Some u obtain s6 ip s7 where ff: "fork_files ops p np s5 = Inr s6"
        and id: "op_idup ops (cwd (getp s6 p)) s6 = Inr (ip, s7)"
        and r: "r = pid (getp (upd_proc np (\<lambda>q. q\<lparr>cwd := ip, trace_mask := trace_mask (getp s7 p),
                       pname := safestrcpy (pname (getp s7 p)) 16\<rparr>) s7) np)"
        and s': "s' = upd_proc np (\<lambda>q. q\<lparr>pstate := RUNNABLE\<rparr>) (upd_proc np (\<lambda>q. q\<lparr>parent := Some p\<rparr>)
           (upd_proc np (\<lambda>q. q\<lparr>cwd := ip, trace_mask := trace_mask (getp s7 p),
                       pname := safestrcpy (pname (getp s7 p)) 16\<rparr>) s7))"
        by (auto simp: fork_def the_proc_def bindR_Inr_iff Let_def s5_def)
      have p5: "procs s5 = (procs s1)[np := (getp s1 np)\<lparr>psz := psz (getp s1 p)\<rparr>]"
        and k5: "nextpid s5 = nextpid s1" "initproc s5 = initproc s1" "cpus s5 = cpus s1" "hart s5 = hart s1"
        by (simp_all add: s5_def Let_def e2)
      have "np < length (procs s5)" using A(1) len by (simp add: p5 ps1)
      from fork_files_fold[OF ops ne[symmetric] ff[unfolded fork_files_def] this] obtain fs where
        F: "fork_ofile (ofile (getp s5 p)) (ofile (getp s5 np)) [0..<NOFILE] fs"
          "procs s6 = (procs s5)[np := (getp s5 np)\<lparr>ofile := fs\<rparr>]" "nextpid s6 = nextpid s5"
          "initproc s6 = initproc s5" "cpus s6 = cpus s5" "hart s6 = hart s5" by blast
      have k: "kstat s7 = kstat s6" "ip = cwd (getp s6 p)" using ops id by (auto simp: fs_ops_ok_def)
      note e7 = kstat_eqD[OF k(1)]
      have "r = nextpid s" using A(1) len by (simp add: r e7 F p5 ps1)
      moreover have "forked p np s s'"
        using A ne F(1) len p(2) unfolding forked_def
        by (simp add: s' e7 F p5 ps1 k5 k(2)) (rule exI, rule conjI[OF refl], simp)
      ultimately show ?thesis by blast
    qed
  qed
qed

section \<open>Scheduling as a step relation\<close>

text \<open>
  One atomic step of the kernel on some CPU. Any CPU may take the next step; \<open>switch\<close> moves the
  attention from one CPU to another.
\<close>

inductive kstep :: "'a kernel_scheme fs_ops \<Rightarrow> 'a kernel_scheme \<Rightarrow> 'a kernel_scheme \<Rightarrow> bool" for ops where
  switch: "h < length (cpus s) \<Longrightarrow> kstep ops s (s\<lparr>hart := h\<rparr>)"
| schedule: "myproc s = None \<Longrightarrow> i < NPROC \<Longrightarrow> kstep ops s (scheduler_visit i s)"
| yield: "yield c s = Inr s' \<Longrightarrow> kstep ops s s'"
| sleep: "sleep c ch s = Inr s' \<Longrightarrow> kstep ops s s'"
| resume: "sleep_resume s = Inr s' \<Longrightarrow> kstep ops s s'"
| wakeup: "kstep ops s (wakeup ch s)"
| kill: "kill pd s = (r, s') \<Longrightarrow> kstep ops s s'"
| fork: "fork ops s = Inr (r, s') \<Longrightarrow> kstep ops s s'"
| exit: "exit ops c status s = Inr s' \<Longrightarrow> kstep ops s s'"
| wait: "wait_round addr s = Inr (w, s') \<Longrightarrow> kstep ops s s'"

definition run_inv :: "nat option list \<Rightarrow> (nat \<Rightarrow> bool) \<Rightarrow> bool" where
  "run_inv cs R \<longleftrightarrow> (\<forall>h<length cs. \<forall>i. cs ! h = Some i \<longrightarrow> R i) \<and>
     (\<forall>i. R i \<longrightarrow> (\<exists>h<length cs. cs ! h = Some i)) \<and>
     (\<forall>h<length cs. \<forall>k<length cs. \<forall>i. cs ! h = Some i \<longrightarrow> cs ! k = Some i \<longrightarrow> h = k)"

lemma run_invD:
  assumes "run_inv cs R"
  shows "h < length cs \<Longrightarrow> cs ! h = Some i \<Longrightarrow> R i" "R i \<Longrightarrow> \<exists>h<length cs. cs ! h = Some i"
    "h < length cs \<Longrightarrow> k < length cs \<Longrightarrow> cs ! h = Some i \<Longrightarrow> cs ! k = Some i \<Longrightarrow> h = k"
  using assms unfolding run_inv_def by blast+

lemma run_inv_clear:
  assumes r: "run_inv cs R" and h: "h < length cs" "cs ! h = Some p"
  shows "run_inv (cs[h := None]) (\<lambda>i. R i \<and> i \<noteq> p)"
  unfolding run_inv_def length_list_update
proof (intro conjI allI impI)
  fix k i assume k: "k < length cs" "cs[h := None] ! k = Some i"
  then have k': "k \<noteq> h" "cs ! k = Some i" using h by (auto simp: nth_list_update split: if_splits)
  then show "R i" using run_invD(1)[OF r k(1)] by blast
  show "i \<noteq> p" using run_invD(3)[OF r k(1) h(1) k'(2)] h(2) k'(1) by auto
next
  fix i assume i: "R i \<and> i \<noteq> p"
  then obtain k where k: "k < length cs" "cs ! k = Some i" using run_invD(2)[OF r] by blast
  then have "k \<noteq> h" using i h by auto
  with k show "\<exists>k<length cs. cs[h := None] ! k = Some i" by (intro exI[of _ k]) simp
next
  fix k l i assume "k < length cs" "l < length cs" "cs[h := None] ! k = Some i" "cs[h := None] ! l = Some i"
  then show "k = l" using run_invD(3)[OF r, of k l i] h(1) by (auto simp: nth_list_update split: if_splits)
qed

lemma run_inv_set:
  assumes r: "run_inv cs R" and h: "h < length cs" "cs ! h = None" and j: "\<not> R j"
  shows "run_inv (cs[h := Some j]) (\<lambda>i. R i \<or> i = j)"
  unfolding run_inv_def length_list_update
proof (intro conjI allI impI)
  fix k i assume "k < length cs" "cs[h := Some j] ! k = Some i"
  then show "R i \<or> i = j" using run_invD(1)[OF r, of k i] h(1) by (auto simp: nth_list_update split: if_splits)
next
  fix i assume i: "R i \<or> i = j"
  show "\<exists>k<length cs. cs[h := Some j] ! k = Some i"
  proof (cases "i = j")
    case True
    with h show ?thesis by (intro exI[of _ h]) simp
  next
    case False
    with i obtain k where k: "k < length cs" "cs ! k = Some i" using run_invD(2)[OF r] by blast
    then have "k \<noteq> h" using h by auto
    with k show ?thesis by (intro exI[of _ k]) simp
  qed
next
  fix k l i assume a: "k < length cs" "l < length cs" "cs[h := Some j] ! k = Some i" "cs[h := Some j] ! l = Some i"
  have "cs ! m \<noteq> Some j" if "m < length cs" for m using run_invD(1)[OF r that] j by blast
  with a show "k = l" using run_invD(3)[OF r, of k l i] h(1) by (auto simp: nth_list_update split: if_splits)
qed

definition running :: "'a kernel_scheme \<Rightarrow> nat \<Rightarrow> bool" where
  "running s i \<longleftrightarrow> i < NPROC \<and> pstate (getp s i) = RUNNING"

definition sched_inv :: "'a kernel_scheme \<Rightarrow> bool" where
  "sched_inv s \<longleftrightarrow> length (procs s) = NPROC \<and> (\<forall>i<NPROC. length (ofile (getp s i)) = NOFILE) \<and>
     hart s < length (cpus s) \<and> run_inv (cpus s) (running s)"

lemma sched_invD:
  assumes "sched_inv s"
  shows "length (procs s) = NPROC" "\<And>i. i < NPROC \<Longrightarrow> length (ofile (getp s i)) = NOFILE"
    "hart s < length (cpus s)" "run_inv (cpus s) (running s)"
  using assms by (simp_all add: sched_inv_def)

lemma sched_inv_myproc:
  assumes "sched_inv s" "myproc s = Some p"
  shows "p < NPROC" "pstate (getp s p) = RUNNING" "cpus s ! hart s = Some p"
proof -
  show c: "cpus s ! hart s = Some p" using assms(2) by (simp add: myproc_def mycpu_def cpuid_def)
  then have "running s p" using sched_invD(3,4)[OF assms(1)] by (auto simp: run_inv_def)
  then show "p < NPROC" "pstate (getp s p) = RUNNING" by (simp_all add: running_def)
qed

text \<open>Three ways in which a step can touch what runs: not at all, one process stops, one starts.\<close>

lemma sched_inv_quiet:
  assumes "sched_inv s" "length (procs s') = NPROC" "cpus s' = cpus s" "hart s' = hart s"
    "\<And>i. i < NPROC \<Longrightarrow> (pstate (getp s' i) = RUNNING) = (pstate (getp s i) = RUNNING)"
    "\<And>i. i < NPROC \<Longrightarrow> length (ofile (getp s' i)) = NOFILE"
  shows "sched_inv s'"
proof -
  have "running s' = running s" using assms(5) by (auto simp: running_def fun_eq_iff)
  with assms show ?thesis by (simp add: sched_inv_def)
qed

lemma sched_inv_stop:
  assumes "sched_inv s" "myproc s = Some p" "length (procs s') = NPROC" "cpus s' = (cpus s)[hart s := None]" "hart s' = hart s"
    "pstate (getp s' p) \<noteq> RUNNING"
    "\<And>i. i < NPROC \<Longrightarrow> i \<noteq> p \<Longrightarrow> (pstate (getp s' i) = RUNNING) = (pstate (getp s i) = RUNNING)"
    "\<And>i. i < NPROC \<Longrightarrow> length (ofile (getp s' i)) = NOFILE"
  shows "sched_inv s'"
proof -
  note my = sched_inv_myproc[OF assms(1,2)] and d = sched_invD[OF assms(1)]
  have "running s' = (\<lambda>i. running s i \<and> i \<noteq> p)" using assms(6,7) by (auto simp: running_def fun_eq_iff)
  with run_inv_clear[OF d(4,3) my(3)] assms d(3) show ?thesis by (simp add: sched_inv_def)
qed

lemma sched_inv_schedule:
  assumes "sched_inv s" "myproc s = None" "i < NPROC"
  shows "sched_inv (scheduler_visit i s)"
proof (cases "pstate (getp s i) = RUNNABLE")
  case True
  note d = sched_invD[OF assms(1)]
  have h: "cpus s ! hart s = None" using assms(2) by (simp add: myproc_def mycpu_def cpuid_def)
  have n: "\<not> running s i" using True by (simp add: running_def)
  have "running (scheduler_visit i s) = (\<lambda>k. running s k \<or> k = i)"
    using True assms(3) d(1) by (auto simp: scheduler_visit_def running_def fun_eq_iff nth_list_update)
  with run_inv_set[OF d(4,3) h n] d True assms(3) show ?thesis
    by (auto simp: scheduler_visit_def sched_inv_def mycpu_def cpuid_def nth_list_update)
qed (use assms in \<open>simp add: scheduler_visit_def\<close>)

lemma sched_inv_wakeup: "sched_inv s \<Longrightarrow> sched_inv (wakeup ch s)"
proof (rule sched_inv_quiet)
  assume s: "sched_inv s"
  note W = wakeup_spec[OF sched_invD(1)[OF s], where ch = ch]
  show "length (procs (wakeup ch s)) = NPROC" "cpus (wakeup ch s) = cpus s" "hart (wakeup ch s) = hart s"
    by (rule W)+
  fix i assume "i < NPROC"
  then show "(pstate (getp (wakeup ch s) i) = RUNNING) = (pstate (getp s i) = RUNNING)"
    "length (ofile (getp (wakeup ch s) i)) = NOFILE"
    using W(2) sched_invD(2)[OF s] by (auto simp: woken_def)
qed

lemma sched_inv_upd:
  assumes "sched_inv s" "i < NPROC" "(pstate q = RUNNING) = (pstate (getp s i) = RUNNING)" "length (ofile q) = NOFILE"
    "procs s' = (procs s)[i := q]" "cpus s' = cpus s" "hart s' = hart s"
  shows "sched_inv s'"
  using assms sched_invD[OF assms(1)]
  by (intro sched_inv_quiet[OF assms(1)]) (auto simp: nth_list_update)

lemma sched_inv_kill:
  assumes "sched_inv s" "kill pd s = (r, s')"
  shows "sched_inv s'"
proof (cases "find (\<lambda>i. pid (getp s i) = pd) [0..<NPROC]")
  case None
  with assms show ?thesis by (simp add: kill_def kill_scan_spec)
next
  case (Some i)
  with assms(2) have s': "s' = upd_proc i (\<lambda>p. p\<lparr>killed := 1,
      pstate := (if pstate p = SLEEPING then RUNNABLE else pstate p)\<rparr>) s"
    by (simp add: kill_def kill_scan_spec)
  have "i < NPROC" using find_Some_upt[OF Some] by simp
  then show ?thesis
    by (rule sched_inv_upd[OF assms(1), where q = "(getp s i)\<lparr>killed := 1,
        pstate := (if pstate (getp s i) = SLEEPING then RUNNABLE else pstate (getp s i))\<rparr>"])
       (simp_all add: s' sched_invD(2)[OF assms(1) \<open>i < NPROC\<close>])
qed

lemma sched_inv_off:
  assumes "sched_inv s" "myproc s = Some p" "sched c (upd_proc p f s) = Inr s'" "pstate (f (getp s p)) \<noteq> RUNNING"
    "ofile (f (getp s p)) = ofile (getp s p)"
  shows "sched_inv s'"
proof -
  note my = sched_inv_myproc[OF assms(1,2)] and d = sched_invD[OF assms(1)]
  have s': "s' = (upd_proc p f s)\<lparr>cpus := (cpus s)[hart s := None]\<rparr>"
    using sched_Inr[OF assms(3)] by auto
  show ?thesis
    by (rule sched_inv_stop[OF assms(1,2)]) (use d my(1) assms(4,5) in \<open>auto simp: s' nth_list_update\<close>)
qed

lemma sched_inv_wait:
  assumes "sched_inv s" "wait_round addr s = Inr (w, s')"
  shows "sched_inv s'"
proof -
  note d = sched_invD[OF assms(1)]
  from assms(2) obtain p r hk where p: "myproc s = Some p" and w: "wait_scan p addr [0..<NPROC] False s = Inr ((r, hk), s')"
    by (auto simp: wait_round_def the_proc_def bindR_Inr_iff split: option.splits if_splits)
  show ?thesis
  proof (cases "find (\<lambda>i. parent (getp s i) = Some p \<and> pstate (getp s i) = ZOMBIE) [0..<NPROC]")
    case None
    with wait_scan_none[OF None, of addr False] w assms(1) show ?thesis by simp
  next
    case (Some i)
    have i: "i < NPROC" "pstate (getp s i) = ZOMBIE" using find_Some_upt[OF Some] by simp_all
    from wait_scan_zombie[OF Some w] i(1) d(1)
    have c: "cpus s' = cpus s" "hart s' = hart s"
      and "procs s' = (procs s)[i := cleared (getp s i)] \<or> procs s' = (procs s)[i := getp s i]" by auto
    then show ?thesis
      using sched_inv_upd[OF assms(1) i(1), of "cleared (getp s i)" s']
        sched_inv_upd[OF assms(1) i(1), of "getp s i" s'] i d(2) c by (auto simp: cleared_def)
  qed
qed

lemma sched_inv_fork:
  assumes "fs_ops_ok ops" "sched_inv s" "fork ops s = Inr (r, s')"
  shows "sched_inv s'"
proof -
  note d = sched_invD[OF assms(2)]
  from assms(3) obtain p where p: "myproc s = Some p"
    by (auto simp: fork_def the_proc_def split: option.splits)
  note my = sched_inv_myproc[OF assms(2) p]
  have nu: "pstate (getp s p) \<noteq> UNUSED" using my(2) by simp
  from fork_spec[OF assms(1) d(1) p my(1) nu assms(3)] show ?thesis
  proof (elim disjE conjE exE)
    fix np assume "forked p np s s'"
    then obtain child where f: "np < NPROC" "pstate (getp s np) = UNUSED" "procs s' = (procs s)[np := child]"
      "pstate child = RUNNABLE" "cpus s' = cpus s" "hart s' = hart s"
      "fork_ofile (ofile (getp s p)) (ofile (getp s np)) [0..<NOFILE] (ofile child)"
      by (auto simp: forked_def)
    then show ?thesis using d(2) by (intro sched_inv_upd[OF assms(2) f(1) _ _ f(3)]) (simp_all add: fork_ofile_def)
  next
    assume "cpus s' = cpus s" "hart s' = hart s" "procs s' = procs s"
    then show ?thesis using d by (intro sched_inv_quiet[OF assms(2)]) simp_all
  next
    fix i q assume i: "i < NPROC" and q: "procs s' = (procs s)[i := q]" and
      e: "cpus s' = cpus s" "hart s' = hart s" "pstate (getp s i) = UNUSED" "pstate q = UNUSED"
        "ofile q = ofile (getp s i)"
    show ?thesis using d(2)[OF i] e by (intro sched_inv_upd[OF assms(2) i _ _ q]) simp_all
  qed
qed

lemma sched_inv_exit:
  assumes "fs_ops_ok ops" "sched_inv s" "exit ops c status s = Inr s'"
  shows "sched_inv s'"
proof -
  note d = sched_invD[OF assms(2)]
  from assms(3) obtain p where p: "myproc s = Some p"
    by (auto simp: exit_def the_proc_def split: option.splits)
  note my = sched_inv_myproc[OF assms(2) p]
  note E = exit_spec[OF assms(1) d(1) d(2)[OF my(1)] p my(1) assms(3)]
  obtain s4 where S: "\<And>j. j < NPROC \<Longrightarrow> rewoken (Some p) (chan_of (initproc s)) j
       (if j = p then (getp s p)\<lparr>ofile := replicate NOFILE 0, cwd := 0\<rparr> else getp s j) (getp s4 j)"
    "length (procs s4) = NPROC" "myproc s4 = Some p"
    "s' = (upd_proc p (\<lambda>q. q\<lparr>xstate := status, pstate := ZOMBIE\<rparr>)
       (wakeup (chan_of (parent (getp s4 p))) s4))\<lparr>cpus := (cpus s)[hart s := None]\<rparr>"
    using exit_shape[OF assms(1) d(1) d(2)[OF my(1)] p my(1) assms(3)] by metis
  note W = wakeup_spec[OF S(2), where ch = "chan_of (parent (getp s4 p))"]
  have o4: "length (ofile (getp s4 i)) = NOFILE" if "i < NPROC" for i
    using S(1)[OF that] d(2)[OF that]
    by (cases "i = p"; cases "getp s4 i"; cases "getp s i") (auto simp: rewoken_def)
  have "length (ofile (getp s' i)) = NOFILE" if "i < NPROC" for i
    using W(1) W(2)[OF that] o4[OF that] that my(1) by (auto simp: S(4) nth_list_update woken_def)
  moreover have "(pstate (getp s' i) = RUNNING) = (pstate (getp s i) = RUNNING)" if "i < NPROC" "i \<noteq> p" for i
    using E that by auto
  ultimately show ?thesis
    by (intro sched_inv_stop[OF assms(2) p]) (use E in auto)
qed

lemma sched_inv_step:
  assumes ops: "fs_ops_ok ops"
  shows "kstep ops s s' \<Longrightarrow> sched_inv s \<Longrightarrow> sched_inv s'"
proof (induction rule: kstep.induct)
  case (switch h s)
  then have "running (s\<lparr>hart := h\<rparr>) = running s" by (auto simp: running_def)
  with switch show ?case by (simp add: sched_inv_def)
next
  case (yield c s s')
  then show ?case
    by (auto simp: yield_def the_proc_def split: option.splits intro: sched_inv_off)
next
  case (sleep c ch s s')
  then show ?case
    by (auto simp: sleep_def the_proc_def split: option.splits intro: sched_inv_off)
next
  case (resume s s')
  then obtain p where p: "myproc s = Some p" and s': "s' = upd_proc p (\<lambda>p. p\<lparr>chan := NoChan\<rparr>) s"
    by (auto simp: sleep_resume_def the_proc_def split: option.splits)
  note i = sched_inv_myproc(1)[OF resume(2) p]
  show ?case
    by (rule sched_inv_upd[OF resume(2) i, where q = "(getp s p)\<lparr>chan := NoChan\<rparr>"])
       (simp_all add: s' sched_invD(2)[OF resume(2) i])
qed (use ops in \<open>auto intro: sched_inv_schedule sched_inv_wakeup sched_inv_kill sched_inv_fork sched_inv_exit sched_inv_wait\<close>)

lemma sched_inv_reachable: "fs_ops_ok ops \<Longrightarrow> (kstep ops)\<^sup>*\<^sup>* s s' \<Longrightarrow> sched_inv s \<Longrightarrow> sched_inv s'"
  by (erule rtranclp_induct) (auto intro: sched_inv_step)

end
