(* ===== verification/Syscall.thy ===== *)
theory Syscall
  imports ProcCorrect
begin

text \<open>
  System calls (\<open>xv6-lab-syscalls/syscall.c\<close>, \<open>sysproc.c\<close> and \<open>syscall.h\<close>, with \<open>sys_pgaccess\<close> of the page table
  lab): fetching arguments from the trap frame and from user memory, the process system calls, and the
  dispatcher with its trace output. The state extends the kernel with the clock and the lines printed on
  the console.

  A system call that blocks has switched to the scheduler before it has a result. The outcome of a
  handler is therefore its return value, or that it never returns (\<open>exit\<close>), or that it is asleep;
  what it does when it is switched to again is a definition of its own (\<open>sys_sleep_resume\<close>,
  \<open>sys_wait_resume\<close>).
\<close>

section \<open>State and outcomes\<close>

datatype conline = TraceLine int string int | UnknownCall int string int
  | UnexpectedTrap u64 int u64 u64 | KernelTrap u64 u64 u64 | UnexpectedIrq int

record sysk = kernel +
  ticks :: u32
  ticks_addr :: u64
  console :: "conline list"

datatype sysret = Ret u64 | NoRet | Asleep

type_synonym 's handler = "'s \<Rightarrow> (sysret \<times> 's) res"

abbreviation ret :: "int \<Rightarrow> 's \<Rightarrow> (sysret \<times> 's) res" where
  "ret v s \<equiv> Inr (Ret (word_of_int v), s)"

section \<open>Arguments\<close>

text \<open>The eight bytes that \<open>copyin\<close> has put into a \<open>uint64\<close>.\<close>

definition u64_of_bytes :: "u8 list \<Rightarrow> u64" where
  "u64_of_bytes bs = foldr (\<lambda>b w. ucast b OR push_bit 8 w) bs 0"

definition fetchaddr :: "u64 \<Rightarrow> 'a kernel_scheme \<Rightarrow> u64 option res" where
  "fetchaddr addr s = the_proc s (\<lambda>i.
     if addr \<ge> psz (getp s i) \<or> addr + 8 > psz (getp s i) then Inr None
     else bindR (copyin kalloc (pagetable (getp s i)) addr 8 s) (\<lambda>(r, bs).
       if r \<noteq> 0 then Inr None else Inr (Some (u64_of_bytes bs))))"

definition strlen_buf :: "u8 list \<Rightarrow> nat" where
  "strlen_buf bs = length (takeWhile (\<lambda>b. b \<noteq> 0) bs)"

text \<open>The result is the status and the bytes stored in the buffer.\<close>

definition fetchstr :: "u64 \<Rightarrow> nat \<Rightarrow> 'a kernel_scheme \<Rightarrow> (int \<times> u8 list) res" where
  "fetchstr addr mx s = the_proc s (\<lambda>i.
     bindR (copyinstr kalloc (pagetable (getp s i)) addr mx s) (\<lambda>(err, buf).
       if err < 0 then Inr (err, buf) else Inr (c_int (int (strlen_buf buf)), buf)))"

definition argraw :: "nat \<Rightarrow> 'a kernel_scheme \<Rightarrow> u64 res" where
  "argraw n s = the_proc s (\<lambda>i. let tf = trapframe (getp s i) in
     if n = 0 then Inr (load64 (mem s) (tf + TF_a0))
     else if n = 1 then Inr (load64 (mem s) (tf + 120))
     else if n = 2 then Inr (load64 (mem s) (tf + 128))
     else if n = 3 then Inr (load64 (mem s) (tf + 136))
     else if n = 4 then Inr (load64 (mem s) (tf + 144))
     else if n = 5 then Inr (load64 (mem s) (tf + 152))
     else Inl (Panic ''argraw''))"

text \<open>\<open>argint\<close> and \<open>argaddr\<close> always return 0, so the value is all there is.\<close>

definition argint :: "nat \<Rightarrow> 'a kernel_scheme \<Rightarrow> int res" where
  "argint n s = bindR (argraw n s) (\<lambda>v. Inr (sint (ucast v :: u32)))"

definition argaddr :: "nat \<Rightarrow> 'a kernel_scheme \<Rightarrow> u64 res" where
  "argaddr n s = argraw n s"

definition argstr :: "nat \<Rightarrow> nat \<Rightarrow> 'a kernel_scheme \<Rightarrow> (int \<times> u8 list) res" where
  "argstr n mx s = bindR (argaddr n s) (\<lambda>addr. fetchstr addr mx s)"

section \<open>Process system calls\<close>

definition sys_exit :: "'a sysk_scheme fs_ops \<Rightarrow> sched_ctx \<Rightarrow> 'a sysk_scheme handler" where
  "sys_exit ops c s = bindR (argint 0 s) (\<lambda>n. bindR (exit ops c n s) (\<lambda>s1. Inr (NoRet, s1)))"

definition sys_getpid :: "'a sysk_scheme handler" where
  "sys_getpid s = the_proc s (\<lambda>i. ret (pid (getp s i)) s)"

definition sys_fork :: "'a sysk_scheme fs_ops \<Rightarrow> 'a sysk_scheme handler" where
  "sys_fork ops s = bindR (fork ops s) (\<lambda>(r, s1). ret r s1)"

text \<open>\<open>wait\<close> repeats its round when it is woken.\<close>

definition sys_wait_round :: "sched_ctx \<Rightarrow> u64 \<Rightarrow> 'a sysk_scheme handler" where
  "sys_wait_round c p s = the_proc s (\<lambda>i.
     bindR (wait_round p s) (\<lambda>(w, s1). case w of
       WaitReturn v \<Rightarrow> ret v s1
     | WaitSleep \<Rightarrow> bindR (sleep c (ChanProc i) s1) (\<lambda>s2. Inr (Asleep, s2))))"

definition sys_wait :: "sched_ctx \<Rightarrow> 'a sysk_scheme handler" where
  "sys_wait c s = bindR (argaddr 0 s) (\<lambda>p. sys_wait_round c p s)"

definition sys_wait_resume :: "sched_ctx \<Rightarrow> u64 \<Rightarrow> 'a sysk_scheme handler" where
  "sys_wait_resume c p s = bindR (sleep_resume s) (\<lambda>s1. sys_wait_round c p s1)"

definition sys_sbrk :: "'a sysk_scheme handler" where
  "sys_sbrk s = bindR (argint 0 s) (\<lambda>n. the_proc s (\<lambda>i.
     let addr = sint (ucast (psz (getp s i)) :: u32) in
     bindR (growproc n s) (\<lambda>(r, s1). if r < 0 then ret (-1) s1 else ret addr s1)))"

text \<open>
  The comparison \<open>ticks - ticks0 < n\<close> is unsigned: a negative \<open>n\<close> is a count of almost \<open>2 ^ 32\<close> ticks.
\<close>

definition sys_sleep_round :: "sched_ctx \<Rightarrow> int \<Rightarrow> u32 \<Rightarrow> 'a sysk_scheme handler" where
  "sys_sleep_round c n ticks0 s = the_proc s (\<lambda>i.
     if ticks s - ticks0 < word_of_int n then
       if killed (getp s i) \<noteq> 0 then ret (-1) s
       else bindR (sleep c (ChanAddr (ticks_addr s)) s) (\<lambda>s1. Inr (Asleep, s1))
     else ret 0 s)"

definition sys_sleep :: "sched_ctx \<Rightarrow> 'a sysk_scheme handler" where
  "sys_sleep c s = bindR (argint 0 s) (\<lambda>n. sys_sleep_round c n (ticks s) s)"

definition sys_sleep_resume :: "sched_ctx \<Rightarrow> int \<Rightarrow> u32 \<Rightarrow> 'a sysk_scheme handler" where
  "sys_sleep_resume c n ticks0 s = bindR (sleep_resume s) (\<lambda>s1. sys_sleep_round c n ticks0 s1)"

definition sys_kill :: "'a sysk_scheme handler" where
  "sys_kill s = bindR (argint 0 s) (\<lambda>pd. let (r, s1) = kill pd s in ret r s1)"

definition sys_uptime :: "'a sysk_scheme handler" where
  "sys_uptime s = Inr (Ret (ucast (ticks s)), s)"

definition sys_trace :: "'a sysk_scheme handler" where
  "sys_trace s = bindR (argint 0 s) (\<lambda>mask. the_proc s (\<lambda>i.
     ret 0 (upd_proc i (\<lambda>p. p\<lparr>trace_mask := mask\<rparr>) s)))"

text \<open>
  The layout of \<open>struct sysinfo\<close> is in a header that is not part of the sources: \<open>enc\<close> is its image in
  memory. \<open>free_mem\<close> has no value only if the free list is cyclic.
\<close>

definition sys_sysinfo :: "(u64 \<Rightarrow> u64 \<Rightarrow> u8 list) \<Rightarrow> 'a sysk_scheme handler" where
  "sys_sysinfo enc s = the_proc s (\<lambda>i. bindR (argaddr 0 s) (\<lambda>addr.
     case free_mem s of None \<Rightarrow> Inl NoFuel
     | Some freemem \<Rightarrow>
       bindR (copyout kalloc (pagetable (getp s i)) addr (enc freemem (nproc s)) s) (\<lambda>(r, s1).
         if r < 0 then ret (-1) s1 else ret 0 s1)))"

section \<open>\<open>pgaccess\<close>\<close>

text \<open>
  \<open>1 << i\<close> is an \<open>int\<close>; at \<open>i = 31\<close> it is negative, and its conversion to the 64-bit mask extends the
  sign.
\<close>

definition access_bit :: "nat \<Rightarrow> u64" where
  "access_bit i = scast (push_bit i 1 :: u32)"

fun pgaccess_loop :: "nat list \<Rightarrow> u64 \<Rightarrow> u64 \<Rightarrow> 'a kernel_scheme \<Rightarrow> (u64 \<times> 'a kernel_scheme) res" where
  "pgaccess_loop [] va bm s = Inr (bm, s)"
| "pgaccess_loop (i # is) va bm s = the_proc s (\<lambda>p.
     bindR (walk kalloc (pagetable (getp s p)) va False s) (\<lambda>(pte, s1).
       if pte = 0 then Inl (Panic ''pgaccess : walk failed'')
       else if load64 (mem s1) pte AND PTE_A \<noteq> 0
       then pgaccess_loop is (va + PGSIZE) (bm OR access_bit i)
              (s1\<lparr>mem := store64 (mem s1) pte (load64 (mem s1) pte AND NOT PTE_A)\<rparr>)
       else pgaccess_loop is (va + PGSIZE) bm s1))"

definition u64_bytes :: "u64 \<Rightarrow> u8 list" where
  "u64_bytes w = map (\<lambda>k. ucast (drop_bit (8 * k) w)) [0..<8]"

definition sys_pgaccess :: "'a sysk_scheme handler" where
  "sys_pgaccess s = bindR (argint 1 s) (\<lambda>n.
     if n > MAXSCAN then ret (-1) s
     else bindR (argaddr 0 s) (\<lambda>va. bindR (argaddr 2 s) (\<lambda>dst.
       bindR (pgaccess_loop [0..<nat n] va 0 s) (\<lambda>(bm, s1). the_proc s1 (\<lambda>p.
         bindR (copyout kalloc (pagetable (getp s1 p)) dst (u64_bytes bm) s1) (\<lambda>(r, s2). ret 0 s2))))))"

section \<open>Dispatch\<close>

definition SYS_fork :: nat where "SYS_fork = 1"
definition SYS_exit :: nat where "SYS_exit = 2"
definition SYS_wait :: nat where "SYS_wait = 3"
definition SYS_kill :: nat where "SYS_kill = 6"
definition SYS_getpid :: nat where "SYS_getpid = 11"
definition SYS_sbrk :: nat where "SYS_sbrk = 12"
definition SYS_sleep :: nat where "SYS_sleep = 13"
definition SYS_uptime :: nat where "SYS_uptime = 14"
definition SYS_trace :: nat where "SYS_trace = 22"
definition SYS_sysinfo :: nat where "SYS_sysinfo = 23"

definition NELEM_syscalls :: nat where "NELEM_syscalls = SYS_sysinfo + 1"

definition syscall_names :: "string list" where
  "syscall_names = ['''', ''fork'', ''exit'', ''wait'', ''pipe'', ''read'', ''kill'', ''exec'',
     ''fstat'', ''chdir'', ''dup'', ''getpid'', ''sbrk'', ''sleep'', ''uptime'', ''open'', ''write'',
     ''mknod'', ''unlink'', ''link'', ''mkdir'', ''close'', ''trace'', ''sysinfo'']"

text \<open>
  What the table \<open>syscalls\<close> is filled with: the process calls above, and handlers of the file system
  for the other numbers, which are an argument.
\<close>

record 's sys_env =
  env_fs :: "'s fs_ops"
  env_sched :: sched_ctx
  env_sysinfo :: "u64 \<Rightarrow> u64 \<Rightarrow> u8 list"
  env_file_call :: "nat \<Rightarrow> 's handler"

definition syscalls :: "'a sysk_scheme sys_env \<Rightarrow> nat \<Rightarrow> 'a sysk_scheme handler" where
  "syscalls e num =
     (if num = SYS_fork then sys_fork (env_fs e)
      else if num = SYS_exit then sys_exit (env_fs e) (env_sched e)
      else if num = SYS_wait then sys_wait (env_sched e)
      else if num = SYS_kill then sys_kill
      else if num = SYS_getpid then sys_getpid
      else if num = SYS_sbrk then sys_sbrk
      else if num = SYS_sleep then sys_sleep (env_sched e)
      else if num = SYS_uptime then sys_uptime
      else if num = SYS_trace then sys_trace
      else if num = SYS_sysinfo then sys_sysinfo (env_sysinfo e)
      else env_file_call e num)"

text \<open>What the dispatcher does with a return value: \<open>a0\<close>, and the trace line if the mask asks for one.\<close>

definition syscall_return :: "nat \<Rightarrow> nat \<Rightarrow> u64 \<Rightarrow> 'a sysk_scheme \<Rightarrow> 'a sysk_scheme" where
  "syscall_return p num v s =
     (let s1 = s\<lparr>mem := store64 (mem s) (trapframe (getp s p) + TF_a0) v\<rparr> in
      if drop_bit num (trace_mask (getp s1 p)) AND 1 \<noteq> 0
      then s1\<lparr>console := console s1 @ [TraceLine (pid (getp s1 p)) (syscall_names ! num)
             (sint (ucast (load64 (mem s1) (trapframe (getp s1 p) + TF_a0)) :: u32))]\<rparr>
      else s1)"

definition syscall :: "'a sysk_scheme sys_env \<Rightarrow> 'a sysk_scheme handler" where
  "syscall e s = the_proc s (\<lambda>p.
     let num = sint (ucast (load64 (mem s) (trapframe (getp s p) + TF_a7)) :: u32) in
     if num > 0 \<and> num < int NELEM_syscalls then
       bindR (syscalls e (nat num) s) (\<lambda>(r, s1). case r of
         Ret v \<Rightarrow> Inr (Ret v, syscall_return p (nat num) v s1)
       | NoRet \<Rightarrow> Inr (NoRet, s1) | Asleep \<Rightarrow> Inr (Asleep, s1))
     else
       let s1 = s\<lparr>console := console s @ [UnknownCall (pid (getp s p)) (pname (getp s p)) num]\<rparr> in
       Inr (Ret (-1), s1\<lparr>mem := store64 (mem s1) (trapframe (getp s1 p) + TF_a0) (-1)\<rparr>))"

section \<open>The clock\<close>

definition clockintr :: "'a sysk_scheme \<Rightarrow> 'a sysk_scheme" where
  "clockintr s = wakeup (ChanAddr (ticks_addr s)) (s\<lparr>ticks := ticks s + 1\<rparr>)"

end
