(* ===== verification/Trap.thy ===== *)
theory Trap
  imports Syscall
begin

text \<open>
  Traps (\<open>xv6-lab-traps/trap.c\<close> with \<open>sys_sigalarm\<close> and \<open>sys_sigreturn\<close> of its \<open>sysproc.c\<close>): what happens between
  a trap from user mode and the return to it, traps in the kernel, device and timer interrupts,
  and the periodic alarm. The state extends that of the system calls with the supervisor registers
  and the alarm fields of each process. Interrupt controller and devices are not part of the sources:
  their operations are arguments, as is the dispatcher \<open>syscall\<close> of the lab.

  A trap ends in one of three ways: the process goes back to user mode (with the page table
  that \<open>userret\<close> loads), or the CPU is in the scheduler and the process continues later, or the process
  has exited. A process that has yielded continues with \<open>usertrapret\<close>.
\<close>

section \<open>State\<close>

record alarm =
  alarmticks :: int
  handler :: u64
  passedticks :: int
  trapframecopy :: u64

record trapk = sysk +
  alarms :: "alarm list"
  sstatus :: u64
  sepc :: u64
  scause :: u64
  stval :: u64
  stvec :: u64
  satp :: u64
  sip :: u64
  kernelvec :: u64
  uservec :: u64
  userret :: u64
  usertrap_addr :: u64

definition SSTATUS_SPP :: u64 where "SSTATUS_SPP = push_bit 8 1"
definition SSTATUS_SPIE :: u64 where "SSTATUS_SPIE = push_bit 5 1"
definition SSTATUS_SIE :: u64 where "SSTATUS_SIE = push_bit 1 1"
definition UART0_IRQ :: int where "UART0_IRQ = 10"
definition VIRTIO0_IRQ :: int where "VIRTIO0_IRQ = 1"

definition intr_on :: "'a trapk_scheme \<Rightarrow> 'a trapk_scheme" where
  "intr_on s = s\<lparr>sstatus := sstatus s OR SSTATUS_SIE\<rparr>"

definition intr_off :: "'a trapk_scheme \<Rightarrow> 'a trapk_scheme" where
  "intr_off s = s\<lparr>sstatus := sstatus s AND NOT SSTATUS_SIE\<rparr>"

definition intr_get :: "'a trapk_scheme \<Rightarrow> bool" where
  "intr_get s \<longleftrightarrow> sstatus s AND SSTATUS_SIE \<noteq> 0"

definition upd_alarm :: "nat \<Rightarrow> (alarm \<Rightarrow> alarm) \<Rightarrow> 'a trapk_scheme \<Rightarrow> 'a trapk_scheme" where
  "upd_alarm i f s = s\<lparr>alarms := (alarms s)[i := f (alarms s ! i)]\<rparr>"

abbreviation geta :: "'a trapk_scheme \<Rightarrow> nat \<Rightarrow> alarm" where
  "geta s i \<equiv> alarms s ! i"

text \<open>\<open>p->trapframe->field = v\<close>\<close>

definition set_tf :: "nat \<Rightarrow> u64 \<Rightarrow> u64 \<Rightarrow> 'a kernel_scheme \<Rightarrow> 'a kernel_scheme" where
  "set_tf p off v s = s\<lparr>mem := store64 (mem s) (trapframe (getp s p) + off) v\<rparr>"

definition get_tf :: "nat \<Rightarrow> u64 \<Rightarrow> 'a kernel_scheme \<Rightarrow> u64" where
  "get_tf p off s = load64 (mem s) (trapframe (getp s p) + off)"

datatype trap_out = UserMode u64 | InSched | Dead

record 's dev_ops =
  plic_claim :: "'s \<Rightarrow> int \<times> 's"
  plic_complete :: "int \<Rightarrow> 's \<Rightarrow> 's"
  uartintr :: "'s \<Rightarrow> 's"
  virtio_disk_intr :: "'s \<Rightarrow> 's"

section \<open>Interrupts\<close>

definition trapinithart :: "'a trapk_scheme \<Rightarrow> 'a trapk_scheme" where
  "trapinithart s = s\<lparr>stvec := kernelvec s\<rparr>"

definition devintr :: "'a trapk_scheme dev_ops \<Rightarrow> 'a trapk_scheme \<Rightarrow> int \<times> 'a trapk_scheme" where
  "devintr dev s =
     (if scause s AND 0x8000000000000000 \<noteq> 0 \<and> scause s AND 0xff = 9 then
        let (irq, s1) = plic_claim dev s;
            s2 = (if irq = UART0_IRQ then uartintr dev s1
                  else if irq = VIRTIO0_IRQ then virtio_disk_intr dev s1
                  else if irq \<noteq> 0 then s1\<lparr>console := console s1 @ [UnexpectedIrq irq]\<rparr> else s1);
            s3 = (if irq \<noteq> 0 then plic_complete dev irq s2 else s2)
        in (1, s3)
      else if scause s = 0x8000000000000001 then
        let s1 = (if cpuid s = 0 then clockintr s else s)
        in (2, s1\<lparr>sip := sip s1 AND NOT 2\<rparr>)
      else (0, s))"

section \<open>Alarms\<close>

text \<open>
  \<open>p->trapframe + 512\<close> is pointer arithmetic on \<open>struct trapframe *\<close>: 512 trap frames, not 512 bytes,
  above the trap frame.
\<close>

definition copy_addr :: "u64 \<Rightarrow> u64" where
  "copy_addr tf = tf + 512 * sizeof_trapframe"

definition alarm_tick :: "nat \<Rightarrow> 'a trapk_scheme \<Rightarrow> 'a trapk_scheme" where
  "alarm_tick p s =
     (if alarmticks (geta s p) \<noteq> 0 then
        let s1 = upd_alarm p (\<lambda>a. a\<lparr>passedticks := c_int (passedticks a + 1)\<rparr>) s in
        if passedticks (geta s1 p) = alarmticks (geta s1 p) then
          let tf = trapframe (getp s1 p);
              s2 = upd_alarm p (\<lambda>a. a\<lparr>trapframecopy := copy_addr tf\<rparr>) s1;
              s3 = s2\<lparr>mem := memmove (mem s2) (copy_addr tf) tf sizeof_trapframe\<rparr>
          in set_tf p TF_epc (handler (geta s3 p)) s3
        else s1
      else s)"

definition sys_sigalarm :: "'a trapk_scheme Syscall.handler" where
  "sys_sigalarm s = the_proc s (\<lambda>p. bindR (argint 0 s) (\<lambda>n.
     let s1 = upd_alarm p (\<lambda>a. a\<lparr>alarmticks := n\<rparr>) s in
     bindR (argaddr 1 s1) (\<lambda>h. ret 0 (upd_alarm p (\<lambda>a. a\<lparr>handler := h\<rparr>) s1))))"

definition sys_sigreturn :: "'a trapk_scheme Syscall.handler" where
  "sys_sigreturn s = the_proc s (\<lambda>p. let tf = trapframe (getp s p) in
     if trapframecopy (geta s p) \<noteq> copy_addr tf then ret (-1) s
     else
       let s1 = s\<lparr>mem := memmove (mem s) tf (trapframecopy (geta s p)) sizeof_trapframe\<rparr>;
           s2 = upd_alarm p (\<lambda>a. a\<lparr>passedticks := 0\<rparr>) s1
       in Inr (Ret (get_tf p TF_a0 s2), s2))"

section \<open>Traps from user mode\<close>

definition usertrapret :: "'a trapk_scheme \<Rightarrow> (trap_out \<times> 'a trapk_scheme) res" where
  "usertrapret s = the_proc s (\<lambda>p.
     let s1 = intr_off s;
         s2 = s1\<lparr>stvec := TRAMPOLINE + (uservec s1 - trampoline s1)\<rparr>;
         s3 = set_tf p 0 (satp s2) s2;
         s4 = set_tf p 8 (kstack (getp s3 p) + PGSIZE) s3;
         s5 = set_tf p 16 (usertrap_addr s4) s4;
         s6 = set_tf p 32 (of_nat (hart s5)) s5;
         x = sstatus s6 AND NOT SSTATUS_SPP;
         s7 = s6\<lparr>sstatus := x OR SSTATUS_SPIE\<rparr>;
         s8 = s7\<lparr>sepc := get_tf p TF_epc s7\<rparr>
     in Inr (UserMode (MAKE_SATP (pagetable (getp s8 p))), s8))"

definition trap_exit :: "'a trapk_scheme fs_ops \<Rightarrow> sched_ctx \<Rightarrow> 'a trapk_scheme \<Rightarrow> (trap_out \<times> 'a trapk_scheme) res" where
  "trap_exit ops c s = bindR (exit ops c (-1) s) (\<lambda>s1. Inr (Dead, s1))"

text \<open>The part of \<open>usertrap\<close> after the cause has been handled.\<close>

definition usertrap_end :: "'a trapk_scheme fs_ops \<Rightarrow> sched_ctx \<Rightarrow> nat \<Rightarrow> int \<Rightarrow> 'a trapk_scheme \<Rightarrow>
    (trap_out \<times> 'a trapk_scheme) res" where
  "usertrap_end ops c p which_dev s =
     (if killed (getp s p) \<noteq> 0 then trap_exit ops c s
      else if which_dev = 2 then bindR (yield c (alarm_tick p s)) (\<lambda>s1. Inr (InSched, s1))
      else usertrapret s)"

definition usertrap :: "'a trapk_scheme fs_ops \<Rightarrow> sched_ctx \<Rightarrow> 'a trapk_scheme dev_ops \<Rightarrow>
    'a trapk_scheme Syscall.handler \<Rightarrow> 'a trapk_scheme \<Rightarrow> (trap_out \<times> 'a trapk_scheme) res" where
  "usertrap ops c dev sys s =
     (if sstatus s AND SSTATUS_SPP \<noteq> 0 then Inl (Panic ''usertrap: not from user mode'')
      else let s1 = s\<lparr>stvec := kernelvec s\<rparr> in the_proc s1 (\<lambda>p.
        let s2 = set_tf p TF_epc (sepc s1) s1 in
        if scause s2 = 8 then
          if killed (getp s2 p) \<noteq> 0 then trap_exit ops c s2
          else
            let s3 = intr_on (set_tf p TF_epc (get_tf p TF_epc s2 + 4) s2) in
            bindR (sys s3) (\<lambda>(r, s4). case r of
              Ret v \<Rightarrow> usertrap_end ops c p 0 s4
            | NoRet \<Rightarrow> Inr (Dead, s4) | Asleep \<Rightarrow> Inr (InSched, s4))
        else
          let (which_dev, s3) = devintr dev s2 in
          if which_dev \<noteq> 0 then usertrap_end ops c p which_dev s3
          else
            let s4 = s3\<lparr>console := console s3 @ [UnexpectedTrap (scause s3) (pid (getp s3 p)) (sepc s3) (stval s3)]\<rparr>
            in usertrap_end ops c p 0 (upd_proc p (\<lambda>q. q\<lparr>killed := 1\<rparr>) s4)))"

section \<open>Traps in the kernel\<close>

text \<open>
  The state before the possible \<open>yield\<close>, and what \<open>kerneltrap\<close> does after it (\<open>kerneltrap_end\<close>) with the
  saved registers.
\<close>

definition kerneltrap_end :: "u64 \<Rightarrow> u64 \<Rightarrow> 'a trapk_scheme \<Rightarrow> 'a trapk_scheme" where
  "kerneltrap_end sepc0 sstatus0 s = s\<lparr>sepc := sepc0, sstatus := sstatus0\<rparr>"

definition kerneltrap :: "sched_ctx \<Rightarrow> 'a trapk_scheme dev_ops \<Rightarrow> 'a trapk_scheme \<Rightarrow>
    (bool \<times> 'a trapk_scheme) res" where
  "kerneltrap c dev s =
     (let sepc0 = sepc s; sstatus0 = sstatus s in
      if sstatus0 AND SSTATUS_SPP = 0 then Inl (Panic ''kerneltrap: not from supervisor mode'')
      else if intr_get s then Inl (Panic ''kerneltrap: interrupts enabled'')
      else let (which_dev, s1) = devintr dev s in
        if which_dev = 0 then Inl (Panic ''kerneltrap'')
        else case myproc s1 of
          Some p \<Rightarrow> if which_dev = 2 \<and> pstate (getp s1 p) = RUNNING
            then bindR (yield c s1) (\<lambda>s2. Inr (True, s2))
            else Inr (False, kerneltrap_end sepc0 sstatus0 s1)
        | None \<Rightarrow> Inr (False, kerneltrap_end sepc0 sstatus0 s1))"

end
