(* ===== verification/ProcProps.thy ===== *)
theory ProcProps
  imports ProcCorrect
begin

text \<open>
  The properties of the process code, exercised on a concrete kernel: \<open>init\<close> asleep in \<open>wait\<close>, one
  child running on CPU 0, CPU 1 idle.
\<close>

section \<open>A concrete kernel\<close>

definition empty_slot :: proc where
  "empty_slot = \<lparr>pstate = UNUSED, chan = NoChan, killed = 0, xstate = 0, pid = 0, parent = None, kstack = 0,
     psz = 0, pagetable = 0, trapframe = 0, context_ra = 0, context_sp = 0, ofile = replicate NOFILE 0,
     cwd = 0, pname = [], trace_mask = 0\<rparr>"

definition two_procs :: kernel where
  "two_procs = \<lparr>mem = (\<lambda>_. 0), kend = KERNBASE, freelist = 0,
     procs = (replicate NPROC empty_slot)
       [0 := empty_slot\<lparr>pstate := SLEEPING, chan := ChanProc 0, pid := 1\<rparr>,
        1 := empty_slot\<lparr>pstate := RUNNING, pid := 2, parent := Some 0\<rparr>],
     nextpid = 3, initproc = Some 0, cpus = [Some 1, None], hart = 0, trampoline = 0, forkret_addr = 0\<rparr>"

definition no_fs :: "kernel fs_ops" where
  "no_fs = \<lparr>op_filedup = (\<lambda>f s. Inr (f, s)), op_fileclose = (\<lambda>f s. Inr s), op_idup = (\<lambda>f s. Inr (f, s)),
     op_iput = (\<lambda>f s. Inr s), op_namei = (\<lambda>n s. Inr (1, s))\<rparr>"

definition calm :: sched_ctx where
  "calm = \<lparr>holding_plock = True, noff = 1, intr_enabled = False\<rparr>"

lemma no_fs_ok [simp]: "fs_ops_ok no_fs"
  by (simp add: fs_ops_ok_def no_fs_def)

lemma two_procs_sel [simp]:
  "length (procs two_procs) = NPROC" "cpus two_procs = [Some 1, None]" "hart two_procs = 0"
  "initproc two_procs = Some 0" "nextpid two_procs = 3" "myproc two_procs = Some 1"
  "i < NPROC \<Longrightarrow> getp two_procs i =
     (if i = 0 then empty_slot\<lparr>pstate := SLEEPING, chan := ChanProc 0, pid := 1\<rparr>
      else if i = 1 then empty_slot\<lparr>pstate := RUNNING, pid := 2, parent := Some 0\<rparr> else empty_slot)"
  by (auto simp: two_procs_def NPROC_def nth_list_update myproc_def mycpu_def cpuid_def)

lemma NPROC_gt [simp]: "0 < NPROC" "1 < NPROC" "Suc 0 < NPROC"
  by (simp_all add: NPROC_def)

lemma two_procs_inv: "sched_inv two_procs"
proof -
  have R: "running two_procs = (\<lambda>i. i = 1)"
    by (auto simp: running_def empty_slot_def fun_eq_iff split: if_splits)
  have "[Some 1, None] ! h = Some i \<longleftrightarrow> h = 0 \<and> i = 1" if "h < 2" for h i :: nat
    using that by (auto simp: less_2_cases_iff)
  then have "run_inv [Some 1, None] (\<lambda>i. i = 1)"
    unfolding run_inv_def by (intro conjI allI impI) (auto simp: numeral_2_eq_2[symmetric] intro!: exI[of _ 0])
  moreover have "length (ofile (getp two_procs i)) = NOFILE" if "i < NPROC" for i
    using that by (simp add: empty_slot_def)
  ultimately show ?thesis by (simp add: sched_inv_def R)
qed

section \<open>Properties\<close>

text \<open>
  C4: in every state the kernel can reach, a process is \<open>RUNNING\<close> exactly when some CPU has it as its
  current process, and no two CPUs run the same process.
\<close>

theorem running_iff_on_one_cpu:
  assumes "fs_ops_ok ops" "(kstep ops)\<^sup>*\<^sup>* s s'" "sched_inv s"
  shows "(\<forall>i<NPROC. pstate (getp s' i) = RUNNING \<longleftrightarrow> (\<exists>!h. h < length (cpus s') \<and> cpus s' ! h = Some i)) \<and>
    (\<forall>h<length (cpus s'). \<forall>i. cpus s' ! h = Some i \<longrightarrow> i < NPROC \<and> pstate (getp s' i) = RUNNING)"
proof -
  note r = run_invD[OF sched_invD(4)[OF sched_inv_reachable[OF assms]]]
  have "i < NPROC \<and> pstate (getp s' i) = RUNNING" if "h < length (cpus s')" "cpus s' ! h = Some i" for h i
    using r(1)[OF that] by (simp add: running_def)
  moreover have "\<exists>!h. h < length (cpus s') \<and> cpus s' ! h = Some i"
    if "i < NPROC" "pstate (getp s' i) = RUNNING" for i
    using r(2)[of i] r(3) that unfolding running_def by blast
  ultimately show ?thesis by blast
qed

theorem running_iff_on_one_cpu_witness:
  "\<exists>s'. (kstep no_fs)\<^sup>*\<^sup>* two_procs s' \<and> pstate (getp s' 0) = RUNNABLE \<and>
    (\<forall>i<NPROC. pstate (getp s' i) = RUNNING \<longleftrightarrow> (\<exists>!h. h < length (cpus s') \<and> cpus s' ! h = Some i))"
proof -
  let ?s = "wakeup (ChanProc 0) two_procs"
  have st: "(kstep no_fs)\<^sup>*\<^sup>* two_procs ?s" by (auto intro: kstep.wakeup)
  have "pstate (getp ?s 0) = RUNNABLE"
    using wakeup_spec(2)[of two_procs 0 "ChanProc 0"] by (simp add: woken_def)
  with st running_iff_on_one_cpu[OF no_fs_ok st two_procs_inv] show ?thesis by blast
qed

text \<open>
  \<open>wakeup\<close> makes exactly the processes runnable that sleep on the channel (other than the caller)
  and changes nothing else; in particular a process that has gone to sleep on a channel is never
  missed by a later wakeup of that channel.
\<close>

theorem wakeup_exact:
  assumes "length (procs s) = NPROC" "j < NPROC"
  shows "getp (wakeup ch s) j =
    (if Some j \<noteq> myproc s \<and> pstate (getp s j) = SLEEPING \<and> chan (getp s j) = ch
     then (getp s j)\<lparr>pstate := RUNNABLE\<rparr> else getp s j) \<and> cpus (wakeup ch s) = cpus s"
  using wakeup_spec[OF assms(1)] assms(2) by (simp add: woken_def)

theorem wakeup_exact_witness:
  "pstate (getp (wakeup (ChanProc 0) two_procs) 0) = RUNNABLE \<and> getp (wakeup (ChanProc 0) two_procs) 1 = getp two_procs 1"
  using wakeup_exact[of two_procs 0 "ChanProc 0"] wakeup_exact[of two_procs 1 "ChanProc 0"] by simp



text \<open>
  C14: one round of \<open>wait\<close>. If a child is a zombie the round returns: normally its pid, with the slot
  freed; or -1 when the status cannot be copied out, and then nothing is freed. If no child is a
  zombie the state is unchanged, and the round returns -1 when there is no child or the caller is
  killed and sleeps otherwise: it never sleeps while a zombie child is there to be collected.
\<close>

theorem wait_collects_zombie:
  assumes "length (procs s) = NPROC" "myproc s = Some p" "wait_round addr s = Inr (w, s')"
  shows "case find (\<lambda>i. parent (getp s i) = Some p \<and> pstate (getp s i) = ZOMBIE) [0..<NPROC] of
      Some i \<Rightarrow> w = WaitReturn (pid (getp s i)) \<and> pstate (getp s' i) = UNUSED \<and>
          (\<forall>j<NPROC. j \<noteq> i \<longrightarrow> getp s' j = getp s j) \<or>
        addr \<noteq> 0 \<and> w = WaitReturn (-1) \<and> procs s' = procs s
    | None \<Rightarrow> s' = s \<and> w = (if (\<forall>i<NPROC. parent (getp s i) \<noteq> Some p) \<or> killed (getp s p) \<noteq> 0
        then WaitReturn (-1) else WaitSleep)"
proof -
  from assms(2,3) obtain r hk where sc: "wait_scan p addr [0..<NPROC] False s = Inr ((r, hk), s')"
    and w: "w = (case r of Some v \<Rightarrow> WaitReturn v
      | None \<Rightarrow> if \<not> hk \<or> killed (getp s' p) \<noteq> 0 then WaitReturn (-1) else WaitSleep)"
    by (auto simp: wait_round_def the_proc_def bindR_Inr_iff split: option.splits if_splits)
  show ?thesis
  proof (cases "find (\<lambda>i. parent (getp s i) = Some p \<and> pstate (getp s i) = ZOMBIE) [0..<NPROC]")
    case None
    with wait_scan_none[OF None, of addr False] sc w show ?thesis by auto
  next
    case (Some i)
    have "i < length (procs s)" using find_Some_upt[OF Some] assms(1) by simp
    with wait_scan_zombie[OF Some sc this] w Some assms(1) show ?thesis by (auto simp: cleared_def)
  qed
qed

definition zombie_child :: kernel where
  "zombie_child = two_procs\<lparr>procs := (procs two_procs)[0 := (getp two_procs 0)\<lparr>pstate := RUNNING\<rparr>,
     1 := (getp two_procs 1)\<lparr>pstate := ZOMBIE\<rparr>], cpus := [Some 0, None]\<rparr>"

lemma find_upt_first: "P i \<Longrightarrow> i < n \<Longrightarrow> (\<And>j. j < i \<Longrightarrow> \<not> P j) \<Longrightarrow> find P [0..<n] = Some i"
  by (auto simp: find_Some_iff intro!: exI[of _ i])

theorem wait_collects_zombie_witness:
  "\<exists>s'. wait_round 0 zombie_child = Inr (WaitReturn 2, s') \<and> pstate (getp s' 1) = UNUSED"
proof -
  have z: "length (procs zombie_child) = NPROC" "myproc zombie_child = Some 0"
    by (simp_all add: zombie_child_def myproc_def mycpu_def cpuid_def)
  have g: "getp zombie_child 0 = empty_slot\<lparr>pstate := RUNNING, chan := ChanProc 0, pid := 1\<rparr>"
    "getp zombie_child 1 = empty_slot\<lparr>pstate := ZOMBIE, pid := 2, parent := Some 0\<rparr>"
    by (simp_all add: zombie_child_def)
  have f: "find (\<lambda>i. parent (getp zombie_child i) = Some 0 \<and> pstate (getp zombie_child i) = ZOMBIE) [0..<NPROC] = Some 1"
    by (rule find_upt_first) (simp_all add: g g(2)[unfolded One_nat_def] empty_slot_def)
  have u: "[0..<NPROC] = 0 # 1 # [2..<NPROC]" by (simp add: NPROC_def upt_conv_Cons)
  have "\<exists>s'. freeproc 1 zombie_child = Inr s'"
    by (simp add: freeproc_def Let_def g(2)[unfolded One_nat_def] z empty_slot_def)
  then obtain t where "freeproc 1 zombie_child = Inr t" by blast
  then obtain w s' where r: "wait_round 0 zombie_child = Inr (w, s')"
    unfolding wait_round_def the_proc_def z(2) u
    by (simp add: g[unfolded One_nat_def] empty_slot_def Let_def)
  from wait_collects_zombie[OF z r, unfolded f] have "w = WaitReturn 2" "pstate (getp s' 1) = UNUSED"
    by (simp_all add: g(2)[unfolded One_nat_def] empty_slot_def)
  with r show ?thesis by blast
qed



text \<open>
  \<open>kill\<close> marks the first process with the pid as killed and makes it runnable if it sleeps, so that
  it can reach its exit; every other process is unchanged, and -1 means that no process has the pid.
\<close>

theorem kill_marks_victim:
  assumes "length (procs s) = NPROC"
  shows "case find (\<lambda>i. pid (getp s i) = pd) [0..<NPROC] of
      None \<Rightarrow> kill pd s = (-1, s) \<and> (\<forall>i<NPROC. pid (getp s i) \<noteq> pd)
    | Some i \<Rightarrow> \<exists>s'. kill pd s = (0, s') \<and> killed (getp s' i) = 1 \<and> pid (getp s' i) = pd \<and>
        pstate (getp s' i) \<noteq> SLEEPING \<and> (pstate (getp s i) \<noteq> SLEEPING \<longrightarrow> pstate (getp s' i) = pstate (getp s i)) \<and>
        (\<forall>j<NPROC. j \<noteq> i \<longrightarrow> getp s' j = getp s j)"
proof (cases "find (\<lambda>i. pid (getp s i) = pd) [0..<NPROC]")
  case None
  then have "\<forall>i<NPROC. pid (getp s i) \<noteq> pd" by (simp add: find_None_iff)
  with None show ?thesis by (simp add: kill_def kill_scan_spec)
next
  case (Some i)
  from find_Some_upt[OF Some] Some assms show ?thesis by (simp add: kill_def kill_scan_spec)
qed

theorem kill_marks_victim_witness:
  "\<exists>s'. kill 1 two_procs = (0, s') \<and> killed (getp s' 0) = 1 \<and> pstate (getp s' 0) \<noteq> SLEEPING"
proof -
  have "find (\<lambda>i. pid (getp two_procs i) = 1) [0..<NPROC] = Some 0"
    by (rule find_upt_first) (simp_all add: empty_slot_def)
  with kill_marks_victim[of two_procs 1] show ?thesis by auto
qed

text \<open>\<open>nproc\<close>, which \<open>sysinfo\<close> reports, counts the processes that are not \<open>UNUSED\<close>.\<close>

theorem nproc_counts_used:
  assumes "length (procs s) = NPROC"
  shows "unat (nproc s) = card {i. i < NPROC \<and> pstate (getp s i) \<noteq> UNUSED}"
proof -
  have "{i. i < NPROC \<and> pstate (getp s i) \<noteq> UNUSED} = set (filter (\<lambda>i. pstate (getp s i) \<noteq> UNUSED) [0..<NPROC])"
    by auto
  then have "card {i. i < NPROC \<and> pstate (getp s i) \<noteq> UNUSED} = length (filter (\<lambda>i. pstate (getp s i) \<noteq> UNUSED) [0..<NPROC])"
    by (metis distinct_card distinct_filter distinct_upt)
  moreover have "length (filter (\<lambda>i. pstate (getp s i) \<noteq> UNUSED) [0..<NPROC]) < 2 ^ 64"
    using length_filter_le[of "\<lambda>i. pstate (getp s i) \<noteq> UNUSED" "[0..<NPROC]"] by (simp add: NPROC_def)
  ultimately show ?thesis by (simp add: nproc_def nproc_fold unat_of_nat)
qed

theorem nproc_counts_used_witness: "unat (nproc two_procs) = 2"
proof -
  have "{i. i < NPROC \<and> pstate (getp two_procs i) \<noteq> UNUSED} = {0, 1}"
    by (auto simp: empty_slot_def split: if_splits)
  with nproc_counts_used[of two_procs] show ?thesis by simp
qed

end
