(* ===== verification/SysProps.thy ===== *)
theory SysProps
  imports Trap VmProps ProcProps
begin

text \<open>
  Properties of system calls and traps: a call resumes after its \<open>ecall\<close> with the result in \<open>a0\<close> and is
  traced exactly when the mask says so, sleeping ends at the right tick, \<open>pgaccess\<close> reports and clears the
  accessed bits, unexpected traps kill the process, and the alarm interrupts and resumes a process
  without losing a register.
\<close>

section \<open>Trap frame accesses\<close>

lemma aligned8_tf [simp]:
  assumes "page_aligned tf" "off < PGSIZE" "unat off mod 8 = 0"
  shows "aligned8 (tf + off)"
proof -
  have "unat tf mod 4096 = 0" using assms(1) by (simp add: page_aligned_unat)
  moreover have "unat tf mod 4096 mod 8 = unat tf mod 8" by (rule mod_mod_cancel) simp
  ultimately have "unat tf mod 8 = 0" by simp
  with assms show ?thesis
    by (simp add: aligned8_def unat_page_offset mod_add_eq[symmetric, of "unat tf"])
qed

lemmas TF_defs = TF_epc_def TF_sp_def TF_a0_def TF_a7_def sizeof_trapframe_def

lemma myproc_regs [simp]:
  "myproc (s\<lparr>mem := m\<rparr>) = myproc s" "myproc (k\<lparr>console := l\<rparr>) = myproc k"
  "myproc (k\<lparr>ticks := n\<rparr>) = myproc k" "myproc (t\<lparr>stvec := v\<rparr>) = myproc t" "myproc (t\<lparr>sip := v\<rparr>) = myproc t"
  "myproc (t\<lparr>alarms := a\<rparr>) = myproc t"
  for s :: "'a kernel_scheme" and k :: "'a sysk_scheme" and t :: "'a trapk_scheme"
  by (simp_all add: myproc_def mycpu_def cpuid_def)

lemma clear_and_set: "(x AND NOT a OR b) AND a = b AND a" "((x AND NOT a) AND NOT c OR b) AND a = b AND a"
  for a b c x :: u64
  by (rule bit_word_eqI; auto simp: bit_simps)+

lemma set_tf_simps [simp]:
  "procs (set_tf p off v s) = procs s" "cpus (set_tf p off v s) = cpus s" "hart (set_tf p off v s) = hart s"
  "initproc (set_tf p off v s) = initproc s" "myproc (set_tf p off v s) = myproc s"
  by (simp_all add: set_tf_def myproc_def mycpu_def cpuid_def)

lemma get_set_tf:
  assumes "page_aligned (trapframe (getp s p))"
    and "off < PGSIZE" "unat off mod 8 = 0" "off' < PGSIZE" "unat off' mod 8 = 0"
  shows "get_tf p off (set_tf p off' v s) = (if off = off' then v else get_tf p off s)"
proof (cases "off = off'")
  case True
  then show ?thesis by (simp add: get_tf_def set_tf_def mem_simps)
next
  case False
  then have "trapframe (getp s p) + off' \<noteq> trapframe (getp s p) + off" by simp
  with False show ?thesis
    using assms by (simp add: get_tf_def set_tf_def load64_store64_other)
qed

section \<open>Dispatch\<close>

lemma trace_bit: "drop_bit n (x :: int) AND 1 \<noteq> 0 \<longleftrightarrow> bit x n"
  by (simp add: and_one_eq bit_iff_odd_drop_bit odd_iff_mod_2_eq_one)

lemma syscall_return_spec:
  "get_tf p TF_a0 (syscall_return p num v s) = v"
  "procs (syscall_return p num v s) = procs s"
  "console (syscall_return p num v s) = console s @
     (if bit (trace_mask (getp s p)) num
      then [TraceLine (pid (getp s p)) (syscall_names ! num) (sint (ucast v :: u32))] else [])"
  by (simp_all add: syscall_return_def Let_def get_tf_def trace_bit mem_simps)

lemma syscall_known:
  assumes "myproc s = Some p" "get_tf p TF_a7 s = of_nat num" "0 < num" "num < NELEM_syscalls"
    "syscalls e num s = Inr (Ret v, s1)"
  shows "syscall e s = Inr (Ret v, syscall_return p num v s1)"
proof -
  have "num < 24" using assms(4) by (simp add: NELEM_syscalls_def SYS_sysinfo_def)
  then have n: "sint (ucast (load64 (mem s) (trapframe (getp s p) + TF_a7)) :: u32) = int num"
    using sint_ucast_of_nat[of num] assms(2) by (simp add: get_tf_def)
  show ?thesis
    unfolding syscall_def the_proc_def assms(1) option.case n Let_def
    using assms(3-5) by simp
qed

section \<open>Returning to user mode\<close>

lemma intr_simps [simp]:
  "procs (intr_on s) = procs s" "mem (intr_on s) = mem s" "myproc (intr_on s) = myproc s"
  "procs (intr_off s) = procs s" "mem (intr_off s) = mem s" "myproc (intr_off s) = myproc s"
  "get_tf p off (intr_on s) = get_tf p off s" "get_tf p off (intr_off s) = get_tf p off s"
  by (simp_all add: intr_on_def intr_off_def myproc_def mycpu_def cpuid_def get_tf_def)

lemma usertrapret_spec:
  assumes "myproc s = Some p" and pa: "page_aligned (trapframe (getp s p))"
  shows "\<exists>s'. usertrapret s = Inr (UserMode (MAKE_SATP (pagetable (getp s p))), s') \<and>
    sepc s' = get_tf p TF_epc s \<and> procs s' = procs s \<and> console s' = console s \<and> cpus s' = cpus s \<and>
    sstatus s' AND SSTATUS_SPP = 0 \<and> \<not> intr_get s' \<and> alarms s' = alarms s \<and>
    (\<forall>off<PGSIZE. 40 \<le> off \<or> off = TF_epc \<longrightarrow> unat off mod 8 = 0 \<longrightarrow> get_tf p off s' = get_tf p off s)"
proof -
  define s2 where "s2 = (intr_off s)\<lparr>stvec := TRAMPOLINE + (uservec (intr_off s) - trampoline (intr_off s))\<rparr>"
  define s6 where "s6 = set_tf p 32 (of_nat (hart s)) (set_tf p 16 (usertrap_addr s)
    (set_tf p 8 (kstack (getp s p) + PGSIZE) (set_tf p 0 (satp s) s2)))"
  have tf: "trapframe (getp s2 p) = trapframe (getp s p)" by (simp add: s2_def)
  have g: "get_tf p off s6 = get_tf p off s" if "off < PGSIZE" "40 \<le> off \<or> off = TF_epc" "unat off mod 8 = 0" for off
  proof -
    have "get_tf p off s6 = get_tf p off s2"
      unfolding s6_def using that pa tf
      by (subst get_set_tf; simp add: PGSIZE_def)+ (auto simp: TF_epc_def)
    then show ?thesis by (simp add: s2_def get_tf_def)
  qed
  define s' where "s' = s6\<lparr>sstatus := (sstatus s6 AND NOT SSTATUS_SPP) OR SSTATUS_SPIE, sepc := get_tf p TF_epc s6\<rparr>"
  have k6: "procs s6 = procs s" "console s6 = console s" "cpus s6 = cpus s" "alarms s6 = alarms s"
    "sstatus s6 = sstatus s AND NOT SSTATUS_SIE"
    by (simp_all add: s6_def s2_def set_tf_def intr_off_def)
  have r: "usertrapret s = Inr (UserMode (MAKE_SATP (pagetable (getp s p))), s')"
    by (simp add: usertrapret_def the_proc_def assms(1) Let_def s'_def s6_def s2_def set_tf_def get_tf_def intr_off_def)
  have "sstatus s' AND SSTATUS_SPP = 0" "sstatus s' AND SSTATUS_SIE = 0"
    by (simp_all add: s'_def k6 clear_and_set) (simp_all add: SSTATUS_SPP_def SSTATUS_SIE_def SSTATUS_SPIE_def)
  moreover have "sepc s' = get_tf p TF_epc s" using g[of TF_epc] by (simp add: s'_def TF_epc_def PGSIZE_def)
  moreover have "get_tf p off s' = get_tf p off s6" for off by (simp add: s'_def get_tf_def)
  ultimately show ?thesis
    using r g k6 by (intro exI[of _ s']) (simp add: intr_get_def s'_def)
qed

section \<open>A concrete trap\<close>

text \<open>
  The child of \<open>init\<close> runs on CPU 0 and has trapped with a given cause, a given memory and a given alarm;
  its trap frame is in the page at \<open>0x87000000\<close> and it traces \<open>getpid\<close>.
\<close>

definition trap_at :: "memory \<Rightarrow> u64 \<Rightarrow> alarm \<Rightarrow> trapk" where
  "trap_at m cause al = \<lparr>mem = m, kend = KERNBASE, freelist = 0,
     procs = (replicate NPROC empty_slot)
       [0 := empty_slot\<lparr>pstate := SLEEPING, chan := ChanProc 0, pid := 1\<rparr>,
        1 := empty_slot\<lparr>pstate := RUNNING, pid := 2, parent := Some 0, trapframe := 0x87000000, trace_mask := 2048\<rparr>],
     nextpid = 3, initproc = Some 0, cpus = [Some 1, None], hart = 0, trampoline = 0, forkret_addr = 0,
     ticks = 5, ticks_addr = 0x80001000, console = [], alarms = replicate NPROC al,
     sstatus = 0, sepc = 0x100, scause = cause, stval = 0, stvec = 0, satp = 0, sip = 0,
     kernelvec = 0, uservec = 0, userret = 0, usertrap_addr = 0\<rparr>"

definition no_alarm :: alarm where
  "no_alarm = \<lparr>alarmticks = 0, handler = 0, passedticks = 0, trapframecopy = 0\<rparr>"

definition trap_fs :: "trapk fs_ops" where
  "trap_fs = \<lparr>op_filedup = (\<lambda>f s. Inr (f, s)), op_fileclose = (\<lambda>f s. Inr s), op_idup = (\<lambda>f s. Inr (f, s)),
     op_iput = (\<lambda>f s. Inr s), op_namei = (\<lambda>n s. Inr (1, s))\<rparr>"

definition trap_env :: "trapk sys_env" where
  "trap_env = \<lparr>env_fs = trap_fs, env_sched = calm, env_sysinfo = (\<lambda>_ _. []), env_file_call = (\<lambda>_. ret (-1))\<rparr>"

definition no_dev :: "trapk dev_ops" where
  "no_dev = \<lparr>plic_claim = (\<lambda>s. (0, s)), plic_complete = (\<lambda>_ s. s), uartintr = (\<lambda>s. s), virtio_disk_intr = (\<lambda>s. s)\<rparr>"

lemma trap_fs_ok [simp]: "fs_ops_ok trap_fs"
  by (simp add: fs_ops_ok_def trap_fs_def)

lemma trap_at_sel [simp]:
  "length (procs (trap_at m x al)) = NPROC" "cpus (trap_at m x al) = [Some 1, None]" "hart (trap_at m x al) = 0"
  "initproc (trap_at m x al) = Some 0" "myproc (trap_at m x al) = Some 1" "mem (trap_at m x al) = m"
  "scause (trap_at m x al) = x" "sepc (trap_at m x al) = 0x100" "sstatus (trap_at m x al) = 0"
  "alarms (trap_at m x al) = replicate NPROC al" "console (trap_at m x al) = []" "ticks (trap_at m x al) = 5"
  "stval (trap_at m x al) = 0" "kernelvec (trap_at m x al) = 0"
  "getp (trap_at m x al) (Suc 0) =
     empty_slot\<lparr>pstate := RUNNING, pid := 2, parent := Some 0, trapframe := 0x87000000, trace_mask := 2048\<rparr>"
  by (auto simp: trap_at_def NPROC_def nth_list_update myproc_def mycpu_def cpuid_def)

lemma trap_page [simp]: "page_aligned 0x87000000"
  by (simp add: page_aligned_def PGSIZE_def)

section \<open>System calls\<close>

text \<open>
  C18: a system call whose handler returns \<open>v\<close>, made by a process that is not killed, resumes in user mode
  at the instruction after the \<open>ecall\<close>, with \<open>v\<close> in \<open>a0\<close>; the console has one more line, with the name of
  the call and its result, exactly when the bit of the call is set in the process's trace mask.
\<close>

theorem syscall_resumes_with_result:
  fixes s :: "'a trapk_scheme"
  defines "s3 \<equiv> \<lambda>p. intr_on (set_tf p TF_epc (sepc s + 4) (set_tf p TF_epc (sepc s) (s\<lparr>stvec := kernelvec s\<rparr>)))"
  assumes "myproc s = Some p" "killed (getp s p) = 0" "page_aligned (trapframe (getp s p))"
    and "sstatus s AND SSTATUS_SPP = 0" "scause s = 8"
    and "get_tf p TF_a7 s = of_nat num" "0 < num" "num < NELEM_syscalls"
    and h: "syscalls e num (s3 p) = Inr (Ret v, s4)" "myproc s4 = Some p" "killed (getp s4 p) = 0"
      "trapframe (getp s4 p) = trapframe (getp s p)" "get_tf p TF_epc s4 = get_tf p TF_epc (s3 p)"
  shows "\<exists>s'. usertrap ops c dev (syscall e) s = Inr (UserMode (MAKE_SATP (pagetable (getp s4 p))), s') \<and>
    sepc s' = sepc s + 4 \<and> get_tf p TF_a0 s' = v \<and>
    console s' = console s4 @ (if bit (trace_mask (getp s4 p)) num
      then [TraceLine (pid (getp s4 p)) (syscall_names ! num) (sint (ucast v :: u32))] else [])"
proof -
  note R = syscall_return_spec[of p num v s4]
  let ?s5 = "syscall_return p num v s4"
  have "get_tf p TF_a7 (s3 p) = of_nat num" "get_tf p TF_epc (s3 p) = sepc s + 4"
    unfolding s3_def using assms(4,7) by (simp_all add: get_set_tf TF_defs PGSIZE_def) (simp_all add: get_tf_def)
  note pre = this
  have sys: "syscall e (s3 p) = Inr (Ret v, ?s5)"
    by (rule syscall_known) (use pre h assms in \<open>simp_all add: s3_def\<close>)
  have m5: "myproc ?s5 = Some p"
    using h(2) by (simp add: syscall_return_def Let_def)
  have "get_tf p TF_epc ?s5 = get_tf p TF_epc (set_tf p TF_a0 v s4)"
    by (simp add: syscall_return_def Let_def get_tf_def set_tf_def)
  then have e5: "get_tf p TF_epc ?s5 = sepc s + 4"
    using get_set_tf[of s4 p TF_epc TF_a0 v] h(4,5) assms(4) pre by (simp add: TF_defs PGSIZE_def)
  obtain s' where "usertrapret ?s5 = Inr (UserMode (MAKE_SATP (pagetable (getp s4 p))), s')" and
    s': "sepc s' = sepc s + 4" "console s' = console ?s5" "get_tf p TF_a0 s' = v"
    using usertrapret_spec[OF m5] e5 R assms(4) h(4) by (auto simp: TF_defs PGSIZE_def)
  moreover have "usertrap ops c dev (syscall e) s = usertrapret ?s5"
  proof -
    let ?s2 = "set_tf p TF_epc (sepc s) (s\<lparr>stvec := kernelvec s\<rparr>)"
    have "get_tf p TF_epc ?s2 = sepc s" by (simp add: get_tf_def set_tf_def mem_simps)
    then have "intr_on (set_tf p TF_epc (get_tf p TF_epc ?s2 + 4) ?s2) = s3 p" by (simp add: s3_def)
    moreover have "scause ?s2 = 8" using assms(6) by (simp add: set_tf_def)
    ultimately show ?thesis
      using assms(2,3,5) sys R h(3) by (simp add: usertrap_def the_proc_def Let_def usertrap_end_def)
  qed
  ultimately show ?thesis using R by auto
qed

theorem syscall_resumes_with_result_witness:
  "\<exists>s'. usertrap trap_fs calm no_dev (syscall trap_env) (trap_at (store64 (\<lambda>_. 0) 0x870000A8 11) 8 no_alarm) =
      Inr (UserMode (MAKE_SATP 0), s') \<and>
    sepc s' = 0x104 \<and> get_tf 1 TF_a0 s' = 2 \<and> console s' = [TraceLine 2 ''getpid'' 2]"
proof -
  let ?s = "trap_at (store64 (\<lambda>_. 0) 0x870000A8 11) 8 no_alarm"
  let ?s3 = "intr_on (set_tf 1 TF_epc (sepc ?s + 4) (set_tf 1 TF_epc (sepc ?s) (?s\<lparr>stvec := kernelvec ?s\<rparr>)))"
  have h: "syscalls trap_env 11 ?s3 = Inr (Ret 2, ?s3)"
    by (simp add: syscalls_def SYS_fork_def SYS_exit_def SYS_wait_def SYS_kill_def SYS_getpid_def
        sys_getpid_def the_proc_def)
  have a7: "get_tf 1 TF_a7 ?s = of_nat 11" by (simp add: get_tf_def TF_a7_def empty_slot_def mem_simps)
  have n: "syscall_names ! 11 = ''getpid''" by (simp add: syscall_names_def)
  have c: "console ?s3 = []" by (simp add: set_tf_def intr_on_def)
  have b: "bit (2048 :: int) 11" by simp
  have l: "(11 :: nat) < NELEM_syscalls" by (simp add: NELEM_syscalls_def SYS_sysinfo_def)
  show ?thesis
    using syscall_resumes_with_result[of ?s 1 11 trap_env 2 ?s3 trap_fs calm no_dev, OF _ _ _ _ _ a7 _ l h] b n
    by (simp add: empty_slot_def c[simplified])
qed

section \<open>Sleeping on the clock\<close>

lemma clockintr_wakes:
  assumes "length (procs s) = NPROC" "p < NPROC" "pstate (getp s p) = SLEEPING"
    "chan (getp s p) = ChanAddr (ticks_addr s)" "myproc s \<noteq> Some p"
  shows "pstate (getp (clockintr s) p) = RUNNABLE" "ticks (clockintr s) = ticks s + 1"
proof -
  have len: "length (procs (s\<lparr>ticks := ticks s + 1\<rparr>)) = NPROC" using assms(1) by simp
  from wakeup_spec(2)[OF len assms(2), of "ChanAddr (ticks_addr s)"] assms
  show "pstate (getp (clockintr s) p) = RUNNABLE" by (simp add: clockintr_def woken_def)
  have "ticks (fold (wakeup_one ch me) l t) = ticks t" for ch me l and t :: "'a sysk_scheme"
    by (induction l arbitrary: t) (auto simp: wakeup_one_def upd_proc_def)
  then show "ticks (clockintr s) = ticks s + 1" by (simp add: clockintr_def wakeup_def)
qed

lemma elapsed_less:
  assumes "ticks s = t0 + of_nat k" "k < 2 ^ 32"
  shows "ticks s - t0 < word_of_int n \<longleftrightarrow> int k < n mod 2 ^ 32"
proof -
  have "uint (ticks s - t0) = int k" using assms by (simp add: unsigned_of_nat take_bit_nat_eq_self)
  moreover have "uint (word_of_int n :: u32) = n mod 2 ^ 32" by (simp add: unsigned_of_int take_bit_eq_mod)
  ultimately show ?thesis by (simp add: word_less_def)
qed

text \<open>
  C21: \<open>sys_sleep\<close> with argument \<open>n\<close>, looking at the clock \<open>k\<close> ticks after it started, returns 0 if \<open>n\<close> ticks have
  passed; otherwise it is asleep, its CPU is free, and the next clock interrupt, on whatever CPU it
  arrives, makes it runnable so that it looks again at tick \<open>k + 1\<close>. The number of ticks is \<open>n\<close> modulo \<open>2 ^ 32\<close>:
  a negative argument does not return at once but sleeps for \<open>2 ^ 31\<close> ticks or more.
\<close>

theorem sleep_looks_every_tick:
  fixes s :: "'a sysk_scheme"
  assumes "myproc s = Some p" "p < NPROC" "length (procs s) = NPROC" "killed (getp s p) = 0"
    and "holding_plock c" "noff c = 1" "\<not> intr_enabled c"
    and "ticks s = t0 + of_nat k" "k < 2 ^ 32"
  shows "if n mod 2 ^ 32 \<le> int k then sys_sleep_round c n t0 s = Inr (Ret 0, s)
    else \<exists>s'. sys_sleep_round c n t0 s = Inr (Asleep, s') \<and> pstate (getp s' p) = SLEEPING \<and>
      cpus s' = (cpus s)[hart s := None] \<and>
      (\<forall>h. cpus s' ! h \<noteq> Some p \<longrightarrow> pstate (getp (clockintr (s'\<lparr>hart := h\<rparr>)) p) = RUNNABLE \<and>
        ticks (clockintr (s'\<lparr>hart := h\<rparr>)) = t0 + of_nat (Suc k))"
proof (cases "n mod 2 ^ 32 \<le> int k")
  case True
  with elapsed_less[OF assms(8,9), of n] show ?thesis
    using assms(1) by (simp add: sys_sleep_round_def the_proc_def)
next
  case False
  define s' where "s' = (upd_proc p (\<lambda>q. q\<lparr>chan := ChanAddr (ticks_addr s), pstate := SLEEPING\<rparr>) s)
    \<lparr>cpus := (cpus s)[hart s := None]\<rparr>"
  have ta: "ticks_addr s' = ticks_addr s" "ticks s' = ticks s" by (simp_all add: s'_def upd_proc_def)
  have p': "pstate (getp s' p) = SLEEPING" "chan (getp s' p) = ChanAddr (ticks_addr s')" "length (procs s') = NPROC"
    using assms(2,3) by (simp_all add: ta(1)) (simp_all add: s'_def)
  have "sys_sleep_round c n t0 s = Inr (Asleep, s')"
    using False elapsed_less[OF assms(8,9), of n] assms
    by (simp add: sys_sleep_round_def the_proc_def sleep_def sched_def s'_def mycpu_def cpuid_def)
  moreover have "pstate (getp (clockintr (s'\<lparr>hart := h\<rparr>)) p) = RUNNABLE \<and>
      ticks (clockintr (s'\<lparr>hart := h\<rparr>)) = t0 + of_nat (Suc k)" if "cpus s' ! h \<noteq> Some p" for h
    using clockintr_wakes[of "s'\<lparr>hart := h\<rparr>" p] that p' assms(2,8) ta
    by (simp add: myproc_def mycpu_def cpuid_def ac_simps)
  ultimately show ?thesis using False p' by (auto simp: s'_def)
qed

theorem sleep_looks_every_tick_witness:
  "sys_sleep_round calm 2 3 (trap_at (\<lambda>_. 0) 8 no_alarm) = Inr (Ret 0, trap_at (\<lambda>_. 0) 8 no_alarm) \<and>
   (\<exists>s'. sys_sleep_round calm (-1) 3 (trap_at (\<lambda>_. 0) 8 no_alarm) = Inr (Asleep, s') \<and> pstate (getp s' 1) = SLEEPING \<and>
      pstate (getp (clockintr (s'\<lparr>hart := 1\<rparr>)) 1) = RUNNABLE)"
proof -
  let ?s = "trap_at (\<lambda>_. 0) 8 no_alarm"
  have c: "holding_plock calm" "noff calm = 1" "\<not> intr_enabled calm" by (simp_all add: calm_def)
  have k: "ticks ?s = 3 + of_nat 2" "killed (getp ?s 1) = 0"
    by (simp_all add: empty_slot_def)
  note T = sleep_looks_every_tick[of ?s 1 calm, OF _ _ _ k(2) c k(1)]
  from T[of 2] have "sys_sleep_round calm 2 3 ?s = Inr (Ret 0, ?s)" by simp
  moreover from T[of "-1"] obtain s' where "sys_sleep_round calm (-1) 3 ?s = Inr (Asleep, s')"
    "pstate (getp s' 1) = SLEEPING" "cpus s' = [None, None]"
    "\<forall>h. cpus s' ! h \<noteq> Some 1 \<longrightarrow> pstate (getp (clockintr (s'\<lparr>hart := h\<rparr>)) 1) = RUNNABLE"
    by auto
  moreover from this have "pstate (getp (clockintr (s'\<lparr>hart := 1\<rparr>)) 1) = RUNNABLE" by simp
  ultimately show ?thesis by blast
qed

section \<open>Alarms\<close>

lemma c_int_small: "0 \<le> x \<Longrightarrow> x < 2 ^ 31 \<Longrightarrow> c_int x = x"
  by (simp add: c_int_def signed_of_int signed_take_bit_int_eq_self)

lemma upd_alarm_simps [simp]:
  "procs (upd_alarm p f s) = procs s" "mem (upd_alarm p f s) = mem s" "myproc (upd_alarm p f s) = myproc s"
  "alarms (upd_alarm p f s) = (alarms s)[p := f (geta s p)]"
  by (simp_all add: upd_alarm_def)

lemma alarm_tick_frame:
  "procs (alarm_tick p s) = procs s" "cpus (alarm_tick p s) = cpus s" "hart (alarm_tick p s) = hart s"
  "myproc (alarm_tick p s) = myproc s" "ticks (alarm_tick p s) = ticks s"
  by (simp_all add: alarm_tick_def Let_def set_tf_def upd_alarm_def myproc_def mycpu_def cpuid_def)

lemma funpow2: "(f ^^ 2) x = f (f x)"
  by (simp add: numeral_2_eq_2)

lemma alarm_tick_other:
  assumes "alarmticks (geta s p) \<noteq> 0" "0 \<le> passedticks (geta s p)" "passedticks (geta s p) + 1 < 2 ^ 31"
    "p < length (alarms s)" "passedticks (geta s p) + 1 \<noteq> alarmticks (geta s p)"
  shows "alarm_tick p s = upd_alarm p (\<lambda>a. a\<lparr>passedticks := passedticks a + 1\<rparr>) s"
  using assms by (simp add: alarm_tick_def Let_def c_int_small upd_alarm_def)

lemma alarm_ticks_quiet:
  assumes "alarmticks (geta s p) \<noteq> 0" "0 \<le> passedticks (geta s p)" "passedticks (geta s p) + int k < 2 ^ 31"
    "p < length (alarms s)"
    "\<forall>j. 0 < j \<and> j \<le> k \<longrightarrow> passedticks (geta s p) + int j \<noteq> alarmticks (geta s p)"
  shows "(alarm_tick p ^^ k) s = upd_alarm p (\<lambda>a. a\<lparr>passedticks := passedticks a + int k\<rparr>) s"
  using assms
proof (induction k)
  case 0
  then show ?case by (simp add: upd_alarm_def)
next
  case (Suc k)
  then have "(alarm_tick p ^^ k) s = upd_alarm p (\<lambda>a. a\<lparr>passedticks := passedticks a + int k\<rparr>) s" (is "_ = ?t")
    by auto
  moreover have "alarm_tick p ?t = upd_alarm p (\<lambda>a. a\<lparr>passedticks := passedticks a + 1\<rparr>) ?t"
    by (rule alarm_tick_other) (use Suc.prems(5)[rule_format, of "Suc k"] Suc.prems in auto)
  ultimately show ?case using Suc.prems(4) by (simp add: upd_alarm_def add.commute add.left_commute)
qed

lemma alarm_tick_fires:
  assumes "0 < alarmticks (geta s p)" "passedticks (geta s p) + 1 = alarmticks (geta s p)"
    "alarmticks (geta s p) < 2 ^ 31" "p < length (alarms s)"
  defines "tf \<equiv> trapframe (getp s p)"
  shows "mem (alarm_tick p s) = store64 (memmove (mem s) (copy_addr tf) tf sizeof_trapframe) (tf + TF_epc) (handler (geta s p))"
    "procs (alarm_tick p s) = procs s"
    "alarms (alarm_tick p s) = (alarms s)[p := (geta s p)\<lparr>passedticks := alarmticks (geta s p), trapframecopy := copy_addr tf\<rparr>]"
  using assms by (simp_all add: alarm_tick_def Let_def c_int_small set_tf_def)

text \<open>
  C20: counting from zero, the alarm fires exactly at the tick whose number is the interval: before it
  nothing in memory is touched, at it the saved program counter becomes the handler, and after it,
  as long as the handler has not called \<open>sigreturn\<close>, nothing is touched again, so the handler is not
  entered a second time.
\<close>

theorem alarm_fires_once:
  assumes "passedticks (geta s p) = 0" "alarmticks (geta s p) = int n" "0 < n"
    and "p < length (alarms s)" "k < 2 ^ 31" "n < 2 ^ 31"
  shows "mem ((alarm_tick p ^^ k) s) = (if k < n then mem s else mem ((alarm_tick p ^^ n) s)) \<and>
    get_tf p TF_epc ((alarm_tick p ^^ n) s) = handler (geta s p)"
proof -
  have quiet: "(alarm_tick p ^^ j) s = upd_alarm p (\<lambda>a. a\<lparr>passedticks := int j\<rparr>) s" if "j < n" for j
    using alarm_ticks_quiet[of s p j] assms that by (simp add: upd_alarm_def)
  have n: "(alarm_tick p ^^ n) s = alarm_tick p ((alarm_tick p ^^ (n - 1)) s)"
    using assms(3) by (cases n) auto
  let ?t = "(alarm_tick p ^^ (n - 1)) s"
  let ?u = "(alarm_tick p ^^ n) s"
  have t: "?t = upd_alarm p (\<lambda>a. a\<lparr>passedticks := int (n - 1)\<rparr>) s" using quiet assms(3) by simp
  have F: "mem ?u = store64 (memmove (mem s) (copy_addr (trapframe (getp s p))) (trapframe (getp s p)) sizeof_trapframe)
      (trapframe (getp s p) + TF_epc) (handler (geta s p))" "procs ?u = procs s"
    "alarms ?u = (alarms s)[p := (geta s p)\<lparr>passedticks := int n, trapframecopy := copy_addr (trapframe (getp s p))\<rparr>]"
    unfolding n t
    using alarm_tick_fires[of "upd_alarm p (\<lambda>a. a\<lparr>passedticks := int (n - 1)\<rparr>) s" p] assms
    by (simp_all add: of_nat_diff)
  have "get_tf p TF_epc ?u = handler (geta s p)" by (simp add: get_tf_def F mem_simps)
  moreover have "mem ((alarm_tick p ^^ k) s) = mem ?u" if "\<not> k < n"
  proof -
    have "(alarm_tick p ^^ k) s = (alarm_tick p ^^ (k - n)) ?u"
      using that by (simp flip: funpow_add[THEN fun_cong, unfolded o_apply])
    also have "mem \<dots> = mem ?u"
      using alarm_ticks_quiet[of ?u p "k - n"] F(3) assms that by simp
    finally show ?thesis .
  qed
  ultimately show ?thesis using quiet[of k] by auto
qed

definition every_two :: alarm where
  "every_two = \<lparr>alarmticks = 2, handler = 0x1000, passedticks = 0, trapframecopy = 0\<rparr>"

theorem alarm_fires_once_witness:
  "mem (alarm_tick 1 (trap_at (\<lambda>_. 0) 8 every_two)) = (\<lambda>_. 0) \<and>
   get_tf 1 TF_epc (alarm_tick 1 (alarm_tick 1 (trap_at (\<lambda>_. 0) 8 every_two))) = 0x1000"
  using alarm_fires_once[of "trap_at (\<lambda>_. 0) 8 every_two" 1 2 1]
  by (simp add: every_two_def funpow2)

lemma copy_disjoint: "a < 288 \<Longrightarrow> \<not> copy_addr tf + a - (tf + TF_epc) < 8"
proof -
  assume a: "a < 288"
  have eq: "copy_addr tf + a - (tf + TF_epc) = a + 147432" by (simp add: copy_addr_def TF_defs)
  have "unat (a + 147432) = unat a + 147432"
    using a by (subst unat_add_lem[THEN iffD1]) (simp_all add: word_less_nat_alt)
  then show ?thesis unfolding eq by (simp add: word_less_nat_alt)
qed

text \<open>
  C19: when the alarm has fired and the handler calls \<open>sigreturn\<close>, all 288 bytes of the trap frame (every
  register and the program counter) are what they were when the timer interrupted the process, the
  call returns the interrupted value of \<open>a0\<close>, and the counter starts again; provided nothing has
  written to the copy, which lies 147456 bytes above the trap frame.
\<close>

theorem sigreturn_restores_trapframe:
  fixes s u :: "'a trapk_scheme"
  assumes "0 < alarmticks (geta s p)" "passedticks (geta s p) + 1 = alarmticks (geta s p)"
    and "alarmticks (geta s p) < 2 ^ 31" "p < length (alarms s)"
    and "myproc u = Some p" "trapframe (getp u p) = trapframe (getp s p)" "p < length (alarms u)"
    and "trapframecopy (geta u p) = trapframecopy (geta (alarm_tick p s) p)"
    and "\<And>x. x - copy_addr (trapframe (getp s p)) < sizeof_trapframe \<Longrightarrow> mem u x = mem (alarm_tick p s) x"
  shows "\<exists>u'. sys_sigreturn u = Inr (Ret (get_tf p TF_a0 s), u') \<and> passedticks (geta u' p) = 0 \<and>
    (\<forall>x. x - trapframe (getp s p) < sizeof_trapframe \<longrightarrow> mem u' x = mem s x)"
proof -
  define tf where "tf = trapframe (getp s p)"
  note F = alarm_tick_fires[OF assms(1-4), folded tf_def]
  define m' where "m' = memmove (mem u) tf (copy_addr tf) sizeof_trapframe"
  have cp: "mem u (copy_addr tf + a) = mem s (tf + a)" if "a < 288" for a
  proof -
    have "mem u (copy_addr tf + a) = mem (alarm_tick p s) (copy_addr tf + a)"
      by (rule assms(9)) (use that in \<open>simp add: tf_def TF_defs\<close>)
    with that copy_disjoint[OF that, of tf] show ?thesis
      by (simp add: F(1) store64_def memmove_def sizeof_trapframe_def)
  qed
  have m': "m' x = mem s x" if "x - tf < sizeof_trapframe" for x
    using that cp[of "x - tf"] by (simp add: m'_def memmove_def sizeof_trapframe_def)
  have "load64 m' (tf + TF_a0) = load64 (mem s) (tf + TF_a0)"
  proof (rule load64_cong)
    fix x assume x: "x - (tf + TF_a0) < 8"
    have "x - tf = (x - (tf + TF_a0)) + 112" by (simp add: TF_a0_def)
    moreover have "unat ((x - (tf + TF_a0)) + 112) = unat (x - (tf + TF_a0)) + 112"
      using x by (subst unat_add_lem[THEN iffD1]) (simp_all add: word_less_nat_alt)
    ultimately show "m' x = mem s x" using x by (intro m') (simp add: sizeof_trapframe_def word_less_nat_alt)
  qed
  moreover have "sys_sigreturn u = Inr (Ret (load64 m' (tf + TF_a0)),
      upd_alarm p (\<lambda>a. a\<lparr>passedticks := 0\<rparr>) (u\<lparr>mem := m'\<rparr>))"
    using assms(4-8) F(3)
    by (simp add: sys_sigreturn_def the_proc_def Let_def tf_def m'_def get_tf_def)
  ultimately show ?thesis
    using m' assms(7) by (auto simp: tf_def get_tf_def)
qed

definition due :: alarm where
  "due = \<lparr>alarmticks = 2, handler = 0x1000, passedticks = 1, trapframecopy = 0\<rparr>"

theorem sigreturn_restores_trapframe_witness:
  "\<exists>u'. sys_sigreturn (alarm_tick 1 (trap_at (store64 (\<lambda>_. 0) 0x87000070 77) 8 due)) = Inr (Ret 77, u') \<and>
     passedticks (geta u' 1) = 0"
proof -
  let ?s = "trap_at (store64 (\<lambda>_. 0) 0x87000070 77) 8 due"
  have a0: "get_tf 1 TF_a0 ?s = 77" by (simp add: get_tf_def TF_a0_def empty_slot_def mem_simps)
  have F: "procs (alarm_tick 1 ?s) = procs ?s" "length (alarms (alarm_tick 1 ?s)) = NPROC"
    using alarm_tick_fires(2,3)[of ?s 1] by (simp_all add: due_def)
  show ?thesis
    using sigreturn_restores_trapframe[of ?s 1 "alarm_tick 1 ?s"] F
    by (simp add: due_def alarm_tick_frame a0[unfolded due_def One_nat_def]) blast
qed



section \<open>Interrupts and unexpected traps\<close>

lemma devintr_none:
  "\<not> (scause s AND 0x8000000000000000 \<noteq> 0 \<and> scause s AND 0xff = 9) \<Longrightarrow> scause s \<noteq> 0x8000000000000001 \<Longrightarrow>
     devintr dev s = (0, s)"
  by (auto simp: devintr_def)

lemma devintr_timer:
  "scause s = 0x8000000000000001 \<Longrightarrow>
     devintr dev s = (2, let s1 = if cpuid s = 0 then clockintr s else s in s1\<lparr>sip := sip s1 AND NOT 2\<rparr>)"
  by (simp add: devintr_def Let_def)

lemma usertrap_other:
  assumes "myproc s = Some p" "sstatus s AND SSTATUS_SPP = 0" "scause s \<noteq> 8"
  shows "usertrap ops c dev sys s =
    (let (w, s3) = devintr dev (set_tf p TF_epc (sepc s) (s\<lparr>stvec := kernelvec s\<rparr>)) in
     if w \<noteq> 0 then usertrap_end ops c p w s3
     else usertrap_end ops c p 0 (upd_proc p (\<lambda>q. q\<lparr>killed := 1\<rparr>)
       (s3\<lparr>console := console s3 @ [UnexpectedTrap (scause s3) (pid (getp s3 p)) (sepc s3) (stval s3)]\<rparr>)))"
proof -
  have "scause (set_tf p TF_epc (sepc s) (s\<lparr>stvec := kernelvec s\<rparr>)) = scause s" by (simp add: set_tf_def)
  with assms show ?thesis by (simp add: usertrap_def the_proc_def Let_def split: prod.splits)
qed

text \<open>
  A trap that is neither a system call nor an interrupt (an access the page table does not allow,
  an illegal instruction) ends the process: it is a zombie with status -1, its CPU is free, and a line on
  the console names the cause, its pid and the address.
\<close>

theorem unexpected_trap_kills:
  fixes s :: "'a trapk_scheme"
  assumes "fs_ops_ok ops" "length (procs s) = NPROC" "length (ofile (getp s p)) = NOFILE"
    and "myproc s = Some p" "p < NPROC" "initproc s \<noteq> Some p"
    and "holding_plock c" "noff c = 1" "\<not> intr_enabled c"
    and "\<And>f t. \<exists>t'. op_fileclose ops f t = Inr t'" "\<And>f t. \<exists>t'. op_iput ops f t = Inr t'"
    and "sstatus s AND SSTATUS_SPP = 0" "scause s \<noteq> 8" "scause s AND 0x8000000000000000 = 0"
  shows "\<exists>s' s4. usertrap ops c dev sys s = Inr (Dead, s') \<and> pstate (getp s' p) = ZOMBIE \<and> xstate (getp s' p) = -1 \<and>
    cpus s' = (cpus s)[hart s := None] \<and> exit ops c (-1) s4 = Inr s' \<and>
    console s4 = console s @ [UnexpectedTrap (scause s) (pid (getp s p)) (sepc s) (stval s)]"
proof -
  define s3 where "s3 = set_tf p TF_epc (sepc s) (s\<lparr>stvec := kernelvec s\<rparr>)"
  define s4 where "s4 = upd_proc p (\<lambda>q. q\<lparr>killed := 1\<rparr>)
     (s3\<lparr>console := console s3 @ [UnexpectedTrap (scause s3) (pid (getp s3 p)) (sepc s3) (stval s3)]\<rparr>)"
  have sc: "scause s3 = scause s" "sepc s3 = sepc s" "stval s3 = stval s" "console s3 = console s"
    by (simp_all add: s3_def set_tf_def)
  have "scause s \<noteq> 0x8000000000000001" using assms(14) by auto
  then have d: "devintr dev s3 = (0, s3)" using assms(14) by (intro devintr_none) (simp_all add: sc)
  have k: "killed (getp s4 p) = 1" using assms(2,5) by (simp add: s4_def s3_def)
  have 4: "length (procs s4) = NPROC" "length (ofile (getp s4 p)) = NOFILE" "myproc s4 = Some p"
    "initproc s4 \<noteq> Some p" "cpus s4 = cpus s" "hart s4 = hart s"
    using assms by (simp_all add: s4_def s3_def)
  obtain s' where s': "exit ops c (-1) s4 = Inr s'"
    using exit_returns[OF assms(1) 4(1,2,3) assms(5) 4(4) assms(7-11)] by blast
  have "usertrap ops c dev sys s = usertrap_end ops c p 0 s4"
    unfolding usertrap_other[OF assms(4,12,13)] s3_def[symmetric] d by (simp add: s4_def)
  also have "\<dots> = Inr (Dead, s')" using k s' by (simp add: usertrap_end_def trap_exit_def)
  finally show ?thesis
    using exit_spec[OF assms(1) 4(1,2,3) assms(5) s'] s' 4 sc
    by (intro exI[of _ s'] exI[of _ s4]) (simp add: s4_def upd_proc_def s3_def set_tf_def)
qed

theorem unexpected_trap_kills_witness:
  "\<exists>s'. usertrap trap_fs calm no_dev (syscall trap_env) (trap_at (\<lambda>_. 0) 13 no_alarm) = Inr (Dead, s') \<and>
     pstate (getp s' 1) = ZOMBIE \<and> xstate (getp s' 1) = -1 \<and> cpus s' = [None, None]"
proof -
  have c: "holding_plock calm" "noff calm = 1" "\<not> intr_enabled calm" by (simp_all add: calm_def)
  show ?thesis
    using unexpected_trap_kills[of trap_fs "trap_at (\<lambda>_. 0) 13 no_alarm" 1 calm no_dev "syscall trap_env", OF trap_fs_ok _ _ _ _ _ c]
    by (auto simp: trap_fs_def empty_slot_def)
qed

lemma wakeup_procs: "\<exists>ps. wakeup ch s = s\<lparr>procs := ps\<rparr>"
proof -
  have "\<exists>ps. fold (wakeup_one ch me) l s = s\<lparr>procs := ps\<rparr>" for me l
  proof (induction l arbitrary: s)
    case Nil
    show ?case by (intro exI[of _ "procs s"]) simp
  next
    case (Cons i l)
    from Cons[of "wakeup_one ch me i s"] show ?case by (auto simp: wakeup_one_def upd_proc_def split: if_splits)
  qed
  then show ?thesis by (simp add: wakeup_def)
qed

text \<open>
  A timer interrupt in user mode preempts the process: it is runnable, its CPU is free, its program
  counter is saved, and the clock advances by one on CPU 0 only.
\<close>

theorem timer_preempts:
  fixes s :: "'a trapk_scheme"
  assumes "length (procs s) = NPROC" "myproc s = Some p" "p < NPROC" "killed (getp s p) = 0" "pstate (getp s p) = RUNNING"
    and "holding_plock c" "noff c = 1" "\<not> intr_enabled c"
    and "sstatus s AND SSTATUS_SPP = 0" "scause s = 0x8000000000000001" "alarmticks (geta s p) = 0"
  shows "\<exists>s'. usertrap ops c dev sys s = Inr (InSched, s') \<and> pstate (getp s' p) = RUNNABLE \<and>
    cpus s' = (cpus s)[hart s := None] \<and> get_tf p TF_epc s' = sepc s \<and>
    ticks s' = ticks s + (if hart s = 0 then 1 else 0)"
proof -
  define s3 where "s3 = set_tf p TF_epc (sepc s) (s\<lparr>stvec := kernelvec s\<rparr>)"
  have s3: "length (procs s3) = NPROC" "procs s3 = procs s" "cpus s3 = cpus s" "hart s3 = hart s" "myproc s3 = Some p"
    "get_tf p TF_epc s3 = sepc s" "ticks s3 = ticks s" "scause s3 = scause s" "alarms s3 = alarms s"
    using assms(1,2) by (simp_all add: s3_def set_tf_def get_tf_def mem_simps)
  define s4 where "s4 = (let s1 = if cpuid s3 = 0 then clockintr s3 else s3 in s1\<lparr>sip := sip s1 AND NOT 2\<rparr>)"
  have d: "devintr dev s3 = (2, s4)" using devintr_timer[of s3 dev] assms(10) s3(8) by (simp add: s4_def)
  obtain ps where w: "clockintr s3 = s3\<lparr>ticks := ticks s3 + 1, procs := ps\<rparr>"
    using wakeup_procs[of "ChanAddr (ticks_addr s3)" "s3\<lparr>ticks := ticks s3 + 1\<rparr>"] by (auto simp: clockintr_def)
  have "getp (clockintr s3) p = getp s3 p"
    using wakeup_spec(2)[of "s3\<lparr>ticks := ticks s3 + 1\<rparr>" p "ChanAddr (ticks_addr s3)"] s3(1) assms(3,5)
    by (simp add: clockintr_def woken_def s3(2,5))
  then have gp: "getp s4 p = getp s p" by (simp add: s4_def Let_def s3(2))
  have lp: "length (procs s4) = NPROC"
    using wakeup_spec(1)[of "s3\<lparr>ticks := ticks s3 + 1\<rparr>"] s3(1) by (simp add: s4_def Let_def clockintr_def)
  have 4: "mem s4 = mem s3" "cpus s4 = cpus s" "hart s4 = hart s" "alarms s4 = alarms s"
    "ticks s4 = ticks s + (if hart s = 0 then 1 else 0)"
    using s3 by (simp_all add: s4_def Let_def w cpuid_def)
  have m4: "myproc s4 = Some p" using assms(2) 4 by (simp add: myproc_def mycpu_def cpuid_def)
  have a: "alarm_tick p s4 = s4" using assms(11) by (simp add: alarm_tick_def 4)
  define s' where "s' = (upd_proc p (\<lambda>q. q\<lparr>pstate := RUNNABLE\<rparr>) s4)\<lparr>cpus := (cpus s)[hart s := None]\<rparr>"
  have "yield c s4 = Inr s'"
    using assms(3,6-8) m4 lp 4 by (simp add: yield_def the_proc_def sched_def s'_def mycpu_def cpuid_def)
  then have "usertrap ops c dev sys s = Inr (InSched, s')"
    using usertrap_other[OF assms(2,9), of ops c dev sys] assms(4,10) gp
    unfolding s3_def[symmetric] d by (simp add: usertrap_end_def a)
  moreover have "pstate (getp s' p) = RUNNABLE" "cpus s' = (cpus s)[hart s := None]" "ticks s' = ticks s4"
    "get_tf p TF_epc s' = get_tf p TF_epc s3"
    using assms(3) lp gp s3(2) by (simp_all add: s'_def get_tf_def 4 upd_proc_def)
  ultimately show ?thesis using 4 s3(6) by auto
qed

theorem timer_preempts_witness:
  "\<exists>s'. usertrap trap_fs calm no_dev (syscall trap_env) (trap_at (\<lambda>_. 0) 0x8000000000000001 no_alarm) = Inr (InSched, s') \<and>
     pstate (getp s' 1) = RUNNABLE \<and> get_tf 1 TF_epc s' = 0x100 \<and> ticks s' = 6"
proof -
  have c: "holding_plock calm" "noff calm = 1" "\<not> intr_enabled calm" by (simp_all add: calm_def)
  show ?thesis
    using timer_preempts[of "trap_at (\<lambda>_. 0) 0x8000000000000001 no_alarm" 1 calm trap_fs no_dev "syscall trap_env", OF _ _ _ _ _ c]
    by (auto simp: no_alarm_def empty_slot_def)
qed

end
