(* ===== verification/PgAccess.thy ===== *)
theory PgAccess
  imports SysProps
begin

text \<open>
  \<open>sys_pgaccess\<close> of the page table lab: the mask it reports has one bit per accessed page, and the
  accessed bits of exactly these pages are cleared in the page table.
\<close>

lemma PTE_A_clear [simp]: "(pte AND NOT PTE_A) AND PTE_V = pte AND PTE_V"
  by (rule bit_word_eqI) (auto simp: pte_bits bit_simps bit_1_iff)

definition accessed :: "'a machine_scheme \<Rightarrow> u64 \<Rightarrow> u64 \<Rightarrow> bool" where
  "accessed s pt va \<longleftrightarrow> (\<exists>pte. vmap s pt va = Some pte \<and> pte AND PTE_A \<noteq> 0)"

lemma access_bit_bits: "i < 31 \<Longrightarrow> bit (access_bit i) j \<longleftrightarrow> j = i"
  by (auto simp: access_bit_def bit_simps)

text \<open>The last bit that fits is the sign bit of \<open>int\<close>: its conversion sets the whole upper half.\<close>

lemma access_bit_31: "access_bit 31 = 0xFFFFFFFF80000000"
  by (simp add: access_bit_def)

definition page_va :: "u64 \<Rightarrow> nat \<Rightarrow> u64" where
  "page_va va k = va + of_nat k * PGSIZE"

lemma page_va_simps: "page_va va 0 = va" "page_va (va + PGSIZE) k = page_va va (Suc k)"
  by (simp_all add: page_va_def algebra_simps)

lemma page_va_unat: "unat va + 4096 * k < 2 ^ 39 \<Longrightarrow> unat (page_va va k) = unat va + 4096 * k"
proof -
  assume k: "unat va + 4096 * k < 2 ^ 39"
  have "page_va va k = of_nat (unat va + 4096 * k)" by (simp add: page_va_def PGSIZE_def)
  then show ?thesis using k by (simp only: unat_of_nat) simp
qed

lemma page_va_distinct:
  assumes "unat va + 4096 * k < 2 ^ 39" "0 < k"
  shows "\<not> same_vpn 2 (page_va va k) va"
proof -
  have u: "unat (page_va va k) = unat va + 4096 * k" using assms(1) by (rule page_va_unat)
  have "PGROUNDDOWN (page_va va k) \<noteq> PGROUNDDOWN va"
  proof
    assume "PGROUNDDOWN (page_va va k) = PGROUNDDOWN va"
    then have "unat (PGROUNDDOWN (page_va va k)) = unat (PGROUNDDOWN va)" by simp
    then have "unat va + 4096 * k - (unat va + 4096 * k) mod 4096 = unat va - unat va mod 4096"
      by (simp only: unat_PGROUNDDOWN u)
    moreover have "(unat va + 4096 * k) mod 4096 = unat va mod 4096" by simp
    moreover have "unat va mod 4096 \<le> unat va" by simp
    ultimately show False using assms(2) by linarith
  qed
  with u assms show ?thesis by (subst same_vpn_iff) simp_all
qed

text \<open>
  What the loop does, for pages that are mapped: the mask gains the bits of the accessed pages, and
  the map of the address space changes by clearing the accessed bit of the pages scanned.
\<close>

definition scanned :: "u64 \<Rightarrow> nat \<Rightarrow> u64 \<Rightarrow> bool" where
  "scanned va n va' \<longleftrightarrow> (\<exists>k<n. same_vpn 2 va' (page_va va k))"

lemma scanned_Suc: "scanned va (Suc n) va' \<longleftrightarrow> same_vpn 2 va' va \<or> scanned (va + PGSIZE) n va'"
  unfolding scanned_def by (auto simp: page_va_simps less_Suc_eq_0_disj)

lemma and_not_idem: "(w AND NOT a) AND NOT a = w AND NOT a" for w a :: u64
  by (rule bit_word_eqI) (auto simp: bit_simps)

lemma and_not_unset: "w AND a = 0 \<Longrightarrow> w AND NOT a = w" for w a :: u64
  by (auto simp: bit_eq_iff bit_simps)

lemma clear_leaf:
  assumes "pt_wf 2 m e pt" "lookup 2 m pt va = Some pte"
  defines "a \<equiv> leaf_addr 2 m pt va"
  defines "m1 \<equiv> if load64 m a AND PTE_A \<noteq> 0 then store64 m a (load64 m a AND NOT PTE_A) else m"
  shows "a \<noteq> 0" "load64 m a = pte" "pt_wf 2 m1 e pt" "tpages 2 m1 pt = tpages 2 m pt"
    "same_outside (tpages 2 m pt) m m1"
    "lookup 2 m1 pt va' = map_option (\<lambda>pte. if same_vpn 2 va' va then pte AND NOT PTE_A else pte) (lookup 2 m pt va')"
proof -
  from lookup_leaf[OF assms(1), of va] assms(2)
  show a: "a \<noteq> 0" "load64 m a = pte" by (auto simp: a_def Let_def split: if_splits)
  have v: "valid pte" using lookup_leaf[OF assms(1), of va] assms(2) by (auto simp: Let_def split: if_splits)
  have pg: "aligned8 a" "PGROUNDDOWN a \<in> tpages 2 m pt"
    using leaf_addr_page[OF assms(1)] a(1) by (simp_all add: a_def)
  note L = leaf_store[OF assms(1), of va, folded a_def, OF a(1)]
  show "pt_wf 2 m1 e pt" "tpages 2 m1 pt = tpages 2 m pt" using L assms(1) by (auto simp: m1_def)
  show "same_outside (tpages 2 m pt) m m1"
    using same_outside_mono[OF same_outside_store64[OF pg(1)], of "tpages 2 m pt"] pg(2) by (auto simp: m1_def)
  have sv: "lookup 2 m pt va' = Some pte" if "same_vpn 2 va' va"
    using lookup_cong[of 2 va' va m pt] that assms(2) by (simp add: same_vpn_def)
  show "lookup 2 m1 pt va' = map_option (\<lambda>pte. if same_vpn 2 va' va then pte AND NOT PTE_A else pte) (lookup 2 m pt va')"
    using L v sv a(2) by (auto simp: m1_def and_not_unset option.map_ident)
qed

lemma pgaccess_loop_spec:
  assumes "myproc s = Some p" "pt_wf 2 (mem s) e (pagetable (getp s p))" "unat va + 4096 * n \<le> 2 ^ 38"
    and "\<And>k. k < n \<Longrightarrow> vmap s (pagetable (getp s p)) (page_va va k) \<noteq> None"
  shows "\<exists>m'. pgaccess_loop [j..<j + n] va bm s =
      Inr (fold (OR) (map access_bit (filter (\<lambda>i. accessed s (pagetable (getp s p)) (page_va va (i - j))) [j..<j + n])) bm,
           s\<lparr>mem := m'\<rparr>) \<and>
    pt_wf 2 m' e (pagetable (getp s p)) \<and> same_outside (tpages 2 (mem s) (pagetable (getp s p))) (mem s) m' \<and>
    (\<forall>va'. lookup 2 m' (pagetable (getp s p)) va' =
       map_option (\<lambda>pte. if scanned va n va' then pte AND NOT PTE_A else pte) (vmap s (pagetable (getp s p)) va'))"
  using assms
proof (induction n arbitrary: j va bm s)
  case 0
  then show ?case by (intro exI[of _ "mem s"]) (simp add: scanned_def option.map_ident)
next
  case (Suc n)
  let ?pt = "pagetable (getp s p)"
  obtain pte where pte: "vmap s ?pt va = Some pte" using Suc.prems(4)[of 0] by (auto simp: page_va_simps)
  define a where "a = leaf_addr 2 (mem s) ?pt va"
  define m1 where "m1 = (if load64 (mem s) a AND PTE_A \<noteq> 0 then store64 (mem s) a (load64 (mem s) a AND NOT PTE_A) else mem s)"
  note C = clear_leaf[OF Suc.prems(2) pte, folded a_def, folded m1_def]
  define s1 where "s1 = s\<lparr>mem := m1\<rparr>"
  have s1: "myproc s1 = Some p" "procs s1 = procs s" using Suc.prems(1) by (simp_all add: s1_def)
  have va: "va < MAXVA" "unat (va + PGSIZE) = unat va + 4096"
    using Suc.prems(3) by (auto simp: below_MAXVA va_step)
  have acc: "accessed s ?pt va \<longleftrightarrow> load64 (mem s) a AND PTE_A \<noteq> 0" using pte C(2) by (simp add: accessed_def)
  have u: "[j..<j + Suc n] = j # [Suc j..<Suc j + n]" by (simp add: upt_conv_Cons del: upt_Suc)
  have step: "pgaccess_loop [j..<j + Suc n] va bm s =
      pgaccess_loop [Suc j..<Suc j + n] (va + PGSIZE) (if accessed s ?pt va then bm OR access_bit j else bm) s1"
    using va(1) C(1) Suc.prems(1) unfolding u
    by (simp del: upt_Suc add: walk_def walk_loop_no_alloc the_proc_def acc s1_def m1_def a_def)
  have other: "accessed s1 ?pt (page_va (va + PGSIZE) k) \<longleftrightarrow> accessed s ?pt (page_va va (Suc k))"
    "vmap s1 ?pt (page_va (va + PGSIZE) k) \<noteq> None" if "k < n" for k
    using C(6)[of "page_va va (Suc k)"] page_va_distinct[of va "Suc k"] Suc.prems(3) Suc.prems(4)[of "Suc k"] that
    by (simp_all add: accessed_def s1_def page_va_simps option.map_ident)
  define bm' where "bm' = (if accessed s ?pt va then bm OR access_bit j else bm)"
  obtain m' where ih: "pgaccess_loop [Suc j..<Suc j + n] (va + PGSIZE) bm' s1 =
      Inr (fold (OR) (map access_bit (filter (\<lambda>i. accessed s1 ?pt (page_va (va + PGSIZE) (i - Suc j))) [Suc j..<Suc j + n])) bm',
           s1\<lparr>mem := m'\<rparr>)"
    "pt_wf 2 m' e ?pt" "same_outside (tpages 2 (mem s1) ?pt) (mem s1) m'"
    "\<And>va'. lookup 2 m' ?pt va' =
       map_option (\<lambda>pte. if scanned (va + PGSIZE) n va' then pte AND NOT PTE_A else pte) (vmap s1 ?pt va')"
    using Suc.IH[of s1 "va + PGSIZE" "Suc j" bm'] s1 C(3) va(2) Suc.prems(3) other(2)
    unfolding s1_def by (auto simp del: upt_Suc)
  have fl: "filter (\<lambda>i. accessed s1 ?pt (page_va (va + PGSIZE) (i - Suc j))) [Suc j..<Suc j + n] =
      filter (\<lambda>i. accessed s ?pt (page_va va (i - j))) [Suc j..<Suc j + n]"
    by (rule filter_cong) (use other(1) in \<open>auto simp: Suc_diff_Suc\<close>)
  have t: "tpages 2 (mem s1) ?pt = tpages 2 (mem s) ?pt" "mem s1 = m1" using C(4) by (simp_all add: s1_def)
  have "lookup 2 m' ?pt va' =
      map_option (\<lambda>pte. if scanned va (Suc n) va' then pte AND NOT PTE_A else pte) (vmap s ?pt va')" for va'
    unfolding ih(4) t(2) C(6) by (cases "vmap s ?pt va'") (auto simp: scanned_Suc and_not_idem)
  moreover have "same_outside (tpages 2 (mem s) ?pt) (mem s) m'"
    using same_outside_trans[OF C(5) ih(3)[unfolded t(2)]] C(4) by simp
  ultimately show ?case
    unfolding step bm'_def[symmetric] ih(1) fl unfolding u using ih(2)
    by (intro exI[of _ m']) (simp add: s1_def bm'_def page_va_simps or.commute[of bm] del: upt_Suc)
qed

lemma bit_fold_OR: "bit (fold (OR) ws (w :: u64)) i \<longleftrightarrow> bit w i \<or> (\<exists>v\<in>set ws. bit v i)"
  by (induction ws arbitrary: w) (auto simp: bit_simps)


definition touched :: trapk where
  "touched = upd_proc 1 (\<lambda>p. p\<lparr>pagetable := P0\<rparr>)
     (trap_at (store64 (tree_mem (user_pte OR PTE_A)) 0x87000078 1) 8 no_alarm)"

lemma touched_sel [simp]:
  "myproc touched = Some 1" "pagetable (getp touched (Suc 0)) = P0" "trapframe (getp touched (Suc 0)) = 0x87000000"
  "mem touched = store64 (tree_mem (user_pte OR PTE_A)) 0x87000078 1"
  by (simp_all add: touched_def empty_slot_def)

lemma touched_args:
  "argint 1 touched = Inr 1" "argaddr 0 touched = Inr 0" "argaddr 2 touched = Inr 0"
proof -
  have z: "load64 (tree_mem u) a = 0" if "aligned8 a" "P0 \<noteq> a" "P1 \<noteq> a" "P2 \<noteq> a" for u a
  proof -
    have "aligned8 P0" "aligned8 P1" "aligned8 P2" by (simp_all add: page_aligned_aligned8)
    then show ?thesis using that
      by (simp add: tree_mem_def slot_def load64_store64_other load64_def[of "\<lambda>_. 0"] load_le_zero)
  qed
  have "aligned8 0x87000078" "aligned8 0x87000070" "aligned8 0x87000080" by (simp_all add: aligned8_def)
  then show "argint 1 touched = Inr 1" "argaddr 0 touched = Inr 0" "argaddr 2 touched = Inr 0"
    by (simp_all add: argint_def argaddr_def argraw_def the_proc_def TF_a0_def mem_simps z) (simp_all add: z P_defs)
qed


end
