(* ===== verification/VmCount.thy ===== *)
theory VmCount
  imports VmCorrect
begin

text \<open>
  How many pages a page table takes. \<open>within\<close> says that the tree has branches only towards virtual
  addresses of a set \<open>V\<close>; \<open>dirs\<close> counts the tables that these addresses need. Mapping addresses of
  \<open>V\<close> keeps \<open>within\<close>, so the number of pages of the tree has a bound that depends on \<open>V\<close> only.
\<close>

fun within :: "nat \<Rightarrow> memory \<Rightarrow> u64 \<Rightarrow> u64 set \<Rightarrow> bool" where
  "within 0 m p V \<longleftrightarrow> True"
| "within (Suc l) m p V \<longleftrightarrow>
     (\<forall>i<512. valid (entry m p i) \<longrightarrow>
        i \<in> PX (Suc l) ` V \<and> within l m (PTE2PA (entry m p i)) {v \<in> V. PX (Suc l) v = i})"

fun dirs :: "nat \<Rightarrow> u64 set \<Rightarrow> nat" where
  "dirs 0 V = 1"
| "dirs (Suc l) V = 1 + (\<Sum>i \<in> PX (Suc l) ` V. dirs l {v \<in> V. PX (Suc l) v = i})"

lemma tpages_dirs:
  assumes "within l m p V"
  shows "finite (tpages l m p) \<and> card (tpages l m p) \<le> dirs l V"
  using assms
proof (induction l arbitrary: p V)
  case 0
  then show ?case by simp
next
  case (Suc l)
  let ?I = "{i. i < 512 \<and> valid (entry m p i)}"
  let ?T = "\<lambda>i. tpages l m (PTE2PA (entry m p i))"
  have c: "finite (?T i) \<and> card (?T i) \<le> dirs l {v \<in> V. PX (Suc l) v = i}" if "i \<in> ?I" for i
    using that Suc.prems by (intro Suc.IH) simp
  have sub: "?I \<subseteq> PX (Suc l) ` V" using Suc.prems by auto
  have fin: "finite ?I" "finite (PX (Suc l) ` V)" by simp_all
  have "card (\<Union>i\<in>?I. ?T i) \<le> (\<Sum>i\<in>?I. card (?T i))" using fin(1) by (rule card_UN_le)
  also have "\<dots> \<le> (\<Sum>i\<in>?I. dirs l {v \<in> V. PX (Suc l) v = i})" using c by (intro sum_mono) blast
  also have "\<dots> \<le> (\<Sum>i\<in>PX (Suc l) ` V. dirs l {v \<in> V. PX (Suc l) v = i})"
    by (rule sum_mono2) (use fin sub in auto)
  finally have n: "card (\<Union>i\<in>?I. ?T i) \<le> (\<Sum>i\<in>PX (Suc l) ` V. dirs l {v \<in> V. PX (Suc l) v = i})" .
  have f: "finite (\<Union>i\<in>?I. ?T i)" using c fin(1) by blast
  have "card (tpages (Suc l) m p) \<le> Suc (card (\<Union>i\<in>?I. ?T i))"
    by (simp add: card_insert_if f)
  with n f show ?case by simp
qed

lemma within_frame:
  assumes "pt_wf l m e p" "same_outside P m m'" "P \<inter> tpages l m p = {}" "within l m p V"
  shows "within l m' p V"
  using assms
proof (induction l arbitrary: p V)
  case 0
  then show ?case by simp
next
  case (Suc l)
  have e: "entry m' p i = entry m p i" if "i < 512" for i
    using that Suc.prems by (intro entry_same_outside) (auto simp: managed_def)
  have "within l m' (PTE2PA (entry m p i)) {v \<in> V. PX (Suc l) v = i}"
    if "i < 512" "valid (entry m p i)" for i
    using that Suc.prems child_subset[OF that, of l] by (intro Suc.IH) auto
  with Suc.prems(4) show ?case by (simp add: e)
qed

lemma within_empty: "(\<And>i. i < 512 \<Longrightarrow> entry m q i = 0) \<Longrightarrow> within l m q V"
  by (cases l) auto

text \<open>The subtree towards an address of \<open>V\<close> changes, the rest of the tree stays.\<close>

lemma within_subtree:
  assumes wf: "pt_wf (Suc l) m e p" and i: "i < 512" "valid (entry m p i)"
    and c: "c = PTE2PA (entry m p i)"
    and so: "same_outside (tpages l m c \<union> N) m m'" and N: "N \<inter> tpages (Suc l) m p = {}"
    and w: "within (Suc l) m p V" "within l m' c {v \<in> V. PX (Suc l) v = i}"
  shows "within (Suc l) m' p V"
proof -
  have p: "p \<notin> tpages l m c \<union> N" "page_aligned p" using wf i c N by (auto simp: managed_def)
  have e: "entry m' p j = entry m p j" if "j < 512" for j
    using entry_same_outside[OF so] p that by blast
  have "within l m' (PTE2PA (entry m p j)) {v \<in> V. PX (Suc l) v = j}"
    if j: "j < 512" "valid (entry m p j)" "j \<noteq> i" for j
  proof -
    have "tpages l m (PTE2PA (entry m p j)) \<inter> tpages l m c = {}" using wf i j c by auto
    moreover have "tpages l m (PTE2PA (entry m p j)) \<inter> N = {}"
      using N child_subset[OF j(1,2), of l] by auto
    ultimately show ?thesis using wf w(1) j by (intro within_frame[OF _ so]) auto
  qed
  moreover have "j \<in> PX (Suc l) ` V" if "j < 512" "valid (entry m p j)" for j
    using w(1) that by simp
  ultimately show ?thesis using w(2) c by (auto simp: e)
qed

text \<open>Writing a leaf entry does not change the branches.\<close>

lemma within_leaf_store:
  assumes "pt_wf l m e p" "leaf_addr l m p va \<noteq> 0" "within l m p V"
  shows "within l (store64 m (leaf_addr l m p va) v) p V"
  using assms
proof (induction l arbitrary: p V)
  case 0
  then show ?case by simp
next
  case (Suc l)
  let ?i = "PX (Suc l) va"
  define c where "c = PTE2PA (entry m p ?i)"
  from Suc.prems(2) have i: "valid (entry m p ?i)"
    and eq: "leaf_addr (Suc l) m p va = leaf_addr l m c va" and a: "leaf_addr l m c va \<noteq> 0"
    by (auto simp: Let_def c_def split: if_splits)
  have wf: "pt_wf l m e c" and w: "within l m c {v \<in> V. PX (Suc l) v = ?i}"
    using Suc.prems i by (simp_all add: c_def)
  note pg = leaf_addr_page[OF wf a]
  have "same_outside (tpages l m c \<union> {}) m (store64 m (leaf_addr l m c va) v)"
    by (rule same_outside_mono[OF same_outside_store64]) (use pg in simp_all)
  from within_subtree[OF Suc.prems(1) PX_lt i c_def this _ Suc.prems(3)] Suc.IH[OF wf a w]
  show ?case unfolding eq by simp
qed

text \<open>Linking an empty table towards an address of \<open>V\<close>.\<close>

lemma within_link:
  assumes wf: "pt_wf (Suc l) m e p" and i: "i < 512" "\<not> valid (entry m p i)"
    and q: "managed e q" "q \<notin> tpages (Suc l) m p" and so: "same_outside {q} m m1"
    and m': "m' = store64 (memset m1 q 0 PGSIZE) (slot p i) (PA2PTE q OR PTE_V)"
    and w: "within (Suc l) m p V" "i \<in> PX (Suc l) ` V"
  shows "within (Suc l) m' p V"
proof -
  from link_fresh[OF wf i q so m']
  have L: "same_outside {p, q} m m'" "PTE2PA (entry m' p i) = q" "\<forall>j<512. entry m' q j = 0" by blast+
  have al: "page_aligned p" "page_aligned q" "p \<noteq> q" using wf q by (auto simp: managed_def)
  have so1: "same_outside {q} m (memset m1 q 0 PGSIZE)"
    using same_outside_trans[OF so same_outside_memset[OF al(2), of m1 0]] by simp
  have ep: "entry m' p j = entry m p j" if "j < 512" "j \<noteq> i" for j
    using that al i entry_same_outside[OF so1, of p j] by (simp add: m' entry_store64)
  have "within l m' (PTE2PA (entry m p j)) {v \<in> V. PX (Suc l) v = j}"
    if j: "j < 512" "valid (entry m p j)" for j
  proof -
    have "{p, q} \<inter> tpages l m (PTE2PA (entry m p j)) = {}"
      using wf q j child_subset[OF j, of l] by auto
    moreover have "pt_wf l m e (PTE2PA (entry m p j))" using wf j by simp
    moreover have "within l m (PTE2PA (entry m p j)) {v \<in> V. PX (Suc l) v = j}" using w(1) j by simp
    ultimately show ?thesis using within_frame[OF _ L(1)] by blast
  qed
  moreover have "within l m' q {v \<in> V. PX (Suc l) v = i}" using L(3) by (intro within_empty) blast
  moreover have "j \<in> PX (Suc l) ` V" if "j < 512" "valid (entry m p j)" for j using w(1) that by simp
  ultimately have "valid (entry m' p j) \<longrightarrow> j \<in> PX (Suc l) ` V \<and>
      within l m' (PTE2PA (entry m' p j)) {v \<in> V. PX (Suc l) v = j}" if "j < 512" for j
    using that L(2) w(2) ep[of j] by (cases "j = i") simp_all
  then show ?thesis by simp
qed

section \<open>Ranges of whole pages\<close>

lemma whole_pages:
  assumes "page_aligned va" "page_aligned sz" "0 < sz" "unat va + unat sz \<le> 2 ^ 38"
  shows "unat (PGROUNDDOWN (va + sz - 1)) = unat va + unat sz - 4096"
    "va \<le> PGROUNDDOWN v \<and> PGROUNDDOWN v \<le> PGROUNDDOWN (va + sz - 1) \<longleftrightarrow> va \<le> v \<and> v < va + sz"
proof -
  obtain j k where jk: "unat va = 4096 * j" "unat sz = 4096 * k"
    using assms(1,2) by (auto simp: page_aligned_unat elim!: dvdE)
  then obtain k' where k: "k = Suc k'" using assms(3) by (cases k) (auto simp: word_less_nat_alt)
  have us: "unat (va + sz) = unat va + unat sz"
    using assms(4) by (subst unat_add_lem[THEN iffD1]) simp_all
  have ul: "unat (va + sz - 1) = 4096 * (j + k') + 4095"
    using jk us k by (subst unat_sub) (simp_all add: word_le_nat_alt)
  have m: "(4096 * (j + k') + 4095) mod 4096 = (4095 :: nat)"
    using mod_mult_self4[of 4096 "j + k'" 4095] by simp
  have l: "unat (PGROUNDDOWN (va + sz - 1)) = 4096 * (j + k')"
    unfolding unat_PGROUNDDOWN ul m by simp
  then show "unat (PGROUNDDOWN (va + sz - 1)) = unat va + unat sz - 4096" by (simp add: jk k)
  define q where "q = unat v div 4096"
  have v: "unat (PGROUNDDOWN v) = 4096 * q" "unat v = 4096 * q + unat v mod 4096"
    by (simp_all add: unat_PGROUNDDOWN q_def minus_mod_eq_mult_div)
  have "4096 * j \<le> 4096 * q \<longleftrightarrow> 4096 * j \<le> unat v"
    unfolding q_def by (simp add: less_eq_div_iff_mult_less_eq mult.commute)
  moreover have "4096 * q \<le> 4096 * (j + k') \<longleftrightarrow> q < Suc (j + k')" by (simp only: mult_le_cancel1 less_Suc_eq_le) simp
  moreover have "q < Suc (j + k') \<longleftrightarrow> unat v < 4096 * Suc (j + k')"
    unfolding q_def by (simp only: mult.commute [of 4096 "Suc _"] div_less_iff_less_mult zero_less_numeral)
  ultimately show "va \<le> PGROUNDDOWN v \<and> PGROUNDDOWN v \<le> PGROUNDDOWN (va + sz - 1) \<longleftrightarrow> va \<le> v \<and> v < va + sz"
    by (simp only: word_le_nat_alt word_less_nat_alt us l v(1) jk k add_mult_distrib2 [symmetric] add_Suc_right)
qed

context page_allocator
begin

lemma walk_loop_within:
  assumes "ainv s" "pt_wf l (mem s) (kend s) p" "tpages l (mem s) p \<inter> free_pages s = {}"
    and "walk_loop kalloc_op l p va True s = (a, s')" "va \<in> V" "within l (mem s) p V"
  shows "within l (mem s') p V"
  using assms
proof (induction l arbitrary: p s V)
  case 0
  then show ?case by simp
next
  case (Suc l)
  let ?i = "PX (Suc l) va"
  have below: "within (Suc l) (mem s') p V"
    if t: "ainv t" "pt_wf (Suc l) (mem t) (kend t) p" "tpages (Suc l) (mem t) p \<inter> free_pages t = {}"
      "valid (entry (mem t) p ?i)" "within (Suc l) (mem t) p V"
      "walk_loop kalloc_op l (PTE2PA (entry (mem t) p ?i)) va True t = (a, s')" for t
  proof -
    define c where "c = PTE2PA (entry (mem t) p ?i)"
    have sub: "tpages l (mem t) c \<subseteq> tpages (Suc l) (mem t) p"
      unfolding c_def by (rule child_subset) (use t in simp_all)
    have wfc: "pt_wf l (mem t) (kend t) c" using t(2,4) by (simp add: c_def)
    have d: "tpages l (mem t) c \<inter> free_pages t = {}" using sub t(3) by auto
    have w: "walk_loop kalloc_op l c va True t = (a, s')" using t(6) by (simp add: c_def)
    have so: "same_outside (tpages l (mem t) c \<union> (free_pages t - free_pages s')) (mem t) (mem s')"
      using walk_loop_alloc[OF t(1) wfc d w] by metis
    have N: "(free_pages t - free_pages s') \<inter> tpages (Suc l) (mem t) p = {}" using t(3) by auto
    have "within l (mem s') c {v \<in> V. PX (Suc l) v = ?i}"
      by (rule Suc.IH[OF t(1) wfc d w]) (use Suc.prems(5) t(4,5) in \<open>simp_all add: c_def\<close>)
    from within_subtree[OF t(2) PX_lt t(4) c_def so N t(5) this] show ?thesis .
  qed
  show ?case
  proof (cases "valid (entry (mem s) p ?i)")
    case True
    with Suc.prems(4) have "walk_loop kalloc_op l (PTE2PA (entry (mem s) p ?i)) va True s = (a, s')"
      by (simp add: entry_def Let_def)
    from below[OF Suc.prems(1,2,3) True Suc.prems(6) this] show ?thesis .
  next
    case inv: False
    from Suc.prems(1) show ?thesis
    proof (cases rule: kalloc_cases)
      case none
      with inv Suc.prems show ?thesis by (simp add: entry_def Let_def)
    next
      case (some q s1)
      define m3 where "m3 = store64 (memset (mem s1) q 0 PGSIZE) (slot p ?i) (PA2PTE q OR PTE_V)"
      define s3 where "s3 = s1\<lparr>mem := m3\<rparr>"
      have q: "q \<notin> tpages (Suc l) (mem s) p" using some Suc.prems(3) by auto
      have L: "pt_wf (Suc l) m3 (kend s) p" "tpages (Suc l) m3 p = insert q (tpages (Suc l) (mem s) p)"
        "same_outside {p, q} (mem s) m3" "valid (entry m3 p ?i)" "PTE2PA (entry m3 p ?i) = q"
        "\<forall>j<512. entry m3 q j = 0"
        using link_fresh[OF Suc.prems(2) PX_lt _ some(5) q some(8) m3_def] inv by auto
      have w: "walk_loop kalloc_op l (PTE2PA (entry (mem s3) p ?i)) va True s3 = (a, s')"
        using Suc.prems(4) inv some(1,2) L(5) by (simp add: entry_def Let_def s3_def m3_def)
      have al: "page_aligned p" "page_aligned q"
        using Suc.prems(2) some(5) by (simp_all add: managed_def)
      have so3: "same_outside {p, q} (mem s1) m3"
      proof -
        have "same_outside {p} (memset (mem s1) q 0 PGSIZE) m3"
          unfolding m3_def using same_outside_store64[OF aligned8_slot[OF al(1) PX_lt]] al(1)
          by (simp add: PGROUNDDOWN_slot)
        from same_outside_trans[OF same_outside_memset[OF al(2)] this] show ?thesis
          by (simp add: insert_commute)
      qed
      have "p \<notin> free_pages s" using Suc.prems(3) root_in_tpages[of p "Suc l"] by blast
      then have "{p, q} \<inter> free_pages s1 = {}" using some by auto
      from write_page[OF some(3) so3 this]
      have t: "ainv s3" "free_pages s3 = free_pages s - {q}" "kend s3 = kend s" "mem s3 = m3"
        using some by (simp_all add: s3_def)
      have d: "tpages (Suc l) (mem s3) p \<inter> free_pages s3 = {}"
        using Suc.prems(3) L(2) t(2,4) by auto
      have "within (Suc l) m3 p V"
        by (rule within_link[OF Suc.prems(2) PX_lt _ some(5) q some(8) m3_def Suc.prems(6)])
           (use inv Suc.prems(5) in simp_all)
      with below[of s3] t d w L show ?thesis by simp
    qed
  qed
qed

text \<open>\<open>bounded\<close>: allocator and tree are intact and the tree has branches towards \<open>V\<close> only.\<close>

definition bounded :: "u64 set \<Rightarrow> u64 \<Rightarrow> 'a machine_scheme \<Rightarrow> bool" where
  "bounded V pt s \<longleftrightarrow> ainv s \<and> pt_inv (free_pages s) s pt \<and> within 2 (mem s) pt V"

lemma walk_bounded:
  assumes "bounded V pt s" "a \<in> V" "walk kalloc_op pt a True s = Inr (p, s1)"
  shows "bounded V pt s1 \<and> (p \<noteq> 0 \<longrightarrow> bounded V pt (s1\<lparr>mem := store64 (mem s1) p x\<rparr>))"
proof -
  have b: "ainv s" "pt_inv (free_pages s) s pt" "within 2 (mem s) pt V"
    using assms(1) by (simp_all add: bounded_def)
  have a: "a < MAXVA" and w: "walk_loop kalloc_op 2 pt a True s = (p, s1)"
    using assms(3) by (auto simp: walk_def not_le split: if_splits)
  have W: "within 2 (mem s1) pt V"
    by (rule walk_loop_within[OF b(1) _ _ w assms(2) b(3)]) (use b(2) in \<open>simp_all add: pt_inv_def\<close>)
  have g: "grown pt s s1" and p: "p \<noteq> 0 \<Longrightarrow> p = leaf_addr 2 (mem s1) pt a"
    using walk_alloc[OF b(1,2) a] assms(3) by auto
  have i: "ainv s1" "pt_inv (free_pages s1) s1 pt" using g by (simp_all add: grown_def)
  have "bounded V pt (s1\<lparr>mem := store64 (mem s1) p x\<rparr>)" if "p \<noteq> 0"
  proof -
    have "grown pt s1 (s1\<lparr>mem := store64 (mem s1) p x\<rparr>)" by (rule store_leaf(1)[OF i p[OF that] that refl])
    moreover have "within 2 (store64 (mem s1) p x) pt V"
      using within_leaf_store[of 2 "mem s1" "kend s1" pt a V x] i(2) W p[OF that] that
      by (simp add: pt_inv_def)
    ultimately show ?thesis by (simp add: bounded_def grown_def)
  qed
  with W i show ?thesis by (simp add: bounded_def)
qed

lemma mappages_loop_bounded:
  assumes "mappages_loop kalloc_op pt a last_a pa perm s = Inr (r, s')" "bounded V pt s" "page_aligned a"
    "unat last_a < 2 ^ 38" "unat last_a = unat a + 4096 * n"
    "\<And>v. page_aligned v \<Longrightarrow> a \<le> v \<Longrightarrow> v \<le> last_a \<Longrightarrow> v \<in> V"
  shows "bounded V pt s'"
  using assms
proof (induction n arbitrary: a pa s)
  case 0
  then have last: "last_a = a" by (simp add: word_unat_eq_iff)
  have "a \<in> V" using 0(3,6) last by simp
  with 0(1) walk_bounded[OF 0(2)] show ?case
    by (auto simp: mappages_loop.simps [of kalloc_op pt a] last bindR_Inr_iff Let_def split: if_splits)
next
  case (Suc n)
  have u: "unat (a + PGSIZE) = unat a + 4096" using Suc.prems(4,5) by (intro va_step) simp
  have ne: "a \<noteq> last_a" and le: "a \<le> last_a" using Suc.prems(5) by (auto simp: word_le_nat_alt)
  have aV: "a \<in> V" using Suc.prems(3,6) le by simp
  from Suc.prems(1) obtain p s1 where w: "walk kalloc_op pt a True s = Inr (p, s1)"
    and r: "p = 0 \<and> s' = s1 \<or> p \<noteq> 0 \<and> mappages_loop kalloc_op pt (a + PGSIZE) last_a (pa + PGSIZE) perm
        (s1\<lparr>mem := store64 (mem s1) p (PA2PTE pa OR perm OR PTE_V)\<rparr>) = Inr (r, s')"
    using ne by (auto simp: mappages_loop.simps [of kalloc_op pt a] bindR_Inr_iff Let_def split: if_splits)
  note W = walk_bounded[OF Suc.prems(2) aV w]
  have "a \<le> v" if "a + PGSIZE \<le> v" for v using that u by (simp add: word_le_nat_alt)
  with r W Suc.prems(3-6) u show ?case
    by (auto intro!: Suc.IH[of "a + PGSIZE"] simp: page_aligned_add_PGSIZE)
qed

text \<open>What the tree gains the free list loses.\<close>

lemma grown_card:
  assumes "grown pt s s'" "pt_inv (free_pages s) s pt"
  shows "card (free_pages s') + card (tpages 2 (mem s') pt) = card (free_pages s) + card (tpages 2 (mem s) pt)"
proof -
  have "free_pages s' \<union> tpages 2 (mem s') pt = free_pages s \<union> tpages 2 (mem s) pt"
    using assms(1) by (auto simp: grown_def)
  moreover have "free_pages s' \<inter> tpages 2 (mem s') pt = {}" "free_pages s \<inter> tpages 2 (mem s) pt = {}"
    using assms by (auto simp: grown_def pt_inv_def)
  ultimately show ?thesis by (metis card_Un_disjoint finite)
qed

text \<open>
  \<open>kvmmap\<close> of whole pages does not panic as long as the pages that are free or in the tree are more than the
  tables that the addresses of \<open>V\<close> need.
\<close>

lemma kvmmap_bounded:
  assumes b: "bounded V pt s" "dirs 2 V < card (free_pages s) + card (tpages 2 (mem s) pt)"
    and a: "page_aligned va" "page_aligned sz" "0 < sz" "unat va + unat sz \<le> 2 ^ 38"
    and V: "\<And>v. page_aligned v \<Longrightarrow> va \<le> v \<Longrightarrow> v < va + sz \<Longrightarrow> v \<in> V"
    and n: "\<And>v. unat v < 2 ^ 39 \<Longrightarrow> va \<le> v \<Longrightarrow> v < va + sz \<Longrightarrow> vmap s pt v = None"
  shows "\<exists>s'. kvmmap kalloc_op pt va pa sz perm s = Inr s' \<and> grown pt s s' \<and> bounded V pt s' \<and>
    (\<forall>v. unat v < 2 ^ 39 \<longrightarrow> vmap s' pt v =
       (if va \<le> v \<and> v < va + sz then Some (PA2PTE (pa + (PGROUNDDOWN v - va)) OR perm OR PTE_V)
        else vmap s pt v))"
proof -
  let ?l = "PGROUNDDOWN (va + sz - 1)"
  have i: "ainv s" "pt_inv (free_pages s) s pt" using b(1) by (simp_all add: bounded_def)
  have d: "PGROUNDDOWN va = va" using a(1) by (rule PGROUNDDOWN_aligned)
  note R = whole_pages[OF a]
  have n': "vmap s pt v = None"
    if "unat v < 2 ^ 39" "PGROUNDDOWN va \<le> PGROUNDDOWN v" "PGROUNDDOWN v \<le> ?l" for v
    using n[of v] R(2)[of v] that d by simp
  obtain r s' where r: "mappages kalloc_op pt va sz pa perm s = Inr (r, s')" and g: "grown pt s s'"
    and c: "r = 0 \<and> (\<forall>v. unat v < 2 ^ 39 \<longrightarrow> vmap s' pt v =
        (if va \<le> v \<and> v < va + sz then Some (PA2PTE (pa + (PGROUNDDOWN v - va)) OR perm OR PTE_V)
         else vmap s pt v)) \<or> r = -1 \<and> free_pages s' = {}"
    using mappages_spec[OF i a(3,4) n', of pa perm] unfolding d R(2) by blast
  have sz: "sz \<noteq> 0" using a(3) by auto
  have le: "unat va \<le> unat ?l" using R(1) sz a(2) by (auto simp: page_aligned_unat word_unat_eq_iff dest!: dvd_imp_le)
  have dv: "4096 dvd unat ?l - unat va"
    using a(1) by (intro dvd_diff_nat) (auto simp: page_aligned_unat unat_PGROUNDDOWN minus_mod_eq_div_mult)
  then obtain k where k: "unat ?l = unat va + 4096 * k" using le by (metis dvdE le_add_diff_inverse)
  have lt: "unat ?l < 2 ^ 38" using R(1) a(4) by simp
  have l: "mappages_loop kalloc_op pt va ?l pa perm s = Inr (r, s')" using r sz by (simp add: mappages_def d)
  have b': "bounded V pt s'"
  proof (rule mappages_loop_bounded[OF l b(1) a(1) lt k])
    fix v assume "page_aligned v" "va \<le> v" "v \<le> ?l"
    then show "v \<in> V" using R(2)[of v] V[of v] by (simp add: PGROUNDDOWN_aligned)
  qed
  have "r = 0"
  proof (rule ccontr)
    assume "r \<noteq> 0"
    with c have "free_pages s' = {}" by simp
    with grown_card[OF g i(2)] b(2) have "dirs 2 V < card (tpages 2 (mem s') pt)" by simp
    moreover have "card (tpages 2 (mem s') pt) \<le> dirs 2 V"
      using tpages_dirs[of 2 "mem s'" pt V] b' by (simp add: bounded_def)
    ultimately show False by simp
  qed
  with r g b' c show ?thesis by (simp add: kvmmap_def)
qed

end

end
