(* ===== verification/Kvm.thy ===== *)
theory Kvm
  imports Proc VmCount
begin

text \<open>
  The kernel's own page table (\<open>kvmmake\<close>, \<open>kvminit\<close> and \<open>kvminithart\<close> of \<open>xv6-lab-pagetables/kernel/vm.c\<close>). \<open>etext\<close>, the end of the
  kernel code, is a symbol of the linker script and an argument; the address of the trampoline page is a part of
  the kernel state. \<open>kernel_map\<close> is the map the table is meant to be: devices and RAM at their own addresses,
  the trampoline at the top, and one stack page per process with an unmapped page on both sides.
\<close>

section \<open>The code\<close>

definition kvmmake :: "u64 \<Rightarrow> 'a kernel_scheme \<Rightarrow> (u64 \<times> 'a kernel_scheme) res" where
  "kvmmake etext s =
     (let (kpgtbl, s) = kalloc s in
      if kpgtbl = 0 then Inl Fault
      else let s = s\<lparr>mem := memset (mem s) kpgtbl 0 PGSIZE\<rparr> in
        bindR (kvmmap kalloc kpgtbl UART0 UART0 PGSIZE (PTE_R OR PTE_W) s) (\<lambda>s.
        bindR (kvmmap kalloc kpgtbl VIRTIO0 VIRTIO0 PGSIZE (PTE_R OR PTE_W) s) (\<lambda>s.
        bindR (kvmmap kalloc kpgtbl PLIC PLIC 0x400000 (PTE_R OR PTE_W) s) (\<lambda>s.
        bindR (kvmmap kalloc kpgtbl KERNBASE KERNBASE (etext - KERNBASE) (PTE_R OR PTE_X) s) (\<lambda>s.
        bindR (kvmmap kalloc kpgtbl etext etext (PHYSTOP - etext) (PTE_R OR PTE_W) s) (\<lambda>s.
        bindR (kvmmap kalloc kpgtbl TRAMPOLINE (trampoline s) PGSIZE (PTE_R OR PTE_X) s) (\<lambda>s.
        bindR (proc_mapstacks kpgtbl s) (\<lambda>s. Inr (kpgtbl, s)))))))))"

record kvm = kernel +
  kernel_pagetable :: u64
  satp_reg :: u64

definition kvminit :: "u64 \<Rightarrow> 'a kvm_scheme \<Rightarrow> 'a kvm_scheme res" where
  "kvminit etext s = bindR (kvmmake etext s) (\<lambda>(kpgtbl, s). Inr (s\<lparr>kernel_pagetable := kpgtbl\<rparr>))"

definition kvminithart :: "'a kvm_scheme \<Rightarrow> 'a kvm_scheme" where
  "kvminithart s = s\<lparr>satp_reg := MAKE_SATP (kernel_pagetable s)\<rparr>"

section \<open>The map of the kernel\<close>

definition inside :: "u64 \<Rightarrow> u64 \<Rightarrow> u64 \<Rightarrow> bool" where
  "inside va sz v \<longleftrightarrow> va \<le> v \<and> v < va + sz"

definition kernel_map :: "u64 \<Rightarrow> u64 \<Rightarrow> (nat \<Rightarrow> u64) \<Rightarrow> nat \<Rightarrow> u64 \<Rightarrow> u64 option" where
  "kernel_map etext tramp stk n v =
     (if inside UART0 PGSIZE v \<or> inside VIRTIO0 PGSIZE v \<or> inside PLIC 0x400000 v \<or>
         inside etext (PHYSTOP - etext) v
      then Some (PA2PTE (PGROUNDDOWN v) OR (PTE_R OR PTE_W) OR PTE_V)
      else if inside KERNBASE (etext - KERNBASE) v
      then Some (PA2PTE (PGROUNDDOWN v) OR (PTE_R OR PTE_X) OR PTE_V)
      else if inside TRAMPOLINE PGSIZE v then Some (PA2PTE tramp OR (PTE_R OR PTE_X) OR PTE_V)
      else case find (\<lambda>i. inside (KSTACK (of_nat i)) PGSIZE v) [0..<n] of
        Some i \<Rightarrow> Some (PA2PTE (stk i) OR (PTE_R OR PTE_W) OR PTE_V)
      | None \<Rightarrow> None)"

text \<open>The addresses that the kernel maps, and the number of tables they need.\<close>

definition kernel_vas :: "u64 set" where
  "kernel_vas = {v. inside UART0 PGSIZE v \<or> inside VIRTIO0 PGSIZE v \<or> inside PLIC 0x400000 v \<or>
     inside KERNBASE (PHYSTOP - KERNBASE) v \<or> inside (TRAMPOLINE - 256 * PGSIZE) (257 * PGSIZE) v}"

lemmas layout_defs = UART0_def VIRTIO0_def PLIC_def KERNBASE_def PHYSTOP_def PGSIZE_def
  TRAMPOLINE_def MAXVA_def

lemma kernel_vas_cases:
  assumes "v \<in> kernel_vas"
  obtains "0x10000000 \<le> unat v" "unat v < 0x10002000" | "0x0c000000 \<le> unat v" "unat v < 0x0c400000"
  | "0x80000000 \<le> unat v" "unat v < 0x88000000" | "2 ^ 38 - 257 * 4096 \<le> unat v" "unat v < 2 ^ 38"
proof -
  have "0x10000000 \<le> unat v \<and> unat v < 0x10002000 \<or> 0x0c000000 \<le> unat v \<and> unat v < 0x0c400000 \<or>
    0x80000000 \<le> unat v \<and> unat v < 0x88000000 \<or> 2 ^ 38 - 257 * 4096 \<le> unat v \<and> unat v < 2 ^ 38"
    using assms unfolding kernel_vas_def inside_def layout_defs word_le_nat_alt word_less_nat_alt
    by (auto simp: push_bit_eq_mult)
  then show thesis using that by blast
qed

lemma unat_PX: "unat (PX k v) = unat v div 2 ^ (12 + 9 * k) mod 512"
proof -
  have "unat (drop_bit (12 + 9 * k) v) = drop_bit (12 + 9 * k) (unat v)"
    by (rule bit_eqI) (auto simp: bit_simps dest: bit_imp_le_length)
  then show ?thesis
    by (simp add: PX_def PXSHIFT_def PGSHIFT_def PXMASK_mask unat_and_mask drop_bit_eq_div)
qed

lemma div_eq: "d * q \<le> x \<Longrightarrow> x < d * Suc q \<Longrightarrow> x div d = q" for d q x :: nat
  by (rule div_nat_eqI) (simp_all add: mult.commute)

lemma PX_kernel:
  assumes "v \<in> kernel_vas"
  shows "PX 2 v = 0 \<and> PX 1 v \<in> {96, 97, 128} \<or> PX 2 v = 2 \<and> PX 1 v \<in> of_nat ` {..<64} \<or>
    PX 2 v = 255 \<and> PX 1 v = 511"
  using assms
proof (cases rule: kernel_vas_cases)
  case 1
  then have "unat v div 2 ^ 30 = 0" "unat v div 2 ^ 21 = 128" by (auto intro!: div_eq)
  then have "PX 2 v = 0" "PX 1 v = 128" by (simp_all add: word_unat_eq_iff unat_PX)
  then show ?thesis by simp
next
  case 2
  then have "unat v div 2 ^ 30 = 0" "unat v div 2 ^ 21 = 96 \<or> unat v div 2 ^ 21 = 97"
    by (cases "unat v < 0x0c200000"; auto intro!: div_eq)+
  then have "PX 2 v = 0" "PX 1 v = 96 \<or> PX 1 v = 97" by (auto simp: word_unat_eq_iff unat_PX)
  then show ?thesis by auto
next
  case 3
  then have "unat v div 2 ^ 30 = 2" by (auto intro!: div_eq)
  moreover have "1024 \<le> unat v div 2 ^ 21" "unat v div 2 ^ 21 < 1088"
    using 3 by (simp_all add: less_eq_div_iff_mult_less_eq div_less_iff_less_mult)
  then have "unat v div 2 ^ 21 mod 512 < 64"
    using mod_mult_self2[of "unat v div 2 ^ 21 - 1024" 512 2] by simp
  ultimately have "PX 2 v = 2" "unat (PX 1 v) < 64" by (simp_all add: word_unat_eq_iff unat_PX)
  then show ?thesis by (intro disjI2 disjI1 conjI image_eqI[of _ _ "unat (PX 1 v)"]) simp_all
next
  case 4
  then have "unat v div 2 ^ 30 = 255" "unat v div 2 ^ 21 = 131071" by (auto intro!: div_eq)
  then have "PX 2 v = 255" "PX 1 v = 511" by (simp_all add: word_unat_eq_iff unat_PX)
  then show ?thesis by simp
qed

lemma dirs_kernel: "dirs 2 kernel_vas \<le> 72"
proof -
  let ?f = "\<lambda>i. Suc (card (PX 1 ` {v \<in> kernel_vas. PX 2 v = i}))"
  have "dirs 2 kernel_vas = 1 + (\<Sum>i\<in>PX 2 ` kernel_vas. ?f i)"
    by (simp add: numeral_2_eq_2)
  moreover have "(\<Sum>i\<in>PX 2 ` kernel_vas. ?f i) \<le> (\<Sum>i\<in>{0, 2, 255}. ?f i)"
    by (rule sum_mono2) (auto dest!: PX_kernel)
  moreover have "card (PX 1 ` {v \<in> kernel_vas. PX 2 v = 0}) \<le> card {96, 97, 128 :: u64}"
    by (rule card_mono) (auto dest!: PX_kernel)
  moreover have "card (PX 1 ` {v \<in> kernel_vas. PX 2 v = 2}) \<le> card (of_nat ` {..<64} :: u64 set)"
    by (rule card_mono) (auto dest!: PX_kernel)
  moreover have "card (of_nat ` {..<64} :: u64 set) \<le> 64" using card_image_le[of "{..<64::nat}" of_nat] by simp
  moreover have "card (PX 1 ` {v \<in> kernel_vas. PX 2 v = 255}) \<le> card {511 :: u64}"
    by (rule card_mono) (auto dest!: PX_kernel)
  ultimately show ?thesis by simp
qed

section \<open>Ranges of addresses\<close>

lemma inside_unat:
  "unat va + unat sz < 2 ^ 64 \<Longrightarrow> inside va sz v \<longleftrightarrow> unat va \<le> unat v \<and> unat v < unat va + unat sz"
  unfolding inside_def word_le_nat_alt word_less_nat_alt
  by (subst unat_add_lem[THEN iffD1]) simp_all

lemma unat_layout:
  "unat UART0 = 0x10000000" "unat VIRTIO0 = 0x10001000" "unat PLIC = 0x0c000000" "unat KERNBASE = 0x80000000"
  "unat TRAMPOLINE = 2 ^ 38 - 4096"
  by (simp_all add: layout_defs push_bit_eq_mult)

lemma unat_KSTACK: "i < NPROC \<Longrightarrow> unat (KSTACK (of_nat i)) = 2 ^ 38 - 4096 * (2 * i + 4)"
proof -
  assume i: "i < NPROC"
  have "unat (of_nat i * 2 * PGSIZE + 3 * PGSIZE :: u64) = 4096 * (2 * i + 3)"
  proof -
    have "(of_nat i * 2 * PGSIZE + 3 * PGSIZE :: u64) = of_nat (4096 * (2 * i + 3))"
      by (simp add: PGSIZE_def algebra_simps)
    then show ?thesis using i by (simp only: unat_of_nat) (simp add: NPROC_def)
  qed
  moreover have "KSTACK (of_nat i) = TRAMPOLINE - (of_nat i * 2 * PGSIZE + 3 * PGSIZE)"
    by (simp add: KSTACK_def algebra_simps)
  ultimately show ?thesis using i by (simp add: unat_sub word_le_nat_alt unat_layout NPROC_def)
qed

lemma inside_layout:
  "inside UART0 PGSIZE v \<longleftrightarrow> 0x10000000 \<le> unat v \<and> unat v < 0x10001000"
  "inside VIRTIO0 PGSIZE v \<longleftrightarrow> 0x10001000 \<le> unat v \<and> unat v < 0x10002000"
  "inside PLIC 0x400000 v \<longleftrightarrow> 0x0c000000 \<le> unat v \<and> unat v < 0x0c400000"
  "inside KERNBASE (PHYSTOP - KERNBASE) v \<longleftrightarrow> 0x80000000 \<le> unat v \<and> unat v < 0x88000000"
  "inside TRAMPOLINE PGSIZE v \<longleftrightarrow> 2 ^ 38 - 4096 \<le> unat v \<and> unat v < 2 ^ 38"
  "inside (TRAMPOLINE - 256 * PGSIZE) (257 * PGSIZE) v \<longleftrightarrow> 2 ^ 38 - 4096 * 257 \<le> unat v \<and> unat v < 2 ^ 38"
  by (subst inside_unat; simp add: layout_defs push_bit_eq_mult)+

lemma inside_KSTACK:
  "i < NPROC \<Longrightarrow> inside (KSTACK (of_nat i)) PGSIZE v \<longleftrightarrow>
     2 ^ 38 - 4096 * (2 * i + 4) \<le> unat v \<and> unat v < 2 ^ 38 - 4096 * (2 * i + 3)"
  by (subst inside_unat) (auto simp: unat_KSTACK NPROC_def)

text \<open>What the linker script says of \<open>etext\<close>: it is on a page boundary inside RAM.\<close>

definition etext_ok :: "u64 \<Rightarrow> bool" where
  "etext_ok etext \<longleftrightarrow> page_aligned etext \<and> KERNBASE < etext \<and> etext < PHYSTOP"

lemma unat_etext:
  assumes "etext_ok etext"
  shows "0x80000000 < unat etext" "unat etext < 0x88000000" "unat (etext - KERNBASE) = unat etext - 0x80000000"
    "unat (PHYSTOP - etext) = 0x88000000 - unat etext"
  using assms unfolding etext_ok_def word_less_nat_alt
  by (simp_all add: unat_layout unat_PHYSTOP unat_sub word_le_nat_alt)

lemma inside_etext:
  assumes "etext_ok etext"
  shows "inside KERNBASE (etext - KERNBASE) v \<longleftrightarrow> 0x80000000 \<le> unat v \<and> unat v < unat etext"
    "inside etext (PHYSTOP - etext) v \<longleftrightarrow> unat etext \<le> unat v \<and> unat v < 0x88000000"
  using unat_etext[OF assms] by (subst inside_unat; simp add: unat_layout)+

lemma etext_sizes:
  assumes "etext_ok etext"
  shows "page_aligned (etext - KERNBASE)" "page_aligned (PHYSTOP - etext)"
  using assms unat_etext[OF assms] unfolding etext_ok_def page_aligned_unat
  by (auto simp: dvd_eq_mod_eq_0[symmetric] intro!: dvd_diff_nat)

section \<open>Building the table\<close>

interpretation tf: outside_memory kalloc kfree trampoline
  by unfold_locales (auto simp: kalloc_def kfree_def Let_def split: if_splits)

text \<open>
  The table while it is built: it has branches towards kernel addresses only, \<open>F\<close> pages are free or in it, and its
  abstract map is \<open>M\<close>.
\<close>

definition built :: "nat \<Rightarrow> u64 \<Rightarrow> 'a kernel_scheme \<Rightarrow> (u64 \<Rightarrow> u64 option) \<Rightarrow> bool" where
  "built F pt s M \<longleftrightarrow> ka.bounded kernel_vas pt s \<and>
     card (kmem_free s) + card (tpages 2 (mem s) pt) = F \<and> (\<forall>v. unat v < 2 ^ 39 \<longrightarrow> vmap s pt v = M v)"

definition taken :: "u64 \<Rightarrow> 'a kernel_scheme \<Rightarrow> 'a kernel_scheme \<Rightarrow> bool" where
  "taken pt s s' \<longleftrightarrow> kmem_free s' \<subseteq> kmem_free s \<and>
     tpages 2 (mem s') pt \<subseteq> tpages 2 (mem s) pt \<union> kmem_free s \<and> kend s' = kend s \<and> trampoline s' = trampoline s"

lemma taken_trans: "taken pt s s1 \<Longrightarrow> taken pt s1 s2 \<Longrightarrow> taken pt s s2"
  by (auto simp: taken_def)

lemma kvmmap_built:
  assumes b: "built F pt s M" "72 < F"
    and a: "page_aligned va" "page_aligned sz" "0 < sz" "unat va + unat sz \<le> 2 ^ 38"
    and V: "\<And>v. inside va sz v \<Longrightarrow> v \<in> kernel_vas" and n: "\<And>v. inside va sz v \<Longrightarrow> M v = None"
  obtains s' where "kvmmap kalloc pt va pa sz perm s = Inr s'" "taken pt s s'"
    "built F pt s' (\<lambda>v. if inside va sz v then Some (PA2PTE (pa + (PGROUNDDOWN v - va)) OR perm OR PTE_V) else M v)"
proof -
  have B: "ka.bounded kernel_vas pt s" "dirs 2 kernel_vas < card (kmem_free s) + card (tpages 2 (mem s) pt)"
    using b dirs_kernel by (simp_all add: built_def)
  obtain s' where s': "kvmmap kalloc pt va pa sz perm s = Inr s'" "ka.grown pt s s'" "ka.bounded kernel_vas pt s'"
    "\<forall>v. unat v < 2 ^ 39 \<longrightarrow> vmap s' pt v =
       (if va \<le> v \<and> v < va + sz then Some (PA2PTE (pa + (PGROUNDDOWN v - va)) OR perm OR PTE_V) else vmap s pt v)"
    using ka.kvmmap_bounded[OF B a, of pa perm] V n b(1) by (auto simp: inside_def built_def)
  have "taken pt s s'"
    using s'(2) tf.g_kvmmap[OF s'(1)] by (auto simp: taken_def ka.grown_def)
  moreover have "card (kmem_free s') + card (tpages 2 (mem s') pt) = F"
    using ka.grown_card[OF s'(2)] b(1) B(1) by (simp add: ka.bounded_def built_def)
  ultimately show thesis
    using that[OF s'(1)] s'(3,4) b(1) by (auto simp: built_def inside_def)
qed

text \<open>Taking a page for something else.\<close>

lemma kalloc_built:
  assumes "built F pt s M" "72 < F"
  obtains p s' where "kalloc s = (p, s')" "p \<noteq> 0" "p \<in> kmem_free s" "p \<notin> kmem_free s'" "p \<notin> tpages 2 (mem s') pt"
    "taken pt s s'" "built (F - 1) pt s' M"
proof -
  have i: "kmem_ok s" "pt_wf 2 (mem s) (kend s) pt" "tpages 2 (mem s) pt \<inter> kmem_free s = {}" "within 2 (mem s) pt kernel_vas"
    using assms(1) by (simp_all add: built_def ka.bounded_def pt_inv_def)
  have "card (tpages 2 (mem s) pt) \<le> 72" using tpages_dirs[OF i(4)] dirs_kernel by simp
  then have ne: "kmem_free s \<noteq> {}" using assms by (auto simp: built_def)
  from i(1) show thesis
  proof (cases rule: ka.kalloc_cases)
    case none
    with ne show ?thesis by simp
  next
    case (some p s')
    have d: "{p} \<inter> tpages 2 (mem s) pt = {}" using some(4) i(3) by auto
    note T = tree_frame[OF i(2) some(8) d]
    have "card (kmem_free s') = card (kmem_free s) - 1" "0 < card (kmem_free s)"
      using some(4,6) by (auto simp: card_gt_0_iff)
    moreover have "ka.bounded kernel_vas pt s'"
      using some T i within_frame[OF i(2) some(8) d i(4)] by (auto simp: ka.bounded_def pt_inv_def)
    ultimately have "built (F - 1) pt s' M" using assms(1) T by (auto simp: built_def)
    moreover have "taken pt s s'" using some T tf.g_kalloc[OF some(1)] by (auto simp: taken_def)
    ultimately show ?thesis using that[OF some(1,2,4)] some(4,6) d T by auto
  qed
qed

section \<open>Kernel stacks\<close>

lemma find_snoc: "find P (xs @ [x]) = (case find P xs of Some y \<Rightarrow> Some y | None \<Rightarrow> if P x then Some x else None)"
  by (induction xs) auto

lemma inside_page: "page_aligned va \<Longrightarrow> unat va + 4096 < 2 ^ 64 \<Longrightarrow> inside va PGSIZE v \<Longrightarrow> PGROUNDDOWN v = va"
proof -
  assume a: "page_aligned va" "unat va + 4096 < 2 ^ 64" "inside va PGSIZE v"
  then have "unat va \<le> unat v" "unat v < unat va + 4096" by (simp_all add: inside_unat)
  then have "v - va < PGSIZE" by (simp add: word_less_nat_alt unat_sub word_le_nat_alt)
  with a(1) show ?thesis by (simp add: in_page_iff)
qed

lemma page_aligned_KSTACK: "i < NPROC \<Longrightarrow> page_aligned (KSTACK (of_nat i))"
  by (simp add: page_aligned_unat unat_KSTACK flip: dvd_eq_mod_eq_0)

lemma kernel_map_stack_free:
  assumes "etext_ok etext" "n < NPROC" "inside (KSTACK (of_nat n)) PGSIZE v"
  shows "kernel_map etext tr stk n v = None"
proof -
  have b: "2 ^ 38 - 4096 * (2 * n + 4) \<le> unat v" "unat v < 2 ^ 38 - 4096 * (2 * n + 3)"
    using assms(2,3) by (simp_all add: inside_KSTACK)
  have "\<not> inside (KSTACK (of_nat i)) PGSIZE v" if "i < n" for i
  proof
    assume "inside (KSTACK (of_nat i)) PGSIZE v"
    then have "2 ^ 38 - 4096 * (2 * i + 4) \<le> unat v" using that assms(2) by (simp add: inside_KSTACK)
    with b(2) that assms(2) show False by (simp add: NPROC_def)
  qed
  then have "find (\<lambda>i. inside (KSTACK (of_nat i)) PGSIZE v) [0..<n] = None" by (auto simp: find_None_iff)
  moreover have "0x88000000 \<le> unat v" "unat v < 2 ^ 38 - 4096" using b assms(2) by (simp_all add: NPROC_def)
  ultimately show ?thesis using unat_etext(1,2)[OF assms(1)]
    by (auto simp: kernel_map_def inside_layout inside_etext[OF assms(1)])
qed

lemma kernel_map_Suc:
  assumes "etext_ok etext" "n < NPROC"
  shows "kernel_map etext tr (stk(n := p)) (Suc n) v =
    (if inside (KSTACK (of_nat n)) PGSIZE v
     then Some (PA2PTE (p + (PGROUNDDOWN v - KSTACK (of_nat n))) OR (PTE_R OR PTE_W) OR PTE_V)
     else kernel_map etext tr stk n v)"
proof -
  let ?P = "\<lambda>i. inside (KSTACK (of_nat i)) PGSIZE v"
  have f: "find ?P [0..<Suc n] = (case find ?P [0..<n] of Some y \<Rightarrow> Some y | None \<Rightarrow> if ?P n then Some n else None)"
    by (simp add: find_snoc)
  have lt: "i < n" if "find ?P [0..<n] = Some i" for i using that by (auto simp: find_Some_iff)
  have pg: "PGROUNDDOWN v = KSTACK (of_nat n)" if "?P n"
    using inside_page[OF page_aligned_KSTACK _ that] assms(2) by (simp add: unat_KSTACK)
  show ?thesis
  proof (cases "?P n")
    case True
    from kernel_map_stack_free[OF assms True, of tr "stk(n := p)"] show ?thesis
      using True pg[OF True] unfolding kernel_map_def f by (auto split: if_splits option.splits)
  next
    case False
    then show ?thesis unfolding kernel_map_def f by (auto dest: lt split: option.splits)
  qed
qed

lemma inside_KSTACK_kernel: "n < NPROC \<Longrightarrow> inside (KSTACK (of_nat n)) PGSIZE v \<Longrightarrow> v \<in> kernel_vas"
proof -
  assume n: "n < NPROC" and v: "inside (KSTACK (of_nat n)) PGSIZE v"
  have "2 ^ 38 - 4096 * 257 \<le> unat v" "unat v < 2 ^ 38"
    using v n inside_KSTACK[OF n, of v] by (auto simp: NPROC_def)
  then show ?thesis by (simp add: kernel_vas_def inside_layout)
qed

lemma mapstacks_built:
  assumes e: "etext_ok etext" and b: "built F pt s (kernel_map etext tr stk0 0)" "136 < F" and n: "n \<le> NPROC"
  shows "\<exists>s' stk. fold_res (\<lambda>i s. let (pa, s1) = kalloc s in
       if pa = 0 then Inl (Panic ''kalloc'')
       else kvmmap kalloc pt (KSTACK (of_nat i)) pa PGSIZE (PTE_R OR PTE_W) s1) [0..<n] s = Inr s' \<and>
    built (F - n) pt s' (kernel_map etext tr stk n) \<and> taken pt s s' \<and> inj_on stk {..<n} \<and>
    (\<forall>i<n. stk i \<in> kmem_free s \<and> stk i \<notin> kmem_free s' \<and> stk i \<notin> tpages 2 (mem s') pt)"
    (is "\<exists>s' stk. fold_res ?f _ _ = _ \<and> _")
  using n
proof (induction n)
  case 0
  have "taken pt s s" by (simp add: taken_def)
  with b show ?case by auto
next
  case (Suc n)
  then obtain t stk where t: "fold_res ?f [0..<n] s = Inr t" "built (F - n) pt t (kernel_map etext tr stk n)"
    "taken pt s t" "inj_on stk {..<n}"
    "\<forall>i<n. stk i \<in> kmem_free s \<and> stk i \<notin> kmem_free t \<and> stk i \<notin> tpages 2 (mem t) pt" by auto
  have n: "n < NPROC" "n < 64" using Suc.prems by (simp_all add: NPROC_def)
  obtain p t1 where p: "kalloc t = (p, t1)" "p \<noteq> 0" "p \<in> kmem_free t" "p \<notin> kmem_free t1" "p \<notin> tpages 2 (mem t1) pt"
    "taken pt t t1" "built (F - n - 1) pt t1 (kernel_map etext tr stk n)"
    by (rule kalloc_built[OF t(2)]) (use b(2) n(2) in auto)
  obtain t2 where t2: "kvmmap kalloc pt (KSTACK (of_nat n)) p PGSIZE (PTE_R OR PTE_W) t1 = Inr t2" "taken pt t1 t2"
    "built (F - n - 1) pt t2 (kernel_map etext tr (stk(n := p)) (Suc n))"
  proof -
    have M: "(\<lambda>v. if inside (KSTACK (of_nat n)) PGSIZE v
         then Some (PA2PTE (p + (PGROUNDDOWN v - KSTACK (of_nat n))) OR (PTE_R OR PTE_W) OR PTE_V)
         else kernel_map etext tr stk n v) = kernel_map etext tr (stk(n := p)) (Suc n)"
      by (rule ext) (simp add: kernel_map_Suc[OF e n(1)])
    have "page_aligned PGSIZE" "unat (KSTACK (of_nat n)) + unat PGSIZE \<le> 2 ^ 38" "72 < F - n - 1"
      using n b(2) by (simp_all add: page_aligned_def unat_KSTACK)
    with kvmmap_built[OF p(7), of "KSTACK (of_nat n)" PGSIZE p "PTE_R OR PTE_W", unfolded M] that
    show thesis
      using page_aligned_KSTACK[OF n(1)] kernel_map_stack_free[OF e n(1)] inside_KSTACK_kernel[OF n(1)]
      by (metis PGSIZE_neq_0(2))
  qed
  have new: "p \<notin> kmem_free t2" "p \<notin> tpages 2 (mem t2) pt" using t2(2) p(4,5) by (auto simp: taken_def)
  have "p \<notin> stk ` {..<n}" using p(3) t(5) by auto
  then have "inj_on (stk(n := p)) {..<Suc n}" using t(4) by (simp add: lessThan_Suc inj_on_fun_updI)
  moreover have tk: "taken pt t t2" using p(6) t2(2) by (rule taken_trans)
  moreover have "\<forall>i<Suc n. (stk(n := p)) i \<in> kmem_free s \<and> (stk(n := p)) i \<notin> kmem_free t2 \<and>
      (stk(n := p)) i \<notin> tpages 2 (mem t2) pt"
    using tk t(3,5) p(3) new by (auto simp: taken_def less_Suc_eq)
  moreover have "fold_res ?f [0..<Suc n] s = Inr t2" using t(1) p(1,2) t2(1) by (simp add: fold_res_append)
  moreover have "built (F - Suc n) pt t2 (kernel_map etext tr (stk(n := p)) (Suc n))" using t2(3) by simp
  ultimately show ?case using taken_trans[OF t(3) tk] by blast
qed

section \<open>The whole table\<close>

lemma page_aligned_layout:
  "page_aligned UART0" "page_aligned VIRTIO0" "page_aligned PLIC" "page_aligned KERNBASE" "page_aligned TRAMPOLINE"
  "page_aligned PGSIZE" "page_aligned 0x400000"
  by (simp_all add: page_aligned_unat unat_layout)

definition id_map :: "u64 \<Rightarrow> u64 \<Rightarrow> u64 \<Rightarrow> (u64 \<Rightarrow> u64 option) \<Rightarrow> u64 \<Rightarrow> u64 option" where
  "id_map va sz perm M v = (if inside va sz v then Some (PA2PTE (PGROUNDDOWN v) OR perm OR PTE_V) else M v)"

lemma kvmmap_identity:
  assumes "built F pt s M" "72 < F" "page_aligned va" "page_aligned sz" "0 < sz" "unat va + unat sz \<le> 2 ^ 38"
    and "\<And>v. inside va sz v \<Longrightarrow> v \<in> kernel_vas" and "\<And>v. inside va sz v \<Longrightarrow> M v = None"
  obtains s' where "kvmmap kalloc pt va va sz perm s = Inr s'" "taken pt s s'" "built F pt s' (id_map va sz perm M)"
proof (rule kvmmap_built[OF assms, of va perm])
  fix s' assume "kvmmap kalloc pt va va sz perm s = Inr s'" "taken pt s s'"
    "built F pt s' (\<lambda>v. if inside va sz v then Some (PA2PTE (va + (PGROUNDDOWN v - va)) OR perm OR PTE_V) else M v)"
  moreover have "(\<lambda>v. if inside va sz v then Some (PA2PTE (va + (PGROUNDDOWN v - va)) OR perm OR PTE_V) else M v) =
      id_map va sz perm M"
    by (rule ext) (simp add: id_map_def)
  ultimately show thesis using that by simp
qed

text \<open>The empty table that \<open>kvmmake\<close> starts from.\<close>

lemma fresh_built:
  assumes "kmem_ok s" "0 < card (kmem_free s)"
  obtains p s1 where "kalloc s = (p, s1)" "p \<noteq> 0" "p \<in> kmem_free s"
    "built (card (kmem_free s)) p (s1\<lparr>mem := memset (mem s1) p 0 PGSIZE\<rparr>) (\<lambda>_. None)"
    "kmem_free (s1\<lparr>mem := memset (mem s1) p 0 PGSIZE\<rparr>) = kmem_free s - {p}"
    "tpages 2 (memset (mem s1) p 0 PGSIZE) p = {p}" "kend s1 = kend s" "trampoline s1 = trampoline s"
  using assms(1)
proof (cases rule: ka.kalloc_cases)
  case none
  with assms(2) show ?thesis by simp
next
  case (some p s1)
  define t where "t = s1\<lparr>mem := memset (mem s1) p 0 PGSIZE\<rparr>"
  have "{p} \<inter> kmem_free s1 = {}" using some(6) by simp
  moreover have "same_outside {p} (mem s1) (memset (mem s1) p 0 PGSIZE)"
    using some(5) by (intro same_outside_memset) (simp add: managed_def)
  ultimately have A: "kmem_ok t" "kmem_free t = kmem_free s - {p}"
    using ka.write_page[OF some(3)] some(6) by (simp_all add: t_def)
  have e: "entry (mem t) p i = 0" if "i < 512" for i
    using that some(5) by (simp add: t_def zero_page_entry managed_def)
  note E = empty_table[OF some(5) e, of 2]
  have "card (kmem_free t) + 1 = card (kmem_free s)" using A(2) some(4) assms(2) by simp
  moreover have "ka.bounded kernel_vas p t"
    using A E some(7) within_empty[OF e, of 2 kernel_vas] by (auto simp: ka.bounded_def pt_inv_def t_def)
  ultimately have "built (card (kmem_free s)) p t (\<lambda>_. None)" using E by (simp add: built_def)
  with that[OF some(1,2,4)] A E some(7) tf.g_kalloc[OF some(1)] show ?thesis by (simp add: t_def)
qed

definition device_map :: "u64 \<Rightarrow> u64 \<Rightarrow> u64 option" where
  "device_map etext = id_map etext (PHYSTOP - etext) (PTE_R OR PTE_W)
     (id_map KERNBASE (etext - KERNBASE) (PTE_R OR PTE_X)
     (id_map PLIC 0x400000 (PTE_R OR PTE_W)
     (id_map VIRTIO0 PGSIZE (PTE_R OR PTE_W) (id_map UART0 PGSIZE (PTE_R OR PTE_W) (\<lambda>_. None)))))"

lemma kernel_map_0:
  assumes "etext_ok etext"
  shows "(\<lambda>v. if inside TRAMPOLINE PGSIZE v then Some (PA2PTE (tr + (PGROUNDDOWN v - TRAMPOLINE)) OR (PTE_R OR PTE_X) OR PTE_V)
     else device_map etext v) = kernel_map etext tr stk 0"
proof
  fix v
  have "PGROUNDDOWN v = TRAMPOLINE" if "inside TRAMPOLINE PGSIZE v"
    using inside_page[OF page_aligned_layout(5) _ that] by (simp add: unat_layout)
  then show "(if inside TRAMPOLINE PGSIZE v then Some (PA2PTE (tr + (PGROUNDDOWN v - TRAMPOLINE)) OR (PTE_R OR PTE_X) OR PTE_V)
     else device_map etext v) = kernel_map etext tr stk 0 v"
    using unat_etext(1,2)[OF assms]
    by (auto simp: kernel_map_def device_map_def id_map_def inside_layout inside_etext[OF assms])
qed

lemma devices_built:
  assumes e: "etext_ok etext" and b: "built F pt s (\<lambda>_. None)" "72 < F"
  obtains s1 s2 s3 s4 s5 s6 where "kvmmap kalloc pt UART0 UART0 PGSIZE (PTE_R OR PTE_W) s = Inr s1"
    "kvmmap kalloc pt VIRTIO0 VIRTIO0 PGSIZE (PTE_R OR PTE_W) s1 = Inr s2"
    "kvmmap kalloc pt PLIC PLIC 0x400000 (PTE_R OR PTE_W) s2 = Inr s3"
    "kvmmap kalloc pt KERNBASE KERNBASE (etext - KERNBASE) (PTE_R OR PTE_X) s3 = Inr s4"
    "kvmmap kalloc pt etext etext (PHYSTOP - etext) (PTE_R OR PTE_W) s4 = Inr s5"
    "kvmmap kalloc pt TRAMPOLINE (trampoline s5) PGSIZE (PTE_R OR PTE_X) s5 = Inr s6"
    "taken pt s s6" "built F pt s6 (kernel_map etext (trampoline s) stk 0)"
proof -
  note ue = unat_etext[OF e] and ie = inside_etext[OF e]
  note room = unat_layout ue word_less_nat_alt
  note kv = kernel_vas_def inside_layout ie
  obtain s1 where s1: "kvmmap kalloc pt UART0 UART0 PGSIZE (PTE_R OR PTE_W) s = Inr s1" "taken pt s s1"
    "built F pt s1 (id_map UART0 PGSIZE (PTE_R OR PTE_W) (\<lambda>_. None))" (is "built F pt s1 ?M1")
    by (rule kvmmap_identity[OF b, of UART0 PGSIZE "PTE_R OR PTE_W"])
       (simp_all add: page_aligned_layout room kv)
  obtain s2 where s2: "kvmmap kalloc pt VIRTIO0 VIRTIO0 PGSIZE (PTE_R OR PTE_W) s1 = Inr s2" "taken pt s1 s2"
    "built F pt s2 (id_map VIRTIO0 PGSIZE (PTE_R OR PTE_W) ?M1)" (is "built F pt s2 ?M2")
    by (rule kvmmap_identity[OF s1(3) b(2), of VIRTIO0 PGSIZE "PTE_R OR PTE_W"])
       (simp_all add: page_aligned_layout room kv id_map_def)
  obtain s3 where s3: "kvmmap kalloc pt PLIC PLIC 0x400000 (PTE_R OR PTE_W) s2 = Inr s3" "taken pt s2 s3"
    "built F pt s3 (id_map PLIC 0x400000 (PTE_R OR PTE_W) ?M2)" (is "built F pt s3 ?M3")
    by (rule kvmmap_identity[OF s2(3) b(2), of PLIC "0x400000" "PTE_R OR PTE_W"])
       (simp_all add: page_aligned_layout room kv id_map_def)
  obtain s4 where s4: "kvmmap kalloc pt KERNBASE KERNBASE (etext - KERNBASE) (PTE_R OR PTE_X) s3 = Inr s4" "taken pt s3 s4"
    "built F pt s4 (id_map KERNBASE (etext - KERNBASE) (PTE_R OR PTE_X) ?M3)" (is "built F pt s4 ?M4")
  proof (rule kvmmap_identity[OF s3(3) b(2), of KERNBASE "etext - KERNBASE" "PTE_R OR PTE_X"])
    show "0 < etext - KERNBASE" "unat KERNBASE + unat (etext - KERNBASE) \<le> 2 ^ 38"
      unfolding room using ue(1,2) by simp_all
  qed (use ue(1,2) in \<open>auto simp: page_aligned_layout etext_sizes[OF e] kv id_map_def\<close>)
  obtain s5 where s5: "kvmmap kalloc pt etext etext (PHYSTOP - etext) (PTE_R OR PTE_W) s4 = Inr s5" "taken pt s4 s5"
    "built F pt s5 (device_map etext)"
  proof (rule kvmmap_identity[OF s4(3) b(2), of etext "PHYSTOP - etext" "PTE_R OR PTE_W"])
    show "0 < PHYSTOP - etext" "unat etext + unat (PHYSTOP - etext) \<le> 2 ^ 38"
      unfolding room using ue(1,2) by simp_all
    show "page_aligned etext" using e by (simp add: etext_ok_def)
  qed (use ue(1,2) in \<open>auto simp: etext_sizes[OF e] kv id_map_def device_map_def\<close>)
  have t: "taken pt s s5" using s1(2) s2(2) s3(2) s4(2) s5(2) by (meson taken_trans)
  obtain s6 where s6: "kvmmap kalloc pt TRAMPOLINE (trampoline s5) PGSIZE (PTE_R OR PTE_X) s5 = Inr s6" "taken pt s5 s6"
    "built F pt s6 (kernel_map etext (trampoline s5) stk 0)"
  proof (rule kvmmap_built[OF s5(3) b(2), of TRAMPOLINE PGSIZE "trampoline s5" "PTE_R OR PTE_X", unfolded kernel_map_0[OF e, where stk = stk]])
    show "device_map etext v = None" if "inside TRAMPOLINE PGSIZE v" for v
      using that ue(1,2) by (simp add: device_map_def id_map_def inside_layout ie)
  qed (simp_all add: page_aligned_layout room kv)
  have "trampoline s5 = trampoline s" using t by (simp add: taken_def)
  with that[OF s1(1) s2(1) s3(1) s4(1) s5(1) s6(1) taken_trans[OF t s6(2)]] s6(3) show thesis by simp
qed

text \<open>
  With 137 free pages \<open>kvmmake\<close> does not panic. The table it returns is a well-formed tree whose abstract map is
  exactly \<open>kernel_map\<close>: devices and RAM at their own addresses with the kernel code executable and not writable, the
  trampoline, and for every process a stack page of its own with nothing mapped above and below it. It takes at most 136 pages from
  the free list.
\<close>

lemma kvmmake_maps_kernel:
  assumes "kmem_ok s" "136 < card (kmem_free s)" "etext_ok etext"
  shows "\<exists>kpgtbl s' stk. kvmmake etext s = Inr (kpgtbl, s') \<and> kmem_ok s' \<and> pt_inv (kmem_free s') s' kpgtbl \<and>
    card (kmem_free s) \<le> card (kmem_free s') + 136 \<and>
    (\<forall>v. unat v < 2 ^ 39 \<longrightarrow> vmap s' kpgtbl v = kernel_map etext (trampoline s) stk NPROC v) \<and>
    inj_on stk {..<NPROC} \<and>
    (\<forall>i<NPROC. stk i \<in> kmem_free s \<and> stk i \<notin> kmem_free s' \<and> stk i \<notin> tpages 2 (mem s') kpgtbl)"
proof -
  let ?F = "card (kmem_free s)"
  obtain p t where p: "kalloc s = (p, t)" "p \<noteq> 0" and tr: "trampoline t = trampoline s"
    and b: "built ?F p (t\<lparr>mem := memset (mem t) p 0 PGSIZE\<rparr>) (\<lambda>_. None)"
    and f: "kmem_free (t\<lparr>mem := memset (mem t) p 0 PGSIZE\<rparr>) = kmem_free s - {p}"
    by (rule fresh_built[OF assms(1)]) (use assms(2) in auto)
  let ?t = "t\<lparr>mem := memset (mem t) p 0 PGSIZE\<rparr>"
  obtain s1 s2 s3 s4 s5 s6 where k: "kvmmap kalloc p UART0 UART0 PGSIZE (PTE_R OR PTE_W) ?t = Inr s1"
    "kvmmap kalloc p VIRTIO0 VIRTIO0 PGSIZE (PTE_R OR PTE_W) s1 = Inr s2"
    "kvmmap kalloc p PLIC PLIC 0x400000 (PTE_R OR PTE_W) s2 = Inr s3"
    "kvmmap kalloc p KERNBASE KERNBASE (etext - KERNBASE) (PTE_R OR PTE_X) s3 = Inr s4"
    "kvmmap kalloc p etext etext (PHYSTOP - etext) (PTE_R OR PTE_W) s4 = Inr s5"
    "kvmmap kalloc p TRAMPOLINE (trampoline s5) PGSIZE (PTE_R OR PTE_X) s5 = Inr s6"
    and t6: "taken p ?t s6" and b6: "built ?F p s6 (kernel_map etext (trampoline s) (\<lambda>_. 0) 0)"
    by (rule devices_built[OF assms(3) b, of "\<lambda>_. 0"]) (use assms(2) tr in auto)
  obtain s' stk where s': "proc_mapstacks p s6 = Inr s'" "built (?F - NPROC) p s' (kernel_map etext (trampoline s) stk NPROC)"
    "inj_on stk {..<NPROC}" "\<forall>i<NPROC. stk i \<in> kmem_free s6 \<and> stk i \<notin> kmem_free s' \<and> stk i \<notin> tpages 2 (mem s') p"
    using mapstacks_built[OF assms(3) b6 assms(2) order_refl] unfolding proc_mapstacks_def by blast
  have K: "kvmmake etext s = Inr (p, s')" by (simp add: kvmmake_def p k s'(1))
  have S: "ka.bounded kernel_vas p s'" using s'(2) by (simp add: built_def)
  have "card (tpages 2 (mem s') p) \<le> 72"
    using S tpages_dirs[of 2 "mem s'" p kernel_vas] dirs_kernel by (simp add: ka.bounded_def)
  moreover have "card (kmem_free s') + card (tpages 2 (mem s') p) = ?F - 64"
    using s'(2) by (simp add: built_def NPROC_def)
  ultimately have "?F \<le> card (kmem_free s') + 136" by linarith
  moreover have "kmem_free s6 \<subseteq> kmem_free s" using t6 f by (auto simp: taken_def)
  ultimately show ?thesis using K S s' by (auto simp: built_def ka.bounded_def)
qed

end
