(* ===== verification/KvmProps.thy ===== *)
theory KvmProps
  imports Kvm
begin

text \<open>
  Boot up to the point where paging is on: \<open>kinit\<close>, \<open>kvminit\<close> and \<open>kvminithart\<close> in the order of \<open>main.c\<close>. The
  hypotheses are about the linker script only: where the kernel ends and where its code ends.
\<close>

lemma trampoline_freerange: "freerange_loop p lim s = Inr s' \<Longrightarrow> trampoline s' = trampoline s"
proof (induction p lim s rule: freerange_loop.induct)
  case (1 p lim s)
  show ?case
  proof (cases "p + PGSIZE \<le> lim")
    case True
    with 1(2) obtain s1 where "kfree p s = Inr s1" "freerange_loop (p + PGSIZE) lim s1 = Inr s'"
      by (auto simp: freerange_loop.simps [of p] bindR_Inr_iff)
    with 1(1)[OF True] tf.g_kfree show ?thesis by metis
  next
    case False
    with 1(2) show ?thesis by (simp add: freerange_loop.simps [of p])
  qed
qed

lemma trampoline_kinit: "kinit s = Inr s' \<Longrightarrow> trampoline s' = trampoline s"
  by (auto simp: kinit_def freerange_def dest: trampoline_freerange)

lemma card_managed:
  assumes "0 < k" "unat k + 4096 * Suc n \<le> 0x88000000"
  shows "n \<le> card {p. managed k p}"
proof -
  define b where "b = Suc (unat k div 4096)"
  let ?f = "\<lambda>i. of_nat (4096 * (b + i)) :: u64"
  have kb: "unat k < 4096 * b" "4096 * b \<le> unat k + 4096"
    unfolding b_def using dividend_less_times_div[of 4096 "unat k"] times_div_less_eq_dividend[of 4096 "unat k"] by simp_all
  have u: "unat (?f i) = 4096 * (b + i)" if "i < n" for i
  proof -
    have "4096 * (b + i) < 0x88000000" using that assms(2) kb by simp
    then show ?thesis by (simp only: unat_of_nat) simp
  qed
  have "inj_on ?f {..<n}"
  proof (rule inj_onI)
    fix i j assume "i \<in> {..<n}" "j \<in> {..<n}" "?f i = ?f j"
    then have "4096 * (b + i) = 4096 * (b + j)" using u[of i] u[of j] by (metis lessThan_iff)
    then show "i = j" by simp
  qed
  moreover have "?f ` {..<n} \<subseteq> {p. managed k p}"
  proof safe
    fix i assume "i < n"
    note u[OF this]
    moreover have "4096 * (b + i) < 0x88000000" using \<open>i < n\<close> assms(2) kb by simp
    moreover have "unat k < 4096 * (b + i)" using kb(1) by simp
    ultimately show "managed k (?f i)"
      unfolding managed_def page_aligned_unat word_less_nat_alt word_le_nat_alt unat_PHYSTOP word_unat_eq_iff
      by (simp add: b_def)
  qed
  ultimately show ?thesis by (metis card_image card_lessThan card_mono finite)
qed

text \<open>The register \<open>satp\<close> names the table: mode Sv39 and the number of its page.\<close>

lemma MAKE_SATP_fields:
  assumes "page_aligned pt" "unat pt < 2 ^ 56"
  shows "drop_bit 60 (MAKE_SATP pt) = 8" "push_bit 12 (take_bit 44 (MAKE_SATP pt)) = pt"
proof -
  have hi: "\<not> bit pt n" if "56 \<le> n" for n using assms(2) that by (rule not_bit_above)
  have lo: "\<not> bit pt n" if "n < 12" for n using assms(1) that by (simp add: page_aligned_bits)
  show "drop_bit 60 (MAKE_SATP pt) = 8"
    by (rule bit_word_eqI) (use hi in \<open>auto simp: MAKE_SATP_def SATP_SV39_def bit_simps\<close>)
  show "push_bit 12 (take_bit 44 (MAKE_SATP pt)) = pt"
  proof (rule bit_word_eqI)
    fix n assume "n < LENGTH(64)"
    show "bit (push_bit 12 (take_bit 44 (MAKE_SATP pt))) n = bit pt n"
    proof (cases "12 \<le> n \<and> n < 56")
      case True
      then have "12 + (n - 12) = n" by simp
      with True show ?thesis by (auto simp: MAKE_SATP_def SATP_SV39_def bit_simps)
    next
      case False
      with hi[of n] lo[of n] show ?thesis by (auto simp: bit_simps)
    qed
  qed
qed

text \<open>
  C40: booting turns paging on. When 138 pages are left above the kernel, \<open>kinit\<close>, \<open>kvminit\<close> and \<open>kvminithart\<close> succeed one
  after the other, and \<open>satp\<close> then names (in mode Sv39) a well-formed table whose abstract map is exactly \<open>kernel_map\<close>: devices and RAM
  at their own addresses, kernel code executable and not writable, the trampoline, and for each process a stack page of its own
  (distinct pages that are neither free nor part of the table) with nothing mapped above and below it. At most 136 pages are used.
\<close>

theorem boot_turns_paging_on:
  assumes "freelist s = 0" "0 < kend s" "unat (kend s) + 4096 * 138 \<le> unat PHYSTOP" "etext_ok etext"
  shows "\<exists>s1 s2 s3 stk. kinit s = Inr s1 \<and> kvminit etext s1 = Inr s2 \<and> s3 = kvminithart s2 \<and>
    drop_bit 60 (satp_reg s3) = 8 \<and> push_bit 12 (take_bit 44 (satp_reg s3)) = kernel_pagetable s3 \<and>
    kmem_ok s3 \<and> pt_inv (kmem_free s3) s3 (kernel_pagetable s3) \<and> card (kmem_free s1) \<le> card (kmem_free s3) + 136 \<and>
    (\<forall>v. unat v < 2 ^ 39 \<longrightarrow>
       vmap s3 (kernel_pagetable s3) v = kernel_map etext (trampoline s) stk NPROC v) \<and>
    inj_on stk {..<NPROC} \<and>
    (\<forall>i<NPROC. managed (kend s) (stk i) \<and> stk i \<notin> kmem_free s3 \<and> stk i \<notin> tpages 2 (mem s3) (kernel_pagetable s3))"
proof -
  have le: "kend s \<le> PHYSTOP" using assms(3) by (simp add: word_le_nat_alt)
  obtain s1 ps where s1: "kinit s = Inr s1" "kmem_inv s1 ps" "kend s1 = kend s" "set ps = {p. managed (kend s) p}"
    using kinit_all_pages[OF assms(1,2) le] by blast
  have f: "kmem_free s1 = {p. managed (kend s) p}" using kmem_free_eq[OF s1(2)] s1(4) by simp
  have c: "136 < card (kmem_free s1)" using card_managed[OF assms(2), of 137] assms(3) by (simp add: f unat_PHYSTOP)
  have k: "kmem_ok s1" using s1(2) by (auto simp: kmem_ok_def)
  obtain pt t stk where t: "kvmmake etext s1 = Inr (pt, t)" "kmem_ok t" "pt_inv (kmem_free t) t pt"
    "card (kmem_free s1) \<le> card (kmem_free t) + 136"
    "\<forall>v. unat v < 2 ^ 39 \<longrightarrow> vmap t pt v = kernel_map etext (trampoline s) stk NPROC v" "inj_on stk {..<NPROC}"
    "\<forall>i<NPROC. stk i \<in> kmem_free s1 \<and> stk i \<notin> kmem_free t \<and> stk i \<notin> tpages 2 (mem t) pt"
    using kvmmake_maps_kernel[OF k c assms(4)] trampoline_kinit[OF s1(1)] by (metis (no_types, lifting))
  have pt: "page_aligned pt" "unat pt < 2 ^ 56"
    using t(3) pt_wf_managed by (auto simp: pt_inv_def managed_def word_less_nat_alt unat_PHYSTOP dest!: pt_wf_managed)
  define s2 where "s2 = t\<lparr>kernel_pagetable := pt\<rparr>"
  have "kvminit etext s1 = Inr s2" using t(1) by (simp add: kvminit_def s2_def)
  moreover have e: "mem (kvminithart s2) = mem t" "kend (kvminithart s2) = kend t" "freelist (kvminithart s2) = freelist t"
    "kernel_pagetable (kvminithart s2) = pt" "satp_reg (kvminithart s2) = MAKE_SATP pt"
    by (simp_all add: s2_def kvminithart_def)
  moreover have "kmem_inv (kvminithart s2) = kmem_inv t" by (rule ext) (simp add: kmem_inv_def e)
  then have "kmem_free (kvminithart s2) = kmem_free t" "kmem_ok (kvminithart s2) = kmem_ok t"
    by (simp_all add: kmem_free_def kmem_ok_def)
  moreover note MAKE_SATP_fields[OF pt]
  ultimately show ?thesis
    using s1(1) t(2-7) f by (intro exI[of _ s1] exI[of _ s2] exI[of _ "kvminithart s2"] exI[of _ stk]) (simp add: pt_inv_def)
qed

definition boot0 :: kvm where
  "boot0 = \<lparr>mem = (\<lambda>_. 0), kend = 0x80021000, freelist = 0, procs = [], nextpid = 1, initproc = None,
     cpus = [None], hart = 0, trampoline = 0x80007000, forkret_addr = 0, kernel_pagetable = 0, satp_reg = 0\<rparr>"

theorem boot_turns_paging_on_witness:
  "\<exists>s1 s2 stk. kinit boot0 = Inr s1 \<and> kvminit 0x80008000 s1 = Inr s2 \<and>
    vmap (kvminithart s2) (kernel_pagetable s2) 0x80000000 = Some (PA2PTE 0x80000000 OR (PTE_R OR PTE_X) OR PTE_V) \<and>
    vmap (kvminithart s2) (kernel_pagetable s2) (KSTACK 0) = Some (PA2PTE (stk (0 :: nat)) OR (PTE_R OR PTE_W) OR PTE_V) \<and>
    vmap (kvminithart s2) (kernel_pagetable s2) (KSTACK 0 + PGSIZE) = None"
proof -
  have e: "etext_ok 0x80008000" by (simp add: etext_ok_def page_aligned_def layout_defs)
  obtain s1 s2 stk where s: "kinit boot0 = Inr s1" "kvminit 0x80008000 s1 = Inr s2"
    "\<forall>v. unat v < 2 ^ 39 \<longrightarrow> vmap (kvminithart s2) (kernel_pagetable s2) v = kernel_map 0x80008000 0x80007000 stk NPROC v"
    using boot_turns_paging_on[of boot0 "0x80008000", OF _ _ _ e]
    by (auto simp: boot0_def unat_PHYSTOP kvminithart_def)
  have k: "unat (KSTACK 0) = 2 ^ 38 - 4096 * 4" using unat_KSTACK[of 0] by (simp add: NPROC_def)
  have k1: "unat (KSTACK 0 + PGSIZE) = 2 ^ 38 - 4096 * 3" by (subst unat_add_lem[THEN iffD1]) (simp_all add: k)
  have u: "[0..<NPROC] = 0 # [1..<NPROC]" by (simp add: NPROC_def upt_conv_Cons)
  have "inside (KSTACK (of_nat 0)) PGSIZE (KSTACK 0)" using k by (subst inside_KSTACK) (simp_all add: NPROC_def)
  then have "kernel_map 0x80008000 0x80007000 stk NPROC (KSTACK 0) = Some (PA2PTE (stk (0 :: nat)) OR (PTE_R OR PTE_W) OR PTE_V)"
    by (simp add: kernel_map_def inside_layout inside_etext[OF e] k u)
  moreover have "find (\<lambda>i. inside (KSTACK (of_nat i)) PGSIZE (KSTACK 0 + PGSIZE)) [0..<NPROC] = None"
    by (auto simp: find_None_iff inside_KSTACK k1)
  then have "kernel_map 0x80008000 0x80007000 stk NPROC (KSTACK 0 + PGSIZE) = None"
    by (simp add: kernel_map_def inside_layout inside_etext[OF e] k1)
  moreover have "kernel_map 0x80008000 0x80007000 stk NPROC 0x80000000 = Some (PA2PTE 0x80000000 OR (PTE_R OR PTE_X) OR PTE_V)"
    by (simp add: kernel_map_def inside_layout inside_etext[OF e] PGROUNDDOWN_aligned page_aligned_unat)
  ultimately have "vmap (kvminithart s2) (kernel_pagetable s2) 0x80000000 = Some (PA2PTE 0x80000000 OR (PTE_R OR PTE_X) OR PTE_V)"
    "vmap (kvminithart s2) (kernel_pagetable s2) (KSTACK 0) = Some (PA2PTE (stk (0 :: nat)) OR (PTE_R OR PTE_W) OR PTE_V)"
    "vmap (kvminithart s2) (kernel_pagetable s2) (KSTACK 0 + PGSIZE) = None"
    using s(3) k k1 by simp_all
  with s(1,2) show ?thesis by blast
qed

end
