(* ===== verification/Bio.thy ===== *)
theory Bio
  imports Prelude
begin

text \<open>
  The buffer cache of the locks lab (\<open>xv6-lab-locks/bio.c\<close>, \<open>buf.h\<close>): thirty buffers on thirteen singly linked
  bucket lists, each list with a lock of its own, and one lock for eviction. A \<open>struct buf *\<close> is an
  index into the array, a null pointer is \<open>None\<close>, and the bucket headers are separate list heads.
  A pointer to something with a \<open>next\<close> field is a header or a buffer (\<open>bptr\<close>). The loops follow \<open>next\<close>
  pointers; their first argument bounds the number of steps, and \<open>NBUF + 1\<close> is enough because a bucket
  list has no duplicates.

  The disk driver is not part of the sources: \<open>virtio_disk_rw\<close> is an argument \<open>rw\<close> of the operations that
  call it, and \<open>disk_driver rw\<close> says what they rely on, that a read fills the buffer with the contents of its
  block and a write stores them. The sleep lock of a buffer is the process that holds it.
\<close>

section \<open>State\<close>

definition NBUF :: nat where "NBUF = 30"
definition NBUCKET :: nat where "NBUCKET = 13"

record buf =
  bvalid :: bool
  dev :: u32
  blockno :: u32
  holder :: "nat option"
  refcnt :: u32
  bnext :: "nat option"
  bdata :: "u8 list"
  lastuse_time :: u32
  owner :: nat

record bcache =
  bufs :: "buf list"
  bucket :: "nat option list"
  bticks :: u32
  disk :: "u32 \<times> u32 \<Rightarrow> u8 list"

datatype bptr = Head nat | Node nat

definition BUCKET_HASH :: "u32 \<Rightarrow> u32 \<Rightarrow> nat" where
  "BUCKET_HASH d b = unat b mod NBUCKET"

abbreviation getb :: "bcache \<Rightarrow> nat \<Rightarrow> buf" where
  "getb s x \<equiv> bufs s ! x"

definition upd_buf :: "nat \<Rightarrow> (buf \<Rightarrow> buf) \<Rightarrow> bcache \<Rightarrow> bcache" where
  "upd_buf x f s = s\<lparr>bufs := (bufs s)[x := f (bufs s ! x)]\<rparr>"

definition next_of :: "bcache \<Rightarrow> bptr \<Rightarrow> nat option" where
  "next_of s b = (case b of Head i \<Rightarrow> bucket s ! i | Node x \<Rightarrow> bnext (getb s x))"

definition set_next :: "bptr \<Rightarrow> nat option \<Rightarrow> bcache \<Rightarrow> bcache" where
  "set_next b v s = (case b of Head i \<Rightarrow> s\<lparr>bucket := (bucket s)[i := v]\<rparr>
     | Node x \<Rightarrow> upd_buf x (\<lambda>q. q\<lparr>bnext := v\<rparr>) s)"

section \<open>Operations\<close>

definition binit_buf :: "nat \<Rightarrow> bcache \<Rightarrow> bcache" where
  "binit_buf i s =
     (let s1 = upd_buf i (\<lambda>b. b\<lparr>holder := None, lastuse_time := 0, refcnt := 0, bnext := bucket s ! 0\<rparr>) s;
          s2 = s1\<lparr>bucket := (bucket s1)[0 := Some i]\<rparr>
      in upd_buf i (\<lambda>b. b\<lparr>owner := 0\<rparr>) s2)"

definition binit :: "bcache \<Rightarrow> bcache" where
  "binit s =
     (let s1 = fold (\<lambda>i s. s\<lparr>bucket := (bucket s)[i := None]\<rparr>) [0..<NBUCKET] s
      in fold binit_buf [0..<NBUF] s1)"

fun find_buf :: "nat \<Rightarrow> buf list \<Rightarrow> nat option \<Rightarrow> u32 \<Rightarrow> u32 \<Rightarrow> nat option res" where
  "find_buf 0 bs p d b = Inl NoFuel"
| "find_buf (Suc n) bs p d b =
     (case p of None \<Rightarrow> Inr None
      | Some x \<Rightarrow> if dev (bs ! x) = d \<and> blockno (bs ! x) = b then Inr (Some x)
                  else find_buf n bs (bnext (bs ! x)) d b)"

text \<open>
  The first part of \<open>bget\<close>, under the lock of the bucket: a hit takes a reference.
\<close>

definition bget_hit :: "u32 \<Rightarrow> u32 \<Rightarrow> bcache \<Rightarrow> (nat option \<times> bcache) res" where
  "bget_hit d b s =
     bindR (find_buf (NBUF + 1) (bufs s) (bucket s ! BUCKET_HASH d b) d b) (\<lambda>r. case r of
       Some x \<Rightarrow> Inr (Some x, upd_buf x (\<lambda>q. q\<lparr>refcnt := refcnt q + 1\<rparr>) s)
     | None \<Rightarrow> Inr (None, s))"

text \<open>The search for the buffer that was not in use for the longest time.\<close>

fun scan_bucket :: "nat \<Rightarrow> bcache \<Rightarrow> bptr \<Rightarrow> bptr option \<times> u32 \<times> bool \<Rightarrow> (bptr option \<times> u32 \<times> bool) res" where
  "scan_bucket 0 s b st = Inl NoFuel"
| "scan_bucket (Suc n) s b (before_ans, mn, flag) =
     (case next_of s b of None \<Rightarrow> Inr (before_ans, mn, flag)
      | Some x \<Rightarrow> scan_bucket n s (Node x)
          (if refcnt (getb s x) = 0 \<and> before_ans = None then (Some b, lastuse_time (getb s x), True)
           else if refcnt (getb s x) = 0 \<and> lastuse_time (getb s x) < mn then (Some b, lastuse_time (getb s x), True)
           else (before_ans, mn, flag)))"

definition scan_one :: "bcache \<Rightarrow> nat \<Rightarrow> bptr option \<times> u32 \<times> nat option \<Rightarrow> (bptr option \<times> u32 \<times> nat option) res" where
  "scan_one s i = (\<lambda>(before_ans, mn, own).
     bindR (scan_bucket (NBUF + 1) s (Head i) (before_ans, mn, False)) (\<lambda>(before_ans', mn', flag).
       Inr (before_ans', mn', if flag then Some i else own)))"

definition scan_all :: "bcache \<Rightarrow> (bptr option \<times> u32 \<times> nat option) res" where
  "scan_all s = fold_res (scan_one s) [0..<NBUCKET] (None, 0xffffffff, None)"

text \<open>
  The second part, under the eviction lock: look again, because another CPU may have cached the
  block in between; otherwise take the buffer found by the scan, move it to the bucket of
  the block if it is in another one, and give it the block.
\<close>

definition bget_evict :: "u32 \<Rightarrow> u32 \<Rightarrow> bcache \<Rightarrow> (nat \<times> bcache) res" where
  "bget_evict d b s =
     bindR (scan_all s) (\<lambda>(before_ans, _, own). case before_ans of
       None \<Rightarrow> Inl (Panic ''bget: No buffer.'')
     | Some bp \<Rightarrow> (case next_of s bp of None \<Rightarrow> Inl Fault
       | Some x \<Rightarrow>
         let index = BUCKET_HASH d b;
             s1 = (if own \<noteq> Some index then
                 let s' = set_next bp (bnext (getb s x)) s;
                     s'' = upd_buf x (\<lambda>q. q\<lparr>bnext := bucket s' ! index\<rparr>) s'
                 in s''\<lparr>bucket := (bucket s'')[index := Some x]\<rparr>
               else s)
         in Inr (x, upd_buf x (\<lambda>q. q\<lparr>dev := d, blockno := b, refcnt := 1, bvalid := False, owner := index\<rparr>) s1)))"

definition bget_miss :: "u32 \<Rightarrow> u32 \<Rightarrow> bcache \<Rightarrow> (nat \<times> bcache) res" where
  "bget_miss d b s =
     bindR (find_buf (NBUF + 1) (bufs s) (bucket s ! BUCKET_HASH d b) d b) (\<lambda>r. case r of
       Some x \<Rightarrow> Inr (x, upd_buf x (\<lambda>q. q\<lparr>refcnt := refcnt q + 1\<rparr>) s)
     | None \<Rightarrow> bget_evict d b s)"

definition bget :: "u32 \<Rightarrow> u32 \<Rightarrow> bcache \<Rightarrow> (nat \<times> bcache) res" where
  "bget d b s =
     bindR (bget_hit d b s) (\<lambda>(r, s1). case r of Some x \<Rightarrow> Inr (x, s1) | None \<Rightarrow> bget_miss d b s1)"

text \<open>Taking the sleep lock of a buffer that no process holds.\<close>

definition lock_buf :: "nat \<Rightarrow> nat \<Rightarrow> bcache \<Rightarrow> bcache" where
  "lock_buf me x s = upd_buf x (\<lambda>q. q\<lparr>holder := Some me\<rparr>) s"

type_synonym disk_rw = "nat \<Rightarrow> bool \<Rightarrow> bcache \<Rightarrow> bcache"

definition disk_driver :: "disk_rw \<Rightarrow> bool" where
  "disk_driver rw \<longleftrightarrow> (\<forall>x s.
     rw x True s = s\<lparr>disk := (disk s)((dev (getb s x), blockno (getb s x)) := bdata (getb s x))\<rparr> \<and>
     rw x False s = upd_buf x (\<lambda>q. q\<lparr>bdata := disk s (dev q, blockno q)\<rparr>) s)"

definition bread :: "disk_rw \<Rightarrow> nat \<Rightarrow> u32 \<Rightarrow> u32 \<Rightarrow> bcache \<Rightarrow> (nat \<times> bcache) res" where
  "bread rw me d b s =
     bindR (bget d b s) (\<lambda>(x, s1).
       let s2 = lock_buf me x s1 in
       if \<not> bvalid (getb s2 x)
       then Inr (x, upd_buf x (\<lambda>q. q\<lparr>bvalid := True\<rparr>) (rw x False s2))
       else Inr (x, s2))"

definition bwrite :: "disk_rw \<Rightarrow> nat \<Rightarrow> nat \<Rightarrow> bcache \<Rightarrow> bcache res" where
  "bwrite rw me x s =
     (if holder (getb s x) \<noteq> Some me then Inl (Panic ''bwrite'') else Inr (rw x True s))"

definition brelse :: "nat \<Rightarrow> nat \<Rightarrow> bcache \<Rightarrow> bcache res" where
  "brelse me x s =
     (if holder (getb s x) \<noteq> Some me then Inl (Panic ''brelse'')
      else
        let s1 = upd_buf x (\<lambda>q. q\<lparr>holder := None\<rparr>) s;
            s2 = upd_buf x (\<lambda>q. q\<lparr>refcnt := refcnt q - 1\<rparr>) s1
        in Inr (if refcnt (getb s2 x) = 0 then upd_buf x (\<lambda>q. q\<lparr>lastuse_time := bticks s2\<rparr>) s2 else s2))"

definition bpin :: "nat \<Rightarrow> bcache \<Rightarrow> bcache" where
  "bpin x s = upd_buf x (\<lambda>q. q\<lparr>refcnt := refcnt q + 1\<rparr>) s"

definition bunpin :: "nat \<Rightarrow> bcache \<Rightarrow> bcache" where
  "bunpin x s = upd_buf x (\<lambda>q. q\<lparr>refcnt := refcnt q - 1\<rparr>) s"

end
