(* ===== verification/BioCorrect.thy ===== *)
theory BioCorrect
  imports Bio
begin

text \<open>
  The lists of the buffer cache and what its operations do to them. The invariant says that every
  bucket list is a proper list of distinct buffers, that it holds exactly the buffers whose block belongs
  to the bucket, and that no block of a device in use is in two buffers. Buffers that have never held
  a block are the ones with device 0.
\<close>

section \<open>Lists in the array\<close>

fun bchain :: "buf list \<Rightarrow> nat option \<Rightarrow> nat list \<Rightarrow> bool" where
  "bchain bs p [] \<longleftrightarrow> p = None"
| "bchain bs p (x # xs) \<longleftrightarrow> p = Some x \<and> bchain bs (bnext (bs ! x)) xs"

definition bhash :: "bcache \<Rightarrow> nat \<Rightarrow> nat" where
  "bhash s x = BUCKET_HASH (dev (getb s x)) (blockno (getb s x))"

definition lists_ok :: "bcache \<Rightarrow> (nat \<Rightarrow> nat list) \<Rightarrow> bool" where
  "lists_ok s L \<longleftrightarrow> length (bufs s) = NBUF \<and> length (bucket s) = NBUCKET \<and>
     (\<forall>i<NBUCKET. bchain (bufs s) (bucket s ! i) (L i) \<and> distinct (L i) \<and>
        set (L i) = {x. x < NBUF \<and> bhash s x = i})"

definition keys_ok :: "bcache \<Rightarrow> bool" where
  "keys_ok s \<longleftrightarrow>
     (\<forall>x<NBUF. dev (getb s x) = 0 \<longrightarrow> refcnt (getb s x) = 0 \<and> \<not> bvalid (getb s x)) \<and>
     (\<forall>x<NBUF. \<forall>y<NBUF. dev (getb s x) \<noteq> 0 \<longrightarrow> dev (getb s x) = dev (getb s y) \<longrightarrow>
        blockno (getb s x) = blockno (getb s y) \<longrightarrow> x = y)"

definition binv :: "bcache \<Rightarrow> bool" where
  "binv s \<longleftrightarrow> (\<exists>L. lists_ok s L) \<and> keys_ok s"

lemma bchain_cong:
  "(\<And>x. x \<in> set xs \<Longrightarrow> bnext (bs' ! x) = bnext (bs ! x)) \<Longrightarrow> bchain bs' p xs = bchain bs p xs"
  by (induction xs arbitrary: p) auto

lemma bhash_lt [simp]: "bhash s x < NBUCKET" "BUCKET_HASH d b < NBUCKET"
  by (simp_all add: bhash_def BUCKET_HASH_def NBUCKET_def)

lemma lists_len: "lists_ok s L \<Longrightarrow> i < NBUCKET \<Longrightarrow> length (L i) \<le> NBUF"
proof -
  assume "lists_ok s L" "i < NBUCKET"
  then have "distinct (L i)" "set (L i) \<subseteq> {..<NBUF}" by (auto simp: lists_ok_def)
  then show ?thesis using card_mono[of "{..<NBUF}" "set (L i)"] by (simp add: distinct_card)
qed

lemma find_buf_chain:
  "bchain bs p xs \<Longrightarrow> length xs < n \<Longrightarrow>
     find_buf n bs p d b = Inr (find (\<lambda>x. dev (bs ! x) = d \<and> blockno (bs ! x) = b) xs)"
proof (induction xs arbitrary: p n)
  case Nil
  then show ?case by (cases n) auto
next
  case (Cons x xs)
  then show ?case by (cases n) auto
qed

text \<open>Looking a block up finds the buffer that holds it, wherever it is.\<close>

definition cached :: "bcache \<Rightarrow> u32 \<Rightarrow> u32 \<Rightarrow> nat \<Rightarrow> bool" where
  "cached s d b x \<longleftrightarrow> x < NBUF \<and> dev (getb s x) = d \<and> blockno (getb s x) = b"

lemma find_buf_cached:
  assumes "lists_ok s L"
  shows "\<exists>r. find_buf (NBUF + 1) (bufs s) (bucket s ! BUCKET_HASH d b) d b = Inr r \<and>
    (case r of Some x \<Rightarrow> cached s d b x | None \<Rightarrow> \<forall>x. \<not> cached s d b x)"
proof -
  let ?i = "BUCKET_HASH d b"
  have L: "bchain (bufs s) (bucket s ! ?i) (L ?i)" "set (L ?i) = {x. x < NBUF \<and> bhash s x = ?i}"
    using assms by (simp_all add: lists_ok_def)
  have f: "find_buf (NBUF + 1) (bufs s) (bucket s ! ?i) d b =
      Inr (find (\<lambda>x. dev (getb s x) = d \<and> blockno (getb s x) = b) (L ?i))"
    using lists_len[OF assms, of ?i] by (intro find_buf_chain[OF L(1)]) simp
  have h: "x \<in> set (L ?i)" if "cached s d b x" for x
    using that L(2) by (simp add: cached_def bhash_def)
  show ?thesis
  proof (cases "find (\<lambda>x. dev (getb s x) = d \<and> blockno (getb s x) = b) (L ?i)")
    case None
    then have "\<forall>x\<in>set (L ?i). \<not> (dev (getb s x) = d \<and> blockno (getb s x) = b)"
      by (auto simp: find_None_iff)
    with f None h show ?thesis by (auto simp: cached_def)
  next
    case (Some x)
    then have "x \<in> set (L ?i)" "dev (getb s x) = d" "blockno (getb s x) = b"
      by (auto simp: find_Some_iff)
    with f Some L(2) show ?thesis by (auto simp: cached_def)
  qed
qed

lemma cached_unique: "keys_ok s \<Longrightarrow> d \<noteq> 0 \<Longrightarrow> cached s d b x \<Longrightarrow> cached s d b y \<Longrightarrow> x = y"
  unfolding keys_ok_def cached_def by metis

section \<open>Operations that keep keys and links\<close>

lemma upd_buf_simps [simp]:
  "bucket (upd_buf x f s) = bucket s" "length (bufs (upd_buf x f s)) = length (bufs s)" "disk (upd_buf x f s) = disk s"
  "bticks (upd_buf x f s) = bticks s"
  by (simp_all add: upd_buf_def)

lemma getb_upd: "x < length (bufs s) \<Longrightarrow> getb (upd_buf x f s) y = (if y = x then f (getb s x) else getb s y)"
  by (simp add: upd_buf_def nth_list_update)

lemma getb_upd_out: "\<not> x < length (bufs s) \<Longrightarrow> upd_buf x f s = s"
  by (simp add: upd_buf_def list_update_beyond)

text \<open>
  An update of the other fields of one buffer keeps the invariant, as long as a buffer of device 0
  stays unused.
\<close>

lemma lists_ok_same:
  assumes "lists_ok s L" "length (bufs s') = length (bufs s)" "bucket s' = bucket s"
    "\<And>x. bnext (getb s' x) = bnext (getb s x) \<and> dev (getb s' x) = dev (getb s x) \<and> blockno (getb s' x) = blockno (getb s x)"
  shows "lists_ok s' L"
proof -
  have "bhash s' x = bhash s x" for x by (simp add: bhash_def assms(4))
  moreover have "bchain (bufs s') p xs = bchain (bufs s) p xs" for p xs
    by (rule bchain_cong) (simp add: assms(4))
  ultimately show ?thesis using assms(1-3) by (simp add: lists_ok_def)
qed

lemma binv_upd:
  assumes "binv s" "x < NBUF" and f: "\<And>q. bnext (f q) = bnext q \<and> dev (f q) = dev q \<and> blockno (f q) = blockno q"
    and z: "dev (getb s x) = 0 \<Longrightarrow> refcnt (f (getb s x)) = 0 \<and> \<not> bvalid (f (getb s x))"
  shows "binv (upd_buf x f s)"
proof -
  obtain L where L: "lists_ok s L" using assms(1) by (auto simp: binv_def)
  have len: "x < length (bufs s)" using L assms(2) by (simp add: lists_ok_def)
  have "lists_ok (upd_buf x f s) L"
    by (rule lists_ok_same[OF L]) (simp_all add: getb_upd[OF len] f)
  moreover have "keys_ok (upd_buf x f s)"
  proof -
    have k: "dev (getb (upd_buf x f s) y) = dev (getb s y)" "blockno (getb (upd_buf x f s) y) = blockno (getb s y)" for y
      by (simp_all add: getb_upd[OF len] f)
    have "keys_ok s" using assms(1) by (simp add: binv_def)
    moreover have "refcnt (getb (upd_buf x f s) y) = 0 \<and> \<not> bvalid (getb (upd_buf x f s) y)"
      if "y < NBUF" "dev (getb s y) = 0" for y
      using that z \<open>keys_ok s\<close> by (cases "y = x") (auto simp: getb_upd[OF len] keys_ok_def)
    ultimately show ?thesis unfolding keys_ok_def k by blast
  qed
  ultimately show ?thesis by (auto simp: binv_def)
qed

section \<open>The least recently used buffer\<close>

definition lru_step :: "bcache \<Rightarrow> nat option \<Rightarrow> nat \<Rightarrow> nat option" where
  "lru_step s best x =
     (if refcnt (getb s x) = 0 \<and> (best = None \<or> lastuse_time (getb s x) < lastuse_time (getb s (the best)))
      then Some x else best)"

definition is_lru :: "bcache \<Rightarrow> nat set \<Rightarrow> nat option \<Rightarrow> bool" where
  "is_lru s X best \<longleftrightarrow> (case best of None \<Rightarrow> \<forall>y\<in>X. refcnt (getb s y) \<noteq> 0
     | Some x \<Rightarrow> x \<in> X \<and> refcnt (getb s x) = 0 \<and>
         (\<forall>y\<in>X. refcnt (getb s y) = 0 \<longrightarrow> lastuse_time (getb s x) \<le> lastuse_time (getb s y)))"

lemma lru_fold: "is_lru s X best \<Longrightarrow> is_lru s (X \<union> set xs) (foldl (lru_step s) best xs)"
proof (induction xs arbitrary: X best)
  case (Cons x xs)
  have "is_lru s (insert x X) (lru_step s best x)"
    using Cons.prems by (auto simp: is_lru_def lru_step_def split: option.splits)
  from Cons.IH[OF this] show ?case by simp
qed simp

lemma lru_foldl_in: "foldl (lru_step s) best zs = best \<or> (\<exists>x\<in>set zs. foldl (lru_step s) best zs = Some x)"
proof (induction zs arbitrary: best)
  case (Cons x zs)
  from Cons.IH[of "lru_step s best x"] show ?case by (auto simp: lru_step_def)
qed simp

text \<open>The pointer that \<open>before_ans\<close> is: the header of the bucket, or the last of the buffers already passed.\<close>

definition ptr_at :: "nat \<Rightarrow> nat list \<Rightarrow> bptr" where
  "ptr_at i ys = (if ys = [] then Head i else Node (last ys))"

lemma bchain_suffix: "bchain bs p (ys @ zs) \<Longrightarrow> bchain bs (if ys = [] then p else bnext (bs ! last ys)) zs"
  by (induction ys arbitrary: p) auto

lemma bchain_ptr_at: "bchain (bufs s) (bucket s ! i) (ys @ zs) \<Longrightarrow> bchain (bufs s) (next_of s (ptr_at i ys)) zs"
  using bchain_suffix[of "bufs s" "bucket s ! i" ys zs] by (auto simp: next_of_def ptr_at_def split: if_splits)

definition scan_rel :: "bcache \<Rightarrow> (nat \<Rightarrow> nat list) \<Rightarrow> bptr option \<Rightarrow> u32 \<Rightarrow> nat option \<Rightarrow> bool" where
  "scan_rel s L ba mn best \<longleftrightarrow> (case best of None \<Rightarrow> ba = None
     | Some x \<Rightarrow> mn = lastuse_time (getb s x) \<and>
        (\<exists>ys zs. L (bhash s x) = ys @ x # zs \<and> ba = Some (ptr_at (bhash s x) ys)))"

lemma scan_bucket_spec:
  assumes "bchain (bufs s) (bucket s ! i) (L i)" "L i = ys @ zs" "\<forall>x\<in>set zs. bhash s x = i" "length zs < n"
    "scan_rel s L ba mn best"
  shows "\<exists>ba' mn' flag'. scan_bucket n s (ptr_at i ys) (ba, mn, flag) = Inr (ba', mn', flag') \<and>
    scan_rel s L ba' mn' (foldl (lru_step s) best zs) \<and>
    (flag' \<longrightarrow> flag \<or> (\<exists>x\<in>set zs. foldl (lru_step s) best zs = Some x)) \<and>
    (\<not> flag' \<longrightarrow> foldl (lru_step s) best zs = best) \<and> (flag \<longrightarrow> flag')"
  using assms(2-)
proof (induction zs arbitrary: ys n ba mn best flag)
  case Nil
  then have "next_of s (ptr_at i ys) = None" using bchain_ptr_at[of s i ys "[]"] assms(1) by simp
  with Nil show ?case by (cases n) auto
next
  case (Cons x zs)
  from Cons.prems(3) obtain n' where n: "n = Suc n'" "length zs < n'" by (cases n) auto
  have nx: "next_of s (ptr_at i ys) = Some x"
    using bchain_ptr_at[of s i ys "x # zs"] assms(1) Cons.prems(1) by simp
  define hit where "hit \<longleftrightarrow> refcnt (getb s x) = 0 \<and> (ba = None \<or> lastuse_time (getb s x) < mn)"
  have hit: "lru_step s best x = (if hit then Some x else best)"
    using Cons.prems(4) by (auto simp: hit_def lru_step_def scan_rel_def split: option.splits)
  define ba1 mn1 flag1 where "ba1 = (if hit then Some (ptr_at i ys) else ba)"
    and "mn1 = (if hit then lastuse_time (getb s x) else mn)" and "flag1 = (hit \<or> flag)"
  have pa: "ptr_at i (ys @ [x]) = Node x" by (simp add: ptr_at_def)
  have st: "scan_bucket n s (ptr_at i ys) (ba, mn, flag) = scan_bucket n' s (ptr_at i (ys @ [x])) (ba1, mn1, flag1)"
    unfolding n(1) pa scan_bucket.simps nx by (auto simp: ba1_def mn1_def flag1_def hit_def)
  have hx: "bhash s x = i" using Cons.prems(2) by simp
  have "scan_rel s L ba1 mn1 (lru_step s best x)"
    using Cons.prems(1,4) hx unfolding hit ba1_def mn1_def by (auto simp: scan_rel_def)
  from Cons.IH[of "ys @ [x]" n' ba1 mn1 "lru_step s best x" flag1, OF _ _ n(2) this] Cons.prems(1,2)
  obtain ba' mn' flag' where r: "scan_bucket n' s (ptr_at i (ys @ [x])) (ba1, mn1, flag1) = Inr (ba', mn', flag')"
    "scan_rel s L ba' mn' (foldl (lru_step s) (lru_step s best x) zs)"
    "flag' \<longrightarrow> flag1 \<or> (\<exists>y\<in>set zs. foldl (lru_step s) (lru_step s best x) zs = Some y)"
    "\<not> flag' \<longrightarrow> foldl (lru_step s) (lru_step s best x) zs = lru_step s best x" "flag1 \<longrightarrow> flag'"
    by auto
  show ?case
    unfolding st r(1) using r(2-) lru_foldl_in[of s "lru_step s best x" zs] by (auto simp: hit flag1_def split: if_splits)
qed

lemma scan_one_spec:
  assumes "lists_ok s L" "i < NBUCKET" "scan_rel s L ba mn best" "own = map_option (bhash s) best"
  shows "\<exists>ba' mn'. scan_one s i (ba, mn, own) = Inr (ba', mn', map_option (bhash s) (foldl (lru_step s) best (L i))) \<and>
    scan_rel s L ba' mn' (foldl (lru_step s) best (L i))"
proof -
  have L: "bchain (bufs s) (bucket s ! i) (L i)" "\<forall>x\<in>set (L i). bhash s x = i"
    using assms(1,2) by (auto simp: lists_ok_def)
  have len: "length (L i) < NBUF + 1" using lists_len[OF assms(1,2)] by simp
  obtain ba' mn' flag' where
    r: "scan_bucket (NBUF + 1) s (ptr_at i []) (ba, mn, False) = Inr (ba', mn', flag')"
      "scan_rel s L ba' mn' (foldl (lru_step s) best (L i))"
      "flag' \<longrightarrow> (\<exists>x\<in>set (L i). foldl (lru_step s) best (L i) = Some x)"
      "\<not> flag' \<longrightarrow> foldl (lru_step s) best (L i) = best"
    using scan_bucket_spec[OF L(1) append_Nil[symmetric] L(2) len assms(3), of False] by auto
  then show ?thesis using assms(4) L(2) by (auto simp: scan_one_def ptr_at_def)
qed

lemma scan_all_spec:
  assumes "lists_ok s L"
  shows "\<exists>best ba mn. scan_all s = Inr (ba, mn, map_option (bhash s) best) \<and> scan_rel s L ba mn best \<and> is_lru s {..<NBUF} best"
proof -
  have step: "\<exists>best' ba' mn'. fold_res (scan_one s) is (ba, mn, map_option (bhash s) best) =
      Inr (ba', mn', map_option (bhash s) best') \<and> scan_rel s L ba' mn' best' \<and> is_lru s (X \<union> (\<Union>i\<in>set is. set (L i))) best'"
    if "scan_rel s L ba mn best" "is_lru s X best" "set is \<subseteq> {..<NBUCKET}" for X "is" ba mn best
    using that
  proof (induction "is" arbitrary: X ba mn best)
    case (Cons i "is")
    from scan_one_spec[OF assms _ Cons.prems(1) refl, of i] Cons.prems(3) obtain ba1 mn1 where
      "scan_one s i (ba, mn, map_option (bhash s) best) =
        Inr (ba1, mn1, map_option (bhash s) (foldl (lru_step s) best (L i)))"
      "scan_rel s L ba1 mn1 (foldl (lru_step s) best (L i))" by auto
    with Cons.IH[OF this(2) lru_fold[OF Cons.prems(2)]] Cons.prems(3) show ?case by (simp add: Un_assoc)
  qed auto
  have "(\<Union>i\<in>set [0..<NBUCKET]. set (L i)) = {..<NBUF}"
    using assms by (auto simp: lists_ok_def)
  moreover have "scan_rel s L None 0xffffffff None" "is_lru s {} None" "set [0..<NBUCKET] \<subseteq> {..<NBUCKET}"
    by (auto simp: scan_rel_def is_lru_def)
  from step[OF this] obtain best ba mn where
    "fold_res (scan_one s) [0..<NBUCKET] (None, 0xffffffff, map_option (bhash s) None) = Inr (ba, mn, map_option (bhash s) best)"
    "scan_rel s L ba mn best" "is_lru s ({} \<union> (\<Union>i\<in>set [0..<NBUCKET]. set (L i))) best" by blast
  ultimately show ?thesis unfolding scan_all_def by auto
qed

section \<open>Moving a buffer to another bucket\<close>

definition relink :: "nat \<Rightarrow> bptr \<Rightarrow> nat \<Rightarrow> bcache \<Rightarrow> bcache" where
  "relink x bp index s =
     (let s' = set_next bp (bnext (getb s x)) s;
          s'' = upd_buf x (\<lambda>q. q\<lparr>bnext := bucket s' ! index\<rparr>) s'
      in s''\<lparr>bucket := (bucket s'')[index := Some x]\<rparr>)"

lemma bchain_update: "x \<notin> set l \<Longrightarrow> bchain (bs[x := b]) p l = bchain bs p l"
proof (rule bchain_cong)
  fix y assume "x \<notin> set l" "y \<in> set l"
  then have "x \<noteq> y" by auto
  then show "bnext (bs[x := b] ! y) = bnext (bs ! y)" by simp
qed

lemma bchain_unlink:
  assumes "bchain bs p (ys @ x # zs)" "distinct (ys @ x # zs)" "\<forall>y\<in>set ys. y < length bs" "ys \<noteq> []"
  shows "bchain (bs[last ys := (bs ! last ys)\<lparr>bnext := bnext (bs ! x)\<rparr>]) p (ys @ zs)"
  using assms
proof (induction ys arbitrary: p)
  case (Cons y ys)
  let ?bs = "bs[last (y # ys) := (bs ! last (y # ys))\<lparr>bnext := bnext (bs ! x)\<rparr>]"
  show ?case
  proof (cases "ys = []")
    case True
    have "bchain ?bs (bnext (bs ! x)) zs = bchain bs (bnext (bs ! x)) zs"
      using Cons.prems(2) True by (intro bchain_update) simp
    with Cons.prems True show ?thesis by simp
  next
    case False
    have "?bs ! y = bs ! y" using Cons.prems False by (auto simp: nth_list_update)
    with False Cons.IH[of "bnext (bs ! y)"] Cons.prems show ?thesis by simp
  qed
qed simp

lemma set_next_other:
  "length (bufs (set_next bp v s)) = length (bufs s)" "length (bucket (set_next bp v s)) = length (bucket s)"
  "disk (set_next bp v s) = disk s"
  by (cases bp; simp add: set_next_def)+

lemma set_next_getb: "\<exists>u. getb (set_next bp v s) y = (getb s y)\<lparr>bnext := u\<rparr>"
proof -
  have same: "\<exists>u. getb s y = (getb s y)\<lparr>bnext := u\<rparr>" by (rule exI[of _ "bnext (getb s y)"]) simp
  show ?thesis
  proof (cases bp)
    case (Node z)
    show ?thesis
    proof (cases "y = z \<and> z < length (bufs s)")
      case True
      then show ?thesis using Node by (auto simp: set_next_def upd_buf_def)
    next
      case False
      then have "getb (set_next bp v s) y = getb s y"
        using Node by (cases "y = z") (simp_all add: set_next_def upd_buf_def list_update_beyond)
      with same show ?thesis by simp
    qed
  qed (use same in \<open>simp add: set_next_def\<close>)
qed

lemma unlink_spec:
  assumes ok: "lists_ok s L" and x: "x < NBUF" "L (bhash s x) = ys @ x # zs" and i: "i < NBUCKET"
  defines "s' \<equiv> set_next (ptr_at (bhash s x) ys) (bnext (getb s x)) s"
  shows "bchain (bufs s') (bucket s' ! i) (if i = bhash s x then ys @ zs else L i)"
proof -
  let ?o = "bhash s x"
  have L: "\<And>j. j < NBUCKET \<Longrightarrow> bchain (bufs s) (bucket s ! j) (L j)"
    "\<And>j. j < NBUCKET \<Longrightarrow> distinct (L j)" "\<And>j. j < NBUCKET \<Longrightarrow> set (L j) = {x. x < NBUF \<and> bhash s x = j}"
    and len: "length (bufs s) = NBUF" "length (bucket s) = NBUCKET"
    using ok by (auto simp: lists_ok_def)
  show ?thesis
  proof (cases "ys = []")
    case True
    then have s': "bufs s' = bufs s" "bucket s' = (bucket s)[?o := bnext (getb s x)]"
      by (simp_all add: s'_def ptr_at_def set_next_def)
    from L(1)[of ?o] x(2) True have "bchain (bufs s) (bnext (getb s x)) zs" by simp
    with L(1)[OF i] i len True show ?thesis by (auto simp: s' nth_list_update)
  next
    case False
    let ?l = "last ys"
    have l: "?l \<in> set (L ?o)" using False x(2) by simp
    have lt: "\<forall>y\<in>set ys. y < length (bufs s)" using L(3)[of ?o] x(2) len(1) by auto
    have s': "bufs s' = (bufs s)[?l := (getb s ?l)\<lparr>bnext := bnext (getb s x)\<rparr>]" "bucket s' = bucket s"
      using False by (simp_all add: s'_def ptr_at_def set_next_def upd_buf_def)
    show ?thesis
    proof (cases "i = ?o")
      case True
      with bchain_unlink[of "bufs s" "bucket s ! ?o" ys x zs] L(1,2)[of ?o] x(2) lt False
      show ?thesis by (simp add: s')
    next
      case no: False
      have "?l \<notin> set (L i)" using l L(3)[of ?o] L(3)[OF i] no by auto
      then have "bchain (bufs s') (bucket s ! i) (L i) = bchain (bufs s) (bucket s ! i) (L i)"
        by (simp add: s'(1) bchain_update)
      with L(1)[OF i] no show ?thesis by (simp add: s'(2))
    qed
  qed
qed

lemma relink_spec:
  assumes ok: "lists_ok s L" and x: "x < NBUF" "L (bhash s x) = ys @ x # zs" and idx: "index < NBUCKET" "index \<noteq> bhash s x"
  defines "s1 \<equiv> relink x (ptr_at (bhash s x) ys) index s"
  defines "L' \<equiv> L(bhash s x := ys @ zs, index := x # L index)"
  shows "length (bufs s1) = NBUF" "length (bucket s1) = NBUCKET" "disk s1 = disk s"
    "\<exists>u. getb s1 y = (getb s y)\<lparr>bnext := u\<rparr>"
    "i < NBUCKET \<Longrightarrow> bchain (bufs s1) (bucket s1 ! i) (L' i)"
    "i < NBUCKET \<Longrightarrow> distinct (L' i)"
    "i < NBUCKET \<Longrightarrow> set (L' i) = (if i = index then insert x (set (L i)) else set (L i) - {x})"
proof -
  let ?o = "bhash s x"
  define s' where "s' = set_next (ptr_at ?o ys) (bnext (getb s x)) s"
  note U = unlink_spec[OF ok x, folded s'_def]
  note O = set_next_other[of "ptr_at ?o ys" "bnext (getb s x)" s, folded s'_def]
  note G = set_next_getb[of "ptr_at ?o ys" "bnext (getb s x)" s, folded s'_def]
  have L: "\<And>j. j < NBUCKET \<Longrightarrow> distinct (L j)" "\<And>j. j < NBUCKET \<Longrightarrow> set (L j) = {x. x < NBUF \<and> bhash s x = j}"
    and len: "length (bufs s) = NBUF" "length (bucket s) = NBUCKET"
    using ok by (auto simp: lists_ok_def)
  have s1: "bufs s1 = (bufs s')[x := (getb s' x)\<lparr>bnext := bucket s' ! index\<rparr>]" "bucket s1 = (bucket s')[index := Some x]"
    "disk s1 = disk s'"
    by (simp_all add: s1_def relink_def Let_def s'_def upd_buf_def)
  show "length (bufs s1) = NBUF" "length (bucket s1) = NBUCKET" "disk s1 = disk s"
    using O len by (simp_all add: s1)
  show "\<exists>u. getb s1 y = (getb s y)\<lparr>bnext := u\<rparr>"
  proof (cases "y = x")
    case True
    with O(1) G[of x] len x(1) show ?thesis by (auto simp: s1)
  qed (use G[of y] in \<open>simp add: s1\<close>)
  assume i: "i < NBUCKET"
  have xo: "x \<notin> set (L j)" if "j < NBUCKET" "j \<noteq> ?o" for j using L(2)[OF that(1)] that(2) by simp
  have xd: "x \<notin> set (ys @ zs)" using L(1)[of ?o] x(2) by simp
  have keep: "bchain (bufs s1) p l = bchain (bufs s') p l" if "x \<notin> set l" for p l
    using that by (simp add: s1 bchain_update)
  show "bchain (bufs s1) (bucket s1 ! i) (L' i)"
  proof (cases "i = index")
    case True
    from U[OF idx(1)] idx have "bchain (bufs s') (bucket s' ! index) (L index)" by simp
    then have "bchain (bufs s1) (bucket s' ! index) (L index)" using keep[OF xo[OF idx]] by simp
    with True O(1,2) len x(1) idx(1) show ?thesis by (simp add: s1 L'_def)
  next
    case False
    have "x \<notin> set (L' i)" using False xd xo[OF i] by (auto simp: L'_def)
    with False U[OF i] show ?thesis by (simp add: keep) (simp add: s1 L'_def)
  qed
  show "distinct (L' i)" using L(1)[OF i] L(1)[of ?o] x(2) xo[OF idx] L(1)[OF idx(1)] by (auto simp: L'_def)
  show "set (L' i) = (if i = index then insert x (set (L i)) else set (L i) - {x})"
    using x(2) xd xo[OF i] idx by (auto simp: L'_def)
qed

section \<open>Getting a buffer\<close>

text \<open>What an eviction leaves of the other buffers: everything but their links.\<close>

definition relinked :: "bcache \<Rightarrow> bcache \<Rightarrow> nat \<Rightarrow> bool" where
  "relinked s s' y \<longleftrightarrow> (\<exists>u. getb s' y = (getb s y)\<lparr>bnext := u\<rparr>)"

lemma relinkedD:
  "relinked s s' y \<Longrightarrow> dev (getb s' y) = dev (getb s y) \<and> blockno (getb s' y) = blockno (getb s y) \<and>
     refcnt (getb s' y) = refcnt (getb s y) \<and> bvalid (getb s' y) = bvalid (getb s y) \<and>
     bdata (getb s' y) = bdata (getb s y) \<and> holder (getb s' y) = holder (getb s y) \<and>
     lastuse_time (getb s' y) = lastuse_time (getb s y)"
  by (auto simp: relinked_def)

lemma assign_block:
  assumes "keys_ok s" "x < NBUF" "d \<noteq> 0" "\<forall>y. \<not> cached s d b y"
    and len: "length (bufs s1) = NBUF" "length (bucket s1) = NBUCKET"
    and same: "\<And>y. relinked s s1 y"
    and L: "\<And>i. i < NBUCKET \<Longrightarrow> bchain (bufs s1) (bucket s1 ! i) (L i) \<and> distinct (L i) \<and>
        set (L i) = (if i = BUCKET_HASH d b then insert x {y. y < NBUF \<and> bhash s y = i} else {y. y < NBUF \<and> bhash s y = i} - {x})"
  defines "s' \<equiv> upd_buf x (\<lambda>q. q\<lparr>dev := d, blockno := b, refcnt := 1, bvalid := False, owner := BUCKET_HASH d b\<rparr>) s1"
  shows "binv s'" "cached s' d b x" "refcnt (getb s' x) = 1" "\<not> bvalid (getb s' x)" "disk s' = disk s1"
    "y \<noteq> x \<Longrightarrow> relinked s s' y"
proof -
  have g: "getb s' y = (if y = x then (getb s1 x)\<lparr>dev := d, blockno := b, refcnt := 1, bvalid := False, owner := BUCKET_HASH d b\<rparr>
      else getb s1 y)" for y
    using len(1) assms(2) by (simp add: s'_def getb_upd)
  show "cached s' d b x" "refcnt (getb s' x) = 1" "\<not> bvalid (getb s' x)" "disk s' = disk s1"
    using assms(2) by (simp_all add: cached_def g) (simp add: s'_def)
  show "relinked s s' y" if "y \<noteq> x" for y using same[of y] that by (simp add: relinked_def g)
  note D = relinkedD[OF same]
  have h: "bhash s' y = (if y = x then BUCKET_HASH d b else bhash s y)" for y
    by (simp add: bhash_def g D)
  have "bchain (bufs s') p l = bchain (bufs s1) p l" for p l
    by (rule bchain_cong) (simp add: g)
  moreover have "bucket s' = bucket s1" "length (bufs s') = NBUF" using len by (simp_all add: s'_def)
  ultimately have "lists_ok s' L"
    using L len assms(2) unfolding lists_ok_def by (auto simp: h)
  moreover have "keys_ok s'"
    unfolding keys_ok_def
  proof (intro conjI allI impI)
    fix y assume "y < NBUF" "dev (getb s' y) = 0"
    with assms(1,3) show "refcnt (getb s' y) = 0" "\<not> bvalid (getb s' y)"
      by (auto simp: g D keys_ok_def split: if_splits)
  next
    fix y z assume *: "y < NBUF" "z < NBUF" "dev (getb s' y) \<noteq> 0" "dev (getb s' y) = dev (getb s' z)"
      "blockno (getb s' y) = blockno (getb s' z)"
    with assms(4) have "y = x \<longleftrightarrow> z = x" by (auto simp: g D cached_def split: if_splits)
    with * assms(1) show "y = z" by (cases "y = x") (auto simp: g D keys_ok_def)
  qed
  ultimately show "binv s'" by (auto simp: binv_def)
qed

lemma bget_evict_spec:
  assumes inv: "binv s" and d: "d \<noteq> 0" and nc: "\<forall>x. \<not> cached s d b x"
  shows "if \<forall>y<NBUF. refcnt (getb s y) \<noteq> 0 then bget_evict d b s = Inl (Panic ''bget: No buffer.'')
    else \<exists>x s'. bget_evict d b s = Inr (x, s') \<and> is_lru s {..<NBUF} (Some x) \<and> binv s' \<and> cached s' d b x \<and>
      refcnt (getb s' x) = 1 \<and> \<not> bvalid (getb s' x) \<and> disk s' = disk s \<and> (\<forall>y. y \<noteq> x \<longrightarrow> relinked s s' y)"
proof -
  obtain L where L: "lists_ok s L" using inv by (auto simp: binv_def)
  obtain best ba mn where sc: "scan_all s = Inr (ba, mn, map_option (bhash s) best)" and R: "scan_rel s L ba mn best"
    and lru: "is_lru s {..<NBUF} best" using scan_all_spec[OF L] by blast
  show ?thesis
  proof (cases best)
    case None
    with R lru sc show ?thesis by (simp add: scan_rel_def is_lru_def bget_evict_def)
  next
    case (Some x)
    have x: "x < NBUF" "refcnt (getb s x) = 0" using lru Some by (auto simp: is_lru_def)
    obtain ys zs where l: "L (bhash s x) = ys @ x # zs" and ba: "ba = Some (ptr_at (bhash s x) ys)"
      using R Some by (auto simp: scan_rel_def)
    have nx: "next_of s (ptr_at (bhash s x) ys) = Some x"
    proof -
      have "bchain (bufs s) (bucket s ! bhash s x) (L (bhash s x))" using L by (simp add: lists_ok_def)
      from bchain_ptr_at[OF this[unfolded l]] show ?thesis by simp
    qed
    define index where "index = BUCKET_HASH d b"
    define s1 where "s1 = (if bhash s x \<noteq> index then relink x (ptr_at (bhash s x) ys) index s else s)"
    define L1 where "L1 = (if bhash s x \<noteq> index then L(bhash s x := ys @ zs, index := x # L index) else L)"
    have ev: "bget_evict d b s = Inr (x, upd_buf x (\<lambda>q. q\<lparr>dev := d, blockno := b, refcnt := 1, bvalid := False,
        owner := BUCKET_HASH d b\<rparr>) s1)"
      by (simp add: bget_evict_def sc Some ba nx s1_def index_def relink_def Let_def)
    have idx: "index < NBUCKET" by (simp add: index_def)
    note S = lists_ok_def[of s L, THEN iffD1, OF L]
    note RS = relink_spec[OF L x(1) l idx]
    have l1: "length (bufs s1) = NBUF" "length (bucket s1) = NBUCKET" and dk: "disk s1 = disk s"
      using RS(1-3) S by (auto simp: s1_def)
    have rl: "relinked s s1 y" for y
      using RS(4)[of y] by (auto simp: s1_def relinked_def intro: exI[of _ "bnext (getb s y)"])
    have ch: "bchain (bufs s1) (bucket s1 ! i) (L1 i) \<and> distinct (L1 i) \<and>
        set (L1 i) = (if i = BUCKET_HASH d b then insert x {y. y < NBUF \<and> bhash s y = i} else {y. y < NBUF \<and> bhash s y = i} - {x})"
      if i: "i < NBUCKET" for i
      using RS(5-7)[OF _ i] S i x(1) by (cases "bhash s x = index") (auto simp: s1_def L1_def index_def)
    have k: "keys_ok s" using inv by (simp add: binv_def)
    note A = assign_block[OF k x(1) d nc l1 rl ch]
    have "\<not> (\<forall>y<NBUF. refcnt (getb s y) \<noteq> 0)" using x by blast
    with ev A dk lru[unfolded Some] show ?thesis by auto
  qed
qed

end
