(* ===== verification/BioConc.thy ===== *)
theory BioConc
  imports BioCorrect
begin

text \<open>
  Several processes in the buffer cache. \<open>bget\<close> gives up the lock of the bucket before it takes the
  eviction lock, so other processes run between its two parts: the step relation has one step for
  each region that runs under one lock, in any order. A process is outside, between the two parts,
  has a reference to a buffer, or has its sleep lock.
\<close>

datatype bpc = Idle | Missed u32 u32 | Holds nat u32 u32 | Locked nat u32 u32

fun held :: "bpc \<Rightarrow> (nat \<times> u32 \<times> u32) option" where
  "held (Holds x d b) = Some (x, d, b)"
| "held (Locked x d b) = Some (x, d, b)"
| "held _ = None"

text \<open>What \<open>bread\<close> does once it has the sleep lock.\<close>

definition bread_locked :: "disk_rw \<Rightarrow> nat \<Rightarrow> nat \<Rightarrow> bcache \<Rightarrow> bcache" where
  "bread_locked rw me x s =
     (let s2 = lock_buf me x s in
      if \<not> bvalid (getb s2 x) then upd_buf x (\<lambda>q. q\<lparr>bvalid := True\<rparr>) (rw x False s2) else s2)"

inductive bstep :: "disk_rw \<Rightarrow> nat \<Rightarrow> bcache \<times> (nat \<Rightarrow> bpc) \<Rightarrow> bcache \<times> (nat \<Rightarrow> bpc) \<Rightarrow> bool" for rw N where
  hit: "p < N \<Longrightarrow> pc p = Idle \<Longrightarrow> d \<noteq> 0 \<Longrightarrow> bget_hit d b s = Inr (Some x, s') \<Longrightarrow>
     bstep rw N (s, pc) (s', pc(p := Holds x d b))"
| miss: "p < N \<Longrightarrow> pc p = Idle \<Longrightarrow> d \<noteq> 0 \<Longrightarrow> bget_hit d b s = Inr (None, s') \<Longrightarrow>
     bstep rw N (s, pc) (s', pc(p := Missed d b))"
| slow: "p < N \<Longrightarrow> pc p = Missed d b \<Longrightarrow> bget_miss d b s = Inr (x, s') \<Longrightarrow>
     bstep rw N (s, pc) (s', pc(p := Holds x d b))"
| lock: "p < N \<Longrightarrow> pc p = Holds x d b \<Longrightarrow> holder (getb s x) = None \<Longrightarrow>
     bstep rw N (s, pc) (bread_locked rw p x s, pc(p := Locked x d b))"
| change: "p < N \<Longrightarrow> pc p = Locked x d b \<Longrightarrow> bstep rw N (s, pc) (upd_buf x (\<lambda>q. q\<lparr>bdata := v\<rparr>) s, pc)"
| wback: "p < N \<Longrightarrow> pc p = Locked x d b \<Longrightarrow> bwrite rw p x s = Inr s' \<Longrightarrow> bstep rw N (s, pc) (s', pc)"
| release: "p < N \<Longrightarrow> pc p = Locked x d b \<Longrightarrow> brelse p x s = Inr s' \<Longrightarrow> bstep rw N (s, pc) (s', pc(p := Idle))"
| tick: "bstep rw N (s, pc) (s\<lparr>bticks := bticks s + 1\<rparr>, pc)"

definition users :: "(nat \<Rightarrow> bpc) \<Rightarrow> nat \<Rightarrow> nat set" where
  "users pc x = {p. \<exists>d b. held (pc p) = Some (x, d, b)}"

definition conc_inv :: "nat \<Rightarrow> bcache \<Rightarrow> (nat \<Rightarrow> bpc) \<Rightarrow> bool" where
  "conc_inv N s pc \<longleftrightarrow> binv s \<and> (\<forall>p. held (pc p) \<noteq> None \<longrightarrow> p < N) \<and>
     (\<forall>p x d b. held (pc p) = Some (x, d, b) \<longrightarrow> cached s d b x \<and> d \<noteq> 0) \<and>
     (\<forall>x<NBUF. unat (refcnt (getb s x)) = card (users pc x)) \<and>
     (\<forall>p d b. pc p = Missed d b \<longrightarrow> d \<noteq> 0) \<and>
     (\<forall>p x d b. pc p = Locked x d b \<longrightarrow> holder (getb s x) = Some p)"

lemma conc_invD:
  assumes "conc_inv N s pc"
  shows "binv s" "held (pc p) \<noteq> None \<Longrightarrow> p < N" "held (pc p) = Some (x, d, b) \<Longrightarrow> cached s d b x"
    "held (pc p) = Some (x, d, b) \<Longrightarrow> d \<noteq> 0" "x < NBUF \<Longrightarrow> unat (refcnt (getb s x)) = card (users pc x)"
    "pc p = Missed d b \<Longrightarrow> d \<noteq> 0" "pc p = Locked x d b \<Longrightarrow> holder (getb s x) = Some p"
  using assms unfolding conc_inv_def by blast+

lemma users_bound: "conc_inv N s pc \<Longrightarrow> users pc x \<subseteq> {..<N}"
  using conc_invD(2) unfolding users_def by fastforce

lemma users_finite: "conc_inv N s pc \<Longrightarrow> finite (users pc x)"
  by (rule finite_subset[OF users_bound]) auto

lemma users_card: "conc_inv N s pc \<Longrightarrow> card (users pc x) \<le> N"
  using card_mono[OF _ users_bound, of N] by simp

lemma users_upd:
  "users (pc(p := c)) x = (if \<exists>d b. held c = Some (x, d, b) then insert p (users pc x) else users pc x - {p})"
  by (auto simp: users_def)

lemma held_users: "held (pc p) = Some (x, d, b) \<Longrightarrow> p \<in> users pc x"
  by (auto simp: users_def)

text \<open>A process that had no buffer takes a reference.\<close>

lemma conc_take:
  assumes inv: "conc_inv N s pc" and p: "p < N" "held (pc p) = None" and x: "cached s' d b x" "d \<noteq> 0" and "binv s'"
    and "unat (refcnt (getb s' x)) = Suc (card (users pc x))"
    and "\<And>y. y < NBUF \<Longrightarrow> y \<noteq> x \<Longrightarrow> refcnt (getb s' y) = refcnt (getb s y)"
    and "\<And>q y e c. held (pc q) = Some (y, e, c) \<Longrightarrow> cached s' e c y"
    and "\<And>q y e c. pc q = Locked y e c \<Longrightarrow> holder (getb s' y) = holder (getb s y)"
  shows "conc_inv N s' (pc(p := Holds x d b))"
proof -
  have np: "p \<notin> users pc y" for y using p(2) by (auto simp: users_def)
  have u: "card (users (pc(p := Holds x d b)) y) = (if y = x then Suc (card (users pc x)) else card (users pc y))" for y
    using np users_finite[OF inv] by (simp add: users_upd)
  have np': "pc p \<noteq> Locked y e c" for y e c using p(2) by auto
  note I = conc_invD[OF inv]
  show ?thesis
    unfolding conc_inv_def u
  proof (intro conjI allI impI)
    fix q y e c assume "held ((pc(p := Holds x d b)) q) = Some (y, e, c)"
    then show "cached s' e c y" "e \<noteq> 0" using x assms(9) I(4) by (auto split: if_splits)
  next
    fix q y e c assume "(pc(p := Holds x d b)) q = Locked y e c"
    then show "holder (getb s' y) = Some q" using assms(10) I(7) by (auto split: if_splits)
  qed (use I(2,5,6) p assms in \<open>auto split: if_splits\<close>)
qed

lemma conc_hit:
  assumes inv: "conc_inv N s pc" and p: "p < N" "held (pc p) = None" "d \<noteq> 0" and N: "N < 2 ^ 32" and c: "cached s d b x"
  shows "conc_inv N (upd_buf x (\<lambda>q. q\<lparr>refcnt := refcnt q + 1\<rparr>) s) (pc(p := Holds x d b))"
proof -
  note I = conc_invD[OF inv]
  have x: "x < NBUF" "x < length (bufs s)" "dev (getb s x) \<noteq> 0"
    using c p(3) I(1) by (auto simp: cached_def binv_def lists_ok_def)
  have g: "getb (upd_buf x f s) y = (if y = x then f (getb s x) else getb s y)" for f y by (rule getb_upd[OF x(2)])
  have "p \<in> {..<N}" "p \<notin> users pc x" using p by (auto simp: users_def)
  then have "users pc x \<subset> {..<N}" using users_bound[OF inv] by blast
  then have "card (users pc x) < N" using psubset_card_mono[of "{..<N}"] by simp
  then have "unat (refcnt (getb s x)) + 1 < 2 ^ 32" using I(5)[OF x(1)] N by simp
  then have r: "unat (refcnt (getb s x) + 1) = Suc (card (users pc x))"
    using I(5)[OF x(1)] unat_add_lem[of "refcnt (getb s x)" 1] by simp
  show ?thesis
  proof (rule conc_take[OF inv p(1,2) _ p(3)])
    show "binv (upd_buf x (\<lambda>q. q\<lparr>refcnt := refcnt q + 1\<rparr>) s)" by (rule binv_upd[OF I(1) x(1)]) (use x in auto)
  qed (use c r I(3) in \<open>auto simp: g cached_def\<close>)
qed

lemma conc_evict:
  assumes inv: "conc_inv N s pc" and p: "p < N" "held (pc p) = None" "d \<noteq> 0"
    and nc: "\<forall>x. \<not> cached s d b x" and ev: "bget_evict d b s = Inr (x, s')"
  shows "conc_inv N s' (pc(p := Holds x d b))"
proof -
  note I = conc_invD[OF inv]
  have E: "is_lru s {..<NBUF} (Some x)" "binv s'" "cached s' d b x" "refcnt (getb s' x) = 1"
    "\<And>y. y \<noteq> x \<Longrightarrow> relinked s s' y"
    using bget_evict_spec[OF I(1) p(3) nc] ev by (auto split: if_splits)
  have x: "x < NBUF" "refcnt (getb s x) = 0" using E(1) by (auto simp: is_lru_def)
  then have "users pc x = {}" using I(5)[OF x(1)] users_finite[OF inv] by simp
  then have nx: "y \<noteq> x" if "held (pc q) = Some (y, e, c)" for q y e c using held_users[of pc q y e c] that by auto
  have nl: "y \<noteq> x" if "pc q = Locked y e c" for q y e c using nx[of q y e c] that by simp
  note D = relinkedD[OF E(5)]
  show ?thesis
  proof (rule conc_take[OF inv p(1,2) E(3) p(3) E(2)])
    show "cached s' e c y" if "held (pc q) = Some (y, e, c)" for q y e c
      using I(3)[OF that] D[OF nx[OF that]] by (simp add: cached_def)
    show "holder (getb s' y) = holder (getb s y)" if "pc q = Locked y e c" for q y e c
      using D[OF nl[OF that]] by simp
  qed (use E(4) D \<open>users pc x = {}\<close> in auto)
qed

text \<open>A process that has the sleep lock changes its buffer, but not what block it is or who uses it.\<close>

lemma conc_locked:
  assumes inv: "conc_inv N s pc" and p: "held (pc p) = Some (x, d, b)"
    and f: "\<And>q. bnext (f q) = bnext q \<and> dev (f q) = dev q \<and> blockno (f q) = blockno q \<and> refcnt (f q) = refcnt q \<and> holder (f q) = holder q"
  shows "conc_inv N (upd_buf x f s) pc"
proof -
  note I = conc_invD[OF inv]
  have x: "x < NBUF" "x < length (bufs s)" "dev (getb s x) \<noteq> 0"
    using I(3,4)[OF p] I(1) by (auto simp: cached_def binv_def lists_ok_def)
  have k: "dev (getb (upd_buf x f s) y) = dev (getb s y)" "blockno (getb (upd_buf x f s) y) = blockno (getb s y)"
    "refcnt (getb (upd_buf x f s) y) = refcnt (getb s y)" "holder (getb (upd_buf x f s) y) = holder (getb s y)" for y
    by (simp_all add: getb_upd[OF x(2)] f)
  have "binv (upd_buf x f s)" by (rule binv_upd[OF I(1) x(1)]) (use x f in auto)
  with inv show ?thesis unfolding conc_inv_def cached_def k by blast
qed

lemma conc_cong:
  "conc_inv N s pc \<Longrightarrow> bufs s' = bufs s \<Longrightarrow> bucket s' = bucket s \<Longrightarrow> conc_inv N s' pc"
  by (simp add: conc_inv_def binv_def lists_ok_def keys_ok_def bhash_def cached_def)

lemma conc_lock:
  assumes inv: "conc_inv N s pc" and p: "p < N" "pc p = Holds x d b" and free: "holder (getb s x) = None"
  shows "conc_inv N (lock_buf p x s) (pc(p := Locked x d b))"
proof -
  note I = conc_invD[OF inv]
  have h: "held (pc p) = Some (x, d, b)" using p(2) by simp
  have x: "x < NBUF" "x < length (bufs s)" "dev (getb s x) \<noteq> 0"
    using I(3,4)[OF h] I(1) by (auto simp: cached_def binv_def lists_ok_def)
  let ?s = "lock_buf p x s"
  have g: "getb ?s y = (if y = x then (getb s x)\<lparr>holder := Some p\<rparr> else getb s y)" for y
    by (simp add: lock_buf_def getb_upd[OF x(2)])
  have b: "binv ?s" unfolding lock_buf_def
    by (rule binv_upd[OF I(1) x(1)]) (use x in auto)
  have u: "users (pc(p := Locked x d b)) y = users pc y" for y
    using p(2) by (auto simp: users_def)
  have c: "cached ?s e c y = cached s e c y" for e c y by (simp add: cached_def g)
  have r: "refcnt (getb ?s y) = refcnt (getb s y)" for y by (simp add: g)
  have nl: "pc q \<noteq> Locked x e c" for q e c using I(7)[of q x e c] free by auto
  show ?thesis
    unfolding conc_inv_def u c r
  proof (intro conjI allI impI)
    fix q y e c assume "(pc(p := Locked x d b)) q = Locked y e c"
    then show "holder (getb ?s y) = Some q" using nl[of q e c] I(7)[of q y e c] by (auto simp: g split: if_splits)
  next
    fix q y e c assume "held ((pc(p := Locked x d b)) q) = Some (y, e, c)"
    then show "cached s e c y" "e \<noteq> 0" using I(3,4)[of q y e c] I(3,4)[OF h] by (auto split: if_splits)
  qed (use I(2,5,6) b p(1) in \<open>auto split: if_splits\<close>)
qed

lemma conc_release:
  assumes inv: "conc_inv N s pc" and p: "pc p = Locked x d b" and r: "brelse p x s = Inr s'"
  shows "conc_inv N s' (pc(p := Idle))"
proof -
  note I = conc_invD[OF inv]
  have h: "held (pc p) = Some (x, d, b)" using p by simp
  have x: "x < NBUF" "x < length (bufs s)" "dev (getb s x) \<noteq> 0"
    using I(3,4)[OF h] I(1) by (auto simp: cached_def binv_def lists_ok_def)
  define f where "f q = q\<lparr>holder := None, refcnt := refcnt q - 1,
    lastuse_time := if refcnt q - 1 = 0 then bticks s else lastuse_time q\<rparr>" for q :: buf
  have s': "s' = upd_buf x f s"
    using r x(2) by (auto simp: brelse_def Let_def f_def upd_buf_def split: if_splits)
  have g: "getb s' y = (if y = x then f (getb s x) else getb s y)" for y by (simp add: s' getb_upd[OF x(2)])
  have b: "binv s'" unfolding s'
    by (rule binv_upd[OF I(1) x(1)]) (use x in \<open>auto simp: f_def\<close>)
  have c: "cached s' e c y = cached s e c y" for e c y by (simp add: cached_def g f_def)
  have pu: "p \<in> users pc x" "finite (users pc x)" using held_users[of pc p x d b] h users_finite[OF inv] by auto
  then have ge: "0 < unat (refcnt (getb s x))" using I(5)[OF x(1)] card_gt_0_iff by auto
  then have um: "unat (refcnt (getb s x) - 1) = card (users pc x - {p})"
    using I(5)[OF x(1)] pu by (simp add: unat_minus_one unat_gt_0[symmetric])
  have np: "p \<notin> users pc y" if "y \<noteq> x" for y using that h by (auto simp: users_def)
  have rc: "unat (refcnt (getb s' y)) = card (users (pc(p := Idle)) y)" if "y < NBUF" for y
    using um np[of y] I(5)[OF that] by (cases "y = x") (simp_all add: users_upd g f_def)
  have nl: "y \<noteq> x" if "pc q = Locked y e c" "q \<noteq> p" for q y e c using I(7)[OF that(1)] I(7)[OF p] that(2) by auto
  show ?thesis
    unfolding conc_inv_def c
  proof (intro conjI allI impI)
    fix q y e c assume "(pc(p := Idle)) q = Locked y e c"
    then show "holder (getb s' y) = Some q" using nl[of q y e c] I(7)[of q y e c] by (auto simp: g split: if_splits)
  qed (use I(2-4,6) b rc in \<open>auto split: if_splits\<close>)
qed

lemma upd_buf_twice: "upd_buf x f (upd_buf x g s) = upd_buf x (\<lambda>q. f (g q)) s"
  by (cases "x < length (bufs s)") (simp_all add: upd_buf_def list_update_beyond)

lemma conc_step:
  assumes "bstep rw N (s, pc) (s', pc')" "conc_inv N s pc" "N < 2 ^ 32" "disk_driver rw"
  shows "conc_inv N s' pc'"
  using assms(1)
proof cases
  case (hit p d b x)
  obtain L where L: "lists_ok s L" using conc_invD(1)[OF assms(2)] by (auto simp: binv_def)
  have "cached s d b x" "s' = upd_buf x (\<lambda>q. q\<lparr>refcnt := refcnt q + 1\<rparr>) s"
    using find_buf_cached[OF L, of d b] hit(5) by (auto simp: bget_hit_def split: option.splits)
  with conc_hit[OF assms(2) hit(2) _ hit(4) assms(3)] hit show ?thesis by simp
next
  case (miss p d b)
  obtain L where L: "lists_ok s L" using conc_invD(1)[OF assms(2)] by (auto simp: binv_def)
  have "s' = s" using find_buf_cached[OF L, of d b] miss(5) by (auto simp: bget_hit_def split: option.splits)
  moreover have "users (pc(p := Missed d b)) x = users pc x" for x using miss(3) by (auto simp: users_def)
  ultimately show ?thesis using assms(2) miss unfolding conc_inv_def by auto
next
  case (slow p d b x)
  obtain L where L: "lists_ok s L" using conc_invD(1)[OF assms(2)] by (auto simp: binv_def)
  have d: "d \<noteq> 0" using conc_invD(6)[OF assms(2) slow(3)] .
  have h: "held (pc p) = None" using slow(3) by simp
  from find_buf_cached[OF L, of d b] obtain r where
    r: "find_buf (NBUF + 1) (bufs s) (bucket s ! BUCKET_HASH d b) d b = Inr r"
      "case r of Some x \<Rightarrow> cached s d b x | None \<Rightarrow> \<forall>x. \<not> cached s d b x" by blast
  show ?thesis
  proof (cases r)
    case None
    with r slow(4) have "bget_evict d b s = Inr (x, s')" by (simp add: bget_miss_def)
    with conc_evict[OF assms(2) slow(2) h d _ this] r(2) None slow(1) show ?thesis by simp
  next
    case (Some y)
    with r slow(4) have "y = x" "s' = upd_buf x (\<lambda>q. q\<lparr>refcnt := refcnt q + 1\<rparr>) s"
      by (auto simp: bget_miss_def simp del: find_buf.simps)
    with conc_hit[OF assms(2) slow(2) h d assms(3)] r(2) Some slow(1) show ?thesis by simp
  qed
next
  case (lock p x d b)
  note A = conc_lock[OF assms(2) lock(3,4,5)]
  let ?s = "lock_buf p x s"
  have "conc_inv N (upd_buf x (\<lambda>q. q\<lparr>bdata := disk ?s (dev q, blockno q), bvalid := True\<rparr>) ?s) pc'"
    unfolding lock(2) by (rule conc_locked[OF A, of p x d b]) auto
  then show ?thesis
    using A lock(1,2) assms(4) by (simp add: bread_locked_def Let_def disk_driver_def upd_buf_twice)
next
  case (change p x d b v)
  with conc_locked[OF assms(2), of p x d b "\<lambda>q. q\<lparr>bdata := v\<rparr>"] show ?thesis by simp
next
  case (wback p x d b)
  with assms(4) have "bufs s' = bufs s" "bucket s' = bucket s" by (auto simp: bwrite_def disk_driver_def split: if_splits)
  with conc_cong[OF assms(2)] wback show ?thesis by simp
next
  case (release p x d b)
  with conc_release[OF assms(2)] show ?thesis by simp
next
  case tick
  with conc_cong[OF assms(2)] show ?thesis by simp
qed

lemma conc_reachable:
  assumes "(bstep rw N)\<^sup>*\<^sup>* (s, pc) (s', pc')" "conc_inv N s pc" "N < 2 ^ 32" "disk_driver rw"
  shows "conc_inv N s' pc'"
  using assms(1)
proof (induction "(s', pc')" arbitrary: s' pc' rule: rtranclp_induct)
  case (step y)
  obtain s1 pc1 where y: "y = (s1, pc1)" by (cases y)
  from step(3)[OF y] step(2) y assms(3,4) show ?case by (auto intro: conc_step)
qed (use assms(2) in simp)

end
