(* ===== verification/BioProps.thy ===== *)
theory BioProps
  imports BioConc
begin

text \<open>
  The properties of the buffer cache: boot establishes the invariant, \<open>bget\<close> returns the buffer of the
  block and evicts the least recently used free buffer, \<open>bread\<close> returns the contents of the block, and
  in every interleaving a block is in at most one buffer.
\<close>

section \<open>Boot\<close>

lemma binit_buf_simps:
  assumes "i < length (bufs s)" "0 < length (bucket s)"
  shows "length (bufs (binit_buf i s)) = length (bufs s)" "length (bucket (binit_buf i s)) = length (bucket s)"
    "bucket (binit_buf i s) ! j = (if j = 0 then Some i else bucket s ! j)"
    "getb (binit_buf i s) y = (if y = i then (getb s i)\<lparr>holder := None, lastuse_time := 0, refcnt := 0,
        bnext := bucket s ! 0, owner := 0\<rparr> else getb s y)"
    "disk (binit_buf i s) = disk s"
  using assms by (simp_all add: binit_buf_def Let_def upd_buf_def nth_list_update)

definition blank :: "bcache \<Rightarrow> bool" where
  "blank s \<longleftrightarrow> length (bufs s) = NBUF \<and> length (bucket s) = NBUCKET \<and>
     (\<forall>x<NBUF. dev (getb s x) = 0 \<and> blockno (getb s x) = 0 \<and> \<not> bvalid (getb s x))"

lemma binit_bufs:
  assumes "blank s" "\<forall>i<NBUCKET. bucket s ! i = None" "k \<le> NBUF"
  defines "t \<equiv> fold binit_buf [0..<k] s"
  shows "blank t \<and> bchain (bufs t) (bucket t ! 0) (rev [0..<k]) \<and> (\<forall>i. 0 < i \<longrightarrow> bucket t ! i = bucket s ! i) \<and>
    (\<forall>x<k. refcnt (getb t x) = 0 \<and> holder (getb t x) = None) \<and> disk t = disk s"
  using assms(3) unfolding t_def
proof (induction k)
  case 0
  then show ?case using assms(1,2) by (simp add: NBUCKET_def)
next
  case (Suc k)
  let ?u = "fold binit_buf [0..<k] s"
  from Suc have IH: "blank ?u" "bchain (bufs ?u) (bucket ?u ! 0) (rev [0..<k])" "\<forall>i. 0 < i \<longrightarrow> bucket ?u ! i = bucket s ! i"
    "\<forall>x<k. refcnt (getb ?u x) = 0 \<and> holder (getb ?u x) = None" "disk ?u = disk s" by auto
  have l: "k < length (bufs ?u)" "0 < length (bucket ?u)" using IH(1) Suc.prems by (simp_all add: blank_def NBUCKET_def)
  note B = binit_buf_simps[OF l]
  have "bchain (bufs (binit_buf k ?u)) p (rev [0..<k]) = bchain (bufs ?u) p (rev [0..<k])" for p
    by (rule bchain_cong) (auto simp: B)
  with IH show ?case by (auto simp: B blank_def less_Suc_eq)
qed

lemma binit_inv:
  assumes "blank s"
  shows "binv (binit s)" "\<forall>x<NBUF. refcnt (getb (binit s) x) = 0 \<and> holder (getb (binit s) x) = None"
    "disk (binit s) = disk s" "blank (binit s)"
proof -
  define s1 where "s1 = fold (\<lambda>i s. s\<lparr>bucket := (bucket s)[i := None]\<rparr>) [0..<NBUCKET] s"
  have f: "bufs (fold (\<lambda>i s. s\<lparr>bucket := (bucket s)[i := None]\<rparr>) is t) = bufs t \<and>
      disk (fold (\<lambda>i s. s\<lparr>bucket := (bucket s)[i := None]\<rparr>) is t) = disk t \<and>
      length (bucket (fold (\<lambda>i s. s\<lparr>bucket := (bucket s)[i := None]\<rparr>) is t)) = length (bucket t) \<and>
      (\<forall>j<length (bucket t). bucket (fold (\<lambda>i s. s\<lparr>bucket := (bucket s)[i := None]\<rparr>) is t) ! j =
         (if j \<in> set is then None else bucket t ! j))" for "is" and t :: bcache
    by (induction "is" arbitrary: t) (auto simp: nth_list_update)
  have s1: "blank s1" "\<forall>i<NBUCKET. bucket s1 ! i = None" "disk s1 = disk s"
    using assms f[of "[0..<NBUCKET]" s] by (auto simp: s1_def blank_def)
  have b: "binit s = fold binit_buf [0..<NBUF] s1" by (simp add: binit_def s1_def)
  note R = binit_bufs[OF s1(1,2) order_refl, folded b]
  from R show "\<forall>x<NBUF. refcnt (getb (binit s) x) = 0 \<and> holder (getb (binit s) x) = None"
    "disk (binit s) = disk s" "blank (binit s)" using s1(3) by auto
  define L where "L i = (if i = 0 then rev [0..<NBUF] else [])" for i :: nat
  have "bhash (binit s) x = 0" if "x < NBUF" for x
    using R that by (simp add: bhash_def blank_def BUCKET_HASH_def)
  moreover have "bucket (binit s) ! i = None" if "0 < i" "i < NBUCKET" for i using R s1(2) that by auto
  ultimately have "lists_ok (binit s) L" using R by (auto simp: lists_ok_def L_def blank_def)
  moreover have "keys_ok (binit s)" using R by (auto simp: keys_ok_def blank_def)
  ultimately show "binv (binit s)" by (auto simp: binv_def)
qed

section \<open>One process\<close>

lemma bget_cases:
  assumes "binv s" "d \<noteq> 0"
  shows "(\<exists>x. cached s d b x \<and> bget d b s = Inr (x, upd_buf x (\<lambda>q. q\<lparr>refcnt := refcnt q + 1\<rparr>) s)) \<or>
    (\<forall>x. \<not> cached s d b x) \<and> bget d b s = bget_evict d b s"
proof -
  obtain L where L: "lists_ok s L" using assms(1) by (auto simp: binv_def)
  from find_buf_cached[OF L, of d b] obtain r where
    r: "find_buf (NBUF + 1) (bufs s) (bucket s ! BUCKET_HASH d b) d b = Inr r"
      "case r of Some x \<Rightarrow> cached s d b x | None \<Rightarrow> \<forall>x. \<not> cached s d b x" by blast
  then show ?thesis
    by (cases r) (auto simp: bget_def bget_hit_def bget_miss_def simp del: find_buf.simps)
qed

text \<open>
  C23: \<open>bget\<close> on a well-formed cache. If a buffer has the block, that buffer is returned with one more
  reference. Otherwise, if some buffer is not referenced, the one that was released longest ago is
  taken: it has the block, one reference and no valid contents, and every other buffer keeps its block,
  contents and references; the invariant holds again. If every buffer is referenced, \<open>bget\<close> panics. It
  never runs forever or follows a wild pointer.
\<close>

theorem bget_hit_or_lru:
  assumes "binv s" "d \<noteq> 0"
  shows "case bget d b s of
      Inr (x, s') \<Rightarrow> binv s' \<and> cached s' d b x \<and> disk s' = disk s \<and>
        (if cached s d b x then getb s' x = (getb s x)\<lparr>refcnt := refcnt (getb s x) + 1\<rparr> \<and> (\<forall>y. y \<noteq> x \<longrightarrow> getb s' y = getb s y)
         else (\<forall>y. \<not> cached s d b y) \<and> refcnt (getb s' x) = 1 \<and> \<not> bvalid (getb s' x) \<and> refcnt (getb s x) = 0 \<and>
           (\<forall>y<NBUF. refcnt (getb s y) = 0 \<longrightarrow> lastuse_time (getb s x) \<le> lastuse_time (getb s y)) \<and>
           (\<forall>y. y \<noteq> x \<longrightarrow> relinked s s' y))
    | Inl e \<Rightarrow> e = Panic ''bget: No buffer.'' \<and> (\<forall>y. \<not> cached s d b y) \<and> (\<forall>y<NBUF. refcnt (getb s y) \<noteq> 0)"
  using bget_cases[OF assms, of b]
proof (elim disjE exE conjE)
  fix x assume c: "cached s d b x" and r: "bget d b s = Inr (x, upd_buf x (\<lambda>q. q\<lparr>refcnt := refcnt q + 1\<rparr>) s)"
  have x: "x < NBUF" "x < length (bufs s)" "dev (getb s x) \<noteq> 0"
    using c assms by (auto simp: cached_def binv_def lists_ok_def)
  have "binv (upd_buf x (\<lambda>q. q\<lparr>refcnt := refcnt q + 1\<rparr>) s)" by (rule binv_upd[OF assms(1) x(1)]) (use x in auto)
  then show ?thesis using c r x(2) by (simp add: getb_upd cached_def)
next
  assume nc: "\<forall>x. \<not> cached s d b x" and r: "bget d b s = bget_evict d b s"
  with bget_evict_spec[OF assms nc] show ?thesis by (auto simp: is_lru_def split: if_splits)
qed

definition zero_buf :: buf where
  "zero_buf = \<lparr>bvalid = False, dev = 0, blockno = 0, holder = None, refcnt = 0, bnext = None, bdata = [],
     lastuse_time = 0, owner = 0\<rparr>"

definition boot_cache :: bcache where
  "boot_cache = binit \<lparr>bufs = replicate NBUF zero_buf, bucket = replicate NBUCKET None, bticks = 0,
     disk = (\<lambda>(d, b). [ucast b])\<rparr>"

lemma boot_cache_facts:
  "binv boot_cache" "\<forall>x<NBUF. refcnt (getb boot_cache x) = 0 \<and> holder (getb boot_cache x) = None"
  "disk boot_cache = (\<lambda>(d, b). [ucast b])" "blank boot_cache"
proof -
  let ?s = "\<lparr>bufs = replicate NBUF zero_buf, bucket = replicate NBUCKET None, bticks = 0, disk = (\<lambda>(d, b). [ucast b])\<rparr>"
  have "blank ?s" by (simp add: blank_def zero_buf_def)
  from binit_inv[OF this] show "binv boot_cache" "\<forall>x<NBUF. refcnt (getb boot_cache x) = 0 \<and> holder (getb boot_cache x) = None"
    "disk boot_cache = (\<lambda>(d, b). [ucast b])" "blank boot_cache" by (simp_all add: boot_cache_def)
qed

definition ram_disk :: disk_rw where
  "ram_disk x wr s =
     (if wr then s\<lparr>disk := (disk s)((dev (getb s x), blockno (getb s x)) := bdata (getb s x))\<rparr>
      else upd_buf x (\<lambda>q. q\<lparr>bdata := disk s (dev q, blockno q)\<rparr>) s)"

lemma ram_disk_ok: "disk_driver ram_disk"
  by (simp add: disk_driver_def ram_disk_def)

lemma boot_not_cached: "d \<noteq> 0 \<Longrightarrow> \<not> cached boot_cache d b x"
  using boot_cache_facts(4) by (auto simp: cached_def blank_def)

theorem bget_hit_or_lru_witness:
  "\<exists>x s'. bget 1 33 boot_cache = Inr (x, s') \<and> cached s' 1 33 x \<and> refcnt (getb s' x) = 1 \<and> binv s'"
proof -
  have n: "\<not> cached boot_cache 1 33 x" for x by (rule boot_not_cached) simp
  have z: "refcnt (getb boot_cache 0) = 0" "0 < NBUF" using boot_cache_facts(2) by (auto simp: NBUF_def)
  then have f: "\<not> (\<forall>y<NBUF. refcnt (getb boot_cache y) \<noteq> 0)" by blast
  show ?thesis
    using bget_hit_or_lru[OF boot_cache_facts(1), of 1 33] n f
    by (auto split: sum.splits)
qed

text \<open>
  \<open>bread\<close> returns a locked buffer of the block with valid contents: those the cache already had for
  the block if it had any, and those of the disk otherwise. The disk and the invariant are unchanged.
\<close>

theorem bread_returns_contents:
  assumes "binv s" "d \<noteq> 0" "bread rw me d b s = Inr (x, s')" "disk_driver rw"
  shows "binv s' \<and> cached s' d b x \<and> holder (getb s' x) = Some me \<and> bvalid (getb s' x) \<and> disk s' = disk s \<and>
    bdata (getb s' x) = (if cached s d b x \<and> bvalid (getb s x) then bdata (getb s x) else disk s (d, b))"
proof -
  from assms(3) obtain s1 where g: "bget d b s = Inr (x, s1)" and s': "s' = bread_locked rw me x s1"
    by (auto simp: bread_def bread_locked_def bindR_Inr_iff Let_def split: if_splits)
  from bget_hit_or_lru[OF assms(1,2), of b] g
  have G: "binv s1" "cached s1 d b x" "disk s1 = disk s"
    "if cached s d b x then getb s1 x = (getb s x)\<lparr>refcnt := refcnt (getb s x) + 1\<rparr> else \<not> bvalid (getb s1 x)"
    by (auto split: if_splits)
  have x: "x < NBUF" "x < length (bufs s1)" "dev (getb s1 x) = d" "blockno (getb s1 x) = b"
    using G(1,2) by (auto simp: cached_def binv_def lists_ok_def)
  let ?s2 = "lock_buf me x s1"
  define f where "f q = (if bvalid q then q\<lparr>holder := Some me\<rparr>
    else q\<lparr>holder := Some me, bdata := disk s (dev q, blockno q), bvalid := True\<rparr>)" for q :: buf
  have s'2: "s' = upd_buf x f s1"
    using x(2) assms(4)
    by (simp add: s' bread_locked_def Let_def lock_buf_def upd_buf_twice getb_upd G(3) disk_driver_def)
       (simp add: upd_buf_def f_def)
  have "binv s'" unfolding s'2
    by (rule binv_upd[OF G(1) x(1)]) (use x assms(2) in \<open>auto simp: f_def\<close>)
  moreover have "getb s' x = f (getb s1 x)" by (simp add: s'2 getb_upd[OF x(2)])
  ultimately show ?thesis using G x by (auto simp: cached_def f_def s'2 split: if_splits)
qed

theorem bread_returns_contents_witness:
  "\<exists>x s'. bread ram_disk 7 1 33 boot_cache = Inr (x, s') \<and> bdata (getb s' x) = [33] \<and> holder (getb s' x) = Some 7"
proof -
  have n: "\<not> cached boot_cache 1 33 x" for x by (rule boot_not_cached) simp
  have z: "refcnt (getb boot_cache 0) = 0" "0 < NBUF" using boot_cache_facts(2) by (auto simp: NBUF_def)
  then have f: "\<not> (\<forall>y<NBUF. refcnt (getb boot_cache y) \<noteq> 0)" by blast
  have "\<exists>x s1. bget 1 33 boot_cache = Inr (x, s1)"
    using bget_cases[OF boot_cache_facts(1), of 1 33] bget_evict_spec[OF boot_cache_facts(1), of 1 33] n f by auto
  then obtain x s1 where "bget 1 33 boot_cache = Inr (x, s1)" by blast
  then have r: "bread ram_disk 7 1 33 boot_cache = Inr (x, bread_locked ram_disk 7 x s1)" by (simp add: bread_def bread_locked_def Let_def)
  from bread_returns_contents[OF boot_cache_facts(1) _ this ram_disk_ok] n boot_cache_facts(3) r show ?thesis by auto
qed

section \<open>Many processes\<close>

lemma boot_conc: "conc_inv N boot_cache (\<lambda>_. Idle)"
  using boot_cache_facts(1,2) by (simp add: conc_inv_def users_def)



end
