(* ===== verification/Bytes.thy ===== *)
theory Bytes
  imports Prelude
begin

text \<open>
  Byte blocks: reading and replacing a part of a block, and the little-endian image of an integer
  in it, as a C program sees them through a pointer into a buffer.
\<close>

section \<open>Parts of a block\<close>

definition bslice :: "nat \<Rightarrow> nat \<Rightarrow> 'a list \<Rightarrow> 'a list" where
  "bslice off n xs = take n (drop off xs)"

definition bsplice :: "nat \<Rightarrow> 'a list \<Rightarrow> 'a list \<Rightarrow> 'a list" where
  "bsplice off ys xs = take off xs @ ys @ drop (off + length ys) xs"

lemma length_bslice [simp]: "off + n \<le> length xs \<Longrightarrow> length (bslice off n xs) = n"
  by (simp add: bslice_def)

lemma length_bsplice [simp]: "off + length ys \<le> length xs \<Longrightarrow> length (bsplice off ys xs) = length xs"
  by (simp add: bsplice_def)

lemma nth_bsplice:
  assumes "off + length ys \<le> length xs" "i < length xs"
  shows "bsplice off ys xs ! i = (if off \<le> i \<and> i < off + length ys then ys ! (i - off) else xs ! i)"
  using assms by (auto simp: bsplice_def nth_append min_def)

lemma nth_bslice: "off + n \<le> length xs \<Longrightarrow> i < n \<Longrightarrow> bslice off n xs ! i = xs ! (off + i)"
  by (simp add: bslice_def)

lemma bslice_bsplice_same [simp]:
  "off + length ys \<le> length xs \<Longrightarrow> n = length ys \<Longrightarrow> bslice off n (bsplice off ys xs) = ys"
  by (rule nth_equalityI) (auto simp: nth_bslice nth_bsplice)

lemma bslice_bsplice_other:
  assumes "off + length ys \<le> length xs" "o' + n \<le> length xs" "o' + n \<le> off \<or> off + length ys \<le> o'"
  shows "bslice o' n (bsplice off ys xs) = bslice o' n xs"
  by (rule nth_equalityI) (use assms in \<open>auto simp: nth_bslice nth_bsplice\<close>)

lemma bsplice_inside:
  assumes "off + n \<le> length xs" "o' + length ys \<le> n"
  shows "bsplice (off + o') ys xs = bsplice off (bsplice o' ys (bslice off n xs)) xs"
  by (rule nth_equalityI) (use assms in \<open>auto simp: nth_bsplice nth_bslice\<close>)

lemma bslice_bslice: "off + o' + n \<le> length xs \<Longrightarrow> o' + n \<le> k \<Longrightarrow> off + k \<le> length xs \<Longrightarrow>
    bslice o' n (bslice off k xs) = bslice (off + o') n xs"
  by (rule nth_equalityI) (auto simp: nth_bslice add.assoc)

lemma bsplice_idem [simp]: "off + length ys \<le> length xs \<Longrightarrow> bsplice off ys (bsplice off ys xs) = bsplice off ys xs"
  by (rule nth_equalityI) (auto simp: nth_bsplice)

lemma bslice_inside:
  "off + length ys \<le> length xs \<Longrightarrow> k + n \<le> length ys \<Longrightarrow> bslice (off + k) n (bsplice off ys xs) = bslice k n ys"
  by (rule nth_equalityI) (auto simp: nth_bslice nth_bsplice)

lemma bslice_append:
  "length ys \<le> k \<Longrightarrow> bslice k n (ys @ zs) = bslice (k - length ys) n zs"
  "n = length ys \<Longrightarrow> bslice 0 n (ys @ zs) = ys"
  by (simp_all add: bslice_def)

lemma bslice_split: "m \<le> n \<Longrightarrow> bslice off n xs = bslice off m xs @ bslice (off + m) (n - m) xs"
  using take_add[of m "n - m" "drop off xs"] by (simp add: bslice_def add.commute)

section \<open>Integers\<close>

definition le_bytes :: "nat \<Rightarrow> 'a::len word \<Rightarrow> u8 list" where
  "le_bytes n w = map (\<lambda>k. ucast (drop_bit (8 * k) w)) [0..<n]"

definition le_word :: "u8 list \<Rightarrow> 'a::len word" where
  "le_word bs = foldr (\<lambda>b w. ucast b OR push_bit 8 w) bs 0"

lemma length_le_bytes [simp]: "length (le_bytes n w) = n"
  by (simp add: le_bytes_def)

lemma bit_le_word:
  "bit (le_word bs :: 'a::len word) i \<longleftrightarrow> i < LENGTH('a) \<and> i div 8 < length bs \<and> bit (bs ! (i div 8)) (i mod 8)"
proof (induction bs arbitrary: i)
  case Nil
  then show ?case by (simp add: le_word_def)
next
  case (Cons b bs)
  have step: "(le_word (b # bs) :: 'a word) = ucast b OR push_bit 8 (le_word bs)" by (simp add: le_word_def)
  show ?case
  proof (cases "i < 8")
    case True
    then show ?thesis unfolding step by (auto simp: bit_simps)
  next
    case False
    then obtain j where j: "i = j + 8" by (metis le_add_diff_inverse2 not_less)
    have "\<not> bit b i" using False by (auto dest: bit_imp_le_length)
    moreover have "(j + 8) div 8 = Suc (j div 8)" by simp
    ultimately show ?thesis unfolding step using Cons.IH[of j] by (auto simp: bit_simps j)
  qed
qed

lemma le_word_bytes [simp]: "LENGTH('a) \<le> 8 * n \<Longrightarrow> le_word (le_bytes n w) = (w :: 'a::len word)"
proof (rule bit_word_eqI)
  fix i assume n: "LENGTH('a) \<le> 8 * n" and i: "i < LENGTH('a)"
  then have "i div 8 < n" by (simp add: div_less_iff_less_mult)
  then show "bit (le_word (le_bytes n w) :: 'a word) i = bit w i"
    using i by (simp add: bit_le_word le_bytes_def bit_simps)
qed

lemma le_word_zero [simp]: "le_word (replicate n 0) = (0 :: 'a::len word)"
  by (rule bit_word_eqI) (auto simp: bit_le_word)

definition get_u32 :: "u8 list \<Rightarrow> nat \<Rightarrow> u32" where
  "get_u32 d i = le_word (bslice (4 * i) 4 d)"

definition put_u32 :: "nat \<Rightarrow> u32 \<Rightarrow> u8 list \<Rightarrow> u8 list" where
  "put_u32 i v d = bsplice (4 * i) (le_bytes 4 v) d"

lemma length_put_u32 [simp]: "4 * i + 4 \<le> length d \<Longrightarrow> length (put_u32 i v d) = length d"
  by (simp add: put_u32_def)

lemma get_put_u32:
  "4 * i + 4 \<le> length d \<Longrightarrow> 4 * j + 4 \<le> length d \<Longrightarrow> get_u32 (put_u32 i v d) j = (if i = j then v else get_u32 d j)"
proof (cases "i = j")
  case False
  then have "4 * j + 4 \<le> 4 * i \<or> 4 * i + 4 \<le> 4 * j" by auto
  then show "4 * i + 4 \<le> length d \<Longrightarrow> 4 * j + 4 \<le> length d \<Longrightarrow> ?thesis"
    using False by (simp add: get_u32_def put_u32_def bslice_bsplice_other)
qed (simp add: get_u32_def put_u32_def)

lemma bslice_replicate: "off + n \<le> k \<Longrightarrow> bslice off n (replicate k c) = replicate n c"
  by (simp add: bslice_def)

lemma get_u32_zero [simp]: "4 * i + 4 \<le> k \<Longrightarrow> get_u32 (replicate k 0) i = 0"
  by (simp add: get_u32_def bslice_replicate)

lemma length_le_concat [simp]: "length (concat (map (le_bytes n) ws)) = n * length ws"
  by (induction ws) auto

lemma bslice_le_concat:
  "k < length ws \<Longrightarrow> bslice (4 * k) 4 (concat (map (le_bytes 4) ws)) = le_bytes 4 (ws ! k)"
proof (induction ws arbitrary: k)
  case (Cons w ws)
  then show ?case by (cases k) (auto simp: bslice_append)
qed simp

end
