(* ===== verification/Fs.thy ===== *)
theory Fs
  imports Proc Bytes
begin

text \<open>
  The file system (\<open>xv6-lab-filesystem/fs.c\<close> with \<open>fs.h\<close> and \<open>stat.h\<close>): block allocation in the free map,
  inodes on disk and in the inode table, the blocks of a file with one single and one double
  indirect block, reading and writing files, directories, and path names.

  The contents of a block are what \<open>bread\<close> returns for it, a list of \<open>BSIZE\<close> bytes; a change of \<open>bp->data\<close>
  changes them. The log is not part of the sources: the state records the calls of \<open>log_write\<close> in order.
  A \<open>struct inode *\<close> is an index into the inode table. A sleep lock is held or free; taking one that is
  held is \<open>Deadlock\<close>, because the operations of one process run one after the other here. The state
  extends the kernel, so that file contents can be copied from and to user memory.
\<close>

section \<open>Layout\<close>

definition BSIZE :: nat where "BSIZE = 1024"
definition NINODE :: nat where "NINODE = 50"
definition ROOTDEV :: u32 where "ROOTDEV = 1"
definition ROOTINO :: u32 where "ROOTINO = 1"
definition FSMAGIC :: u32 where "FSMAGIC = 0x10203040"
definition NDIRECT :: nat where "NDIRECT = 11"
definition NINDIRECT :: nat where "NINDIRECT = BSIZE div 4"
definition NINDIRECT2 :: nat where "NINDIRECT2 = NINDIRECT * NINDIRECT"
definition MAXFILE :: nat where "MAXFILE = NDIRECT + NINDIRECT + NINDIRECT2"
definition sizeof_dinode :: nat where "sizeof_dinode = 64"
definition IPB :: nat where "IPB = BSIZE div sizeof_dinode"
definition BPB :: nat where "BPB = BSIZE * 8"
definition DIRSIZ :: nat where "DIRSIZ = 14"
definition sizeof_dirent :: nat where "sizeof_dirent = 16"

definition T_DIR :: u16 where "T_DIR = 1"
definition T_FILE :: u16 where "T_FILE = 2"
definition T_DEVICE :: u16 where "T_DEVICE = 3"
definition T_SYMLINK :: u16 where "T_SYMLINK = 4"

record superblock =
  magic :: u32
  sbsize :: u32
  nblocks :: u32
  ninodes :: u32
  nlog :: u32
  logstart :: u32
  inodestart :: u32
  bmapstart :: u32

record inode =
  idev :: u32
  inum :: u32
  ref :: int
  ilocked :: bool
  ivalid :: bool
  itype :: u16
  major :: u16
  minor :: u16
  nlink :: u16
  isize :: u32
  addrs :: "u32 list"

record fsk = kernel +
  sb :: superblock
  blocks :: "u32 \<Rightarrow> u8 list"
  logged :: "u32 list"
  itable :: "inode list"

definition IBLOCK :: "u32 \<Rightarrow> superblock \<Rightarrow> u32" where
  "IBLOCK i b = i div of_nat IPB + inodestart b"

definition BBLOCK :: "nat \<Rightarrow> superblock \<Rightarrow> u32" where
  "BBLOCK b s = of_nat (b div BPB) + bmapstart s"

abbreviation geti :: "'a fsk_scheme \<Rightarrow> nat \<Rightarrow> inode" where
  "geti s ip \<equiv> itable s ! ip"

definition upd_inode :: "nat \<Rightarrow> (inode \<Rightarrow> inode) \<Rightarrow> 'a fsk_scheme \<Rightarrow> 'a fsk_scheme" where
  "upd_inode ip f s = s\<lparr>itable := (itable s)[ip := f (itable s ! ip)]\<rparr>"

definition set_block :: "u32 \<Rightarrow> u8 list \<Rightarrow> 'a fsk_scheme \<Rightarrow> 'a fsk_scheme" where
  "set_block b d s = s\<lparr>blocks := (blocks s)(b := d)\<rparr>"

definition log_write :: "u32 \<Rightarrow> 'a fsk_scheme \<Rightarrow> 'a fsk_scheme" where
  "log_write b s = s\<lparr>logged := logged s @ [b]\<rparr>"

section \<open>Super block and blocks\<close>

definition readsb :: "'a fsk_scheme \<Rightarrow> superblock" where
  "readsb s = (let d = blocks s 1 in
     \<lparr>magic = get_u32 d 0, sbsize = get_u32 d 1, nblocks = get_u32 d 2, ninodes = get_u32 d 3,
      nlog = get_u32 d 4, logstart = get_u32 d 5, inodestart = get_u32 d 6, bmapstart = get_u32 d 7\<rparr>)"

definition fsinit :: "('a fsk_scheme \<Rightarrow> 'a fsk_scheme) \<Rightarrow> 'a fsk_scheme \<Rightarrow> 'a fsk_scheme res" where
  "fsinit initlog s =
     (let s1 = s\<lparr>sb := readsb s\<rparr> in
      if magic (sb s1) \<noteq> FSMAGIC then Inl (Panic ''invalid file system'') else Inr (initlog s1))"

definition bzero :: "u32 \<Rightarrow> 'a fsk_scheme \<Rightarrow> 'a fsk_scheme" where
  "bzero bno s = log_write bno (set_block bno (replicate BSIZE 0) s)"

definition map_bit :: "u8 list \<Rightarrow> nat \<Rightarrow> bool" where
  "map_bit d bi \<longleftrightarrow> d ! (bi div 8) AND push_bit (bi mod 8) 1 \<noteq> 0"

text \<open>
  The counters \<open>b\<close> and \<open>bi\<close> are natural numbers: an \<open>int\<close> does not overflow for a disk of fewer than \<open>2 ^ 31\<close>
  blocks.
\<close>

function balloc_from :: "nat \<Rightarrow> 'a fsk_scheme \<Rightarrow> (u32 \<times> 'a fsk_scheme) res" where
  "balloc_from b s =
     (if b < unat (sbsize (sb s)) then
        let bb = BBLOCK b (sb s) in
        case find (\<lambda>bi. \<not> map_bit (blocks s bb) bi) [0..<min BPB (unat (sbsize (sb s)) - b)] of
          Some bi \<Rightarrow>
            let d = blocks s bb;
                s1 = set_block bb (d[bi div 8 := d ! (bi div 8) OR push_bit (bi mod 8) 1]) s;
                s2 = log_write bb s1
            in Inr (of_nat (b + bi), bzero (of_nat (b + bi)) s2)
        | None \<Rightarrow> balloc_from (b + BPB) s
      else Inl (Panic ''balloc: out of blocks''))"
  by pat_completeness auto
termination
  by (relation "measure (\<lambda>(b, s). unat (sbsize (sb s)) - b)") (auto simp: BPB_def BSIZE_def)

declare balloc_from.simps [simp del]

definition balloc :: "'a fsk_scheme \<Rightarrow> (u32 \<times> 'a fsk_scheme) res" where
  "balloc s = balloc_from 0 s"

definition bfree :: "u32 \<Rightarrow> 'a fsk_scheme \<Rightarrow> 'a fsk_scheme res" where
  "bfree b s =
     (let bb = BBLOCK (unat b) (sb s); bi = unat b mod BPB; d = blocks s bb in
      if \<not> map_bit d bi then Inl (Panic ''freeing free block'')
      else Inr (log_write bb (set_block bb (d[bi div 8 := d ! (bi div 8) AND NOT (push_bit (bi mod 8) 1)]) s)))"

section \<open>Inodes on disk\<close>

definition dinode_off :: "u32 \<Rightarrow> nat" where
  "dinode_off i = unat i mod IPB * sizeof_dinode"

definition put_dinode :: "inode \<Rightarrow> u8 list \<Rightarrow> u8 list" where
  "put_dinode ip d =
     bsplice (dinode_off (inum ip))
       (le_bytes 2 (itype ip) @ le_bytes 2 (major ip) @ le_bytes 2 (minor ip) @ le_bytes 2 (nlink ip) @
        le_bytes 4 (isize ip) @ concat (map (le_bytes 4) (addrs ip))) d"

definition get_u16 :: "u8 list \<Rightarrow> nat \<Rightarrow> u16" where
  "get_u16 d off = le_word (bslice off 2 d)"

definition get_dinode :: "u8 list \<Rightarrow> inode \<Rightarrow> inode" where
  "get_dinode d ip = (let o' = dinode_off (inum ip) in
     ip\<lparr>itype := get_u16 d o', major := get_u16 d (o' + 2), minor := get_u16 d (o' + 4), nlink := get_u16 d (o' + 6),
        isize := le_word (bslice (o' + 8) 4 d),
        addrs := map (\<lambda>k. le_word (bslice (o' + 12 + 4 * k) 4 d)) [0..<NDIRECT + 2]\<rparr>)"

definition iupdate :: "nat \<Rightarrow> 'a fsk_scheme \<Rightarrow> 'a fsk_scheme" where
  "iupdate ip s = (let b = IBLOCK (inum (geti s ip)) (sb s) in
     log_write b (set_block b (put_dinode (geti s ip) (blocks s b)) s))"

section \<open>The inode table\<close>

definition iinit :: "'a fsk_scheme \<Rightarrow> 'a fsk_scheme" where
  "iinit s = s\<lparr>itable := map (\<lambda>i. i\<lparr>ilocked := False\<rparr>) (itable s)\<rparr>"

definition iget :: "u32 \<Rightarrow> u32 \<Rightarrow> 'a fsk_scheme \<Rightarrow> (nat \<times> 'a fsk_scheme) res" where
  "iget d n s =
     (case find (\<lambda>ip. ref (geti s ip) > 0 \<and> idev (geti s ip) = d \<and> inum (geti s ip) = n) [0..<NINODE] of
        Some ip \<Rightarrow> Inr (ip, upd_inode ip (\<lambda>i. i\<lparr>ref := c_int (ref i + 1)\<rparr>) s)
      | None \<Rightarrow> (case find (\<lambda>ip. ref (geti s ip) = 0) [0..<NINODE] of
          None \<Rightarrow> Inl (Panic ''iget: no inodes'')
        | Some ip \<Rightarrow> Inr (ip, upd_inode ip (\<lambda>i. i\<lparr>idev := d, inum := n, ref := 1, ivalid := False\<rparr>) s)))"

function ialloc_from :: "u32 \<Rightarrow> u16 \<Rightarrow> nat \<Rightarrow> 'a fsk_scheme \<Rightarrow> (nat \<times> 'a fsk_scheme) res" where
  "ialloc_from d ty n s =
     (if n < unat (ninodes (sb s)) then
        let bb = IBLOCK (of_nat n) (sb s); o' = dinode_off (of_nat n) in
        if get_u16 (blocks s bb) o' = 0 then
          let s1 = set_block bb (bsplice o' (le_bytes 2 ty @ replicate (sizeof_dinode - 2) 0) (blocks s bb)) s
          in iget d (of_nat n) (log_write bb s1)
        else ialloc_from d ty (n + 1) s
      else Inl (Panic ''ialloc: no inodes''))"
  by pat_completeness auto
termination
  by (relation "measure (\<lambda>(d, ty, n, s). unat (ninodes (sb s)) - n)") auto

declare ialloc_from.simps [simp del]

definition ialloc :: "u32 \<Rightarrow> u16 \<Rightarrow> 'a fsk_scheme \<Rightarrow> (nat \<times> 'a fsk_scheme) res" where
  "ialloc d ty s = ialloc_from d ty 1 s"

definition idup :: "nat \<Rightarrow> 'a fsk_scheme \<Rightarrow> nat \<times> 'a fsk_scheme" where
  "idup ip s = (ip, upd_inode ip (\<lambda>i. i\<lparr>ref := c_int (ref i + 1)\<rparr>) s)"

text \<open>The null pointer is \<open>None\<close> where the code tests for it.\<close>

definition ilock :: "nat option \<Rightarrow> 'a fsk_scheme \<Rightarrow> 'a fsk_scheme res" where
  "ilock r s = (case r of None \<Rightarrow> Inl (Panic ''ilock'')
     | Some ip \<Rightarrow>
       if ref (geti s ip) < 1 then Inl (Panic ''ilock'')
       else if ilocked (geti s ip) then Inl Deadlock
       else
         let s1 = upd_inode ip (\<lambda>i. i\<lparr>ilocked := True\<rparr>) s in
         if \<not> ivalid (geti s1 ip) then
           let bb = IBLOCK (inum (geti s1 ip)) (sb s1);
               s2 = upd_inode ip (\<lambda>i. (get_dinode (blocks s1 bb) i)\<lparr>ivalid := True\<rparr>) s1
           in if itype (geti s2 ip) = 0 then Inl (Panic ''ilock: no type'') else Inr s2
         else Inr s1)"

definition iunlock :: "nat option \<Rightarrow> 'a fsk_scheme \<Rightarrow> 'a fsk_scheme res" where
  "iunlock r s = (case r of None \<Rightarrow> Inl (Panic ''iunlock'')
     | Some ip \<Rightarrow>
       if \<not> ilocked (geti s ip) \<or> ref (geti s ip) < 1 then Inl (Panic ''iunlock'')
       else Inr (upd_inode ip (\<lambda>i. i\<lparr>ilocked := False\<rparr>) s))"

section \<open>The blocks of a file\<close>

text \<open>An address slot of the inode, allocating a block if the slot is empty.\<close>

definition inode_slot :: "nat \<Rightarrow> nat \<Rightarrow> 'a fsk_scheme \<Rightarrow> (u32 \<times> 'a fsk_scheme) res" where
  "inode_slot ip k s =
     (let addr = addrs (geti s ip) ! k in
      if addr = 0 then bindR (balloc s) (\<lambda>(b, s1). Inr (b, upd_inode ip (\<lambda>i. i\<lparr>addrs := (addrs i)[k := b]\<rparr>) s1))
      else Inr (addr, s))"

text \<open>Entry \<open>k\<close> of an indirect block, allocating a block if the entry is empty.\<close>

definition indirect_slot :: "u32 \<Rightarrow> nat \<Rightarrow> 'a fsk_scheme \<Rightarrow> (u32 \<times> 'a fsk_scheme) res" where
  "indirect_slot bp k s =
     (let addr = get_u32 (blocks s bp) k in
      if addr = 0 then bindR (balloc s) (\<lambda>(b, s1).
        Inr (b, log_write bp (set_block bp (put_u32 k b (blocks s1 bp)) s1)))
      else Inr (addr, s))"

definition bmap :: "nat \<Rightarrow> nat \<Rightarrow> 'a fsk_scheme \<Rightarrow> (u32 \<times> 'a fsk_scheme) res" where
  "bmap ip bn s =
     (if bn < NDIRECT then inode_slot ip bn s
      else let bn1 = bn - NDIRECT in
        if bn1 < NINDIRECT then
          bindR (inode_slot ip NDIRECT s) (\<lambda>(addr, s1). indirect_slot addr bn1 s1)
        else let bn2 = bn1 - NINDIRECT in
          if bn2 < NINDIRECT2 then
            bindR (inode_slot ip (NDIRECT + 1) s) (\<lambda>(addr, s1).
              bindR (indirect_slot addr (bn2 div NINDIRECT) s1) (\<lambda>(addr2, s2).
                indirect_slot addr2 (bn2 mod NINDIRECT) s2))
          else Inl (Panic ''bmap: out of range''))"

definition free_direct :: "nat \<Rightarrow> nat \<Rightarrow> 'a fsk_scheme \<Rightarrow> 'a fsk_scheme res" where
  "free_direct ip i s =
     (if addrs (geti s ip) ! i \<noteq> 0 then
        bindR (bfree (addrs (geti s ip) ! i) s) (\<lambda>s1. Inr (upd_inode ip (\<lambda>q. q\<lparr>addrs := (addrs q)[i := 0]\<rparr>) s1))
      else Inr s)"

definition free_entry :: "u32 \<Rightarrow> nat \<Rightarrow> 'a fsk_scheme \<Rightarrow> 'a fsk_scheme res" where
  "free_entry bp j s = (let a = get_u32 (blocks s bp) j in if a \<noteq> 0 then bfree a s else Inr s)"

text \<open>
  For a file with a double indirect block \<open>itrunc\<close> reads \<open>bi->data\<close> while \<open>bi\<close> is the null pointer, which is
  not mapped in the kernel's page table.
\<close>

definition itrunc :: "nat \<Rightarrow> 'a fsk_scheme \<Rightarrow> 'a fsk_scheme res" where
  "itrunc ip s =
     bindR (fold_res (free_direct ip) [0..<NDIRECT] s) (\<lambda>s1.
       bindR (if addrs (geti s1 ip) ! NDIRECT \<noteq> 0 then
           let bp = addrs (geti s1 ip) ! NDIRECT in
           bindR (fold_res (free_entry bp) [0..<NINDIRECT] s1) (\<lambda>s2.
             bindR (bfree bp s2) (\<lambda>s3. Inr (upd_inode ip (\<lambda>q. q\<lparr>addrs := (addrs q)[NDIRECT := 0]\<rparr>) s3)))
         else Inr s1) (\<lambda>s4.
       if addrs (geti s4 ip) ! (NDIRECT + 1) \<noteq> 0 then Inl Fault
       else Inr (iupdate ip (upd_inode ip (\<lambda>q. q\<lparr>isize := 0\<rparr>) s4))))"

definition iput :: "nat \<Rightarrow> 'a fsk_scheme \<Rightarrow> 'a fsk_scheme res" where
  "iput ip s =
     bindR (if ref (geti s ip) = 1 \<and> ivalid (geti s ip) \<and> nlink (geti s ip) = 0 then
         if ilocked (geti s ip) then Inl Deadlock
         else bindR (itrunc ip (upd_inode ip (\<lambda>q. q\<lparr>ilocked := True\<rparr>) s)) (\<lambda>s1.
           let s2 = iupdate ip (upd_inode ip (\<lambda>q. q\<lparr>itype := 0\<rparr>) s1) in
           Inr (upd_inode ip (\<lambda>q. q\<lparr>ivalid := False, ilocked := False\<rparr>) s2))
       else Inr s) (\<lambda>s3. Inr (upd_inode ip (\<lambda>q. q\<lparr>ref := c_int (ref q - 1)\<rparr>) s3))"

definition iunlockput :: "nat \<Rightarrow> 'a fsk_scheme \<Rightarrow> 'a fsk_scheme res" where
  "iunlockput ip s = bindR (iunlock (Some ip) s) (iput ip)"

record stat =
  st_dev :: u32
  st_ino :: u32
  st_type :: u16
  st_nlink :: u16
  st_size :: u64

definition stati :: "nat \<Rightarrow> 'a fsk_scheme \<Rightarrow> stat" where
  "stati ip s = \<lparr>st_dev = idev (geti s ip), st_ino = inum (geti s ip), st_type = itype (geti s ip),
     st_nlink = nlink (geti s ip), st_size = ucast (isize (geti s ip))\<rparr>"

section \<open>Reading and writing\<close>

text \<open>
  Where the bytes go to or come from is an argument: user or kernel memory (\<open>either_copyout\<close>,
  \<open>either_copyin\<close>, with the running address as the accumulator), or a local variable of the
  caller (with its bytes as the accumulator).
\<close>

type_synonym ('c, 's) sink = "u8 list \<Rightarrow> 'c \<Rightarrow> 's \<Rightarrow> (int \<times> 'c \<times> 's) res"
type_synonym ('c, 's) source = "nat \<Rightarrow> 'c \<Rightarrow> 's \<Rightarrow> (int \<times> u8 list \<times> 'c) res"

definition to_mem :: "bool \<Rightarrow> (u64, 'a fsk_scheme) sink" where
  "to_mem user_dst bs dst s =
     bindR (either_copyout user_dst dst bs s) (\<lambda>(r, s1). Inr (r, dst + of_nat (length bs), s1))"

definition to_local :: "(u8 list, 'a fsk_scheme) sink" where
  "to_local bs acc s = Inr (0, acc @ bs, s)"

definition from_mem :: "bool \<Rightarrow> (u64, 'a fsk_scheme) source" where
  "from_mem user_src m src s =
     bindR (either_copyin user_src src m s) (\<lambda>(r, bs). Inr (r, bs, src + of_nat m))"

definition from_local :: "(u8 list, 'a fsk_scheme) source" where
  "from_local m acc s = Inr (0, take m acc, drop m acc)"

definition chunk :: "nat \<Rightarrow> nat \<Rightarrow> nat" where
  "chunk rest off = min rest (BSIZE - off mod BSIZE)"

lemma chunk_pos: "0 < rest \<Longrightarrow> 0 < chunk rest off"
  by (simp add: chunk_def BSIZE_def)

function readi_loop :: "('c, 'a fsk_scheme) sink \<Rightarrow> nat \<Rightarrow> nat \<Rightarrow> nat \<Rightarrow> nat \<Rightarrow> 'c \<Rightarrow> 'a fsk_scheme \<Rightarrow>
    (int \<times> 'c \<times> 'a fsk_scheme) res" where
  "readi_loop snk ip n tot off acc s =
     (if tot < n then
        bindR (bmap ip (off div BSIZE) s) (\<lambda>(addr, s1).
          let m = chunk (n - tot) off in
          bindR (snk (bslice (off mod BSIZE) m (blocks s1 addr)) acc s1) (\<lambda>(r, acc1, s2).
            if r = -1 then Inr (-1, acc1, s2)
            else readi_loop snk ip n (tot + m) (off + m) acc1 s2))
      else Inr (c_int (int tot), acc, s))"
  by pat_completeness auto
termination
  by (relation "measure (\<lambda>(snk, ip, n, tot, off, acc, s). n - tot)") (use chunk_pos in \<open>auto intro!: diff_less_mono2\<close>)

declare readi_loop.simps [simp del]

definition readi_to :: "('c, 'a fsk_scheme) sink \<Rightarrow> nat \<Rightarrow> u32 \<Rightarrow> u32 \<Rightarrow> 'c \<Rightarrow> 'a fsk_scheme \<Rightarrow>
    (int \<times> 'c \<times> 'a fsk_scheme) res" where
  "readi_to snk ip off n acc s =
     (let sz = isize (geti s ip) in
      if off > sz \<or> off + n < off then Inr (0, acc, s)
      else let n' = (if off + n > sz then sz - off else n) in
        readi_loop snk ip (unat n') 0 (unat off) acc s)"

definition readi :: "nat \<Rightarrow> bool \<Rightarrow> u64 \<Rightarrow> u32 \<Rightarrow> u32 \<Rightarrow> 'a fsk_scheme \<Rightarrow> (int \<times> 'a fsk_scheme) res" where
  "readi ip user_dst dst off n s =
     bindR (readi_to (to_mem user_dst) ip off n dst s) (\<lambda>(r, _, s1). Inr (r, s1))"

text \<open>When the copy fails, the bytes that were already copied are in the buffer, which is not logged.\<close>

function writei_loop :: "('c, 'a fsk_scheme) source \<Rightarrow> nat \<Rightarrow> nat \<Rightarrow> nat \<Rightarrow> nat \<Rightarrow> 'c \<Rightarrow> 'a fsk_scheme \<Rightarrow>
    (nat \<times> nat \<times> 'a fsk_scheme) res" where
  "writei_loop src ip n tot off acc s =
     (if tot < n then
        bindR (bmap ip (off div BSIZE) s) (\<lambda>(addr, s1).
          let m = chunk (n - tot) off in
          bindR (src m acc s1) (\<lambda>(r, bs, acc1).
            let s2 = set_block addr (bsplice (off mod BSIZE) bs (blocks s1 addr)) s1 in
            if r = -1 then Inr (tot, off, s2)
            else writei_loop src ip n (tot + m) (off + m) acc1 (log_write addr s2)))
      else Inr (tot, off, s))"
  by pat_completeness auto
termination
  by (relation "measure (\<lambda>(src, ip, n, tot, off, acc, s). n - tot)") (use chunk_pos in \<open>auto intro!: diff_less_mono2\<close>)

declare writei_loop.simps [simp del]

definition writei_from :: "('c, 'a fsk_scheme) source \<Rightarrow> nat \<Rightarrow> u32 \<Rightarrow> u32 \<Rightarrow> 'c \<Rightarrow> 'a fsk_scheme \<Rightarrow>
    (int \<times> 'a fsk_scheme) res" where
  "writei_from src ip off n acc s =
     (if off > isize (geti s ip) \<or> off + n < off then Inr (-1, s)
      else if unat (off + n) > MAXFILE * BSIZE then Inr (-1, s)
      else bindR (writei_loop src ip (unat n) 0 (unat off) acc s) (\<lambda>(tot, off1, s1).
        let s2 = (if off1 > unat (isize (geti s1 ip)) then upd_inode ip (\<lambda>q. q\<lparr>isize := of_nat off1\<rparr>) s1 else s1)
        in Inr (c_int (int tot), iupdate ip s2)))"

definition writei :: "nat \<Rightarrow> bool \<Rightarrow> u64 \<Rightarrow> u32 \<Rightarrow> u32 \<Rightarrow> 'a fsk_scheme \<Rightarrow> (int \<times> 'a fsk_scheme) res" where
  "writei ip user_src src off n s = writei_from (from_mem user_src) ip off n src s"

section \<open>Directories\<close>

text \<open>
  Strings are lists of bytes; the end of a list reads as a null byte. \<open>strncmp\<close> and \<open>strncpy\<close> are those of the
  kernel's C library.
\<close>

fun strncmp :: "u8 list \<Rightarrow> u8 list \<Rightarrow> nat \<Rightarrow> int" where
  "strncmp p q 0 = 0"
| "strncmp p q (Suc n) =
     (let x = (case p of [] \<Rightarrow> 0 | a # _ \<Rightarrow> a); y = (case q of [] \<Rightarrow> 0 | b # _ \<Rightarrow> b) in
      if x \<noteq> 0 \<and> x = y then strncmp (tl p) (tl q) n else uint x - uint y)"

definition cstr :: "u8 list \<Rightarrow> u8 list" where
  "cstr p = takeWhile (\<lambda>b. b \<noteq> 0) p"

definition strncpy :: "u8 list \<Rightarrow> nat \<Rightarrow> u8 list" where
  "strncpy p n = take n (cstr p) @ replicate (n - length (cstr p)) 0"

definition namecmp :: "u8 list \<Rightarrow> u8 list \<Rightarrow> int" where
  "namecmp p q = strncmp p q DIRSIZ"

definition de_inum :: "u8 list \<Rightarrow> u16" where
  "de_inum de = le_word (bslice 0 2 de)"

definition de_name :: "u8 list \<Rightarrow> u8 list" where
  "de_name de = bslice 2 DIRSIZ de"

definition mk_dirent :: "u16 \<Rightarrow> u8 list \<Rightarrow> u8 list" where
  "mk_dirent n name = le_bytes 2 n @ strncpy name DIRSIZ"

text \<open>The offsets that the loops over a directory visit; \<open>readi\<close> does not change the size.\<close>

definition dir_offs :: "u32 \<Rightarrow> nat list" where
  "dir_offs sz = map (\<lambda>k. k * sizeof_dirent) [0..<(unat sz + sizeof_dirent - 1) div sizeof_dirent]"

definition read_dirent :: "string \<Rightarrow> nat \<Rightarrow> nat \<Rightarrow> 'a fsk_scheme \<Rightarrow> (u8 list \<times> 'a fsk_scheme) res" where
  "read_dirent msg dp off s =
     bindR (readi_to to_local dp (of_nat off) (of_nat sizeof_dirent) [] s) (\<lambda>(r, de, s1).
       if r \<noteq> int sizeof_dirent then Inl (Panic msg) else Inr (de, s1))"

fun dirlookup_scan :: "nat \<Rightarrow> u8 list \<Rightarrow> nat list \<Rightarrow> 'a fsk_scheme \<Rightarrow> ((nat \<times> nat) option \<times> 'a fsk_scheme) res" where
  "dirlookup_scan dp name [] s = Inr (None, s)"
| "dirlookup_scan dp name (off # offs) s =
     bindR (read_dirent ''dirlookup read'' dp off s) (\<lambda>(de, s1).
       if de_inum de = 0 then dirlookup_scan dp name offs s1
       else if namecmp name (de_name de) = 0 then
         bindR (iget (idev (geti s1 dp)) (ucast (de_inum de)) s1) (\<lambda>(ip, s2). Inr (Some (ip, off), s2))
       else dirlookup_scan dp name offs s1)"

definition dirlookup :: "nat \<Rightarrow> u8 list \<Rightarrow> 'a fsk_scheme \<Rightarrow> ((nat \<times> nat) option \<times> 'a fsk_scheme) res" where
  "dirlookup dp name s =
     (if itype (geti s dp) \<noteq> T_DIR then Inl (Panic ''dirlookup not DIR'')
      else dirlookup_scan dp name (dir_offs (isize (geti s dp))) s)"

fun dirlink_scan :: "nat \<Rightarrow> nat list \<Rightarrow> 'a fsk_scheme \<Rightarrow> (nat option \<times> 'a fsk_scheme) res" where
  "dirlink_scan dp [] s = Inr (None, s)"
| "dirlink_scan dp (off # offs) s =
     bindR (read_dirent ''dirlink read'' dp off s) (\<lambda>(de, s1).
       if de_inum de = 0 then Inr (Some off, s1) else dirlink_scan dp offs s1)"

definition dirlink :: "nat \<Rightarrow> u8 list \<Rightarrow> u32 \<Rightarrow> 'a fsk_scheme \<Rightarrow> (int \<times> 'a fsk_scheme) res" where
  "dirlink dp name n s =
     bindR (dirlookup dp name s) (\<lambda>(r, s1). case r of
       Some (ip, _) \<Rightarrow> bindR (iput ip s1) (\<lambda>s2. Inr (-1, s2))
     | None \<Rightarrow>
       bindR (dirlink_scan dp (dir_offs (isize (geti s1 dp))) s1) (\<lambda>(free, s2).
         let off = (case free of Some off \<Rightarrow> off
               | None \<Rightarrow> length (dir_offs (isize (geti s1 dp))) * sizeof_dirent) in
         bindR (writei_from from_local dp (of_nat off) (of_nat sizeof_dirent) (mk_dirent (ucast n) name) s2) (\<lambda>(w, s3).
           if w \<noteq> int sizeof_dirent then Inl (Panic ''dirlink'') else Inr (0, s3))))"

section \<open>Paths\<close>

definition SLASH :: u8 where "SLASH = 47"

definition skipelem :: "u8 list \<Rightarrow> (u8 list \<times> u8 list) option" where
  "skipelem path =
     (let p = dropWhile (\<lambda>c. c = SLASH) path in
      if p = [] then None
      else let e = takeWhile (\<lambda>c. c \<noteq> SLASH) p; rest = dropWhile (\<lambda>c. c \<noteq> SLASH) p in
        Some (if length e \<ge> DIRSIZ then take DIRSIZ e else e, dropWhile (\<lambda>c. c = SLASH) rest))"

lemma skipelem_shorter: "skipelem path = Some (name, rest) \<Longrightarrow> length rest < length path"
proof -
  assume a: "skipelem path = Some (name, rest)"
  let ?p = "dropWhile (\<lambda>c. c = SLASH) path"
  have p: "?p \<noteq> []" and r: "rest = dropWhile (\<lambda>c. c = SLASH) (dropWhile (\<lambda>c. c \<noteq> SLASH) ?p)"
    using a by (auto simp: skipelem_def Let_def split: if_splits)
  have h: "hd ?p \<noteq> SLASH" using p hd_dropWhile by blast
  obtain c q where q: "?p = c # q" using p by (cases ?p) auto
  have "length rest \<le> length (dropWhile (\<lambda>c. c \<noteq> SLASH) ?p)" unfolding r by (rule length_dropWhile_le)
  also have "\<dots> = length (dropWhile (\<lambda>c. c \<noteq> SLASH) q)" using h q by simp
  also have "\<dots> \<le> length q" by (rule length_dropWhile_le)
  also have "\<dots> < length path" using length_dropWhile_le[of "\<lambda>c. c = SLASH" path] q by simp
  finally show ?thesis .
qed

text \<open>The value of the field \<open>cwd\<close> that stands for entry \<open>ip\<close> of the inode table; the null pointer is 0.\<close>

definition inode_ptr :: "nat \<Rightarrow> u64" where
  "inode_ptr ip = of_nat ip + 1"

definition ptr_inode :: "u64 \<Rightarrow> nat" where
  "ptr_inode a = unat (a - 1)"

function namex_loop :: "nat \<Rightarrow> u8 list \<Rightarrow> bool \<Rightarrow> u8 list \<Rightarrow> 'a fsk_scheme \<Rightarrow>
    ((nat \<times> u8 list) option \<times> 'a fsk_scheme) res" where
  "namex_loop ip path nameiparent name s =
     (case skipelem path of
        None \<Rightarrow> if nameiparent then bindR (iput ip s) (\<lambda>s1. Inr (None, s1)) else Inr (Some (ip, name), s)
      | Some (elem, rest) \<Rightarrow>
        bindR (ilock (Some ip) s) (\<lambda>s1.
          if itype (geti s1 ip) \<noteq> T_DIR then bindR (iunlockput ip s1) (\<lambda>s2. Inr (None, s2))
          else if nameiparent \<and> rest = [] then bindR (iunlock (Some ip) s1) (\<lambda>s2. Inr (Some (ip, elem), s2))
          else bindR (dirlookup ip elem s1) (\<lambda>(r, s2). case r of
            None \<Rightarrow> bindR (iunlockput ip s2) (\<lambda>s3. Inr (None, s3))
          | Some (nxt, _) \<Rightarrow> bindR (iunlockput ip s2) (\<lambda>s3. namex_loop nxt rest nameiparent elem s3))))"
  by pat_completeness auto
termination
  by (relation "measure (\<lambda>(ip, path, np, name, s). length path)") (auto dest: skipelem_shorter)

declare namex_loop.simps [simp del]

definition namex :: "u8 list \<Rightarrow> bool \<Rightarrow> 'a fsk_scheme \<Rightarrow> ((nat \<times> u8 list) option \<times> 'a fsk_scheme) res" where
  "namex path nameiparent s =
     bindR (if path \<noteq> [] \<and> hd path = SLASH then iget ROOTDEV ROOTINO s
            else the_proc s (\<lambda>p. Inr (idup (ptr_inode (cwd (getp s p))) s))) (\<lambda>(ip, s1).
       namex_loop ip path nameiparent [] s1)"

definition namei :: "u8 list \<Rightarrow> 'a fsk_scheme \<Rightarrow> (nat option \<times> 'a fsk_scheme) res" where
  "namei path s = bindR (namex path False s) (\<lambda>(r, s1). Inr (map_option fst r, s1))"

definition nameiparent :: "u8 list \<Rightarrow> 'a fsk_scheme \<Rightarrow> ((nat \<times> u8 list) option \<times> 'a fsk_scheme) res" where
  "nameiparent path s = namex path True s"

end
