(* ===== verification/FsCorrect.thy ===== *)
theory FsCorrect
  imports Fs
begin

text \<open>
  The lower layers of the file system: the free map, inodes on disk, the inode table, and path names.
\<close>

section \<open>The free map\<close>

text \<open>A block that \<open>balloc\<close> may return: below the size of the disk, its bit clear.\<close>

definition used :: "'a fsk_scheme \<Rightarrow> nat \<Rightarrow> bool" where
  "used s b \<longleftrightarrow> map_bit (blocks s (BBLOCK b (sb s))) (b mod BPB)"

definition isfree :: "'a fsk_scheme \<Rightarrow> u32 \<Rightarrow> bool" where
  "isfree s b \<longleftrightarrow> unat b < unat (sbsize (sb s)) \<and> \<not> used s (unat b)"

definition blk_ok :: "'a fsk_scheme \<Rightarrow> bool" where
  "blk_ok s \<longleftrightarrow> (\<forall>b. length (blocks s b) = BSIZE)"

text \<open>The blocks of the free map are not free themselves.\<close>

definition map_reserved :: "'a fsk_scheme \<Rightarrow> bool" where
  "map_reserved s \<longleftrightarrow> (\<forall>c<unat (sbsize (sb s)). \<not> isfree s (BBLOCK c (sb s)))"

lemma sbsize_lt: "unat (w :: u32) < 4294967296"
  using unat_bound[of w] by simp

lemma BBLOCK_inj:
  assumes "c < 2 ^ 32" "c' < 2 ^ 32" "BBLOCK c b = BBLOCK c' b"
  shows "c div BPB = c' div BPB"
proof -
  have lt: "c div BPB < 2 ^ 32" "c' div BPB < 2 ^ 32" using assms(1,2) by (auto intro: le_less_trans[OF div_le_dividend])
  have "(of_nat (c div BPB) :: u32) = of_nat (c' div BPB)" using assms(3) by (simp add: BBLOCK_def)
  then have "unat (of_nat (c div BPB) :: u32) = unat (of_nat (c' div BPB) :: u32)" by simp
  then show ?thesis using lt by (simp add: unat_of_nat)
qed

lemma map_bit_set:
  assumes "length d = BSIZE" "bi < BPB" "bj < BPB"
  shows "map_bit (d[bi div 8 := d ! (bi div 8) OR push_bit (bi mod 8) 1]) bj \<longleftrightarrow> bj = bi \<or> map_bit d bj"
    "map_bit (d[bi div 8 := d ! (bi div 8) AND NOT (push_bit (bi mod 8) 1)]) bj \<longleftrightarrow> bj \<noteq> bi \<and> map_bit d bj"
proof -
  have mb: "map_bit d' k \<longleftrightarrow> bit (d' ! (k div 8)) (k mod 8)" for d' k
  proof -
    have "(x AND push_bit n 1 \<noteq> 0) = bit x n" for x :: u8 and n
      by (simp add: push_bit_of_1 and_exp_eq_0_iff_not_bit)
    then show ?thesis by (simp add: map_bit_def)
  qed
  have l: "bi div 8 < length d" using assms(1,2) by (simp add: BPB_def div_less_iff_less_mult mult.commute)
  have eq: "bi = bj \<longleftrightarrow> bi div 8 = bj div 8 \<and> bi mod 8 = bj mod 8" by (metis div_mult_mod_eq)
  show "map_bit (d[bi div 8 := d ! (bi div 8) OR push_bit (bi mod 8) 1]) bj \<longleftrightarrow> bj = bi \<or> map_bit d bj"
    using l eq unfolding mb by (auto simp: nth_list_update bit_simps)
  show "map_bit (d[bi div 8 := d ! (bi div 8) AND NOT (push_bit (bi mod 8) 1)]) bj \<longleftrightarrow> bj \<noteq> bi \<and> map_bit d bj"
    using l eq unfolding mb by (auto simp: nth_list_update bit_simps)
qed

lemma block_simps [simp]:
  "blocks (log_write b s) = blocks s" "sb (log_write b s) = sb s" "itable (log_write b s) = itable s"
  "blocks (set_block b d s) = (blocks s)(b := d)" "sb (set_block b d s) = sb s" "itable (set_block b d s) = itable s"
  "blocks (upd_inode ip f s) = blocks s" "sb (upd_inode ip f s) = sb s"
  "itable (upd_inode ip f s) = (itable s)[ip := f (itable s ! ip)]"
  "blocks (bzero b s) = (blocks s)(b := replicate BSIZE 0)" "sb (bzero b s) = sb s" "itable (bzero b s) = itable s"
  "logged (log_write b s) = logged s @ [b]" "logged (set_block b d s) = logged s" "logged (upd_inode ip f s) = logged s"
  "logged (bzero b s) = logged s @ [b]"
  by (simp_all add: log_write_def set_block_def upd_inode_def bzero_def)

text \<open>What allocating block \<open>b\<close> leaves: its bit set, its contents zero, nothing else changed.\<close>

definition allocated :: "'a fsk_scheme \<Rightarrow> u32 \<Rightarrow> 'a fsk_scheme \<Rightarrow> bool" where
  "allocated s b s' \<longleftrightarrow> isfree s b \<and> (\<exists>d. s' = s\<lparr>blocks := (blocks s)(BBLOCK (unat b) (sb s) := d, b := replicate BSIZE 0),
       logged := logged s @ [BBLOCK (unat b) (sb s), b]\<rparr> \<and> length d = BSIZE \<and>
     (\<forall>c<unat (sbsize (sb s)). used s' c \<longleftrightarrow> c = unat b \<or> used s c))"

lemma balloc_from_spec:
  assumes "blk_ok s" "map_reserved s" "b mod BPB = 0" "\<forall>c<b. c < unat (sbsize (sb s)) \<longrightarrow> used s c"
  shows "case balloc_from b s of Inr (a, s') \<Rightarrow> allocated s a s' \<and> (\<forall>c<unat a. used s c)
    | Inl e \<Rightarrow> e = Panic ''balloc: out of blocks'' \<and> (\<forall>a. \<not> isfree s a)"
  using assms
proof (induction b s rule: balloc_from.induct)
  case (1 b s)
  let ?n = "unat (sbsize (sb s))"
  show ?case
  proof (cases "b < ?n")
    case False
    then have "\<not> isfree s a" for a using "1.prems"(4) by (auto simp: isfree_def)
    with False show ?thesis by (simp add: balloc_from.simps[of b])
  next
    case True
    let ?bb = "BBLOCK b (sb s)"
    have BP: "0 < BPB" by (simp add: BPB_def BSIZE_def)
    have pos: "(b + k) div BPB = b div BPB" "(b + k) mod BPB = k" if "k < BPB" for k
      using "1.prems"(3) that BP by (auto simp: mod_eq_0_iff_dvd elim!: dvdE)
    have u: "used s (b + k) \<longleftrightarrow> map_bit (blocks s ?bb) k" if "k < BPB" for k
      using pos[OF that] by (simp add: used_def BBLOCK_def)
    show ?thesis
    proof (cases "find (\<lambda>bi. \<not> map_bit (blocks s ?bb) bi) [0..<min BPB (?n - b)]")
      case None
      then have "map_bit (blocks s ?bb) k" if "k < BPB" "b + k < ?n" for k
        using that by (auto simp: find_None_iff)
      then have "used s c" if "b \<le> c" "c < b + BPB" "c < ?n" for c
        using u[of "c - b"] that by auto
      then have "\<forall>c<b + BPB. c < ?n \<longrightarrow> used s c" using "1.prems"(4) by (metis leI)
      with "1.IH"[OF True refl None "1.prems"(1,2)] "1.prems"(3) True None show ?thesis
        by (simp add: balloc_from.simps[of b])
    next
      case (Some bi)
      then obtain bi: "bi < BPB" "b + bi < ?n" "\<not> map_bit (blocks s ?bb) bi" "\<And>k. k < bi \<Longrightarrow> map_bit (blocks s ?bb) k"
        by (auto simp: find_Some_iff)
      define a :: u32 where "a = of_nat (b + bi)"
      have ua: "unat a = b + bi" using bi(2) sbsize_lt[of "sbsize (sb s)"] by (simp add: a_def unat_of_nat del: of_nat_add)
      have fr: "isfree s a" using bi u by (simp add: isfree_def ua)
      have bba: "BBLOCK (unat a) (sb s) = ?bb" using pos(1)[OF bi(1)] by (simp add: ua BBLOCK_def)
      have na: "BBLOCK c (sb s) \<noteq> a" if "c < ?n" for c using "1.prems"(2) fr that by (auto simp: map_reserved_def)
      define d where "d = (blocks s ?bb)[bi div 8 := blocks s ?bb ! (bi div 8) OR push_bit (bi mod 8) 1]"
      define s' where "s' = bzero a (log_write ?bb (set_block ?bb d s))"
      have ld: "length (blocks s ?bb) = BSIZE" using "1.prems"(1) by (simp add: blk_ok_def)
      have us: "used s' c \<longleftrightarrow> c = unat a \<or> used s c" if "c < ?n" for c
      proof (cases "BBLOCK c (sb s) = ?bb")
        case True
        then have "c div BPB = b div BPB"
          using that sbsize_lt[of "sbsize (sb s)"] \<open>b < ?n\<close> by (intro BBLOCK_inj[of c b "sb s"]) auto
        then have "c = unat a \<longleftrightarrow> c mod BPB = bi" using pos[OF bi(1)] ua by (metis div_mult_mod_eq)
        with True na[OF that] map_bit_set(1)[OF ld bi(1), of "c mod BPB"] BP show ?thesis
          by (simp add: used_def s'_def d_def)
      next
        case False
        then have "c \<noteq> unat a" using bba by auto
        with False na[OF that] show ?thesis by (simp add: used_def s'_def)
      qed
      have "balloc_from b s = Inr (a, s')"
        using True Some by (simp add: balloc_from.simps[of b] Let_def s'_def d_def a_def)
      moreover have "allocated s a s'"
        unfolding allocated_def bba using fr us ld
        by (auto intro!: exI[of _ d] simp: d_def s'_def bzero_def log_write_def set_block_def)
      moreover have "used s c" if "c < unat a" for c
      proof (cases "c < b")
        case True
        then show ?thesis using "1.prems"(4) \<open>b < ?n\<close> by auto
      next
        case False
        then show ?thesis using u[of "c - b"] bi(1) bi(4)[of "c - b"] that ua by auto
      qed
      ultimately show ?thesis by simp
    qed
  qed
qed

lemmas balloc_spec = balloc_from_spec[where b = 0, folded balloc_def, simplified]

text \<open>What freeing block \<open>b\<close> leaves: its bit clear, nothing else changed.\<close>

lemma bfree_spec:
  assumes "blk_ok s" "unat b < unat (sbsize (sb s))"
  shows "if used s (unat b) then \<exists>d s'. bfree b s = Inr s' \<and> length d = BSIZE \<and>
      s' = s\<lparr>blocks := (blocks s)(BBLOCK (unat b) (sb s) := d), logged := logged s @ [BBLOCK (unat b) (sb s)]\<rparr> \<and>
      (\<forall>c<unat (sbsize (sb s)). used s' c \<longleftrightarrow> c \<noteq> unat b \<and> used s c)
    else bfree b s = Inl (Panic ''freeing free block'')"
proof (cases "used s (unat b)")
  case False
  then show ?thesis by (simp add: bfree_def Let_def used_def)
next
  case True
  let ?bb = "BBLOCK (unat b) (sb s)" and ?bi = "unat b mod BPB"
  define d where "d = (blocks s ?bb)[?bi div 8 := blocks s ?bb ! (?bi div 8) AND NOT (push_bit (?bi mod 8) 1)]"
  define s' where "s' = log_write ?bb (set_block ?bb d s)"
  have ld: "length (blocks s ?bb) = BSIZE" using assms(1) by (simp add: blk_ok_def)
  have BP: "0 < BPB" by (simp add: BPB_def BSIZE_def)
  have "used s' c \<longleftrightarrow> c \<noteq> unat b \<and> used s c" if "c < unat (sbsize (sb s))" for c
  proof (cases "BBLOCK c (sb s) = ?bb")
    case True
    then have "c div BPB = unat b div BPB"
      using that sbsize_lt[of "sbsize (sb s)"] assms(2) by (intro BBLOCK_inj[of c _ "sb s"]) auto
    then have "c = unat b \<longleftrightarrow> c mod BPB = ?bi" by (metis div_mult_mod_eq)
    with True map_bit_set(2)[OF ld, of ?bi "c mod BPB"] BP show ?thesis by (simp add: used_def s'_def d_def)
  next
    case False
    then show ?thesis by (auto simp: used_def s'_def)
  qed
  moreover have "bfree b s = Inr s'" using True by (simp add: bfree_def Let_def used_def s'_def d_def)
  moreover have "length d = BSIZE" using ld by (simp add: d_def)
  moreover have "s' = s\<lparr>blocks := (blocks s)(?bb := d), logged := logged s @ [?bb]\<rparr>"
    by (simp add: s'_def log_write_def set_block_def)
  ultimately show ?thesis using True by auto
qed

section \<open>Inodes on disk\<close>

definition dinode_bytes :: "inode \<Rightarrow> u8 list" where
  "dinode_bytes ip = le_bytes 2 (itype ip) @ le_bytes 2 (major ip) @ le_bytes 2 (minor ip) @ le_bytes 2 (nlink ip) @
     le_bytes 4 (isize ip) @ concat (map (le_bytes 4) (addrs ip))"

lemmas fs_sizes = BSIZE_def NDIRECT_def NINDIRECT_def NINDIRECT2_def IPB_def sizeof_dinode_def

lemma dinode_room: "dinode_off i + 64 \<le> BSIZE"
proof -
  have "unat i mod 16 < 16" by simp
  then show ?thesis by (simp add: dinode_off_def fs_sizes)
qed

text \<open>
  The inode that \<open>iupdate\<close> writes to its block is the one that \<open>ilock\<close> reads from it, and the other inodes
  of the block are unchanged.
\<close>

lemma dinode_fields:
  assumes "length (addrs ip) = NDIRECT + 2" "length d = BSIZE" "k + n \<le> 64"
  shows "bslice (dinode_off (inum ip) + k) n (put_dinode ip d) = bslice k n (dinode_bytes ip)"
proof -
  have l: "length (dinode_bytes ip) = 64" using assms(1) by (simp add: dinode_bytes_def NDIRECT_def)
  show ?thesis
    unfolding put_dinode_def dinode_bytes_def[symmetric]
    by (rule bslice_inside) (use assms(2,3) l dinode_room[of "inum ip"] in simp_all)
qed

lemma get_put_dinode:
  assumes "length (addrs ip) = NDIRECT + 2" "length d = BSIZE" "inum jp = inum ip"
  shows "get_dinode (put_dinode ip d) jp =
    jp\<lparr>itype := itype ip, major := major ip, minor := minor ip, nlink := nlink ip, isize := isize ip, addrs := addrs ip\<rparr>"
proof -
  note F = dinode_fields[OF assms(1,2), folded assms(3)]
  have "get_u16 (put_dinode ip d) (dinode_off (inum jp)) = itype ip"
    using F[of 0 2] by (simp add: get_u16_def dinode_bytes_def bslice_append)
  moreover have "get_u16 (put_dinode ip d) (dinode_off (inum jp) + 2) = major ip"
    "get_u16 (put_dinode ip d) (dinode_off (inum jp) + 4) = minor ip"
    "get_u16 (put_dinode ip d) (dinode_off (inum jp) + 6) = nlink ip"
    "le_word (bslice (dinode_off (inum jp) + 8) 4 (put_dinode ip d)) = isize ip"
    using F[of 2 2] F[of 4 2] F[of 6 2] F[of 8 4] by (simp_all add: get_u16_def dinode_bytes_def bslice_append)
  moreover have "map (\<lambda>k. le_word (bslice (dinode_off (inum jp) + 12 + 4 * k) 4 (put_dinode ip d))) [0..<NDIRECT + 2] = addrs ip"
  proof (rule nth_equalityI)
    fix k assume "k < length (map (\<lambda>k. le_word (bslice (dinode_off (inum jp) + 12 + 4 * k) 4 (put_dinode ip d)) :: u32) [0..<NDIRECT + 2])"
    then have k: "k < NDIRECT + 2" by simp
    have "bslice (dinode_off (inum jp) + (12 + 4 * k)) 4 (put_dinode ip d) = bslice (12 + 4 * k) 4 (dinode_bytes ip)"
      by (rule F) (use k in \<open>simp add: NDIRECT_def\<close>)
    also have "\<dots> = le_bytes 4 (addrs ip ! k)"
      using k assms(1) by (simp add: dinode_bytes_def bslice_append bslice_le_concat)
    finally show "map (\<lambda>k. le_word (bslice (dinode_off (inum jp) + 12 + 4 * k) 4 (put_dinode ip d))) [0..<NDIRECT + 2] ! k = addrs ip ! k"
      using k by (simp add: add.assoc del: upt_Suc)
  qed (simp add: assms(1))
  ultimately show ?thesis by (simp add: get_dinode_def Let_def)
qed

lemma get_put_dinode_other:
  assumes "length (addrs ip) = NDIRECT + 2" "length d = BSIZE" "dinode_off (inum jp) \<noteq> dinode_off (inum ip)"
  shows "get_dinode (put_dinode ip d) jp = get_dinode d jp"
proof -
  have l: "length (dinode_bytes ip) = 64" using assms(1) by (simp add: dinode_bytes_def NDIRECT_def)
  have dis: "dinode_off (inum jp) + 64 \<le> dinode_off (inum ip) \<or> dinode_off (inum ip) + 64 \<le> dinode_off (inum jp)"
    using assms(3) by (auto simp: dinode_off_def sizeof_dinode_def)
  have "bslice (dinode_off (inum jp) + k) n (put_dinode ip d) = bslice (dinode_off (inum jp) + k) n d" if "k + n \<le> 64" for k n
    unfolding put_dinode_def dinode_bytes_def[symmetric]
    by (rule bslice_bsplice_other) (use l assms(2) dis that dinode_room[of "inum ip"] dinode_room[of "inum jp"] in auto)
  note S = this
  have "bslice (dinode_off (inum jp) + 12 + 4 * k) 4 (put_dinode ip d) = bslice (dinode_off (inum jp) + 12 + 4 * k) 4 d"
    if "k < NDIRECT + 2" for k
    using S[of "12 + 4 * k" 4] that by (simp add: NDIRECT_def add.assoc)
  then have "map (\<lambda>k. le_word (bslice (dinode_off (inum jp) + 12 + 4 * k) 4 (put_dinode ip d)) :: u32) [0..<NDIRECT + 2] =
      map (\<lambda>k. le_word (bslice (dinode_off (inum jp) + 12 + 4 * k) 4 d)) [0..<NDIRECT + 2]"
    by (intro map_cong refl) (simp_all del: upt_Suc)
  then show ?thesis using S[of 0 2] S[of 2 2] S[of 4 2] S[of 6 2] S[of 8 4] by (simp add: get_dinode_def Let_def get_u16_def)
qed

end
