(* ===== verification/FsInode.thy ===== *)
theory FsInode
  imports FsCorrect
begin

text \<open>
  The inode table as a cache of inodes: at most one entry for an inode that is referenced, reference counts
  that follow the calls of \<open>iget\<close>, \<open>idup\<close> and \<open>iput\<close>; and the elements of a path name.
\<close>

section \<open>Keys of the inode table\<close>

text \<open>Which inode an entry holds and how often it is referenced.\<close>

definition ikeys :: "'a fsk_scheme \<Rightarrow> (u32 \<times> u32 \<times> int) list" where
  "ikeys s = map (\<lambda>i. (idev i, inum i, ref i)) (itable s)"

definition itab_ok :: "'a fsk_scheme \<Rightarrow> bool" where
  "itab_ok s \<longleftrightarrow> length (itable s) = NINODE \<and> (\<forall>i<NINODE. 0 \<le> ref (geti s i)) \<and>
     (\<forall>i<NINODE. \<forall>j<NINODE. 0 < ref (geti s i) \<and> 0 < ref (geti s j) \<and>
        idev (geti s i) = idev (geti s j) \<and> inum (geti s i) = inum (geti s j) \<longrightarrow> i = j)"

lemma ikeys_length: "ikeys s = ikeys s' \<Longrightarrow> length (itable s) = length (itable s')"
  unfolding ikeys_def using map_eq_imp_length_eq by blast

lemma ikeys_nth: "ikeys s = ikeys s' \<Longrightarrow> i < length (itable s) \<Longrightarrow>
    idev (geti s i) = idev (geti s' i) \<and> inum (geti s i) = inum (geti s' i) \<and> ref (geti s i) = ref (geti s' i)"
proof -
  assume e: "ikeys s = ikeys s'" and i: "i < length (itable s)"
  have l: "length (itable s) = length (itable s')" by (rule ikeys_length[OF e])
  have "ikeys s ! i = ikeys s' ! i" by (simp add: e)
  then show ?thesis using i l by (simp add: ikeys_def)
qed

lemma itab_ok_ikeys: "ikeys s' = ikeys s \<Longrightarrow> itab_ok s \<Longrightarrow> itab_ok s'"
  unfolding itab_ok_def by (simp add: ikeys_length[of s' s] ikeys_nth[of s' s])

lemma ikeys_simps [simp]:
  "ikeys (log_write b s) = ikeys s" "ikeys (set_block b d s) = ikeys s" "ikeys (bzero b s) = ikeys s"
  by (simp_all add: ikeys_def)

lemma ikeys_upd [simp]:
  "(\<And>i. idev (f i) = idev i \<and> inum (f i) = inum i \<and> ref (f i) = ref i) \<Longrightarrow> ikeys (upd_inode ip f s) = ikeys s"
  unfolding ikeys_def by (cases "ip < length (itable s)") (auto intro!: nth_equalityI simp: nth_list_update)

lemma ikeys_get_dinode [simp]: "idev (get_dinode d i) = idev i" "inum (get_dinode d i) = inum i" "ref (get_dinode d i) = ref i"
  by (simp_all add: get_dinode_def Let_def)

lemma ikeys_iupdate [simp]: "ikeys (iupdate ip s) = ikeys s"
  by (simp add: iupdate_def Let_def)

lemma ikeys_bfree: "bfree b s = Inr s' \<Longrightarrow> ikeys s' = ikeys s"
  by (auto simp: bfree_def Let_def split: if_splits)

lemma fold_res_keeps:
  "(\<And>i s s'. f i s = Inr s' \<Longrightarrow> g s' = g s) \<Longrightarrow> fold_res f xs s = Inr s' \<Longrightarrow> g s' = g s"
  by (induction xs arbitrary: s) (auto simp: bindR_Inr_iff)

lemma ikeys_itrunc: "itrunc ip s = Inr s' \<Longrightarrow> ikeys s' = ikeys s"
proof -
  assume r: "itrunc ip s = Inr s'"
  have d: "ikeys t' = ikeys t" if "free_direct ip i t = Inr t'" for i t t'
    using that by (auto simp: free_direct_def bindR_Inr_iff dest: ikeys_bfree split: if_splits)
  have e: "ikeys t' = ikeys t" if "free_entry bp i t = Inr t'" for i t t' bp
    using that by (auto simp: free_entry_def Let_def dest: ikeys_bfree split: if_splits)
  have f: "ikeys t' = ikeys t" if "fold_res (free_entry bp) xs t = Inr t'" for t t' bp xs
    by (rule fold_res_keeps[OF _ that]) (rule e)
  from r obtain s1 where s1: "fold_res (free_direct ip) [0..<NDIRECT] s = Inr s1"
    by (auto simp: itrunc_def bindR_Inr_iff)
  have "ikeys s1 = ikeys s" by (rule fold_res_keeps[OF _ s1]) (rule d)
  with r s1 show ?thesis
    by (auto simp: itrunc_def bindR_Inr_iff Let_def dest!: ikeys_bfree f split: if_splits)
qed

section \<open>Operations on the table\<close>

lemma itab_ok_upd:
  assumes "itab_ok s" "ip < NINODE" "0 \<le> ref (f (geti s ip))"
    "\<And>j. j < NINODE \<Longrightarrow> j \<noteq> ip \<Longrightarrow> 0 < ref (f (geti s ip)) \<Longrightarrow> 0 < ref (geti s j) \<Longrightarrow>
       idev (f (geti s ip)) = idev (geti s j) \<Longrightarrow> inum (f (geti s ip)) = inum (geti s j) \<Longrightarrow> False"
  shows "itab_ok (upd_inode ip f s)"
  unfolding itab_ok_def
proof (intro conjI allI impI, goal_cases)
  case 1
  then show ?case using assms(1) by (simp add: itab_ok_def)
next
  case (2 i)
  then show ?case using assms(1-3) by (auto simp: itab_ok_def nth_list_update)
next
  case (3 i j)
  have g: "geti (upd_inode ip f s) k = (if k = ip then f (geti s ip) else geti s k)" for k
    using assms(1,2) by (simp add: itab_ok_def nth_list_update)
  have "\<lbrakk>0 < ref (geti s i); 0 < ref (geti s j); idev (geti s i) = idev (geti s j); inum (geti s i) = inum (geti s j)\<rbrakk> \<Longrightarrow> i = j"
    using assms(1) 3(1,2) by (simp add: itab_ok_def)
  with 3 assms(4)[of i] assms(4)[of j] show ?case unfolding g by (cases "i = ip"; cases "j = ip") auto
qed

lemma iget_spec:
  assumes "itab_ok s" "\<forall>i<NINODE. ref (geti s i) < 2 ^ 31 - 1"
  shows "case iget d n s of
      Inl e \<Rightarrow> e = Panic ''iget: no inodes'' \<and> (\<forall>i<NINODE. 0 < ref (geti s i) \<and> \<not> (idev (geti s i) = d \<and> inum (geti s i) = n))
    | Inr (ip, s') \<Rightarrow> itab_ok s' \<and> ip < NINODE \<and> idev (geti s' ip) = d \<and> inum (geti s' ip) = n \<and>
        ref (geti s' ip) = ref (geti s ip) + 1 \<and> (\<forall>i. i \<noteq> ip \<longrightarrow> geti s' i = geti s i) \<and>
        (if \<exists>i<NINODE. 0 < ref (geti s i) \<and> idev (geti s i) = d \<and> inum (geti s i) = n
         then geti s' ip = (geti s ip)\<lparr>ref := ref (geti s ip) + 1\<rparr> else ref (geti s ip) = 0 \<and> \<not> ivalid (geti s' ip))"
proof (cases "find (\<lambda>ip. ref (geti s ip) > 0 \<and> idev (geti s ip) = d \<and> inum (geti s ip) = n) [0..<NINODE]")
  case (Some ip)
  then have ip: "ip < NINODE" "0 < ref (geti s ip)" "idev (geti s ip) = d" "inum (geti s ip) = n"
    by (auto simp: find_Some_iff)
  have len: "length (itable s) = NINODE" using assms(1) by (simp add: itab_ok_def)
  have c: "c_int (ref (geti s ip) + 1) = ref (geti s ip) + 1"
    using assms(2) ip(1,2) by (intro c_int_id) auto
  let ?s = "upd_inode ip (\<lambda>i. i\<lparr>ref := c_int (ref i + 1)\<rparr>) s"
  have g: "geti ?s i = (if i = ip then (geti s ip)\<lparr>ref := ref (geti s ip) + 1\<rparr> else geti s i)" for i
    using ip(1) len c by (simp add: nth_list_update)
  have "itab_ok ?s"
    by (rule itab_ok_upd[OF assms(1) ip(1)]) (use assms(1) ip c in \<open>auto simp: itab_ok_def\<close>)
  moreover have "iget d n s = Inr (ip, ?s)" using Some by (simp add: iget_def)
  ultimately show ?thesis using ip g by auto
next
  case None
  then have no: "\<not> (0 < ref (geti s i) \<and> idev (geti s i) = d \<and> inum (geti s i) = n)" if "i < NINODE" for i
    using that by (auto simp: find_None_iff)
  have len: "length (itable s) = NINODE" and nn: "\<And>i. i < NINODE \<Longrightarrow> 0 \<le> ref (geti s i)"
    using assms(1) by (auto simp: itab_ok_def)
  show ?thesis
  proof (cases "find (\<lambda>ip. ref (geti s ip) = 0) [0..<NINODE]")
    case N: None
    then have "0 < ref (geti s i)" if "i < NINODE" for i
      using nn[OF that] that by (auto simp: find_None_iff order_less_le)
    with no show ?thesis by (auto simp: iget_def None N)
  next
    case (Some ip)
    then have ip: "ip < NINODE" "ref (geti s ip) = 0" by (auto simp: find_Some_iff)
    let ?s = "upd_inode ip (\<lambda>i. i\<lparr>idev := d, inum := n, ref := 1, ivalid := False\<rparr>) s"
    have g: "geti ?s i = (if i = ip then (geti s ip)\<lparr>idev := d, inum := n, ref := 1, ivalid := False\<rparr> else geti s i)" for i
      using ip(1) len by (simp add: nth_list_update)
    have "itab_ok ?s" by (rule itab_ok_upd[OF assms(1) ip(1)]) (use no in auto)
    moreover have "iget d n s = Inr (ip, ?s)" using None Some by (simp add: iget_def)
    ultimately show ?thesis using ip g no by auto
  qed
qed

text \<open>
  The calls on the table. The counts stay in range as long as there are fewer references than an \<open>int\<close> holds;
  \<open>idup\<close> and \<open>iput\<close> are called by a holder of a reference.
\<close>

inductive itab_step :: "'a fsk_scheme \<Rightarrow> 'a fsk_scheme \<Rightarrow> bool" where
  st_iget: "iget d n s = Inr (ip, s') \<Longrightarrow> \<forall>i<NINODE. ref (geti s i) < 2 ^ 31 - 1 \<Longrightarrow> itab_step s s'"
| st_idup: "idup ip s = (ip, s') \<Longrightarrow> ip < NINODE \<Longrightarrow> 0 < ref (geti s ip) \<Longrightarrow> ref (geti s ip) < 2 ^ 31 - 1 \<Longrightarrow> itab_step s s'"
| st_ilock: "ilock r s = Inr s' \<Longrightarrow> itab_step s s'"
| st_iunlock: "iunlock r s = Inr s' \<Longrightarrow> itab_step s s'"
| st_itrunc: "itrunc ip s = Inr s' \<Longrightarrow> itab_step s s'"
| st_iput: "iput ip s = Inr s' \<Longrightarrow> ip < NINODE \<Longrightarrow> 0 < ref (geti s ip) \<Longrightarrow> ref (geti s ip) < 2 ^ 31 \<Longrightarrow> itab_step s s'"

lemma ikeys_ilock: "ilock r s = Inr s' \<Longrightarrow> ikeys s' = ikeys s"
  by (auto simp: ilock_def Let_def split: option.splits if_splits)

lemma ikeys_iunlock: "iunlock r s = Inr s' \<Longrightarrow> ikeys s' = ikeys s"
  by (auto simp: iunlock_def Let_def split: option.splits if_splits)

lemma iput_keys:
  assumes "iput ip s = Inr s'"
  obtains s1 where "ikeys s1 = ikeys s" "s' = upd_inode ip (\<lambda>q. q\<lparr>ref := c_int (ref q - 1)\<rparr>) s1"
proof -
  from assms obtain s1 where s1: "s' = upd_inode ip (\<lambda>q. q\<lparr>ref := c_int (ref q - 1)\<rparr>) s1"
    and k: "(if ref (geti s ip) = 1 \<and> ivalid (geti s ip) \<and> nlink (geti s ip) = 0 then
         if ilocked (geti s ip) then Inl Deadlock
         else bindR (itrunc ip (upd_inode ip (\<lambda>q. q\<lparr>ilocked := True\<rparr>) s)) (\<lambda>s1.
           let s2 = iupdate ip (upd_inode ip (\<lambda>q. q\<lparr>itype := 0\<rparr>) s1) in
           Inr (upd_inode ip (\<lambda>q. q\<lparr>ivalid := False, ilocked := False\<rparr>) s2))
       else Inr s) = Inr s1"
    by (auto simp: iput_def bindR_Inr_iff)
  have "ikeys s1 = ikeys s"
    using k by (auto simp: bindR_Inr_iff Let_def dest!: ikeys_itrunc split: if_splits)
  with s1 show ?thesis using that by blast
qed

lemma itab_step_ok: "itab_step s s' \<Longrightarrow> itab_ok s \<Longrightarrow> itab_ok s'"
proof (induction rule: itab_step.induct)
  case (st_iget d n s ip s')
  then show ?case using iget_spec[of s d n] by simp
next
  case (st_idup ip s s')
  then have c: "c_int (ref (geti s ip) + 1) = ref (geti s ip) + 1" by (intro c_int_id) auto
  have "itab_ok (upd_inode ip (\<lambda>i. i\<lparr>ref := c_int (ref i + 1)\<rparr>) s)"
    by (rule itab_ok_upd) (use st_idup c in \<open>auto simp: itab_ok_def\<close>)
  with st_idup show ?case by (simp add: idup_def)
next
  case (st_iput ip s s')
  from iput_keys[OF st_iput.hyps(1)] obtain s1 where
    s1: "ikeys s1 = ikeys s" "s' = upd_inode ip (\<lambda>q. q\<lparr>ref := c_int (ref q - 1)\<rparr>) s1" by blast
  have ok: "itab_ok s1" using itab_ok_ikeys s1(1) st_iput by blast
  have r: "ref (geti s1 ip) = ref (geti s ip)"
    using ikeys_nth[OF s1(1), of ip] ok st_iput by (simp add: itab_ok_def)
  have c: "c_int (ref (geti s1 ip) - 1) = ref (geti s1 ip) - 1"
    unfolding r by (intro c_int_id) (use st_iput.hyps(3,4) in auto)
  show ?case unfolding s1(2) by (rule itab_ok_upd[OF ok]) (use c r ok st_iput in \<open>auto simp: itab_ok_def\<close>)
qed (auto dest: ikeys_ilock ikeys_iunlock ikeys_itrunc intro: itab_ok_ikeys)

section \<open>Path names\<close>

text \<open>The reference: the parts of the path between slashes, without the empty ones.\<close>

fun split_at :: "'a \<Rightarrow> 'a list \<Rightarrow> 'a list list" where
  "split_at c [] = [[]]"
| "split_at c (x # xs) = (if x = c then [] # split_at c xs else (x # hd (split_at c xs)) # tl (split_at c xs))"

definition path_names :: "u8 list \<Rightarrow> u8 list list" where
  "path_names path = filter (\<lambda>e. e \<noteq> []) (split_at SLASH path)"

lemma split_at_ne [simp]: "split_at c xs \<noteq> []"
  by (cases xs) auto

lemma path_names_slash [simp]: "path_names (SLASH # p) = path_names p"
  by (simp add: path_names_def)

lemma path_names_drop: "path_names (dropWhile (\<lambda>c. c = SLASH) p) = path_names p"
  by (induction p) auto

lemma split_at_take:
  "split_at c p = takeWhile (\<lambda>x. x \<noteq> c) p #
     (if dropWhile (\<lambda>x. x \<noteq> c) p = [] then [] else split_at c (tl (dropWhile (\<lambda>x. x \<noteq> c) p)))"
  by (induction p) auto

lemma path_names_cons:
  assumes "p \<noteq> []" "hd p \<noteq> SLASH"
  shows "path_names p = takeWhile (\<lambda>x. x \<noteq> SLASH) p # path_names (dropWhile (\<lambda>x. x \<noteq> SLASH) p)"
proof -
  let ?e = "takeWhile (\<lambda>x. x \<noteq> SLASH) p" and ?r = "dropWhile (\<lambda>x. x \<noteq> SLASH) p"
  have e: "?e \<noteq> []" using assms by (cases p) auto
  show ?thesis
  proof (cases "?r")
    case Nil
    then have "split_at SLASH p = [?e]" using split_at_take[of SLASH p] by simp
    then show ?thesis unfolding Nil using e by (simp add: path_names_def)
  next
    case (Cons c q)
    then have "c = SLASH" using hd_dropWhile[of "\<lambda>x. x \<noteq> SLASH" p] by simp
    then show ?thesis using e split_at_take[of SLASH p] Cons by (simp add: path_names_def)
  qed
qed

lemma path_names_Nil: "path_names p = [] \<longleftrightarrow> dropWhile (\<lambda>c. c = SLASH) p = []"
proof -
  have "path_names p = path_names (dropWhile (\<lambda>c. c = SLASH) p)" by (simp add: path_names_drop)
  moreover have "path_names [] = []" by (simp add: path_names_def)
  moreover have "path_names (dropWhile (\<lambda>c. c = SLASH) p) \<noteq> []" if "dropWhile (\<lambda>c. c = SLASH) p \<noteq> []"
    using path_names_cons[OF that] hd_dropWhile[OF that] by simp
  ultimately show ?thesis by metis
qed

lemma skipelem_path_names:
  "case path_names path of
     [] \<Rightarrow> skipelem path = None
   | e # es \<Rightarrow> \<exists>rest. skipelem path = Some (take DIRSIZ e, rest) \<and> path_names rest = es \<and> (rest = [] \<longleftrightarrow> es = [])"
proof (cases "dropWhile (\<lambda>c. c = SLASH) path = []")
  case True
  then show ?thesis by (simp add: path_names_Nil[THEN iffD2] skipelem_def)
next
  case False
  let ?p = "dropWhile (\<lambda>c. c = SLASH) path"
  let ?r = "dropWhile (\<lambda>c. c \<noteq> SLASH) ?p"
  have "path_names path = takeWhile (\<lambda>x. x \<noteq> SLASH) ?p # path_names ?r"
    using path_names_cons[OF False] hd_dropWhile[OF False] by (simp add: path_names_drop)
  moreover have "dropWhile (\<lambda>c. c = SLASH) ?r = [] \<longleftrightarrow> path_names ?r = []" by (simp add: path_names_Nil)
  ultimately show ?thesis using False by (simp add: skipelem_def Let_def path_names_drop)
qed

end
