(* ===== verification/FsFile.thy ===== *)
theory FsFile
  imports FsCorrect
begin

text \<open>
  The contents of files. A file is the function from offsets to bytes that its blocks describe; the
  positions of blocks in a file (direct, indirect, double indirect) form a tree whose nodes are
  addresses of blocks. While no block is at two positions, \<open>bmap\<close> keeps the contents of
  every file, and a write to the block that it returns changes one range of one file.
\<close>

section \<open>Positions\<close>

datatype pos = Ind | Ind2 | L2 nat | Data nat

definition vpos :: "pos \<Rightarrow> bool" where
  "vpos p = (case p of L2 k \<Rightarrow> k < NINDIRECT | Data bn \<Rightarrow> bn < MAXFILE | _ \<Rightarrow> True)"

text \<open>The slot that holds the address of a position: in the inode, or in the block at another position.\<close>

definition slot_of :: "pos \<Rightarrow> pos option \<times> nat" where
  "slot_of p = (case p of Ind \<Rightarrow> (None, NDIRECT) | Ind2 \<Rightarrow> (None, NDIRECT + 1) | L2 k \<Rightarrow> (Some Ind2, k)
     | Data bn \<Rightarrow> if bn < NDIRECT then (None, bn)
         else if bn - NDIRECT < NINDIRECT then (Some Ind, bn - NDIRECT)
         else (Some (L2 ((bn - NDIRECT - NINDIRECT) div NINDIRECT)), (bn - NDIRECT - NINDIRECT) mod NINDIRECT))"

definition rank :: "pos \<Rightarrow> nat" where
  "rank p = (case p of Ind \<Rightarrow> 0 | Ind2 \<Rightarrow> 0 | L2 _ \<Rightarrow> 1 | Data _ \<Rightarrow> 2)"

definition ent :: "'a fsk_scheme \<Rightarrow> u32 \<Rightarrow> nat \<Rightarrow> u32" where
  "ent s b k = (if b = 0 then 0 else get_u32 (blocks s b) k)"

function addr :: "'a fsk_scheme \<Rightarrow> nat \<Rightarrow> pos \<Rightarrow> u32" where
  "addr s ip p = (case slot_of p of (None, k) \<Rightarrow> addrs (geti s ip) ! k | (Some q, k) \<Rightarrow> ent s (addr s ip q) k)"
  by pat_completeness auto
termination
  by (relation "measure (\<lambda>(s, ip, p). rank p)") (auto simp: slot_of_def rank_def split: pos.splits if_splits)

declare addr.simps [simp del]

lemma addr_None: "slot_of p = (None, k) \<Longrightarrow> addr s ip p = addrs (geti s ip) ! k"
  by (simp add: addr.simps[of s ip p])

lemma addr_Some: "slot_of p = (Some q, k) \<Longrightarrow> addr s ip p = ent s (addr s ip q) k"
  by (subst addr.simps) simp

lemma slot_parent:
  assumes "vpos p" "slot_of p = (Some q, k)"
  shows "vpos q" "k < NINDIRECT" "rank q < rank p" "4 * k + 4 \<le> BSIZE"
proof -
  have "(bn - NDIRECT - NINDIRECT) div NINDIRECT < NINDIRECT" if "bn < MAXFILE" "\<not> bn < NDIRECT" "\<not> bn - NDIRECT < NINDIRECT" for bn
    using that by (intro less_mult_imp_div_less) (simp add: MAXFILE_def NINDIRECT2_def)
  then show "vpos q" "rank q < rank p" "k < NINDIRECT"
    using assms by (auto simp: vpos_def slot_of_def rank_def fs_sizes split: pos.splits if_splits)
  then show "4 * k + 4 \<le> BSIZE" by (simp add: fs_sizes)
qed

lemma slot_inode: "vpos p \<Longrightarrow> slot_of p = (None, k) \<Longrightarrow> k < NDIRECT + 2"
  by (auto simp: slot_of_def split: pos.splits if_splits)

lemma slot_inj: "slot_of p = slot_of p' \<Longrightarrow> p = p'"
proof -
  have eq: "x div n = y div n \<and> x mod n = y mod n \<Longrightarrow> x = y" for x y n :: nat by (metis div_mult_mod_eq)
  show "slot_of p = slot_of p' \<Longrightarrow> p = p'"
    by (auto simp: slot_of_def split: pos.splits if_splits dest: eq[OF conjI])
qed

lemma addr_induct [consumes 1, case_names inode entry]:
  assumes "vpos p" and "\<And>p k. vpos p \<Longrightarrow> slot_of p = (None, k) \<Longrightarrow> P p"
    and "\<And>p q k. vpos p \<Longrightarrow> vpos q \<Longrightarrow> slot_of p = (Some q, k) \<Longrightarrow> P q \<Longrightarrow> P p"
  shows "P p"
  using \<open>vpos p\<close>
proof (induction p rule: measure_induct_rule[of rank])
  case (less p)
  obtain o' k where "slot_of p = (o', k)" by fastforce
  then show ?case using less assms(2,3) slot_parent[OF less.prems] by (cases o') auto
qed

section \<open>The invariant\<close>

definition mapblock :: "'a fsk_scheme \<Rightarrow> u32 \<Rightarrow> bool" where
  "mapblock s b \<longleftrightarrow> (\<exists>c<unat (sbsize (sb s)). b = BBLOCK c (sb s))"

definition inoblock :: "nat set \<Rightarrow> 'a fsk_scheme \<Rightarrow> u32 \<Rightarrow> bool" where
  "inoblock A s b \<longleftrightarrow> (\<exists>ip\<in>A. b = IBLOCK (inum (geti s ip)) (sb s))"

definition taken :: "nat set \<Rightarrow> 'a fsk_scheme \<Rightarrow> u32 \<Rightarrow> bool" where
  "taken A s b \<longleftrightarrow> unat b < unat (sbsize (sb s)) \<and> used s (unat b) \<and> \<not> mapblock s b \<and> \<not> inoblock A s b"

text \<open>
  The files in \<open>A\<close>, as indices into the inode table: their blocks are in use, at one position of one
  file each, and none holds the free map or inodes. Block 0 and the blocks of the free map and of
  the inodes are never free.
\<close>

definition fs_inv :: "nat set \<Rightarrow> 'a fsk_scheme \<Rightarrow> bool" where
  "fs_inv A s \<longleftrightarrow> blk_ok s \<and> map_reserved s \<and> \<not> isfree s 0 \<and>
     (\<forall>ip\<in>A. ip < length (itable s) \<and> length (addrs (geti s ip)) = NDIRECT + 2) \<and>
     (\<forall>b. inoblock A s b \<longrightarrow> \<not> isfree s b \<and> \<not> mapblock s b) \<and>
     (\<forall>ip\<in>A. \<forall>p. vpos p \<longrightarrow> addr s ip p \<noteq> 0 \<longrightarrow> taken A s (addr s ip p)) \<and>
     (\<forall>ip\<in>A. \<forall>ip'\<in>A. \<forall>p p'. vpos p \<longrightarrow> vpos p' \<longrightarrow> addr s ip p \<noteq> 0 \<longrightarrow> addr s ip p = addr s ip' p' \<longrightarrow> ip = ip' \<and> p = p')"

lemma fs_invD:
  assumes "fs_inv A s"
  shows "blk_ok s" "map_reserved s" "\<not> isfree s 0" "length (blocks s b) = BSIZE"
    "ip \<in> A \<Longrightarrow> ip < length (itable s)" "ip \<in> A \<Longrightarrow> length (addrs (geti s ip)) = NDIRECT + 2"
    "inoblock A s b \<Longrightarrow> \<not> isfree s b \<and> \<not> mapblock s b"
    "ip \<in> A \<Longrightarrow> vpos p \<Longrightarrow> addr s ip p \<noteq> 0 \<Longrightarrow> taken A s (addr s ip p)"
    "ip \<in> A \<Longrightarrow> ip' \<in> A \<Longrightarrow> vpos p \<Longrightarrow> vpos p' \<Longrightarrow> addr s ip p \<noteq> 0 \<Longrightarrow> addr s ip p = addr s ip' p' \<Longrightarrow> ip = ip' \<and> p = p'"
  using assms unfolding fs_inv_def blk_ok_def by blast+

lemma mapblock_not_free: "map_reserved s \<Longrightarrow> mapblock s b \<Longrightarrow> \<not> isfree s b"
  by (auto simp: map_reserved_def mapblock_def)

lemma taken_not_free: "taken A s b \<Longrightarrow> \<not> isfree s b"
  by (simp add: taken_def isfree_def)

lemma addr_cong:
  assumes "addrs (geti s' ip) = addrs (geti s ip)"
    and "\<And>q. vpos q \<Longrightarrow> addr s ip q \<noteq> 0 \<Longrightarrow> blocks s' (addr s ip q) = blocks s (addr s ip q)"
    and "vpos p"
  shows "addr s' ip p = addr s ip p"
  using assms(3)
proof (induction rule: addr_induct)
  case (inode p k)
  then show ?case by (simp add: addr_None assms(1))
next
  case (entry p q k)
  then show ?case using assms(2)[of q] by (simp add: addr_Some[OF entry(3)] ent_def)
qed

definition fbyte :: "'a fsk_scheme \<Rightarrow> nat \<Rightarrow> nat \<Rightarrow> u8" where
  "fbyte s ip i = (let a = addr s ip (Data (i div BSIZE)) in if a = 0 then 0 else blocks s a ! (i mod BSIZE))"

lemma vpos_data: "i < MAXFILE * BSIZE \<Longrightarrow> vpos (Data (i div BSIZE))"
  by (simp add: vpos_def less_mult_imp_div_less)

section \<open>Allocating a block\<close>

lemma BBLOCK_mapblock: "isfree s b \<Longrightarrow> mapblock s (BBLOCK (unat b) (sb s))"
  by (auto simp: mapblock_def isfree_def)

lemma alloc_keeps:
  assumes "fs_inv A s" "allocated s b s'"
  shows "fs_inv A s'" "ip \<in> A \<Longrightarrow> vpos p \<Longrightarrow> addr s' ip p = addr s ip p"
    "taken A s' b" "b \<noteq> 0" "blocks s' b = replicate BSIZE 0" "ip \<in> A \<Longrightarrow> vpos p \<Longrightarrow> addr s ip p \<noteq> b"
    "ip \<in> A \<Longrightarrow> vpos p \<Longrightarrow> addr s ip p \<noteq> 0 \<Longrightarrow> blocks s' (addr s ip p) = blocks s (addr s ip p)"
proof -
  note inv = fs_invD[OF assms(1)]
  obtain d where fr: "isfree s b" and s': "s' = s\<lparr>blocks := (blocks s)(BBLOCK (unat b) (sb s) := d, b := replicate BSIZE 0),
       logged := logged s @ [BBLOCK (unat b) (sb s), b]\<rparr>" and d: "length d = BSIZE"
     and us: "\<And>c. c < unat (sbsize (sb s)) \<Longrightarrow> used s' c \<longleftrightarrow> c = unat b \<or> used s c"
    using assms(2) unfolding allocated_def by blast
  have fr': "isfree s' c \<longleftrightarrow> isfree s c \<and> c \<noteq> b" for c
    using us[of "unat c"] by (auto simp: isfree_def s' word_unat_eq_iff)
  have sb: "sb s' = sb s" and it: "itable s' = itable s" by (simp_all add: s')
  have mb: "mapblock s' c = mapblock s c" and ib: "inoblock A s' c = inoblock A s c" for c
    by (simp_all add: mapblock_def inoblock_def sb it)
  have tk: "taken A s' c" if "taken A s c" for c using that us[of "unat c"] by (simp add: taken_def mb ib sb)
  show nb: "addr s ip p \<noteq> b" if "ip \<in> A" "vpos p" for ip p
    using inv(3) inv(8)[of ip p] that fr by (cases "addr s ip p = 0") (auto dest: taken_not_free)
  show bl: "blocks s' (addr s ip p) = blocks s (addr s ip p)" if "ip \<in> A" "vpos p" "addr s ip p \<noteq> 0" for ip p
    using nb[OF that(1,2)] inv(8)[OF that] BBLOCK_mapblock[OF fr] by (auto simp: s' taken_def)
  show ad: "addr s' ip p = addr s ip p" if "ip \<in> A" "vpos p" for ip p
    using that(2) by (rule addr_cong[rotated 2]) (use bl[OF that(1)] in \<open>simp_all add: it\<close>)
  show "taken A s' b"
    using us[of "unat b"] fr mapblock_not_free[OF inv(2), of b] inv(7)[of b]
    unfolding taken_def mb ib sb isfree_def by blast
  show "b \<noteq> 0" using inv(3) fr by auto
  show "blocks s' b = replicate BSIZE 0" by (simp add: s')
  have "map_reserved s'" using inv(2) by (simp add: map_reserved_def sb fr')
  then show "fs_inv A s'"
    unfolding fs_inv_def ib mb fr' it using assms(1) tk ad
    by (simp add: fs_inv_def blk_ok_def s' d)
qed

section \<open>Filling a slot\<close>

text \<open>The state in which the slot of position \<open>p\<close> of file \<open>ip\<close> holds \<open>b\<close>.\<close>

definition put_slot :: "nat \<Rightarrow> pos \<Rightarrow> u32 \<Rightarrow> 'a fsk_scheme \<Rightarrow> 'a fsk_scheme" where
  "put_slot ip p b s = (case slot_of p of
     (None, k) \<Rightarrow> upd_inode ip (\<lambda>i. i\<lparr>addrs := (addrs i)[k := b]\<rparr>) s
   | (Some q, k) \<Rightarrow> log_write (addr s ip q) (set_block (addr s ip q) (put_u32 k b (blocks s (addr s ip q))) s))"

lemma put_slot_addr:
  assumes inv: "fs_inv A s" and ip: "ip \<in> A" "vpos p" and z: "addr s ip p = 0"
    and par: "\<And>q k. slot_of p = (Some q, k) \<Longrightarrow> addr s ip q \<noteq> 0"
    and b: "b \<noteq> 0" "blocks s b = replicate BSIZE 0" "\<And>ip p. ip \<in> A \<Longrightarrow> vpos p \<Longrightarrow> addr s ip p \<noteq> b"
    and ip': "ip' \<in> A" "vpos p'"
  shows "addr (put_slot ip p b s) ip' p' = (if ip' = ip \<and> p' = p then b else addr s ip' p')"
  using ip'(2)
proof (induction rule: addr_induct)
  case (inode p' k')
  note I = fs_invD[OF inv]
  have "k' < NDIRECT + 2" using inode slot_inode by blast
  moreover have "p' = p \<longleftrightarrow> slot_of p = (None, k')" using slot_inj[of p p'] inode(2) by auto
  ultimately show ?case
    using inode(2) I(5,6)[OF ip(1)] by (auto simp: put_slot_def addr_None nth_list_update split: prod.splits option.splits)
next
  case (entry p' q' k')
  note I = fs_invD[OF inv]
  have k': "4 * k' + 4 \<le> BSIZE" using slot_parent[OF entry(1,3)] by simp
  let ?s = "put_slot ip p b s"
  show ?case
  proof (cases "ip' = ip \<and> q' = p")
    case True
    have "addr s ip q \<noteq> b" if "slot_of p = (Some q, k)" for q k
      using b(3)[OF ip(1) slot_parent(1)[OF ip(2) that]] .
    then have "blocks ?s b = blocks s b" by (auto simp: put_slot_def split: prod.splits option.splits)
    moreover have "p' \<noteq> p" using slot_parent(3)[OF entry(1,3)] True by auto
    ultimately show ?thesis
      using True entry.IH z k' b by (simp add: addr_Some[OF entry(3)] ent_def)
  next
    case F: False
    then have ih: "addr ?s ip' q' = addr s ip' q'" using entry.IH by auto
    show ?thesis
    proof (cases "addr s ip' q' = 0")
      case True
      then have "\<not> (ip' = ip \<and> p' = p)" using par entry(3) by auto
      then show ?thesis using True ih by (auto simp: addr_Some[OF entry(3)] ent_def)
    next
      case False
      obtain sl k where sl: "slot_of p = (sl, k)" by fastforce
      show ?thesis
      proof (cases sl)
        case None
        then have "p' \<noteq> p" using sl entry(3) by auto
        then show ?thesis using sl None ih by (auto simp: addr_Some[OF entry(3)] ent_def put_slot_def)
      next
        case (Some q)
        have q: "vpos q" "4 * k + 4 \<le> BSIZE" "addr s ip q \<noteq> 0" using slot_parent[OF ip(2)] par sl Some by auto
        have same: "addr s ip' q' = addr s ip q \<longleftrightarrow> ip' = ip \<and> q' = q"
          using I(9)[OF ip'(1) ip(1) entry(2) q(1)] False by auto
        have "p' = p \<longleftrightarrow> q' = q \<and> k' = k" using slot_inj[of p p'] sl Some entry(3) by auto
        then show ?thesis
          using sl Some ih False same q k' I(4)
          by (auto simp: addr_Some[OF entry(3)] ent_def put_slot_def get_put_u32)
      qed
    qed
  qed
qed

text \<open>
  Steps after which the files hold \<open>F\<close>; a step that adds blocks to files does not change what they hold.
\<close>

definition changes :: "nat set \<Rightarrow> 'a fsk_scheme \<Rightarrow> 'a fsk_scheme \<Rightarrow> (nat \<Rightarrow> nat \<Rightarrow> u8) \<Rightarrow> bool" where
  "changes A s s' F \<longleftrightarrow> fs_inv A s' \<and> kernel.truncate s' = kernel.truncate s \<and> sb s' = sb s \<and>
     length (itable s') = length (itable s) \<and>
     (\<forall>j. geti s' j = (geti s j)\<lparr>addrs := addrs (geti s' j)\<rparr>) \<and>
     (\<forall>ip\<in>A. \<forall>p. vpos p \<longrightarrow> addr s ip p \<noteq> 0 \<longrightarrow> addr s' ip p = addr s ip p) \<and>
     (\<forall>ip\<in>A. \<forall>i<MAXFILE * BSIZE. fbyte s' ip i = F ip i)"

abbreviation grows :: "nat set \<Rightarrow> 'a fsk_scheme \<Rightarrow> 'a fsk_scheme \<Rightarrow> bool" where
  "grows A s s' \<equiv> changes A s s' (fbyte s)"

lemma grows_refl [simp]: "fs_inv A s \<Longrightarrow> grows A s s"
  by (simp add: changes_def)

lemma changes_trans: "changes A s s' F \<Longrightarrow> changes A s' s'' G \<Longrightarrow> changes A s s'' G"
  unfolding changes_def
  by (metis (no_types, lifting) inode.surjective inode.update_convs(11))

lemma changes_cong:
  "changes A s s' F \<Longrightarrow> (\<And>ip i. ip \<in> A \<Longrightarrow> i < MAXFILE * BSIZE \<Longrightarrow> F ip i = G ip i) \<Longrightarrow> changes A s s' G"
  by (simp add: changes_def)

lemma grows_trans: "grows A s s' \<Longrightarrow> grows A s' s'' \<Longrightarrow> grows A s s''"
  by (rule changes_cong[OF changes_trans]) (auto simp: changes_def)

lemma changes_meta:
  assumes "changes A s s' F"
  shows "isize (geti s' j) = isize (geti s j)" "itype (geti s' j) = itype (geti s j)" "idev (geti s' j) = idev (geti s j)"
    "inum (geti s' j) = inum (geti s j)" "ref (geti s' j) = ref (geti s j)"
proof -
  have "geti s' j = (geti s j)\<lparr>addrs := addrs (geti s' j)\<rparr>" using assms by (simp add: changes_def)
  then obtain x where "geti s' j = (geti s j)\<lparr>addrs := x\<rparr>" by blast
  then show "isize (geti s' j) = isize (geti s j)" "itype (geti s' j) = itype (geti s j)" "idev (geti s' j) = idev (geti s j)"
    "inum (geti s' j) = inum (geti s j)" "ref (geti s' j) = ref (geti s j)" by simp_all
qed

lemma put_slot_grows:
  assumes inv: "fs_inv A s" and ip: "ip \<in> A" "vpos p" and z: "addr s ip p = 0"
    and par: "\<And>q k. slot_of p = (Some q, k) \<Longrightarrow> addr s ip q \<noteq> 0"
    and b: "b \<noteq> 0" "blocks s b = replicate BSIZE 0" "\<And>ip p. ip \<in> A \<Longrightarrow> vpos p \<Longrightarrow> addr s ip p \<noteq> b" "taken A s b"
  shows "grows A s (put_slot ip p b s)" "addr (put_slot ip p b s) ip p = b"
proof -
  note I = fs_invD[OF inv]
  let ?s = "put_slot ip p b s"
  have ad: "addr ?s i q = (if i = ip \<and> q = p then b else addr s i q)" if "i \<in> A" "vpos q" for i q
    by (rule put_slot_addr[OF inv ip z _ b(1-3)]) (use that par in auto)
  have sb: "sb ?s = sb s" and len: "length (itable ?s) = length (itable s)" and kt: "kernel.truncate ?s = kernel.truncate s"
    by (auto simp: put_slot_def upd_inode_def log_write_def set_block_def kernel.truncate_def split: prod.splits option.splits)
  have ge: "geti ?s j = (geti s j)\<lparr>addrs := addrs (geti ?s j)\<rparr>" and la: "length (addrs (geti ?s j)) = length (addrs (geti s j))" for j
    using I(5)[OF ip(1)] by (auto simp: put_slot_def nth_list_update split: prod.splits option.splits)
  have inu: "inum (geti ?s j) = inum (geti s j)" for j by (subst ge) simp
  have mb: "mapblock ?s c = mapblock s c" and ib: "inoblock A ?s c = inoblock A s c" for c
    by (simp_all add: mapblock_def inoblock_def sb inu)
  have bl: "blocks ?s c = blocks s c" if "\<And>q. vpos q \<Longrightarrow> addr s ip q \<noteq> 0 \<Longrightarrow> rank q < 2 \<Longrightarrow> c \<noteq> addr s ip q" for c
  proof -
    have "c \<noteq> addr s ip q" if "slot_of p = (Some q, k)" for q k
    proof (rule \<open>\<And>q. vpos q \<Longrightarrow> addr s ip q \<noteq> 0 \<Longrightarrow> rank q < 2 \<Longrightarrow> c \<noteq> addr s ip q\<close>)
      show "rank q < 2" using that by (auto simp: slot_of_def rank_def split: pos.splits if_splits)
    qed (use par[OF that] slot_parent[OF ip(2) that] in auto)
    then show ?thesis by (auto simp: put_slot_def split: prod.splits option.splits)
  qed
  have bz: "blk_ok ?s"
    using I(4) slot_parent(4)[OF ip(2)] by (auto simp: blk_ok_def put_slot_def split: prod.splits option.splits)
  have us: "used ?s c = used s c" if "c < unat (sbsize (sb s))" for c
  proof -
    have "mapblock s (BBLOCK c (sb s))" using that by (auto simp: mapblock_def)
    then have "blocks ?s (BBLOCK c (sb s)) = blocks s (BBLOCK c (sb s))"
      by (intro bl) (use I(8)[OF ip(1)] in \<open>auto simp: taken_def\<close>)
    then show ?thesis by (simp add: used_def sb)
  qed
  have fr: "isfree ?s c = isfree s c" for c using us[of "unat c"] by (auto simp: isfree_def sb)
  have tk: "taken A ?s c = taken A s c" for c using us[of "unat c"] by (auto simp: taken_def mb ib sb)
  have "addr ?s i p1 = addr ?s j p2 \<longrightarrow> i = j \<and> p1 = p2"
    if "i \<in> A" "j \<in> A" "vpos p1" "vpos p2" "addr ?s i p1 \<noteq> 0" for i j p1 p2
    using that I(9)[of i j p1 p2] b(3)[of i p1] b(3)[of j p2] unfolding ad[OF that(1,3)] ad[OF that(2,4)] by auto
  moreover have "taken A ?s (addr ?s i p1)" if "i \<in> A" "vpos p1" "addr ?s i p1 \<noteq> 0" for i p1
    using that I(8)[of i p1] b(4) unfolding ad[OF that(1,2)] tk by auto
  moreover have "map_reserved ?s" using I(2) by (simp add: map_reserved_def sb fr)
  ultimately have inv': "fs_inv A ?s"
    unfolding fs_inv_def ib mb fr len la using inv bz by (simp add: fs_inv_def)
  have fb: "fbyte ?s i k = fbyte s i k" if k: "i \<in> A" "k < MAXFILE * BSIZE" for i k
  proof -
    let ?p = "Data (k div BSIZE)"
    have vp: "vpos ?p" by (rule vpos_data[OF k(2)])
    have data: "blocks ?s x = blocks s x" if "x = b \<or> x = addr s i ?p \<and> x \<noteq> 0" for x
    proof (rule bl)
      fix q assume q: "vpos q" "addr s ip q \<noteq> 0" "rank q < 2"
      then have "q \<noteq> ?p" by (auto simp: rank_def)
      then show "x \<noteq> addr s ip q" using that b(3)[OF ip(1) q(1)] I(9)[OF k(1) ip(1) vp q(1)] q(2) by auto
    qed
    show ?thesis
      using data[of b] data[of "addr s i ?p"] b(1,2) z ad[OF k(1) vp]
      by (auto simp: fbyte_def Let_def BSIZE_def)
  qed
  show "grows A s ?s"
    unfolding changes_def using inv' sb len kt ge fb ad z by auto
  show "addr ?s ip p = b" using ad[OF ip] by simp
qed

text \<open>One step of \<open>bmap\<close>: the address at position \<open>p\<close>, with a new block when there is none.\<close>

definition fetch :: "nat \<Rightarrow> pos \<Rightarrow> 'a fsk_scheme \<Rightarrow> (u32 \<times> 'a fsk_scheme) res" where
  "fetch ip p s = (case slot_of p of (None, k) \<Rightarrow> inode_slot ip k s | (Some q, k) \<Rightarrow> indirect_slot (addr s ip q) k s)"

definition out_of_blocks :: kerror where
  "out_of_blocks = Panic ''balloc: out of blocks''"

lemma fetch_spec:
  assumes inv: "fs_inv A s" and ip: "ip \<in> A" "vpos p"
    and par: "\<And>q k. slot_of p = (Some q, k) \<Longrightarrow> addr s ip q \<noteq> 0"
  shows "case fetch ip p s of Inl e \<Rightarrow> e = out_of_blocks \<and> addr s ip p = 0 \<and> (\<forall>a. \<not> isfree s a)
    | Inr (a, s') \<Rightarrow> grows A s s' \<and> a \<noteq> 0 \<and> addr s' ip p = a \<and> (addr s ip p \<noteq> 0 \<longrightarrow> s' = s)"
proof (cases "addr s ip p = 0")
  case False
  then have "fetch ip p s = Inr (addr s ip p, s)"
    using par by (auto simp: fetch_def inode_slot_def indirect_slot_def addr_None addr_Some ent_def Let_def split: prod.splits option.splits)
  then show ?thesis using False inv by simp
next
  case True
  note I = fs_invD[OF inv]
  have q0: "addr s ip q \<noteq> 0" "vpos q" if "slot_of p = (Some q, k)" for q k
    using that par slot_parent[OF ip(2)] by auto
  have ex: "fetch ip p s = bindR (balloc s) (\<lambda>(b, s1). Inr (b, put_slot ip p b s1))"
    if "\<And>b s1 q. balloc s = Inr (b, s1) \<Longrightarrow> vpos q \<Longrightarrow> addr s1 ip q = addr s ip q"
    using True par that q0
    by (auto simp: fetch_def inode_slot_def indirect_slot_def addr_None addr_Some ent_def Let_def put_slot_def
        intro!: bindR_cong split: prod.splits option.splits)
  show ?thesis
  proof (cases "balloc s")
    case (Inl e)
    then show ?thesis using True ex balloc_spec[OF I(1,2)] by (auto simp: out_of_blocks_def)
  next
    case (Inr r)
    then obtain b s1 where r: "balloc s = Inr (b, s1)" by (cases r) auto
    then have al: "allocated s b s1" using balloc_spec[OF I(1,2)] by simp
    note K = alloc_keeps[OF inv al]
    have f: "fetch ip p s = Inr (b, put_slot ip p b s1)"
      using ex r K(2)[OF ip(1)] by simp
    have g: "grows A s1 (put_slot ip p b s1)" "addr (put_slot ip p b s1) ip p = b"
      by (rule put_slot_grows; use K True ip q0 par in \<open>auto simp: K(2) q0\<close>)+
    have "grows A s s1"
    proof -
      have "fbyte s1 i k = fbyte s i k" if "i \<in> A" "k < MAXFILE * BSIZE" for i k
        using K(2,7)[OF that(1) vpos_data[OF that(2)]] by (simp add: fbyte_def Let_def)
      moreover have "kernel.truncate s1 = kernel.truncate s" "sb s1 = sb s" "itable s1 = itable s"
        using al by (auto simp: allocated_def kernel.truncate_def)
      ultimately show ?thesis using K by (simp add: changes_def)
    qed
    then show ?thesis using f g True K(4) grows_trans by auto
  qed
qed

section \<open>The blocks of a file\<close>

definition reached :: "nat set \<Rightarrow> 'a fsk_scheme \<Rightarrow> nat \<Rightarrow> pos \<Rightarrow> (u32 \<times> 'a fsk_scheme) res \<Rightarrow> bool" where
  "reached A s ip p r \<longleftrightarrow> (case r of Inl e \<Rightarrow> e = out_of_blocks \<and> addr s ip p = 0
     | Inr (a, s') \<Rightarrow> grows A s s' \<and> a \<noteq> 0 \<and> addr s' ip p = a \<and> (addr s ip p \<noteq> 0 \<longrightarrow> s' = s))"

lemma reached_inode:
  "fs_inv A s \<Longrightarrow> ip \<in> A \<Longrightarrow> vpos p \<Longrightarrow> slot_of p = (None, k) \<Longrightarrow> reached A s ip p (inode_slot ip k s)"
  using fetch_spec[of A s ip p] by (auto simp: reached_def fetch_def split: sum.splits)

lemma reached_entry:
  assumes "reached A s ip q r" "ip \<in> A" "vpos p" "slot_of p = (Some q, k)"
  shows "reached A s ip p (bindR r (\<lambda>(a, s1). indirect_slot a k s1))"
proof (cases r)
  case (Inl e)
  then show ?thesis using assms(1) by (simp add: reached_def addr_Some[OF assms(4)] ent_def)
next
  case (Inr x)
  then obtain a s1 where r: "r = Inr (a, s1)" by (cases x) auto
  with assms(1) have g: "grows A s s1" "a \<noteq> 0" "addr s1 ip q = a" "addr s ip q \<noteq> 0 \<longrightarrow> s1 = s" by (auto simp: reached_def)
  have q: "addr s ip q \<noteq> 0" if "addr s ip p \<noteq> 0"
    using that by (auto simp: addr_Some[OF assms(4)] ent_def)
  have p1: "addr s ip p \<noteq> 0 \<Longrightarrow> addr s1 ip p \<noteq> 0" using g(1) assms(2,3) by (auto simp: changes_def)
  have "bindR r (\<lambda>(a, s1). indirect_slot a k s1) = fetch ip p s1" using r g(3) assms(4) by (simp add: fetch_def)
  moreover have "fs_inv A s1" using g(1) by (simp add: changes_def)
  ultimately show ?thesis
    using fetch_spec[of A s1 ip p] assms(2-4) g q p1
    by (auto simp: reached_def split: sum.splits intro: grows_trans)
qed

lemma bmap_spec:
  assumes "fs_inv A s" "ip \<in> A" "bn < MAXFILE"
  shows "reached A s ip (Data bn) (bmap ip bn s)"
proof -
  have v: "vpos (Data bn)" using assms(3) by (simp add: vpos_def)
  consider "bn < NDIRECT" | "\<not> bn < NDIRECT" "bn - NDIRECT < NINDIRECT" | "\<not> bn < NDIRECT" "\<not> bn - NDIRECT < NINDIRECT" by blast
  then show ?thesis
  proof cases
    case 1
    then show ?thesis using reached_inode[OF assms(1,2) v] by (simp add: bmap_def slot_of_def)
  next
    case 2
    have "reached A s ip Ind (inode_slot ip NDIRECT s)"
      by (rule reached_inode[OF assms(1,2)]) (simp_all add: vpos_def slot_of_def)
    from reached_entry[OF this assms(2) v] 2 show ?thesis by (simp add: bmap_def slot_of_def Let_def)
  next
    case 3
    let ?n = "bn - NDIRECT - NINDIRECT"
    have "reached A s ip Ind2 (inode_slot ip (NDIRECT + 1) s)"
      by (rule reached_inode[OF assms(1,2)]) (simp_all add: vpos_def slot_of_def)
    moreover have l2: "vpos (L2 (?n div NINDIRECT))" using slot_parent(1)[OF v] 3 by (simp add: slot_of_def)
    ultimately have "reached A s ip (L2 (?n div NINDIRECT)) (bindR (inode_slot ip (NDIRECT + 1) s) (\<lambda>(a, s1). indirect_slot a (?n div NINDIRECT) s1))"
      by (rule reached_entry[OF _ assms(2)]) (simp add: slot_of_def)
    from reached_entry[OF this assms(2) v, of "?n mod NINDIRECT"]
    have "reached A s ip (Data bn) (bindR (bindR (inode_slot ip (NDIRECT + 1) s) (\<lambda>(a, s1). indirect_slot a (?n div NINDIRECT) s1))
       (\<lambda>(a, s1). indirect_slot a (?n mod NINDIRECT) s1))" using 3 by (simp add: slot_of_def)
    moreover have "?n < NINDIRECT2" using 3 assms(3) by (simp add: MAXFILE_def)
    ultimately show ?thesis using 3 by (simp add: bmap_def Let_def bindR_assoc case_prod_unfold)
  qed
qed

end
