(* ===== verification/FsRw.thy ===== *)
theory FsRw
  imports FsFile
begin

text \<open>
  Reading and writing files as operations on lists of bytes. The place that bytes come from or go to is an
  interface: a source that holds a list of bytes, a sink that takes one.
\<close>

section \<open>Writing to one block\<close>

definition write_at :: "nat \<Rightarrow> u8 list \<Rightarrow> (nat \<Rightarrow> u8) \<Rightarrow> nat \<Rightarrow> u8" where
  "write_at off bs f i = (if off \<le> i \<and> i < off + length bs then bs ! (i - off) else f i)"

lemma write_at_append: "write_at (off + length xs) ys (write_at off xs f) = write_at off (xs @ ys) f"
  by (auto simp: write_at_def nth_append fun_eq_iff)

lemma range_in_block:
  assumes "off mod BSIZE + n \<le> BSIZE" "off div BSIZE = bn"
  shows "off \<le> k \<and> k < off + n \<longleftrightarrow> k div BSIZE = bn \<and> off mod BSIZE \<le> k mod BSIZE \<and> k mod BSIZE < off mod BSIZE + n"
    "k div BSIZE = bn \<Longrightarrow> k - off = k mod BSIZE - off mod BSIZE"
proof -
  have o': "off = bn * BSIZE + off mod BSIZE" using assms(2) by (metis div_mult_mod_eq)
  have k: "k = bn * BSIZE + k mod BSIZE" if "k div BSIZE = bn" using that by (metis div_mult_mod_eq)
  have "k div BSIZE = bn" if h: "off \<le> k" "k < off + n"
  proof (rule antisym)
    have "k < Suc bn * BSIZE" using h(2) o' assms(1) by simp
    then show "k div BSIZE \<le> bn" using less_mult_imp_div_less[of k "Suc bn" BSIZE] by (simp only: less_Suc_eq_le)
    show "bn \<le> k div BSIZE" using h(1) assms(2) div_le_mono by blast
  qed
  moreover have "(off \<le> k \<longleftrightarrow> off mod BSIZE \<le> k mod BSIZE) \<and> (k < off + n \<longleftrightarrow> k mod BSIZE < off mod BSIZE + n)"
    if "k div BSIZE = bn" using o' k[OF that] by linarith
  ultimately show "off \<le> k \<and> k < off + n \<longleftrightarrow> k div BSIZE = bn \<and> off mod BSIZE \<le> k mod BSIZE \<and> k mod BSIZE < off mod BSIZE + n"
    by blast
  show "k div BSIZE = bn \<Longrightarrow> k - off = k mod BSIZE - off mod BSIZE" using o' k by linarith
qed

lemma write_block:
  assumes inv: "fs_inv A s" and ip: "ip \<in> A" "bn < MAXFILE" and a: "addr s ip (Data bn) = a" "a \<noteq> 0"
    and len: "off mod BSIZE + length bs \<le> BSIZE" "off div BSIZE = bn"
  shows "changes A s (log_write a (set_block a (bsplice (off mod BSIZE) bs (blocks s a)) s))
    ((fbyte s)(ip := write_at off bs (fbyte s ip)))"
proof -
  note I = fs_invD[OF inv]
  let ?s = "log_write a (set_block a (bsplice (off mod BSIZE) bs (blocks s a)) s)"
  have v: "vpos (Data bn)" using ip by (simp add: vpos_def)
  have tk: "taken A s a" using I(8)[OF ip(1) v] a by simp
  have ad: "addr ?s i p = addr s i p" if i: "i \<in> A" "vpos p" for i p
    using i(2)
  proof (induction rule: addr_induct)
    case (entry p q k)
    have "q \<noteq> Data bn" using slot_parent(3)[OF entry(1,3)] entry(3) by (auto simp: slot_of_def rank_def split: pos.splits if_splits)
    then have "addr s i q = a \<longrightarrow> a = 0" using I(9)[OF i(1) ip(1) entry(2) v] a by auto
    then show ?case using entry.IH a(2) by (auto simp: addr_Some[OF entry(3)] ent_def)
  qed (simp add: addr_None)
  have mb: "mapblock ?s c = mapblock s c" and ib: "inoblock A ?s c = inoblock A s c" for c
    by (simp_all add: mapblock_def inoblock_def)
  have us: "used ?s c = used s c" if "c < unat (sbsize (sb s))" for c
  proof -
    have "BBLOCK c (sb s) \<noteq> a" using tk that unfolding taken_def mapblock_def by blast
    then show ?thesis by (simp add: used_def)
  qed
  have fr: "isfree ?s c = isfree s c" and tk': "taken A ?s c = taken A s c" for c
    using us[of "unat c"] by (auto simp: isfree_def taken_def mb ib)
  have "fs_inv A ?s"
    unfolding fs_inv_def ib mb fr tk' using inv ad len I(4)
    by (simp add: fs_inv_def map_reserved_def fr blk_ok_def)
  moreover have "fbyte ?s i k = ((fbyte s)(ip := write_at off bs (fbyte s ip))) i k" if k: "i \<in> A" "k < MAXFILE * BSIZE" for i k
  proof -
    let ?p = "Data (k div BSIZE)"
    have vp: "vpos ?p" by (rule vpos_data[OF k(2)])
    have same: "addr s i ?p = a \<longleftrightarrow> i = ip \<and> k div BSIZE = bn"
      using I(9)[OF ip(1) k(1) v vp, unfolded a(1), OF a(2)] a(1) by (metis pos.inject(2))
    have km: "k mod BSIZE < BSIZE" by (simp add: BSIZE_def)
    note R = range_in_block[OF len]
    show ?thesis
    proof (cases "i = ip \<and> k div BSIZE = bn")
      case True
      then have "addr s i ?p = a" using same by simp
      then have "fbyte ?s i k = bsplice (off mod BSIZE) bs (blocks s a) ! (k mod BSIZE)" "fbyte s i k = blocks s a ! (k mod BSIZE)"
        using ad[OF k(1) vp] a(2) by (simp_all add: fbyte_def Let_def)
      moreover have "k mod BSIZE < length (blocks s a)" using km I(4) by simp
      ultimately show ?thesis using R[of k] True len(1) I(4)[of a] by (simp add: nth_bsplice write_at_def)
    next
      case False
      then have "addr s i ?p \<noteq> a" using same by simp
      then have "fbyte ?s i k = fbyte s i k" using ad[OF k(1) vp] by (simp add: fbyte_def Let_def)
      then show ?thesis using R(1)[of k] False by (auto simp: write_at_def)
    qed
  qed
  ultimately show ?thesis
    unfolding changes_def using ad by (auto simp: log_write_def set_block_def kernel.truncate_def)
qed

section \<open>The list of bytes of a file\<close>

definition contents :: "'a fsk_scheme \<Rightarrow> nat \<Rightarrow> u8 list" where
  "contents s ip = map (fbyte s ip) [0..<unat (isize (geti s ip))]"

definition no_holes :: "'a fsk_scheme \<Rightarrow> nat \<Rightarrow> bool" where
  "no_holes s ip \<longleftrightarrow> unat (isize (geti s ip)) \<le> MAXFILE * BSIZE \<and>
     (\<forall>k<unat (isize (geti s ip)). addr s ip (Data (k div BSIZE)) \<noteq> 0)"

definition files_ok :: "nat set \<Rightarrow> 'a fsk_scheme \<Rightarrow> bool" where
  "files_ok A s \<longleftrightarrow> fs_inv A s \<and> (\<forall>ip\<in>A. no_holes s ip)"

lemma length_contents [simp]: "length (contents s ip) = unat (isize (geti s ip))"
  by (simp add: contents_def)

lemma addr_view:
  assumes "blocks s' = blocks s" "\<And>j. addrs (geti s' j) = addrs (geti s j)"
  shows "addr s' ip p = addr s ip p"
proof (induction p rule: measure_induct_rule[of rank])
  case (less p)
  obtain sl k where sl: "slot_of p = (sl, k)" by fastforce
  have "rank q < rank p" if "sl = Some q" for q
    using sl that by (auto simp: slot_of_def rank_def split: pos.splits if_splits)
  with less sl assms show ?case by (cases sl) (simp_all add: addr_None addr_Some ent_def)
qed

lemma fs_view:
  assumes "blocks s' = blocks s" "sb s' = sb s" "length (itable s') = length (itable s)"
    "\<And>j. addrs (geti s' j) = addrs (geti s j)" "\<And>j. inum (geti s' j) = inum (geti s j)"
  shows "fs_inv A s' = fs_inv A s" "fbyte s' = fbyte s"
proof -
  note ad = addr_view[OF assms(1,4)]
  show "fbyte s' = fbyte s" by (simp add: fbyte_def fun_eq_iff ad assms(1) Let_def)
  have "isfree s' = isfree s" "mapblock s' = mapblock s" "inoblock A s' = inoblock A s" "used s' = used s"
    using assms by (simp_all add: isfree_def used_def mapblock_def inoblock_def fun_eq_iff)
  then show "fs_inv A s' = fs_inv A s"
    using assms ad by (simp add: fs_inv_def blk_ok_def map_reserved_def taken_def)
qed

text \<open>A write to a block that belongs to no file and is not part of the free map.\<close>

lemma other_block_grows:
  assumes inv: "fs_inv A s" and b: "\<not> mapblock s b" "\<And>ip p. ip \<in> A \<Longrightarrow> vpos p \<Longrightarrow> addr s ip p \<noteq> 0 \<Longrightarrow> addr s ip p \<noteq> b"
    and d: "length d = BSIZE"
  shows "grows A s (log_write b (set_block b d s))"
proof -
  note I = fs_invD[OF inv]
  let ?s = "log_write b (set_block b d s)"
  have ad: "addr ?s i p = addr s i p" if "i \<in> A" "vpos p" for i p
    by (rule addr_cong[OF _ _ that(2)]) (use b(2)[OF that(1)] in auto)
  have mb: "mapblock ?s c = mapblock s c" and ib: "inoblock A ?s c = inoblock A s c" for c
    by (simp_all add: mapblock_def inoblock_def)
  have us: "used ?s c = used s c" if "c < unat (sbsize (sb s))" for c
  proof -
    have "BBLOCK c (sb s) \<noteq> b" using b(1) that unfolding mapblock_def by blast
    then show ?thesis by (simp add: used_def)
  qed
  have fr: "isfree ?s c = isfree s c" and tk': "taken A ?s c = taken A s c" for c
    using us[of "unat c"] by (auto simp: isfree_def taken_def mb ib)
  have "fs_inv A ?s"
    unfolding fs_inv_def ib mb fr tk' using inv ad d I(4)
    by (simp add: fs_inv_def map_reserved_def fr blk_ok_def)
  moreover have "fbyte ?s i k = fbyte s i k" if "i \<in> A" "k < MAXFILE * BSIZE" for i k
    using ad[OF that(1) vpos_data[OF that(2)]] b(2)[OF that(1) vpos_data[OF that(2)]] by (auto simp: fbyte_def Let_def)
  ultimately show ?thesis
    unfolding changes_def using ad by (auto simp: log_write_def set_block_def kernel.truncate_def)
qed

lemma iupdate_grows:
  assumes inv: "fs_inv A s" and ip: "ip \<in> A"
  shows "grows A s (iupdate ip s)" "itable (iupdate ip s) = itable s"
proof -
  note I = fs_invD[OF inv]
  let ?b = "IBLOCK (inum (geti s ip)) (sb s)"
  have ib: "inoblock A s ?b" using ip by (auto simp: inoblock_def)
  have ld: "length (put_dinode (geti s ip) (blocks s ?b)) = BSIZE"
    unfolding put_dinode_def using I(4)[of ?b] I(6)[OF ip] dinode_room[of "inum (geti s ip)"] by (simp add: NDIRECT_def)
  have "grows A s (log_write ?b (set_block ?b (put_dinode (geti s ip) (blocks s ?b)) s))"
  proof (rule other_block_grows[OF inv _ _ ld])
    fix j p assume "j \<in> A" "vpos p" "addr s j p \<noteq> 0"
    then show "addr s j p \<noteq> ?b" using I(8)[of j p] ib by (auto simp: taken_def)
  qed (use I(7)[OF ib] in simp)
  then show "grows A s (iupdate ip s)" by (simp add: iupdate_def Let_def)
  show "itable (iupdate ip s) = itable s" by (simp add: iupdate_def Let_def)
qed

section \<open>Sources of bytes\<close>

locale byte_source =
  fixes src :: "('c, 'a fsk_scheme) source" and holds :: "'c \<Rightarrow> 'a fsk_scheme \<Rightarrow> u8 list \<Rightarrow> bool"
  assumes src_take: "holds acc s (xs @ ys) \<Longrightarrow> \<exists>acc'. src (length xs) acc s = Inr (0, xs, acc') \<and> holds acc' s ys"
    and src_frame: "holds acc s xs \<Longrightarrow> kernel.truncate s' = kernel.truncate s \<Longrightarrow> holds acc s' xs"
begin

lemma writei_loop_spec:
  assumes "fs_inv A s" "ip \<in> A" "holds acc s bs" "n = tot + length bs" "off + length bs \<le> MAXFILE * BSIZE"
  shows "case writei_loop src ip n tot off acc s of Inl e \<Rightarrow> e = out_of_blocks
    | Inr (t, off', s') \<Rightarrow> t = n \<and> off' = off + length bs \<and>
        changes A s s' ((fbyte s)(ip := write_at off bs (fbyte s ip))) \<and>
        (\<forall>k. off \<le> k \<and> k < off + length bs \<longrightarrow> addr s' ip (Data (k div BSIZE)) \<noteq> 0)"
  using assms
proof (induction "length bs" arbitrary: bs tot off acc s rule: less_induct)
  case less
  let ?bn = "off div BSIZE" and ?m = "chunk (n - tot) off"
  show ?case
  proof (cases "bs = []")
    case True
    then show ?thesis using less.prems by (auto simp: writei_loop.simps[of src ip] write_at_def changes_def)
  next
    case False
    then have lt: "tot < n" using less.prems(4) by simp
    have m: "0 < ?m" "?m \<le> length bs" "off mod BSIZE + ?m \<le> BSIZE"
      using lt less.prems(4) chunk_pos[of "n - tot" off] by (auto simp: chunk_def BSIZE_def)
    define xs ys where "xs = take ?m bs" and "ys = drop ?m bs"
    have bs: "bs = xs @ ys" and lx: "length xs = ?m" using m(2) by (simp_all add: xs_def ys_def)
    have bn: "?bn < MAXFILE" using less.prems(5) False by (intro less_mult_imp_div_less) (cases bs, auto)
    note R = bmap_spec[OF less.prems(1,2) bn]
    show ?thesis
    proof (cases "bmap ip ?bn s")
      case (Inl e)
      then show ?thesis using R lt by (simp add: writei_loop.simps[of src ip] reached_def)
    next
      case (Inr r)
      then obtain a s1 where b: "bmap ip ?bn s = Inr (a, s1)" by (cases r) auto
      have g: "grows A s s1" "a \<noteq> 0" "addr s1 ip (Data ?bn) = a" using R b by (auto simp: reached_def)
      have i1: "fs_inv A s1" and k1: "kernel.truncate s1 = kernel.truncate s" using g(1) by (auto simp: changes_def)
      have "holds acc s1 (xs @ ys)" using src_frame[OF less.prems(3) k1] bs by simp
      then obtain acc' where t: "src ?m acc s1 = Inr (0, xs, acc')" "holds acc' s1 ys" using src_take lx by metis
      define s2 where "s2 = log_write a (set_block a (bsplice (off mod BSIZE) xs (blocks s1 a)) s1)"
      have w: "changes A s1 s2 ((fbyte s1)(ip := write_at off xs (fbyte s1 ip)))"
        unfolding s2_def by (rule write_block[OF i1 less.prems(2) bn g(3,2)]) (use m lx in auto)
      have h2: "holds acc' s2 ys" using src_frame[OF t(2)] w by (auto simp: changes_def)
      have "case writei_loop src ip n (tot + ?m) (off + ?m) acc' s2 of Inl e \<Rightarrow> e = out_of_blocks
        | Inr (t, off', s') \<Rightarrow> t = n \<and> off' = off + ?m + length ys \<and>
            changes A s2 s' ((fbyte s2)(ip := write_at (off + ?m) ys (fbyte s2 ip))) \<and>
            (\<forall>k. off + ?m \<le> k \<and> k < off + ?m + length ys \<longrightarrow> addr s' ip (Data (k div BSIZE)) \<noteq> 0)"
        by (rule less.hyps) (use w h2 less.prems m lx bs in \<open>auto simp: changes_def\<close>)
      moreover have "writei_loop src ip n tot off acc s = writei_loop src ip n (tot + ?m) (off + ?m) acc' s2"
        using lt b t(1) by (subst writei_loop.simps) (simp add: Let_def s2_def)
      moreover have "changes A s s' ((fbyte s)(ip := write_at off bs (fbyte s ip)))"
        if c: "changes A s2 s' ((fbyte s2)(ip := write_at (off + ?m) ys (fbyte s2 ip)))" for s'
      proof (rule changes_cong[OF changes_trans[OF changes_trans[OF g(1) w] c]])
        fix j i assume j: "j \<in> A" "i < MAXFILE * BSIZE"
        have "fbyte s2 j i = ((fbyte s1)(ip := write_at off xs (fbyte s1 ip))) j i" "fbyte s1 j i = fbyte s j i"
          using w g(1) j by (auto simp: changes_def)
        then show "((fbyte s2)(ip := write_at (off + ?m) ys (fbyte s2 ip))) j i = ((fbyte s)(ip := write_at off bs (fbyte s ip))) j i"
          using lx by (auto simp: bs write_at_def nth_append)
      qed
      moreover have "addr s' ip (Data (k div BSIZE)) \<noteq> 0"
        if c: "changes A s2 s' F" "off \<le> k" "k < off + ?m" for s' F k
      proof -
        have "k div BSIZE = ?bn" using range_in_block(1)[OF m(3) refl, of k] c(2,3) by simp
        then show ?thesis
          using changes_trans[OF w c(1)] g(2,3) less.prems(2) bn by (auto simp: changes_def vpos_def)
      qed
      ultimately show ?thesis using lx by (fastforce simp: bs split: sum.splits)
    qed
  qed
qed

text \<open>
  A write of \<open>bs\<close> at \<open>off\<close>: it replaces the bytes from \<open>off\<close> on and extends the file if they reach beyond its end.
\<close>

lemma writei_from_spec:
  assumes ok: "files_ok A s" and ip: "ip \<in> A" and h: "holds acc s bs" "length bs = unat n"
    and off: "off \<le> isize (geti s ip)" "unat off + unat n \<le> MAXFILE * BSIZE"
  shows "case writei_from src ip off n acc s of Inl e \<Rightarrow> e = out_of_blocks
    | Inr (r, s') \<Rightarrow> r = int (length bs) \<and> files_ok A s' \<and> contents s' ip = bsplice (unat off) bs (contents s ip) \<and>
        (\<forall>j\<in>A. j \<noteq> ip \<longrightarrow> contents s' j = contents s j) \<and> kernel.truncate s' = kernel.truncate s \<and> sb s' = sb s \<and>
        (\<forall>j. itype (geti s' j) = itype (geti s j) \<and> idev (geti s' j) = idev (geti s j) \<and> inum (geti s' j) = inum (geti s j))"
proof -
  have inv: "fs_inv A s" and nh: "\<And>j. j \<in> A \<Longrightarrow> no_holes s j" using ok by (auto simp: files_ok_def)
  have M: "MAXFILE * BSIZE < 2 ^ 31" by (simp add: MAXFILE_def fs_sizes)
  have sum: "unat (off + n) = unat off + unat n" using off(2) M by (intro unat_add_lem[THEN iffD1]) simp
  have g: "\<not> off > isize (geti s ip)" "\<not> off + n < off" "\<not> unat (off + n) > MAXFILE * BSIZE"
    using off sum by (auto simp: word_less_nat_alt word_le_nat_alt)
  note L = writei_loop_spec[OF inv ip h(1), of "unat n" 0 "unat off", simplified h(2)]
  show ?thesis
  proof (cases "writei_loop src ip (unat n) 0 (unat off) acc s")
    case (Inl e)
    then show ?thesis using L off(2) g h(2) by (simp add: writei_from_def)
  next
    case (Inr r)
    then obtain t o' s1 where r: "writei_loop src ip (unat n) 0 (unat off) acc s = Inr (t, o', s1)" by (cases r) auto
    with L off(2) have t: "t = unat n" "o' = unat off + unat n" and c: "changes A s s1 ((fbyte s)(ip := write_at (unat off) bs (fbyte s ip)))"
      and al: "\<And>k. unat off \<le> k \<Longrightarrow> k < unat off + unat n \<Longrightarrow> addr s1 ip (Data (k div BSIZE)) \<noteq> 0" by auto
    note m = changes_meta[OF c]
    define sz where "sz = max (isize (geti s ip)) (off + n)"
    define s2 where "s2 = (if o' > unat (isize (geti s1 ip)) then upd_inode ip (\<lambda>q. q\<lparr>isize := of_nat o'\<rparr>) s1 else s1)"
    have i1: "fs_inv A s1" and len: "length (itable s1) = length (itable s)" using c by (auto simp: changes_def)
    have ipl: "ip < length (itable s1)" using fs_invD(5)[OF inv ip] len by simp
    have o': "o' = unat (off + n)" using t(2) sum by simp
    have sz2: "isize (geti s2 j) = (if j = ip then sz else isize (geti s j))" for j
      using ipl m(1)[of j] unfolding s2_def sz_def max_def o' by (cases "j = ip") (auto simp: word_le_nat_alt word_unat_eq_iff)
    have v: "fs_inv A s2" "fbyte s2 = fbyte s1" "addr s2 j p = addr s1 j p" for j p
      using fs_view(1)[of s2 s1 A] fs_view(2)[of s2 s1] i1 addr_view[of s2 s1 j p] ipl by (auto simp: s2_def nth_list_update)
    define s3 where "s3 = iupdate ip s2"
    have u: "grows A s2 s3" "itable s3 = itable s2" using iupdate_grows[OF v(1) ip] by (auto simp: s3_def)
    have res: "writei_from src ip off n acc s = Inr (c_int (int (unat n)), s3)"
      using g r t by (simp add: writei_from_def s3_def s2_def Let_def)
    have usz: "unat sz = max (unat (isize (geti s ip))) (unat off + unat n)"
      using sum by (auto simp: sz_def max_def word_le_nat_alt)
    have szM: "unat sz \<le> MAXFILE * BSIZE" using nh[OF ip] off(2) by (simp add: usz no_holes_def)
    have fb: "fbyte s3 j k = ((fbyte s)(ip := write_at (unat off) bs (fbyte s ip))) j k" if "j \<in> A" "k < MAXFILE * BSIZE" for j k
      using u(1) c that v(2) by (simp add: changes_def)
    have ad: "addr s3 j (Data (k div BSIZE)) \<noteq> 0" if j: "j \<in> A" "k < MAXFILE * BSIZE" "k < unat (isize (geti s3 j))" for j k
    proof -
      have "addr s1 j (Data (k div BSIZE)) \<noteq> 0"
      proof (cases "k < unat (isize (geti s j))")
        case True
        then show ?thesis using nh[OF j(1)] c j(1) vpos_data[OF j(2)] by (auto simp: no_holes_def changes_def)
      next
        case False
        then have "j = ip" "k < unat off + unat n" "unat off \<le> k"
          using j(3) off(1) by (auto simp: u(2) sz2 usz word_le_nat_alt split: if_splits)
        then show ?thesis using al by simp
      qed
      then show ?thesis using u(1) v(3) j(1) vpos_data[OF j(2)] by (auto simp: changes_def)
    qed
    have "no_holes s3 j" if "j \<in> A" for j
      using ad[OF that] szM nh[OF that] by (auto simp: no_holes_def u(2) sz2)
    then have "files_ok A s3" using u(1) by (auto simp: files_ok_def changes_def)
    moreover have "contents s3 j = contents s j" if "j \<in> A" "j \<noteq> ip" for j
      using fb[OF that(1)] nh[OF that(1)] that(2) by (auto simp: contents_def u(2) sz2 no_holes_def)
    moreover have "contents s3 ip = bsplice (unat off) bs (contents s ip)"
    proof (rule nth_equalityI)
      show "length (contents s3 ip) = length (bsplice (unat off) bs (contents s ip))"
        using off(1) h(2) by (simp add: u(2) sz2 usz bsplice_def word_le_nat_alt)
    next
      fix k assume "k < length (contents s3 ip)"
      then have k: "k < unat sz" by (simp add: u(2) sz2)
      then show "contents s3 ip ! k = bsplice (unat off) bs (contents s ip) ! k"
        using fb[OF ip, of k] szM off(1) h(2)
        by (auto simp: contents_def u(2) sz2 usz bsplice_def nth_append write_at_def word_le_nat_alt min_def)
    qed
    moreover have "c_int (int (unat n)) = int (unat n)" by (rule c_int_of_nat) (use off(2) M in simp)
    moreover have "kernel.truncate s3 = kernel.truncate s" "sb s3 = sb s"
      using u(1) c by (auto simp: changes_def s2_def kernel.truncate_def upd_inode_def split: if_splits)
    moreover have "itype (geti s3 j) = itype (geti s j) \<and> idev (geti s3 j) = idev (geti s j) \<and> inum (geti s3 j) = inum (geti s j)" for j
      using m(2-4)[of j] ipl by (auto simp: u(2) s2_def nth_list_update)
    ultimately show ?thesis using res h(2) by simp
  qed
qed

end

end
