(* ===== verification/FsIo.thy ===== *)
theory FsIo
  imports FsRw VmCopy
begin

text \<open>
  The sources and sinks of \<open>writei\<close> and \<open>readi\<close>: a local variable, kernel memory, and the memory of the
  running process.
\<close>

section \<open>Sources\<close>

interpretation lsrc: byte_source from_local "\<lambda>acc s bs. acc = bs"
  by unfold_locales (simp_all add: from_local_def)

text \<open>User memory that is mapped, accessible to the user and below the end of the address space.\<close>

definition user_holds :: "u64 \<Rightarrow> 'a kernel_scheme \<Rightarrow> u8 list \<Rightarrow> bool" where
  "user_holds a s bs \<longleftrightarrow> (\<exists>p e. myproc s = Some p \<and> pt_wf 2 (mem s) e (pagetable (getp s p)) \<and>
     unat a + length bs \<le> 2 ^ 64 \<and>
     (\<forall>i<length bs. \<exists>pa. uaddr s (pagetable (getp s p)) (a + of_nat i) = Some pa \<and> mem s pa = bs ! i))"

definition mem_holds :: "bool \<Rightarrow> u64 \<Rightarrow> 'a fsk_scheme \<Rightarrow> u8 list \<Rightarrow> bool" where
  "mem_holds user a s bs = (if user then user_holds a s bs else \<forall>i<length bs. mem s (a + of_nat i) = bs ! i)"

lemma truncate_eq:
  assumes "kernel.truncate s' = kernel.truncate s"
  shows "mem s' = mem s" "procs s' = procs s" "myproc s' = myproc s"
  using assms by (simp_all add: kernel.truncate_def myproc_def mycpu_def cpuid_def)

lemma uaddr_mem: "mem s' = mem s \<Longrightarrow> uaddr s' pt = uaddr s pt"
  by (rule ext) (simp add: uaddr_def)

lemma user_holds_copyin:
  assumes "user_holds a s (xs @ ys)"
  shows "either_copyin True a (length xs) s = Inr (0, xs)" "user_holds (a + of_nat (length xs)) s ys"
proof -
  let ?pt = "\<lambda>p. pagetable (getp s p)"
  obtain p e where p: "myproc s = Some p" "pt_wf 2 (mem s) e (?pt p)" "unat a + length (xs @ ys) \<le> 2 ^ 64"
    and b: "\<And>i. i < length (xs @ ys) \<Longrightarrow> \<exists>pa. uaddr s (?pt p) (a + of_nat i) = Some pa \<and> mem s pa = (xs @ ys) ! i"
    using assms unfolding user_holds_def by blast
  have x: "uaddr s (?pt p) (a + of_nat i) \<noteq> None \<and> mem s (the (uaddr s (?pt p) (a + of_nat i))) = xs ! i" if "i < length xs" for i
    using b[of i] that by (auto simp: nth_append)
  then have "copyin kalloc (?pt p) a (length xs) s = Inr (0, map (\<lambda>i. mem s (the (uaddr s (?pt p) (a + of_nat i)))) [0..<length xs])"
    using p by (intro copyin_bytes) auto
  also have "map (\<lambda>i. mem s (the (uaddr s (?pt p) (a + of_nat i)))) [0..<length xs] = xs"
    by (rule nth_equalityI) (use x in auto)
  finally show "either_copyin True a (length xs) s = Inr (0, xs)" using p(1) by (simp add: either_copyin_def the_proc_def)
  have "\<exists>pa. uaddr s (?pt p) (a + of_nat (length xs) + of_nat i) = Some pa \<and> mem s pa = ys ! i" if "i < length ys" for i
    using b[of "length xs + i"] that by (auto simp: nth_append add.assoc)
  moreover have "unat (a + of_nat (length xs)) + length ys \<le> 2 ^ 64"
  proof -
    have "unat (a + of_nat (length xs)) \<le> unat a + unat (of_nat (length xs) :: u64)" by (simp add: unat_word_ariths(1))
    also have "\<dots> \<le> unat a + length xs" by (simp add: unat_of_nat)
    finally show ?thesis using p(3) by simp
  qed
  ultimately show "user_holds (a + of_nat (length xs)) s ys" unfolding user_holds_def using p by blast
qed

interpretation msrc: byte_source "from_mem user" "mem_holds user" for user
proof (unfold_locales, goal_cases)
  case h: (1 acc s xs ys)
  show ?case
  proof (cases user)
    case True
    then show ?thesis using h user_holds_copyin[of acc s xs ys] by (simp add: mem_holds_def from_mem_def)
  next
    case False
    have "mem s (acc + of_nat i) = xs ! i" if "i < length xs" for i using h False that by (auto simp: mem_holds_def nth_append)
    then have "read_bytes (mem s) acc (length xs) = xs" by (intro nth_equalityI) (auto simp: read_bytes_def)
    moreover have "mem s (acc + of_nat (length xs) + of_nat i) = ys ! i" if "i < length ys" for i
      using h False that by (auto simp: mem_holds_def nth_append add.assoc dest!: spec[of _ "length xs + i"])
    ultimately show ?thesis using False by (simp add: mem_holds_def from_mem_def either_copyin_def)
  qed
next
  case (2 acc s xs s')
  note t = truncate_eq[OF 2(2)]
  have "user_holds acc s' xs = user_holds acc s xs" unfolding user_holds_def t uaddr_mem[OF t(1)] ..
  with 2(1) show ?case by (simp add: mem_holds_def t(1))
qed

section \<open>Sinks\<close>

definition fs_part :: "'a fsk_scheme \<Rightarrow> superblock \<times> (u32 \<Rightarrow> u8 list) \<times> inode list" where
  "fs_part s = (sb s, blocks s, itable s)"

lemma fs_part_view:
  assumes "fs_part s' = fs_part s"
  shows "files_ok A s' = files_ok A s" "contents s' = contents s"
proof -
  have e: "sb s' = sb s" "blocks s' = blocks s" "itable s' = itable s" using assms by (auto simp: fs_part_def)
  have "fs_inv A s' = fs_inv A s" "fbyte s' = fbyte s" by (rule fs_view; simp add: e)+
  moreover have "addr s' ip p = addr s ip p" for ip p by (rule addr_view) (simp_all add: e)
  ultimately show "files_ok A s' = files_ok A s" "contents s' = contents s"
    by (auto simp: files_ok_def no_holes_def contents_def fun_eq_iff e)
qed

locale byte_sink =
  fixes snk :: "('c, 'a fsk_scheme) sink" and room :: "'c \<Rightarrow> 'a fsk_scheme \<Rightarrow> u8 list \<Rightarrow> bool"
    and delivered :: "'c \<Rightarrow> 'a fsk_scheme \<Rightarrow> u8 list \<Rightarrow> 'c \<Rightarrow> 'a fsk_scheme \<Rightarrow> bool"
  assumes sink_nil: "delivered acc s [] acc s"
    and sink_put: "room acc s (xs @ ys) \<Longrightarrow> \<exists>acc' s'. snk xs acc s = Inr (0, acc', s') \<and> room acc' s' ys \<and>
      fs_part s' = fs_part s \<and> (\<forall>acc'' s''. delivered acc' s' ys acc'' s'' \<longrightarrow> delivered acc s (xs @ ys) acc'' s'')"
begin

lemma readi_loop_spec:
  assumes "files_ok A s" "ip \<in> A" "room acc s (bslice off (n - tot) (contents s ip))" "tot \<le> n"
    "off + (n - tot) \<le> unat (isize (geti s ip))" "n < 2 ^ 31"
  shows "\<exists>acc' s'. readi_loop snk ip n tot off acc s = Inr (int n, acc', s') \<and>
    delivered acc s (bslice off (n - tot) (contents s ip)) acc' s' \<and> fs_part s' = fs_part s"
  using assms
proof (induction "n - tot" arbitrary: tot off acc s rule: less_induct)
  case less
  let ?bn = "off div BSIZE" and ?m = "chunk (n - tot) off"
  show ?case
  proof (cases "tot < n")
    case False
    then show ?thesis using less.prems c_int_of_nat[of n] by (simp add: readi_loop.simps[of snk ip] bslice_def sink_nil)
  next
    case lt: True
    have m: "0 < ?m" "?m \<le> n - tot" "off mod BSIZE + ?m \<le> BSIZE"
      using lt chunk_pos[of "n - tot" off] by (auto simp: chunk_def BSIZE_def)
    have inv: "fs_inv A s" and nh: "no_holes s ip" using less.prems(1,2) by (auto simp: files_ok_def)
    have offlt: "off < unat (isize (geti s ip))" using lt less.prems(5) by simp
    have bn: "?bn < MAXFILE" using offlt nh by (intro less_mult_imp_div_less) (simp add: no_holes_def)
    have a: "addr s ip (Data ?bn) \<noteq> 0" using offlt nh by (simp add: no_holes_def)
    have b: "bmap ip ?bn s = Inr (addr s ip (Data ?bn), s)"
      using bmap_spec[OF inv less.prems(2) bn] a by (auto simp: reached_def split: sum.splits)
    define xs ys where "xs = bslice off ?m (contents s ip)" and "ys = bslice (off + ?m) (n - tot - ?m) (contents s ip)"
    have split: "bslice off (n - tot) (contents s ip) = xs @ ys"
      unfolding xs_def ys_def by (rule bslice_split[OF m(2)])
    have xs: "bslice (off mod BSIZE) ?m (blocks s (addr s ip (Data ?bn))) = xs"
    proof (rule nth_equalityI)
      fix i assume "i < length (bslice (off mod BSIZE) ?m (blocks s (addr s ip (Data ?bn))))"
      then have i: "i < ?m" using m(3) fs_invD(4)[OF inv] by simp
      then have "(off + i) div BSIZE = ?bn" "(off + i) mod BSIZE = off mod BSIZE + i"
        using range_in_block[OF m(3) refl, of "off + i"] by auto
      then show "bslice (off mod BSIZE) ?m (blocks s (addr s ip (Data ?bn))) ! i = xs ! i"
        using i m a less.prems(5) fs_invD(4)[OF inv] by (simp add: xs_def nth_bslice contents_def fbyte_def)
    qed (use m less.prems(5) fs_invD(4)[OF inv] in \<open>simp add: xs_def\<close>)
    obtain acc1 s1 where s1: "snk xs acc s = Inr (0, acc1, s1)" "room acc1 s1 ys" "fs_part s1 = fs_part s"
      "\<And>acc'' s''. delivered acc1 s1 ys acc'' s'' \<Longrightarrow> delivered acc s (xs @ ys) acc'' s''"
      using sink_put[of acc s xs ys] less.prems(3) split by auto
    note v = fs_part_view[OF s1(3)]
    have it: "itable s1 = itable s" using s1(3) by (simp add: fs_part_def)
    have nt: "n - (tot + ?m) = n - tot - ?m" by simp
    have "\<exists>acc' s'. readi_loop snk ip n (tot + ?m) (off + ?m) acc1 s1 = Inr (int n, acc', s') \<and>
      delivered acc1 s1 (bslice (off + ?m) (n - (tot + ?m)) (contents s1 ip)) acc' s' \<and> fs_part s' = fs_part s1"
      by (rule less.hyps) (use m lt less.prems s1(2) in \<open>auto simp: v it ys_def\<close>)
    moreover have "readi_loop snk ip n tot off acc s = readi_loop snk ip n (tot + ?m) (off + ?m) acc1 s1"
      using lt b xs s1(1) by (subst readi_loop.simps) (simp add: Let_def)
    ultimately obtain acc' s' where f: "readi_loop snk ip n tot off acc s = Inr (int n, acc', s')"
      "delivered acc1 s1 ys acc' s'" "fs_part s' = fs_part s1" unfolding v nt ys_def[symmetric] by metis
    then show ?thesis unfolding split using s1(3) s1(4)[OF f(2)] by auto
  qed
qed

text \<open>A read of \<open>n\<close> bytes at \<open>off\<close> delivers that part of the file, shorter at its end, and nothing beyond it.\<close>

lemma readi_to_spec:
  assumes ok: "files_ok A s" and ip: "ip \<in> A" and rm: "room acc s (bslice (unat off) (unat n) (contents s ip))"
    and sum: "unat off + unat n < 2 ^ 32"
  shows "\<exists>acc' s'. readi_to snk ip off n acc s = Inr (int (length (bslice (unat off) (unat n) (contents s ip))), acc', s') \<and>
    delivered acc s (bslice (unat off) (unat n) (contents s ip)) acc' s' \<and> fs_part s' = fs_part s"
proof -
  let ?sz = "isize (geti s ip)"
  define n' where "n' = (if off + n > ?sz then ?sz - off else n)"
  have un: "unat (off + n) = unat off + unat n" using sum by (intro unat_add_lem[THEN iffD1]) simp
  show ?thesis
  proof (cases "off > ?sz")
    case True
    then have "bslice (unat off) (unat n) (contents s ip) = []" by (simp add: bslice_def word_less_nat_alt)
    then show ?thesis using True sink_nil by (auto simp: readi_to_def)
  next
    case False
    then have le: "unat off \<le> unat ?sz" by (simp add: word_le_nat_alt not_less)
    have n': "unat n' = min (unat n) (unat ?sz - unat off)"
      using un le by (auto simp: n'_def word_less_nat_alt unat_sub word_le_nat_alt)
    have bs: "bslice (unat off) (unat n') (contents s ip) = bslice (unat off) (unat n) (contents s ip)"
      by (simp add: bslice_def n' min_def)
    have "unat ?sz < 2 ^ 31" using ok ip by (auto simp: files_ok_def no_holes_def MAXFILE_def fs_sizes)
    then have "unat n' < 2 ^ 31" by (simp add: n')
    from readi_loop_spec[OF ok ip, of acc "unat off" "unat n'" 0] rm this le
    have "\<exists>acc' s'. readi_loop snk ip (unat n') 0 (unat off) acc s = Inr (int (unat n'), acc', s') \<and>
        delivered acc s (bslice (unat off) (unat n) (contents s ip)) acc' s' \<and> fs_part s' = fs_part s"
      unfolding diff_zero bs by (simp add: n')
    moreover have "readi_to snk ip off n acc s = readi_loop snk ip (unat n') 0 (unat off) acc s"
      using False un by (simp add: readi_to_def n'_def word_less_nat_alt)
    moreover have "length (bslice (unat off) (unat n) (contents s ip)) = unat n'" by (simp add: bslice_def n')
    ultimately show ?thesis by simp
  qed
qed

end

interpretation lsnk: byte_sink to_local "\<lambda>acc s bs. True" "\<lambda>acc s bs acc' s'. acc' = acc @ bs \<and> s' = s"
  by unfold_locales (simp_all add: to_local_def)

text \<open>User memory that can take \<open>bs\<close>: mapped, each byte once, and none of it in the page table itself.\<close>

definition user_room :: "u64 \<Rightarrow> 'a kernel_scheme \<Rightarrow> u8 list \<Rightarrow> bool" where
  "user_room a s bs \<longleftrightarrow> (\<exists>p e. myproc s = Some p \<and> pt_wf 2 (mem s) e (pagetable (getp s p)) \<and>
     unat a + length bs \<le> 2 ^ 64 \<and>
     (\<forall>i<length bs. \<exists>pa. uaddr s (pagetable (getp s p)) (a + of_nat i) = Some pa \<and>
        PGROUNDDOWN pa \<notin> tpages 2 (mem s) (pagetable (getp s p))) \<and>
     (\<forall>i<length bs. \<forall>j<length bs. uaddr s (pagetable (getp s p)) (a + of_nat i) = uaddr s (pagetable (getp s p)) (a + of_nat j) \<longrightarrow> i = j))"

text \<open>\<open>bs\<close> is at user address \<open>a\<close>, and no other byte of memory has changed.\<close>

definition user_delivered :: "u64 \<Rightarrow> 'a kernel_scheme \<Rightarrow> u8 list \<Rightarrow> u64 \<Rightarrow> 'a kernel_scheme \<Rightarrow> bool" where
  "user_delivered a s bs a' s' \<longleftrightarrow> a' = a + of_nat (length bs) \<and> s' = s\<lparr>mem := mem s'\<rparr> \<and>
     (\<forall>i<length bs. mem s' (the (uaddr s (pagetable (getp s (the (myproc s)))) (a + of_nat i))) = bs ! i) \<and>
     (\<forall>x. (\<forall>i<length bs. uaddr s (pagetable (getp s (the (myproc s)))) (a + of_nat i) \<noteq> Some x) \<longrightarrow> mem s' x = mem s x)"

lemma user_put:
  assumes "user_room a s (xs @ ys)"
  shows "\<exists>s'. either_copyout True a xs s = Inr (0, s') \<and> s' = s\<lparr>mem := mem s'\<rparr> \<and> user_room (a + of_nat (length xs)) s' ys \<and>
    (\<forall>a'' s''. user_delivered (a + of_nat (length xs)) s' ys a'' s'' \<longrightarrow> user_delivered a s (xs @ ys) a'' s'')"
proof -
  obtain p e where p: "myproc s = Some p" "pt_wf 2 (mem s) e (pagetable (getp s p))" "unat a + length (xs @ ys) \<le> 2 ^ 64"
    and b: "\<And>i. i < length (xs @ ys) \<Longrightarrow> \<exists>pa. uaddr s (pagetable (getp s p)) (a + of_nat i) = Some pa \<and>
        PGROUNDDOWN pa \<notin> tpages 2 (mem s) (pagetable (getp s p))"
    and inj: "\<And>i j. i < length (xs @ ys) \<Longrightarrow> j < length (xs @ ys) \<Longrightarrow>
        uaddr s (pagetable (getp s p)) (a + of_nat i) = uaddr s (pagetable (getp s p)) (a + of_nat j) \<Longrightarrow> i = j"
    using assms unfolding user_room_def by blast
  let ?pt = "pagetable (getp s p)"
  let ?u = "\<lambda>i. uaddr s ?pt (a + of_nat i)"
  obtain m where m: "copyout kalloc ?pt a xs s = Inr (0, s\<lparr>mem := m\<rparr>)"
    "\<And>i. i < length xs \<Longrightarrow> m (the (?u i)) = xs ! i" "\<And>x. (\<forall>i<length xs. ?u i \<noteq> Some x) \<Longrightarrow> m x = mem s x"
    using copyout_bytes[of s e ?pt a xs kalloc] p b inj by fastforce
  let ?s = "s\<lparr>mem := m\<rparr>"
  let ?P = "{PGROUNDDOWN pa | pa i. i < length xs \<and> ?u i = Some pa}"
  have so: "same_outside ?P (mem s) m" unfolding same_outside_def using m(3) by blast
  have "x \<notin> tpages 2 (mem s) ?pt" if "x \<in> ?P" for x
  proof -
    from that obtain pa i where i: "x = PGROUNDDOWN pa" "i < length xs" "?u i = Some pa" by blast
    then show ?thesis using b[of i] by auto
  qed
  then have dj: "?P \<inter> tpages 2 (mem s) ?pt = {}" by blast
  note fr = tree_frameD[OF p(2) so dj]
  have ua: "uaddr ?s ?pt = uaddr s ?pt" by (rule uaddr_frame[OF p(2) so dj])
  have my: "myproc ?s = Some p" using p(1) by (simp add: myproc_def mycpu_def cpuid_def)
  have sh: "a + of_nat (length xs) + of_nat i = a + of_nat (length xs + i)" for i by (simp add: add.assoc)
  have "unat (a + of_nat (length xs)) \<le> unat a + length xs"
    by (simp add: unat_word_ariths(1) unat_of_nat)
  then have "user_room (a + of_nat (length xs)) ?s ys"
    unfolding user_room_def using my fr(1,2) p(3) b[of "length xs + i" for i] inj[of "length xs + i" "length xs + j" for i j]
    by (intro exI[of _ p] exI[of _ e]) (auto simp: ua sh simp del: of_nat_add)
  moreover have "user_delivered a s (xs @ ys) a'' s''" if d: "user_delivered (a + of_nat (length xs)) ?s ys a'' s''" for a'' s''
  proof -
    have d': "a'' = a + of_nat (length (xs @ ys))" "s'' = s\<lparr>mem := mem s''\<rparr>" "\<And>i. i < length ys \<Longrightarrow> mem s'' (the (?u (length xs + i))) = ys ! i"
      "\<And>x. (\<forall>i<length ys. ?u (length xs + i) \<noteq> Some x) \<Longrightarrow> mem s'' x = m x"
      using d my by (auto simp: user_delivered_def ua sh add.assoc simp del: of_nat_add simp flip: of_nat_add)
    have "mem s'' (the (?u i)) = (xs @ ys) ! i" if i: "i < length (xs @ ys)" for i
    proof (cases "i < length xs")
      case True
      obtain pa where "?u i = Some pa" using b[OF i] by blast
      moreover have "?u (length xs + j) \<noteq> ?u i" if "j < length ys" for j
        using inj[OF i, of "length xs + j"] True that by auto
      ultimately have "mem s'' (the (?u i)) = m (the (?u i))" by (intro d'(4)) (simp del: of_nat_add)
      then show ?thesis using m(2)[OF True] True by (simp add: nth_append)
    next
      case False
      then show ?thesis using d'(3)[of "i - length xs"] i by (simp add: nth_append)
    qed
    moreover have "mem s'' x = mem s x" if "\<forall>i<length (xs @ ys). ?u i \<noteq> Some x" for x
      using d'(4)[of x] m(3)[of x] that by (simp del: of_nat_add)
    ultimately show ?thesis using d'(1,2) p(1) by (simp add: user_delivered_def)
  qed
  ultimately show ?thesis using m(1) p(1) by (intro exI[of _ ?s]) (simp add: either_copyout_def the_proc_def)
qed

interpretation usnk: byte_sink "to_mem True" user_room user_delivered
proof (unfold_locales, goal_cases)
  case (1 acc s)
  then show ?case by (simp add: user_delivered_def)
next
  case (2 acc s xs ys)
  from user_put[OF 2] obtain s' where s': "either_copyout True acc xs s = Inr (0, s')" "s' = s\<lparr>mem := mem s'\<rparr>"
    "user_room (acc + of_nat (length xs)) s' ys"
    "\<And>a'' s''. user_delivered (acc + of_nat (length xs)) s' ys a'' s'' \<Longrightarrow> user_delivered acc s (xs @ ys) a'' s''" by blast
  have "fs_part s' = fs_part s" by (subst s'(2)) (simp add: fs_part_def)
  then show ?case using s' by (auto simp: to_mem_def)
qed

end
