(* ===== verification/FsDir.thy ===== *)
theory FsDir
  imports FsIo
begin

text \<open>
  Directories as lists of entries in the contents of a file: what \<open>dirlookup\<close> finds and where \<open>dirlink\<close> writes.
\<close>

section \<open>Names\<close>

lemma namecmp_strncpy: "strncmp p (strncpy p n) n = 0"
proof (induction n arbitrary: p)
  case (Suc n)
  show ?case
  proof (cases p)
    case Nil
    then show ?thesis by (simp add: strncpy_def cstr_def)
  next
    case (Cons a q)
    then show ?thesis using Suc[of q] by (simp add: strncpy_def cstr_def Let_def)
  qed
qed simp

lemma length_strncpy [simp]: "length (strncpy p n) = n"
  by (simp add: strncpy_def)

lemma dirent_fields:
  "de_inum (mk_dirent n name) = n" "de_name (mk_dirent n name) = strncpy name DIRSIZ" "length (mk_dirent n name) = sizeof_dirent"
  by (simp_all add: de_inum_def de_name_def mk_dirent_def bslice_append sizeof_dirent_def DIRSIZ_def bslice_def)

section \<open>Entries\<close>

definition dir_ok :: "nat set \<Rightarrow> 'a fsk_scheme \<Rightarrow> nat \<Rightarrow> bool" where
  "dir_ok A s dp \<longleftrightarrow> files_ok A s \<and> dp \<in> A \<and> itype (geti s dp) = T_DIR \<and> sizeof_dirent dvd unat (isize (geti s dp))"

definition dirent_at :: "u8 list \<Rightarrow> nat \<Rightarrow> u8 list" where
  "dirent_at d off = bslice off sizeof_dirent d"

definition names_entry :: "u8 list \<Rightarrow> u8 list \<Rightarrow> bool" where
  "names_entry name de \<longleftrightarrow> de_inum de \<noteq> 0 \<and> namecmp name (de_name de) = 0"

text \<open>The first entry with a name, as its offset.\<close>

definition dir_find :: "u8 list \<Rightarrow> u8 list \<Rightarrow> nat option" where
  "dir_find d name = find (\<lambda>off. names_entry name (dirent_at d off)) (map (\<lambda>k. k * sizeof_dirent) [0..<length d div sizeof_dirent])"

lemma dir_offs_eq:
  assumes "sizeof_dirent dvd unat sz"
  shows "dir_offs sz = map (\<lambda>k. k * sizeof_dirent) [0..<unat sz div sizeof_dirent]"
proof -
  obtain k where "unat sz = 16 * k" using assms by (auto simp: sizeof_dirent_def)
  then show ?thesis by (simp add: dir_offs_def sizeof_dirent_def)
qed

lemma read_dirent_spec:
  assumes "files_ok A s" "dp \<in> A" "off + sizeof_dirent \<le> unat (isize (geti s dp))"
  shows "read_dirent msg dp off s = Inr (dirent_at (contents s dp) off, s)"
proof -
  have sz: "unat (isize (geti s dp)) < 2 ^ 31" using assms by (auto simp: files_ok_def no_holes_def MAXFILE_def fs_sizes)
  have u: "unat (of_nat off :: u32) = off" "unat (of_nat sizeof_dirent :: u32) = sizeof_dirent"
    using assms(3) sz by (simp_all add: unat_of_nat sizeof_dirent_def)
  have "\<exists>acc' s'. readi_to to_local dp (of_nat off) (of_nat sizeof_dirent) [] s =
      Inr (int (length (bslice off sizeof_dirent (contents s dp))), acc', s') \<and>
      (acc' = [] @ bslice off sizeof_dirent (contents s dp) \<and> s' = s) \<and> fs_part s' = fs_part s"
    using lsnk.readi_to_spec[OF assms(1,2), of "of_nat off" "of_nat sizeof_dirent" "[]"] assms(3) sz by (simp add: u)
  then show ?thesis using assms(3) by (auto simp: read_dirent_def dirent_at_def)
qed

lemma dirlookup_scan_spec:
  assumes "files_ok A s" "dp \<in> A" "\<And>off. off \<in> set offs \<Longrightarrow> off + sizeof_dirent \<le> unat (isize (geti s dp))"
  shows "dirlookup_scan dp name offs s =
    (case find (\<lambda>off. names_entry name (dirent_at (contents s dp) off)) offs of None \<Rightarrow> Inr (None, s)
     | Some off \<Rightarrow> bindR (iget (idev (geti s dp)) (ucast (de_inum (dirent_at (contents s dp) off))) s) (\<lambda>(ip, s2). Inr (Some (ip, off), s2)))"
  using assms(3) by (induction offs) (auto simp: read_dirent_spec[OF assms(1,2)] names_entry_def)

lemma dirlink_scan_spec:
  assumes "files_ok A s" "dp \<in> A" "\<And>off. off \<in> set offs \<Longrightarrow> off + sizeof_dirent \<le> unat (isize (geti s dp))"
  shows "dirlink_scan dp offs s = Inr (find (\<lambda>off. de_inum (dirent_at (contents s dp) off) = 0) offs, s)"
  using assms(3) by (induction offs) (auto simp: read_dirent_spec[OF assms(1,2)])

lemma dir_off_bound:
  assumes "off \<in> set (map (\<lambda>k. k * sizeof_dirent) [0..<n div sizeof_dirent])"
  shows "off + sizeof_dirent \<le> n"
proof -
  obtain k where k: "off = k * 16" "k < n div 16" using assms by (auto simp: sizeof_dirent_def)
  then have "Suc k * 16 \<le> n div 16 * 16" by (intro mult_le_mono1) simp
  also have "\<dots> \<le> n" by simp
  finally show ?thesis using k by (simp add: sizeof_dirent_def)
qed

lemma dirlookup_spec:
  assumes "dir_ok A s dp"
  shows "dirlookup dp name s = (case dir_find (contents s dp) name of None \<Rightarrow> Inr (None, s)
     | Some off \<Rightarrow> bindR (iget (idev (geti s dp)) (ucast (de_inum (dirent_at (contents s dp) off))) s) (\<lambda>(ip, s2). Inr (Some (ip, off), s2)))"
  using assms dirlookup_scan_spec[of A s dp "map (\<lambda>k. k * sizeof_dirent) [0..<unat (isize (geti s dp)) div sizeof_dirent]" name]
    dir_off_bound[of _ "unat (isize (geti s dp))"]
  by (auto simp: dirlookup_def dir_ok_def dir_find_def dir_offs_eq)

section \<open>A new entry\<close>

text \<open>Where \<open>dirlink\<close> writes: the first entry that is not in use, or the end.\<close>

definition free_off :: "u8 list \<Rightarrow> nat" where
  "free_off d = (case find (\<lambda>off. de_inum (dirent_at d off) = 0) (map (\<lambda>k. k * sizeof_dirent) [0..<length d div sizeof_dirent]) of
     Some off \<Rightarrow> off | None \<Rightarrow> length d)"

lemma free_off_props:
  assumes "sizeof_dirent dvd length d"
  shows "free_off d \<le> length d" "sizeof_dirent dvd free_off d"
    "free_off d < length d \<Longrightarrow> de_inum (dirent_at d (free_off d)) = 0 \<and> free_off d + sizeof_dirent \<le> length d"
proof -
  have some: "de_inum (dirent_at d off) = 0 \<and> off + sizeof_dirent \<le> length d \<and> sizeof_dirent dvd off"
    if "find (\<lambda>off. de_inum (dirent_at d off) = 0) (map (\<lambda>k. k * sizeof_dirent) [0..<length d div sizeof_dirent]) = Some off" for off
  proof -
    have "off \<in> set (map (\<lambda>k. k * sizeof_dirent) [0..<length d div sizeof_dirent])" "de_inum (dirent_at d off) = 0"
      using that by (auto simp: find_Some_iff)
    then show ?thesis using dir_off_bound[of off "length d"] by auto
  qed
  then show "free_off d \<le> length d" "sizeof_dirent dvd free_off d"
    "free_off d < length d \<Longrightarrow> de_inum (dirent_at d (free_off d)) = 0 \<and> free_off d + sizeof_dirent \<le> length d"
    using assms by (auto simp: free_off_def split: option.splits)
qed

lemma dirlink_spec:
  assumes ok: "dir_ok A s dp" and no: "dir_find (contents s dp) name = None"
    and room: "unat (isize (geti s dp)) + sizeof_dirent \<le> MAXFILE * BSIZE"
  shows "case dirlink dp name n s of Inl e \<Rightarrow> e = out_of_blocks
    | Inr (r, s') \<Rightarrow> r = 0 \<and> files_ok A s' \<and>
        contents s' dp = bsplice (free_off (contents s dp)) (mk_dirent (ucast n) name) (contents s dp) \<and>
        (\<forall>j\<in>A. j \<noteq> dp \<longrightarrow> contents s' j = contents s j) \<and> itype (geti s' dp) = T_DIR \<and> idev (geti s' dp) = idev (geti s dp)"
proof -
  let ?sz = "isize (geti s dp)" and ?off = "free_off (contents s dp)"
  have f: "files_ok A s" and dp: "dp \<in> A" and ty: "itype (geti s dp) = T_DIR" and dv: "sizeof_dirent dvd unat ?sz"
    using ok by (auto simp: dir_ok_def)
  have off: "?off \<le> unat ?sz" using free_off_props(1)[of "contents s dp"] dv by simp
  have M: "MAXFILE * BSIZE < 2 ^ 31" by (simp add: MAXFILE_def fs_sizes)
  have u: "unat (of_nat ?off :: u32) = ?off" "unat (of_nat sizeof_dirent :: u32) = sizeof_dirent"
    using off room M by (simp_all add: unat_of_nat sizeof_dirent_def)
  have scan: "dirlink_scan dp (dir_offs ?sz) s =
      Inr (find (\<lambda>off. de_inum (dirent_at (contents s dp) off) = 0) (dir_offs ?sz), s)"
    by (rule dirlink_scan_spec[OF f dp]) (use dir_off_bound[of _ "unat ?sz"] in \<open>simp add: dir_offs_eq[OF dv]\<close>)
  have len: "length (dir_offs ?sz) * sizeof_dirent = unat ?sz" using dv by (simp add: dir_offs_eq[OF dv])
  have "dirlink dp name n s = bindR (writei_from from_local dp (of_nat ?off) (of_nat sizeof_dirent) (mk_dirent (ucast n) name) s)
      (\<lambda>(w, s3). if w \<noteq> int sizeof_dirent then Inl (Panic ''dirlink'') else Inr (0, s3))"
  proof -
    have fo: "(case find (\<lambda>off. de_inum (dirent_at (contents s dp) off) = 0) (dir_offs ?sz) of Some off \<Rightarrow> off
        | None \<Rightarrow> length (dir_offs ?sz) * sizeof_dirent) = ?off"
      unfolding len free_off_def by (simp add: dir_offs_eq[OF dv] cong: option.case_cong)
    show ?thesis using no by (simp add: dirlink_def dirlookup_spec[OF ok] scan Let_def fo)
  qed
  moreover have "case writei_from from_local dp (of_nat ?off) (of_nat sizeof_dirent) (mk_dirent (ucast n) name) s of Inl e \<Rightarrow> e = out_of_blocks
    | Inr (r, s') \<Rightarrow> r = int (length (mk_dirent (ucast n) name)) \<and> files_ok A s' \<and>
        contents s' dp = bsplice (unat (of_nat ?off :: u32)) (mk_dirent (ucast n) name) (contents s dp) \<and>
        (\<forall>j\<in>A. j \<noteq> dp \<longrightarrow> contents s' j = contents s j) \<and> kernel.truncate s' = kernel.truncate s \<and> sb s' = sb s \<and>
        (\<forall>j. itype (geti s' j) = itype (geti s j) \<and> idev (geti s' j) = idev (geti s j) \<and> inum (geti s' j) = inum (geti s j))"
    by (rule lsrc.writei_from_spec[OF f dp refl])
       (use off room in \<open>simp_all add: u dirent_fields word_le_nat_alt\<close>)
  ultimately show ?thesis using ty by (auto simp: u dirent_fields split: sum.splits)
qed

text \<open>The directory with the new entry: the name is found there, every other name where it was.\<close>

lemma bsplice_dirent:
  assumes "off \<le> length d" "sizeof_dirent dvd off" "sizeof_dirent dvd length d" "length e = sizeof_dirent" "sizeof_dirent dvd k" "k < length d \<or> k = off"
  shows "dirent_at (bsplice off e d) k = (if k = off then e else dirent_at d k)"
proof -
  obtain a b c where abc: "off = 16 * a" "length d = 16 * b" "k = 16 * c" using assms by (auto simp: sizeof_dirent_def elim!: dvdE)
  have "dirent_at (bsplice off e d) k = dirent_at d k" if n: "k \<noteq> off"
  proof (rule nth_equalityI)
    have ck: "c < b" "c < a \<or> a < c" using n assms(6) abc by auto
    then show "length (dirent_at (bsplice off e d) k) = length (dirent_at d k)"
      using abc assms(1,4) by (auto simp: dirent_at_def bslice_def bsplice_def sizeof_dirent_def)
    fix i assume "i < length (dirent_at (bsplice off e d) k)"
    then have i: "i < 16" by (simp add: dirent_at_def bslice_def sizeof_dirent_def)
    show "dirent_at (bsplice off e d) k ! i = dirent_at d k ! i"
      using i ck abc assms(1,4) by (auto simp: dirent_at_def bslice_def bsplice_def sizeof_dirent_def nth_append)
  qed
  moreover have "dirent_at (bsplice off e d) off = e"
    using assms(1,4) by (simp add: dirent_at_def bslice_def bsplice_def)
  ultimately show ?thesis by simp
qed

lemma find_upt_snoc: "find P (map f [0..<Suc n]) = (case find P (map f [0..<n]) of Some x \<Rightarrow> Some x | None \<Rightarrow> if P (f n) then Some (f n) else None)"
proof -
  have "find P (xs @ [y]) = (case find P xs of Some x \<Rightarrow> Some x | None \<Rightarrow> if P y then Some y else None)" for xs y
    by (induction xs) auto
  then show ?thesis by simp
qed

lemma dir_find_link:
  assumes "sizeof_dirent dvd length d" and e: "length e = sizeof_dirent" and no: "names_entry name e \<longrightarrow> dir_find d name = None"
  shows "dir_find (bsplice (free_off d) e d) name = (if names_entry name e then Some (free_off d) else dir_find d name)"
proof -
  let ?off = "free_off d" and ?D = "bsplice (free_off d) e d"
  let ?offs = "map (\<lambda>k. k * sizeof_dirent) [0..<length d div sizeof_dirent]"
  note fo = free_off_props[OF assms(1)]
  have pos: "0 < sizeof_dirent" by (simp add: sizeof_dirent_def)
  have at: "dirent_at ?D k = (if k = ?off then e else dirent_at d k)" if "sizeof_dirent dvd k" "k < length d \<or> k = ?off" for k
    by (rule bsplice_dirent[OF fo(1,2) assms(1) e that])
  have offs: "k < length d \<and> sizeof_dirent dvd k" if "k \<in> set ?offs" for k
    using dir_off_bound[OF that] that pos by auto
  show ?thesis
  proof (cases "?off < length d")
    case True
    have free: "\<not> names_entry name (dirent_at d ?off)" using fo(3)[OF True] by (simp add: names_entry_def)
    have len: "length ?D = length d" using fo(3)[OF True] e by simp
    have mem: "?off \<in> set ?offs" using True fo(2) assms(1) pos by (auto elim!: dvdE)
    have "find (\<lambda>off. names_entry name (dirent_at ?D off)) xs =
        (if names_entry name e \<and> ?off \<in> set xs then Some ?off else find (\<lambda>off. names_entry name (dirent_at d off)) xs)"
      if "set xs \<subseteq> set ?offs" "names_entry name e \<longrightarrow> (\<forall>x\<in>set xs. \<not> names_entry name (dirent_at d x))" for xs
      using that free by (induction xs) (auto simp: at offs)
    moreover have "names_entry name e \<longrightarrow> (\<forall>x\<in>set ?offs. \<not> names_entry name (dirent_at d x))"
      using no unfolding dir_find_def find_None_iff by blast
    ultimately show ?thesis using mem by (simp add: dir_find_def len)
  next
    case False
    then have off: "?off = length d" using fo(1) by simp
    have "length ?D = length d + sizeof_dirent" using off e by (simp add: bsplice_def)
    moreover have "(length d + sizeof_dirent) div sizeof_dirent = Suc (length d div sizeof_dirent)" using pos by (simp add: div_add_self2)
    ultimately have offs': "map (\<lambda>k. k * sizeof_dirent) [0..<length ?D div sizeof_dirent] =
        map (\<lambda>k. k * sizeof_dirent) [0..<Suc (length d div sizeof_dirent)]" by (simp only:)
    have "find (\<lambda>off. names_entry name (dirent_at ?D off)) ?offs = find (\<lambda>off. names_entry name (dirent_at d off)) ?offs"
    proof (rule find_cong[OF refl])
      fix k assume "k \<in> set ?offs"
      then have "k < length d" "sizeof_dirent dvd k" using offs by auto
      then show "names_entry name (dirent_at ?D k) = names_entry name (dirent_at d k)" using at[of k] off by simp
    qed
    moreover have "length d div sizeof_dirent * sizeof_dirent = ?off" using assms(1) off by simp
    ultimately show ?thesis
      unfolding dir_find_def offs' find_upt_snoc using at[OF fo(2)] no
      by (auto simp: dir_find_def split: option.splits)
  qed
qed

lemma names_entry_new: "ucast n \<noteq> (0 :: u16) \<Longrightarrow> names_entry name (mk_dirent (ucast n) name)"
  by (simp add: names_entry_def dirent_fields namecmp_def namecmp_strncpy)

end
