(* ===== verification/FsTrunc.thy ===== *)
theory FsTrunc
  imports FsRw
begin

text \<open>
  Truncating a file: \<open>itrunc\<close> returns exactly the blocks of the file to the free map, unless the file has a
  double indirect block.
\<close>

section \<open>Freeing a set of blocks\<close>

definition freed :: "'a fsk_scheme \<Rightarrow> 'a fsk_scheme \<Rightarrow> u32 set \<Rightarrow> bool" where
  "freed s s' F \<longleftrightarrow> (\<exists>b l. s' = s\<lparr>blocks := b, logged := l\<rparr>) \<and> blk_ok s' \<and>
     (\<forall>c. \<not> mapblock s c \<longrightarrow> blocks s' c = blocks s c) \<and>
     (\<forall>c. unat c < unat (sbsize (sb s)) \<longrightarrow> (used s' (unat c) \<longleftrightarrow> used s (unat c) \<and> c \<notin> F))"

lemma freed_refl: "blk_ok s \<Longrightarrow> freed s s {}"
  unfolding freed_def by (auto intro!: exI[of _ "blocks s"] exI[of _ "logged s"])

lemma freed_same:
  assumes "freed s s' F"
  shows "sb s' = sb s" "itable s' = itable s" "kernel.truncate s' = kernel.truncate s" "blk_ok s'"
    "mapblock s' = mapblock s" "\<not> mapblock s c \<Longrightarrow> blocks s' c = blocks s c"
  using assms by (auto simp: freed_def kernel.truncate_def mapblock_def)

lemma freed_bfree:
  assumes "freed s s' F" "unat b < unat (sbsize (sb s))" "used s (unat b)" "b \<notin> F"
  shows "\<exists>s''. bfree b s' = Inr s'' \<and> freed s s'' (insert b F)"
proof -
  note f = freed_same[OF assms(1)]
  have "used s' (unat b)" using assms by (auto simp: freed_def)
  then obtain d s'' where d: "bfree b s' = Inr s''" "length d = BSIZE"
      "s'' = s'\<lparr>blocks := (blocks s')(BBLOCK (unat b) (sb s') := d), logged := logged s' @ [BBLOCK (unat b) (sb s')]\<rparr>"
      "\<And>c. c < unat (sbsize (sb s')) \<Longrightarrow> used s'' c \<longleftrightarrow> c \<noteq> unat b \<and> used s' c"
    using bfree_spec[OF f(4), of b] assms(2) f(1) by (auto split: if_splits)
  have mb: "mapblock s (BBLOCK (unat b) (sb s))" using assms(2) by (auto simp: mapblock_def)
  obtain b0 l0 where "s' = s\<lparr>blocks := b0, logged := l0\<rparr>" using assms(1) by (auto simp: freed_def)
  then have "\<exists>b l. s'' = s\<lparr>blocks := b, logged := l\<rparr>" using d(3) by auto
  moreover have "blk_ok s''" using f(4) d(2,3) by (simp add: blk_ok_def)
  moreover have "blocks s'' c = blocks s c" if "\<not> mapblock s c" for c using that mb f(6) d(3) f(1) by auto
  moreover have "used s'' (unat c) \<longleftrightarrow> used s (unat c) \<and> c \<notin> insert b F" if "unat c < unat (sbsize (sb s))" for c
    using d(4)[of "unat c"] assms(1) that f(1) by (auto simp: freed_def word_unat_eq_iff)
  ultimately have "freed s s'' (insert b F)" unfolding freed_def by blast
  then show ?thesis using d(1) by blast
qed

lemma free_entries:
  assumes "freed s s1 F" "distinct js" "\<not> mapblock s bp"
    "\<And>j. j \<in> set js \<Longrightarrow> get_u32 (blocks s bp) j \<noteq> 0 \<Longrightarrow>
       unat (get_u32 (blocks s bp) j) < unat (sbsize (sb s)) \<and> used s (unat (get_u32 (blocks s bp) j)) \<and> get_u32 (blocks s bp) j \<notin> F"
    "\<And>i j. i \<in> set js \<Longrightarrow> j \<in> set js \<Longrightarrow> get_u32 (blocks s bp) i \<noteq> 0 \<Longrightarrow> get_u32 (blocks s bp) i = get_u32 (blocks s bp) j \<Longrightarrow> i = j"
  shows "\<exists>s2. fold_res (free_entry bp) js s1 = Inr s2 \<and> freed s s2 (F \<union> {get_u32 (blocks s bp) j | j. j \<in> set js \<and> get_u32 (blocks s bp) j \<noteq> 0})"
  using assms
proof (induction js arbitrary: s1 F)
  case (Cons j js)
  let ?e = "get_u32 (blocks s bp)"
  have e1: "get_u32 (blocks s1 bp) j = ?e j" using freed_same(6)[OF Cons.prems(1,3)] by simp
  show ?case
  proof (cases "?e j = 0")
    case True
    then have "free_entry bp j s1 = Inr s1" by (simp add: free_entry_def e1)
    moreover have "{?e k | k. k \<in> set (j # js) \<and> ?e k \<noteq> 0} = {?e k | k. k \<in> set js \<and> ?e k \<noteq> 0}" using True by auto
    ultimately show ?thesis using Cons.IH[OF Cons.prems(1) _ Cons.prems(3)] Cons.prems by simp
  next
    case False
    then obtain s' where s': "bfree (?e j) s1 = Inr s'" "freed s s' (insert (?e j) F)"
      using freed_bfree[OF Cons.prems(1)] Cons.prems(4)[of j] by auto
    have "\<exists>s2. fold_res (free_entry bp) js s' = Inr s2 \<and> freed s s2 (insert (?e j) F \<union> {?e k | k. k \<in> set js \<and> ?e k \<noteq> 0})"
    proof (rule Cons.IH[OF s'(2) _ Cons.prems(3)])
      fix k assume k: "k \<in> set js" "?e k \<noteq> 0"
      then have "?e k \<noteq> ?e j" using Cons.prems(2) Cons.prems(5)[of k j] by auto
      then show "unat (?e k) < unat (sbsize (sb s)) \<and> used s (unat (?e k)) \<and> ?e k \<notin> insert (?e j) F"
        using Cons.prems(4)[of k] k by auto
    qed (use Cons.prems(2,5) in auto)
    moreover have "insert (?e j) F \<union> {?e k | k. k \<in> set js \<and> ?e k \<noteq> 0} = F \<union> {?e k | k. k \<in> set (j # js) \<and> ?e k \<noteq> 0}"
      using False by auto
    moreover have "free_entry bp j s1 = Inr s'" using s'(1) False by (simp add: free_entry_def e1 Let_def)
    ultimately show ?thesis by simp
  qed
qed simp

section \<open>Removing blocks from a file\<close>

text \<open>The blocks at the positions \<open>Q\<close> of file \<open>ip\<close> are gone from the file and free.\<close>

definition shrunk :: "nat set \<Rightarrow> nat \<Rightarrow> 'a fsk_scheme \<Rightarrow> 'a fsk_scheme \<Rightarrow> pos set \<Rightarrow> bool" where
  "shrunk A ip s s' Q \<longleftrightarrow> fs_inv A s' \<and> kernel.truncate s' = kernel.truncate s \<and> sb s' = sb s \<and>
     length (itable s') = length (itable s) \<and> (\<forall>j. j \<noteq> ip \<longrightarrow> geti s' j = geti s j) \<and>
     (\<exists>as. geti s' ip = (geti s ip)\<lparr>addrs := as\<rparr>) \<and>
     (\<forall>j\<in>A. \<forall>q. vpos q \<longrightarrow> addr s' j q = (if j = ip \<and> q \<in> Q then 0 else addr s j q)) \<and>
     (\<forall>c. isfree s' c \<longleftrightarrow> isfree s c \<or> c \<noteq> 0 \<and> (\<exists>q\<in>Q. vpos q \<and> c = addr s ip q)) \<and>
     (\<forall>c. \<not> mapblock s c \<longrightarrow> blocks s' c = blocks s c)"

lemma shrunk_none: "fs_inv A s \<Longrightarrow> (\<And>q. q \<in> Q \<Longrightarrow> vpos q \<Longrightarrow> addr s ip q = 0) \<Longrightarrow> shrunk A ip s s Q"
  by (auto simp: shrunk_def intro!: exI[of _ "addrs (geti s ip)"])

lemma shrunk_join: "shrunk A ip s s' Q \<Longrightarrow> shrunk A ip s' s'' R \<Longrightarrow> ip \<in> A \<Longrightarrow> shrunk A ip s s'' (Q \<union> R)"
proof -
  assume a: "shrunk A ip s s' Q" and b: "shrunk A ip s' s'' R" and ip: "ip \<in> A"
  have mb: "mapblock s' = mapblock s" using a by (auto simp: shrunk_def mapblock_def)
  have ad': "addr s' ip q = (if q \<in> Q then 0 else addr s ip q)" if "vpos q" for q
    using a ip that by (simp add: shrunk_def)
  have "(\<exists>q\<in>R. vpos q \<and> c = addr s' ip q) \<longleftrightarrow> (\<exists>q\<in>R - Q. vpos q \<and> c = addr s ip q)" if "c \<noteq> 0" for c
    using that ad' by (metis Diff_iff)
  then have "isfree s'' c \<longleftrightarrow> isfree s c \<or> c \<noteq> 0 \<and> (\<exists>q\<in>Q \<union> R. vpos q \<and> c = addr s ip q)" for c
    using a b unfolding shrunk_def by (metis DiffD1 DiffI UnCI UnE)
  moreover have "addr s'' j q = (if j = ip \<and> q \<in> Q \<union> R then 0 else addr s j q)" if "j \<in> A" "vpos q" for j q
    using a b that unfolding shrunk_def by auto
  moreover have "\<exists>as. geti s'' ip = (geti s ip)\<lparr>addrs := as\<rparr>" using a b unfolding shrunk_def by force
  moreover have "blocks s'' c = blocks s c" if "\<not> mapblock s c" for c using a b that mb unfolding shrunk_def by auto
  moreover have "fs_inv A s'' \<and> kernel.truncate s'' = kernel.truncate s \<and> sb s'' = sb s \<and> length (itable s'') = length (itable s) \<and>
    (\<forall>j. j \<noteq> ip \<longrightarrow> geti s'' j = geti s j)" using a b unfolding shrunk_def by auto
  ultimately show ?thesis unfolding shrunk_def by blast
qed

definition subtree :: "pos \<Rightarrow> pos set" where
  "subtree p = {q. q = p \<or> fst (slot_of q) = Some p}"

lemma drop_subtree:
  assumes inv: "fs_inv A s" and ip: "ip \<in> A" and p: "vpos p" "p \<noteq> Ind2" "slot_of p = (None, k)"
    and f: "freed s s1 {addr s ip q | q. q \<in> subtree p \<and> vpos q \<and> addr s ip q \<noteq> 0}"
  shows "shrunk A ip s (upd_inode ip (\<lambda>i. i\<lparr>addrs := (addrs i)[k := 0]\<rparr>) s1) (subtree p)"
proof -
  let ?F = "{addr s ip q | q. q \<in> subtree p \<and> vpos q \<and> addr s ip q \<noteq> 0}"
  let ?s = "upd_inode ip (\<lambda>i. i\<lparr>addrs := (addrs i)[k := 0]\<rparr>) s1"
  note I = fs_invD[OF inv] and S = freed_same[OF f]
  have kb: "k < NDIRECT + 2" by (rule slot_inode[OF p(1,3)])
  have ad1: "addr s1 j q = addr s j q" if "j \<in> A" "vpos q" for j q
    by (rule addr_cong[OF _ _ that(2)]) (use S(2,6) I(8)[OF that(1)] in \<open>auto simp: taken_def\<close>)
  have ad: "addr ?s j q = (if j = ip \<and> q \<in> subtree p then 0 else addr s j q)" if j: "j \<in> A" "vpos q" for j q
    using j(2)
  proof (induction rule: addr_induct)
    case (inode q k')
    have "q = p \<longleftrightarrow> k' = k" using slot_inj[of q p] inode(2) p(3) by auto
    then show ?case
      using inode I(5,6)[OF ip] kb S(2) by (auto simp: addr_None nth_list_update subtree_def)
  next
    case (entry q r k')
    have rn: "r \<in> subtree p \<longleftrightarrow> r = p"
      using entry(3) p(2) by (auto simp: subtree_def slot_of_def split: pos.splits if_splits)
    have "q \<in> subtree p \<longleftrightarrow> r = p" using entry(3) p(3) by (auto simp: subtree_def)
    moreover have "blocks ?s (addr s j r) = blocks s (addr s j r)" if "addr s j r \<noteq> 0"
      using S(6) I(8)[OF j(1) entry(2) that] by (simp add: taken_def)
    ultimately show ?case using entry.IH rn by (auto simp: addr_Some[OF entry(3)] ent_def)
  qed
  have Ft: "taken A s c" if "c \<in> ?F" for c using that I(8)[OF ip] by auto
  have mb: "mapblock ?s c = mapblock s c" for c by (simp add: mapblock_def S(1))
  have ib: "inoblock A ?s c = inoblock A s c" for c
    using I(5)[OF ip] by (auto simp: inoblock_def S(1,2) nth_list_update split: if_splits)
  have us: "used ?s (unat c) \<longleftrightarrow> used s (unat c) \<and> c \<notin> ?F" if "unat c < unat (sbsize (sb s))" for c
    using f that unfolding freed_def used_def by simp
  have fr: "isfree ?s c \<longleftrightarrow> isfree s c \<or> c \<in> ?F" for c
    using us[of c] Ft[of c] by (auto simp: isfree_def S(1) taken_def)
  have tk: "taken A ?s c" if "taken A s c" "c \<notin> ?F" for c using that us[of c] by (simp add: taken_def mb ib S(1))
  have notF: "addr s j q \<notin> ?F" if "j \<in> A" "vpos q" "addr s j q \<noteq> 0" "\<not> (j = ip \<and> q \<in> subtree p)" for j q
    using I(9)[OF that(1) ip that(2)] that by auto
  have mr: "map_reserved ?s" unfolding map_reserved_def
  proof (intro allI impI)
    fix c assume "c < unat (sbsize (sb ?s))"
    then show "\<not> isfree ?s (BBLOCK c (sb ?s))"
      using I(2) Ft[of "BBLOCK c (sb s)"] by (auto simp: fr map_reserved_def S(1) taken_def mapblock_def)
  qed
  have "taken A ?s (addr ?s j q)" if "j \<in> A" "vpos q" "addr ?s j q \<noteq> 0" for j q
    using tk I(8)[of j q] notF[of j q] that ad[OF that(1,2)] by (auto split: if_splits)
  moreover have "addr ?s i q = addr ?s j r \<longrightarrow> i = j \<and> q = r" if "i \<in> A" "j \<in> A" "vpos q" "vpos r" "addr ?s i q \<noteq> 0" for i j q r
    using I(9)[of i j q r] that ad[OF that(1,3)] ad[OF that(2,4)] by (auto split: if_splits)
  moreover have "\<not> isfree ?s b \<and> \<not> mapblock ?s b" if "inoblock A ?s b" for b
    using I(7)[of b] Ft[of b] that by (auto simp: fr ib mb taken_def)
  moreover have "j < length (itable ?s) \<and> length (addrs (geti ?s j)) = NDIRECT + 2" if "j \<in> A" for j
    using I(5,6)[OF that] I(5)[OF ip] by (auto simp: S(2) nth_list_update)
  ultimately have "fs_inv A ?s" unfolding fs_inv_def using mr S(4) I(3) by (auto simp: fr blk_ok_def)
  moreover have "\<exists>as. geti ?s ip = (geti s ip)\<lparr>addrs := as\<rparr>" using I(5)[OF ip] by (auto simp: S(2))
  moreover have "isfree ?s c \<longleftrightarrow> isfree s c \<or> c \<noteq> 0 \<and> (\<exists>q\<in>subtree p. vpos q \<and> c = addr s ip q)" for c by (auto simp: fr)
  ultimately show ?thesis
    unfolding shrunk_def using ad S by (auto simp: kernel.truncate_def upd_inode_def)
qed

section \<open>Truncating\<close>

lemma subtree_data: "subtree (Data i) = {Data i}"
proof (rule set_eqI)
  fix q show "q \<in> subtree (Data i) \<longleftrightarrow> q \<in> {Data i}" by (cases q) (auto simp: subtree_def slot_of_def)
qed

lemma subtree_ind: "subtree Ind = insert Ind {Data bn | bn. NDIRECT \<le> bn \<and> bn < NDIRECT + NINDIRECT}"
proof (rule set_eqI)
  fix q show "q \<in> subtree Ind \<longleftrightarrow> q \<in> insert Ind {Data bn | bn. NDIRECT \<le> bn \<and> bn < NDIRECT + NINDIRECT}"
    by (cases q) (auto simp: subtree_def slot_of_def)
qed

lemma direct_slot: "i < NDIRECT \<Longrightarrow> vpos (Data i) \<and> slot_of (Data i) = (None, i)"
  by (simp add: vpos_def slot_of_def MAXFILE_def)

lemma ind_slot: "k < NINDIRECT \<Longrightarrow> vpos (Data (NDIRECT + k)) \<and> slot_of (Data (NDIRECT + k)) = (Some Ind, k)"
  by (simp add: vpos_def slot_of_def MAXFILE_def)

lemma free_direct_spec:
  assumes inv: "fs_inv A s" and ip: "ip \<in> A" and i: "i < NDIRECT"
  shows "\<exists>s'. free_direct ip i s = Inr s' \<and> shrunk A ip s s' {Data i}"
proof (cases "addr s ip (Data i) = 0")
  case True
  then have "free_direct ip i s = Inr s" using direct_slot[OF i] by (simp add: free_direct_def addr_None[of "Data i"])
  then show ?thesis using shrunk_none[OF inv, of "{Data i}" ip] True by auto
next
  case False
  note v = direct_slot[OF i] and I = fs_invD[OF inv]
  have t: "taken A s (addr s ip (Data i))" using I(8)[OF ip] v False by blast
  obtain s1 where s1: "bfree (addr s ip (Data i)) s = Inr s1" "freed s s1 {addr s ip (Data i)}"
    using freed_bfree[OF freed_refl[OF I(1)], of "addr s ip (Data i)"] t by (auto simp: taken_def)
  have F: "{addr s ip q | q. q \<in> subtree (Data i) \<and> vpos q \<and> addr s ip q \<noteq> 0} = {addr s ip (Data i)}"
    using v False by (auto simp: subtree_data)
  have "shrunk A ip s (upd_inode ip (\<lambda>q. q\<lparr>addrs := (addrs q)[i := 0]\<rparr>) s1) (subtree (Data i))"
    by (rule drop_subtree[OF inv ip]) (use v s1(2) F in auto)
  moreover have "free_direct ip i s = Inr (upd_inode ip (\<lambda>q. q\<lparr>addrs := (addrs q)[i := 0]\<rparr>) s1)"
    using s1(1) False v by (simp add: free_direct_def addr_None[of "Data i"])
  ultimately show ?thesis by (simp add: subtree_data)
qed

lemma free_directs:
  assumes "fs_inv A s" "ip \<in> A" "set is \<subseteq> {..<NDIRECT}"
  shows "\<exists>s'. fold_res (free_direct ip) is s = Inr s' \<and> shrunk A ip s s' (Data ` set is)"
  using assms
proof (induction "is" arbitrary: s)
  case Nil
  then show ?case using shrunk_none[of A s "{}" ip] by simp
next
  case (Cons i js)
  then obtain s1 where s1: "free_direct ip i s = Inr s1" "shrunk A ip s s1 {Data i}" using free_direct_spec[of A s ip i] by auto
  have "fs_inv A s1" using s1(2) by (simp add: shrunk_def)
  then obtain s2 where s2: "fold_res (free_direct ip) js s1 = Inr s2" "shrunk A ip s1 s2 (Data ` set js)"
    using Cons.IH[of s1] Cons.prems(2,3) by auto
  show ?case using s1(1) s2(1) shrunk_join[OF s1(2) s2(2) Cons.prems(2)] by simp
qed

lemma free_indirect:
  assumes inv: "fs_inv A s" and ip: "ip \<in> A" and a: "addr s ip Ind \<noteq> 0"
  shows "\<exists>s2 s3. fold_res (free_entry (addr s ip Ind)) [0..<NINDIRECT] s = Inr s2 \<and> bfree (addr s ip Ind) s2 = Inr s3 \<and>
    shrunk A ip s (upd_inode ip (\<lambda>q. q\<lparr>addrs := (addrs q)[NDIRECT := 0]\<rparr>) s3) (subtree Ind)"
proof -
  note I = fs_invD[OF inv]
  let ?bp = "addr s ip Ind" and ?e = "get_u32 (blocks s (addr s ip Ind))"
  have vi: "vpos Ind" "slot_of Ind = (None, NDIRECT)" by (simp_all add: vpos_def slot_of_def)
  have t: "taken A s ?bp" using I(8)[OF ip vi(1) a] .
  have e: "?e k = addr s ip (Data (NDIRECT + k))" if "k < NINDIRECT" for k
    using ind_slot[OF that] a by (simp add: addr_Some[of "Data (NDIRECT + k)"] ent_def)
  let ?E = "{?e j | j. j \<in> set [0..<NINDIRECT] \<and> ?e j \<noteq> 0}"
  have "\<exists>s2. fold_res (free_entry ?bp) [0..<NINDIRECT] s = Inr s2 \<and> freed s s2 ({} \<union> ?E)"
  proof (rule free_entries[OF freed_refl[OF I(1)]])
    fix j assume "j \<in> set [0..<NINDIRECT]" "?e j \<noteq> 0"
    then show "unat (?e j) < unat (sbsize (sb s)) \<and> used s (unat (?e j)) \<and> ?e j \<notin> {}"
      using e[of j] ind_slot[of j] I(8)[OF ip, of "Data (NDIRECT + j)"] by (simp add: taken_def)
  next
    fix i j assume "i \<in> set [0..<NINDIRECT]" "j \<in> set [0..<NINDIRECT]" "?e i \<noteq> 0" "?e i = ?e j"
    then show "i = j"
      using e[of i] e[of j] ind_slot[of i] ind_slot[of j] I(9)[OF ip ip, of "Data (NDIRECT + i)" "Data (NDIRECT + j)"] by simp
  qed (use t in \<open>simp_all add: taken_def\<close>)
  then obtain s2 where s2: "fold_res (free_entry ?bp) [0..<NINDIRECT] s = Inr s2" "freed s s2 ?E" by auto
  have "?bp \<notin> ?E"
    using e ind_slot I(9)[OF ip ip vi(1)] a by fastforce
  then obtain s3 where s3: "bfree ?bp s2 = Inr s3" "freed s s3 (insert ?bp ?E)"
    using freed_bfree[OF s2(2), of ?bp] t by (auto simp: taken_def)
  have "{addr s ip q | q. q \<in> subtree Ind \<and> vpos q \<and> addr s ip q \<noteq> 0} = insert ?bp ?E"
  proof -
    have "\<exists>j<NINDIRECT. addr s ip (Data bn) = ?e j" if "NDIRECT \<le> bn" "bn < NDIRECT + NINDIRECT" for bn
      using e[of "bn - NDIRECT"] that by (intro exI[of _ "bn - NDIRECT"]) auto
    moreover have "\<exists>bn. addr s ip (Data bn) = ?e j \<and> NDIRECT \<le> bn \<and> bn < NDIRECT + NINDIRECT \<and> vpos (Data bn)" if "j < NINDIRECT" for j
      using e[OF that] ind_slot[OF that] that by (intro exI[of _ "NDIRECT + j"]) auto
    ultimately have "c \<in> {addr s ip q | q. q \<in> subtree Ind \<and> vpos q \<and> addr s ip q \<noteq> 0} \<longleftrightarrow> c \<in> insert ?bp ?E" for c
      using vi(1) a unfolding subtree_ind by auto metis+
    then show ?thesis by blast
  qed
  then have "shrunk A ip s (upd_inode ip (\<lambda>q. q\<lparr>addrs := (addrs q)[NDIRECT := 0]\<rparr>) s3) (subtree Ind)"
    using drop_subtree[OF inv ip vi(1) _ vi(2), of s3] s3(2) by simp
  then show ?thesis using s2(1) s3(1) by blast
qed

text \<open>Without a double indirect block, every position is a direct one, the indirect block, or below it.\<close>

lemma addr_no_Ind2:
  assumes "addr s ip Ind2 = 0" "vpos p" "p \<notin> Data ` {..<NDIRECT} \<union> subtree Ind"
  shows "addr s ip p = 0"
proof -
  have l2: "addr s ip (L2 k) = 0" for k using assms(1) addr_Some[of "L2 k" Ind2 k s ip] by (simp add: slot_of_def ent_def)
  show ?thesis
  proof (cases p)
    case (Data bn)
    then have "slot_of p = (Some (L2 ((bn - NDIRECT - NINDIRECT) div NINDIRECT)), (bn - NDIRECT - NINDIRECT) mod NINDIRECT)"
      using assms(3) by (auto simp: slot_of_def subtree_ind)
    then show ?thesis using l2 by (simp add: addr_Some ent_def)
  qed (use assms l2 in \<open>auto simp: subtree_def\<close>)
qed

lemma shrunk_itrunc:
  assumes inv: "fs_inv A s" and ip: "ip \<in> A"
  shows "\<exists>s4. itrunc ip s = (if addr s ip Ind2 \<noteq> 0 then Inl Fault else Inr (iupdate ip (upd_inode ip (\<lambda>q. q\<lparr>isize := 0\<rparr>) s4))) \<and>
    shrunk A ip s s4 (Data ` {..<NDIRECT} \<union> subtree Ind)"
proof -
  obtain s1 where s1: "fold_res (free_direct ip) [0..<NDIRECT] s = Inr s1" "shrunk A ip s s1 (Data ` {..<NDIRECT})"
    using free_directs[OF inv ip, of "[0..<NDIRECT]"] by (auto simp: atLeast0LessThan)
  have i1: "fs_inv A s1" using s1(2) by (simp add: shrunk_def)
  have sl: "vpos Ind" "vpos Ind2" "slot_of Ind = (None, NDIRECT)" "slot_of Ind2 = (None, NDIRECT + 1)" by (simp_all add: vpos_def slot_of_def)
  note a = addr_None[OF sl(3)] addr_None[OF sl(4)]
  have "\<exists>s4. (if addrs (geti s1 ip) ! NDIRECT \<noteq> 0 then
           let bp = addrs (geti s1 ip) ! NDIRECT in
           bindR (fold_res (free_entry bp) [0..<NINDIRECT] s1) (\<lambda>s2.
             bindR (bfree bp s2) (\<lambda>s3. Inr (upd_inode ip (\<lambda>q. q\<lparr>addrs := (addrs q)[NDIRECT := 0]\<rparr>) s3)))
         else Inr s1) = Inr s4 \<and> shrunk A ip s1 s4 (subtree Ind)"
  proof (cases "addr s1 ip Ind = 0")
    case True
    have "addr s1 ip q = 0" if "q \<in> subtree Ind" for q
    proof (cases "q = Ind")
      case False
      then have "slot_of q = (Some Ind, snd (slot_of q))" using that by (simp add: subtree_def prod_eq_iff)
      then show ?thesis using True by (simp add: addr_Some[of q Ind] ent_def)
    qed (simp add: True)
    then show ?thesis using True shrunk_none[OF i1, of "subtree Ind" ip] unfolding a by auto
  next
    case False
    then show ?thesis using free_indirect[OF i1 ip False] by (auto simp: a)
  qed
  then obtain s4 where s4: "(if addrs (geti s1 ip) ! NDIRECT \<noteq> 0 then
           let bp = addrs (geti s1 ip) ! NDIRECT in
           bindR (fold_res (free_entry bp) [0..<NINDIRECT] s1) (\<lambda>s2.
             bindR (bfree bp s2) (\<lambda>s3. Inr (upd_inode ip (\<lambda>q. q\<lparr>addrs := (addrs q)[NDIRECT := 0]\<rparr>) s3)))
         else Inr s1) = Inr s4" and sh: "shrunk A ip s1 s4 (subtree Ind)" by blast
  note t = shrunk_join[OF s1(2) sh ip]
  have "Ind2 \<notin> Data ` {..<NDIRECT} \<union> subtree Ind" by (auto simp: subtree_def slot_of_def)
  then have "addr s4 ip Ind2 = addr s ip Ind2" using t ip sl(2) by (auto simp: shrunk_def)
  then show ?thesis using s1(1) s4 t by (auto simp: itrunc_def a(2)[symmetric] simp del: One_nat_def)
qed

lemma itrunc_spec:
  assumes ok: "files_ok A s" and ip: "ip \<in> A" and no2: "addr s ip Ind2 = 0"
  shows "\<exists>s'. itrunc ip s = Inr s' \<and> files_ok A s' \<and> contents s' ip = [] \<and>
    (\<forall>p. vpos p \<longrightarrow> addr s' ip p = 0) \<and> (\<forall>j\<in>A. j \<noteq> ip \<longrightarrow> geti s' j = geti s j \<and> contents s' j = contents s j) \<and>
    (\<forall>c. isfree s' c \<longleftrightarrow> isfree s c \<or> c \<noteq> 0 \<and> (\<exists>p. vpos p \<and> c = addr s ip p))"
proof -
  have inv: "fs_inv A s" using ok by (simp add: files_ok_def)
  let ?Q = "Data ` {..<NDIRECT} \<union> subtree Ind"
  obtain s4 where r: "itrunc ip s = Inr (iupdate ip (upd_inode ip (\<lambda>q. q\<lparr>isize := 0\<rparr>) s4))" and sh: "shrunk A ip s s4 ?Q"
    using shrunk_itrunc[OF inv ip] no2 by auto
  define s5 where "s5 = upd_inode ip (\<lambda>q. q\<lparr>isize := 0\<rparr>) s4"
  define s' where "s' = iupdate ip s5"
  have i4: "fs_inv A s4" using sh by (simp add: shrunk_def)
  have ipl: "ip < length (itable s4)" using fs_invD(5)[OF i4 ip] .
  have v: "fs_inv A s5" "fbyte s5 = fbyte s4" "addr s5 j p = addr s4 j p" for j p
    using fs_view(1)[of s5 s4 A] fs_view(2)[of s5 s4] i4 addr_view[of s5 s4 j p] ipl by (auto simp: s5_def nth_list_update)
  have u: "grows A s5 s'" "itable s' = itable s5" using iupdate_grows[OF v(1) ip] by (auto simp: s'_def)
  have inv': "fs_inv A s'" using u(1) by (simp add: changes_def)
  have ad: "addr s' j p = addr s4 j p" if "j \<in> A" "vpos p" for j p
  proof -
    have "blocks s' (addr s5 j q) = blocks s5 (addr s5 j q)" if "vpos q" "addr s5 j q \<noteq> 0" for q
      using fs_invD(8)[OF v(1) \<open>j \<in> A\<close> that] ip by (auto simp: s'_def iupdate_def Let_def taken_def inoblock_def)
    then have "addr s' j p = addr s5 j p" using that(2) by (intro addr_cong) (auto simp: u(2))
    then show ?thesis by (simp add: v(3))
  qed
  have fr: "isfree s' c = isfree s4 c" for c
  proof -
    have "used s' (unat c) = used s4 (unat c)" if "unat c < unat (sbsize (sb s4))"
    proof -
      have ib: "inoblock A s5 (IBLOCK (inum (geti s5 ip)) (sb s5))" using ip by (auto simp: inoblock_def)
      have "mapblock s5 (BBLOCK (unat c) (sb s5))" using that by (auto simp: mapblock_def s5_def)
      then have "BBLOCK (unat c) (sb s5) \<noteq> IBLOCK (inum (geti s5 ip)) (sb s5)" using fs_invD(7)[OF v(1) ib] by auto
      then show ?thesis by (simp add: s'_def iupdate_def Let_def used_def s5_def)
    qed
    then show ?thesis by (auto simp: isfree_def s'_def iupdate_def Let_def s5_def)
  qed
  have g: "geti s' j = (if j = ip then (geti s4 ip)\<lparr>isize := 0\<rparr> else geti s j)" for j
    using sh ipl by (auto simp: u(2) s5_def nth_list_update shrunk_def)
  have z: "addr s' ip p = 0" if "vpos p" for p
    using ad[OF ip that] sh ip that addr_no_Ind2[OF no2 that] by (auto simp: shrunk_def)
  have oth: "fbyte s' j k = fbyte s j k" if "j \<in> A" "j \<noteq> ip" "k < MAXFILE * BSIZE" for j k
  proof -
    have a: "addr s4 j (Data (k div BSIZE)) = addr s j (Data (k div BSIZE))" using sh that vpos_data[OF that(3)] by (auto simp: shrunk_def)
    have "blocks s4 (addr s j (Data (k div BSIZE))) = blocks s (addr s j (Data (k div BSIZE)))" if "addr s j (Data (k div BSIZE)) \<noteq> 0"
      using fs_invD(8)[OF inv \<open>j \<in> A\<close> vpos_data[OF \<open>k < MAXFILE * BSIZE\<close>] that] sh by (auto simp: taken_def shrunk_def)
    then have "fbyte s4 j k = fbyte s j k" by (simp add: fbyte_def Let_def a)
    then show ?thesis using u(1) that v(2) by (simp add: changes_def)
  qed
  have nh: "no_holes s' j" if "j \<in> A" for j
  proof (cases "j = ip")
    case True
    then show ?thesis by (simp add: no_holes_def g)
  next
    case False
    have "no_holes s j" using ok that by (simp add: files_ok_def)
    moreover have "addr s' j (Data (k div BSIZE)) = addr s j (Data (k div BSIZE))" if "k < MAXFILE * BSIZE" for k
      using ad[OF \<open>j \<in> A\<close> vpos_data[OF that]] sh \<open>j \<in> A\<close> vpos_data[OF that] False by (auto simp: shrunk_def)
    ultimately show ?thesis using False by (auto simp: no_holes_def g)
  qed
  have "contents s' j = contents s j" if "j \<in> A" "j \<noteq> ip" for j
  proof -
    have "unat (isize (geti s j)) \<le> MAXFILE * BSIZE" using ok that by (simp add: files_ok_def no_holes_def)
    then show ?thesis using oth[OF that] that by (simp add: contents_def g)
  qed
  moreover have "isfree s' c \<longleftrightarrow> isfree s c \<or> c \<noteq> 0 \<and> (\<exists>p. vpos p \<and> c = addr s ip p)" for c
    using sh addr_no_Ind2[OF no2] unfolding fr shrunk_def by metis
  moreover have "contents s' ip = []" by (simp add: contents_def g)
  ultimately show ?thesis using r inv' nh z g by (auto simp: files_ok_def s'_def s5_def)
qed

end
