(* ===== verification/FsProps.thy ===== *)
theory FsProps
  imports FsInode FsDir FsTrunc VmProps ProcProps
begin

text \<open>
  The properties of the file system. The state \<open>disk0\<close> is a disk of 16 blocks: boot block, super block, inodes,
  free map, the block of the root directory, and free blocks; the inode table holds the root directory
  and an empty file, and the running process has one page of memory.
\<close>

section \<open>A small disk\<close>

definition root_block :: "u8 list" where
  "root_block = mk_dirent 1 [46] @ replicate (BSIZE - sizeof_dirent) 0"

definition disk0_blocks :: "u32 \<Rightarrow> u8 list" where
  "disk0_blocks = (\<lambda>b. replicate BSIZE 0)(3 := 31 # replicate (BSIZE - 1) 0, 4 := root_block)"

definition no_inode :: inode where
  "no_inode = \<lparr>idev = 0, inum = 0, ref = 0, ilocked = False, ivalid = False, itype = 0, major = 0, minor = 0, nlink = 0,
     isize = 0, addrs = replicate (NDIRECT + 2) 0\<rparr>"

definition disk0_sb :: superblock where
  "disk0_sb = \<lparr>magic = FSMAGIC, sbsize = 16, nblocks = 11, ninodes = 16, nlog = 0, logstart = 2, inodestart = 2, bmapstart = 3\<rparr>"

definition disk0 :: fsk where
  "disk0 = \<lparr>mem = one_page_mem, kend = KERNBASE, freelist = P4,
     procs = [empty_slot\<lparr>pstate := RUNNING, pid := 1, pagetable := P0\<rparr>],
     nextpid = 2, initproc = Some 0, cpus = [Some 0], hart = 0, trampoline = 0, forkret_addr = 0,
     sb = disk0_sb,
     blocks = disk0_blocks, logged = [],
     itable = (replicate NINODE no_inode)
       [0 := no_inode\<lparr>idev := 1, inum := 1, ref := 1, ivalid := True, itype := T_DIR, nlink := 1, isize := 16,
              addrs := 4 # replicate (NDIRECT + 1) 0\<rparr>,
        1 := no_inode\<lparr>idev := 1, inum := 2, ref := 1, ivalid := True, itype := T_FILE, nlink := 1\<rparr>]\<rparr>"

lemma disk0_sb_sel [simp]: "sbsize disk0_sb = 16" "c < 16 \<Longrightarrow> BBLOCK c disk0_sb = 3" "n < 16 \<Longrightarrow> IBLOCK n disk0_sb = 2"
  by (simp_all add: disk0_sb_def BBLOCK_def BPB_def BSIZE_def IBLOCK_def IPB_def sizeof_dinode_def div_word_less)

lemma disk0_sel [simp]:
  "sb disk0 = disk0_sb"
  "blocks disk0 = disk0_blocks" "mem disk0 = one_page_mem" "myproc disk0 = Some 0" "length (itable disk0) = NINODE"
  "geti disk0 0 = no_inode\<lparr>idev := 1, inum := 1, ref := 1, ivalid := True, itype := T_DIR, nlink := 1, isize := 16,
              addrs := 4 # replicate (NDIRECT + 1) 0\<rparr>"
  "geti disk0 (Suc 0) = no_inode\<lparr>idev := 1, inum := 2, ref := 1, ivalid := True, itype := T_FILE, nlink := 1\<rparr>"
  "2 \<le> i \<Longrightarrow> i < NINODE \<Longrightarrow> geti disk0 i = no_inode"
  by (simp_all add: disk0_def myproc_def mycpu_def cpuid_def NINODE_def)

lemma disk0_blk_ok [simp]: "blk_ok disk0"
  by (simp add: blk_ok_def disk0_blocks_def root_block_def dirent_fields BSIZE_def sizeof_dirent_def)

lemma disk0_used: "c < 16 \<Longrightarrow> used disk0 c \<longleftrightarrow> c < 5"
proof -
  assume c: "c < 16"
  have "map_bit (31 # replicate (BSIZE - 1) 0) c \<longleftrightarrow> c < 5" if "c \<in> set [0..<16]" for c
    using that by (simp add: map_bit_def BSIZE_def upt_rec[of _ 16] push_bit_eq_mult) auto
  then show ?thesis using c by (simp add: used_def BPB_def BSIZE_def disk0_blocks_def)
qed

lemma disk0_isfree: "isfree disk0 b \<longleftrightarrow> 5 \<le> unat b \<and> unat b < 16"
  using disk0_used[of "unat b"] by (auto simp: isfree_def)

lemma disk0_map_reserved [simp]: "map_reserved disk0"
  by (simp add: map_reserved_def disk0_isfree)

lemma disk0_addr:
  "addr disk0 0 p = (if p = Data 0 then 4 else 0)" "addr disk0 (Suc 0) p = 0" if "vpos p" for p
proof -
  have "addr disk0 0 p = (if p = Data 0 then 4 else 0) \<and> addr disk0 (Suc 0) p = 0"
    using that
  proof (induction rule: addr_induct)
    case (inode p k)
    have "k = 0 \<longleftrightarrow> p = Data 0" using inode(2) by (auto simp: slot_of_def NDIRECT_def split: pos.splits if_splits)
    then show ?case using slot_inode[OF inode] by (auto simp: addr_None[OF inode(2)] no_inode_def nth_Cons split: nat.splits)
  next
    case (entry p q k)
    have "q \<noteq> Data 0" "p \<noteq> Data 0" using entry(3) by (auto simp: slot_of_def NDIRECT_def split: pos.splits if_splits)
    then show ?case using entry.IH by (simp add: addr_Some[OF entry(3)] ent_def)
  qed
  then show "addr disk0 0 p = (if p = Data 0 then 4 else 0)" "addr disk0 (Suc 0) p = 0" by simp_all
qed

lemma disk0_taken: "taken {0, Suc 0} disk0 4"
  using disk0_used[of 4] by (auto simp: taken_def mapblock_def inoblock_def no_inode_def)

lemma disk0_files [simp]: "files_ok {0, Suc 0} disk0"
proof -
  have len: "0 < NINODE" "Suc 0 < NINODE" by (simp_all add: NINODE_def)
  have ib: "\<not> isfree disk0 b \<and> \<not> mapblock disk0 b" if "inoblock {0, Suc 0} disk0 b" for b
    using that by (auto simp: inoblock_def no_inode_def disk0_isfree mapblock_def)
  have t: "taken {0, Suc 0} disk0 (addr disk0 ip p)" if "ip \<in> {0, Suc 0}" "vpos p" "addr disk0 ip p \<noteq> 0" for ip p
    using that disk0_taken by (auto simp: disk0_addr split: if_splits)
  have j: "i = j \<and> p = q"
    if "i \<in> {0, Suc 0}" "j \<in> {0, Suc 0}" "vpos p" "vpos q" "addr disk0 i p \<noteq> 0" "addr disk0 i p = addr disk0 j q" for i j p q
    using that by (auto simp: disk0_addr split: if_splits)
  have l: "ip < length (itable disk0) \<and> length (addrs (geti disk0 ip)) = NDIRECT + 2" if "ip \<in> {0, Suc 0}" for ip
    using that len by (auto simp: no_inode_def)
  have inv: "fs_inv {0, Suc 0} disk0"
    unfolding fs_inv_def
    by (intro conjI; (intro allI ballI impI)?) (fact disk0_blk_ok disk0_map_reserved | erule ib | erule l | (erule (2) t) | (erule (5) j) | simp add: disk0_isfree)+
  have "vpos (Data 0)" by (simp add: vpos_def MAXFILE_def NDIRECT_def)
  then show ?thesis using inv by (simp add: files_ok_def no_holes_def disk0_addr no_inode_def MAXFILE_def fs_sizes)
qed

section \<open>Files\<close>

text \<open>
  C1: \<open>writei\<close> implements a write to a list of bytes: with \<open>n\<close> bytes \<open>bs\<close> at the source (user or kernel
  memory), it returns \<open>n\<close> and leaves a file whose contents are the old ones with \<open>bs\<close> in place from \<open>off\<close> on,
  extended if \<open>bs\<close> reaches beyond the end; every other file keeps its contents, memory is unchanged and
  the file system stays well formed. It fails only when the disk is full. An offset beyond the
  end, a sum that wraps around and a file that would become too large are refused with -1
  and no change.
\<close>

theorem writei_writes_contents:
  assumes "files_ok A s" "ip \<in> A" "mem_holds user a s bs" "length bs = unat n"
  shows "if off \<le> isize (geti s ip) \<and> unat off + unat n \<le> MAXFILE * BSIZE then
      (case writei ip user a off n s of Inl e \<Rightarrow> e = Panic ''balloc: out of blocks''
       | Inr (r, s') \<Rightarrow> r = int (unat n) \<and> files_ok A s' \<and> contents s' ip = bsplice (unat off) bs (contents s ip) \<and>
           (\<forall>j\<in>A. j \<noteq> ip \<longrightarrow> contents s' j = contents s j) \<and> mem s' = mem s)
    else writei ip user a off n s = Inr (-1, s)"
proof (cases "off \<le> isize (geti s ip) \<and> unat off + unat n \<le> MAXFILE * BSIZE")
  case True
  have "mem s' = mem s" if "kernel.truncate s' = kernel.truncate s" for s' by (rule truncate_eq(1)[OF that])
  then show ?thesis
    using True msrc.writei_from_spec[OF assms, of off] assms(4) by (auto simp: writei_def out_of_blocks_def split: sum.splits)
next
  case False
  have "off > isize (geti s ip) \<or> off + n < off \<or> unat (off + n) > MAXFILE * BSIZE"
  proof (cases "unat off + unat n < 2 ^ 32")
    case True
    then have "unat (off + n) = unat off + unat n" by (intro unat_add_lem[THEN iffD1]) simp
    with False show ?thesis by (auto simp: not_le)
  next
    case wrap: False
    have "unat n < 2 ^ 32" using unat_bound[of n] by simp
    then have "(unat off + unat n) mod 2 ^ 32 < unat off"
      using wrap unat_bound[of off] by (simp add: mod_if) linarith
    then show ?thesis by (simp add: word_less_nat_alt unat_word_ariths(1))
  qed
  then show ?thesis using False by (auto simp: writei_def writei_from_def)
qed

lemma disk0_kernel_bytes: "mem_holds False 0 disk0 (read_bytes one_page_mem 0 3)"
  by (simp add: mem_holds_def read_bytes_def)

lemma root_dirent: "mk_dirent 1 [46] = [1, 0, 46, 0, 0, 0, 0, 0, 0, 0, 0, 0, 0, 0, 0, 0]"
  by code_simp

lemma disk0_contents: "contents disk0 0 = mk_dirent 1 [46]" "contents disk0 (Suc 0) = []"
proof -
  have "vpos (Data 0)" by (simp add: vpos_def MAXFILE_def NDIRECT_def)
  then have "fbyte disk0 0 i = mk_dirent 1 [46] ! i" if "i < 16" for i
    using that by (simp add: fbyte_def disk0_addr disk0_blocks_def root_block_def BSIZE_def nth_append dirent_fields sizeof_dirent_def)
  then show "contents disk0 0 = mk_dirent 1 [46]"
    by (intro nth_equalityI) (auto simp: contents_def no_inode_def dirent_fields sizeof_dirent_def)
  show "contents disk0 (Suc 0) = []" by (simp add: contents_def no_inode_def)
qed

theorem writei_writes_contents_witness:
  "case writei (Suc 0) False 0 0 3 disk0 of Inl e \<Rightarrow> e = Panic ''balloc: out of blocks''
   | Inr (r, s') \<Rightarrow> r = 3 \<and> files_ok {0, Suc 0} s' \<and> contents s' (Suc 0) = read_bytes one_page_mem 0 3 \<and>
       contents s' 0 = mk_dirent 1 [46] \<and> mem s' = one_page_mem"
  using writei_writes_contents[OF disk0_files _ disk0_kernel_bytes, of "Suc 0" 3 0]
  by (auto simp: disk0_contents bsplice_def MAXFILE_def fs_sizes split: sum.splits)

text \<open>
  C7: \<open>readi\<close> implements a read from a list of bytes: it copies the part of the contents from \<open>off\<close> on, \<open>n\<close> bytes or
  as many as there are, to the user's buffer, returns their number and changes neither other memory nor
  the file system; at and beyond the end of the file it returns 0.
\<close>

theorem readi_reads_contents:
  assumes "files_ok A s" "ip \<in> A" "user_room dst s (bslice (unat off) (unat n) (contents s ip))" "unat off + unat n < 2 ^ 32"
  shows "\<exists>dst' s'. readi ip True dst off n s = Inr (int (length (bslice (unat off) (unat n) (contents s ip))), s') \<and>
    user_delivered dst s (bslice (unat off) (unat n) (contents s ip)) dst' s' \<and> files_ok A s' \<and> contents s' = contents s"
proof -
  from usnk.readi_to_spec[OF assms] obtain dst' s' where
    r: "readi_to (to_mem True) ip off n dst s = Inr (int (length (bslice (unat off) (unat n) (contents s ip))), dst', s')"
      "user_delivered dst s (bslice (unat off) (unat n) (contents s ip)) dst' s'" "fs_part s' = fs_part s" by blast
  then show ?thesis using fs_part_view[OF r(3)] assms(1) by (auto simp: readi_def)
qed

lemma user_mem0:
  assumes "length bs = 3"
  shows "user_room 4 disk0 bs"
proof -
  have lt: "(4 :: u64) + of_nat i < PGSIZE" if "i < 3" for i
    using that by (auto simp: less_Suc_eq numeral_3_eq_3 PGSIZE_def)
  have "uaddr disk0 P0 = uaddr one_page P0" by (rule uaddr_mem) simp
  then have u: "uaddr disk0 P0 (4 + of_nat i) = Some (P3 + (4 + of_nat i))" if "i < 3" for i
    using one_page_uaddr[OF lt[OF that]] by simp
  have g: "PGROUNDDOWN (P3 + (4 + of_nat i)) = P3" if "i < 3" for i
    using that lt[OF that] by (simp add: PGROUNDDOWN_offset)
  have i: "(of_nat i :: u64) = of_nat j \<longleftrightarrow> i = j" if "i < 3" "j < 3" for i j
    using that by (simp add: word_unat_eq_iff unat_of_nat)
  have pt: "pagetable (getp disk0 0) = P0" by (simp add: disk0_def)
  have wf: "pt_wf 2 one_page_mem KERNBASE P0" "P3 \<notin> tpages 2 one_page_mem P0" by simp_all
  have "(4 :: u64) + of_nat i = 4 + of_nat j \<longleftrightarrow> i = j" if "i < 3" "j < 3" for i j using i that by simp
  then show ?thesis
    unfolding user_room_def using assms u g wf
    by (intro exI[of _ 0] exI[of _ KERNBASE]) (auto simp: pt)
qed

theorem readi_reads_contents_witness:
  "\<exists>dst' s'. readi 0 True 4 0 3 disk0 = Inr (3, s') \<and> user_delivered 4 disk0 [1, 0, 46] dst' s' \<and>
     files_ok {0, Suc 0} s' \<and> contents s' = contents disk0"
proof -
  have b: "bslice (unat (0 :: u32)) (unat (3 :: u32)) (contents disk0 0) = [1, 0, 46]"
    by (simp add: disk0_contents bslice_def root_dirent)
  have r: "user_room 4 disk0 (bslice (unat (0 :: u32)) (unat (3 :: u32)) (contents disk0 0))"
    unfolding b by (rule user_mem0) simp
  show ?thesis using readi_reads_contents[OF disk0_files _ r] unfolding b by simp
qed

text \<open>
  C25: \<open>itrunc\<close> empties a file and returns exactly its blocks to the free map, data and indirect blocks alike,
  and leaves the other files alone. A file that has a double indirect block is not truncated:
  the code reads through a null pointer.
\<close>

theorem itrunc_frees_blocks:
  assumes "files_ok A s" "ip \<in> A"
  shows "if addr s ip Ind2 = 0 then
      \<exists>s'. itrunc ip s = Inr s' \<and> files_ok A s' \<and> contents s' ip = [] \<and>
        (\<forall>p. vpos p \<longrightarrow> addr s' ip p = 0) \<and> (\<forall>j\<in>A. j \<noteq> ip \<longrightarrow> contents s' j = contents s j) \<and>
        (\<forall>c. isfree s' c \<longleftrightarrow> isfree s c \<or> c \<noteq> 0 \<and> (\<exists>p. vpos p \<and> c = addr s ip p))
    else itrunc ip s = Inl Fault"
proof (cases "addr s ip Ind2 = 0")
  case True
  then show ?thesis using itrunc_spec[OF assms True] by auto
next
  case False
  then show ?thesis using shrunk_itrunc[of A s ip] assms by (auto simp: files_ok_def)
qed

theorem itrunc_frees_blocks_witness:
  "\<exists>s'. itrunc 0 disk0 = Inr s' \<and> files_ok {0, Suc 0} s' \<and> contents s' 0 = [] \<and> (\<forall>c. isfree s' c \<longleftrightarrow> 4 \<le> unat c \<and> unat c < 16)"
proof -
  have v: "vpos Ind2" "vpos (Data 0)" by (simp_all add: vpos_def MAXFILE_def NDIRECT_def)
  have "c \<noteq> 0 \<and> (\<exists>p. vpos p \<and> c = addr disk0 0 p) \<longleftrightarrow> c = 4" for c
    using v by (auto simp: disk0_addr split: if_splits)
  then have "isfree disk0 c \<or> c \<noteq> 0 \<and> (\<exists>p. vpos p \<and> c = addr disk0 0 p) \<longleftrightarrow> 5 \<le> unat c \<and> unat c < 16 \<or> unat c = 4" for c
    unfolding disk0_isfree by (simp add: word_unat_eq_iff)
  moreover have "5 \<le> n \<and> n < 16 \<or> n = 4 \<longleftrightarrow> 4 \<le> n \<and> n < 16" for n :: nat by linarith
  ultimately have "isfree disk0 c \<or> c \<noteq> 0 \<and> (\<exists>p. vpos p \<and> c = addr disk0 0 p) \<longleftrightarrow> 4 \<le> unat c \<and> unat c < 16" for c
    by (simp only:)
  moreover have "addr disk0 0 Ind2 = 0" using disk0_addr(1)[OF v(1)] by simp
  then obtain s' where "itrunc 0 disk0 = Inr s'" "files_ok {0, Suc 0} s'" "contents s' 0 = []"
    "\<And>c. isfree s' c \<longleftrightarrow> isfree disk0 c \<or> c \<noteq> 0 \<and> (\<exists>p. vpos p \<and> c = addr disk0 0 p)"
    using itrunc_frees_blocks[OF disk0_files insertI1] by (simp only: if_True simp_thms) blast
  ultimately show ?thesis by blast
qed

section \<open>Directories and paths\<close>

text \<open>
  C26: after \<open>dirlink\<close> adds a name to a directory, \<open>dirlookup\<close> finds it: the entry that \<open>dirlink\<close> wrote is the one
  that is found, and the inode in the result is the one of the entry. Every name that compares
  different is found exactly where it was found before. The only failure is a full disk.
\<close>

theorem dirlink_dirlookup:
  assumes "dir_ok A s dp" "dirlookup dp name s = Inr (None, s)" "ucast n \<noteq> (0 :: u16)"
    "unat (isize (geti s dp)) + sizeof_dirent \<le> MAXFILE * BSIZE"
  shows "case dirlink dp name n s of Inl e \<Rightarrow> e = Panic ''balloc: out of blocks''
    | Inr (r, s') \<Rightarrow> r = 0 \<and> dir_ok A s' dp \<and>
        (\<exists>off. dirlookup dp name s' = bindR (iget (idev (geti s dp)) (ucast (ucast n :: u16)) s') (\<lambda>(ip, s2). Inr (Some (ip, off), s2))) \<and>
        (\<forall>name'. namecmp name' (strncpy name DIRSIZ) \<noteq> 0 \<longrightarrow> dir_find (contents s' dp) name' = dir_find (contents s dp) name') \<and>
        (\<forall>j\<in>A. j \<noteq> dp \<longrightarrow> contents s' j = contents s j)"
proof -
  let ?d = "contents s dp" and ?e = "mk_dirent (ucast n) name"
  have no: "dir_find ?d name = None"
    using assms(2) unfolding dirlookup_spec[OF assms(1)] by (auto simp: bindR_Inr_iff split: option.splits prod.splits)
  have dv: "sizeof_dirent dvd length ?d" "dp \<in> A" using assms(1) by (auto simp: dir_ok_def)
  note L = dirlink_spec[OF assms(1) no assms(4), of n]
  show ?thesis
  proof (cases "dirlink dp name n s")
    case (Inl e)
    then show ?thesis using L by (simp add: out_of_blocks_def)
  next
    case (Inr x)
    then obtain r s' where r: "dirlink dp name n s = Inr (r, s')" by (cases x) auto
    with L have s': "r = 0" "files_ok A s'" "contents s' dp = bsplice (free_off ?d) ?e ?d" "itype (geti s' dp) = T_DIR"
      "idev (geti s' dp) = idev (geti s dp)" "\<forall>j\<in>A. j \<noteq> dp \<longrightarrow> contents s' j = contents s j" by auto
    note fo = free_off_props[OF dv(1)]
    have "length (contents s' dp) = (if free_off ?d < length ?d then length ?d else length ?d + sizeof_dirent)"
      unfolding s'(3) using fo by (auto simp: bsplice_def dirent_fields)
    then have "sizeof_dirent dvd unat (isize (geti s' dp))" using dv(1) unfolding length_contents by auto
    then have ok: "dir_ok A s' dp" using s' dv(2) by (simp add: dir_ok_def)
    have f: "dir_find (contents s' dp) name = Some (free_off ?d)"
      unfolding s'(3) using dir_find_link[OF dv(1), of ?e name] no names_entry_new[OF assms(3), of name] by (simp add: dirent_fields)
    have at: "dirent_at (contents s' dp) (free_off ?d) = ?e"
      unfolding s'(3) using bsplice_dirent[OF fo(1,2) dv(1), of ?e "free_off ?d"] fo(2) by (simp add: dirent_fields)
    have "dir_find (contents s' dp) name' = dir_find ?d name'" if "namecmp name' (strncpy name DIRSIZ) \<noteq> 0" for name'
      unfolding s'(3) using dir_find_link[OF dv(1), of ?e name'] that by (simp add: dirent_fields names_entry_def)
    moreover have "dirlookup dp name s' = bindR (iget (idev (geti s dp)) (ucast (ucast n :: u16)) s') (\<lambda>(ip, s2). Inr (Some (ip, free_off ?d), s2))"
      unfolding dirlookup_spec[OF ok] by (simp add: f at dirent_fields s'(5))
    ultimately show ?thesis using r s' ok by auto
  qed
qed

lemma disk0_dir [simp]: "dir_ok {0, Suc 0} disk0 0"
  by (simp add: dir_ok_def sizeof_dirent_def no_inode_def)

theorem dirlink_dirlookup_witness:
  "case dirlink 0 [97, 98] 2 disk0 of Inl e \<Rightarrow> e = Panic ''balloc: out of blocks''
   | Inr (r, s') \<Rightarrow> r = 0 \<and> dir_ok {0, Suc 0} s' 0 \<and>
       (\<exists>off. dirlookup 0 [97, 98] s' = bindR (iget 1 2 s') (\<lambda>(ip, s2). Inr (Some (ip, off), s2)))"
proof -
  have "dir_find (contents disk0 0) [97, 98] = None"
    unfolding disk0_contents by code_simp
  then have "dirlookup 0 [97, 98] disk0 = Inr (None, disk0)" by (simp add: dirlookup_spec[OF disk0_dir])
  from dirlink_dirlookup[OF disk0_dir this, of 2] show ?thesis
    by (auto simp: no_inode_def MAXFILE_def fs_sizes sizeof_dirent_def split: sum.splits)
qed

text \<open>
  C27: taking a path apart with \<open>skipelem\<close> is the same as splitting it at the slashes and leaving out the
  empty parts: each call returns the next part, cut to \<open>DIRSIZ\<close> bytes, and a rest that has exactly the later
  parts; the rest is empty exactly if the part was the last one, which is how \<open>nameiparent\<close> finds
  the final element; and there is no element exactly if there are no parts.
\<close>

theorem skipelem_splits_path:
  "case path_names path of
     [] \<Rightarrow> skipelem path = None
   | e # es \<Rightarrow> \<exists>rest. skipelem path = Some (take DIRSIZ e, rest) \<and> path_names rest = es \<and> (rest = [] \<longleftrightarrow> es = [])"
  by (rule skipelem_path_names)

section \<open>Blocks and inodes\<close>

text \<open>
  C28: \<open>balloc\<close> returns the free block with the lowest number, with its contents zero; the block is not free any
  more, every other block is as free as before, and no block but it and the one of the free map has
  changed. It panics exactly when no block is free. \<open>bfree\<close> makes the same blocks free again as
  before, and freeing the block a second time panics.
\<close>

theorem balloc_bfree:
  assumes "blk_ok s" "map_reserved s"
  shows "case balloc s of Inl e \<Rightarrow> e = Panic ''balloc: out of blocks'' \<and> (\<forall>c. \<not> isfree s c)
    | Inr (b, s') \<Rightarrow> isfree s b \<and> (\<forall>c. isfree s c \<longrightarrow> b \<le> c) \<and> (\<forall>c. isfree s' c \<longleftrightarrow> isfree s c \<and> c \<noteq> b) \<and>
        blocks s' b = replicate BSIZE 0 \<and> (\<forall>c. c \<noteq> b \<and> c \<noteq> BBLOCK (unat b) (sb s) \<longrightarrow> blocks s' c = blocks s c) \<and>
        (\<exists>s''. bfree b s' = Inr s'' \<and> (\<forall>c. isfree s'' c \<longleftrightarrow> isfree s c) \<and> bfree b s'' = Inl (Panic ''freeing free block''))"
proof (cases "balloc s")
  case (Inl e)
  then show ?thesis using balloc_spec[OF assms] by simp
next
  case (Inr x)
  then obtain b s' where r: "balloc s = Inr (b, s')" by (cases x) auto
  have al: "allocated s b s'" and low: "\<forall>c<unat b. used s c" using balloc_spec[OF assms] r by auto
  then obtain d where fr: "isfree s b" and s': "s' = s\<lparr>blocks := (blocks s)(BBLOCK (unat b) (sb s) := d, b := replicate BSIZE 0),
       logged := logged s @ [BBLOCK (unat b) (sb s), b]\<rparr>" and d: "length d = BSIZE"
    and us: "\<And>c. c < unat (sbsize (sb s)) \<Longrightarrow> used s' c \<longleftrightarrow> c = unat b \<or> used s c"
    unfolding allocated_def by blast
  have sb: "sb s' = sb s" and bk: "blk_ok s'" using assms(1) d by (simp_all add: s' blk_ok_def)
  have f': "isfree s' c \<longleftrightarrow> isfree s c \<and> c \<noteq> b" for c using us[of "unat c"] by (auto simp: isfree_def sb word_unat_eq_iff)
  have lt: "unat b < unat (sbsize (sb s'))" using fr by (simp add: isfree_def sb)
  have "used s' (unat b)" using us[of "unat b"] lt by (simp add: sb)
  then obtain d2 s'' where bf: "bfree b s' = Inr s''" "length d2 = BSIZE"
      "s'' = s'\<lparr>blocks := (blocks s')(BBLOCK (unat b) (sb s') := d2), logged := logged s' @ [BBLOCK (unat b) (sb s')]\<rparr>"
      "\<And>c. c < unat (sbsize (sb s')) \<Longrightarrow> used s'' c \<longleftrightarrow> c \<noteq> unat b \<and> used s' c"
    using bfree_spec[OF bk lt] by (auto split: if_splits)
  have sb2: "sb s'' = sb s" and bk2: "blk_ok s''" using bk bf(2,3) by (simp_all add: sb blk_ok_def)
  have f'': "isfree s'' c \<longleftrightarrow> isfree s c" for c
    using bf(4)[of "unat c"] us[of "unat c"] fr by (auto simp: isfree_def sb sb2 word_unat_eq_iff)
  have "\<not> used s'' (unat b)" using f''[of b] fr by (auto simp: isfree_def)
  then have "bfree b s'' = Inl (Panic ''freeing free block'')" using bfree_spec[OF bk2, of b] lt sb sb2 by simp
  moreover have "b \<le> c" if "isfree s c" for c using low that unfolding isfree_def word_le_nat_alt by (metis not_le)
  ultimately show ?thesis using r fr f' f'' bf(1) by (auto simp: s')
qed

theorem balloc_bfree_witness: "\<exists>s'. balloc disk0 = Inr (5, s') \<and> blocks s' 5 = replicate BSIZE 0 \<and> \<not> isfree s' 5"
proof (cases "balloc disk0")
  case (Inl e)
  have "isfree disk0 5" by (simp add: disk0_isfree)
  then show ?thesis using balloc_bfree[of disk0] Inl by auto
next
  case (Inr x)
  then obtain b s' where r: "balloc disk0 = Inr (b, s')" by (cases x) auto
  then have "isfree disk0 b" "b \<le> 5" "blocks s' b = replicate BSIZE 0" "\<not> isfree s' b"
    using balloc_bfree[of disk0] by (auto simp: disk0_isfree)
  moreover from this have "b = 5" by (simp add: disk0_isfree word_le_nat_alt word_unat_eq_iff)
  ultimately show ?thesis using r by auto
qed

text \<open>
  C29: in every state that the calls on the inode table reach (\<open>iget\<close>, \<open>idup\<close>, \<open>ilock\<close>, \<open>iunlock\<close>, \<open>itrunc\<close>, \<open>iput\<close>) an inode
  that is referenced is in one entry only, no reference count is negative, and \<open>iget\<close> returns the entry
  of the inode if there is one and an unused entry otherwise, with one more reference and
  every other entry unchanged; it panics only when all entries are referenced.
\<close>

theorem inode_table_unique:
  assumes "itab_step\<^sup>*\<^sup>* s0 s" "itab_ok s0" "\<forall>i<NINODE. ref (geti s i) < 2 ^ 31 - 1"
  shows "itab_ok s \<and> (case iget d n s of
      Inl e \<Rightarrow> e = Panic ''iget: no inodes'' \<and> (\<forall>i<NINODE. 0 < ref (geti s i))
    | Inr (ip, s') \<Rightarrow> itab_ok s' \<and> ip < NINODE \<and> idev (geti s' ip) = d \<and> inum (geti s' ip) = n \<and>
        ref (geti s' ip) = ref (geti s ip) + 1 \<and> (\<forall>i. i \<noteq> ip \<longrightarrow> geti s' i = geti s i) \<and>
        (\<forall>i<NINODE. 0 < ref (geti s i) \<and> idev (geti s i) = d \<and> inum (geti s i) = n \<longrightarrow> i = ip))"
proof -
  have ok: "itab_ok s" using assms(1,2) by (induction rule: rtranclp_induct) (auto intro: itab_step_ok)
  show ?thesis
  proof (cases "iget d n s")
    case (Inl e)
    then show ?thesis using iget_spec[OF ok assms(3), of d n] ok by simp
  next
    case (Inr x)
    then obtain ip s' where r: "iget d n s = Inr (ip, s')" by (cases x) auto
    have G: "itab_ok s'" "ip < NINODE" "idev (geti s' ip) = d" "inum (geti s' ip) = n" "ref (geti s' ip) = ref (geti s ip) + 1"
      "\<And>i. i \<noteq> ip \<Longrightarrow> geti s' i = geti s i" using iget_spec[OF ok assms(3), of d n] unfolding r by auto
    have nn: "0 \<le> ref (geti s ip)" using G(2) ok unfolding itab_ok_def by blast
    have "i = ip" if i: "i < NINODE" "0 < ref (geti s i)" "idev (geti s i) = d" "inum (geti s i) = n" for i
    proof (rule ccontr)
      assume ne: "i \<noteq> ip"
      then have "0 < ref (geti s' i)" "0 < ref (geti s' ip)" "idev (geti s' i) = idev (geti s' ip)" "inum (geti s' i) = inum (geti s' ip)"
        using G i nn by simp_all
      then show False using G(1,2) i(1) ne unfolding itab_ok_def by blast
    qed
    then show ?thesis using G ok r by auto
  qed
qed

lemma disk0_itab [simp]: "itab_ok disk0" "\<forall>i<NINODE. ref (geti disk0 i) < 2 ^ 31 - 1"
proof -
  have g: "geti disk0 i = (if i = 0 then geti disk0 0 else if i = Suc 0 then geti disk0 (Suc 0) else no_inode)" if "i < NINODE" for i
    using that by (cases "2 \<le> i") (auto simp del: disk0_sel(6,7) simp: less_Suc_eq numeral_2_eq_2 not_le)
  have "ref (geti disk0 i) < 2 ^ 31 - 1" if "i < NINODE" for i by (subst g[OF that]) (simp add: no_inode_def)
  then show "\<forall>i<NINODE. ref (geti disk0 i) < 2 ^ 31 - 1" by blast
  have "0 \<le> ref (geti disk0 i)" if "i < NINODE" for i by (subst g[OF that]) (simp add: no_inode_def)
  moreover have "i = j" if "i < NINODE" "j < NINODE" "0 < ref (geti disk0 i)" "0 < ref (geti disk0 j)"
     "inum (geti disk0 i) = inum (geti disk0 j)" for i j
    using that(3-5) g[OF that(1)] g[OF that(2)] by (auto simp: no_inode_def split: if_splits)
  ultimately show "itab_ok disk0" by (auto simp: itab_ok_def)
qed

theorem inode_table_unique_witness: "\<exists>s'. iget 1 2 disk0 = Inr (Suc 0, s') \<and> ref (geti s' (Suc 0)) = 2 \<and> itab_ok s'"
proof -
  have n: "Suc 0 < NINODE" "2 < NINODE" by (simp_all add: NINODE_def)
  have e: "0 < ref (geti disk0 (Suc 0))" "idev (geti disk0 (Suc 0)) = 1" "inum (geti disk0 (Suc 0)) = 2" "\<not> 0 < ref (geti disk0 2)"
    using n by (simp_all add: no_inode_def)
  note U = inode_table_unique[OF rtranclp.rtrancl_refl disk0_itab, of 1 2]
  show ?thesis
  proof (cases "iget 1 2 disk0")
    case (Inl x)
    then show ?thesis using U n(2) e(4) by (simp del: disk0_sel)
  next
    case (Inr x)
    then obtain ip s' where r: "iget 1 2 disk0 = Inr (ip, s')" by (cases x) auto
    have "Suc 0 = ip" using U n(1) e(1-3) unfolding r by (simp del: disk0_sel)
    moreover have "itab_ok s'" "ref (geti s' ip) = ref (geti disk0 ip) + 1" using U unfolding r by simp_all
    ultimately show ?thesis using r by (auto simp: no_inode_def)
  qed
qed

end
