(* ===== verification/File.thy ===== *)
theory File
  imports Fs Syscall
begin

text \<open>
  Open files (\<open>xv6-lab-mmap/file.c\<close>): the table of open files with their reference counts, and reading,
  writing and closing through them. The state extends the one of the file system with the table.
  A \<open>struct file *\<close> in a descriptor table is the index of the entry plus one; the null pointer is 0.

  Pipes and devices are not part of the sources: their operations are the fields of \<open>'s file_env\<close>, with the
  null entries of \<open>devsw\<close> as \<open>None\<close>, and so are the bytes of \<open>struct stat\<close> that no field occupies. The
  calls \<open>begin_op\<close> and \<open>end_op\<close> delimit a transaction of the log and change nothing that is modelled here.
\<close>

section \<open>State\<close>

definition NFILE :: nat where "NFILE = 100"
definition NDEV :: nat where "NDEV = 10"
definition MAXOPBLOCKS :: nat where "MAXOPBLOCKS = 10"

datatype fdtype = FD_NONE | FD_PIPE | FD_INODE | FD_DEVICE

record sfile =
  ftype :: fdtype
  fref :: int
  readable :: bool
  writable :: bool
  fpipe :: u64
  fip :: nat
  foff :: u32
  fmajor :: u16

record filek = fsk +
  ftable :: "sfile list"

abbreviation getf :: "'a filek_scheme \<Rightarrow> nat \<Rightarrow> sfile" where
  "getf s f \<equiv> ftable s ! f"

definition upd_file :: "nat \<Rightarrow> (sfile \<Rightarrow> sfile) \<Rightarrow> 'a filek_scheme \<Rightarrow> 'a filek_scheme" where
  "upd_file f g s = s\<lparr>ftable := (ftable s)[f := g (ftable s ! f)]\<rparr>"

definition file_ptr :: "nat \<Rightarrow> u64" where
  "file_ptr f = of_nat f + 1"

definition ptr_file :: "u64 \<Rightarrow> nat" where
  "ptr_file a = unat (a - 1)"

text \<open>Pipes and devices get the address in user memory and the number of bytes.\<close>

record 's file_env =
  pipealloc :: "'s \<Rightarrow> (int \<times> nat \<times> nat \<times> 's) res"
  pipeclose :: "u64 \<Rightarrow> bool \<Rightarrow> 's \<Rightarrow> 's res"
  piperead :: "u64 \<Rightarrow> u64 \<Rightarrow> int \<Rightarrow> 's \<Rightarrow> (int \<times> 's) res"
  pipewrite :: "u64 \<Rightarrow> u64 \<Rightarrow> int \<Rightarrow> 's \<Rightarrow> (int \<times> 's) res"
  devread :: "nat \<Rightarrow> (u64 \<Rightarrow> int \<Rightarrow> 's \<Rightarrow> (int \<times> 's) res) option"
  devwrite :: "nat \<Rightarrow> (u64 \<Rightarrow> int \<Rightarrow> 's \<Rightarrow> (int \<times> 's) res) option"
  stat_pad :: "u8 list"
  stack_buf :: "u8 list"

section \<open>The file table\<close>

definition filealloc :: "'a filek_scheme \<Rightarrow> nat option \<times> 'a filek_scheme" where
  "filealloc s = (case find (\<lambda>f. fref (getf s f) = 0) [0..<NFILE] of
       Some f \<Rightarrow> (Some f, upd_file f (\<lambda>x. x\<lparr>fref := 1\<rparr>) s)
     | None \<Rightarrow> (None, s))"

definition filedup :: "nat \<Rightarrow> 'a filek_scheme \<Rightarrow> (nat \<times> 'a filek_scheme) res" where
  "filedup f s = (if fref (getf s f) < 1 then Inl (Panic ''filedup'')
     else Inr (f, upd_file f (\<lambda>x. x\<lparr>fref := c_int (fref x + 1)\<rparr>) s))"

definition fileclose :: "'a filek_scheme file_env \<Rightarrow> nat \<Rightarrow> 'a filek_scheme \<Rightarrow> 'a filek_scheme res" where
  "fileclose e f s =
     (if fref (getf s f) < 1 then Inl (Panic ''fileclose'')
      else let s1 = upd_file f (\<lambda>x. x\<lparr>fref := c_int (fref x - 1)\<rparr>) s in
        if fref (getf s1 f) > 0 then Inr s1
        else let ff = getf s1 f; s2 = upd_file f (\<lambda>x. x\<lparr>fref := 0, ftype := FD_NONE\<rparr>) s1 in
          if ftype ff = FD_PIPE then pipeclose e (fpipe ff) (writable ff) s2
          else if ftype ff = FD_INODE \<or> ftype ff = FD_DEVICE then iput (fip ff) s2
          else Inr s2)"

section \<open>Reading and writing\<close>

definition stat_bytes :: "u8 list \<Rightarrow> stat \<Rightarrow> u8 list" where
  "stat_bytes pad st = le_bytes 4 (st_dev st) @ le_bytes 4 (st_ino st) @ le_bytes 2 (st_type st) @ le_bytes 2 (st_nlink st) @
     pad @ le_bytes 8 (st_size st)"

definition filestat :: "'a filek_scheme file_env \<Rightarrow> nat \<Rightarrow> u64 \<Rightarrow> 'a filek_scheme \<Rightarrow> (int \<times> 'a filek_scheme) res" where
  "filestat e f addr s = the_proc s (\<lambda>p.
     if ftype (getf s f) = FD_INODE \<or> ftype (getf s f) = FD_DEVICE then
       bindR (ilock (Some (fip (getf s f))) s) (\<lambda>s1.
         let st = stati (fip (getf s1 f)) s1 in
         bindR (iunlock (Some (fip (getf s1 f))) s1) (\<lambda>s2.
           bindR (copyout kalloc (pagetable (getp s2 p)) addr (stat_bytes (stat_pad e) st) s2) (\<lambda>(r, s3).
             if r < 0 then Inr (-1, s3) else Inr (0, s3))))
     else Inr (-1, s))"

definition fileread :: "'a filek_scheme file_env \<Rightarrow> nat \<Rightarrow> u64 \<Rightarrow> int \<Rightarrow> 'a filek_scheme \<Rightarrow> (int \<times> 'a filek_scheme) res" where
  "fileread e f addr n s =
     (let x = getf s f in
      if \<not> readable x then Inr (-1, s)
      else case ftype x of
        FD_PIPE \<Rightarrow> piperead e (fpipe x) addr n s
      | FD_DEVICE \<Rightarrow>
          if sint (fmajor x) < 0 \<or> sint (fmajor x) \<ge> int NDEV then Inr (-1, s)
          else (case devread e (nat (sint (fmajor x))) of None \<Rightarrow> Inr (-1, s) | Some rd \<Rightarrow> rd addr n s)
      | FD_INODE \<Rightarrow>
          bindR (ilock (Some (fip x)) s) (\<lambda>s1.
            bindR (readi (fip x) True addr (foff (getf s1 f)) (word_of_int n) s1) (\<lambda>(r, s2).
              let s3 = (if r > 0 then upd_file f (\<lambda>y. y\<lparr>foff := foff y + word_of_int r\<rparr>) s2 else s2) in
              bindR (iunlock (Some (fip x)) s3) (\<lambda>s4. Inr (r, s4))))
      | FD_NONE \<Rightarrow> Inl (Panic ''fileread''))"

definition write_max :: int where
  "write_max = (int MAXOPBLOCKS - 1 - 1 - 2) div 2 * int BSIZE"

lemma write_max_pos: "0 < write_max"
  by (simp add: write_max_def MAXOPBLOCKS_def BSIZE_def)

text \<open>The result of the loop is the counter \<open>i\<close>.\<close>

function filewrite_loop :: "nat \<Rightarrow> u64 \<Rightarrow> int \<Rightarrow> int \<Rightarrow> 'a filek_scheme \<Rightarrow> (int \<times> 'a filek_scheme) res" where
  "filewrite_loop f addr n i s =
     (if i < n then
        let n1 = (if n - i > write_max then write_max else n - i) in
        bindR (ilock (Some (fip (getf s f))) s) (\<lambda>s1.
          bindR (writei (fip (getf s1 f)) True (addr + word_of_int i) (foff (getf s1 f)) (word_of_int n1) s1) (\<lambda>(r, s2).
            let s3 = (if r > 0 then upd_file f (\<lambda>y. y\<lparr>foff := foff y + word_of_int r\<rparr>) s2 else s2) in
            bindR (iunlock (Some (fip (getf s3 f))) s3) (\<lambda>s4.
              if r \<noteq> n1 then Inr (i, s4) else filewrite_loop f addr n (i + r) s4)))
      else Inr (i, s))"
  by pat_completeness auto
termination
  by (relation "measure (\<lambda>(f, addr, n, i, s). nat (n - i))") (use write_max_pos in \<open>auto split: if_splits\<close>)

declare filewrite_loop.simps [simp del]

definition filewrite :: "'a filek_scheme file_env \<Rightarrow> nat \<Rightarrow> u64 \<Rightarrow> int \<Rightarrow> 'a filek_scheme \<Rightarrow> (int \<times> 'a filek_scheme) res" where
  "filewrite e f addr n s =
     (let x = getf s f in
      if \<not> writable x then Inr (-1, s)
      else case ftype x of
        FD_PIPE \<Rightarrow> pipewrite e (fpipe x) addr n s
      | FD_DEVICE \<Rightarrow>
          if sint (fmajor x) < 0 \<or> sint (fmajor x) \<ge> int NDEV then Inr (-1, s)
          else (case devwrite e (nat (sint (fmajor x))) of None \<Rightarrow> Inr (-1, s) | Some wr \<Rightarrow> wr addr n s)
      | FD_INODE \<Rightarrow> bindR (filewrite_loop f addr n 0 s) (\<lambda>(i, s1). Inr (if i = n then n else -1, s1))
      | FD_NONE \<Rightarrow> Inl (Panic ''filewrite''))"

end
