(* ===== verification/Sysfile.thy ===== *)
theory Sysfile
  imports File
begin

text \<open>
  The system calls on files (\<open>xv6-lab-filesystem/sysfile.c\<close>, with symbolic links): descriptors, links,
  creation, opening, directories, \<open>exec\<close> and \<open>pipe\<close>. \<open>argint\<close> and \<open>argaddr\<close> never fail, so the code's tests of
  their results have no branch here. A path is the bytes of the caller's buffer up to the null byte.
\<close>

section \<open>Descriptors\<close>

definition MAXPATH :: nat where "MAXPATH = 128"
definition MAXARG :: nat where "MAXARG = 32"

definition O_RDONLY :: u32 where "O_RDONLY = 0x000"
definition O_WRONLY :: u32 where "O_WRONLY = 0x001"
definition O_RDWR :: u32 where "O_RDWR = 0x002"
definition O_CREATE :: u32 where "O_CREATE = 0x200"
definition O_TRUNC :: u32 where "O_TRUNC = 0x400"
definition O_NOFOLLOW :: u32 where "O_NOFOLLOW = 0x800"

definition argfd :: "nat \<Rightarrow> 'a filek_scheme \<Rightarrow> (nat \<times> nat) option res" where
  "argfd n s = bindR (argint n s) (\<lambda>fd. the_proc s (\<lambda>p.
     if fd < 0 \<or> fd \<ge> int NOFILE \<or> ofile (getp s p) ! nat fd = 0 then Inr None
     else Inr (Some (nat fd, ptr_file (ofile (getp s p) ! nat fd)))))"

definition set_ofile :: "nat \<Rightarrow> nat \<Rightarrow> u64 \<Rightarrow> 'a filek_scheme \<Rightarrow> 'a filek_scheme" where
  "set_ofile p fd a s = upd_proc p (\<lambda>q. q\<lparr>ofile := (ofile q)[fd := a]\<rparr>) s"

definition fdalloc :: "nat \<Rightarrow> 'a filek_scheme \<Rightarrow> (nat option \<times> 'a filek_scheme) res" where
  "fdalloc f s = the_proc s (\<lambda>p.
     case find (\<lambda>fd. ofile (getp s p) ! fd = 0) [0..<NOFILE] of
       Some fd \<Rightarrow> Inr (Some fd, set_ofile p fd (file_ptr f) s)
     | None \<Rightarrow> Inr (None, s))"

definition sys_dup :: "'a filek_scheme handler" where
  "sys_dup s = bindR (argfd 0 s) (\<lambda>r. case r of None \<Rightarrow> ret (-1) s
     | Some (_, f) \<Rightarrow> bindR (fdalloc f s) (\<lambda>(r, s1). case r of None \<Rightarrow> ret (-1) s1
       | Some fd \<Rightarrow> bindR (filedup f s1) (\<lambda>(_, s2). ret (int fd) s2)))"

definition sys_read :: "'a filek_scheme file_env \<Rightarrow> 'a filek_scheme handler" where
  "sys_read e s = bindR (argfd 0 s) (\<lambda>r. case r of None \<Rightarrow> ret (-1) s
     | Some (_, f) \<Rightarrow> bindR (argint 2 s) (\<lambda>n. bindR (argaddr 1 s) (\<lambda>p.
         bindR (fileread e f p n s) (\<lambda>(v, s1). ret v s1))))"

definition sys_write :: "'a filek_scheme file_env \<Rightarrow> 'a filek_scheme handler" where
  "sys_write e s = bindR (argfd 0 s) (\<lambda>r. case r of None \<Rightarrow> ret (-1) s
     | Some (_, f) \<Rightarrow> bindR (argint 2 s) (\<lambda>n. bindR (argaddr 1 s) (\<lambda>p.
         bindR (filewrite e f p n s) (\<lambda>(v, s1). ret v s1))))"

definition sys_close :: "'a filek_scheme file_env \<Rightarrow> 'a filek_scheme handler" where
  "sys_close e s = bindR (argfd 0 s) (\<lambda>r. case r of None \<Rightarrow> ret (-1) s
     | Some (fd, f) \<Rightarrow> the_proc s (\<lambda>p. bindR (fileclose e f (set_ofile p fd 0 s)) (\<lambda>s1. ret 0 s1)))"

definition sys_fstat :: "'a filek_scheme file_env \<Rightarrow> 'a filek_scheme handler" where
  "sys_fstat e s = bindR (argfd 0 s) (\<lambda>r. case r of None \<Rightarrow> ret (-1) s
     | Some (_, f) \<Rightarrow> bindR (argaddr 1 s) (\<lambda>st. bindR (filestat e f st s) (\<lambda>(v, s1). ret v s1)))"

section \<open>Links\<close>

text \<open>A path argument; a negative result of \<open>argstr\<close> is \<open>None\<close>.\<close>

definition argpath :: "nat \<Rightarrow> 'a filek_scheme \<Rightarrow> u8 list option res" where
  "argpath n s = bindR (argstr n MAXPATH s) (\<lambda>(r, buf). Inr (if r < 0 then None else Some (cstr buf)))"

abbreviation add_nlink :: "nat \<Rightarrow> u16 \<Rightarrow> 'a filek_scheme \<Rightarrow> 'a filek_scheme" where
  "add_nlink ip d s \<equiv> iupdate ip (upd_inode ip (\<lambda>i. i\<lparr>nlink := nlink i + d\<rparr>) s)"

definition link_bad :: "nat \<Rightarrow> 'a filek_scheme handler" where
  "link_bad ip s = bindR (ilock (Some ip) s) (\<lambda>s1.
     bindR (iunlockput ip (add_nlink ip (-1) s1)) (\<lambda>s2. ret (-1) s2))"

definition sys_link :: "'a filek_scheme handler" where
  "sys_link s = bindR (argpath 0 s) (\<lambda>r0. case r0 of None \<Rightarrow> ret (-1) s | Some old \<Rightarrow>
     bindR (argpath 1 s) (\<lambda>r1. case r1 of None \<Rightarrow> ret (-1) s | Some new \<Rightarrow>
       bindR (namei old s) (\<lambda>(r, s1). case r of None \<Rightarrow> ret (-1) s1 | Some ip \<Rightarrow>
         bindR (ilock (Some ip) s1) (\<lambda>s2.
           if itype (geti s2 ip) = T_DIR then bindR (iunlockput ip s2) (\<lambda>s3. ret (-1) s3)
           else bindR (iunlock (Some ip) (add_nlink ip 1 s2)) (\<lambda>s3.
             bindR (nameiparent new s3) (\<lambda>(r, s4). case r of None \<Rightarrow> link_bad ip s4 | Some (dp, name) \<Rightarrow>
               bindR (ilock (Some dp) s4) (\<lambda>s5.
                 bindR (if idev (geti s5 dp) \<noteq> idev (geti s5 ip) then Inr (-1, s5)
                        else dirlink dp name (inum (geti s5 ip)) s5) (\<lambda>(l, s6).
                   bindR (iunlockput dp s6) (\<lambda>s7.
                     if l < 0 then link_bad ip s7
                     else bindR (iput ip s7) (\<lambda>s8. ret 0 s8))))))))))"

fun isdirempty_scan :: "nat \<Rightarrow> nat list \<Rightarrow> 'a filek_scheme \<Rightarrow> (bool \<times> 'a filek_scheme) res" where
  "isdirempty_scan dp [] s = Inr (True, s)"
| "isdirempty_scan dp (off # offs) s =
     bindR (read_dirent ''isdirempty: readi'' dp off s) (\<lambda>(de, s1).
       if de_inum de \<noteq> 0 then Inr (False, s1) else isdirempty_scan dp offs s1)"

definition isdirempty :: "nat \<Rightarrow> 'a filek_scheme \<Rightarrow> (bool \<times> 'a filek_scheme) res" where
  "isdirempty dp s = isdirempty_scan dp (drop 2 (dir_offs (isize (geti s dp)))) s"

definition DOT :: "u8 list" where "DOT = [46]"
definition DOTDOT :: "u8 list" where "DOTDOT = [46, 46]"

definition unlink_entry :: "nat \<Rightarrow> nat \<Rightarrow> nat \<Rightarrow> 'a filek_scheme handler" where
  "unlink_entry dp ip off s =
     bindR (writei_from from_local dp (of_nat off) (of_nat sizeof_dirent) (replicate sizeof_dirent 0) s) (\<lambda>(w, s1).
       if w \<noteq> int sizeof_dirent then Inl (Panic ''unlink: writei'')
       else let s2 = (if itype (geti s1 ip) = T_DIR then add_nlink dp (-1) s1 else s1) in
         bindR (iunlockput dp s2) (\<lambda>s3.
           bindR (iunlockput ip (add_nlink ip (-1) s3)) (\<lambda>s4. ret 0 s4)))"

definition sys_unlink :: "'a filek_scheme handler" where
  "sys_unlink s = bindR (argpath 0 s) (\<lambda>r0. case r0 of None \<Rightarrow> ret (-1) s | Some path \<Rightarrow>
     bindR (nameiparent path s) (\<lambda>(r, s1). case r of None \<Rightarrow> ret (-1) s1 | Some (dp, name) \<Rightarrow>
       bindR (ilock (Some dp) s1) (\<lambda>s2.
         let bad = (\<lambda>s'. bindR (iunlockput dp s') (\<lambda>s''. ret (-1) s'')) in
         if namecmp name DOT = 0 \<or> namecmp name DOTDOT = 0 then bad s2
         else bindR (dirlookup dp name s2) (\<lambda>(r, s3). case r of None \<Rightarrow> bad s3 | Some (ip, off) \<Rightarrow>
           bindR (ilock (Some ip) s3) (\<lambda>s4.
             if sint (nlink (geti s4 ip)) < 1 then Inl (Panic ''unlink: nlink < 1'')
             else bindR (if itype (geti s4 ip) = T_DIR then isdirempty ip s4 else Inr (True, s4)) (\<lambda>(empty, s5).
               if \<not> empty then bindR (iunlockput ip s5) bad else unlink_entry dp ip off s5))))))"

section \<open>Creating\<close>

text \<open>The result is the new or existing inode, locked.\<close>

definition create_new :: "nat \<Rightarrow> u8 list \<Rightarrow> u16 \<Rightarrow> u16 \<Rightarrow> u16 \<Rightarrow> 'a filek_scheme \<Rightarrow> (nat option \<times> 'a filek_scheme) res" where
  "create_new dp name ty mj mn s =
     bindR (ialloc (idev (geti s dp)) ty s) (\<lambda>(ip, s1).
       bindR (ilock (Some ip) s1) (\<lambda>s2.
         let s3 = iupdate ip (upd_inode ip (\<lambda>i. i\<lparr>major := mj, minor := mn, nlink := 1\<rparr>) s2) in
         bindR (if ty = T_DIR then
             bindR (dirlink ip DOT (inum (geti s3 ip)) (add_nlink dp 1 s3)) (\<lambda>(l, s4).
               if l < 0 then Inl (Panic ''create dots'')
               else bindR (dirlink ip DOTDOT (inum (geti s4 dp)) s4) (\<lambda>(l2, s5).
                 if l2 < 0 then Inl (Panic ''create dots'') else Inr s5))
           else Inr s3) (\<lambda>s6.
           bindR (dirlink dp name (inum (geti s6 ip)) s6) (\<lambda>(l, s7).
             if l < 0 then Inl (Panic ''create: dirlink'')
             else bindR (iunlockput dp s7) (\<lambda>s8. Inr (Some ip, s8))))))"

definition create :: "u8 list \<Rightarrow> u16 \<Rightarrow> u16 \<Rightarrow> u16 \<Rightarrow> 'a filek_scheme \<Rightarrow> (nat option \<times> 'a filek_scheme) res" where
  "create path ty mj mn s =
     bindR (nameiparent path s) (\<lambda>(r, s1). case r of None \<Rightarrow> Inr (None, s1) | Some (dp, name) \<Rightarrow>
       bindR (ilock (Some dp) s1) (\<lambda>s2.
         bindR (dirlookup dp name s2) (\<lambda>(r, s3). case r of
           Some (ip, _) \<Rightarrow>
             bindR (iunlockput dp s3) (\<lambda>s4. bindR (ilock (Some ip) s4) (\<lambda>s5.
               if ty = T_FILE \<and> (itype (geti s5 ip) = T_FILE \<or> itype (geti s5 ip) = T_DEVICE) then Inr (Some ip, s5)
               else bindR (iunlockput ip s5) (\<lambda>s6. Inr (None, s6))))
         | None \<Rightarrow> create_new dp name ty mj mn s3)))"

section \<open>Opening\<close>

text \<open>
  The loop of \<open>getsymlink\<close>; \<open>target\<close> is the buffer on the stack, which keeps its old bytes where \<open>readi\<close> writes
  none. The outcome is the inode, locked, or that there is none; when the tenth link is reached the
  code returns with the last inode locked and referenced.
\<close>

function getsymlink_loop :: "nat \<Rightarrow> nat \<Rightarrow> u8 list \<Rightarrow> 'a filek_scheme \<Rightarrow> (nat option \<times> 'a filek_scheme) res" where
  "getsymlink_loop p cnt target s =
     bindR (readi_to to_local p 0 (of_nat MAXPATH) [] s) (\<lambda>(_, bs, s1).
       let target1 = bs @ drop (length bs) target in
       bindR (iunlockput p s1) (\<lambda>s2.
         bindR (namei (cstr target1) s2) (\<lambda>(r, s3). case r of None \<Rightarrow> Inr (None, s3) | Some q \<Rightarrow>
           bindR (ilock (Some q) s3) (\<lambda>s4.
             if cnt + 1 < 10 \<and> itype (geti s4 q) = T_SYMLINK then getsymlink_loop q (cnt + 1) target1 s4
             else if cnt + 1 = 10 then Inr (None, s4) else Inr (Some q, s4)))))"
  by pat_completeness auto
termination
  by (relation "measure (\<lambda>(p, cnt, target, s). 10 - cnt)") auto

declare getsymlink_loop.simps [simp del]

definition getsymlink :: "'a filek_scheme file_env \<Rightarrow> nat \<Rightarrow> 'a filek_scheme \<Rightarrow> (nat option \<times> 'a filek_scheme) res" where
  "getsymlink e ip s = getsymlink_loop ip 0 (stack_buf e) s"

text \<open>The inode to open, locked.\<close>

definition open_inode :: "'a filek_scheme file_env \<Rightarrow> u8 list \<Rightarrow> u32 \<Rightarrow> 'a filek_scheme \<Rightarrow> (nat option \<times> 'a filek_scheme) res" where
  "open_inode e path omode s =
     (if omode AND O_CREATE \<noteq> 0 then create path T_FILE 0 0 s
      else bindR (namei path s) (\<lambda>(r, s1). case r of None \<Rightarrow> Inr (None, s1) | Some ip \<Rightarrow>
        bindR (ilock (Some ip) s1) (\<lambda>s2.
          if itype (geti s2 ip) = T_DIR \<and> omode \<noteq> O_RDONLY then bindR (iunlockput ip s2) (\<lambda>s3. Inr (None, s3))
          else if itype (geti s2 ip) = T_SYMLINK \<and> omode \<noteq> O_NOFOLLOW then getsymlink e ip s2
          else Inr (Some ip, s2))))"

definition open_file :: "u32 \<Rightarrow> nat \<Rightarrow> nat \<Rightarrow> nat \<Rightarrow> 'a filek_scheme handler" where
  "open_file omode ip f fd s =
     (let s1 = (if itype (geti s ip) = T_DEVICE then upd_file f (\<lambda>x. x\<lparr>ftype := FD_DEVICE, fmajor := major (geti s ip)\<rparr>) s
                else upd_file f (\<lambda>x. x\<lparr>ftype := FD_INODE, foff := 0\<rparr>) s);
          s2 = upd_file f (\<lambda>x. x\<lparr>fip := ip, readable := (omode AND O_WRONLY = 0),
                 writable := (omode AND O_WRONLY \<noteq> 0 \<or> omode AND O_RDWR \<noteq> 0)\<rparr>) s1
      in bindR (if omode AND O_TRUNC \<noteq> 0 \<and> itype (geti s2 ip) = T_FILE then itrunc ip s2 else Inr s2) (\<lambda>s3.
           bindR (iunlock (Some ip) s3) (\<lambda>s4. ret (int fd) s4)))"

definition sys_open :: "'a filek_scheme file_env \<Rightarrow> 'a filek_scheme handler" where
  "sys_open e s = bindR (argpath 0 s) (\<lambda>r0. case r0 of None \<Rightarrow> ret (-1) s | Some path \<Rightarrow>
     bindR (argint 1 s) (\<lambda>om. let omode = word_of_int om :: u32 in
       bindR (open_inode e path omode s) (\<lambda>(r, s1). case r of None \<Rightarrow> ret (-1) s1 | Some ip \<Rightarrow>
         if itype (geti s1 ip) = T_DEVICE \<and> (sint (major (geti s1 ip)) < 0 \<or> sint (major (geti s1 ip)) \<ge> int NDEV) then
           bindR (iunlockput ip s1) (\<lambda>s2. ret (-1) s2)
         else case filealloc s1 of
           (None, s2) \<Rightarrow> bindR (iunlockput ip s2) (\<lambda>s3. ret (-1) s3)
         | (Some f, s2) \<Rightarrow> bindR (fdalloc f s2) (\<lambda>(r, s3). case r of
             None \<Rightarrow> bindR (fileclose e f s3) (\<lambda>s4. bindR (iunlockput ip s4) (\<lambda>s5. ret (-1) s5))
           | Some fd \<Rightarrow> open_file omode ip f fd s3))))"

section \<open>Directories and devices\<close>

definition sys_mkdir :: "'a filek_scheme handler" where
  "sys_mkdir s = bindR (argpath 0 s) (\<lambda>r0. case r0 of None \<Rightarrow> ret (-1) s | Some path \<Rightarrow>
     bindR (create path T_DIR 0 0 s) (\<lambda>(r, s1). case r of None \<Rightarrow> ret (-1) s1
       | Some ip \<Rightarrow> bindR (iunlockput ip s1) (\<lambda>s2. ret 0 s2)))"

definition sys_mknod :: "'a filek_scheme handler" where
  "sys_mknod s = bindR (argpath 0 s) (\<lambda>r0. case r0 of None \<Rightarrow> ret (-1) s | Some path \<Rightarrow>
     bindR (argint 1 s) (\<lambda>mj. bindR (argint 2 s) (\<lambda>mn.
       bindR (create path T_DEVICE (word_of_int mj) (word_of_int mn) s) (\<lambda>(r, s1). case r of None \<Rightarrow> ret (-1) s1
         | Some ip \<Rightarrow> bindR (iunlockput ip s1) (\<lambda>s2. ret 0 s2)))))"

definition sys_chdir :: "'a filek_scheme handler" where
  "sys_chdir s = the_proc s (\<lambda>p. bindR (argpath 0 s) (\<lambda>r0. case r0 of None \<Rightarrow> ret (-1) s | Some path \<Rightarrow>
     bindR (namei path s) (\<lambda>(r, s1). case r of None \<Rightarrow> ret (-1) s1 | Some ip \<Rightarrow>
       bindR (ilock (Some ip) s1) (\<lambda>s2.
         if itype (geti s2 ip) \<noteq> T_DIR then bindR (iunlockput ip s2) (\<lambda>s3. ret (-1) s3)
         else bindR (iunlock (Some ip) s2) (\<lambda>s3.
           bindR (iput (ptr_inode (cwd (getp s3 p))) s3) (\<lambda>s4.
             ret 0 (upd_proc p (\<lambda>q. q\<lparr>cwd := inode_ptr ip\<rparr>) s4)))))))"

section \<open>\<open>exec\<close> and \<open>pipe\<close>\<close>

text \<open>
  The argument vector is built in pages of the allocator: the pages so far, and whether the loop ended at the
  null pointer or at an error.
\<close>

function exec_args :: "u64 \<Rightarrow> nat \<Rightarrow> u64 list \<Rightarrow> 'a filek_scheme \<Rightarrow> (bool \<times> u64 list \<times> 'a filek_scheme) res" where
  "exec_args uargv i argv s =
     (if i \<ge> MAXARG then Inr (False, argv, s)
      else bindR (fetchaddr (uargv + 8 * of_nat i) s) (\<lambda>r. case r of None \<Rightarrow> Inr (False, argv, s) | Some uarg \<Rightarrow>
        if uarg = 0 then Inr (True, argv, s)
        else let (pg, s1) = kalloc s in
          if pg = 0 then Inr (False, argv, s1)
          else bindR (fetchstr uarg (unat PGSIZE) s1) (\<lambda>(n, buf).
            let s2 = s1\<lparr>mem := write_bytes (mem s1) pg buf\<rparr> in
            if n < 0 then Inr (False, argv @ [pg], s2) else exec_args uargv (i + 1) (argv @ [pg]) s2)))"
  by pat_completeness auto
termination
  by (relation "measure (\<lambda>(uargv, i, argv, s). MAXARG - i)") auto

declare exec_args.simps [simp del]

text \<open>\<open>exec\<close> is an argument: it gets the path and the pages of the argument strings.\<close>

definition sys_exec :: "(u8 list \<Rightarrow> u64 list \<Rightarrow> 'a filek_scheme \<Rightarrow> (int \<times> 'a filek_scheme) res) \<Rightarrow> 'a filek_scheme handler" where
  "sys_exec exec s = bindR (argpath 0 s) (\<lambda>r0. case r0 of None \<Rightarrow> ret (-1) s | Some path \<Rightarrow>
     bindR (argaddr 1 s) (\<lambda>uargv. bindR (exec_args uargv 0 [] s) (\<lambda>(ok, argv, s1).
       bindR (if ok then exec path argv s1 else Inr (-1, s1)) (\<lambda>(v, s2).
         bindR (fold_res kfree argv s2) (\<lambda>s3. ret v s3)))))"

definition fd_bytes :: "nat \<Rightarrow> u8 list" where
  "fd_bytes fd = le_bytes 4 (of_nat fd :: u32)"

definition close_both :: "'a filek_scheme file_env \<Rightarrow> nat \<Rightarrow> nat \<Rightarrow> 'a filek_scheme handler" where
  "close_both e rdf wrf s = bindR (fileclose e rdf s) (\<lambda>s1. bindR (fileclose e wrf s1) (\<lambda>s2. ret (-1) s2))"

definition sys_pipe :: "'a filek_scheme file_env \<Rightarrow> 'a filek_scheme handler" where
  "sys_pipe e s = the_proc s (\<lambda>p. bindR (argaddr 0 s) (\<lambda>fdarray. bindR (pipealloc e s) (\<lambda>(v, rdf, wrf, s1).
     if v < 0 then ret (-1) s1
     else bindR (fdalloc rdf s1) (\<lambda>(r0, s2). case r0 of
       None \<Rightarrow> close_both e rdf wrf s2
     | Some fd0 \<Rightarrow> bindR (fdalloc wrf s2) (\<lambda>(r1, s3). case r1 of
         None \<Rightarrow> close_both e rdf wrf (set_ofile p fd0 0 s3)
       | Some fd1 \<Rightarrow>
         bindR (copyout kalloc (pagetable (getp s3 p)) fdarray (fd_bytes fd0) s3) (\<lambda>(c0, s4).
           bindR (if c0 < 0 then Inr (c0, s4)
                  else copyout kalloc (pagetable (getp s4 p)) (fdarray + 4) (fd_bytes fd1) s4) (\<lambda>(c1, s5).
             if c1 < 0 then close_both e rdf wrf (set_ofile p fd1 0 (set_ofile p fd0 0 s5))
             else ret 0 s5)))))))"

section \<open>Symbolic links\<close>

text \<open>
  \<open>sys_symlink\<close> writes the whole buffer \<open>target\<close>, of which \<open>argstr\<close> has set the beginning.
\<close>

definition sys_symlink :: "'a filek_scheme file_env \<Rightarrow> 'a filek_scheme handler" where
  "sys_symlink e s = bindR (argstr 0 MAXPATH s) (\<lambda>(n, buf).
     if n < 0 then ret (-1) s
     else bindR (argpath 1 s) (\<lambda>r0. case r0 of None \<Rightarrow> ret (-1) s | Some path \<Rightarrow>
       bindR (nameiparent path s) (\<lambda>(r, s1). case r of None \<Rightarrow> ret (-1) s1 | Some (dp, name) \<Rightarrow>
         bindR (ialloc (idev (geti s1 dp)) T_SYMLINK s1) (\<lambda>(sp, s2).
           bindR (ilock (Some sp) s2) (\<lambda>s3.
             bindR (writei_from from_local sp 0 (of_nat MAXPATH) (buf @ drop (length buf) (stack_buf e)) s3) (\<lambda>(w, s4).
               if w \<noteq> int MAXPATH then bindR (iunlockput sp s4) (\<lambda>s5. bindR (iput dp s5) (\<lambda>s6. ret (-1) s6))
               else bindR (ilock (Some dp) s4) (\<lambda>s5.
                 bindR (dirlink dp name (inum (geti s5 sp)) s5) (\<lambda>(l, s6).
                   bindR (iunlockput dp s6) (\<lambda>s7.
                     if l < 0 then bindR (iunlockput sp s7) (\<lambda>s8. ret (-1) s8)
                     else bindR (iunlockput sp (add_nlink sp 1 s7)) (\<lambda>s8. ret 0 s8))))))))))"

end
