(* ===== verification/FsFrame.thy ===== *)
theory FsFrame
  imports Fs VmFrame
begin

text \<open>
  The file system changes blocks, the log and the inode table, and copies to memory: a part \<open>g\<close> of the
  state that depends on none of them survives every operation of \<open>fs.c\<close>. The process table and the table of
  open files are such parts.
\<close>

locale outside_fs =
  fixes g :: "'a fsk_scheme \<Rightarrow> 'b"
  assumes g_mem: "g (s\<lparr>mem := m\<rparr>) = g s"
    and g_blocks: "g (s\<lparr>blocks := b\<rparr>) = g s"
    and g_logged: "g (s\<lparr>logged := l\<rparr>) = g s"
    and g_itable: "g (s\<lparr>itable := t\<rparr>) = g s"
begin

lemma g_prims [simp]:
  "g (log_write b s) = g s" "g (set_block b d s) = g s" "g (upd_inode ip f s) = g s" "g (bzero b s) = g s" "g (iupdate ip s) = g s"
  by (simp_all add: log_write_def set_block_def upd_inode_def bzero_def iupdate_def Let_def g_blocks g_logged g_itable)

lemma g_balloc_from: "balloc_from b s = Inr (a, s') \<Longrightarrow> g s' = g s"
  by (induction b s rule: balloc_from.induct)
     (auto simp: balloc_from.simps Let_def split: if_splits option.splits)

lemma g_balloc: "balloc s = Inr (a, s') \<Longrightarrow> g s' = g s"
  by (simp add: balloc_def g_balloc_from)

lemma g_bfree: "bfree b s = Inr s' \<Longrightarrow> g s' = g s"
  by (auto simp: bfree_def Let_def split: if_splits)

lemma g_iget: "iget d n s = Inr (ip, s') \<Longrightarrow> g s' = g s"
  by (auto simp: iget_def split: option.splits)

lemma g_ialloc_from: "ialloc_from d ty n s = Inr (ip, s') \<Longrightarrow> g s' = g s"
  by (induction d ty n s rule: ialloc_from.induct)
     (auto simp: ialloc_from.simps Let_def dest!: g_iget split: if_splits)

lemma g_ialloc: "ialloc d ty s = Inr (ip, s') \<Longrightarrow> g s' = g s"
  by (simp add: ialloc_def g_ialloc_from)

lemma g_idup: "idup ip s = (ip', s') \<Longrightarrow> g s' = g s"
  by (auto simp: idup_def)

lemma g_ilock: "ilock r s = Inr s' \<Longrightarrow> g s' = g s"
  by (auto simp: ilock_def Let_def split: option.splits if_splits)

lemma g_iunlock: "iunlock r s = Inr s' \<Longrightarrow> g s' = g s"
  by (auto simp: iunlock_def split: option.splits if_splits)

lemma g_inode_slot: "inode_slot ip k s = Inr (a, s') \<Longrightarrow> g s' = g s"
  by (auto simp: inode_slot_def Let_def bindR_Inr_iff dest!: g_balloc split: if_splits)

lemma g_indirect_slot: "indirect_slot b k s = Inr (a, s') \<Longrightarrow> g s' = g s"
  by (auto simp: indirect_slot_def Let_def bindR_Inr_iff dest!: g_balloc split: if_splits)

lemma g_bmap: "bmap ip bn s = Inr (a, s') \<Longrightarrow> g s' = g s"
  by (auto simp: bmap_def Let_def bindR_Inr_iff dest!: g_inode_slot g_indirect_slot split: if_splits)

lemma g_fold: "(\<And>i s s'. f i s = Inr s' \<Longrightarrow> g s' = g s) \<Longrightarrow> fold_res f xs s = Inr s' \<Longrightarrow> g s' = g s"
  by (induction xs arbitrary: s) (auto simp: bindR_Inr_iff)

lemma g_free_direct: "free_direct ip i s = Inr s' \<Longrightarrow> g s' = g s"
  by (auto simp: free_direct_def bindR_Inr_iff dest!: g_bfree split: if_splits)

lemma g_free_entry: "free_entry bp i s = Inr s' \<Longrightarrow> g s' = g s"
  by (auto simp: free_entry_def Let_def dest!: g_bfree split: if_splits)

lemma g_free_directs: "fold_res (free_direct ip) xs s = Inr s' \<Longrightarrow> g s' = g s"
  by (rule g_fold) (auto dest: g_free_direct)

lemma g_free_entries: "fold_res (free_entry bp) xs s = Inr s' \<Longrightarrow> g s' = g s"
  by (rule g_fold) (auto dest: g_free_entry)

lemma g_itrunc: "itrunc ip s = Inr s' \<Longrightarrow> g s' = g s"
  unfolding itrunc_def by (auto simp: bindR_Inr_iff Let_def dest!: g_bfree g_free_directs g_free_entries split: if_splits)

lemma g_iput: "iput ip s = Inr s' \<Longrightarrow> g s' = g s"
  by (auto simp: iput_def bindR_Inr_iff Let_def dest!: g_itrunc split: if_splits)

lemma g_iunlockput: "iunlockput ip s = Inr s' \<Longrightarrow> g s' = g s"
  by (auto simp: iunlockput_def bindR_Inr_iff dest!: g_iunlock g_iput)

section \<open>Reading and writing\<close>

lemma g_readi_loop:
  assumes "\<And>bs acc s r acc' s'. snk bs acc s = Inr (r, acc', s') \<Longrightarrow> g s' = g s"
    and "readi_loop snk ip n tot off acc s = Inr (r, acc', s')"
  shows "g s' = g s"
  using assms
proof (induction snk ip n tot off acc s rule: readi_loop.induct)
  case (1 snk ip n tot off acc s)
  show ?case
  proof (cases "tot < n")
    case True
    let ?m = "chunk (n - tot) off"
    from True "1.prems"(2) obtain a s1 v acc1 s2 where b: "bmap ip (off div BSIZE) s = Inr (a, s1)"
      "snk (bslice (off mod BSIZE) ?m (blocks s1 a)) acc s1 = Inr (v, acc1, s2)"
      by (auto simp: readi_loop.simps[of snk ip] bindR_Inr_iff Let_def)
    have g2: "g s2 = g s" using g_bmap[OF b(1)] "1.prems"(1)[OF b(2)] by simp
    show ?thesis
    proof (cases "v = -1")
      case f: True
      then show ?thesis using True b g2 "1.prems"(2) by (simp add: readi_loop.simps[of snk ip] Let_def)
    next
      case f: False
      then have "readi_loop snk ip n (tot + ?m) (off + ?m) acc1 s2 = Inr (r, acc', s')"
        using True b "1.prems"(2) by (simp add: readi_loop.simps[of snk ip n tot] Let_def)
      from "1.IH"[OF True b(1) refl refl b(2) refl refl f "1.prems"(1) this] g2 show ?thesis by simp
    qed
  qed (use "1.prems" in \<open>simp add: readi_loop.simps[of snk ip]\<close>)
qed

lemma g_readi_to:
  assumes "\<And>bs acc s r acc' s'. snk bs acc s = Inr (r, acc', s') \<Longrightarrow> g s' = g s"
    and "readi_to snk ip off n acc s = Inr (r, acc', s')"
  shows "g s' = g s"
  using g_readi_loop[OF assms(1)] assms(2) by (fastforce simp: readi_to_def Let_def split: if_splits)

lemma g_copyout_mem: "copyout ka pt va src s = Inr (r, s') \<Longrightarrow> g s' = g s"
proof (induction ka pt va src s rule: copyout.induct)
  case (1 ka pt va src s)
  show ?case
  proof (cases "src = []")
    case False
    then have ne: "0 < length src" by simp
    with "1.prems" obtain pa where w: "walkaddr ka pt (PGROUNDDOWN va) s = Inr pa"
      by (auto simp: copyout.simps[of ka pt va] bindR_Inr_iff Let_def)
    show ?thesis
    proof (cases "pa = 0")
      case True
      then show ?thesis using ne w "1.prems" by (simp add: copyout.simps[of ka pt va] Let_def)
    next
      case nz: False
      have "copyout ka pt (PGROUNDDOWN va + PGSIZE) (drop (copy_chunk va (length src)) src)
          (s\<lparr>mem := write_bytes (mem s) (pa + (va - PGROUNDDOWN va)) (take (copy_chunk va (length src)) src)\<rparr>) = Inr (r, s')"
        using ne w nz "1.prems" by (simp add: copyout.simps[of ka pt va] Let_def)
      from "1.IH"[OF ne refl w nz refl this] show ?thesis by (simp add: g_mem)
    qed
  qed (use "1.prems" in \<open>simp add: copyout.simps[of ka pt va]\<close>)
qed

lemma g_either_copyout: "either_copyout u a bs s = Inr (r, s') \<Longrightarrow> g s' = g s"
  by (auto simp: either_copyout_def the_proc_def g_mem split: if_splits option.splits dest!: g_copyout_mem)

lemma g_readi: "readi ip u a off n s = Inr (r, s') \<Longrightarrow> g s' = g s"
  by (auto simp: readi_def to_mem_def bindR_Inr_iff dest!: g_readi_to[rotated] g_either_copyout)

lemma g_read_local: "readi_to to_local ip off n acc s = Inr (r, acc', s') \<Longrightarrow> g s' = g s"
  by (rule g_readi_to) (auto simp: to_local_def)

lemma g_writei_loop: "writei_loop src ip n tot off acc s = Inr (t, off', s') \<Longrightarrow> g s' = g s"
proof (induction src ip n tot off acc s rule: writei_loop.induct)
  case (1 src ip n tot off acc s)
  show ?case
  proof (cases "tot < n")
    case True
    let ?m = "chunk (n - tot) off"
    from True "1.prems" obtain a s1 v bs acc1 where b: "bmap ip (off div BSIZE) s = Inr (a, s1)" "src ?m acc s1 = Inr (v, bs, acc1)"
      by (auto simp: writei_loop.simps[of src ip] bindR_Inr_iff Let_def)
    define s2 where "s2 = set_block a (bsplice (off mod BSIZE) bs (blocks s1 a)) s1"
    have g2: "g s2 = g s" using g_bmap[OF b(1)] by (simp add: s2_def)
    show ?thesis
    proof (cases "v = -1")
      case f: True
      then show ?thesis using True b g2 "1.prems" by (auto simp: writei_loop.simps[of src ip] Let_def s2_def)
    next
      case f: False
      then have "writei_loop src ip n (tot + ?m) (off + ?m) acc1 (log_write a s2) = Inr (t, off', s')"
        using True b "1.prems" by (simp add: writei_loop.simps[of src ip n tot] Let_def s2_def)
      from "1.IH"[OF True b(1) refl refl b(2) refl refl s2_def f this] g2 show ?thesis by simp
    qed
  qed (use "1.prems" in \<open>simp add: writei_loop.simps[of src ip]\<close>)
qed

lemma g_writei_from: "writei_from src ip off n acc s = Inr (r, s') \<Longrightarrow> g s' = g s"
  by (auto simp: writei_from_def bindR_Inr_iff Let_def dest!: g_writei_loop split: if_splits)

lemma g_writei: "writei ip u a off n s = Inr (r, s') \<Longrightarrow> g s' = g s"
  by (auto simp: writei_def dest: g_writei_from)

section \<open>Directories and paths\<close>

lemma g_read_dirent: "read_dirent msg dp off s = Inr (de, s') \<Longrightarrow> g s' = g s"
  by (auto simp: read_dirent_def bindR_Inr_iff dest!: g_read_local split: if_splits)

lemma g_dirlookup_scan: "dirlookup_scan dp name offs s = Inr (r, s') \<Longrightarrow> g s' = g s"
proof (induction offs arbitrary: s)
  case (Cons off offs)
  from Cons.prems obtain de s1 where d: "read_dirent ''dirlookup read'' dp off s = Inr (de, s1)" by (auto simp: bindR_Inr_iff)
  note g1 = g_read_dirent[OF d]
  show ?case
  proof (cases "de_inum de \<noteq> 0 \<and> namecmp name (de_name de) = 0")
    case True
    then show ?thesis using Cons.prems d g1 by (auto simp: bindR_Inr_iff dest!: g_iget)
  next
    case False
    then have "dirlookup_scan dp name offs s1 = Inr (r, s')" using Cons.prems d by (auto split: if_splits)
    then show ?thesis using Cons.IH g1 by simp
  qed
qed simp

lemma g_dirlookup: "dirlookup dp name s = Inr (r, s') \<Longrightarrow> g s' = g s"
  by (auto simp: dirlookup_def dest: g_dirlookup_scan split: if_splits)

lemma g_dirlink_scan: "dirlink_scan dp offs s = Inr (r, s') \<Longrightarrow> g s' = g s"
proof (induction offs arbitrary: s)
  case (Cons off offs)
  from Cons.prems obtain de s1 where d: "read_dirent ''dirlink read'' dp off s = Inr (de, s1)" by (auto simp: bindR_Inr_iff)
  then show ?case using Cons g_read_dirent[OF d] by (cases "de_inum de = 0") auto
qed simp

lemma g_dirlink: "dirlink dp name n s = Inr (r, s') \<Longrightarrow> g s' = g s"
  by (auto simp: dirlink_def bindR_Inr_iff Let_def dest!: g_dirlookup g_iput g_dirlink_scan g_writei_from
      split: option.splits if_splits)

lemma g_namex_loop: "namex_loop ip path np name s = Inr (r, s') \<Longrightarrow> g s' = g s"
proof (induction ip path np name s rule: namex_loop.induct)
  case (1 ip path np name s)
  show ?case
  proof (cases "skipelem path")
    case None
    then show ?thesis using "1.prems" by (auto simp: namex_loop.simps[of ip path] bindR_Inr_iff dest!: g_iput split: if_splits)
  next
    case (Some er)
    obtain e rest where er: "er = (e, rest)" by fastforce
    from Some er "1.prems" obtain s1 where s1: "ilock (Some ip) s = Inr s1"
      by (auto simp: namex_loop.simps[of ip path] bindR_Inr_iff)
    note g1 = g_ilock[OF s1]
    show ?thesis
    proof (cases "itype (geti s1 ip) \<noteq> T_DIR \<or> np \<and> rest = []")
      case True
      then show ?thesis using "1.prems" Some er s1 g1
        by (auto simp: namex_loop.simps[of ip path] bindR_Inr_iff dest!: g_iunlockput g_iunlock split: if_splits)
    next
      case F: False
      with "1.prems" Some er s1 obtain q s2 s3 where d: "dirlookup ip e s1 = Inr (q, s2)" "iunlockput ip s2 = Inr s3"
        by (auto simp: namex_loop.simps[of ip path] bindR_Inr_iff split: option.splits)
      have g3: "g s3 = g s" using g1 g_dirlookup[OF d(1)] g_iunlockput[OF d(2)] by simp
      show ?thesis
      proof (cases q)
        case None
        then show ?thesis using "1.prems" Some er s1 F d g3 by (auto simp: namex_loop.simps[of ip path])
      next
        case (Some nx)
        obtain nxt off where nx: "nx = (nxt, off)" by fastforce
        have r: "namex_loop nxt rest np e s3 = Inr (r, s')"
          using "1.prems" \<open>skipelem path = Some er\<close> er s1 F d Some nx by (auto simp: namex_loop.simps[of ip path])
        show ?thesis
          using "1.IH"[OF \<open>skipelem path = Some er\<close> er[symmetric] s1 _ _ d(1) refl Some nx[symmetric] d(2) r] F g3 by simp
      qed
    qed
  qed
qed

lemma g_namex: "namex path np s = Inr (r, s') \<Longrightarrow> g s' = g s"
  by (auto simp: namex_def bindR_Inr_iff the_proc_def dest!: g_namex_loop g_iget g_idup split: if_splits option.splits)

lemma g_namei: "namei path s = Inr (r, s') \<Longrightarrow> g s' = g s"
  by (auto simp: namei_def bindR_Inr_iff dest!: g_namex)

lemma g_nameiparent: "nameiparent path s = Inr (r, s') \<Longrightarrow> g s' = g s"
  by (simp add: nameiparent_def g_namex)

end

end
