(* ===== verification/SysfileCorrect.thy ===== *)
theory SysfileCorrect
  imports Sysfile FsFrame
begin

text \<open>
  Descriptors and open files agree: the reference count of an entry of the file table is the number of
  descriptors that name it, over all processes, and every descriptor names an entry of the table.
  The system calls on files keep this.
\<close>

section \<open>What the file system leaves alone\<close>

definition fview :: "'a filek_scheme \<Rightarrow> (proc list \<times> int \<times> nat option \<times> nat option list \<times> nat) \<times> sfile list" where
  "fview s = (kstat s, ftable s)"

interpretation ff: outside_fs fview
  by unfold_locales (simp_all add: fview_def kstat_def)

lemma fviewD:
  assumes "fview s' = fview s"
  shows "procs s' = procs s" "ftable s' = ftable s" "myproc s' = myproc s"
  using assms by (auto simp: fview_def kstat_def myproc_def mycpu_def cpuid_def)

lemmas fview_dests = ff.g_ilock ff.g_iunlock ff.g_iput ff.g_iunlockput ff.g_itrunc ff.g_namei ff.g_nameiparent ff.g_dirlookup
  ff.g_dirlink ff.g_ialloc ff.g_writei_from ff.g_writei ff.g_readi ff.g_read_local ff.g_read_dirent ff.g_copyout_mem

lemma fview_isdirempty_scan: "isdirempty_scan dp offs s = Inr (b, s') \<Longrightarrow> fview s' = fview s"
proof (induction offs arbitrary: s)
  case (Cons off offs)
  from Cons.prems obtain de s1 where d: "read_dirent ''isdirempty: readi'' dp off s = Inr (de, s1)" by (auto simp: bindR_Inr_iff)
  then show ?case using Cons ff.g_read_dirent[OF d] by (cases "de_inum de = 0") auto
qed simp

lemma fview_create_new: "create_new dp name ty mj mn s = Inr (r, s') \<Longrightarrow> fview s' = fview s"
  by (auto simp: create_new_def bindR_Inr_iff Let_def dest!: fview_dests split: if_splits)

lemma fview_create: "create path ty mj mn s = Inr (r, s') \<Longrightarrow> fview s' = fview s"
  by (auto simp: create_def bindR_Inr_iff dest!: fview_dests fview_create_new split: if_splits option.splits)

lemma fview_getsymlink_loop: "getsymlink_loop p cnt target s = Inr (r, s') \<Longrightarrow> fview s' = fview s"
proof (induction p cnt target s rule: getsymlink_loop.induct)
  case (1 p cnt target s)
  note U = getsymlink_loop.simps[of p cnt target s]
  from "1.prems" obtain v bs s1 s2 q s3 where a: "readi_to to_local p 0 (of_nat MAXPATH) [] s = Inr (v, bs, s1)"
    "iunlockput p s1 = Inr s2" "namei (cstr (bs @ drop (length bs) target)) s2 = Inr (q, s3)"
    by (auto simp: U bindR_Inr_iff Let_def)
  have g3: "fview s3 = fview s"
    using ff.g_read_local[OF a(1)] ff.g_iunlockput[OF a(2)] ff.g_namei[OF a(3)] by simp
  show ?case
  proof (cases q)
    case None
    then show ?thesis using "1.prems" a g3 by (simp add: U Let_def)
  next
    case (Some ip)
    with "1.prems" a obtain s4 where l: "ilock (Some ip) s3 = Inr s4" by (auto simp: U bindR_Inr_iff Let_def)
    have g4: "fview s4 = fview s" using ff.g_ilock[OF l] g3 by simp
    show ?thesis
    proof (cases "cnt + 1 < 10 \<and> itype (geti s4 ip) = T_SYMLINK")
      case True
      then have "getsymlink_loop ip (cnt + 1) (bs @ drop (length bs) target) s4 = Inr (r, s')"
        using "1.prems" a Some l by (simp add: U Let_def)
      from "1.IH"[OF a(1) refl refl refl a(2,3) refl Some l True this] g4 show ?thesis by simp
    next
      case False
      then show ?thesis using "1.prems" a Some l g4 by (auto simp: U Let_def split: if_splits)
    qed
  qed
qed

lemma fview_open_inode: "open_inode e path om s = Inr (r, s') \<Longrightarrow> fview s' = fview s"
  by (auto simp: open_inode_def getsymlink_def bindR_Inr_iff dest!: fview_dests fview_create fview_getsymlink_loop
      split: if_splits option.splits)

section \<open>Counting descriptors\<close>

definition fd_refs :: "proc list \<Rightarrow> u64 \<Rightarrow> nat" where
  "fd_refs ps a = count_list (concat (map ofile ps)) a"

lemma count_concat_update:
  assumes "i < length xss"
  shows "count_list (concat (xss[i := ys])) a + count_list (xss ! i) a = count_list (concat xss) a + count_list ys a"
  using assms
proof (induction xss arbitrary: i)
  case (Cons xs xss)
  then show ?case by (cases i) (auto simp: algebra_simps)
qed simp

lemma count_update:
  "i < length xs \<Longrightarrow> count_list (xs[i := y]) a + of_bool (xs ! i = a) = count_list xs a + of_bool (y = a)"
proof (induction xs arbitrary: i)
  case (Cons x xs)
  then show ?case by (cases i) (auto split: if_splits)
qed simp

lemma fd_refs_update:
  assumes "p < length ps" "fd < length (ofile (ps ! p))"
  shows "fd_refs (ps[p := (ps ! p)\<lparr>ofile := (ofile (ps ! p))[fd := b]\<rparr>]) a + of_bool (ofile (ps ! p) ! fd = a) =
    fd_refs ps a + of_bool (b = a)"
  using count_concat_update[of p "map ofile ps" "(ofile (ps ! p))[fd := b]" a] count_update[OF assms(2), of b a] assms(1)
  by (simp add: fd_refs_def map_update)

lemma length_concat_const: "(\<And>xs. xs \<in> set xss \<Longrightarrow> length xs = n) \<Longrightarrow> length (concat xss) = length xss * n"
  by (induction xss) auto

definition procs_ok :: "proc list \<Rightarrow> bool" where
  "procs_ok ps \<longleftrightarrow> length ps = NPROC \<and> (\<forall>p<NPROC. length (ofile (ps ! p)) = NOFILE)"

text \<open>Every descriptor is null or names an entry of the table, and the counts agree.\<close>

definition refs_ok :: "'a filek_scheme \<Rightarrow> bool" where
  "refs_ok s \<longleftrightarrow> procs_ok (procs s) \<and> length (ftable s) = NFILE \<and>
     (\<forall>p<NPROC. \<forall>a\<in>set (ofile (getp s p)). a = 0 \<or> (\<exists>f<NFILE. a = file_ptr f)) \<and>
     (\<forall>f<NFILE. fref (getf s f) = int (fd_refs (procs s) (file_ptr f)))"

lemma refs_ok_fview:
  assumes "fview s' = fview s"
  shows "refs_ok s' = refs_ok s"
  unfolding refs_ok_def fviewD[OF assms] ..

lemma fd_refs_bound: "procs_ok ps \<Longrightarrow> fd_refs ps a < 2 ^ 31 - 1"
proof -
  assume ok: "procs_ok ps"
  have "length xs = NOFILE" if "xs \<in> set (map ofile ps)" for xs
    using that ok by (auto simp: procs_ok_def in_set_conv_nth)
  then have "length (concat (map ofile ps)) = NPROC * NOFILE" using length_concat_const ok by (metis length_map procs_ok_def)
  then show ?thesis unfolding fd_refs_def using count_le_length[of "concat (map ofile ps)" a] by (simp add: NPROC_def NOFILE_def)
qed

lemma file_ptr_simps [simp]: "f < NFILE \<Longrightarrow> file_ptr f \<noteq> 0" "f < NFILE \<Longrightarrow> ptr_file (file_ptr f) = f"
    "f < NFILE \<Longrightarrow> f' < NFILE \<Longrightarrow> file_ptr f = file_ptr f' \<longleftrightarrow> f = f'"
proof -
  have u: "unat (file_ptr f) = f + 1" if "f < NFILE" for f
  proof -
    have "file_ptr f = of_nat (f + 1)" by (simp add: file_ptr_def)
    moreover have "(f + 1) mod 2 ^ 64 = f + 1" using that by (simp add: NFILE_def)
    ultimately show ?thesis by (simp only: unat_of_nat word_size len_of_numeral_defs) simp
  qed
  show "f < NFILE \<Longrightarrow> file_ptr f \<noteq> 0" using u[of f] by (metis add_is_0 one_neq_zero unat_0)
  show "f < NFILE \<Longrightarrow> ptr_file (file_ptr f) = f"
    unfolding ptr_file_def file_ptr_def NFILE_def by (simp add: unat_of_nat)
  show "f < NFILE \<Longrightarrow> f' < NFILE \<Longrightarrow> file_ptr f = file_ptr f' \<longleftrightarrow> f = f'" using u by (metis add_right_imp_eq)
qed

text \<open>The running process is in the table.\<close>

definition my_ok :: "'a filek_scheme \<Rightarrow> bool" where
  "my_ok s \<longleftrightarrow> (\<forall>p. myproc s = Some p \<longrightarrow> p < NPROC)"

lemma set_ofile_simps [simp]:
  "procs (set_ofile p fd a s) = (procs s)[p := (getp s p)\<lparr>ofile := (ofile (getp s p))[fd := a]\<rparr>]"
  "ftable (set_ofile p fd a s) = ftable s" "myproc (set_ofile p fd a s) = myproc s"
  by (simp_all add: set_ofile_def upd_proc_def myproc_def mycpu_def cpuid_def)

lemma upd_file_simps [simp]:
  "procs (upd_file f g s) = procs s" "ftable (upd_file f g s) = (ftable s)[f := g (getf s f)]" "myproc (upd_file f g s) = myproc s"
  by (simp_all add: upd_file_def myproc_def mycpu_def cpuid_def)

lemma argfd_spec:
  assumes "refs_ok s" "my_ok s" "argfd n s = Inr (Some (fd, f))"
  obtains p where "myproc s = Some p" "p < NPROC" "fd < NOFILE" "f < NFILE" "ofile (getp s p) ! fd = file_ptr f"
proof -
  from assms(3) obtain p v where p: "myproc s = Some p" "0 \<le> v" "v < int NOFILE" "fd = nat v" "ofile (getp s p) ! fd \<noteq> 0"
    "f = ptr_file (ofile (getp s p) ! fd)"
  proof (cases "myproc s")
    case (Some p)
    then obtain v where "\<not> v < 0" "\<not> int NOFILE \<le> v" "ofile (getp s p) ! nat v \<noteq> 0" "fd = nat v" "f = ptr_file (ofile (getp s p) ! fd)"
      using assms(3) by (auto simp: argfd_def bindR_Inr_iff the_proc_def split: if_splits)
    with Some show thesis by (intro that[of p v]) auto
  qed (use assms(3) in \<open>auto simp: argfd_def bindR_Inr_iff the_proc_def\<close>)
  have pn: "p < NPROC" using assms(2) p(1) by (simp add: my_ok_def)
  have fd: "fd < NOFILE" using p by (simp add: nat_less_iff)
  have "ofile (getp s p) ! fd \<in> set (ofile (getp s p))" using assms(1) pn fd by (simp add: refs_ok_def procs_ok_def)
  then obtain f' where "f' < NFILE" "ofile (getp s p) ! fd = file_ptr f'" using assms(1) pn p(5) unfolding refs_ok_def by blast
  with p(1,6) pn fd show ?thesis by (intro that[of p]) simp_all
qed

lemma refs_pos:
  assumes "refs_ok s" "p < NPROC" "fd < NOFILE" "f < NFILE" "ofile (getp s p) ! fd = file_ptr f"
  shows "0 < fref (getf s f)" "fref (getf s f) < 2 ^ 31 - 1"
proof -
  have P: "procs_ok (procs s)" "fref (getf s f) = int (fd_refs (procs s) (file_ptr f))" using assms by (auto simp: refs_ok_def)
  have "file_ptr f \<in> set (concat (map ofile (procs s)))"
    using assms P(1) by (auto simp: procs_ok_def intro!: bexI[of _ "getp s p"] simp flip: assms(5))
  then show "0 < fref (getf s f)" using P(2) by (metis count_list_0_iff fd_refs_def of_nat_0_less_iff zero_less_iff_neq_zero)
  show "fref (getf s f) < 2 ^ 31 - 1" using fd_refs_bound[OF P(1), of "file_ptr f"] P(2) by simp
qed

section \<open>The calls\<close>

text \<open>
  What the code relies on in pipes and devices: they leave the process table and the file table alone, but for
  \<open>pipealloc\<close>, which returns two entries that were not in use, each with one reference, or fails and
  leaves the counts as they were.
\<close>

definition fresh_pair :: "int \<Rightarrow> nat \<Rightarrow> nat \<Rightarrow> 'a filek_scheme \<Rightarrow> 'a filek_scheme \<Rightarrow> bool" where
  "fresh_pair r rdf wrf s s' \<longleftrightarrow> kstat s' = kstat s \<and> length (ftable s') = length (ftable s) \<and>
     (if r < 0 then \<forall>f. fref (getf s' f) = fref (getf s f)
      else rdf < NFILE \<and> wrf < NFILE \<and> rdf \<noteq> wrf \<and> fref (getf s rdf) = 0 \<and> fref (getf s wrf) = 0 \<and>
        (\<forall>f. fref (getf s' f) = (if f = rdf \<or> f = wrf then 1 else fref (getf s f))))"

definition env_ok :: "'a filek_scheme file_env \<Rightarrow> bool" where
  "env_ok e \<longleftrightarrow>
     (\<forall>a w s s'. pipeclose e a w s = Inr s' \<longrightarrow> fview s' = fview s) \<and>
     (\<forall>a b n s r s'. piperead e a b n s = Inr (r, s') \<longrightarrow> fview s' = fview s) \<and>
     (\<forall>a b n s r s'. pipewrite e a b n s = Inr (r, s') \<longrightarrow> fview s' = fview s) \<and>
     (\<forall>d rd a n s r s'. devread e d = Some rd \<longrightarrow> rd a n s = Inr (r, s') \<longrightarrow> fview s' = fview s) \<and>
     (\<forall>d wr a n s r s'. devwrite e d = Some wr \<longrightarrow> wr a n s = Inr (r, s') \<longrightarrow> fview s' = fview s) \<and>
     (\<forall>s r rdf wrf s'. pipealloc e s = Inr (r, rdf, wrf, s') \<longrightarrow> fresh_pair r rdf wrf s s')"

text \<open>A state in which the counts agree except that \<open>d f\<close> references to \<open>f\<close> are held outside the descriptors.\<close>

definition refs_but :: "(nat \<Rightarrow> int) \<Rightarrow> 'a filek_scheme \<Rightarrow> bool" where
  "refs_but d s \<longleftrightarrow> procs_ok (procs s) \<and> length (ftable s) = NFILE \<and>
     (\<forall>p<NPROC. \<forall>a\<in>set (ofile (getp s p)). a = 0 \<or> (\<exists>f<NFILE. a = file_ptr f)) \<and>
     (\<forall>f<NFILE. fref (getf s f) = int (fd_refs (procs s) (file_ptr f)) + d f)"

lemma refs_but_0: "refs_but (\<lambda>_. 0) s = refs_ok s"
  by (simp add: refs_but_def refs_ok_def)

lemma refs_but_fview:
  assumes "fview s' = fview s"
  shows "refs_but d s' = refs_but d s"
  unfolding refs_but_def fviewD[OF assms] ..

lemma refs_but_cong: "refs_but d s \<Longrightarrow> (\<And>f. f < NFILE \<Longrightarrow> d f = d' f) \<Longrightarrow> refs_but d' s"
  by (simp add: refs_but_def)

lemma refs_but_set_ofile:
  assumes ok: "refs_but d s" and p: "p < NPROC" "fd < NOFILE" and b: "b = 0 \<or> (\<exists>f<NFILE. b = file_ptr f)"
  shows "refs_but (\<lambda>f. d f + of_bool (ofile (getp s p) ! fd = file_ptr f) - of_bool (b = file_ptr f)) (set_ofile p fd b s)"
proof -
  have P: "length (procs s) = NPROC" "\<And>q. q < NPROC \<Longrightarrow> length (ofile (getp s q)) = NOFILE"
    and R: "\<And>f. f < NFILE \<Longrightarrow> fref (getf s f) = int (fd_refs (procs s) (file_ptr f)) + d f" "length (ftable s) = NFILE"
    and V: "\<And>q a. q < NPROC \<Longrightarrow> a \<in> set (ofile (getp s q)) \<Longrightarrow> a = 0 \<or> (\<exists>f<NFILE. a = file_ptr f)"
    using ok by (auto simp: refs_but_def procs_ok_def)
  let ?s = "set_ofile p fd b s"
  have "procs_ok (procs ?s)" using P p by (auto simp: procs_ok_def nth_list_update)
  moreover have "a = 0 \<or> (\<exists>f<NFILE. a = file_ptr f)" if "q < NPROC" "a \<in> set (ofile (getp ?s q))" for q a
    using that P p V[of q a] b set_update_subset_insert[of "ofile (getp s p)" fd b] by (auto simp: nth_list_update split: if_splits)
  moreover have "fref (getf ?s f) = int (fd_refs (procs ?s) (file_ptr f)) +
      (d f + of_bool (ofile (getp s p) ! fd = file_ptr f) - of_bool (b = file_ptr f))" if "f < NFILE" for f
    using R(1)[OF that] fd_refs_update[of p "procs s" fd b "file_ptr f"] P p
    by (cases "b = file_ptr f"; cases "ofile (getp s p) ! fd = file_ptr f") auto
  ultimately show ?thesis using R(2) by (simp add: refs_but_def)
qed

lemma refs_but_upd_file:
  assumes "refs_but d s" "f < NFILE"
  shows "refs_but (d(f := d f + fref (g (getf s f)) - fref (getf s f))) (upd_file f g s)"
  using assms by (auto simp: refs_but_def nth_list_update)

lemma refs_but_bound: "refs_but d s \<Longrightarrow> f < NFILE \<Longrightarrow> d f \<le> fref (getf s f) \<and> fref (getf s f) < 2 ^ 31 - 1 + d f"
  using fd_refs_bound[of "procs s" "file_ptr f"] by (auto simp: refs_but_def)

lemma fview_my:
  assumes "fview s' = fview s"
  shows "my_ok s' = my_ok s"
  unfolding my_ok_def fviewD[OF assms] ..

lemma fdalloc_spec:
  assumes "fdalloc f s = Inr (r, s')" "my_ok s" "refs_but d s" "f < NFILE"
  shows "case r of None \<Rightarrow> s' = s
    | Some fd \<Rightarrow> (\<exists>p. myproc s = Some p \<and> p < NPROC \<and> fd < NOFILE \<and> s' = set_ofile p fd (file_ptr f) s) \<and>
        refs_but (d(f := d f - 1)) s' \<and> my_ok s'"
proof (cases r)
  case None
  then show ?thesis using assms(1) by (cases "myproc s") (auto simp: fdalloc_def the_proc_def split: option.splits)
next
  case (Some fd)
  then obtain p where p: "myproc s = Some p" "find (\<lambda>fd. ofile (getp s p) ! fd = 0) [0..<NOFILE] = Some fd"
    "s' = set_ofile p fd (file_ptr f) s"
    using assms(1) by (cases "myproc s") (auto simp: fdalloc_def the_proc_def split: option.splits)
  have fd: "fd < NOFILE" "ofile (getp s p) ! fd = 0" using p(2) by (auto simp: find_Some_iff)
  have pn: "p < NPROC" using assms(2) p(1) by (simp add: my_ok_def)
  have "refs_but (\<lambda>k. d k + of_bool (ofile (getp s p) ! fd = file_ptr k) - of_bool (file_ptr f = file_ptr k)) s'"
    unfolding p(3) using refs_but_set_ofile[OF assms(3) pn fd(1)] assms(4) by blast
  then have "refs_but (d(f := d f - 1)) s'"
    by (rule refs_but_cong) (use fd(2) assms(4) file_ptr_simps(1)[symmetric] in simp)
  then show ?thesis using Some p(1,3) pn fd(1) assms(2) by (auto simp: my_ok_def)
qed

lemma fileclose_one:
  assumes "fileclose e f s = Inr s'" "env_ok e" "refs_but d s" "f < NFILE" "d f \<le> 1" "1 \<le> fref (getf s f)" "my_ok s"
  shows "refs_but (d(f := d f - 1)) s'" "my_ok s'"
proof -
  have fr: "1 \<le> fref (getf s f)" "fref (getf s f) < 2 ^ 31" using refs_but_bound[OF assms(3,4)] assms(5,6) by auto
  have c: "c_int (fref (getf s f) - 1) = fref (getf s f) - 1" by (rule c_int_id) (use fr in auto)
  have len: "length (ftable s) = NFILE" using assms(3) by (simp add: refs_but_def)
  define s1 where "s1 = upd_file f (\<lambda>x. x\<lparr>fref := c_int (fref x - 1)\<rparr>) s"
  have r1: "refs_but (d(f := d f - 1)) s1"
    using refs_but_upd_file[OF assms(3,4), of "\<lambda>x. x\<lparr>fref := c_int (fref x - 1)\<rparr>"] by (simp add: s1_def c)
  have g1: "fref (getf s1 f) = fref (getf s f) - 1" using len assms(4) by (simp add: s1_def c)
  have m1: "my_ok s1" using assms(7) by (simp add: my_ok_def s1_def)
  have "refs_but (d(f := d f - 1)) s' \<and> my_ok s'"
  proof (cases "fref (getf s1 f) > 0")
    case True
    then show ?thesis using assms(1) fr r1 m1 by (simp add: fileclose_def Let_def s1_def[symmetric])
  next
    case False
    define s2 where "s2 = upd_file f (\<lambda>x. x\<lparr>fref := 0, ftype := FD_NONE\<rparr>) s1"
    have "refs_but (d(f := d f - 1)) s2"
      using refs_but_upd_file[OF r1 assms(4), of "\<lambda>x. x\<lparr>fref := 0, ftype := FD_NONE\<rparr>"] False g1 fr by (simp add: s2_def)
    moreover have "my_ok s2" using m1 by (simp add: my_ok_def s2_def)
    moreover have "fview s' = fview s2"
      using assms(1,2) False fr unfolding fileclose_def Let_def s1_def[symmetric] s2_def[symmetric]
      by (auto simp: env_ok_def dest: ff.g_iput split: if_splits)
    ultimately show ?thesis using refs_but_fview fview_my by blast
  qed
  then show "refs_but (d(f := d f - 1)) s'" "my_ok s'" by simp_all
qed

lemma fileclose_spec:
  assumes "fileclose e f s = Inr s'" "env_ok e" "refs_but d s" "f < NFILE" "d f = 1" "my_ok s"
  shows "refs_but (d(f := 0)) s' \<and> my_ok s'"
  using fileclose_one[OF assms(1-4)] refs_but_bound[OF assms(3,4)] assms(5,6) by simp

abbreviation good :: "'a filek_scheme \<Rightarrow> bool" where
  "good s \<equiv> refs_ok s \<and> my_ok s"

lemma good_fview: "fview s' = fview s \<Longrightarrow> good s' = good s"
  using refs_ok_fview fview_my by blast

lemma sys_dup_good:
  assumes "sys_dup s = Inr (r, s')" "good s"
  shows "good s'"
proof -
  from assms(1) obtain a where a: "argfd 0 s = Inr a" by (auto simp: sys_dup_def bindR_Inr_iff)
  show ?thesis
  proof (cases a)
    case None
    then show ?thesis using assms a by (simp add: sys_dup_def)
  next
    case (Some x)
    obtain fd0 f where x: "x = (fd0, f)" by fastforce
    obtain p where p: "p < NPROC" "fd0 < NOFILE" "f < NFILE" "ofile (getp s p) ! fd0 = file_ptr f"
      using argfd_spec[of s 0 fd0 f] assms(2) a Some x by auto
    from assms(1) a Some x obtain q s1 where q: "fdalloc f s = Inr (q, s1)" by (auto simp: sys_dup_def bindR_Inr_iff)
    note F = fdalloc_spec[OF q _ _ p(3), of "\<lambda>_. 0"]
    show ?thesis
    proof (cases q)
      case None
      then show ?thesis using assms a Some x q F by (simp add: sys_dup_def refs_but_0)
    next
      case (Some fd)
      have r1: "refs_but ((\<lambda>_. 0)(f := - 1)) s1" "my_ok s1" using F Some assms(2) by (auto simp: refs_but_0)
      have "fref (getf s1 f) = fref (getf s f)" using F Some assms(2) by (auto simp: refs_but_0)
      then have b: "0 < fref (getf s1 f)" "fref (getf s1 f) < 2 ^ 31 - 1"
        using refs_pos[of s p fd0 f] assms(2) p by auto
      have c: "c_int (fref (getf s1 f) + 1) = fref (getf s1 f) + 1" by (rule c_int_id) (use b in auto)
      have "refs_but (\<lambda>_. 0) (upd_file f (\<lambda>x. x\<lparr>fref := c_int (fref x + 1)\<rparr>) s1)"
        by (rule refs_but_cong[OF refs_but_upd_file[OF r1(1) p(3)]]) (simp add: c)
      moreover have "s' = upd_file f (\<lambda>x. x\<lparr>fref := c_int (fref x + 1)\<rparr>) s1"
        using assms(1) a \<open>a = Some x\<close> x q Some b by (auto simp: sys_dup_def filedup_def)
      ultimately show ?thesis using r1(2) by (simp add: refs_but_0 my_ok_def)
    qed
  qed
qed

lemma sys_close_good:
  assumes "sys_close e s = Inr (r, s')" "env_ok e" "good s"
  shows "good s'"
proof -
  from assms(1) obtain a where a: "argfd 0 s = Inr a" by (auto simp: sys_close_def bindR_Inr_iff)
  show ?thesis
  proof (cases a)
    case None
    then show ?thesis using assms a by (simp add: sys_close_def)
  next
    case (Some x)
    obtain fd f where x: "x = (fd, f)" by fastforce
    obtain p where p: "myproc s = Some p" "p < NPROC" "fd < NOFILE" "f < NFILE" "ofile (getp s p) ! fd = file_ptr f"
      using argfd_spec[of s 0 fd f] assms(3) a Some x by auto
    have c: "fileclose e f (set_ofile p fd 0 s) = Inr s'"
      using assms(1) a Some x p(1) by (auto simp: sys_close_def the_proc_def bindR_Inr_iff)
    have "refs_but (\<lambda>k. 0 + of_bool (ofile (getp s p) ! fd = file_ptr k) - of_bool (0 = file_ptr k)) (set_ofile p fd 0 s)"
      by (rule refs_but_set_ofile) (use assms(3) p in \<open>auto simp: refs_but_0\<close>)
    then have "refs_but ((\<lambda>_. 0)(f := 1)) (set_ofile p fd 0 s)"
      by (rule refs_but_cong) (use p(4,5) file_ptr_simps(1)[symmetric] in simp)
    moreover have "my_ok (set_ofile p fd 0 s)" using assms(3) by (simp add: my_ok_def)
    ultimately have R: "refs_but ((\<lambda>_. 0)(f := 1, f := 0)) s'" "my_ok s'"
      using fileclose_spec[OF c assms(2) _ p(4), of "(\<lambda>_. 0)(f := 1)"] by simp_all
    have "refs_but (\<lambda>_. 0) s'" by (rule refs_but_cong[OF R(1)]) simp
    then show ?thesis using R(2) by (simp add: refs_but_0)
  qed
qed

lemma filealloc_spec:
  assumes "filealloc s = (Some f, s')" "good s"
  shows "f < NFILE" "refs_but ((\<lambda>_. 0)(f := 1)) s'" "my_ok s'"
proof -
  from assms(1) have "find (\<lambda>f. fref (getf s f) = 0) [0..<NFILE] = Some f" and s': "s' = upd_file f (\<lambda>x. x\<lparr>fref := 1\<rparr>) s"
    by (auto simp: filealloc_def split: option.splits)
  then have f: "f < NFILE" "fref (getf s f) = 0" by (auto simp: find_Some_iff)
  then show "f < NFILE" by simp
  have "refs_but (\<lambda>_. 0) s" using assms(2) by (simp add: refs_but_0)
  from refs_but_upd_file[OF this f(1), of "\<lambda>x. x\<lparr>fref := 1\<rparr>"] f(2) show "refs_but ((\<lambda>_. 0)(f := 1)) s'" by (simp add: s')
  show "my_ok s'" using assms(2) by (simp add: s' my_ok_def)
qed

lemma refs_but_same:
  assumes "refs_but d s" "f < NFILE" "\<And>x. fref (g x) = fref x"
  shows "refs_but d (upd_file f g s)"
  by (rule refs_but_cong[OF refs_but_upd_file[OF assms(1,2)]]) (simp add: assms(3))

lemma open_file_good:
  assumes "open_file om ip f fd s = Inr (r, s')" "good s" "f < NFILE"
  shows "good s'"
proof -
  define s1 where "s1 = (if itype (geti s ip) = T_DEVICE then upd_file f (\<lambda>x. x\<lparr>ftype := FD_DEVICE, fmajor := major (geti s ip)\<rparr>) s
                else upd_file f (\<lambda>x. x\<lparr>ftype := FD_INODE, foff := 0\<rparr>) s)"
  define s2 where "s2 = upd_file f (\<lambda>x. x\<lparr>fip := ip, readable := (om AND O_WRONLY = 0),
                 writable := (om AND O_WRONLY \<noteq> 0 \<or> om AND O_RDWR \<noteq> 0)\<rparr>) s1"
  have "refs_but (\<lambda>_. 0) s" using assms(2) by (simp add: refs_but_0)
  then have "refs_but (\<lambda>_. 0) s1" unfolding s1_def using assms(3) by (auto intro: refs_but_same)
  then have "refs_but (\<lambda>_. 0) s2" unfolding s2_def using assms(3) by (auto intro: refs_but_same)
  moreover have "my_ok s2" using assms(2) by (simp add: my_ok_def s2_def s1_def)
  moreover have V: "fview s' = fview s2"
    using assms(1) unfolding open_file_def s1_def[symmetric] Let_def s2_def[symmetric]
    by (auto simp: bindR_Inr_iff dest!: ff.g_itrunc ff.g_iunlock split: if_splits)
  ultimately show ?thesis using good_fview[OF V] by (simp add: refs_but_0)
qed

lemma sys_open_good:
  assumes "sys_open e s = Inr (r, s')" "env_ok e" "good s"
  shows "good s'"
proof -
  from assms(1) obtain a where a: "argpath 0 s = Inr a" by (auto simp: sys_open_def bindR_Inr_iff)
  show ?thesis
  proof (cases a)
    case None
    then show ?thesis using assms a by (simp add: sys_open_def)
  next
    case (Some path)
    with assms(1) a obtain om q s1 where o: "argint 1 s = Inr om" "open_inode e path (word_of_int om) s = Inr (q, s1)"
      by (auto simp: sys_open_def bindR_Inr_iff Let_def)
    have g1: "good s1" using good_fview[OF fview_open_inode[OF o(2)]] assms(3) by simp
    note S = assms(1)[unfolded sys_open_def a Some option.case bindR_simps o Let_def prod.case]
    show ?thesis
    proof (cases q)
      case None
      then show ?thesis using S g1 by simp
    next
      case (Some ip)
      obtain x s2 where fa: "filealloc s1 = (x, s2)" by fastforce
      let ?bad = "itype (geti s1 ip) = T_DEVICE \<and> (sint (major (geti s1 ip)) < 0 \<or> sint (major (geti s1 ip)) \<ge> int NDEV)"
      consider "?bad" | "\<not> ?bad" "x = None" | f where "\<not> ?bad" "x = Some f" by fastforce
      then show ?thesis
      proof cases
        case 1
        then have "fview s' = fview s1" using S Some by (auto simp: bindR_Inr_iff dest: ff.g_iunlockput)
        then show ?thesis using good_fview g1 by blast
      next
        case 2
        then have "s2 = s1" using fa by (auto simp: filealloc_def split: option.splits)
        then have "fview s' = fview s1" using S Some 2 fa by (auto simp: bindR_Inr_iff dest: ff.g_iunlockput split: if_splits)
        then show ?thesis using good_fview g1 by blast
      next
        case (3 f)
        note A = filealloc_spec[OF fa[unfolded 3(2)] g1]
        from S Some 3 fa obtain y s3 where fd: "fdalloc f s2 = Inr (y, s3)" by (auto simp: bindR_Inr_iff split: if_splits)
        note F = fdalloc_spec[OF fd A(3,2,1)]
        show ?thesis
        proof (cases y)
          case None
          with S Some 3 fa fd F obtain s4 where c: "fileclose e f s2 = Inr s4" "fview s' = fview s4"
            by (auto simp: bindR_Inr_iff dest: ff.g_iunlockput split: if_splits)
          have "refs_but ((\<lambda>_. 0)(f := 1, f := 0)) s4 \<and> my_ok s4"
            by (rule fileclose_spec[OF c(1) assms(2) A(2,1) _ A(3)]) simp
          then have "good s4" using refs_but_cong[of _ s4 "\<lambda>_. 0"] by (auto simp: refs_but_0[symmetric])
          then show ?thesis using good_fview[OF c(2)] by simp
        next
          case (Some fdn)
          with S \<open>q = Some ip\<close> 3 fa fd have c: "open_file (word_of_int om) ip f fdn s3 = Inr (r, s')" by (auto split: if_splits)
          have "refs_but ((\<lambda>_. 0)(f := 1, f := 0)) s3" "my_ok s3" using F Some by auto
          then have "good s3" using refs_but_cong[of _ s3 "\<lambda>_. 0"] by (auto simp: refs_but_0[symmetric])
          then show ?thesis using open_file_good[OF c] A(1) by blast
        qed
      qed
    qed
  qed
qed

end
