(* ===== verification/SysfileSteps.thy ===== *)
theory SysfileSteps
  imports SysfileCorrect
begin

text \<open>
  The remaining system calls on files keep the agreement of descriptors and open files, and so does every
  sequence of such calls.
\<close>

section \<open>Calls that change neither table\<close>

interpretation vf: outside_memory kalloc kfree fview
  by unfold_locales (auto simp: fview_def kstat_def kalloc_def kfree_def Let_def split: if_splits)

lemmas fview_call_dests = fview_dests fview_create fview_isdirempty_scan

lemma fview_sys_link: "sys_link s = Inr (r, s') \<Longrightarrow> fview s' = fview s"
  unfolding sys_link_def link_bad_def
  by (auto simp: bindR_Inr_iff dest!: fview_call_dests split: if_splits option.splits)

lemma fview_unlink_entry: "unlink_entry dp ip off s = Inr (r, s') \<Longrightarrow> fview s' = fview s"
  unfolding unlink_entry_def
  by (auto simp: bindR_Inr_iff Let_def dest!: fview_call_dests split: if_splits option.splits)

lemma fview_sys_unlink: "sys_unlink s = Inr (r, s') \<Longrightarrow> fview s' = fview s"
  unfolding sys_unlink_def isdirempty_def
  by (auto simp: bindR_Inr_iff Let_def dest!: fview_call_dests fview_unlink_entry split: if_splits option.splits)

lemma fview_sys_mkdir: "sys_mkdir s = Inr (r, s') \<Longrightarrow> fview s' = fview s"
  by (auto simp: sys_mkdir_def bindR_Inr_iff dest!: fview_call_dests split: option.splits)

lemma fview_sys_mknod: "sys_mknod s = Inr (r, s') \<Longrightarrow> fview s' = fview s"
  by (auto simp: sys_mknod_def bindR_Inr_iff dest!: fview_call_dests split: option.splits)

lemma fview_sys_symlink: "sys_symlink e s = Inr (r, s') \<Longrightarrow> fview s' = fview s"
  by (auto simp: sys_symlink_def bindR_Inr_iff dest!: fview_call_dests split: if_splits option.splits)

section \<open>Reading and writing\<close>

text \<open>The agreement depends only on the descriptors, the counts and the running process.\<close>

lemma fd_refs_ofile: "map ofile ps' = map ofile ps \<Longrightarrow> fd_refs ps' a = fd_refs ps a"
  by (simp add: fd_refs_def)

lemma good_cong:
  assumes "map ofile (procs s') = map ofile (procs s)" "map fref (ftable s') = map fref (ftable s)" "myproc s' = myproc s" "good s"
  shows "good s'"
proof -
  have l: "length (procs s') = length (procs s)" "length (ftable s') = length (ftable s)"
    using assms(1,2) map_eq_imp_length_eq by auto
  have o: "ofile (getp s' p) = ofile (getp s p)" if "p < length (procs s)" for p
    using arg_cong[OF assms(1), of "\<lambda>xs. xs ! p"] that l(1) by simp
  have r: "fref (getf s' f) = fref (getf s f)" if "f < length (ftable s)" for f
    using arg_cong[OF assms(2), of "\<lambda>xs. xs ! f"] that l(2) by simp
  show ?thesis using assms(3,4) l o r fd_refs_ofile[OF assms(1)] by (auto simp: refs_ok_def procs_ok_def my_ok_def)
qed

lemma good_upd_file:
  assumes "good s" "f < NFILE" "\<And>x. fref (g x) = fref x"
  shows "good (upd_file f g s)"
proof -
  have "length (ftable s) = NFILE" using assms(1) by (simp add: refs_ok_def)
  then have "map fref (ftable (upd_file f g s)) = map fref (ftable s)"
    using assms(2) by (intro nth_equalityI) (auto simp: nth_list_update assms(3))
  then show ?thesis by (rule good_cong[OF _ _ _ assms(1), rotated]) simp_all
qed

lemma argfd_bound: "good s \<Longrightarrow> argfd n s = Inr (Some (fd, f)) \<Longrightarrow> f < NFILE"
  using argfd_spec by blast

lemma fileread_good:
  assumes "fileread e f addr n s = Inr (r, s')" "env_ok e" "good s" "f < NFILE"
  shows "good s'"
proof (cases "readable (getf s f) \<and> ftype (getf s f) = FD_INODE")
  case False
  then have "fview s' = fview s"
    using assms(1,2) by (auto simp: fileread_def Let_def env_ok_def split: fdtype.splits if_splits option.splits)
  then show ?thesis using good_fview assms(3) by blast
next
  case True
  let ?x = "getf s f"
  let ?g = "\<lambda>y. y\<lparr>foff := foff y + word_of_int r\<rparr>"
  from True assms(1) obtain s1 s2 where a: "ilock (Some (fip ?x)) s = Inr s1"
    "readi (fip ?x) True addr (foff (getf s1 f)) (word_of_int n) s1 = Inr (r, s2)"
    "iunlock (Some (fip ?x)) (if r > 0 then upd_file f ?g s2 else s2) = Inr s'"
    by (auto simp: fileread_def Let_def bindR_Inr_iff)
  have "good s2" using good_fview[of s2 s] ff.g_ilock[OF a(1)] ff.g_readi[OF a(2)] assms(3) by simp
  then have "good (if r > 0 then upd_file f ?g s2 else s2)" using good_upd_file[of s2 f ?g] assms(4) by simp
  then show ?thesis using good_fview[OF ff.g_iunlock[OF a(3)]] by simp
qed

lemma filewrite_loop_good: "filewrite_loop f addr n i s = Inr (r, s') \<Longrightarrow> good s \<Longrightarrow> f < NFILE \<Longrightarrow> good s'"
proof (induction f addr n i s rule: filewrite_loop.induct)
  case (1 f addr n i s)
  note U = filewrite_loop.simps[of f addr n i s]
  show ?case
  proof (cases "i < n")
    case True
    define n1 where "n1 = (if n - i > write_max then write_max else n - i)"
    note U = U[folded n1_def]
    from True "1.prems"(1) obtain s1 v s2 where a: "ilock (Some (fip (getf s f))) s = Inr s1"
      "writei (fip (getf s1 f)) True (addr + word_of_int i) (foff (getf s1 f)) (word_of_int n1) s1 = Inr (v, s2)"
      by (auto simp: U bindR_Inr_iff Let_def)
    define s3 where "s3 = (if v > 0 then upd_file f (\<lambda>y. y\<lparr>foff := foff y + word_of_int v\<rparr>) s2 else s2)"
    from True "1.prems"(1) a obtain s4 where s4: "iunlock (Some (fip (getf s3 f))) s3 = Inr s4"
      by (auto simp: U bindR_Inr_iff Let_def s3_def)
    have "good s2" using good_fview[of s2 s] ff.g_ilock[OF a(1)] ff.g_writei[OF a(2)] "1.prems"(2) by simp
    then have "good s3" using good_upd_file[of s2 f] "1.prems"(3) by (simp add: s3_def)
    then have g4: "good s4" using good_fview[OF ff.g_iunlock[OF s4]] by simp
    show ?thesis
    proof (cases "v = n1")
      case ne: False
      then show ?thesis using True "1.prems"(1) a s4 g4 by (auto simp: U Let_def s3_def)
    next
      case eq: True
      have "filewrite_loop f addr n (i + v) s4 = Inr (r, s')"
        using "1.prems"(1)[unfolded U Let_def] a[unfolded eq] s4[unfolded s3_def eq] eq True by simp
      from "1.IH"[OF True n1_def a(1) a(2) refl s3_def s4 _ this g4 "1.prems"(3)] eq show ?thesis by simp
    qed
  qed (use "1.prems" in \<open>simp add: U\<close>)
qed

lemma filewrite_good:
  assumes "filewrite e f addr n s = Inr (r, s')" "env_ok e" "good s" "f < NFILE"
  shows "good s'"
proof (cases "writable (getf s f) \<and> ftype (getf s f) = FD_INODE")
  case False
  then have "fview s' = fview s"
    using assms(1,2) by (auto simp: filewrite_def Let_def env_ok_def split: fdtype.splits if_splits option.splits)
  then show ?thesis using good_fview assms(3) by blast
next
  case True
  then obtain i where "filewrite_loop f addr n 0 s = Inr (i, s')" using assms(1) by (auto simp: filewrite_def Let_def bindR_Inr_iff)
  then show ?thesis using filewrite_loop_good assms(3,4) by blast
qed

lemma fview_filestat: "filestat e f addr s = Inr (r, s') \<Longrightarrow> fview s' = fview s"
  by (auto simp: filestat_def the_proc_def bindR_Inr_iff Let_def dest!: fview_dests split: option.splits if_splits)

lemma sys_read_good: "sys_read e s = Inr (r, s') \<Longrightarrow> env_ok e \<Longrightarrow> good s \<Longrightarrow> good s'"
  by (clarsimp simp: sys_read_def bindR_Inr_iff split: option.splits) (use argfd_bound fileread_good in blast)

lemma sys_write_good: "sys_write e s = Inr (r, s') \<Longrightarrow> env_ok e \<Longrightarrow> good s \<Longrightarrow> good s'"
  by (clarsimp simp: sys_write_def bindR_Inr_iff split: option.splits) (use argfd_bound filewrite_good in blast)

lemma fview_sys_fstat: "sys_fstat e s = Inr (r, s') \<Longrightarrow> fview s' = fview s"
  by (auto simp: sys_fstat_def bindR_Inr_iff split: option.splits dest: fview_filestat)

section \<open>Directories, pipes and programs\<close>

lemma sys_chdir_good:
  assumes "sys_chdir s = Inr (r, s')" "good s"
  shows "good s'"
proof -
  obtain t where t: "fview t = fview s" "s' = t \<or> (\<exists>p c. s' = upd_proc p (\<lambda>q. q\<lparr>cwd := c\<rparr>) t)"
    using assms(1) unfolding sys_chdir_def
    by (clarsimp simp: the_proc_def bindR_Inr_iff split: option.splits if_splits) (metis fview_dests)+
  have "good t" using good_fview[OF t(1)] assms(2) by simp
  moreover have "good (upd_proc p (\<lambda>q. q\<lparr>cwd := c\<rparr>) t)" if "good t" for p c
    by (rule good_cong[OF _ _ _ that], cases "p < length (procs t)")
       (auto simp: upd_proc_def myproc_def mycpu_def cpuid_def map_update list_update_same_conv list_update_beyond)
  ultimately show ?thesis using t(2) by blast
qed

lemma kfree_list_fview: "fold_res kfree xs s = Inr s' \<Longrightarrow> fview s' = fview s"
  by (rule vf.g_fold_res) (auto dest: vf.g_kfree)

lemma release_fd:
  assumes "refs_but d s" "p < NPROC" "fd < NOFILE" "f < NFILE" "ofile (getp s p) ! fd = file_ptr f"
  shows "refs_but (d(f := d f + 1)) (set_ofile p fd 0 s)"
proof -
  have "refs_but (\<lambda>k. d k + of_bool (ofile (getp s p) ! fd = file_ptr k) - of_bool (0 = file_ptr k)) (set_ofile p fd 0 s)"
    by (rule refs_but_set_ofile) (use assms in auto)
  then show ?thesis by (rule refs_but_cong) (use assms(4,5) file_ptr_simps(1)[symmetric] in simp)
qed

lemma close_both_good:
  assumes "close_both e rdf wrf s = Inr (r, s')" "env_ok e" "refs_but ((\<lambda>_. 0)(rdf := 1, wrf := 1)) s" "my_ok s"
    "rdf < NFILE" "wrf < NFILE" "rdf \<noteq> wrf"
  shows "good s'"
proof -
  from assms(1) obtain s1 where c: "fileclose e rdf s = Inr s1" "fileclose e wrf s1 = Inr s'"
    by (auto simp: close_both_def bindR_Inr_iff)
  let ?d = "(\<lambda>_. 0)(rdf := 1, wrf := 1)"
  have 1: "refs_but (?d(rdf := 0)) s1 \<and> my_ok s1" by (rule fileclose_spec[OF c(1) assms(2,3,5) _ assms(4)]) (use assms(7) in simp)
  have "refs_but (?d(rdf := 0, wrf := 0)) s' \<and> my_ok s'" by (rule fileclose_spec[OF c(2) assms(2) _ assms(6)]) (use 1 assms(7) in auto)
  then show ?thesis using refs_but_cong[of _ s' "\<lambda>_. 0"] by (auto simp: refs_but_0[symmetric])
qed

lemma fdalloc_free:
  assumes "fdalloc f s = Inr (Some fd, s')"
  obtains p where "myproc s = Some p" "fd < NOFILE" "ofile (getp s p) ! fd = 0" "s' = set_ofile p fd (file_ptr f) s"
proof (cases "myproc s")
  case (Some p)
  then have "find (\<lambda>fd. ofile (getp s p) ! fd = 0) [0..<NOFILE] = Some fd" "s' = set_ofile p fd (file_ptr f) s"
    using assms by (auto simp: fdalloc_def the_proc_def split: option.splits)
  then show ?thesis using that[OF Some] by (auto simp: find_Some_iff)
qed (use assms in \<open>simp add: fdalloc_def the_proc_def\<close>)

lemma env_ok_pipealloc: "env_ok e \<Longrightarrow> pipealloc e s = Inr (r, rdf, wrf, s') \<Longrightarrow> fresh_pair r rdf wrf s s'"
  unfolding env_ok_def by blast

lemma pipealloc_spec:
  assumes "pipealloc e s = Inr (v, rdf, wrf, s1)" "env_ok e" "good s"
  shows "if v < 0 then good s1 else rdf < NFILE \<and> wrf < NFILE \<and> rdf \<noteq> wrf \<and> refs_but ((\<lambda>_. 0)(rdf := 1, wrf := 1)) s1 \<and> my_ok s1"
proof -
  note E = env_ok_pipealloc[OF assms(2,1), unfolded fresh_pair_def]
  have k: "kstat s1 = kstat s" "length (ftable s1) = length (ftable s)" using E by simp_all
  note P = kstat_eqD[OF k(1)]
  show ?thesis
  proof (cases "v < 0")
    case True
    then have f: "fref (getf s1 f) = fref (getf s f)" for f using E by simp
    have "map fref (ftable s1) = map fref (ftable s)" by (rule nth_equalityI) (use k(2) f in auto)
    then have "good s1" by (rule good_cong[OF _ _ _ assms(3), rotated]) (use P in simp_all)
    then show ?thesis using True by simp
  next
    case False
    then have f: "rdf < NFILE" "wrf < NFILE" "rdf \<noteq> wrf" "fref (getf s rdf) = 0" "fref (getf s wrf) = 0"
      "\<And>f. fref (getf s1 f) = (if f = rdf \<or> f = wrf then 1 else fref (getf s f))"
      using E by simp_all
    then show ?thesis using False assms(3) P k(2) by (auto simp: refs_ok_def refs_but_def my_ok_def)
  qed
qed

text \<open>\<open>sys_pipe\<close> after the first descriptor.\<close>

definition pipe_second :: "'a filek_scheme file_env \<Rightarrow> u64 \<Rightarrow> nat \<Rightarrow> nat \<Rightarrow> nat \<Rightarrow> nat \<Rightarrow> 'a filek_scheme handler" where
  "pipe_second e fa p rdf wrf fd0 s2 = bindR (fdalloc wrf s2) (\<lambda>(r1, s3). case r1 of
         None \<Rightarrow> close_both e rdf wrf (set_ofile p fd0 0 s3)
       | Some fd1 \<Rightarrow>
         bindR (copyout kalloc (pagetable (getp s3 p)) fa (fd_bytes fd0) s3) (\<lambda>(c0, s4).
           bindR (if c0 < 0 then Inr (c0, s4)
                  else copyout kalloc (pagetable (getp s4 p)) (fa + 4) (fd_bytes fd1) s4) (\<lambda>(c1, s5).
             if c1 < 0 then close_both e rdf wrf (set_ofile p fd1 0 (set_ofile p fd0 0 s5))
             else ret 0 s5)))"

lemma pipe_second_good:
  assumes "pipe_second e fa p rdf wrf fd0 s = Inr (r, s')" "env_ok e" "refs_but ((\<lambda>_. 0)(wrf := 1)) s" "my_ok s"
    and f: "rdf < NFILE" "wrf < NFILE" "rdf \<noteq> wrf" and p: "p < NPROC" "fd0 < NOFILE"
    and o: "ofile (getp s p) ! fd0 = file_ptr rdf" and my: "myproc s = Some p"
  shows "good s'"
proof -
  from assms(1) obtain r1 s3 where f1: "fdalloc wrf s = Inr (r1, s3)" by (auto simp: pipe_second_def bindR_Inr_iff)
  note A = fdalloc_spec[OF f1 assms(4,3) f(2)] and S = assms(1)[unfolded pipe_second_def f1 bindR_simps prod.case]
  show ?thesis
  proof (cases r1)
    case None
    have "refs_but ((\<lambda>_. 0)(rdf := 1, wrf := 1)) (set_ofile p fd0 0 s)"
      by (rule refs_but_cong[OF release_fd[OF assms(3) p f(1) o]]) (use f(3) in simp)
    then show ?thesis
      using close_both_good[of e rdf wrf "set_ofile p fd0 0 s" r s'] S A None assms(2,4) f by (simp add: my_ok_def)
  next
    case (Some fd1)
    then obtain q where q: "myproc s = Some q" "fd1 < NOFILE" "ofile (getp s q) ! fd1 = 0" "s3 = set_ofile q fd1 (file_ptr wrf) s"
      using fdalloc_free f1 by blast
    have qp: "q = p" using q(1) my by simp
    have len: "length (procs s) = NPROC" "length (ofile (getp s p)) = NOFILE" using assms(3) p by (auto simp: refs_but_def procs_ok_def)
    have ne: "fd0 \<noteq> fd1" using o q(3) qp file_ptr_simps(1)[OF f(1)] by auto
    have r3: "refs_but (\<lambda>_. 0) s3" "my_ok s3" using A Some refs_but_cong[of _ s3 "\<lambda>_. 0"] by auto
    from S Some obtain c0 s4 where c0: "copyout kalloc (pagetable (getp s3 p)) fa (fd_bytes fd0) s3 = Inr (c0, s4)"
      by (auto simp: bindR_Inr_iff)
    let ?x = "if c0 < 0 then Inr (c0, s4) else copyout kalloc (pagetable (getp s4 p)) (fa + 4) (fd_bytes fd1) s4"
    from S[unfolded Some option.case c0 bindR_simps prod.case] obtain c1 s5 where c: "?x = Inr (c1, s5)"
      "(if c1 < 0 then close_both e rdf wrf (set_ofile p fd1 0 (set_ofile p fd0 0 s5)) else ret 0 s5) = Inr (r, s')"
      unfolding bindR_Inr_iff by fastforce
    have v: "fview s5 = fview s3" using c0 c(1) by (auto dest!: ff.g_copyout_mem split: if_splits)
    note D = fviewD[OF v]
    have r5: "refs_but (\<lambda>_. 0) s5" "my_ok s5" using r3 refs_but_fview[OF v] fview_my[OF v] by auto
    show ?thesis
    proof (cases "c1 < 0")
      case False
      then show ?thesis using c(2) r5 by (simp add: refs_but_0)
    next
      case True
      have o5: "ofile (getp s5 p) ! fd0 = file_ptr rdf" "ofile (getp s5 p) ! fd1 = file_ptr wrf"
        using D(1) q qp len p ne o by auto
      have "refs_but ((\<lambda>_. 0)(rdf := 1)) (set_ofile p fd0 0 s5)"
        using release_fd[OF r5(1) p f(1) o5(1)] by simp
      moreover have "ofile (getp (set_ofile p fd0 0 s5) p) ! fd1 = file_ptr wrf"
        using o5(2) ne len p D(1) q(4) qp by simp
      ultimately have r7: "refs_but ((\<lambda>_. 0)(rdf := 1, wrf := 1)) (set_ofile p fd1 0 (set_ofile p fd0 0 s5))"
        using release_fd[of "(\<lambda>_. 0)(rdf := 1)" "set_ofile p fd0 0 s5" p fd1 wrf] p(1) q(2) f by simp
      have m7: "my_ok (set_ofile p fd1 0 (set_ofile p fd0 0 s5))" using r5(2) by (simp add: my_ok_def)
      have "close_both e rdf wrf (set_ofile p fd1 0 (set_ofile p fd0 0 s5)) = Inr (r, s')" using c(2) True by simp
      from close_both_good[OF this assms(2) r7 m7 f] show ?thesis .
    qed
  qed
qed

lemma sys_pipe_good:
  assumes "sys_pipe e s = Inr (r, s')" "env_ok e" "good s"
  shows "good s'"
proof -
  from assms(1) obtain p fa v rdf wrf s1 where a: "myproc s = Some p" "argaddr 0 s = Inr fa" "pipealloc e s = Inr (v, rdf, wrf, s1)"
    by (cases "myproc s") (auto simp: sys_pipe_def the_proc_def bindR_Inr_iff)
  note P = pipealloc_spec[OF a(3) assms(2,3)]
  note S = assms(1)[unfolded sys_pipe_def the_proc_def a option.case bindR_simps prod.case]
  show ?thesis
  proof (cases "v < 0")
    case True
    then show ?thesis using S P by simp
  next
    case v: False
    note F = P[unfolded if_not_P[OF v]]
    have my: "myproc s1 = Some p" using env_ok_pipealloc[OF assms(2) a(3)] kstat_eqD(6)[of s1 s] a(1) by (simp add: fresh_pair_def)
    have ok: "rdf < NFILE" "wrf < NFILE" "rdf \<noteq> wrf" "refs_but ((\<lambda>_. 0)(rdf := 1, wrf := 1)) s1" "my_ok s1" using F by simp_all
    from S v obtain r0 s2 where f0: "fdalloc rdf s1 = Inr (r0, s2)" by (auto simp: bindR_Inr_iff)
    note A0 = fdalloc_spec[OF f0 ok(5,4,1)]
    show ?thesis
    proof (cases r0)
      case None
      then show ?thesis using S v f0 A0 close_both_good[of e rdf wrf s1 r s'] assms(2) ok by simp
    next
      case (Some fd0)
      obtain q where q: "myproc s1 = Some q" "fd0 < NOFILE" "ofile (getp s1 q) ! fd0 = 0" "s2 = set_ofile q fd0 (file_ptr rdf) s1"
        using fdalloc_free f0 Some by blast
      have p: "q = p" "p < NPROC" using q(1) my ok(5) by (auto simp: my_ok_def)
      have r2: "refs_but ((\<lambda>_. 0)(wrf := 1)) s2" "my_ok s2"
        using A0 Some ok(3) refs_but_cong[of _ s2 "(\<lambda>_. 0)(wrf := 1)"] by auto
      have o2: "ofile (getp s2 p) ! fd0 = file_ptr rdf" using q p ok(4) by (simp add: refs_but_def procs_ok_def)
      from S v f0 Some have T: "pipe_second e fa p rdf wrf fd0 s2 = Inr (r, s')" by (simp add: pipe_second_def)
      show ?thesis by (rule pipe_second_good[OF T assms(2) r2 ok(1-3) p(2) q(2) o2]) (use q p my in simp)
    qed
  qed
qed

text \<open>\<open>exec\<close> replaces the memory of the calling process; its descriptors stay open.\<close>

definition exec_ok :: "(u8 list \<Rightarrow> u64 list \<Rightarrow> 'a filek_scheme \<Rightarrow> (int \<times> 'a filek_scheme) res) \<Rightarrow> bool" where
  "exec_ok ex \<longleftrightarrow> (\<forall>path argv s r s'. ex path argv s = Inr (r, s') \<longrightarrow>
     map ofile (procs s') = map ofile (procs s) \<and> ftable s' = ftable s \<and> myproc s' = myproc s)"

lemma fview_exec_args: "exec_args u i argv s = Inr (ok, argv', s') \<Longrightarrow> fview s' = fview s"
proof (induction u i argv s rule: exec_args.induct)
  case (1 u i argv s)
  note U = exec_args.simps[of u i argv s]
  show ?case
  proof (cases "i < MAXARG")
    case True
    then have i: "\<not> MAXARG \<le> i" by simp
    with "1.prems" obtain a where a: "fetchaddr (u + 8 * of_nat i) s = Inr a" by (auto simp: U bindR_Inr_iff)
    obtain pg s1 where k: "kalloc s = (pg, s1)" by fastforce
    have v1: "fview s1 = fview s" by (rule vf.g_kalloc[OF k])
    show ?thesis
    proof (cases "a = None \<or> a = Some 0 \<or> pg = 0")
      case True
      then show ?thesis using "1.prems" i a k v1 by (auto simp: U split: option.splits if_splits)
    next
      case False
      then obtain x where x: "a = Some x" "x \<noteq> 0" "pg \<noteq> 0" by auto
      with "1.prems" i a k obtain n buf where f: "fetchstr x (unat PGSIZE) s1 = Inr (n, buf)" by (auto simp: U bindR_Inr_iff)
      let ?s2 = "s1\<lparr>mem := write_bytes (mem s1) pg buf\<rparr>"
      show ?thesis
      proof (cases "n < 0")
        case True
        then show ?thesis using "1.prems" i a k x f v1 by (auto simp: U Let_def ff.g_mem)
      next
        case n: False
        then have "exec_args u (i + 1) (argv @ [pg]) ?s2 = Inr (ok, argv', s')" using "1.prems" i a k x f by (simp add: U Let_def)
        from "1.IH"[OF i a x(1,2) k[symmetric] refl x(3) f refl refl n this] v1 show ?thesis by (simp add: ff.g_mem)
      qed
    qed
  qed (use "1.prems" in \<open>simp add: U\<close>)
qed

lemma sys_exec_good:
  assumes "sys_exec ex s = Inr (r, s')" "exec_ok ex" "good s"
  shows "good s'"
proof -
  from assms(1) obtain a where a: "argpath 0 s = Inr a" by (auto simp: sys_exec_def bindR_Inr_iff)
  show ?thesis
  proof (cases a)
    case None
    then show ?thesis using assms(1,3) a by (simp add: sys_exec_def)
  next
    case (Some path)
    with assms(1) a obtain u ok argv s1 where e: "argaddr 1 s = Inr u" "exec_args u 0 [] s = Inr (ok, argv, s1)"
      by (auto simp: sys_exec_def bindR_Inr_iff)
    have g1: "good s1" using good_fview[OF fview_exec_args[OF e(2)]] assms(3) by simp
    note S = assms(1)[unfolded sys_exec_def a Some option.case bindR_simps e prod.case]
    let ?x = "if ok then ex path argv s1 else Inr (-1, s1)"
    from S obtain q where q: "?x = Inr q" "(case q of (v, s2) \<Rightarrow> bindR (fold_res kfree argv s2) (ret v)) = Inr (r, s')"
      by (rule bindR_InrE)
    obtain v s2 where "q = (v, s2)" by fastforce
    with q have x: "?x = Inr (v, s2)" "fold_res kfree argv s2 = Inr s'" by (auto simp: bindR_Inr_iff)
    have "good s2"
    proof (cases ok)
      case True
      then have "ex path argv s1 = Inr (v, s2)" using x(1) by simp
      then have "map ofile (procs s2) = map ofile (procs s1)" "ftable s2 = ftable s1" "myproc s2 = myproc s1"
        using assms(2) unfolding exec_ok_def by blast+
      then show ?thesis by (intro good_cong[OF _ _ _ g1]) simp_all
    qed (use x(1) g1 in simp)
    then show ?thesis using good_fview[OF kfree_list_fview[OF x(2)]] by simp
  qed
qed

section \<open>Fork and exit\<close>

text \<open>The operations that processes need of files, with \<open>file.c\<close> and \<open>fs.c\<close> behind them.\<close>

definition file_ops :: "'a filek_scheme file_env \<Rightarrow> 'a filek_scheme fs_ops" where
  "file_ops e = \<lparr>
     op_filedup = (\<lambda>a s. bindR (filedup (ptr_file a) s) (\<lambda>(f, s1). Inr (file_ptr f, s1))),
     op_fileclose = (\<lambda>a s. fileclose e (ptr_file a) s),
     op_idup = (\<lambda>a s. case idup (ptr_inode a) s of (ip, s1) \<Rightarrow> Inr (inode_ptr ip, s1)),
     op_iput = (\<lambda>a s. iput (ptr_inode a) s),
     op_namei = (\<lambda>path s. bindR (namei (map of_char path) s) (\<lambda>(r, s1). Inr (case r of None \<Rightarrow> 0 | Some ip \<Rightarrow> inode_ptr ip, s1)))\<rparr>"

lemma ptr_round_trip: "file_ptr (ptr_file a) = a" "inode_ptr (ptr_inode a) = a"
  by (simp_all add: file_ptr_def ptr_file_def inode_ptr_def ptr_inode_def)

lemma kstat_fview: "fview s' = fview s \<Longrightarrow> kstat s' = kstat s"
  by (simp add: fview_def)

lemma kstat_upd_file [simp]: "kstat (upd_file f g s) = kstat s"
  by (simp add: kstat_def upd_file_def)

lemma env_ok_pipeclose: "env_ok e \<Longrightarrow> pipeclose e a w s = Inr s' \<Longrightarrow> kstat s' = kstat s"
  by (rule kstat_fview) (simp add: env_ok_def)

lemma kstat_idup: "kstat (upd_inode ip g s) = kstat s"
  by (simp add: kstat_def upd_inode_def)

lemma kstat_fileclose:
  assumes "fileclose e f s = Inr s'" "env_ok e"
  shows "kstat s' = kstat s"
  using assms(1) env_ok_pipeclose[OF assms(2)] by (auto simp: fileclose_def Let_def split: if_splits dest!: kstat_fview ff.g_iput)

lemma file_ops_ok: "env_ok e \<Longrightarrow> fs_ops_ok (file_ops e)"
  unfolding fs_ops_ok_def file_ops_def
  by (auto simp: ptr_round_trip bindR_Inr_iff filedup_def idup_def kstat_idup
      dest: kstat_fileclose kstat_fview ff.g_iput split: if_splits)

lemma dup_descriptor:
  assumes "refs_but (\<lambda>_. 0) s" "a = file_ptr f" "f < NFILE" "op_filedup (file_ops e) a s = Inr (b, s1)" "0 < fref (getf s f)"
    "np < NPROC" "i < NOFILE" "ofile (getp s np) ! i = 0"
  shows "b = a" "procs s1 = procs s" "myproc s1 = myproc s" "refs_but (\<lambda>_. 0) (set_ofile np i b s1)"
proof -
  have b: "fref (getf s f) < 2 ^ 31 - 1" using refs_but_bound[OF assms(1,3)] by simp
  have c: "c_int (fref (getf s f) + 1) = fref (getf s f) + 1" by (rule c_int_id) (use b assms(5) in auto)
  have s1: "s1 = upd_file f (\<lambda>x. x\<lparr>fref := c_int (fref x + 1)\<rparr>) s" and ba: "b = a"
    using assms(2-5) by (auto simp: file_ops_def filedup_def)
  show "b = a" "procs s1 = procs s" "myproc s1 = myproc s" by (simp_all add: ba s1)
  have r1: "refs_but ((\<lambda>_. 0)(f := 1)) s1" 
    using refs_but_upd_file[OF assms(1,3), of "\<lambda>x. x\<lparr>fref := c_int (fref x + 1)\<rparr>"] by (simp add: s1 c)
  have "refs_but (\<lambda>k. ((\<lambda>_. 0)(f := 1)) k + of_bool (ofile (getp s1 np) ! i = file_ptr k) - of_bool (b = file_ptr k)) (set_ofile np i b s1)"
    by (rule refs_but_set_ofile[OF r1 assms(6,7)]) (use ba assms(2,3) in auto)
  then show "refs_but (\<lambda>_. 0) (set_ofile np i b s1)"
    by (rule refs_but_cong) (use assms(2,3,8) ba s1 file_ptr_simps(1)[symmetric] in auto)
qed

text \<open>\<open>fork\<close> gives the child the descriptors of the parent.\<close>

lemma fork_files_loop:
  assumes "fold_res (\<lambda>i s. let f = ofile (getp s p) ! i in
       if f \<noteq> 0 then bindR (op_filedup (file_ops e) f s) (\<lambda>(f', s1).
         Inr (upd_proc np (\<lambda>q. q\<lparr>ofile := (ofile q)[i := f']\<rparr>) s1))
       else Inr s) [i..<NOFILE] s = Inr s'"
    "good s" "p < NPROC" "np < NPROC" "p \<noteq> np" "\<forall>j<NOFILE. ofile (getp s np) ! j = (if j < i then ofile (getp s p) ! j else 0)" "i \<le> NOFILE"
  shows "good s' \<and> ofile (getp s' np) = ofile (getp s p)"
  using assms
proof (induction "NOFILE - i" arbitrary: i s)
  case 0
  have "length (ofile (getp s p)) = NOFILE" "length (ofile (getp s np)) = NOFILE"
    using 0 by (auto simp: refs_ok_def procs_ok_def)
  moreover have "i = NOFILE" using 0 by simp
  ultimately have "ofile (getp s np) = ofile (getp s p)" using "0.prems"(6) by (intro nth_equalityI) auto
  then show ?case using 0 by simp
next
  case (Suc n)
  then have i: "i < NOFILE" by simp
  let ?a = "ofile (getp s p) ! i"
  have len: "length (procs s) = NPROC" "length (ofile (getp s p)) = NOFILE" "length (ofile (getp s np)) = NOFILE"
    using Suc.prems by (auto simp: refs_ok_def procs_ok_def)
  show ?case
  proof (cases "?a = 0")
    case True
    with Suc.prems(1) i have "fold_res (\<lambda>i s. let f = ofile (getp s p) ! i in
       if f \<noteq> 0 then bindR (op_filedup (file_ops e) f s) (\<lambda>(f', s1).
         Inr (upd_proc np (\<lambda>q. q\<lparr>ofile := (ofile q)[i := f']\<rparr>) s1))
       else Inr s) [Suc i..<NOFILE] s = Inr s'" by (simp add: upt_conv_Cons)
    moreover have "\<forall>j<NOFILE. ofile (getp s np) ! j = (if j < Suc i then ofile (getp s p) ! j else 0)"
      using Suc.prems(6) True by (auto simp: less_Suc_eq)
    ultimately show ?thesis using Suc.hyps Suc.prems(2-5) i by (intro Suc.hyps(1)) auto
  next
    case False
    have "?a \<in> set (ofile (getp s p))" using len i by simp
    then obtain f where f: "f < NFILE" "?a = file_ptr f" using Suc.prems(2,3) False unfolding refs_ok_def by blast
    from Suc.prems(1) i False obtain b s1 where d: "op_filedup (file_ops e) ?a s = Inr (b, s1)" and
      r: "fold_res (\<lambda>i s. let f = ofile (getp s p) ! i in
       if f \<noteq> 0 then bindR (op_filedup (file_ops e) f s) (\<lambda>(f', s1).
         Inr (upd_proc np (\<lambda>q. q\<lparr>ofile := (ofile q)[i := f']\<rparr>) s1))
       else Inr s) [Suc i..<NOFILE] (set_ofile np i b s1) = Inr s'"
      by (auto simp: upt_conv_Cons bindR_Inr_iff Let_def set_ofile_def)
    have z: "ofile (getp s np) ! i = 0" using Suc.prems(6) i by simp
    note D = dup_descriptor[OF _ f(2,1) d refs_pos(1)[OF _ Suc.prems(3) i f] Suc.prems(4) i z, unfolded refs_but_0, OF _ _]
    have g: "good (set_ofile np i b s1)" and ba: "b = ?a" and ps: "procs s1 = procs s"
      using D Suc.prems(2) by (auto simp: my_ok_def)
    have o: "ofile (getp (set_ofile np i b s1) p) = ofile (getp s p)"
      "ofile (getp (set_ofile np i b s1) np) = (ofile (getp s np))[i := ?a]"
      using ps ba Suc.prems(4,5) len by auto
    have "good s' \<and> ofile (getp s' np) = ofile (getp (set_ofile np i b s1) p)"
    proof (rule Suc.hyps(1)[OF _ r g Suc.prems(3-5)])
      show "\<forall>j<NOFILE. ofile (getp (set_ofile np i b s1) np) ! j = (if j < Suc i then ofile (getp (set_ofile np i b s1) p) ! j else 0)"
        unfolding o using Suc.prems(6) len(3) i by (auto simp: nth_list_update less_Suc_eq)
    qed (use Suc.hyps(2) i in auto)
    then show ?thesis using o(1) by simp
  qed
qed

lemma fork_files_good:
  assumes "fork_files (file_ops e) p np s = Inr s'" "good s" "p < NPROC" "np < NPROC" "p \<noteq> np" "ofile (getp s np) = replicate NOFILE 0"
  shows "good s' \<and> ofile (getp s' np) = ofile (getp s p)"
  using fork_files_loop[of p e np 0 s s'] assms by (simp add: fork_files_def)

text \<open>\<open>exit\<close> closes every descriptor.\<close>

lemma exit_files_loop:
  assumes "fold_res (\<lambda>fd s. let f = ofile (getp s p) ! fd in
       if f \<noteq> 0 then bindR (op_fileclose (file_ops e) f s) (\<lambda>s1.
         Inr (upd_proc p (\<lambda>q. q\<lparr>ofile := (ofile q)[fd := 0]\<rparr>) s1))
       else Inr s) fds s = Inr s'" "env_ok e" "good s" "p < NPROC" "set fds \<subseteq> {..<NOFILE}"
  shows "good s'"
  using assms(1,3,5)
proof (induction fds arbitrary: s)
  case (Cons fd fds)
  let ?a = "ofile (getp s p) ! fd"
  have fd: "fd < NOFILE" using Cons.prems(3) by simp
  show ?case
  proof (cases "?a = 0")
    case True
    then show ?thesis using Cons by simp
  next
    case False
    have "?a \<in> set (ofile (getp s p))" using Cons.prems(2) assms(4) fd by (auto simp: refs_ok_def procs_ok_def)
    then obtain f where f: "f < NFILE" "?a = file_ptr f" using Cons.prems(2) assms(4) False unfolding refs_ok_def by blast
    from Cons.prems(1) False f obtain s1 where d: "fileclose e f s = Inr s1" and
      r: "fold_res (\<lambda>fd s. let f = ofile (getp s p) ! fd in
       if f \<noteq> 0 then bindR (op_fileclose (file_ops e) f s) (\<lambda>s1.
         Inr (upd_proc p (\<lambda>q. q\<lparr>ofile := (ofile q)[fd := 0]\<rparr>) s1))
       else Inr s) fds (set_ofile p fd 0 s1) = Inr s'"
      by (auto simp: bindR_Inr_iff Let_def set_ofile_def file_ops_def)
    have p1: "procs s1 = procs s" using kstat_eqD(1)[OF kstat_fileclose[OF d assms(2)]] .
    have pos: "0 < fref (getf s f)" using refs_pos(1) Cons.prems(2) assms(4) fd f by blast
    note F = fileclose_one[OF d assms(2) _ f(1), of "\<lambda>_. 0"]
    have r1: "refs_but ((\<lambda>_. 0)(f := - 1)) s1" "my_ok s1" using F pos Cons.prems(2) by (simp_all add: refs_but_0)
    have "refs_but (\<lambda>_. 0) (set_ofile p fd 0 s1)"
      by (rule refs_but_cong[OF release_fd[OF r1(1) assms(4) fd f(1)]]) (use p1 f in simp_all)
    then have "good (set_ofile p fd 0 s1)" using r1(2) by (simp add: refs_but_0 my_ok_def)
    from Cons.IH[OF r this] Cons.prems(3) show ?thesis by simp
  qed
qed simp

lemma exit_files_good:
  "exit_files (file_ops e) p s = Inr s' \<Longrightarrow> env_ok e \<Longrightarrow> good s \<Longrightarrow> p < NPROC \<Longrightarrow> good s'"
  unfolding exit_files_def by (rule exit_files_loop) auto

section \<open>Every sequence of calls\<close>

definition file_calls :: "'a filek_scheme file_env \<Rightarrow> (u8 list \<Rightarrow> u64 list \<Rightarrow> 'a filek_scheme \<Rightarrow> (int \<times> 'a filek_scheme) res) \<Rightarrow>
    'a filek_scheme handler list" where
  "file_calls e ex = [sys_dup, sys_read e, sys_write e, sys_close e, sys_fstat e, sys_link, sys_unlink, sys_open e, sys_mkdir,
     sys_mknod, sys_chdir, sys_exec ex, sys_pipe e, sys_symlink e]"

text \<open>
  One event: a system call on files that returns, the duplication of the descriptors by \<open>fork\<close> into a process that
  has none, the closing of the descriptors by \<open>exit\<close>, a change of memory, or another process that gets the CPU.
\<close>

inductive file_step :: "'a filek_scheme file_env \<Rightarrow> (u8 list \<Rightarrow> u64 list \<Rightarrow> 'a filek_scheme \<Rightarrow> (int \<times> 'a filek_scheme) res) \<Rightarrow>
    'a filek_scheme \<Rightarrow> 'a filek_scheme \<Rightarrow> bool" for e ex where
  Call: "h \<in> set (file_calls e ex) \<Longrightarrow> h s = Inr (r, s') \<Longrightarrow> file_step e ex s s'"
| Fork: "p < NPROC \<Longrightarrow> np < NPROC \<Longrightarrow> p \<noteq> np \<Longrightarrow> ofile (getp s np) = replicate NOFILE 0 \<Longrightarrow>
    fork_files (file_ops e) p np s = Inr s' \<Longrightarrow> file_step e ex s s'"
| Exit: "p < NPROC \<Longrightarrow> exit_files (file_ops e) p s = Inr s' \<Longrightarrow> file_step e ex s s'"
| Memory: "file_step e ex s (s\<lparr>mem := m\<rparr>)"
| Switch: "my_ok (s\<lparr>cpus := c, hart := h\<rparr>) \<Longrightarrow> file_step e ex s (s\<lparr>cpus := c, hart := h\<rparr>)"

lemma file_call_good:
  assumes "h \<in> set (file_calls e ex)" "h s = Inr (r, s')" "env_ok e" "exec_ok ex" "good s"
  shows "good s'"
proof -
  have V: "fview s' = fview s \<Longrightarrow> good s'" using good_fview assms(5) by blast
  from assms(1) consider "h = sys_dup" | "h = sys_read e" | "h = sys_write e" | "h = sys_close e" | "h = sys_fstat e" | "h = sys_link"
    | "h = sys_unlink" | "h = sys_open e" | "h = sys_mkdir" | "h = sys_mknod" | "h = sys_chdir" | "h = sys_exec ex" | "h = sys_pipe e"
    | "h = sys_symlink e" by (auto simp: file_calls_def)
  then show ?thesis
    using assms(2-5) V
    by cases (auto dest: sys_dup_good sys_read_good sys_write_good sys_close_good fview_sys_fstat fview_sys_link fview_sys_unlink
        sys_open_good fview_sys_mkdir fview_sys_mknod sys_chdir_good sys_exec_good sys_pipe_good fview_sys_symlink)
qed

lemma file_step_good: "file_step e ex s s' \<Longrightarrow> env_ok e \<Longrightarrow> exec_ok ex \<Longrightarrow> good s \<Longrightarrow> good s'"
proof (induction rule: file_step.induct)
  case (Call h s r s')
  then show ?case using file_call_good by blast
next
  case (Fork p np s s')
  then show ?case using fork_files_good by blast
next
  case (Exit p s s')
  then show ?case using exit_files_good by blast
next
  case (Memory s m)
  then show ?case using good_fview[OF ff.g_mem] by blast
next
  case (Switch s c h)
  then show ?case by (simp add: refs_ok_def)
qed

end
