(* ===== verification/Exec.thy ===== *)
theory Exec
  imports SysfileSteps
begin

text \<open>
  Running a program (\<open>xv6-lab-pagetables/kernel/exec.c\<close>): the program file is loaded into a new page table, the
  arguments are pushed onto a new stack, and only then the old image is given up.

  The layout of an ELF file (\<open>elf.h\<close>) is not part of the sources: sizes, constants and the fields of
  the two headers are the argument \<open>elf_fmt\<close>. The argument strings are in pages of the kernel, as
  \<open>sys_exec\<close> leaves them. What \<open>vmprint\<close> prints for the first process is no state.
\<close>

section \<open>The program file\<close>

record elfhdr =
  elf_magic :: u32
  elf_entry :: u64
  elf_phoff :: u64
  elf_phnum :: u16

record proghdr =
  ph_type :: u32
  ph_off :: u64
  ph_vaddr :: u64
  ph_filesz :: u64
  ph_memsz :: u64

record elf_fmt =
  ELF_MAGIC :: u32
  ELF_PROG_LOAD :: u32
  sizeof_elfhdr :: nat
  sizeof_proghdr :: nat
  elfhdr_of :: "u8 list \<Rightarrow> elfhdr"
  proghdr_of :: "u8 list \<Rightarrow> proghdr"

text \<open>
  The counter \<open>i\<close> of the loop counts bytes; a file is too short for it to wrap around.
\<close>

function loadseg_from :: "u64 \<Rightarrow> u64 \<Rightarrow> nat \<Rightarrow> u32 \<Rightarrow> nat \<Rightarrow> nat \<Rightarrow> 'a filek_scheme \<Rightarrow> (int \<times> 'a filek_scheme) res" where
  "loadseg_from pt va ip offset sz i s =
     (if i < sz then
        bindR (walkaddr kalloc pt (va + of_nat i) s) (\<lambda>pa.
          if pa = 0 then Inl (Panic ''loadseg: address should exist'')
          else let n = (if sz - i < unat PGSIZE then sz - i else unat PGSIZE) in
            bindR (readi ip False pa (offset + of_nat i) (of_nat n) s) (\<lambda>(r, s1).
              if r \<noteq> int n then Inr (-1, s1) else loadseg_from pt va ip offset sz (i + unat PGSIZE) s1))
      else Inr (0, s))"
  by pat_completeness auto
termination
  by (relation "measure (\<lambda>(pt, va, ip, offset, sz, i, s). sz - i)") (auto simp: PGSIZE_def)

declare loadseg_from.simps [simp del]

definition loadseg :: "u64 \<Rightarrow> u64 \<Rightarrow> nat \<Rightarrow> u32 \<Rightarrow> u32 \<Rightarrow> 'a filek_scheme \<Rightarrow> (int \<times> 'a filek_scheme) res" where
  "loadseg pt va ip offset sz s = loadseg_from pt va ip offset (unat sz) 0 s"

text \<open>
  The loop over the program headers that are left; the result is whether it got to the end, and the size of the
  image so far.
\<close>

fun load_segments :: "elf_fmt \<Rightarrow> u64 \<Rightarrow> nat \<Rightarrow> nat \<Rightarrow> u32 \<Rightarrow> u64 \<Rightarrow> 'a filek_scheme \<Rightarrow> ((bool \<times> u64) \<times> 'a filek_scheme) res" where
  "load_segments F pt ip 0 off sz s = Inr ((True, sz), s)"
| "load_segments F pt ip (Suc n) off sz s =
     bindR (readi_to to_local ip off (of_nat (sizeof_proghdr F)) [] s) (\<lambda>(r, bs, s1).
       if r \<noteq> int (sizeof_proghdr F) then Inr ((False, sz), s1)
       else let ph = proghdr_of F bs; off' = off + of_nat (sizeof_proghdr F) in
         if ph_type ph \<noteq> ELF_PROG_LOAD F then load_segments F pt ip n off' sz s1
         else if ph_memsz ph < ph_filesz ph then Inr ((False, sz), s1)
         else if ph_vaddr ph + ph_memsz ph < ph_vaddr ph then Inr ((False, sz), s1)
         else bindR (uvmalloc kalloc kfree pt sz (ph_vaddr ph + ph_memsz ph) s1) (\<lambda>(sz1, s2).
           if sz1 = 0 then Inr ((False, sz), s2)
           else if ph_vaddr ph mod PGSIZE \<noteq> 0 then Inr ((False, sz1), s2)
           else bindR (loadseg pt (ph_vaddr ph) ip (ucast (ph_off ph)) (ucast (ph_filesz ph)) s2) (\<lambda>(l, s3).
             if l < 0 then Inr ((False, sz1), s3) else load_segments F pt ip n off' sz1 s3)))"

section \<open>The stack\<close>

definition arg_string :: "u64 \<Rightarrow> 'a machine_scheme \<Rightarrow> u8 list" where
  "arg_string a s = cstr (read_bytes (mem s) a (unat PGSIZE))"

text \<open>The strings; the result is the stack pointer and \<open>ustack\<close>, or that there is no room.\<close>

fun push_args :: "u64 \<Rightarrow> u64 \<Rightarrow> u64 list \<Rightarrow> u64 \<Rightarrow> u64 list \<Rightarrow> 'a filek_scheme \<Rightarrow> ((u64 \<times> u64 list) option \<times> 'a filek_scheme) res" where
  "push_args pt stackbase [] sp ustack s = Inr (Some (sp, ustack), s)"
| "push_args pt stackbase (a # argv) sp ustack s =
     (if length ustack \<ge> MAXARG then Inr (None, s)
      else let sp1 = sp - (of_nat (length (arg_string a s)) + 1); sp2 = sp1 - sp1 mod 16 in
        if sp2 < stackbase then Inr (None, s)
        else bindR (copyout kalloc pt sp2 (arg_string a s @ [0]) s) (\<lambda>(r, s1).
          if r < 0 then Inr (None, s1) else push_args pt stackbase argv sp2 (ustack @ [sp2]) s1))"

definition push_argv :: "u64 \<Rightarrow> u64 \<Rightarrow> u64 \<Rightarrow> u64 list \<Rightarrow> 'a filek_scheme \<Rightarrow> (u64 option \<times> 'a filek_scheme) res" where
  "push_argv pt stackbase sp ustack s =
     (let sp1 = sp - (of_nat (length ustack) + 1) * 8; sp2 = sp1 - sp1 mod 16 in
      if sp2 < stackbase then Inr (None, s)
      else bindR (copyout kalloc pt sp2 (concat (map (le_bytes 8) (ustack @ [0]))) s) (\<lambda>(r, s1).
        Inr (if r < 0 then None else Some sp2, s1)))"

section \<open>\<open>exec\<close>\<close>

definition exec_bad :: "u64 \<Rightarrow> u64 \<Rightarrow> nat option \<Rightarrow> 'a filek_scheme \<Rightarrow> (int \<times> 'a filek_scheme) res" where
  "exec_bad pt sz ip s =
     bindR (if pt \<noteq> 0 then proc_freepagetable pt sz s else Inr s) (\<lambda>s1.
       bindR (case ip of Some i \<Rightarrow> iunlockput i s1 | None \<Rightarrow> Inr s1) (\<lambda>s2. Inr (-1, s2)))"

text \<open>The name for debugging is what follows the last slash.\<close>

definition last_elem :: "u8 list \<Rightarrow> string" where
  "last_elem path = map (\<lambda>b. char_of (unat b)) (rev (takeWhile (\<lambda>b. b \<noteq> SLASH) (rev path)))"

definition exec_commit :: "nat \<Rightarrow> u64 \<Rightarrow> u64 \<Rightarrow> u64 \<Rightarrow> u64 \<Rightarrow> u8 list \<Rightarrow> u64 \<Rightarrow> 'a filek_scheme \<Rightarrow> 'a filek_scheme res" where
  "exec_commit p pt sz entry sp path oldsz s =
     (let tf = trapframe (getp s p);
          s1 = s\<lparr>mem := store64 (mem s) (tf + 120) sp\<rparr>;
          s2 = upd_proc p (\<lambda>q. q\<lparr>pname := safestrcpy (last_elem path) 16\<rparr>) s1;
          oldpt = pagetable (getp s2 p);
          s3 = upd_proc p (\<lambda>q. q\<lparr>pagetable := pt, psz := sz\<rparr>) s2;
          s4 = s3\<lparr>mem := store64 (mem s3) (tf + TF_epc) entry\<rparr>;
          s5 = s4\<lparr>mem := store64 (mem s4) (tf + TF_sp) sp\<rparr>
      in proc_freepagetable oldpt oldsz s5)"

definition exec_stack :: "nat \<Rightarrow> u64 \<Rightarrow> u64 \<Rightarrow> u64 \<Rightarrow> u8 list \<Rightarrow> u64 list \<Rightarrow> 'a filek_scheme \<Rightarrow> (int \<times> 'a filek_scheme) res" where
  "exec_stack p pt sz entry path argv s =
     (let oldsz = psz (getp s p); sz0 = PGROUNDUP sz in
      bindR (uvmalloc kalloc kfree pt sz0 (sz0 + 2 * PGSIZE) s) (\<lambda>(sz1, s1).
        if sz1 = 0 then exec_bad pt sz0 None s1
        else bindR (uvmclear kalloc pt (sz1 - 2 * PGSIZE) s1) (\<lambda>s2.
          bindR (push_args pt (sz1 - PGSIZE) argv sz1 [] s2) (\<lambda>(r, s3). case r of
            None \<Rightarrow> exec_bad pt sz1 None s3
          | Some (sp, ustack) \<Rightarrow> bindR (push_argv pt (sz1 - PGSIZE) sp ustack s3) (\<lambda>(r, s4). case r of
              None \<Rightarrow> exec_bad pt sz1 None s4
            | Some sp' \<Rightarrow> bindR (exec_commit p pt sz1 entry sp' path oldsz s4) (\<lambda>s5. Inr (int (length ustack), s5)))))))"

definition exec :: "elf_fmt \<Rightarrow> u8 list \<Rightarrow> u64 list \<Rightarrow> 'a filek_scheme \<Rightarrow> (int \<times> 'a filek_scheme) res" where
  "exec F path argv s = the_proc s (\<lambda>p.
     bindR (namei path s) (\<lambda>(r, s1). case r of None \<Rightarrow> Inr (-1, s1) | Some ip \<Rightarrow>
       bindR (ilock (Some ip) s1) (\<lambda>s2.
         bindR (readi_to to_local ip 0 (of_nat (sizeof_elfhdr F)) [] s2) (\<lambda>(r, bs, s3).
           let elf = elfhdr_of F bs in
           if r \<noteq> int (sizeof_elfhdr F) then exec_bad 0 0 (Some ip) s3
           else if elf_magic elf \<noteq> ELF_MAGIC F then exec_bad 0 0 (Some ip) s3
           else bindR (proc_pagetable p s3) (\<lambda>(pt, s4).
             if pt = 0 then exec_bad 0 0 (Some ip) s4
             else bindR (load_segments F pt ip (unat (elf_phnum elf)) (ucast (elf_phoff elf)) 0 s4) (\<lambda>((ok, sz), s5).
               if \<not> ok then exec_bad pt sz (Some ip) s5
               else bindR (iunlockput ip s5) (\<lambda>s6. exec_stack p pt sz (elf_entry elf) path argv s6)))))))"

end
