(* ===== verification/ExecCorrect.thy ===== *)
theory ExecCorrect
  imports Exec
begin

text \<open>
  \<open>exec\<close> is all or nothing: when it fails the process still has its old image, name and descriptors, and when it succeeds
  only the image and the name have changed. The new stack pointer is aligned and inside the stack page.
\<close>

section \<open>What is left alone before the commit\<close>

lemma fview_proc_pagetable: "proc_pagetable i s = Inr (pt, s') \<Longrightarrow> fview s' = fview s"
  by (auto simp: proc_pagetable_def Let_def bindR_Inr_iff split: if_splits prod.splits
      dest!: vf.g_uvmcreate vf.g_mappages vf.g_uvmfree vf.g_uvmunmap)

lemma fview_proc_freepagetable: "proc_freepagetable pt sz s = Inr s' \<Longrightarrow> fview s' = fview s"
  by (auto simp: proc_freepagetable_def bindR_Inr_iff dest!: vf.g_uvmfree vf.g_uvmunmap)

lemma fview_uvmclear: "uvmclear kalloc pt va s = Inr s' \<Longrightarrow> fview s' = fview s"
  by (auto simp: uvmclear_def bindR_Inr_iff ff.g_mem dest!: vf.g_walk split: if_splits)

lemma fview_loadseg_from: "loadseg_from pt va ip offset sz i s = Inr (r, s') \<Longrightarrow> fview s' = fview s"
proof (induction pt va ip offset sz i s rule: loadseg_from.induct)
  case (1 pt va ip offset sz i s)
  note U = loadseg_from.simps[of pt va ip offset sz i s]
  show ?case
  proof (cases "i < sz")
    case True
    define n where "n = (if sz - i < unat PGSIZE then sz - i else unat PGSIZE)"
    note U = U[folded n_def]
    from True "1.prems" obtain pa v s1 where a: "walkaddr kalloc pt (va + of_nat i) s = Inr pa" "pa \<noteq> 0"
      "readi ip False pa (offset + of_nat i) (of_nat n) s = Inr (v, s1)"
      by (auto simp: U bindR_Inr_iff Let_def split: if_splits)
    have g1: "fview s1 = fview s" by (rule ff.g_readi[OF a(3)])
    show ?thesis
    proof (cases "v = int n")
      case eq: True
      then have "loadseg_from pt va ip offset sz (i + unat PGSIZE) s1 = Inr (r, s')"
        using True "1.prems" a by (simp add: U Let_def)
      from "1.IH"[OF True a(1,2) n_def a(3) refl _ this] eq g1 show ?thesis by simp
    qed (use True "1.prems" a g1 in \<open>simp add: U Let_def\<close>)
  qed (use "1.prems" in \<open>simp add: U\<close>)
qed

lemma fview_load_segments: "load_segments F pt ip n off sz s = Inr (r, s') \<Longrightarrow> fview s' = fview s"
proof (induction n arbitrary: off sz s)
  case (Suc n)
  from Suc.prems obtain v bs s1 where a: "readi_to to_local ip off (of_nat (sizeof_proghdr F)) [] s = Inr (v, bs, s1)"
    by (auto simp: bindR_Inr_iff)
  have g1: "fview s1 = fview s" by (rule ff.g_read_local[OF a])
  let ?ph = "proghdr_of F bs"
  show ?case
  proof (cases "v \<noteq> int (sizeof_proghdr F) \<or> ph_type ?ph \<noteq> ELF_PROG_LOAD F \<or> ph_memsz ?ph < ph_filesz ?ph \<or>
      ph_vaddr ?ph + ph_memsz ?ph < ph_vaddr ?ph")
    case True
    then show ?thesis using Suc.prems a g1 Suc.IH by (auto simp: Let_def split: if_splits)
  next
    case False
    with Suc.prems a obtain sz1 s2 where b: "uvmalloc kalloc kfree pt sz (ph_vaddr ?ph + ph_memsz ?ph) s1 = Inr (sz1, s2)"
      by (auto simp: Let_def bindR_Inr_iff)
    have g2: "fview s2 = fview s" using vf.g_uvmalloc[OF b] g1 by simp
    show ?thesis
    proof (cases "sz1 = 0 \<or> ph_vaddr ?ph mod PGSIZE \<noteq> 0")
      case True
      then show ?thesis using Suc.prems a b False g2 by (auto simp: Let_def split: if_splits)
    next
      case ok: False
      with Suc.prems a b False obtain l s3 where c: "loadseg pt (ph_vaddr ?ph) ip (ucast (ph_off ?ph)) (ucast (ph_filesz ?ph)) s2 = Inr (l, s3)"
        by (auto simp: Let_def bindR_Inr_iff)
      have g3: "fview s3 = fview s" using fview_loadseg_from[OF c[unfolded loadseg_def]] g2 by simp
      show ?thesis
      proof (cases "l < 0")
        case True
        then show ?thesis using Suc.prems a b False ok c g3 by (auto simp: Let_def)
      next
        case l: False
        then have "load_segments F pt ip n (off + of_nat (sizeof_proghdr F)) sz1 s3 = Inr (r, s')"
          using Suc.prems a b False ok c by (simp add: Let_def)
        from Suc.IH[OF this] g3 show ?thesis by simp
      qed
    qed
  qed
qed simp

lemma fview_push_args: "push_args pt base argv sp us s = Inr (r, s') \<Longrightarrow> fview s' = fview s"
  by (induction argv arbitrary: sp us s)
     (auto simp: Let_def bindR_Inr_iff dest!: ff.g_copyout_mem split: if_splits)

lemma fview_push_argv: "push_argv pt base sp us s = Inr (r, s') \<Longrightarrow> fview s' = fview s"
  by (auto simp: push_argv_def Let_def bindR_Inr_iff dest!: ff.g_copyout_mem split: if_splits)

lemma exec_badD: "exec_bad pt sz ip s = Inr (r, s') \<Longrightarrow> r = -1 \<and> fview s' = fview s"
  by (auto simp: exec_bad_def bindR_Inr_iff dest!: fview_proc_freepagetable ff.g_iunlockput split: if_splits option.splits)

section \<open>The stack pointer\<close>

lemma push_args_length: "push_args pt base argv sp us s = Inr (Some (sp', us'), s') \<Longrightarrow> length us' = length us + length argv"
  by (induction argv arbitrary: sp us s) (auto simp: Let_def bindR_Inr_iff split: if_splits)

lemma push_args_max:
  "push_args pt base argv sp us s = Inr (Some (sp', us'), s') \<Longrightarrow> length us \<le> MAXARG \<Longrightarrow> length us' \<le> MAXARG"
  by (induction argv arbitrary: sp us s) (auto simp: Let_def bindR_Inr_iff split: if_splits)

lemma unat_align: "unat (x - x mod 16 :: u64) = unat x - unat x mod 16"
proof -
  have "x mod 16 \<le> x" by (simp add: word_le_nat_alt unat_mod)
  then show ?thesis by (simp add: unat_sub unat_mod)
qed

lemma aligned_16: "(x - x mod 16) mod 16 = (0::u64)"
proof -
  have "unat ((x - x mod 16) mod 16) = (unat x - unat x mod 16) mod 16" by (simp only: unat_mod unat_align) simp
  also have "\<dots> = 0" by (simp only: minus_mod_eq_mult_div) simp
  finally have "unat ((x - x mod 16) mod 16) = 0" .
  then show ?thesis by (simp only: unat_eq_0)
qed

lemma copyout_in_range:
  assumes "copyout ka pt va src s = Inr (r, s')" "\<not> r < 0" "src \<noteq> []"
  shows "unat va < 2 ^ 39"
proof (rule ccontr)
  assume n: "\<not> unat va < 2 ^ 39"
  have "unat va - 4096 \<le> unat va - unat va mod 4096" by (simp add: diff_le_mono2)
  moreover have "2 ^ 38 \<le> unat va - 4096" using n by simp
  ultimately have "unat (PGROUNDDOWN va) \<ge> 2 ^ 38" unfolding unat_PGROUNDDOWN by (rule order_trans[rotated])
  then have "walkaddr ka pt (PGROUNDDOWN va) s = Inr 0" by (simp add: walkaddr_def unat_MAXVA word_le_nat_alt)
  then show False using assms by (simp add: copyout.simps[of ka pt va] Let_def)
qed

text \<open>Where the subtraction wraps around, \<open>copyout\<close> refuses the address.\<close>

lemma pushed_below:
  fixes sp :: u64
  assumes "unat (sp1 - sp1 mod 16) < 2 ^ 39" "sp1 = sp - of_nat k" "0 < k" "k < 2 ^ 20"
  shows "sp1 - sp1 mod 16 < sp"
proof -
  have k: "unat (of_nat k :: u64) = k" using assms(4) by (simp add: unat_of_nat)
  have m: "unat sp1 mod 16 \<le> unat sp1" "unat sp1 mod 16 < 16" by simp_all
  then have b: "unat sp1 < 2 ^ 39 + 16" using assms(1) unfolding unat_align by linarith
  have "k \<le> unat sp"
  proof (rule ccontr)
    assume n: "\<not> k \<le> unat sp"
    then have "unat sp1 = 2 ^ 64 + unat sp - k" using assms(2) k by (simp add: unat_sub_if')
    then show False using b assms(4) by simp
  qed
  then have "unat sp1 = unat sp - k" using assms(2) k by (simp add: unat_sub_if')
  then show ?thesis using \<open>k \<le> unat sp\<close> assms(3) unfolding word_less_nat_alt unat_align by linarith
qed

lemma cstr_length: "length (arg_string a s) \<le> 4096"
  using length_takeWhile_le[of _ "read_bytes (mem s) a 4096"] by (simp add: arg_string_def cstr_def PGSIZE_def read_bytes_def)

lemma push_args_spec:
  "push_args pt base argv sp us s = Inr (Some (sp', us'), s') \<Longrightarrow> base \<le> sp \<Longrightarrow> base \<le> sp' \<and> sp' \<le> sp"
proof (induction argv arbitrary: sp us s)
  case (Cons a argv)
  define k where "k = length (arg_string a s) + 1"
  define sp1 where "sp1 = sp - of_nat k"
  define sp2 where "sp2 = sp1 - sp1 mod 16"
  from Cons.prems obtain r s1 where c: "\<not> sp2 < base" "copyout kalloc pt sp2 (arg_string a s @ [0]) s = Inr (r, s1)" "\<not> r < 0"
    "push_args pt base argv sp2 (us @ [sp2]) s1 = Inr (Some (sp', us'), s')"
    by (auto simp: Let_def bindR_Inr_iff k_def sp1_def sp2_def add.commute split: if_splits)
  have "sp2 < sp" unfolding sp2_def
    by (rule pushed_below[OF _ sp1_def]) (use copyout_in_range[OF c(2,3)] cstr_length[of a s] in \<open>auto simp: k_def sp2_def\<close>)
  moreover have "base \<le> sp' \<and> sp' \<le> sp2" using Cons.IH[OF c(4)] c(1) by simp
  ultimately show ?case by (meson less_imp_le order_trans)
qed simp

lemma push_argv_spec:
  assumes "push_argv pt base sp us s = Inr (Some sp', s')" "length us \<le> MAXARG"
  shows "base \<le> sp' \<and> sp' < sp \<and> sp' mod 16 = 0"
proof -
  define k where "k = (length us + 1) * 8"
  define sp1 where "sp1 = sp - of_nat k"
  have e: "sp1 = sp - (of_nat (length us) + 1) * 8" by (simp add: sp1_def k_def algebra_simps)
  from assms(1) obtain r where c: "\<not> sp1 - sp1 mod 16 < base" "sp' = sp1 - sp1 mod 16"
    "copyout kalloc pt sp' (concat (map (le_bytes 8) (us @ [0]))) s = Inr (r, s')" "\<not> r < 0"
    by (auto simp: push_argv_def Let_def bindR_Inr_iff e split: if_splits)
  have "concat (map (le_bytes 8) (us @ [0])) \<noteq> []" using length_le_bytes[of 8 "0::u64"] by (auto simp del: length_le_bytes)
  from copyout_in_range[OF c(3,4) this] have "sp' < sp"
    unfolding c(2) by (intro pushed_below[OF _ sp1_def]) (use assms(2) in \<open>auto simp: k_def MAXARG_def\<close>)
  then show ?thesis using c(1,2) aligned_16 by auto
qed

section \<open>\<open>exec\<close>\<close>

text \<open>The image after a successful \<open>exec\<close>.\<close>

definition new_image :: "u64 \<Rightarrow> u64 \<Rightarrow> u8 list \<Rightarrow> proc \<Rightarrow> proc" where
  "new_image pt sz path q = q\<lparr>pname := safestrcpy (last_elem path) 16, pagetable := pt, psz := sz\<rparr>"

definition committed :: "nat \<Rightarrow> u8 list \<Rightarrow> 'a filek_scheme \<Rightarrow> 'a filek_scheme \<Rightarrow> u64 \<Rightarrow> u64 \<Rightarrow> u64 \<Rightarrow> u64 \<Rightarrow> bool" where
  "committed p path s s' pt entry sz sp \<longleftrightarrow> fview s' = fview (upd_proc p (new_image pt sz path) s) \<and>
     (\<exists>t. fview t = fview s \<and> exec_commit p pt sz entry sp path (psz (getp s p)) t = Inr s') \<and>
     sp mod 16 = 0 \<and> (PGSIZE \<le> sz \<longrightarrow> sz - PGSIZE \<le> sp \<and> sp < sz)"

lemma exec_commit_spec:
  assumes "exec_commit p pt sz entry sp path oldsz s = Inr s'"
  shows "fview s' = fview (upd_proc p (new_image pt sz path) s)"
proof -
  from assms obtain pt0 t where t: "proc_freepagetable pt0 oldsz t = Inr s'" "fview t = fview (upd_proc p (new_image pt sz path) s)"
    by (cases "p < length (procs s)") (auto simp: exec_commit_def Let_def fview_def kstat_def upd_proc_def new_image_def list_update_beyond)
  then show ?thesis using fview_proc_freepagetable by fastforce
qed

lemma exec_stack_spec:
  assumes "exec_stack p pt sz entry path argv s = Inr (r, s')"
  shows "if r = -1 then fview s' = fview s
    else r = int (length argv) \<and> (\<exists>sz' sp. committed p path s s' pt entry sz' sp)"
proof -
  let ?sz0 = "PGROUNDUP sz"
  from assms(1) obtain sz1 s1 where a: "uvmalloc kalloc kfree pt ?sz0 (?sz0 + 2 * PGSIZE) s = Inr (sz1, s1)"
    by (auto simp: exec_stack_def Let_def bindR_Inr_iff)
  note S = assms(1)[unfolded exec_stack_def Let_def a bindR_simps prod.case]
  have g1: "fview s1 = fview s" by (rule vf.g_uvmalloc[OF a])
  show ?thesis
  proof (cases "sz1 = 0")
    case True
    then show ?thesis using S g1 by (auto dest: exec_badD)
  next
    case nz: False
    with S obtain s2 q s3 where b: "uvmclear kalloc pt (sz1 - 2 * PGSIZE) s1 = Inr s2"
      "push_args pt (sz1 - PGSIZE) argv sz1 [] s2 = Inr (q, s3)" by (auto simp: bindR_Inr_iff)
    have g3: "fview s3 = fview s" using fview_uvmclear[OF b(1)] fview_push_args[OF b(2)] g1 by simp
    note S1 = S[unfolded if_not_P[OF nz] b bindR_simps prod.case]
    show ?thesis
    proof (cases q)
      case None
      then show ?thesis using S1 g3 by (auto dest: exec_badD)
    next
      case (Some su)
      obtain sp us where su: "su = (sp, us)" by fastforce
      from S1 Some su obtain v s4 where c: "push_argv pt (sz1 - PGSIZE) sp us s3 = Inr (v, s4)" by (auto simp: bindR_Inr_iff)
      have g4: "fview s4 = fview s" using fview_push_argv[OF c] g3 by simp
      have us: "length us = length argv" using push_args_length b(2) Some su by fastforce
      have mx: "length us \<le> MAXARG" using push_args_max[OF b(2)[unfolded Some su]] by simp
      show ?thesis
      proof (cases v)
        case None
        then show ?thesis using S1 Some su c g4 by (auto dest: exec_badD)
      next
        case (Some sp')
        with S1 \<open>q = Some su\<close> su c have d: "exec_commit p pt sz1 entry sp' path (psz (getp s p)) s4 = Inr s'" and r: "r = int (length us)"
          by (auto simp: bindR_Inr_iff)
        from exec_commit_spec[OF d] have V: "fview s' = fview (upd_proc p (new_image pt sz1 path) s)"
          using g4 by (simp add: fview_def kstat_def upd_proc_def)
        have B: "sz1 - PGSIZE \<le> sp' \<and> sp' < sp \<and> sp' mod 16 = 0" using push_argv_spec[OF c[unfolded Some] mx] .
        have "sp \<le> sz1" if "PGSIZE \<le> sz1"
          using push_args_spec[OF b(2)[unfolded \<open>q = Some su\<close> su]] that by (simp add: word_sub_le)
        then have "PGSIZE \<le> sz1 \<longrightarrow> sz1 - PGSIZE \<le> sp' \<and> sp' < sz1" using B by (auto intro: order.strict_trans2)
        then have "committed p path s s' pt entry sz1 sp'" unfolding committed_def using V B d g4 by blast
        moreover have "r \<noteq> -1" using r by simp
        ultimately show ?thesis using r us by auto
      qed
    qed
  qed
qed

lemma exec_spec:
  assumes "exec F path argv s = Inr (r, s')" "myproc s = Some p"
  shows "if r = -1 then fview s' = fview s
    else r = int (length argv) \<and> (\<exists>pt entry sz sp. committed p path s s' pt entry sz sp)"
proof -
  from assms(1,2) obtain q s1 where a: "namei path s = Inr (q, s1)" by (auto simp: exec_def the_proc_def bindR_Inr_iff)
  have g1: "fview s1 = fview s" by (rule ff.g_namei[OF a])
  note S = assms(1)[unfolded exec_def the_proc_def assms(2) option.case a bindR_simps prod.case]
  show ?thesis
  proof (cases q)
    case None
    then show ?thesis using S g1 by simp
  next
    case (Some ip)
    from S Some obtain s2 v bs s3 where b: "ilock (Some ip) s1 = Inr s2"
      "readi_to to_local ip 0 (of_nat (sizeof_elfhdr F)) [] s2 = Inr (v, bs, s3)"
      by (auto simp: bindR_Inr_iff)
    have g3: "fview s3 = fview s" using ff.g_ilock[OF b(1)] ff.g_read_local[OF b(2)] g1 by simp
    note S1 = S[unfolded Some option.case b bindR_simps prod.case Let_def]
    show ?thesis
    proof (cases "v \<noteq> int (sizeof_elfhdr F) \<or> elf_magic (elfhdr_of F bs) \<noteq> ELF_MAGIC F")
      case True
      then show ?thesis using S1 g3 by (auto dest!: exec_badD split: if_splits)
    next
      case False
      with S1 obtain pt s4 where c: "proc_pagetable p s3 = Inr (pt, s4)" by (auto simp: bindR_Inr_iff)
      have g4: "fview s4 = fview s" using fview_proc_pagetable[OF c] g3 by simp
      show ?thesis
      proof (cases "pt = 0")
        case True
        then show ?thesis using S1 False c g4 by (auto dest!: exec_badD)
      next
        case pt: False
        with S1 False c obtain ok sz s5 where d:
          "load_segments F pt ip (unat (elf_phnum (elfhdr_of F bs))) (ucast (elf_phoff (elfhdr_of F bs))) 0 s4 = Inr ((ok, sz), s5)"
          by (auto simp: bindR_Inr_iff)
        have g5: "fview s5 = fview s" using fview_load_segments[OF d] g4 by simp
        show ?thesis
        proof (cases ok)
          case False
          then show ?thesis using S1 \<open>\<not> (_ \<or> _)\<close> c pt d g5 by (auto dest!: exec_badD)
        next
          case True
          with S1 \<open>\<not> (_ \<or> _)\<close> c pt d obtain s6 where e: "iunlockput ip s5 = Inr s6"
            "exec_stack p pt sz (elf_entry (elfhdr_of F bs)) path argv s6 = Inr (r, s')" by (auto simp: bindR_Inr_iff)
          have g6: "fview s6 = fview s" using ff.g_iunlockput[OF e(1)] g5 by simp
          note P = fviewD(1)[OF g6]
          have E: "fview (upd_proc p f s6) = fview (upd_proc p f s)" for f using g6 by (simp add: fview_def kstat_def upd_proc_def)
          have C: "committed p path s6 s' = committed p path s s'" by (intro ext) (simp only: committed_def P E g6)
          show ?thesis using exec_stack_spec[OF e(2)] unfolding C g6 by (auto split: if_splits)
        qed
      qed
    qed
  qed
qed

text \<open>This is what the system calls on files need of \<open>exec\<close>.\<close>

lemma exec_exec_ok: "exec_ok (exec F)"
proof -
  have "map ofile (procs s') = map ofile (procs s) \<and> ftable s' = ftable s \<and> myproc s' = myproc s"
    if e: "exec F path argv s = Inr (r, s')" for path argv s r and s' :: "'a filek_scheme"
  proof -
    from e obtain p where p: "myproc s = Some p" by (cases "myproc s") (auto simp: exec_def the_proc_def)
    obtain t where t: "fview s' = fview t" "t = s \<or> (\<exists>pt sz. t = upd_proc p (new_image pt sz path) s)"
      using exec_spec[OF e p] unfolding committed_def by metis
    have "map ofile (procs t) = map ofile (procs s) \<and> ftable t = ftable s \<and> myproc t = myproc s"
      using t(2) by (cases "p < length (procs s)")
        (auto simp: upd_proc_def new_image_def map_update myproc_def mycpu_def cpuid_def list_update_same_conv list_update_beyond)
    then show ?thesis using fviewD[OF t(1)] by simp
  qed
  then show ?thesis unfolding exec_ok_def by blast
qed

end
