(* ===== verification/SysfileProps.thy ===== *)
theory SysfileProps
  imports ExecCorrect FsProps
begin

text \<open>
  The properties of descriptors, open files and \<open>exec\<close>. The state \<open>files0\<close> has the small disk, and one process of
  64 runs with descriptor 0 open.
\<close>

section \<open>A small state\<close>

definition no_file :: sfile where
  "no_file = \<lparr>ftype = FD_NONE, fref = 0, readable = False, writable = False, fpipe = 0, fip = 0, foff = 0, fmajor = 0\<rparr>"

definition files0 :: filek where
  "files0 = \<lparr>mem = (\<lambda>_. 0), kend = KERNBASE, freelist = 0,
     procs = (replicate NPROC empty_slot)[0 := empty_slot\<lparr>pstate := RUNNING, pid := 1, ofile := (replicate NOFILE 0)[0 := file_ptr 0]\<rparr>],
     nextpid = 2, initproc = Some 0, cpus = [Some 0], hart = 0, trampoline = 0, forkret_addr = 0,
     sb = disk0_sb, blocks = disk0_blocks, logged = [],
     itable = (replicate NINODE no_inode)[0 := no_inode\<lparr>idev := 1, inum := 1, ref := 1, ivalid := True, itype := T_DIR, nlink := 1\<rparr>],
     ftable = (replicate NFILE no_file)[0 := no_file\<lparr>ftype := FD_INODE, fref := 1, readable := True\<rparr>]\<rparr>"

definition env0 :: "filek file_env" where
  "env0 = \<lparr>pipealloc = (\<lambda>s. Inr (-1, 0, 0, s)), pipeclose = (\<lambda>_ _ s. Inr s), piperead = (\<lambda>_ _ _ s. Inr (-1, s)),
     pipewrite = (\<lambda>_ _ _ s. Inr (-1, s)), devread = (\<lambda>_. None), devwrite = (\<lambda>_. None), stat_pad = [0, 0, 0, 0],
     stack_buf = replicate MAXPATH 0\<rparr>"

definition elf0 :: elf_fmt where
  "elf0 = \<lparr>ELF_MAGIC = 0x464C457F, ELF_PROG_LOAD = 1, sizeof_elfhdr = 64, sizeof_proghdr = 56,
     elfhdr_of = (\<lambda>bs. \<lparr>elf_magic = le_word (bslice 0 4 bs), elf_entry = le_word (bslice 24 8 bs),
       elf_phoff = le_word (bslice 32 8 bs), elf_phnum = le_word (bslice 56 2 bs)\<rparr>),
     proghdr_of = (\<lambda>bs. \<lparr>ph_type = le_word (bslice 0 4 bs), ph_off = le_word (bslice 8 8 bs), ph_vaddr = le_word (bslice 16 8 bs),
       ph_filesz = le_word (bslice 32 8 bs), ph_memsz = le_word (bslice 40 8 bs)\<rparr>)\<rparr>"

lemma env0_ok: "env_ok env0"
  by (simp add: env_ok_def env0_def fresh_pair_def)

lemma files0_mem: "mem files0 = (\<lambda>_. 0)"
  by (simp add: files0_def)

lemma files0_my [simp]: "myproc files0 = Some 0"
  by (simp add: files0_def myproc_def mycpu_def cpuid_def)

lemma files0_getp [simp]: "procs files0 = (replicate NPROC empty_slot)[0 := empty_slot\<lparr>pstate := RUNNING, pid := 1, ofile := (replicate NOFILE 0)[0 := file_ptr 0]\<rparr>]"
  "ftable files0 = (replicate NFILE no_file)[0 := no_file\<lparr>ftype := FD_INODE, fref := 1, readable := True\<rparr>]"
  by (simp_all add: files0_def)

lemma fd_refs_files0: "fd_refs (procs files0) (file_ptr f) = of_bool (f = 0)" if "f < NFILE"
proof -
  let ?ps = "replicate NPROC empty_slot"
  have z: "fd_refs ?ps (file_ptr f) = 0" using file_ptr_simps(1)[OF that] by (auto simp: fd_refs_def count_list_0_iff empty_slot_def)
  have "fd_refs (?ps[0 := (?ps ! 0)\<lparr>ofile := (ofile (?ps ! 0))[0 := file_ptr 0]\<rparr>]) (file_ptr f) + of_bool (ofile (?ps ! 0) ! 0 = file_ptr f) =
      fd_refs ?ps (file_ptr f) + of_bool (file_ptr 0 = file_ptr f)"
    by (rule fd_refs_update) (simp_all add: NPROC_def NOFILE_def empty_slot_def)
  then have u: "fd_refs (?ps[0 := (?ps ! 0)\<lparr>ofile := (ofile (?ps ! 0))[0 := file_ptr 0]\<rparr>]) (file_ptr f) = of_bool (f = 0)"
    using that file_ptr_simps(1)[OF that] z by (auto simp: NFILE_def NPROC_def NOFILE_def empty_slot_def)
  have "map ofile (procs files0) = map ofile (?ps[0 := (?ps ! 0)\<lparr>ofile := (ofile (?ps ! 0))[0 := file_ptr 0]\<rparr>])"
    by (simp add: map_update NPROC_def empty_slot_def)
  from fd_refs_ofile[OF this] u show ?thesis by simp
qed

lemma files0_good: "refs_ok files0" "my_ok files0"
proof -
  have "ofile (getp files0 p) = (if p = 0 then (replicate NOFILE 0)[0 := file_ptr 0] else replicate NOFILE 0)" if "p < NPROC" for p
    using that by (simp add: nth_list_update empty_slot_def)
  moreover have "fref (getf files0 f) = of_bool (f = 0)" if "f < NFILE" for f
    using that by (simp add: nth_list_update no_file_def)
  moreover have "a = 0 \<or> a = file_ptr 0" if "a \<in> set ((replicate NOFILE 0)[0 := file_ptr 0])" for a
    using that set_update_subset_insert[of "replicate NOFILE 0" 0 "file_ptr 0"] by (auto simp: NOFILE_def)
  moreover have "(0::nat) < NFILE" by (simp add: NFILE_def)
  ultimately show "refs_ok files0"
    unfolding refs_ok_def procs_ok_def using fd_refs_files0 by (auto split: if_splits)
qed (simp add: my_ok_def NPROC_def)

section \<open>Descriptors and open files\<close>

lemma count_card: "count_list xs a = card {i. i < length xs \<and> xs ! i = a}"
  by (simp add: count_list_eq_length_filter length_filter_conv_card eq_commute[of a])

lemma fd_refs_sum: "fd_refs ps a = (\<Sum>p<length ps. count_list (ofile (ps ! p)) a)"
proof (induction ps)
  case (Cons q ps)
  then show ?case by (simp add: fd_refs_def sum.lessThan_Suc_shift del: sum.lessThan_Suc)
qed (simp add: fd_refs_def)

lemma fd_refs_card:
  assumes "procs_ok ps"
  shows "fd_refs ps a = card {(p, fd). p < NPROC \<and> fd < NOFILE \<and> ofile (ps ! p) ! fd = a}"
proof -
  have "{(p, fd). p < NPROC \<and> fd < NOFILE \<and> ofile (ps ! p) ! fd = a} = (SIGMA p:{..<NPROC}. {fd. fd < NOFILE \<and> ofile (ps ! p) ! fd = a})"
    by auto
  then have "card {(p, fd). p < NPROC \<and> fd < NOFILE \<and> ofile (ps ! p) ! fd = a} =
      (\<Sum>p<NPROC. card {fd. fd < NOFILE \<and> ofile (ps ! p) ! fd = a})" by (simp add: card_SigmaI)
  also have "\<dots> = (\<Sum>p<length ps. count_list (ofile (ps ! p)) a)"
    using assms by (intro sum.cong) (auto simp: procs_ok_def count_card)
  finally show ?thesis by (simp add: fd_refs_sum)
qed

lemma file_steps_good:
  assumes "(file_step e ex)\<^sup>*\<^sup>* s s'" "env_ok e" "exec_ok ex" "good s"
  shows "good s'"
  using assms(1,4)
proof (induction rule: rtranclp_induct)
  case (step t u)
  then show ?case using file_step_good[OF step(2) assms(2,3)] by blast
qed


definition files1 :: filek where
  "files1 = set_ofile 0 1 (file_ptr 0) (upd_file 0 (\<lambda>x. x\<lparr>fref := 2\<rparr>) files0)"

lemma files0_argfd: "argfd 0 files0 = Inr (Some (0, 0))"
proof -
  have "argraw 0 files0 = Inr 0" by (simp add: argraw_def the_proc_def Let_def load64_def load_le_zero files0_mem)
  then show ?thesis by (simp add: argfd_def argint_def the_proc_def NOFILE_def NPROC_def NFILE_def file_ptr_def ptr_file_def)
qed

lemma files0_dup: "file_step env0 (exec elf0) files0 files1"
proof (rule Call)
  show "sys_dup \<in> set (file_calls env0 (exec elf0))" by (simp add: file_calls_def)
  have "fdalloc 0 files0 = Inr (Some 1, set_ofile 0 1 (file_ptr 0) files0)"
    by (simp add: fdalloc_def the_proc_def NOFILE_def NPROC_def NFILE_def upt_rec numeral_eq_Suc)
  then show "sys_dup files0 = Inr (Ret (word_of_int (int 1)), files1)"
    using files0_argfd
    by (simp add: sys_dup_def filedup_def files1_def upd_file_def set_ofile_def upd_proc_def NFILE_def c_int_def)
qed


section \<open>Running a program\<close>

text \<open>
  C11: \<open>exec\<close> is all or nothing. When it returns -1, at whatever point it failed, every process, the file table and
  the CPU are as before. Otherwise it returns the number of arguments, and exactly the page table, the size and the name of the
  calling process have changed, descriptors and working directory stay, the old image is freed with its old size, and the new stack
  pointer is a multiple of 16 inside the last page of the image.
\<close>

theorem exec_all_or_nothing:
  assumes "exec F path argv s = Inr (r, s')" "myproc s = Some p"
  shows "if r = -1 then procs s' = procs s \<and> ftable s' = ftable s \<and> myproc s' = Some p
    else r = int (length argv) \<and> ftable s' = ftable s \<and> myproc s' = Some p \<and> (\<exists>pt entry sz sp t.
      procs s' = (procs s)[p := (getp s p)\<lparr>pname := safestrcpy (last_elem path) 16, pagetable := pt, psz := sz\<rparr>] \<and>
      exec_commit p pt sz entry sp path (psz (getp s p)) t = Inr s' \<and> procs t = procs s \<and>
      sp mod 16 = 0 \<and> (PGSIZE \<le> sz \<longrightarrow> sz - PGSIZE \<le> sp \<and> sp < sz))"
proof (cases "r = -1")
  case True
  then have "fview s' = fview s" using exec_spec[OF assms] by simp
  then show ?thesis using True fviewD assms(2) by (metis (no_types))
next
  case False
  then obtain pt entry sz sp where c: "committed p path s s' pt entry sz sp" "r = int (length argv)"
    using exec_spec[OF assms] by auto
  then obtain t where t: "fview t = fview s" "exec_commit p pt sz entry sp path (psz (getp s p)) t = Inr s'"
    by (auto simp: committed_def)
  have "fview s' = fview (upd_proc p (new_image pt sz path) s)" using c(1) by (simp add: committed_def)
  note V = fviewD[OF this] and T = fviewD(1)[OF t(1)]
  have A: "procs s' = (procs s)[p := (getp s p)\<lparr>pname := safestrcpy (last_elem path) 16, pagetable := pt, psz := sz\<rparr>]"
    using V(1) by (simp add: upd_proc_def new_image_def)
  have B: "sp mod 16 = 0 \<and> (PGSIZE \<le> sz \<longrightarrow> sz - PGSIZE \<le> sp \<and> sp < sz)" using c(1) unfolding committed_def by blast
  have "\<exists>pt entry sz sp t.
      procs s' = (procs s)[p := (getp s p)\<lparr>pname := safestrcpy (last_elem path) 16, pagetable := pt, psz := sz\<rparr>] \<and>
      exec_commit p pt sz entry sp path (psz (getp s p)) t = Inr s' \<and> procs t = procs s \<and>
      sp mod 16 = 0 \<and> (PGSIZE \<le> sz \<longrightarrow> sz - PGSIZE \<le> sp \<and> sp < sz)"
    by (rule exI[of _ pt], rule exI[of _ entry], rule exI[of _ sz], rule exI[of _ sp], rule exI[of _ t]) (use A B t(2) T in blast)
  moreover have "ftable s' = ftable s" "myproc s' = Some p"
    using V(2,3) assms(2) by (simp_all add: upd_proc_def myproc_def mycpu_def cpuid_def)
  ultimately show ?thesis using False c(2) by simp
qed

text \<open>The root directory is not a program.\<close>

lemma files0_exec: "\<exists>t. exec elf0 [47] [] files0 = Inr (-1, t)"
proof -
  define i0 where "i0 = no_inode\<lparr>idev := 1, inum := 1, ref := 1, ivalid := True, itype := T_DIR, nlink := 1\<rparr>"
  have it: "itable files0 = (replicate NINODE no_inode)[0 := i0]" by (simp add: files0_def i0_def)
  define s1 where "s1 = upd_inode 0 (\<lambda>i. i\<lparr>ref := 2\<rparr>) files0"
  have "find (\<lambda>ip. ref (geti files0 ip) > 0 \<and> idev (geti files0 ip) = ROOTDEV \<and> inum (geti files0 ip) = ROOTINO) [0..<NINODE] = Some 0"
    by (simp add: it i0_def NINODE_def upt_rec[of 0] ROOTDEV_def ROOTINO_def)
  then have "iget ROOTDEV ROOTINO files0 = Inr (0, s1)"
    by (simp add: iget_def s1_def upd_inode_def it i0_def NINODE_def c_int_def)
  then have n: "namei [47] files0 = Inr (Some 0, s1)"
    by (simp add: namei_def namex_def SLASH_def namex_loop.simps skipelem_def)
  define s2 where "s2 = upd_inode 0 (\<lambda>i. i\<lparr>ilocked := True\<rparr>) s1"
  have i1: "geti s1 0 = i0\<lparr>ref := 2\<rparr>" by (simp add: s1_def upd_inode_def it NINODE_def)
  have i2: "geti s2 0 = i0\<lparr>ref := 2, ilocked := True\<rparr>" by (simp add: s2_def s1_def upd_inode_def it NINODE_def)
  have l: "ilock (Some 0) s1 = Inr s2" using i1 i2 by (simp add: ilock_def s2_def[symmetric] i0_def no_inode_def Let_def)
  have r: "readi_to to_local 0 0 64 [] s2 = Inr (0, [], s2)"
    using i2 by (simp add: readi_to_def i0_def no_inode_def readi_loop.simps c_int_def)
  have "\<exists>t. exec_bad 0 0 (Some 0) s2 = Inr (-1, t)"
    using i2 by (simp add: exec_bad_def iunlockput_def iunlock_def iput_def i0_def no_inode_def upd_inode_def s2_def s1_def it NINODE_def)
  then show ?thesis using n l r by (simp add: exec_def the_proc_def elf0_def)
qed

theorem exec_all_or_nothing_witness:
  "\<exists>t. exec elf0 [47] [] files0 = Inr (-1, t) \<and> procs t = procs files0"
proof -
  obtain t where t: "exec elf0 [47] [] files0 = Inr (-1, t)" using files0_exec by blast
  then show ?thesis using exec_all_or_nothing[OF t files0_my] by simp
qed

end
