(* ===== verification/Mmap.thy ===== *)
theory Mmap
  imports SysfileSteps
begin

text \<open>
  Memory-mapped files (\<open>xv6-lab-mmap\<close>: \<open>sys_mmap\<close> and \<open>sys_munmap\<close> of \<open>sysfile.c\<close>, the page fault of \<open>usertrap\<close> in \<open>trap.c\<close>, and the two
  functions of \<open>vm.c\<close> that skip pages that are not mapped yet). The state extends the one of open files with the mappings
  of each process. \<open>struct vma\<close> and \<open>VMASIZE\<close> are declared in a header outside the sources: the record has the fields
  that the code uses, a length is kept sign-extended to 64 bits, and \<open>VMASIZE\<close> is the length of the list.
\<close>

section \<open>State\<close>

definition PROT_READ :: u32 where "PROT_READ = 0x1"
definition PROT_WRITE :: u32 where "PROT_WRITE = 0x2"
definition PROT_EXEC :: u32 where "PROT_EXEC = 0x4"
definition MAP_SHARED :: u32 where "MAP_SHARED = 0x01"
definition MAP_PRIVATE :: u32 where "MAP_PRIVATE = 0x02"

record vma =
  vused :: bool
  vaddr :: u64
  vlength :: u64
  vprot :: u32
  vflags :: u32
  vfd :: nat
  vfile :: nat
  voffset :: int

record mmapk = filek +
  vmas :: "vma list list"

abbreviation getv :: "'a mmapk_scheme \<Rightarrow> nat \<Rightarrow> nat \<Rightarrow> vma" where
  "getv s p i \<equiv> vmas s ! p ! i"

definition upd_vma :: "nat \<Rightarrow> nat \<Rightarrow> (vma \<Rightarrow> vma) \<Rightarrow> 'a mmapk_scheme \<Rightarrow> 'a mmapk_scheme" where
  "upd_vma p i f s = s\<lparr>vmas := (vmas s)[p := (vmas s ! p)[i := f (getv s p i)]]\<rparr>"

section \<open>Page tables with holes\<close>

function mmap_uvmunmap_loop :: "u64 \<Rightarrow> u64 \<Rightarrow> u64 \<Rightarrow> bool \<Rightarrow> 'a kmem_machine_scheme \<Rightarrow> 'a kmem_machine_scheme res" where
  "mmap_uvmunmap_loop pt a lim do_free s =
     (if a < lim then
        bindR (walk kalloc pt a False s) (\<lambda>(pte, s1).
          if pte = 0 then Inl (Panic ''uvmunmap: walk'')
          else if load64 (mem s1) pte AND PTE_V = 0 then mmap_uvmunmap_loop pt (a + PGSIZE) lim do_free s1
          else if PTE_FLAGS (load64 (mem s1) pte) = PTE_V then Inl (Panic ''uvmunmap: not a leaf'')
          else bindR (if do_free then kfree (PTE2PA (load64 (mem s1) pte)) s1 else Inr s1) (\<lambda>s2.
            mmap_uvmunmap_loop pt (a + PGSIZE) lim do_free (s2\<lparr>mem := store64 (mem s2) pte 0\<rparr>)))
      else Inr s)"
  by pat_completeness auto
termination
  by (relation "measure (\<lambda>(pt, a, lim, do_free, s). 2 ^ 39 - unat a)") (auto dest!: walk_Inr_lt simp: va_step)

declare mmap_uvmunmap_loop.simps [simp del]

definition mmap_uvmunmap :: "u64 \<Rightarrow> u64 \<Rightarrow> u64 \<Rightarrow> bool \<Rightarrow> 'a kmem_machine_scheme \<Rightarrow> 'a kmem_machine_scheme res" where
  "mmap_uvmunmap pt va npages do_free s =
     (if va mod PGSIZE \<noteq> 0 then Inl (Panic ''uvmunmap: not aligned'')
      else mmap_uvmunmap_loop pt va (va + npages * PGSIZE) do_free s)"

function mmap_uvmcopy_loop :: "u64 \<Rightarrow> u64 \<Rightarrow> u64 \<Rightarrow> u64 \<Rightarrow> 'a kmem_machine_scheme \<Rightarrow> (int \<times> 'a kmem_machine_scheme) res" where
  "mmap_uvmcopy_loop old new sz i s =
     (if i < sz then
        bindR (walk kalloc old i False s) (\<lambda>(pte, s1).
          if pte = 0 then Inl (Panic ''uvmcopy: pte should exist'')
          else if load64 (mem s1) pte AND PTE_V = 0 then mmap_uvmcopy_loop old new sz (i + PGSIZE) s1
          else let pa = PTE2PA (load64 (mem s1) pte);
                   flags = PTE_FLAGS (load64 (mem s1) pte);
                   (p, s2) = kalloc s1 in
            if p = 0 then
              bindR (mmap_uvmunmap new 0 (i div PGSIZE) True s2) (\<lambda>s3. Inr (-1, s3))
            else let s3 = s2\<lparr>mem := memmove (mem s2) p pa PGSIZE\<rparr> in
              bindR (mappages kalloc new i PGSIZE p flags s3) (\<lambda>(r, s4).
                if r \<noteq> 0 then
                  bindR (kfree p s4) (\<lambda>s5.
                    bindR (mmap_uvmunmap new 0 (i div PGSIZE) True s5) (\<lambda>s6. Inr (-1, s6)))
                else mmap_uvmcopy_loop old new sz (i + PGSIZE) s4))
      else Inr (0, s))"
  by pat_completeness auto
termination
  by (relation "measure (\<lambda>(old, new, sz, i, s). 2 ^ 39 - unat i)") (auto dest!: walk_Inr_lt simp: va_step)

declare mmap_uvmcopy_loop.simps [simp del]

definition mmap_uvmcopy :: "u64 \<Rightarrow> u64 \<Rightarrow> u64 \<Rightarrow> 'a kmem_machine_scheme \<Rightarrow> (int \<times> 'a kmem_machine_scheme) res" where
  "mmap_uvmcopy old new sz s = mmap_uvmcopy_loop old new sz 0 s"

section \<open>System calls\<close>

text \<open>\<open>PGROUNDUP\<close> of a variable of type \<open>int\<close>.\<close>

definition round_int :: "int \<Rightarrow> int" where
  "round_int n = sint (((word_of_int n :: u32) + 4095) AND NOT 4095)"

definition sys_mmap :: "'a mmapk_scheme handler" where
  "sys_mmap s = the_proc s (\<lambda>p.
     bindR (argint 1 s) (\<lambda>len0. bindR (argint 2 s) (\<lambda>prot. bindR (argint 3 s) (\<lambda>flags.
       bindR (argfd 4 s) (\<lambda>r. case r of None \<Rightarrow> ret (-1) s | Some (fd, f) \<Rightarrow>
         bindR (argint 5 s) (\<lambda>offset.
           if \<not> writable (getf s f) \<and> (word_of_int prot :: u32) AND PROT_WRITE \<noteq> 0 \<and> (word_of_int flags :: u32) = MAP_SHARED then ret (-1) s
           else let len = round_int len0 in
             if psz (getp s p) > MAXVA - word_of_int len then ret (-1) s
             else case find (\<lambda>i. \<not> vused (getv s p i)) [0..<length (vmas s ! p)] of
               None \<Rightarrow> ret (-1) s
             | Some i \<Rightarrow>
                 let s1 = upd_vma p i (\<lambda>_. \<lparr>vused = True, vaddr = psz (getp s p), vlength = word_of_int len, vprot = word_of_int prot,
                       vflags = word_of_int flags, vfd = fd, vfile = f, voffset = offset\<rparr>) s in
                 bindR (filedup f s1) (\<lambda>(_, s2).
                   let s3 = upd_proc p (\<lambda>q. q\<lparr>psz := psz q + word_of_int len\<rparr>) s2
                   in Inr (Ret (vaddr (getv s3 p i)), s3))))))))"

text \<open>The condition of the search; it has \<open>||\<close> where the interval needs \<open>&&\<close>.\<close>

definition munmap_match :: "u64 \<Rightarrow> vma \<Rightarrow> bool" where
  "munmap_match addr v \<longleftrightarrow> addr \<ge> vaddr v \<or> addr < vaddr v + vlength v"

definition munmap_vma :: "'a mmapk_scheme file_env \<Rightarrow> nat \<Rightarrow> nat \<Rightarrow> u64 \<Rightarrow> int \<Rightarrow> 'a mmapk_scheme handler" where
  "munmap_vma e p i addr len s =
     (let s1 = upd_vma p i (\<lambda>v. v\<lparr>vaddr := vaddr v + word_of_int len, vlength := vlength v - word_of_int len\<rparr>) s in
      bindR (if vflags (getv s1 p i) AND MAP_SHARED \<noteq> 0 then filewrite e (vfile (getv s1 p i)) addr len s1 else Inr (0, s1)) (\<lambda>(_, s2).
        bindR (mmap_uvmunmap (pagetable (getp s2 p)) addr (word_of_int (len div 4096)) True s2) (\<lambda>s3.
          if vlength (getv s3 p i) = 0 then
            bindR (fileclose e (vfile (getv s3 p i)) s3) (\<lambda>s4. ret 0 (upd_vma p i (\<lambda>v. v\<lparr>vused := False\<rparr>) s4))
          else ret 0 s3)))"

definition sys_munmap :: "'a mmapk_scheme file_env \<Rightarrow> 'a mmapk_scheme handler" where
  "sys_munmap e s = the_proc s (\<lambda>p.
     bindR (argaddr 0 s) (\<lambda>addr0. bindR (argint 1 s) (\<lambda>len0.
       let addr = PGROUNDDOWN addr0; len = round_int len0 in
       case find (\<lambda>i. munmap_match addr (getv s p i)) [0..<length (vmas s ! p)] of
         None \<Rightarrow> ret 0 s
       | Some i \<Rightarrow> if vaddr (getv s p i) = addr then munmap_vma e p i addr len s else ret 0 s)))"

section \<open>Page faults\<close>

definition mmap_flags :: "vma \<Rightarrow> u64" where
  "mmap_flags v = (let f0 = PTE_U;
      f1 = (if vprot v AND PROT_READ \<noteq> 0 then f0 OR PTE_R else f0);
      f2 = (if vprot v AND PROT_WRITE \<noteq> 0 then f1 OR PTE_W else f1)
    in if vprot v AND PROT_EXEC \<noteq> 0 then f2 OR PTE_X else f2)"

definition kill_me :: "nat \<Rightarrow> 'a mmapk_scheme \<Rightarrow> 'a mmapk_scheme" where
  "kill_me p s = upd_proc p (\<lambda>q. q\<lparr>killed := 1\<rparr>) s"

definition in_vma :: "u64 \<Rightarrow> vma \<Rightarrow> bool" where
  "in_vma va v \<longleftrightarrow> vused v \<and> va \<ge> vaddr v \<and> va < vaddr v + vlength v"

text \<open>The branch of \<open>usertrap\<close> for a load or store page fault at \<open>va\<close>.\<close>

definition mmap_fault :: "u64 \<Rightarrow> 'a mmapk_scheme \<Rightarrow> 'a mmapk_scheme res" where
  "mmap_fault va s = the_proc s (\<lambda>p.
     if va \<ge> psz (getp s p) \<or> va > MAXVA \<or> PGROUNDUP va = PGROUNDDOWN (load64 (mem s) (trapframe (getp s p) + TF_sp)) then Inr (kill_me p s)
     else case find (\<lambda>i. in_vma va (getv s p i)) [0..<length (vmas s ! p)] of
       None \<Rightarrow> Inr s
     | Some i \<Rightarrow>
         let v = getv s p i; va0 = PGROUNDDOWN va; offset = va0 - vaddr v; (m, s1) = kalloc s in
         if m = 0 then Inr (kill_me p s1)
         else let s2 = s1\<lparr>mem := memset (mem s1) m 0 PGSIZE\<rparr>; ip = fip (getf s2 (vfile v)) in
           bindR (ilock (Some ip) s2) (\<lambda>s3.
             bindR (readi ip False m (ucast offset) (ucast PGSIZE) s3) (\<lambda>(_, s4).
               bindR (iunlock (Some ip) s4) (\<lambda>s5.
                 bindR (mappages kalloc (pagetable (getp s5 p)) va0 PGSIZE m (mmap_flags v) s5) (\<lambda>(r, s6).
                   if r \<noteq> 0 then bindR (kfree m s6) (\<lambda>s7. Inr (kill_me p s7)) else Inr s6)))))"

end
