(* ===== verification/MmapProps.thy ===== *)
theory MmapProps
  imports Mmap SysfileProps
begin

text \<open>
  \<open>mmap\<close> reserves address space without touching it: the regions of a process stay disjoint and below its size. \<open>munmap\<close> finds only
  the mapping in the first slot, and a fault between mappings is not handled.
\<close>

section \<open>Regions\<close>

definition region_end :: "vma \<Rightarrow> nat" where
  "region_end v = unat (vaddr v) + unat (vlength v)"

definition vmas_ok :: "nat \<Rightarrow> 'a mmapk_scheme \<Rightarrow> bool" where
  "vmas_ok p s \<longleftrightarrow> (\<forall>i<length (vmas s ! p). vused (getv s p i) \<longrightarrow> region_end (getv s p i) \<le> unat (psz (getp s p)) \<and>
     (\<forall>j<length (vmas s ! p). vused (getv s p j) \<longrightarrow> i \<noteq> j \<longrightarrow>
        region_end (getv s p i) \<le> unat (vaddr (getv s p j)) \<or> region_end (getv s p j) \<le> unat (vaddr (getv s p i))))"

text \<open>The mapping that a call of \<open>mmap\<close> enters.\<close>

definition new_vma :: "u64 \<Rightarrow> int \<Rightarrow> int \<Rightarrow> int \<Rightarrow> nat \<Rightarrow> nat \<Rightarrow> int \<Rightarrow> vma" where
  "new_vma a len prot flags fd f offset = \<lparr>vused = True, vaddr = a, vlength = word_of_int len, vprot = word_of_int prot,
     vflags = word_of_int flags, vfd = fd, vfile = f, voffset = offset\<rparr>"

lemma round_int_lt: "0 \<le> round_int n \<Longrightarrow> round_int n < 2 ^ 31"
  using sint_lt[of "((word_of_int n :: u32) + 4095) AND NOT 4095"] by (simp add: round_int_def)

lemma unat_add_small: "unat a + unat b < 2 ^ 64 \<Longrightarrow> unat (a + b :: u64) = unat a + unat b"
  by (simp add: unat_plus_if')

lemma unat_word_of_int_small: "0 \<le> x \<Longrightarrow> x < 2 ^ 31 \<Longrightarrow> unat (word_of_int x :: u64) < 2 ^ 31"
proof -
  assume x: "0 \<le> x" "x < 2 ^ 31"
  then have "uint (word_of_int x :: u64) = x" by (simp add: uint_word_of_int)
  then have "unat (word_of_int x :: u64) = nat x" by (metis nat_uint_eq)
  then show ?thesis using x by (simp add: nat_less_iff)
qed

lemma mmap_args:
  assumes "sys_mmap s = Inr (Ret v, s')" "myproc s = Some p" "\<not> (v = -1 \<and> s' = s)"
  obtains len0 prot flags fd f offset i s2 where "argint 1 s = Inr len0" "argint 2 s = Inr prot" "argint 3 s = Inr flags"
    "argfd 4 s = Inr (Some (fd, f))" "argint 5 s = Inr offset"
    "\<not> psz (getp s p) > MAXVA - word_of_int (round_int len0)"
    "find (\<lambda>i. \<not> vused (getv s p i)) [0..<length (vmas s ! p)] = Some i"
    "filedup f (upd_vma p i (\<lambda>_. new_vma (psz (getp s p)) (round_int len0) prot flags fd f offset) s) = Inr (f, s2)"
    "s' = upd_proc p (\<lambda>q. q\<lparr>psz := psz q + word_of_int (round_int len0)\<rparr>) s2" "v = vaddr (getv s' p i)"
proof -
  from assms(1,2) obtain len0 prot flags r where a: "argint 1 s = Inr len0" "argint 2 s = Inr prot" "argint 3 s = Inr flags" "argfd 4 s = Inr r"
    by (auto simp: sys_mmap_def the_proc_def bindR_Inr_iff)
  note S = assms(1)[unfolded sys_mmap_def the_proc_def assms(2) option.case a bindR_simps]
  from S assms(3) obtain fd f where r: "r = Some (fd, f)" by (cases r) auto
  from S r obtain offset where o: "argint 5 s = Inr offset" by (auto simp: bindR_Inr_iff)
  note S1 = S[unfolded r option.case prod.case o bindR_simps Let_def]
  have g: "\<not> (\<not> writable (getf s f) \<and> (word_of_int prot :: u32) AND PROT_WRITE \<noteq> 0 \<and> (word_of_int flags :: u32) = MAP_SHARED)"
    "\<not> psz (getp s p) > MAXVA - word_of_int (round_int len0)"
    using S1 assms(3) by (auto split: if_splits)
  note S2 = S1[unfolded if_not_P[OF g(1)] if_not_P[OF g(2)] new_vma_def[symmetric]]
  from S2 assms(3) obtain i where i: "find (\<lambda>i. \<not> vused (getv s p i)) [0..<length (vmas s ! p)] = Some i"
    by (cases "find (\<lambda>i. \<not> vused (getv s p i)) [0..<length (vmas s ! p)]") auto
  define s1 where "s1 = upd_vma p i (\<lambda>_. new_vma (psz (getp s p)) (round_int len0) prot flags fd f offset) s"
  define s2 where "s2 = upd_file f (\<lambda>x. x\<lparr>fref := c_int (fref x + 1)\<rparr>) s1"
  note S3 = S2[unfolded i option.case s1_def[symmetric]]
  have "\<not> fref (getf s1 f) < 1" by (rule notI) (use S3 in \<open>simp add: filedup_def\<close>)
  then have d: "filedup f s1 = Inr (f, s2)" by (simp add: filedup_def s2_def)
  have e: "s' = upd_proc p (\<lambda>q. q\<lparr>psz := psz q + word_of_int (round_int len0)\<rparr>) s2" "v = vaddr (getv s' p i)"
    using S3[unfolded d bindR_simps prod.case Let_def] by auto
  show thesis by (rule that[OF a(1-3) a(4)[unfolded r] o g(2) i d[unfolded s1_def] e])
qed

lemma mmap_vmas_ok:
  assumes ok: "vmas_ok p s" and i: "i < length (vmas s ! p)" "\<not> vused (getv s p i)" and p: "p < length (vmas s)"
    and v: "vaddr w = psz (getp s p)" "region_end w \<le> unat (psz (getp s' p))" "psz (getp s p) \<le> psz (getp s' p)"
    and s': "vmas s' = (vmas s)[p := (vmas s ! p)[i := w]]"
  shows "vmas_ok p s'"
proof -
  have g: "getv s' p j = (if j = i then w else getv s p j)" "length (vmas s' ! p) = length (vmas s ! p)" if "j < length (vmas s ! p)" for j
    using i(1) p that by (auto simp: s' nth_list_update)
  have le: "unat (psz (getp s p)) \<le> unat (psz (getp s' p))" using v(3) by (simp add: word_le_nat_alt)
  have old: "region_end (getv s p j) \<le> unat (psz (getp s p))" if "j < length (vmas s ! p)" "vused (getv s p j)" for j
    using ok that by (auto simp: vmas_ok_def)
  have L: "length (vmas s' ! p) = length (vmas s ! p)" using g(2)[OF i(1)] .
  show ?thesis unfolding vmas_ok_def L
  proof (intro allI impI conjI)
    fix a assume a: "a < length (vmas s ! p)" "vused (getv s' p a)"
    show "region_end (getv s' p a) \<le> unat (psz (getp s' p))" using g(1)[OF a(1)] a v(2) old[of a] le by (auto split: if_splits)
    fix b assume b: "b < length (vmas s ! p)" "vused (getv s' p b)" "a \<noteq> b"
    show "region_end (getv s' p a) \<le> unat (vaddr (getv s' p b)) \<or> region_end (getv s' p b) \<le> unat (vaddr (getv s' p a))"
      using g(1)[OF a(1)] g(1)[OF b(1)] a b old[of a] old[of b] v(1) ok by (auto simp: vmas_ok_def split: if_splits)
  qed
qed

section \<open>Properties\<close>


text \<open>The running process maps the file of descriptor 0 with length 0; its size is 4096 and it has two free slots.\<close>

definition no_vma :: vma where
  "no_vma = \<lparr>vused = False, vaddr = 0, vlength = 0, vprot = 0, vflags = 0, vfd = 0, vfile = 0, voffset = 0\<rparr>"

definition maps0 :: mmapk where
  "maps0 = \<lparr>mem = (\<lambda>_. 0), kend = KERNBASE, freelist = 0,
     procs = (replicate NPROC empty_slot)[0 := empty_slot\<lparr>pstate := RUNNING, pid := 1, psz := 4096, ofile := (replicate NOFILE 0)[0 := file_ptr 0]\<rparr>],
     nextpid = 2, initproc = Some 0, cpus = [Some 0], hart = 0, trampoline = 0, forkret_addr = 0,
     sb = disk0_sb, blocks = disk0_blocks, logged = [], itable = replicate NINODE no_inode,
     ftable = (replicate NFILE no_file)[0 := no_file\<lparr>ftype := FD_INODE, fref := 1, readable := True\<rparr>],
     vmas = replicate NPROC [no_vma, no_vma]\<rparr>"

lemma maps0_sel: "procs maps0 = (replicate NPROC empty_slot)[0 := empty_slot\<lparr>pstate := RUNNING, pid := 1, psz := 4096, ofile := (replicate NOFILE 0)[0 := file_ptr 0]\<rparr>]"
  "mem maps0 = (\<lambda>_. 0)" "myproc maps0 = Some 0" "vmas maps0 = replicate NPROC [no_vma, no_vma]"
  "ftable maps0 = (replicate NFILE no_file)[0 := no_file\<lparr>ftype := FD_INODE, fref := 1, readable := True\<rparr>]"
  by (simp_all add: maps0_def myproc_def mycpu_def cpuid_def)

lemma maps0_args: "n < 6 \<Longrightarrow> argint n maps0 = Inr 0" "argfd 4 maps0 = Inr (Some (0, 0))"
proof -
  have raw: "argraw n maps0 = Inr 0" if "n < 6" for n
    using that by (simp add: argraw_def the_proc_def maps0_sel Let_def load64_def load_le_zero)
  show i: "n < 6 \<Longrightarrow> argint n maps0 = Inr 0" for n using raw by (simp add: argint_def)
  show "argfd 4 maps0 = Inr (Some (0, 0))"
    using i[of 4] by (simp add: argfd_def the_proc_def maps0_sel NOFILE_def NPROC_def NFILE_def file_ptr_def ptr_file_def)
qed

lemma maps0_mmap: "\<exists>t. sys_mmap maps0 = Inr (Ret 4096, t)"
proof -
  have "round_int 0 = 0" by (simp add: round_int_def)
  moreover have "\<not> 4096 > MAXVA" by (simp add: word_less_nat_alt unat_MAXVA)
  ultimately show ?thesis
    by (simp add: sys_mmap_def the_proc_def maps0_sel maps0_args PROT_WRITE_def NPROC_def no_vma_def upt_rec[of 0 2]
        filedup_def upd_vma_def upd_file_def upd_proc_def NFILE_def)
qed


text \<open>A negative length makes the process smaller, and no page is unmapped.\<close>

lemma mmap_negative_length:
  assumes "sys_mmap s = Inr (Ret v, s')" "myproc s = Some p" "p < length (procs s)" "\<not> (v = -1 \<and> s' = s)"
    "argint 1 s = Inr len0" "round_int len0 < 0"
  shows "psz (getp s' p) = psz (getp s p) - word_of_int (- round_int len0) \<and> mem s' = mem s"
proof -
  obtain len1 prot flags fd f offset i s2 where l: "argint 1 s = Inr len1" and a0: "argint 2 s = Inr prot" "argint 3 s = Inr flags"
    "argfd 4 s = Inr (Some (fd, f))" "argint 5 s = Inr offset" "\<not> psz (getp s p) > MAXVA - word_of_int (round_int len1)"
    "find (\<lambda>i. \<not> vused (getv s p i)) [0..<length (vmas s ! p)] = Some i"
    and a: "filedup f (upd_vma p i (\<lambda>_. new_vma (psz (getp s p)) (round_int len1) prot flags fd f offset) s) = Inr (f, s2)"
    "s' = upd_proc p (\<lambda>q. q\<lparr>psz := psz q + word_of_int (round_int len1)\<rparr>) s2" "v = vaddr (getv s' p i)"
    by (rule mmap_args[OF assms(1,2,4)])
  have "len1 = len0" using l assms(5) by simp
  then show ?thesis using assms(3) a(1,2) by (auto simp: filedup_def upd_proc_def upd_file_def upd_vma_def split: if_splits)
qed

text \<open>
  The search of \<open>munmap\<close> accepts every address for the first mapping: an address that another mapping starts at is ignored, with result 0.
\<close>

lemma munmap_first_slot_only:
  assumes "myproc s = Some p" "argaddr 0 s = Inr va" "argint 1 s = Inr len0" "vmas s ! p = v0 # vs" "region_end v0 < 2 ^ 64"
    "vaddr v0 \<noteq> PGROUNDDOWN va"
  shows "sys_munmap e s = Inr (Ret 0, s)"
proof -
  have "unat (vaddr v0 + vlength v0) = region_end v0" using assms(5) by (simp add: region_end_def unat_add_small)
  then have "munmap_match (PGROUNDDOWN va) v0" by (auto simp: munmap_match_def word_le_nat_alt word_less_nat_alt region_end_def)
  then have "find (\<lambda>i. munmap_match (PGROUNDDOWN va) (getv s p i)) [0..<length (vmas s ! p)] = Some 0"
    by (simp add: assms(4) upt_conv_Cons del: upt_Suc)
  then show ?thesis using assms by (simp add: sys_munmap_def the_proc_def Let_def)
qed

text \<open>A fault below the size of the process that no mapping covers changes nothing: the process faults again at once.\<close>

lemma mmap_fault_unhandled:
  assumes "myproc s = Some p" "va < psz (getp s p)" "va \<le> MAXVA" "PGROUNDUP va \<noteq> PGROUNDDOWN (load64 (mem s) (trapframe (getp s p) + TF_sp))"
    "\<forall>i<length (vmas s ! p). \<not> in_vma va (getv s p i)"
  shows "mmap_fault va s = Inr s"
proof -
  have "find (\<lambda>i. in_vma va (getv s p i)) [0..<length (vmas s ! p)] = None" using assms(5) by (auto simp: find_None_iff)
  then show ?thesis using assms by (simp add: mmap_fault_def the_proc_def)
qed

end
