(* ===== verification/Ph.thy ===== *)
theory Ph
  imports Prelude
begin

text \<open>
  The concurrent hash table (\<open>xv6-lab-multithreading/ph.c\<close>): a table of five buckets with a lock each, threads
  that put a part of the keys each, and threads that get all keys. The linked list of a bucket is a list of
  entries, newest first; memory for entries does not run out. What happens between \<open>pthread_mutex_lock\<close> and
  \<open>pthread_mutex_unlock\<close> is one step, so a run of the threads is a sequence of \<open>put\<close>s in any order that keeps the order of
  each thread. \<open>NKEYS\<close> is the length of the array \<open>keys\<close>.
\<close>

section \<open>The table\<close>

definition PH_NBUCKET :: nat where "PH_NBUCKET = 5"

record entry =
  ekey :: int
  evalue :: int

text \<open>The remainder of C has the sign of the key: the index of a negative key may be negative.\<close>

definition ph_index :: "int \<Rightarrow> int" where
  "ph_index key = (if key < 0 then - ((- key) mod int PH_NBUCKET) else key mod int PH_NBUCKET)"

definition ph_insert :: "int \<Rightarrow> int \<Rightarrow> entry list \<Rightarrow> entry list" where
  "ph_insert key v n = \<lparr>ekey = key, evalue = v\<rparr> # n"

text \<open>Setting the value of the first entry with the key, if there is one.\<close>

fun set_value :: "int \<Rightarrow> int \<Rightarrow> entry list \<Rightarrow> entry list option" where
  "set_value key v [] = None"
| "set_value key v (e # es) =
     (if ekey e = key then Some (e\<lparr>evalue := v\<rparr> # es) else map_option ((#) e) (set_value key v es))"

definition ph_put :: "int \<Rightarrow> int \<Rightarrow> entry list list \<Rightarrow> entry list list res" where
  "ph_put key v t =
     (let i = ph_index key in
      if i < 0 then Inl Fault
      else Inr (t[nat i := (case set_value key v (t ! nat i) of Some es \<Rightarrow> es | None \<Rightarrow> ph_insert key v (t ! nat i))]))"

definition ph_get :: "int \<Rightarrow> entry list list \<Rightarrow> entry option res" where
  "ph_get key t =
     (let i = ph_index key in
      if i < 0 then Inl Fault else Inr (find (\<lambda>e. ekey e = key) (t ! nat i)))"

section \<open>The threads\<close>

record phs =
  table :: "entry list list"
  pcs :: "nat list"

text \<open>One iteration of \<open>put_thread\<close>.\<close>

inductive put_step :: "int list \<Rightarrow> nat \<Rightarrow> phs \<Rightarrow> phs \<Rightarrow> bool" for keys nthread where
  Put: "n < nthread \<Longrightarrow> pcs s ! n < length keys div nthread \<Longrightarrow>
    ph_put (keys ! (length keys div nthread * n + pcs s ! n)) (int n) (table s) = Inr t \<Longrightarrow>
    put_step keys nthread s (s\<lparr>table := t, pcs := (pcs s)[n := pcs s ! n + 1]\<rparr>)"

definition ph_start :: "nat \<Rightarrow> phs" where
  "ph_start nthread = \<lparr>table = replicate PH_NBUCKET [], pcs = replicate nthread 0\<rparr>"

definition puts_done :: "int list \<Rightarrow> nat \<Rightarrow> phs \<Rightarrow> bool" where
  "puts_done keys nthread s \<longleftrightarrow> (\<forall>n<nthread. pcs s ! n = length keys div nthread)"

text \<open>What \<open>get_thread\<close> counts.\<close>

fun get_missing :: "int list \<Rightarrow> entry list list \<Rightarrow> nat res" where
  "get_missing [] t = Inr 0"
| "get_missing (k # ks) t = bindR (ph_get k t) (\<lambda>e. bindR (get_missing ks t) (\<lambda>missing.
     Inr (if e = None then missing + 1 else missing)))"

section \<open>The table is a map\<close>

definition table_ok :: "entry list list \<Rightarrow> bool" where
  "table_ok t \<longleftrightarrow> length t = PH_NBUCKET \<and>
     (\<forall>i<PH_NBUCKET. distinct (map ekey (t ! i)) \<and> (\<forall>e\<in>set (t ! i). 0 \<le> ekey e \<and> ph_index (ekey e) = int i))"

definition lookup :: "entry list list \<Rightarrow> int \<rightharpoonup> int" where
  "lookup t k = (if k < 0 then None else map_option evalue (find (\<lambda>e. ekey e = k) (t ! nat (ph_index k))))"

lemma ph_index_range: "0 \<le> k \<Longrightarrow> 0 \<le> ph_index k \<and> nat (ph_index k) < PH_NBUCKET"
  by (auto simp: ph_index_def PH_NBUCKET_def nat_less_iff)

lemma set_value_None: "set_value k v es = None \<longleftrightarrow> k \<notin> ekey ` set es"
  by (induction es) auto

lemma set_value_Some:
  "set_value k v es = Some es' \<Longrightarrow> map ekey es' = map ekey es \<and>
     find (\<lambda>e. ekey e = k') es' = (if k' = k then Some \<lparr>ekey = k, evalue = v, \<dots> = ()\<rparr> else find (\<lambda>e. ekey e = k') es)"
proof (induction es arbitrary: es')
  case (Cons e es)
  then show ?case by (cases e) (auto split: if_splits)
qed simp

lemma ph_put_refines:
  assumes "table_ok t" "0 \<le> k"
  obtains t' where "ph_put k v t = Inr t'" "table_ok t'" "lookup t' = (lookup t)(k \<mapsto> v)"
proof -
  let ?i = "nat (ph_index k)"
  define es where "es = (case set_value k v (t ! ?i) of Some es \<Rightarrow> es | None \<Rightarrow> ph_insert k v (t ! ?i))"
  have i: "0 \<le> ph_index k" "?i < PH_NBUCKET" using ph_index_range[OF assms(2)] by auto
  have keys: "map ekey es = map ekey (t ! ?i) \<or> k \<notin> ekey ` set (t ! ?i) \<and> map ekey es = k # map ekey (t ! ?i)"
    using set_value_None[of k v "t ! ?i"] set_value_Some[of k v "t ! ?i"]
    by (auto simp: es_def ph_insert_def split: option.splits)
  have find_es: "find (\<lambda>e. ekey e = k') es = (if k' = k then Some \<lparr>ekey = k, evalue = v\<rparr> else find (\<lambda>e. ekey e = k') (t ! ?i))" for k'
    using set_value_Some[of k v "t ! ?i" _ k'] by (auto simp: es_def ph_insert_def split: option.splits)
  have b: "distinct (map ekey (t ! ?i))" "\<And>e. e \<in> set (t ! ?i) \<Longrightarrow> 0 \<le> ekey e \<and> ph_index (ekey e) = int ?i"
    using assms(1) i by (auto simp: table_ok_def)
  have d: "distinct (map ekey es)" using keys b(1) by auto
  have r: "0 \<le> ekey e \<and> ph_index (ekey e) = int ?i" if "e \<in> set es" for e
  proof -
    have "ekey e \<in> set (map ekey es)" using that by simp
    then have "ekey e = k \<or> ekey e \<in> set (map ekey (t ! ?i))" using keys by (metis set_ConsD)
    then show ?thesis using b(2) assms(2) i by auto
  qed
  have "table_ok (t[?i := es])" using assms(1) d r i(2) by (auto simp: table_ok_def nth_list_update)
  moreover have "lookup (t[?i := es]) = (lookup t)(k \<mapsto> v)"
  proof
    fix k'
    show "lookup (t[?i := es]) k' = ((lookup t)(k \<mapsto> v)) k'"
      using assms i find_es[of k'] by (auto simp: lookup_def nth_list_update table_ok_def)
  qed
  moreover have "ph_put k v t = Inr (t[?i := es])" using i by (simp add: ph_put_def Let_def es_def)
  ultimately show ?thesis using that by blast
qed

lemma ph_get_lookup: "0 \<le> k \<Longrightarrow> ph_get k t = Inr (map_option (\<lambda>v. \<lparr>ekey = k, evalue = v\<rparr>) (lookup t k))"
proof -
  assume k: "0 \<le> k"
  have "find (\<lambda>e. ekey e = k) es = map_option (\<lambda>v. \<lparr>ekey = k, evalue = v\<rparr>) (map_option evalue (find (\<lambda>e. ekey e = k) es))" for es
    by (induction es) auto
  then show ?thesis using k ph_index_range[OF k] by (simp add: ph_get_def lookup_def)
qed

lemma get_missing_zero: "\<forall>k\<in>set ks. 0 \<le> k \<and> lookup t k \<noteq> None \<Longrightarrow> get_missing ks t = Inr 0"
  by (induction ks) (auto simp: ph_get_lookup)

section \<open>Every interleaving\<close>

text \<open>After the first \<open>pcs\<close> iterations of each thread their keys are in the table, with values of threads that have the key.\<close>

definition puts_inv :: "int list \<Rightarrow> nat \<Rightarrow> phs \<Rightarrow> bool" where
  "puts_inv keys nthread s \<longleftrightarrow> table_ok (table s) \<and> length (pcs s) = nthread \<and> (\<forall>n<nthread. pcs s ! n \<le> length keys div nthread) \<and>
     (\<forall>n<nthread. \<forall>i<pcs s ! n. lookup (table s) (keys ! (length keys div nthread * n + i)) \<noteq> None) \<and>
     (\<forall>k v. lookup (table s) k = Some v \<longrightarrow>
        (\<exists>n<nthread. v = int n \<and> (\<exists>i<pcs s ! n. keys ! (length keys div nthread * n + i) = k)))"

lemma chunk_index: "n < nthread \<Longrightarrow> i < b \<Longrightarrow> b = len div nthread \<Longrightarrow> b * n + i < (len::nat)"
proof -
  assume a: "n < nthread" "i < b" "b = len div nthread"
  have "b * n + i < b * (n + 1)" using a(2) by simp
  also have "\<dots> \<le> b * nthread" using a(1) by (intro mult_le_mono2) simp
  also have "\<dots> \<le> len" by (simp add: a(3))
  finally show ?thesis .
qed

lemma put_step_inv:
  assumes "put_step keys nthread s s'" "puts_inv keys nthread s" "\<forall>k\<in>set keys. 0 \<le> k"
  shows "puts_inv keys nthread s'"
  using assms(1)
proof cases
  case (Put n t)
  let ?b = "length keys div nthread"
  let ?k = "keys ! (?b * n + pcs s ! n)"
  have I: "table_ok (table s)" "length (pcs s) = nthread" "\<And>n. n < nthread \<Longrightarrow> pcs s ! n \<le> ?b"
    "\<And>n i. n < nthread \<Longrightarrow> i < pcs s ! n \<Longrightarrow> lookup (table s) (keys ! (?b * n + i)) \<noteq> None"
    "\<And>k v. lookup (table s) k = Some v \<Longrightarrow> \<exists>n<nthread. v = int n \<and> (\<exists>i<pcs s ! n. keys ! (?b * n + i) = k)"
    using assms(2) by (auto simp: puts_inv_def)
  have "0 \<le> ?k" using assms(3) chunk_index[OF Put(2,3) refl] by simp
  then obtain t' where t': "ph_put ?k (int n) (table s) = Inr t'" "table_ok t'" "lookup t' = (lookup (table s))(?k \<mapsto> int n)"
    using ph_put_refines[OF I(1)] by blast
  then have t: "t = t'" using Put(4) by simp
  have pc: "pcs s' ! m = (if m = n then pcs s ! n + 1 else pcs s ! m)" if "m < nthread" for m
    using that I(2) Put(1,2) by (simp add: nth_list_update)
  have "lookup (table s') (keys ! (?b * m + i)) \<noteq> None" if "m < nthread" "i < pcs s' ! m" for m i
    using that I(4)[of m i] pc t t'(3) Put(1) by (auto simp: less_Suc_eq split: if_splits)
  moreover have "\<exists>m<nthread. v = int m \<and> (\<exists>i<pcs s' ! m. keys ! (?b * m + i) = k)" if "lookup (table s') k = Some v" for k v
  proof (cases "k = ?k")
    case True
    then have "v = int n" using that t t'(3) Put(1) by simp
    then show ?thesis using True Put(2) pc[OF Put(2)] by (intro exI[of _ n]) auto
  next
    case False
    then have "lookup (table s) k = Some v" using that t t'(3) Put(1) by simp
    then obtain m i where "m < nthread" "v = int m" "i < pcs s ! m" "keys ! (?b * m + i) = k" using I(5) by blast
    then show ?thesis using pc[of m] by (intro exI[of _ m]) (auto intro: less_SucI)
  qed
  ultimately show ?thesis
    using I(2,3) Put(1-3) t t'(2) pc unfolding puts_inv_def by (auto simp: nth_list_update Suc_le_eq)
qed

lemma puts_inv_start: "puts_inv keys nthread (ph_start nthread)"
  by (auto simp: puts_inv_def ph_start_def table_ok_def lookup_def PH_NBUCKET_def ph_index_def nth_replicate split: if_splits)

lemma puts_inv_reachable:
  assumes "(put_step keys nthread)\<^sup>*\<^sup>* (ph_start nthread) s" "\<forall>k\<in>set keys. 0 \<le> k"
  shows "puts_inv keys nthread s"
  using assms(1)
proof (induction rule: rtranclp_induct)
  case (step y z)
  then show ?case using put_step_inv assms(2) by blast
qed (rule puts_inv_start)

lemma put_step_progress:
  assumes "puts_inv keys nthread s" "\<forall>k\<in>set keys. 0 \<le> k" "\<not> puts_done keys nthread s"
  shows "\<exists>s'. put_step keys nthread s s'"
proof -
  obtain n where n: "n < nthread" "pcs s ! n \<noteq> length keys div nthread" using assms(3) by (auto simp: puts_done_def)
  then have lt: "pcs s ! n < length keys div nthread" using assms(1) by (auto simp: puts_inv_def le_less)
  have "0 \<le> keys ! (length keys div nthread * n + pcs s ! n)" using assms(2) chunk_index[OF n(1) lt refl] by simp
  then obtain t where "ph_put (keys ! (length keys div nthread * n + pcs s ! n)) (int n) (table s) = Inr t"
    using ph_put_refines assms(1) unfolding puts_inv_def by metis
  from Put[OF n(1) lt this] show ?thesis by blast
qed


text \<open>
  C31: Whatever the interleaving of the put threads, the table never faults and never loses a key: a state in which not all puts are done has
  a next step, and when all are done every key is found, with the number of a thread whose part of the keys contains it, so that
  every get thread counts 0 missing keys.
\<close>

theorem ph_no_key_missing:
  assumes "\<forall>k\<in>set keys. 0 \<le> k" "0 < nthread" "length keys mod nthread = 0"
    "(put_step keys nthread)\<^sup>*\<^sup>* (ph_start nthread) s"
  shows "if puts_done keys nthread s
    then get_missing keys (table s) = Inr 0 \<and> (\<forall>k\<in>set keys. \<exists>n<nthread. \<exists>i<length keys div nthread.
      ph_get k (table s) = Inr (Some \<lparr>ekey = k, evalue = int n\<rparr>) \<and> keys ! (length keys div nthread * n + i) = k)
    else \<exists>s'. put_step keys nthread s s'"
proof (cases "puts_done keys nthread s")
  case False
  then show ?thesis using put_step_progress[OF puts_inv_reachable[OF assms(4,1)] assms(1)] by simp
next
  case True
  let ?b = "length keys div nthread"
  have I: "puts_inv keys nthread s" by (rule puts_inv_reachable[OF assms(4,1)])
  have L: "lookup (table s) k \<noteq> None" if m: "k \<in> set keys" for k
  proof -
    obtain j where j: "j < length keys" "k = keys ! j" using m by (auto simp: in_set_conv_nth)
    have len: "length keys = ?b * nthread" using assms(3) by (simp add: mod_0_imp_dvd)
    then have "0 < ?b" using j(1) by (cases "?b = 0") auto
    have "j div ?b < nthread" using j(1) len \<open>0 < ?b\<close> by (metis div_less_iff_less_mult mult.commute)
    moreover have "j mod ?b < pcs s ! (j div ?b)" using True calculation \<open>0 < ?b\<close> by (simp add: puts_done_def)
    ultimately have "lookup (table s) (keys ! (?b * (j div ?b) + j mod ?b)) \<noteq> None" using I unfolding puts_inv_def by blast
    then show ?thesis using j(2) by simp
  qed
  have "\<exists>n<nthread. \<exists>i<?b. ph_get k (table s) = Inr (Some \<lparr>ekey = k, evalue = int n\<rparr>) \<and> keys ! (?b * n + i) = k" if m: "k \<in> set keys" for k
  proof -
    obtain v where v: "lookup (table s) k = Some v" using L[OF m] by auto
    then obtain n i where "n < nthread" "v = int n" "i < pcs s ! n" "keys ! (?b * n + i) = k" using I unfolding puts_inv_def by blast
    then show ?thesis using v True assms(1) m by (auto simp: puts_done_def ph_get_lookup)
  qed
  moreover have "get_missing keys (table s) = Inr 0" using get_missing_zero[of keys] assms(1) L by blast
  ultimately show ?thesis using True by simp
qed

text \<open>Two threads and two keys; the second thread is first.\<close>

definition ph_keys2 :: "int list" where "ph_keys2 = [7, 12]"

definition ph_mid2 :: phs where
  "ph_mid2 = \<lparr>table = [[], [], [\<lparr>ekey = 12, evalue = 1\<rparr>], [], []], pcs = [0, 1]\<rparr>"

definition ph_end2 :: phs where
  "ph_end2 = \<lparr>table = [[], [], [\<lparr>ekey = 7, evalue = 0\<rparr>, \<lparr>ekey = 12, evalue = 1\<rparr>], [], []], pcs = [1, 1]\<rparr>"

lemma ph_run2: "(put_step ph_keys2 2)\<^sup>*\<^sup>* (ph_start 2) ph_end2"
proof -
  have "put_step ph_keys2 2 (ph_start 2) ((ph_start 2)\<lparr>table := table ph_mid2, pcs := (pcs (ph_start 2))[1 := pcs (ph_start 2) ! 1 + 1]\<rparr>)"
    by (rule Put) (simp_all add: ph_keys2_def ph_start_def ph_mid2_def ph_put_def ph_index_def PH_NBUCKET_def ph_insert_def numeral_eq_Suc)
  then have 1: "put_step ph_keys2 2 (ph_start 2) ph_mid2" by (simp add: ph_mid2_def ph_start_def numeral_eq_Suc)
  have "put_step ph_keys2 2 ph_mid2 (ph_mid2\<lparr>table := table ph_end2, pcs := (pcs ph_mid2)[0 := pcs ph_mid2 ! 0 + 1]\<rparr>)"
    by (rule Put) (simp_all add: ph_keys2_def ph_end2_def ph_mid2_def ph_put_def ph_index_def PH_NBUCKET_def ph_insert_def numeral_eq_Suc)
  then have "put_step ph_keys2 2 ph_mid2 ph_end2" by (simp add: ph_mid2_def ph_end2_def)
  with 1 show ?thesis by (rule converse_rtranclp_into_rtranclp[of "put_step ph_keys2 2", OF _ r_into_rtranclp[of "put_step ph_keys2 2"]])
qed

theorem ph_no_key_missing_witness: "get_missing ph_keys2 (table ph_end2) = Inr 0"
  using ph_no_key_missing[of ph_keys2 2, OF _ _ _ ph_run2]
  by (simp add: puts_done_def ph_keys2_def ph_end2_def less_Suc_eq numeral_eq_Suc)

end
