(* ===== verification/Barrier.thy ===== *)
theory Barrier
  imports Prelude
begin

text \<open>
  The thread barrier (\<open>xv6-lab-multithreading/barrier.c\<close>). A thread is at the top of its loop with the counter \<open>i\<close>,
  waits in \<open>pthread_cond_wait\<close>, has been woken but has not returned from it yet, or has ended. What happens between two
  operations on the mutex is one step. \<open>pthread_cond_wait\<close> may also return without a wakeup: these returns are a
  separate rule, so that what holds without them and what fails with them can both be stated.
\<close>

section \<open>State\<close>

definition ROUNDS :: nat where "ROUNDS = 20000"

datatype bpc = AtTop nat | Waiting nat | Woken nat | Ended

record bstate =
  bnthread :: nat
  bround :: nat
  threads :: "bpc list"

definition barrier_init :: "nat \<Rightarrow> bstate" where
  "barrier_init nthread = \<lparr>bnthread = 0, bround = 0, threads = replicate nthread (AtTop 0)\<rparr>"

definition wake :: "bpc \<Rightarrow> bpc" where
  "wake t = (case t of Waiting i \<Rightarrow> Woken i | _ \<Rightarrow> t)"

text \<open>The loop goes on with the next round or ends.\<close>

definition next_round :: "nat \<Rightarrow> bpc" where
  "next_round i = (if i + 1 < ROUNDS then AtTop (i + 1) else Ended)"

text \<open>The call of \<open>barrier\<close> by thread \<open>k\<close> in its round \<open>i\<close>, up to the end of the function or to the wait.\<close>

definition barrier :: "nat \<Rightarrow> nat \<Rightarrow> nat \<Rightarrow> bstate \<Rightarrow> bstate" where
  "barrier nthread k i s =
     (let n = bnthread s + 1 in
      if n = nthread then
        s\<lparr>bround := bround s + 1, bnthread := 0, threads := (map wake (threads s))[k := next_round i]\<rparr>
      else s\<lparr>bnthread := n, threads := (threads s)[k := Waiting i]\<rparr>)"

text \<open>The assertion that a thread checks before it calls \<open>barrier\<close>.\<close>

definition assert_ok :: "bstate \<Rightarrow> bool" where
  "assert_ok s \<longleftrightarrow> (\<forall>i. AtTop i \<in> set (threads s) \<longrightarrow> i = bround s)"

inductive barrier_step :: "bool \<Rightarrow> nat \<Rightarrow> bstate \<Rightarrow> bstate \<Rightarrow> bool" for spurious nthread where
  Enter: "k < nthread \<Longrightarrow> threads s ! k = AtTop i \<Longrightarrow> barrier_step spurious nthread s (barrier nthread k i s)"
| Return: "k < nthread \<Longrightarrow> threads s ! k = Woken i \<Longrightarrow>
    barrier_step spurious nthread s (s\<lparr>threads := (threads s)[k := next_round i]\<rparr>)"
| Spurious: "spurious \<Longrightarrow> k < nthread \<Longrightarrow> threads s ! k = Waiting i \<Longrightarrow>
    barrier_step spurious nthread s (s\<lparr>threads := (threads s)[k := next_round i]\<rparr>)"

section \<open>Threads move in lock step\<close>

definition in_round :: "nat \<Rightarrow> bpc \<Rightarrow> bool" where
  "in_round r t = (case t of AtTop i \<Rightarrow> i = r \<and> r < ROUNDS | Waiting i \<Rightarrow> i = r \<and> r < ROUNDS
     | Woken i \<Rightarrow> i + 1 = r \<and> i < ROUNDS | Ended \<Rightarrow> r = ROUNDS)"

definition is_waiting :: "bpc \<Rightarrow> bool" where
  "is_waiting t = (case t of Waiting _ \<Rightarrow> True | _ \<Rightarrow> False)"

definition barrier_inv :: "nat \<Rightarrow> bstate \<Rightarrow> bool" where
  "barrier_inv nthread s \<longleftrightarrow> length (threads s) = nthread \<and> (\<forall>t\<in>set (threads s). in_round (bround s) t) \<and>
     bnthread s = length (filter is_waiting (threads s)) \<and> bnthread s < nthread"

lemma filter_update:
  assumes "k < length xs"
  shows "length (filter P (xs[k := x])) + of_bool (P (xs ! k)) = length (filter P xs) + of_bool (P x)"
  using assms
proof (induction xs arbitrary: k)
  case (Cons y ys)
  then show ?case by (cases k) auto
qed simp

lemma in_round_next: "in_round (i + 1) (next_round i) \<longleftrightarrow> i < ROUNDS"
  by (auto simp: in_round_def next_round_def)

lemma last_one_waits:
  assumes "k < length xs" "length (filter P xs) + 1 = length xs" "\<not> P (xs ! k)" "j < length xs" "j \<noteq> k"
  shows "P (xs ! j)"
proof (rule ccontr)
  assume n: "\<not> P (xs ! j)"
  have "{i. i < length xs \<and> P (xs ! i)} \<subseteq> {..<length xs} - {k, j}" using n assms(3) by auto
  then have "length (filter P xs) \<le> card ({..<length xs} - {k, j})" unfolding length_filter_conv_card by (intro card_mono) auto
  also have "\<dots> = length xs - 2" using assms by (subst card_Diff_subset) auto
  finally show False using assms(1,2,4,5) by linarith
qed

lemma barrier_step_inv:
  assumes "barrier_step False nthread s s'" "barrier_inv nthread s"
  shows "barrier_inv nthread s'"
  using assms(1)
proof cases
  case (Enter k i)
  have I: "length (threads s) = nthread" "\<And>t. t \<in> set (threads s) \<Longrightarrow> in_round (bround s) t"
    "bnthread s = length (filter is_waiting (threads s))" "bnthread s < nthread"
    using assms(2) by (auto simp: barrier_inv_def)
  have "AtTop i \<in> set (threads s)" using Enter I(1) nth_mem by metis
  then have i: "i = bround s" "i < ROUNDS" using I(2)[of "AtTop i"] by (auto simp: in_round_def)
  show ?thesis
  proof (cases "bnthread s + 1 = nthread")
    case False
    then have s': "s' = s\<lparr>bnthread := bnthread s + 1, threads := (threads s)[k := Waiting i]\<rparr>" using Enter by (simp add: barrier_def)
    have "length (filter is_waiting ((threads s)[k := Waiting i])) = length (filter is_waiting (threads s)) + 1"
      using filter_update[of k "threads s" is_waiting "Waiting i"] Enter I(1) by (simp add: is_waiting_def)
    moreover have "in_round (bround s) t" if "t \<in> set ((threads s)[k := Waiting i])" for t
      using that set_update_subset_insert[of "threads s" k "Waiting i"] I(2) i by (auto simp: in_round_def)
    ultimately show ?thesis using I False by (simp add: barrier_inv_def s')
  next
    case True
    define ts where "ts = (map wake (threads s))[k := next_round i]"
    have s': "s' = s\<lparr>bround := bround s + 1, bnthread := 0, threads := ts\<rparr>" using Enter True by (simp add: barrier_def ts_def)
    have w: "\<exists>j. threads s ! m = Waiting j" if "m < nthread" "m \<noteq> k" for m
    proof -
      have "is_waiting (threads s ! m)"
        by (rule last_one_waits[of k "threads s"]) (use that I True Enter in \<open>auto simp: is_waiting_def[of "AtTop i"]\<close>)
      then show ?thesis by (auto simp: is_waiting_def split: bpc.splits)
    qed
    have nth: "in_round (bround s + 1) (ts ! m) \<and> \<not> is_waiting (ts ! m)" if m: "m < nthread" for m
    proof (cases "m = k")
      case True
      then show ?thesis using m I(1) i in_round_next[of i] by (auto simp: ts_def is_waiting_def next_round_def)
    next
      case False
      then obtain j where j: "threads s ! m = Waiting j" using w m by blast
      have "in_round (bround s) (Waiting j)" using I(1) I(2)[OF nth_mem, of m] m j by simp
      then show ?thesis using False j m I(1) by (auto simp: ts_def wake_def in_round_def is_waiting_def)
    qed
    have len: "length ts = nthread" by (simp add: ts_def I(1))
    have "\<forall>t\<in>set ts. in_round (bround s + 1) t" "filter is_waiting ts = []"
      using nth len by (auto simp: in_set_conv_nth filter_empty_conv)
    then show ?thesis using len I(4) by (auto simp: barrier_inv_def s')
  qed
next
  case (Return k i)
  have I: "length (threads s) = nthread" "\<And>t. t \<in> set (threads s) \<Longrightarrow> in_round (bround s) t"
    "bnthread s = length (filter is_waiting (threads s))" "bnthread s < nthread"
    using assms(2) by (auto simp: barrier_inv_def)
  have "Woken i \<in> set (threads s)" using Return I(1) nth_mem by metis
  then have "in_round (bround s) (Woken i)" by (rule I(2))
  then have r: "in_round (bround s) (next_round i)" using in_round_next[of i] by (auto simp: in_round_def[of _ "Woken i"])
  have "length (filter is_waiting ((threads s)[k := next_round i])) = length (filter is_waiting (threads s))"
    using filter_update[of k "threads s" is_waiting "next_round i"] Return I(1) by (simp add: is_waiting_def next_round_def)
  moreover have "in_round (bround s) t" if "t \<in> set ((threads s)[k := next_round i])" for t
    using that set_update_subset_insert[of "threads s" k "next_round i"] I(2) r by auto
  ultimately show ?thesis using I Return by (simp add: barrier_inv_def)
qed simp

lemma barrier_inv_init: "0 < nthread \<Longrightarrow> barrier_inv nthread (barrier_init nthread)"
  by (simp add: barrier_inv_def barrier_init_def in_round_def is_waiting_def ROUNDS_def)

lemma barrier_inv_reachable:
  assumes "(barrier_step False nthread)\<^sup>*\<^sup>* (barrier_init nthread) s" "0 < nthread"
  shows "barrier_inv nthread s"
  using assms(1)
proof (induction rule: rtranclp_induct)
  case (step y z)
  then show ?case using barrier_step_inv by blast
qed (rule barrier_inv_init[OF assms(2)])

lemma barrier_progress:
  assumes "barrier_inv nthread s" "\<exists>t\<in>set (threads s). t \<noteq> Ended"
  shows "\<exists>s'. barrier_step False nthread s s'"
proof (rule ccontr)
  assume n: "\<nexists>s'. barrier_step False nthread s s'"
  have I: "length (threads s) = nthread" "\<And>t. t \<in> set (threads s) \<Longrightarrow> in_round (bround s) t"
    "bnthread s = length (filter is_waiting (threads s))" "bnthread s < nthread"
    using assms(1) by (auto simp: barrier_inv_def)
  have k: "(\<exists>i. t = Waiting i) \<or> t = Ended" if u: "t \<in> set (threads s)" for t
  proof -
    obtain m where "m < nthread" "threads s ! m = t" using u I(1) by (auto simp: in_set_conv_nth)
    then show ?thesis using n Enter Return by (cases t) blast+
  qed
  obtain t where t: "t \<in> set (threads s)" "t \<noteq> Ended" using assms(2) by blast
  then have "bround s < ROUNDS" using k[OF t(1)] I(2)[OF t(1)] by (auto simp: in_round_def)
  then have "is_waiting u" if "u \<in> set (threads s)" for u
    using k[OF that] I(2)[OF that] by (auto simp: in_round_def is_waiting_def)
  then have "filter is_waiting (threads s) = threads s" by simp
  then show False using I by simp
qed

text \<open>
  C32: Without spurious wakeups the barrier works: in every interleaving the assertion at the top of the loop holds (a thread that starts
  its round \<open>i\<close> finds the barrier in round \<open>i\<close>), at most \<open>nthread - 1\<close> threads wait and they all wait for the current round,
  and the threads never block each other: as long as one has not ended, some thread has a next step.
\<close>

theorem barrier_lock_step:
  assumes "0 < nthread" "(barrier_step False nthread)\<^sup>*\<^sup>* (barrier_init nthread) s"
  shows "assert_ok s \<and> bnthread s < nthread \<and> (\<forall>i. Waiting i \<in> set (threads s) \<longrightarrow> i = bround s) \<and>
    ((\<exists>t\<in>set (threads s). t \<noteq> Ended) \<longrightarrow> (\<exists>s'. barrier_step False nthread s s'))"
proof -
  have I: "barrier_inv nthread s" by (rule barrier_inv_reachable[OF assms(2,1)])
  then have "assert_ok s" "\<forall>i. Waiting i \<in> set (threads s) \<longrightarrow> i = bround s" "bnthread s < nthread"
    by (auto simp: barrier_inv_def assert_ok_def in_round_def)
  then show ?thesis using barrier_progress[OF I] by blast
qed

theorem barrier_lock_step_witness:
  "assert_ok (barrier 2 0 0 (barrier_init 2)) \<and> bnthread (barrier 2 0 0 (barrier_init 2)) < 2"
proof -
  have "barrier_step False 2 (barrier_init 2) (barrier 2 0 0 (barrier_init 2))"
    by (rule Enter) (simp_all add: barrier_init_def)
  from barrier_lock_step[of 2, OF _ r_into_rtranclp[of "barrier_step False 2", OF this]] show ?thesis by simp
qed

text \<open>
  With a spurious wakeup the assertion fails: thread 0 waits alone, returns at once, and is in round 1 while the barrier is in round 0.
\<close>

theorem barrier_spurious_wakeup:
  "\<exists>s. (barrier_step True 2)\<^sup>*\<^sup>* (barrier_init 2) s \<and> \<not> assert_ok s"
proof -
  define s1 where "s1 = barrier 2 0 0 (barrier_init 2)"
  define s2 where "s2 = s1\<lparr>threads := (threads s1)[0 := next_round 0]\<rparr>"
  have "barrier_step True 2 (barrier_init 2) s1" unfolding s1_def by (rule Enter) (simp_all add: barrier_init_def)
  moreover have "barrier_step True 2 s1 s2" unfolding s2_def
    by (rule Spurious) (simp_all add: s1_def barrier_def barrier_init_def numeral_eq_Suc)
  ultimately have "(barrier_step True 2)\<^sup>*\<^sup>* (barrier_init 2) s2"
    by (rule converse_rtranclp_into_rtranclp[of "barrier_step True 2", OF _ r_into_rtranclp[of "barrier_step True 2"]])
  moreover have "\<not> assert_ok s2"
    by (auto simp: s2_def s1_def barrier_def barrier_init_def assert_ok_def next_round_def ROUNDS_def numeral_eq_Suc)
  ultimately show ?thesis by blast
qed

end
