(* ===== verification/Uthread.thy ===== *)
theory Uthread
  imports Prelude
begin

text \<open>
  User-level threads (\<open>xv6-lab-multithreading/uthread.c\<close> with \<open>uthread_switch.S\<close>). The state has the table of threads, the index of
  the current thread and the registers of the CPU that \<open>thread_switch\<close> saves and loads. An index at the end of the table is
  the pointer one past it, through which a write is out of bounds.
\<close>

section \<open>State\<close>

datatype ustate = U_FREE | U_RUNNING | U_RUNNABLE

definition MAX_THREAD :: nat where "MAX_THREAD = 4"
definition STACK_SIZE :: u64 where "STACK_SIZE = 8192"

text \<open>\<open>struct context\<close>: the return address, the stack pointer and \<open>s0\<close> to \<open>s11\<close>.\<close>

record uctx =
  ra :: u64
  sp :: u64
  sregs :: "u64 list"

record uthread =
  ustate :: ustate
  uctx :: uctx
  stack :: u64

record uts =
  all_thread :: "uthread list"
  current_thread :: nat
  regs :: uctx

abbreviation gett :: "uts \<Rightarrow> nat \<Rightarrow> uthread" where
  "gett s i \<equiv> all_thread s ! i"

definition upd_thread :: "nat \<Rightarrow> (uthread \<Rightarrow> uthread) \<Rightarrow> uts \<Rightarrow> uts" where
  "upd_thread i f s = s\<lparr>all_thread := (all_thread s)[i := f (gett s i)]\<rparr>"

section \<open>Operations\<close>

definition thread_init :: "uts \<Rightarrow> uts" where
  "thread_init s = upd_thread 0 (\<lambda>t. t\<lparr>ustate := U_RUNNING\<rparr>) (s\<lparr>current_thread := 0\<rparr>)"

text \<open>The registers go to the context of thread \<open>old\<close>, and those of thread \<open>new\<close> into the CPU.\<close>

definition thread_switch :: "nat \<Rightarrow> nat \<Rightarrow> uts \<Rightarrow> uts" where
  "thread_switch old new s =
     (let s1 = upd_thread old (\<lambda>t. t\<lparr>uctx := regs s\<rparr>) s in s1\<lparr>regs := uctx (gett s1 new)\<rparr>)"

text \<open>The search of \<open>thread_schedule\<close>, with the iterations that are left.\<close>

fun find_runnable :: "nat \<Rightarrow> nat \<Rightarrow> uts \<Rightarrow> nat option" where
  "find_runnable 0 t s = None"
| "find_runnable (Suc n) t s =
     (let t' = (if t \<ge> MAX_THREAD then 0 else t) in
      if ustate (gett s t') = U_RUNNABLE then Some t' else find_runnable n (t' + 1) s)"

text \<open>\<open>None\<close>: there is no runnable thread and the program exits with -1.\<close>

definition thread_schedule :: "uts \<Rightarrow> uts option" where
  "thread_schedule s = (case find_runnable MAX_THREAD (current_thread s + 1) s of
     None \<Rightarrow> None
   | Some nxt \<Rightarrow>
       if current_thread s \<noteq> nxt then
         let s1 = upd_thread nxt (\<lambda>t. t\<lparr>ustate := U_RUNNING\<rparr>) s; t = current_thread s1; s2 = s1\<lparr>current_thread := nxt\<rparr>
         in Some (thread_switch t nxt s2)
       else Some s)"

definition thread_create :: "u64 \<Rightarrow> uts \<Rightarrow> uts res" where
  "thread_create func s = (case find (\<lambda>i. ustate (gett s i) = U_FREE) [0..<MAX_THREAD] of
     Some i \<Rightarrow> Inr (upd_thread i (\<lambda>t. t\<lparr>ustate := U_RUNNABLE, uctx := (uctx t)\<lparr>ra := func, sp := stack t + STACK_SIZE\<rparr>\<rparr>) s)
   | None \<Rightarrow> Inl Fault)"

definition thread_yield :: "uts \<Rightarrow> uts option" where
  "thread_yield s = thread_schedule (upd_thread (current_thread s) (\<lambda>t. t\<lparr>ustate := U_RUNNABLE\<rparr>) s)"

text \<open>The end of a thread function.\<close>

definition thread_exit :: "uts \<Rightarrow> uts option" where
  "thread_exit s = thread_schedule (upd_thread (current_thread s) (\<lambda>t. t\<lparr>ustate := U_FREE\<rparr>) s)"

section \<open>Round robin\<close>

definition turn :: "nat \<Rightarrow> nat \<Rightarrow> nat" where
  "turn c k = (c + k) mod MAX_THREAD"

lemma find_runnable_from:
  assumes "t \<le> MAX_THREAD"
  shows "find_runnable n t s =
    (case find (\<lambda>k. ustate (gett s (turn t k)) = U_RUNNABLE) [0..<n] of Some k \<Rightarrow> Some (turn t k) | None \<Rightarrow> None)"
  using assms
proof (induction n arbitrary: t)
  case (Suc n)
  define t' where "t' = (if t \<ge> MAX_THREAD then 0 else t)"
  have t': "t' < MAX_THREAD" "turn t 0 = t'" "\<And>k. turn (t' + 1) k = turn t (Suc k)"
    using Suc.prems by (auto simp: t'_def turn_def MAX_THREAD_def mod_Suc)
  have "find P [0..<Suc n] = (if P 0 then Some 0 else map_option Suc (find (\<lambda>k. P (Suc k)) [0..<n]))" for P
  proof -
    have "[0..<Suc n] = 0 # map Suc [0..<n]" by (simp add: map_Suc_upt upt_conv_Cons)
    moreover have "find P (map Suc xs) = map_option Suc (find (\<lambda>k. P (Suc k)) xs)" for xs by (induction xs) auto
    ultimately show ?thesis by simp
  qed
  note F = this
  show ?case
  proof (cases "ustate (gett s t') = U_RUNNABLE")
    case True
    then show ?thesis using t'(2) by (simp add: F Let_def t'_def[symmetric] del: upt_Suc)
  next
    case False
    then have "find_runnable (Suc n) t s = find_runnable n (t' + 1) s" by (simp add: Let_def t'_def[symmetric])
    also have "\<dots> = (case find (\<lambda>k. ustate (gett s (turn t (Suc k))) = U_RUNNABLE) [0..<n] of Some k \<Rightarrow> Some (turn t (Suc k)) | None \<Rightarrow> None)"
      using Suc.IH[of "t' + 1", unfolded t'(3)] t'(1) by simp
    finally show ?thesis using False t'(2) by (simp add: F del: upt_Suc split: option.splits)
  qed
qed simp

lemma find_runnable_props:
  assumes "find_runnable n t s = Some j" "t \<le> MAX_THREAD"
  shows "j < MAX_THREAD" "ustate (gett s j) = U_RUNNABLE"
proof -
  obtain k where "find (\<lambda>k. ustate (gett s (turn t k)) = U_RUNNABLE) [0..<n] = Some k" "j = turn t k"
    using assms find_runnable_from[OF assms(2), of n s] by (auto split: option.splits)
  then show "j < MAX_THREAD" "ustate (gett s j) = U_RUNNABLE" by (auto simp: find_Some_iff turn_def MAX_THREAD_def)
qed

text \<open>The next thread is the first runnable one after the current in the circle of all threads.\<close>

lemma schedule_round_robin:
  assumes "thread_schedule s = Some s'" "current_thread s < MAX_THREAD"
  shows "\<exists>k. 1 \<le> k \<and> k \<le> MAX_THREAD \<and> current_thread s' = turn (current_thread s) k \<and>
    ustate (gett s (current_thread s')) = U_RUNNABLE \<and>
    (\<forall>j. 1 \<le> j \<longrightarrow> j < k \<longrightarrow> ustate (gett s (turn (current_thread s) j)) \<noteq> U_RUNNABLE)"
proof -
  let ?c = "current_thread s"
  have sh: "turn (?c + 1) k = turn ?c (Suc k)" for k by (simp add: turn_def)
  from assms(1) obtain j where j: "find_runnable MAX_THREAD (?c + 1) s = Some j" "current_thread s' = j"
    by (auto simp: thread_schedule_def thread_switch_def upd_thread_def Let_def split: option.splits if_splits)
  then obtain k where k: "find (\<lambda>k. ustate (gett s (turn ?c (Suc k))) = U_RUNNABLE) [0..<MAX_THREAD] = Some k" "j = turn ?c (Suc k)"
    using find_runnable_from[of "?c + 1" MAX_THREAD s, unfolded sh] assms(2) by (auto split: option.splits)
  have "ustate (gett s (turn ?c i)) \<noteq> U_RUNNABLE" if "1 \<le> i" "i < Suc k" for i
    using that k(1) by (cases i) (auto simp: find_Some_iff)
  moreover have "k < MAX_THREAD" "ustate (gett s (turn ?c (Suc k))) = U_RUNNABLE" using k(1) by (auto simp: find_Some_iff)
  ultimately show ?thesis using j(2) k(2) by (intro exI[of _ "Suc k"]) auto
qed

section \<open>A thread gets its registers back\<close>

text \<open>
  What can happen: the current thread computes, which changes the registers; it yields, ends, or creates a thread.
\<close>

inductive uthread_step :: "uts \<Rightarrow> uts \<Rightarrow> bool" where
  Compute: "uthread_step s (s\<lparr>regs := r\<rparr>)"
| Yield: "thread_yield s = Some s' \<Longrightarrow> uthread_step s s'"
| ExitThread: "thread_exit s = Some s' \<Longrightarrow> uthread_step s s'"
| Create: "thread_create func s = Inr s' \<Longrightarrow> uthread_step s s'"

definition uts_ok :: "uts \<Rightarrow> bool" where
  "uts_ok s \<longleftrightarrow> length (all_thread s) = MAX_THREAD \<and> current_thread s < MAX_THREAD"

text \<open>Thread \<open>c\<close> has been switched away from with registers \<open>r\<close>.\<close>

definition parked :: "nat \<Rightarrow> uctx \<Rightarrow> uts \<Rightarrow> bool" where
  "parked c r s \<longleftrightarrow> ustate (gett s c) = U_RUNNABLE \<and> uctx (gett s c) = r"

lemma schedule_spec:
  assumes "thread_schedule s = Some s'" "uts_ok s"
  shows "uts_ok s'" "current_thread s' \<noteq> current_thread s \<Longrightarrow>
      all_thread s' = (all_thread s)[current_thread s' := (gett s (current_thread s'))\<lparr>ustate := U_RUNNING\<rparr>,
        current_thread s := (gett s (current_thread s))\<lparr>uctx := regs s\<rparr>] \<and> regs s' = uctx (gett s (current_thread s'))"
    "current_thread s' = current_thread s \<Longrightarrow> s' = s"
proof -
  obtain j where j: "find_runnable MAX_THREAD (current_thread s + 1) s = Some j" using assms(1) by (auto simp: thread_schedule_def split: option.splits)
  have jm: "j < MAX_THREAD" using find_runnable_props[OF j] assms(2) by (simp add: uts_ok_def)
  have L: "length (all_thread s) = MAX_THREAD" "current_thread s < MAX_THREAD" using assms(2) by (auto simp: uts_ok_def)
  show "uts_ok s'" using assms j jm by (auto simp: thread_schedule_def uts_ok_def thread_switch_def upd_thread_def Let_def split: if_splits)
  show "current_thread s' = current_thread s \<Longrightarrow> s' = s"
    using assms(1) j by (auto simp: thread_schedule_def thread_switch_def upd_thread_def Let_def split: if_splits)
  show "current_thread s' \<noteq> current_thread s \<Longrightarrow>
      all_thread s' = (all_thread s)[current_thread s' := (gett s (current_thread s'))\<lparr>ustate := U_RUNNING\<rparr>,
        current_thread s := (gett s (current_thread s))\<lparr>uctx := regs s\<rparr>] \<and> regs s' = uctx (gett s (current_thread s'))"
    using assms(1) j jm L by (auto simp: thread_schedule_def thread_switch_def upd_thread_def Let_def split: if_splits)
qed

lemma upd_current_ok: "uts_ok s \<Longrightarrow> uts_ok (upd_thread i f s)"
  by (simp add: uts_ok_def upd_thread_def)

lemma schedule_parked:
  assumes "thread_schedule (upd_thread d f s) = Some s'" "d = current_thread s" "uts_ok s" "parked c r s" "d \<noteq> c" "c < MAX_THREAD"
  shows "if current_thread s' = c then regs s' = r \<and> ustate (gett s' c) = U_RUNNING else parked c r s'"
proof -
  let ?s = "upd_thread d f s"
  have ok: "uts_ok ?s" and cur: "current_thread ?s = d" using assms(2,3) by (auto simp: uts_ok_def upd_thread_def)
  have L: "length (all_thread s) = MAX_THREAD" "d < MAX_THREAD" using assms(2,3) by (auto simp: uts_ok_def)
  have gc: "gett ?s c = gett s c" using assms(5) by (simp add: upd_thread_def)
  note S = schedule_spec[OF assms(1) ok, unfolded cur]
  show ?thesis
  proof (cases "current_thread s' = d")
    case True
    then show ?thesis using S(3) gc assms(4,5) by (auto simp: parked_def)
  next
    case False
    then show ?thesis using S(2) gc assms(4-6) L by (auto simp: parked_def upd_thread_def nth_list_update)
  qed
qed

lemma step_parked:
  assumes "uthread_step s s'" "uts_ok s" "parked c r s" "current_thread s \<noteq> c" "c < MAX_THREAD"
  shows "uts_ok s' \<and> (if current_thread s' = c then regs s' = r \<and> ustate (gett s' c) = U_RUNNING else parked c r s')"
  using assms(1)
proof cases
  case (Compute r')
  then show ?thesis using assms by (auto simp: uts_ok_def parked_def)
next
  case Yield
  then show ?thesis
    using schedule_parked[OF Yield[unfolded thread_yield_def] refl assms(2-5)] schedule_spec(1)[OF Yield[unfolded thread_yield_def] upd_current_ok[OF assms(2)]] by simp
next
  case ExitThread
  then show ?thesis
    using schedule_parked[OF ExitThread[unfolded thread_exit_def] refl assms(2-5)] schedule_spec(1)[OF ExitThread[unfolded thread_exit_def] upd_current_ok[OF assms(2)]] by simp
next
  case (Create func)
  then obtain i where i: "find (\<lambda>i. ustate (gett s i) = U_FREE) [0..<MAX_THREAD] = Some i"
    "s' = upd_thread i (\<lambda>t. t\<lparr>ustate := U_RUNNABLE, uctx := (uctx t)\<lparr>ra := func, sp := stack t + STACK_SIZE\<rparr>\<rparr>) s"
    by (auto simp: thread_create_def split: option.splits)
  then have "i \<noteq> c" using assms(3) by (auto simp: find_Some_iff parked_def)
  then show ?thesis using assms(2-4) i(2) by (auto simp: uts_ok_def parked_def upd_thread_def)
qed

lemma steps_parked:
  assumes "(\<lambda>x y. uthread_step x y \<and> current_thread y \<noteq> c)\<^sup>*\<^sup>* s s'" "uts_ok s" "parked c r s" "current_thread s \<noteq> c" "c < MAX_THREAD"
  shows "uts_ok s' \<and> parked c r s' \<and> current_thread s' \<noteq> c"
  using assms(1)
proof (induction rule: rtranclp_induct)
  case (step y z)
  then show ?case using step_parked[of y z c r] assms(5) by auto
qed (use assms in simp)


text \<open>Two threads that yield to each other.\<close>

definition ctx0 :: "u64 \<Rightarrow> uctx" where
  "ctx0 a = \<lparr>ra = a, sp = 0, sregs = replicate 12 0\<rparr>"

definition uts2 :: uts where
  "uts2 = \<lparr>all_thread = [\<lparr>ustate = U_RUNNING, uctx = ctx0 0, stack = 0\<rparr>, \<lparr>ustate = U_RUNNABLE, uctx = ctx0 1, stack = 8192\<rparr>,
     \<lparr>ustate = U_FREE, uctx = ctx0 0, stack = 16384\<rparr>, \<lparr>ustate = U_FREE, uctx = ctx0 0, stack = 24576\<rparr>],
     current_thread = 0, regs = ctx0 7\<rparr>"

lemmas uts2_simps = uts2_def thread_yield_def thread_schedule_def thread_switch_def upd_thread_def MAX_THREAD_def numeral_eq_Suc


end
