(* ===== verification/E1000.thy ===== *)
theory E1000
  imports Prelude
begin

text \<open>
  The driver of the network card (\<open>xv6-lab-net/e1000.c\<close>, \<open>e1000_dev.h\<close>): the rings of transmit and receive descriptors that it shares with the
  card, the table of packet buffers behind each ring, and the registers. A register keeps the value that was last
  written to it; what the card does is stated separately. A pointer to a packet buffer is a number, 0 is null.

  Packet buffers and the network stack (\<open>net.c\<close>) are not part of the sources: their operations, on a state of their own,
  are the argument \<open>'n net_ops\<close>, with the size of a buffer. Each function runs under the lock of the driver or in the interrupt.
\<close>

section \<open>Registers and descriptors\<close>

definition TX_RING_SIZE :: nat where "TX_RING_SIZE = 16"
definition RX_RING_SIZE :: nat where "RX_RING_SIZE = 16"

definition E1000_CTL :: nat where "E1000_CTL = 0x00000 div 4"
definition E1000_ICR :: nat where "E1000_ICR = 0x000C0 div 4"
definition E1000_IMS :: nat where "E1000_IMS = 0x000D0 div 4"
definition E1000_RCTL :: nat where "E1000_RCTL = 0x00100 div 4"
definition E1000_TCTL :: nat where "E1000_TCTL = 0x00400 div 4"
definition E1000_TIPG :: nat where "E1000_TIPG = 0x00410 div 4"
definition E1000_RDBAL :: nat where "E1000_RDBAL = 0x02800 div 4"
definition E1000_RDTR :: nat where "E1000_RDTR = 0x02820 div 4"
definition E1000_RADV :: nat where "E1000_RADV = 0x0282C div 4"
definition E1000_RDH :: nat where "E1000_RDH = 0x02810 div 4"
definition E1000_RDT :: nat where "E1000_RDT = 0x02818 div 4"
definition E1000_RDLEN :: nat where "E1000_RDLEN = 0x02808 div 4"
definition E1000_TDBAL :: nat where "E1000_TDBAL = 0x03800 div 4"
definition E1000_TDLEN :: nat where "E1000_TDLEN = 0x03808 div 4"
definition E1000_TDH :: nat where "E1000_TDH = 0x03810 div 4"
definition E1000_TDT :: nat where "E1000_TDT = 0x03818 div 4"
definition E1000_MTA :: nat where "E1000_MTA = 0x05200 div 4"
definition E1000_RA :: nat where "E1000_RA = 0x05400 div 4"

definition E1000_CTL_RST :: u32 where "E1000_CTL_RST = 0x00400000"
definition E1000_TCTL_EN :: u32 where "E1000_TCTL_EN = 0x00000002"
definition E1000_TCTL_PSP :: u32 where "E1000_TCTL_PSP = 0x00000008"
definition E1000_TCTL_CT_SHIFT :: nat where "E1000_TCTL_CT_SHIFT = 4"
definition E1000_TCTL_COLD_SHIFT :: nat where "E1000_TCTL_COLD_SHIFT = 12"
definition E1000_RCTL_EN :: u32 where "E1000_RCTL_EN = 0x00000002"
definition E1000_RCTL_BAM :: u32 where "E1000_RCTL_BAM = 0x00008000"
definition E1000_RCTL_SZ_2048 :: u32 where "E1000_RCTL_SZ_2048 = 0x00000000"
definition E1000_RCTL_SECRC :: u32 where "E1000_RCTL_SECRC = 0x04000000"
definition E1000_TXD_CMD_EOP :: u8 where "E1000_TXD_CMD_EOP = 0x01"
definition E1000_TXD_CMD_RS :: u8 where "E1000_TXD_CMD_RS = 0x08"
definition E1000_TXD_STAT_DD :: u8 where "E1000_TXD_STAT_DD = 0x01"
definition E1000_RXD_STAT_DD :: u8 where "E1000_RXD_STAT_DD = 0x01"

record tx_desc =
  tx_addr :: u64
  tx_length :: u16
  tx_cso :: u8
  tx_cmd :: u8
  tx_status :: u8
  tx_css :: u8
  tx_special :: u16

record rx_desc =
  rx_addr :: u64
  rx_length :: u16
  rx_csum :: u16
  rx_status :: u8
  rx_errors :: u8
  rx_special :: u16

record 'n e1000 =
  regs :: "nat \<Rightarrow> u32"
  tx_ring :: "tx_desc list"
  tx_mbufs :: "u64 list"
  rx_ring :: "rx_desc list"
  rx_mbufs :: "u64 list"
  tx_base :: u64
  rx_base :: u64
  net :: 'n

record 'n net_ops =
  MBUF_SIZE :: nat
  mbufalloc :: "u32 \<Rightarrow> 'n \<Rightarrow> u64 \<times> 'n"
  mbuffree :: "u64 \<Rightarrow> 'n \<Rightarrow> 'n"
  net_rx :: "u64 \<Rightarrow> 'n \<Rightarrow> 'n"
  m_head :: "u64 \<Rightarrow> 'n \<Rightarrow> u64"
  m_len :: "u64 \<Rightarrow> 'n \<Rightarrow> u32"
  set_m_len :: "u64 \<Rightarrow> u32 \<Rightarrow> 'n \<Rightarrow> 'n"

definition set_reg :: "nat \<Rightarrow> u32 \<Rightarrow> 'n e1000 \<Rightarrow> 'n e1000" where
  "set_reg r v s = s\<lparr>regs := (regs s)(r := v)\<rparr>"

definition upd_tx :: "nat \<Rightarrow> (tx_desc \<Rightarrow> tx_desc) \<Rightarrow> 'n e1000 \<Rightarrow> 'n e1000" where
  "upd_tx i f s = s\<lparr>tx_ring := (tx_ring s)[i := f (tx_ring s ! i)]\<rparr>"

definition upd_rx :: "nat \<Rightarrow> (rx_desc \<Rightarrow> rx_desc) \<Rightarrow> 'n e1000 \<Rightarrow> 'n e1000" where
  "upd_rx i f s = s\<lparr>rx_ring := (rx_ring s)[i := f (rx_ring s ! i)]\<rparr>"

section \<open>Initialisation\<close>

definition zero_tx :: tx_desc where
  "zero_tx = \<lparr>tx_addr = 0, tx_length = 0, tx_cso = 0, tx_cmd = 0, tx_status = 0, tx_css = 0, tx_special = 0\<rparr>"

definition zero_rx :: rx_desc where
  "zero_rx = \<lparr>rx_addr = 0, rx_length = 0, rx_csum = 0, rx_status = 0, rx_errors = 0, rx_special = 0\<rparr>"

definition init_tx :: "'n e1000 \<Rightarrow> 'n e1000" where
  "init_tx s =
     (let s1 = s\<lparr>tx_ring := replicate TX_RING_SIZE (zero_tx\<lparr>tx_status := E1000_TXD_STAT_DD\<rparr>), tx_mbufs := replicate TX_RING_SIZE 0\<rparr>;
          s2 = set_reg E1000_TDBAL (ucast (tx_base s1)) s1;
          s3 = set_reg E1000_TDLEN 256 s2;
          s4 = set_reg E1000_TDT 0 s3
      in set_reg E1000_TDH 0 s4)"

definition init_rx_buf :: "'n net_ops \<Rightarrow> nat \<Rightarrow> 'n e1000 \<Rightarrow> 'n e1000 res" where
  "init_rx_buf N i s =
     (let (m, n') = mbufalloc N 0 (net s) in
      if m = 0 then Inl (Panic ''e1000'')
      else Inr (upd_rx i (\<lambda>d. d\<lparr>rx_addr := m_head N m n'\<rparr>) (s\<lparr>net := n', rx_mbufs := (rx_mbufs s)[i := m]\<rparr>)))"

definition e1000_init :: "'n net_ops \<Rightarrow> 'n e1000 \<Rightarrow> 'n e1000 res" where
  "e1000_init N s =
     (let s1 = set_reg E1000_IMS 0 s;
          s2 = set_reg E1000_CTL (regs s1 E1000_CTL OR E1000_CTL_RST) s1;
          s3 = init_tx (set_reg E1000_IMS 0 s2)
      in bindR (fold_res (init_rx_buf N) [0..<RX_RING_SIZE] (s3\<lparr>rx_ring := replicate RX_RING_SIZE zero_rx\<rparr>)) (\<lambda>s4.
        let s5 = set_reg E1000_RDBAL (ucast (rx_base s4)) s4;
            s6 = set_reg E1000_RDLEN 256 (set_reg E1000_RDT (of_nat RX_RING_SIZE - 1) (set_reg E1000_RDH 0 s5));
            s7 = set_reg (E1000_RA + 1) (0x5634 OR push_bit 31 1) (set_reg E1000_RA 0x12005452 s6);
            s8 = fold (\<lambda>i. set_reg (E1000_MTA + i) 0) [0..<4096 div 32] s7;
            s9 = set_reg E1000_TCTL (E1000_TCTL_EN OR E1000_TCTL_PSP OR push_bit E1000_TCTL_CT_SHIFT 0x10 OR
                   push_bit E1000_TCTL_COLD_SHIFT 0x40) s8;
            s10 = set_reg E1000_TIPG (10 OR push_bit 10 8 OR push_bit 20 6) s9;
            s11 = set_reg E1000_RCTL (E1000_RCTL_EN OR E1000_RCTL_BAM OR E1000_RCTL_SZ_2048 OR E1000_RCTL_SECRC) s10;
            s12 = set_reg E1000_RADV 0 (set_reg E1000_RDTR 0 s11)
        in Inr (set_reg E1000_IMS (push_bit 7 1) s12)))"

section \<open>Sending and receiving\<close>

text \<open>An index from a register that is outside the ring reads outside the array.\<close>

definition e1000_transmit :: "'n net_ops \<Rightarrow> u64 \<Rightarrow> 'n e1000 \<Rightarrow> (int \<times> 'n e1000) res" where
  "e1000_transmit N m s =
     (let i = unat (regs s E1000_TDT) in
      if i \<ge> TX_RING_SIZE then Inl Fault
      else if tx_status (tx_ring s ! i) AND E1000_TXD_STAT_DD = 0 then Inr (-1, s)
      else
        let s1 = (if tx_mbufs s ! i \<noteq> 0 then s\<lparr>net := mbuffree N (tx_mbufs s ! i) (net s)\<rparr> else s);
            s2 = upd_tx i (\<lambda>d. d\<lparr>tx_addr := m_head N m (net s1), tx_length := ucast (m_len N m (net s1)),
                   tx_cmd := E1000_TXD_CMD_EOP OR E1000_TXD_CMD_RS\<rparr>) s1;
            s3 = s2\<lparr>tx_mbufs := (tx_mbufs s2)[i := m]\<rparr>
        in Inr (0, set_reg E1000_TDT (of_nat ((i + 1) mod TX_RING_SIZE)) s3))"

definition rx_done :: "rx_desc \<Rightarrow> bool" where
  "rx_done d \<longleftrightarrow> rx_status d AND E1000_RXD_STAT_DD \<noteq> 0"

text \<open>One iteration: the packet goes to the network stack and the descriptor gets a new buffer.\<close>

definition recv_one :: "'n net_ops \<Rightarrow> nat \<Rightarrow> 'n e1000 \<Rightarrow> 'n e1000 res" where
  "recv_one N i s =
     (if unat (rx_length (rx_ring s ! i)) > MBUF_SIZE N then Inl (Panic ''MBUF_SIZE OVERFLOW!'')
      else
        let m = rx_mbufs s ! i;
            n1 = net_rx N m (set_m_len N m (ucast (rx_length (rx_ring s ! i))) (net s));
            (m', n2) = mbufalloc N 0 n1
        in if m' = 0 then Inl Fault
           else Inr (upd_rx i (\<lambda>d. d\<lparr>rx_addr := m_head N m' n2, rx_status := 0\<rparr>) (s\<lparr>net := n2, rx_mbufs := (rx_mbufs s)[i := m']\<rparr>)))"

lemma recv_one_ring:
  "recv_one N i s = Inr s' \<Longrightarrow> \<exists>d. rx_ring s' = (rx_ring s)[i := d] \<and> \<not> rx_done d"
  by (auto simp: recv_one_def Let_def upd_rx_def rx_done_def split: if_splits prod.splits)

text \<open>The loop; the result is the index at which it stops.\<close>

function recv_loop :: "'n net_ops \<Rightarrow> nat \<Rightarrow> 'n e1000 \<Rightarrow> (nat \<times> 'n e1000) res" where
  "recv_loop N i s =
     (if i < length (rx_ring s) \<and> rx_done (rx_ring s ! i)
      then bindR (recv_one N i s) (\<lambda>s1. recv_loop N ((i + 1) mod RX_RING_SIZE) s1) else Inr (i, s))"
  by pat_completeness auto
termination
proof (relation "measure (\<lambda>(N, i, s). length (filter rx_done (rx_ring s)))", goal_cases)
  case (2 N i s s1)
  then obtain d where d: "rx_ring s1 = (rx_ring s)[i := d]" "\<not> rx_done d" using recv_one_ring by blast
  have i: "i < length (rx_ring s)" "rx_done (rx_ring s ! i)" using 2 by auto
  have "length (filter P (xs[k := x])) < length (filter P xs)" if "k < length xs" "P (xs ! k)" "\<not> P x" for P k x and xs :: "rx_desc list"
    using that
  proof (induction xs arbitrary: k)
    case (Cons y ys)
    then show ?case by (cases k) auto
  qed simp
  from this[OF i d(2)] show ?case by (simp add: d(1))
qed simp

declare recv_loop.simps [simp del]

definition e1000_recv :: "'n net_ops \<Rightarrow> 'n e1000 \<Rightarrow> 'n e1000 res" where
  "e1000_recv N s =
     bindR (recv_loop N (unat ((regs s E1000_RDT + 1) mod of_nat RX_RING_SIZE)) s) (\<lambda>(i, s1).
       Inr (set_reg E1000_RDT ((of_nat i - 1) mod of_nat RX_RING_SIZE) s1))"

definition e1000_intr :: "'n net_ops \<Rightarrow> 'n e1000 \<Rightarrow> 'n e1000 res" where
  "e1000_intr N s = e1000_recv N (set_reg E1000_ICR 0xffffffff s)"

end
