(* ===== verification/E1000Props.thy ===== *)
theory E1000Props
  imports E1000
begin

text \<open>
  Receiving hands the arrived packets to the network stack in the order of the ring, each once. Sending never finds the ring full:
  nothing clears the status that the driver tests.
\<close>

section \<open>Receiving\<close>

text \<open>What the network state goes through for one packet.\<close>

definition deliver :: "'n net_ops \<Rightarrow> u64 \<times> u16 \<Rightarrow> 'n \<Rightarrow> 'n" where
  "deliver N = (\<lambda>(m, len) n. snd (mbufalloc N 0 (net_rx N m (set_m_len N m (ucast len) n))))"

definition packet :: "'n e1000 \<Rightarrow> nat \<Rightarrow> u64 \<times> u16" where
  "packet s i = (rx_mbufs s ! i, rx_length (rx_ring s ! i))"

definition ring_ok :: "'n e1000 \<Rightarrow> bool" where
  "ring_ok s \<longleftrightarrow> length (rx_ring s) = RX_RING_SIZE \<and> length (rx_mbufs s) = RX_RING_SIZE"

lemma recv_one_spec:
  assumes "recv_one N i s = Inr s'" "ring_ok s" "i < RX_RING_SIZE"
  shows "net s' = deliver N (packet s i) (net s)" "ring_ok s'" "\<not> rx_done (rx_ring s' ! i)" "regs s' = regs s"
    "\<And>j. j \<noteq> i \<Longrightarrow> rx_ring s' ! j = rx_ring s ! j \<and> rx_mbufs s' ! j = rx_mbufs s ! j"
  using assms by (auto simp: recv_one_def Let_def upd_rx_def deliver_def packet_def ring_ok_def rx_done_def split: if_splits prod.splits)

definition ring_at :: "nat \<Rightarrow> nat \<Rightarrow> nat" where
  "ring_at i0 j = (i0 + j) mod RX_RING_SIZE"

lemma ring_at_inj: "j < RX_RING_SIZE \<Longrightarrow> j' < RX_RING_SIZE \<Longrightarrow> ring_at i0 j = ring_at i0 j' \<Longrightarrow> j = j'"
proof (induction j j' rule: linorder_wlog)
  case (le a b)
  then have "RX_RING_SIZE dvd (i0 + b) - (i0 + a)" unfolding ring_at_def by (subst mod_eq_dvd_iff_nat[symmetric]) auto
  then have "RX_RING_SIZE dvd b - a" by simp
  then show ?case using le by (auto dest: dvd_imp_le)
qed simp

lemma ring_at_simps [simp]: "ring_at i0 j < RX_RING_SIZE" "Suc (ring_at i0 j) mod RX_RING_SIZE = ring_at i0 (Suc j)"
    "ring_at i0 RX_RING_SIZE = ring_at i0 0"
  by (simp_all add: ring_at_def RX_RING_SIZE_def mod_Suc_eq)

text \<open>The loop from the \<open>j\<close>-th place on, with the places before it already emptied: it takes the places up to the \<open>k\<close>-th.\<close>

definition took :: "'n net_ops \<Rightarrow> nat \<Rightarrow> nat \<Rightarrow> nat \<Rightarrow> 'n e1000 \<Rightarrow> 'n e1000 \<Rightarrow> bool" where
  "took N i0 j k s s' \<longleftrightarrow> j \<le> k \<and> k \<le> RX_RING_SIZE \<and> (\<forall>a. j \<le> a \<longrightarrow> a < k \<longrightarrow> rx_done (rx_ring s ! ring_at i0 a)) \<and>
     (k < RX_RING_SIZE \<longrightarrow> \<not> rx_done (rx_ring s ! ring_at i0 k)) \<and>
     net s' = fold (deliver N) (map (\<lambda>a. packet s (ring_at i0 a)) [j..<k]) (net s) \<and> ring_ok s' \<and> regs s' = regs s \<and>
     (\<forall>a<k. \<not> rx_done (rx_ring s' ! ring_at i0 a)) \<and>
     (\<forall>a. k \<le> a \<longrightarrow> a < RX_RING_SIZE \<longrightarrow> rx_ring s' ! ring_at i0 a = rx_ring s ! ring_at i0 a \<and> rx_mbufs s' ! ring_at i0 a = rx_mbufs s ! ring_at i0 a)"

lemma took_Suc:
  assumes "recv_one N (ring_at i0 j) s = Inr s1" "took N i0 (Suc j) k s1 s'" "ring_ok s" "rx_done (rx_ring s ! ring_at i0 j)" "j < RX_RING_SIZE"
  shows "took N i0 j k s s'"
proof -
  note R = recv_one_spec[OF assms(1,3) ring_at_simps(1)]
  have jk: "Suc j \<le> k" "k \<le> RX_RING_SIZE" using assms(2) by (auto simp: took_def)
  have same: "rx_ring s1 ! ring_at i0 a = rx_ring s ! ring_at i0 a \<and> rx_mbufs s1 ! ring_at i0 a = rx_mbufs s ! ring_at i0 a"
    if "j < a" "a < RX_RING_SIZE" for a
    using R(5)[of "ring_at i0 a"] ring_at_inj[of a j i0] that assms(5) by auto
  have M: "map (\<lambda>a. packet s1 (ring_at i0 a)) [Suc j..<k] = map (\<lambda>a. packet s (ring_at i0 a)) [Suc j..<k]"
    using same jk(2) by (auto simp: packet_def)
  have "net s' = fold (deliver N) (map (\<lambda>a. packet s1 (ring_at i0 a)) [Suc j..<k]) (net s1)" using assms(2) by (simp add: took_def)
  also have "\<dots> = fold (deliver N) (map (\<lambda>a. packet s (ring_at i0 a)) [j..<k]) (net s)"
    unfolding M R(1) using jk(1) by (simp add: upt_conv_Cons)
  finally have "net s' = fold (deliver N) (map (\<lambda>a. packet s (ring_at i0 a)) [j..<k]) (net s)" .
  moreover have "rx_done (rx_ring s ! ring_at i0 a)" if "j \<le> a" "a < k" for a
  proof (cases "a = j")
    case False
    then have "Suc j \<le> a" using that by simp
    then have "rx_done (rx_ring s1 ! ring_at i0 a)" using assms(2) that unfolding took_def by blast
    then show ?thesis using same[of a] \<open>Suc j \<le> a\<close> that jk(2) by simp
  qed (use assms(4) in simp)
  ultimately show ?thesis using assms(2) R(4) same jk unfolding took_def by auto
qed

lemma recv_loop_spec:
  assumes "recv_loop N (ring_at i0 j) s = Inr (i, s')" "ring_ok s" "j \<le> RX_RING_SIZE" "\<forall>a<j. \<not> rx_done (rx_ring s ! ring_at i0 a)"
  shows "\<exists>k. i = ring_at i0 k \<and> took N i0 j k s s'"
  using assms
proof (induction "RX_RING_SIZE - j" arbitrary: j s)
  case 0
  then have j: "j = RX_RING_SIZE" "\<not> rx_done (rx_ring s ! ring_at i0 0)" by (auto simp: RX_RING_SIZE_def)
  then have "i = ring_at i0 j" "s' = s" using 0 by (auto simp: recv_loop.simps[of N "ring_at i0 0"])
  then show ?case using 0 j by (intro exI[of _ j]) (auto simp: took_def)
next
  case (Suc n)
  then have j: "j < RX_RING_SIZE" by simp
  have len: "length (rx_ring s) = RX_RING_SIZE" using Suc.prems(2) by (simp add: ring_ok_def)
  show ?case
  proof (cases "rx_done (rx_ring s ! ring_at i0 j)")
    case False
    then have "i = ring_at i0 j" "s' = s" using Suc.prems(1) by (auto simp: recv_loop.simps[of N "ring_at i0 j"])
    then show ?thesis using Suc.prems j False by (intro exI[of _ j]) (auto simp: took_def)
  next
    case True
    with Suc.prems(1) len obtain s1 where s1: "recv_one N (ring_at i0 j) s = Inr s1" "recv_loop N (ring_at i0 (Suc j)) s1 = Inr (i, s')"
      by (auto simp: recv_loop.simps[of N "ring_at i0 j"] bindR_Inr_iff)
    note R = recv_one_spec[OF s1(1) Suc.prems(2) ring_at_simps(1)]
    have "\<not> rx_done (rx_ring s1 ! ring_at i0 a)" if "a < Suc j" for a
    proof (cases "a = j")
      case False
      then have "a < j" using that by simp
      then have "ring_at i0 a \<noteq> ring_at i0 j" using ring_at_inj[of a j i0] j by auto
      then show ?thesis using R(5) \<open>a < j\<close> Suc.prems(4) by simp
    qed (use R(3) in simp)
    moreover have "n = RX_RING_SIZE - Suc j" using Suc.hyps(2) by simp
    ultimately obtain k where "i = ring_at i0 k" "took N i0 (Suc j) k s1 s'"
      using Suc.hyps(1)[of "Suc j" s1] s1(2) R(2) j by auto
    then show ?thesis using took_Suc[OF s1(1) _ Suc.prems(2) True j] by blast
  qed
qed

text \<open>
  C34: \<open>e1000_recv\<close> starts after the last descriptor it gave back (\<open>RDT\<close>) and takes the longest run of descriptors that the card has filled, at most
  the whole ring: it hands the packets to the network stack in this order, each exactly once and with the length that the card has
  stored, clears their status so that the card can fill them again, leaves the other descriptors alone, and sets \<open>RDT\<close> to the last descriptor of the run.
\<close>

theorem recv_delivers_in_order:
  assumes "e1000_recv N s = Inr s'" "length (rx_ring s) = RX_RING_SIZE" "length (rx_mbufs s) = RX_RING_SIZE" "unat (regs s E1000_RDT) < RX_RING_SIZE"
  shows "\<exists>k\<le>RX_RING_SIZE. let place = (\<lambda>a. (unat (regs s E1000_RDT) + 1 + a) mod RX_RING_SIZE) in
    (\<forall>a<k. rx_done (rx_ring s ! place a)) \<and> (k < RX_RING_SIZE \<longrightarrow> \<not> rx_done (rx_ring s ! place k)) \<and>
    net s' = fold (deliver N) (map (\<lambda>a. (rx_mbufs s ! place a, rx_length (rx_ring s ! place a))) [0..<k]) (net s) \<and>
    (\<forall>a<k. \<not> rx_done (rx_ring s' ! place a)) \<and>
    (\<forall>a. k \<le> a \<longrightarrow> a < RX_RING_SIZE \<longrightarrow> rx_ring s' ! place a = rx_ring s ! place a \<and> rx_mbufs s' ! place a = rx_mbufs s ! place a) \<and>
    unat (regs s' E1000_RDT) = (unat (regs s E1000_RDT) + k) mod RX_RING_SIZE"
proof -
  let ?t = "unat (regs s E1000_RDT)"
  have i0: "unat ((regs s E1000_RDT + 1) mod of_nat RX_RING_SIZE) = ring_at (?t + 1) 0"
  proof -
    have "unat (regs s E1000_RDT + 1) = ?t + 1" using assms(4) by (subst unat_word_ariths) (simp add: RX_RING_SIZE_def)
    then show ?thesis by (simp add: ring_at_def unat_mod RX_RING_SIZE_def)
  qed
  from assms(1) obtain i s1 where r: "recv_loop N (ring_at (?t + 1) 0) s = Inr (i, s1)"
    "s' = set_reg E1000_RDT ((of_nat i - 1) mod of_nat RX_RING_SIZE) s1"
    by (auto simp: e1000_recv_def bindR_Inr_iff i0)
  obtain k where k: "i = ring_at (?t + 1) k" "took N (?t + 1) 0 k s s1"
    using recv_loop_spec[OF r(1)] assms(2,3) by (auto simp: ring_ok_def)
  have e: "rx_ring s' = rx_ring s1" "rx_mbufs s' = rx_mbufs s1" "net s' = net s1" by (simp_all add: r(2) set_reg_def)
  have "unat (regs s' E1000_RDT) = (?t + k) mod RX_RING_SIZE"
  proof -
    have "i < 16" using k(1) ring_at_simps(1)[of "?t + 1" k] by (simp add: RX_RING_SIZE_def)
    then have "unat (((of_nat i - 1) :: u32) mod 16) = (i + 15) mod 16"
      by (cases i) (auto simp: unat_mod unat_of_nat unat_sub_if' mod_Suc)
    also have "\<dots> = (?t + 1 + k + 15) mod 16" unfolding k(1) ring_at_def RX_RING_SIZE_def by (rule mod_add_left_eq)
    also have "\<dots> = (?t + k) mod 16" using mod_add_self2[of "?t + k" 16] by (simp add: add_ac)
    finally show ?thesis by (simp add: r(2) set_reg_def RX_RING_SIZE_def)
  qed
  then show ?thesis using k(2) unfolding took_def e by (intro exI[of _ k]) (auto simp: ring_at_def packet_def Let_def)
qed

text \<open>A ring in which the card has filled the first descriptor; the network state is the list of delivered buffers.\<close>

definition net0 :: "(u64 list) net_ops" where
  "net0 = \<lparr>MBUF_SIZE = 2048, mbufalloc = (\<lambda>_ n. (99, n)), mbuffree = (\<lambda>_ n. n), net_rx = (\<lambda>m n. n @ [m]), m_head = (\<lambda>m _. m),
     m_len = (\<lambda>_ _. 0), set_m_len = (\<lambda>_ _ n. n)\<rparr>"

definition card0 :: "(u64 list) e1000" where
  "card0 = \<lparr>regs = (\<lambda>_. 0)(E1000_RDT := 15), tx_ring = [], tx_mbufs = [],
     rx_ring = (replicate RX_RING_SIZE zero_rx)[0 := zero_rx\<lparr>rx_status := 1, rx_length := 60\<rparr>],
     rx_mbufs = (replicate RX_RING_SIZE 5)[0 := 7], tx_base = 0, rx_base = 0, net = []\<rparr>"

lemma card0_recv: "\<exists>t. e1000_recv net0 card0 = Inr t \<and> net t = [7]"
proof -
  define t where "t = upd_rx 0 (\<lambda>d. d\<lparr>rx_addr := 99, rx_status := 0\<rparr>) (card0\<lparr>net := [7], rx_mbufs := (rx_mbufs card0)[0 := 99]\<rparr>)"
  have one: "recv_one net0 0 card0 = Inr t"
    by (simp add: recv_one_def t_def card0_def net0_def RX_RING_SIZE_def)
  have "rx_done (rx_ring card0 ! 0)" by (simp add: card0_def rx_done_def RX_RING_SIZE_def E1000_RXD_STAT_DD_def)
  moreover have "\<not> rx_done (rx_ring t ! 1)" by (simp add: t_def upd_rx_def card0_def rx_done_def RX_RING_SIZE_def zero_rx_def)
  ultimately have "recv_loop net0 0 card0 = Inr (1, t)"
    using one by (simp add: recv_loop.simps[of net0 0] recv_loop.simps[of net0 "Suc 0"] card0_def[THEN arg_cong[of _ _ rx_ring]] RX_RING_SIZE_def)
  moreover have "(regs card0 E1000_RDT + 1) mod of_nat RX_RING_SIZE = (0 :: u32)" by (simp add: card0_def RX_RING_SIZE_def)
  ultimately show ?thesis by (auto simp: e1000_recv_def set_reg_def t_def upd_rx_def)
qed

theorem recv_delivers_in_order_witness:
  "\<exists>t k. e1000_recv net0 card0 = Inr t \<and> net t = [7] \<and> k \<le> RX_RING_SIZE \<and> unat (regs t E1000_RDT) = (15 + k) mod RX_RING_SIZE"
proof -
  obtain t where t: "e1000_recv net0 card0 = Inr t" "net t = [7]" using card0_recv by blast
  have "length (rx_ring card0) = RX_RING_SIZE" "length (rx_mbufs card0) = RX_RING_SIZE" "unat (regs card0 E1000_RDT) < RX_RING_SIZE"
    "unat (regs card0 E1000_RDT) = 15"
    by (simp_all add: card0_def RX_RING_SIZE_def)
  then show ?thesis using recv_delivers_in_order[OF t(1)] t by (auto simp: Let_def)
qed

section \<open>Sending\<close>

definition tx_all_done :: "'n e1000 \<Rightarrow> bool" where
  "tx_all_done s \<longleftrightarrow> length (tx_ring s) = TX_RING_SIZE \<and> length (tx_mbufs s) = TX_RING_SIZE \<and> unat (regs s E1000_TDT) < TX_RING_SIZE \<and>
     (\<forall>d\<in>set (tx_ring s). tx_status d AND E1000_TXD_STAT_DD \<noteq> 0)"

text \<open>
  \<open>e1000_init\<close> marks all transmit descriptors as done and the driver never takes the mark back, so sending never reports a full
  ring: it overwrites the descriptor and frees its buffer, whether the card has sent it or not.
\<close>

lemma init_tx_all_done: "tx_all_done (init_tx s)"
  by (simp add: tx_all_done_def init_tx_def Let_def set_reg_def TX_RING_SIZE_def E1000_TXD_STAT_DD_def E1000_TDT_def E1000_TDH_def zero_tx_def)

lemma transmit_never_refuses:
  assumes "tx_all_done s"
  shows "\<exists>s'. e1000_transmit N m s = Inr (0, s') \<and> tx_all_done s' \<and> tx_mbufs s' ! unat (regs s E1000_TDT) = m \<and>
    (tx_mbufs s ! unat (regs s E1000_TDT) \<noteq> 0 \<longrightarrow> net s' = mbuffree N (tx_mbufs s ! unat (regs s E1000_TDT)) (net s))"
proof -
  let ?i = "unat (regs s E1000_TDT)"
  have i: "?i < TX_RING_SIZE" "length (tx_ring s) = TX_RING_SIZE" "length (tx_mbufs s) = TX_RING_SIZE"
    and d: "\<And>d. d \<in> set (tx_ring s) \<Longrightarrow> tx_status d AND E1000_TXD_STAT_DD \<noteq> 0" using assms by (auto simp: tx_all_done_def)
  have D: "tx_status (tx_ring s ! ?i) AND E1000_TXD_STAT_DD \<noteq> 0" using d i by simp
  have u: "unat (of_nat ((?i + 1) mod TX_RING_SIZE) :: u32) < TX_RING_SIZE" by (simp add: unat_of_nat TX_RING_SIZE_def)
  have "tx_status e AND E1000_TXD_STAT_DD \<noteq> 0" if "e \<in> set ((tx_ring s)[?i := x])" "tx_status x = tx_status (tx_ring s ! ?i)" for e x
    using that set_update_subset_insert[of "tx_ring s" ?i x] D d by auto
  then show ?thesis
    using i D u by (auto simp: e1000_transmit_def Let_def tx_all_done_def set_reg_def upd_tx_def)
qed

end
