(* ===== verification/Ulib.thy ===== *)
theory Ulib
  imports PhysMem
begin

text \<open>
  The library of user programs (\<open>xv6-lab-pagetables/user/ulib.c\<close>). Memory is the address space of the process, a byte for every
  address; \<open>char\<close> is unsigned on RISC-V. The loops over a string have no bound in C: they are partial functions whose value is
  \<open>None\<close> when no end is found. The system calls behind \<open>gets\<close> and \<open>stat\<close> are arguments. The functions named
  \<open>memset\<close>, \<open>memmove\<close> of this file have the prefix \<open>u_\<close>, since \<open>PhysMem\<close> has those of the kernel.
\<close>

section \<open>Strings\<close>

partial_function (option) strcpy :: "u64 \<Rightarrow> u64 \<Rightarrow> memory \<Rightarrow> memory option" where
  "strcpy s t m =
     (let m' = m(s := m t) in if m t \<noteq> 0 then strcpy (s + 1) (t + 1) m' else Some m')"

partial_function (option) strcmp :: "memory \<Rightarrow> u64 \<Rightarrow> u64 \<Rightarrow> int option" where
  "strcmp m p q =
     (if m p \<noteq> 0 \<and> m p = m q then strcmp m (p + 1) (q + 1) else Some (uint (m p) - uint (m q)))"

partial_function (option) strlen_loop :: "memory \<Rightarrow> u64 \<Rightarrow> int \<Rightarrow> u32 option" where
  "strlen_loop m s n =
     (if m (s + word_of_int n) \<noteq> 0 then strlen_loop m s (c_int (n + 1)) else Some (word_of_int n))"

definition strlen :: "memory \<Rightarrow> u64 \<Rightarrow> u32 option" where
  "strlen m s = strlen_loop m s 0"

partial_function (option) strchr :: "memory \<Rightarrow> u64 \<Rightarrow> u8 \<Rightarrow> u64 option" where
  "strchr m s c =
     (if m s \<noteq> 0 then (if m s = c then Some s else strchr m (s + 1) c) else Some 0)"

partial_function (option) atoi_loop :: "memory \<Rightarrow> u64 \<Rightarrow> int \<Rightarrow> int option" where
  "atoi_loop m s n =
     (if 48 \<le> uint (m s) \<and> uint (m s) \<le> 57
      then atoi_loop m (s + 1) (c_int (c_int (c_int (n * 10) + uint (m s)) - 48))
      else Some n)"

definition atoi :: "memory \<Rightarrow> u64 \<Rightarrow> int option" where
  "atoi m s = atoi_loop m s 0"

section \<open>Blocks of memory\<close>

fun memset_loop :: "nat \<Rightarrow> u64 \<Rightarrow> int \<Rightarrow> u8 \<Rightarrow> memory \<Rightarrow> memory" where
  "memset_loop 0 dst i c m = m"
| "memset_loop (Suc n) dst i c m = memset_loop n dst (c_int (i + 1)) c (m(dst + word_of_int i := c))"

definition u_memset :: "u64 \<Rightarrow> int \<Rightarrow> u32 \<Rightarrow> memory \<Rightarrow> memory" where
  "u_memset dst c n m = memset_loop (unat n) dst 0 (word_of_int c) m"

fun move_up :: "nat \<Rightarrow> u64 \<Rightarrow> u64 \<Rightarrow> memory \<Rightarrow> memory" where
  "move_up 0 dst src m = m"
| "move_up (Suc n) dst src m = move_up n (dst + 1) (src + 1) (m(dst := m src))"

fun move_down :: "nat \<Rightarrow> u64 \<Rightarrow> u64 \<Rightarrow> memory \<Rightarrow> memory" where
  "move_down 0 dst src m = m"
| "move_down (Suc n) dst src m = move_down n (dst - 1) (src - 1) (m(dst - 1 := m (src - 1)))"

definition u_memmove :: "u64 \<Rightarrow> u64 \<Rightarrow> int \<Rightarrow> memory \<Rightarrow> memory" where
  "u_memmove dst src n m =
     (if src > dst then move_up (nat n) dst src m
      else move_down (nat n) (dst + word_of_int n) (src + word_of_int n) m)"

fun memcmp_loop :: "nat \<Rightarrow> u64 \<Rightarrow> u64 \<Rightarrow> memory \<Rightarrow> int" where
  "memcmp_loop 0 p1 p2 m = 0"
| "memcmp_loop (Suc n) p1 p2 m =
     (if m p1 \<noteq> m p2 then uint (m p1) - uint (m p2) else memcmp_loop n (p1 + 1) (p2 + 1) m)"

definition memcmp :: "u64 \<Rightarrow> u64 \<Rightarrow> u32 \<Rightarrow> memory \<Rightarrow> int" where
  "memcmp s1 s2 n m = memcmp_loop (unat n) s1 s2 m"

text \<open>\<open>memcpy\<close> passes its \<open>uint\<close> count to the \<open>int\<close> parameter of \<open>memmove\<close>.\<close>

definition u_memcpy :: "u64 \<Rightarrow> u64 \<Rightarrow> u32 \<Rightarrow> memory \<Rightarrow> memory" where
  "u_memcpy dst src n m = u_memmove dst src (sint n) m"

section \<open>System calls\<close>

text \<open>\<open>rd\<close> is \<open>read(0, &c, 1)\<close>: the number of bytes read and the byte.\<close>

fun gets_loop :: "('s \<Rightarrow> int \<times> u8 \<times> 's) \<Rightarrow> nat \<Rightarrow> u64 \<Rightarrow> 's \<Rightarrow> memory \<Rightarrow> u64 \<times> 's \<times> memory" where
  "gets_loop rd 0 p s m = (p, s, m)"
| "gets_loop rd (Suc n) p s m =
     (case rd s of (cc, c, s') \<Rightarrow>
        if cc < 1 then (p, s', m)
        else let m' = m(p := c) in
          if c = 10 \<or> c = 13 then (p + 1, s', m') else gets_loop rd n (p + 1) s' m')"

definition gets :: "('s \<Rightarrow> int \<times> u8 \<times> 's) \<Rightarrow> u64 \<Rightarrow> int \<Rightarrow> 's \<Rightarrow> memory \<Rightarrow> 's \<times> memory" where
  "gets rd buf mx s m =
     (case gets_loop rd (nat (mx - 1)) buf s m of (p, s', m') \<Rightarrow> (s', m'(p := 0)))"

record ('p, 's, 'st) stat_calls =
  sc_open :: "'p \<Rightarrow> int \<Rightarrow> 's \<Rightarrow> int \<times> 's"
  sc_fstat :: "int \<Rightarrow> 's \<Rightarrow> (int \<times> 'st) \<times> 's"
  sc_close :: "int \<Rightarrow> 's \<Rightarrow> 's"

definition u_stat :: "('p, 's, 'st, 'z) stat_calls_scheme \<Rightarrow> 'p \<Rightarrow> 'st \<Rightarrow> 's \<Rightarrow> (int \<times> 'st) \<times> 's" where
  "u_stat c n st s =
     (let (fd, s1) = sc_open c n 0 s in
      if fd < 0 then ((-1, st), s1)
      else let (r, s2) = sc_fstat c fd s1 in (r, sc_close c fd s2))"

text \<open>\<open>ugetpid\<close> reads the process id in the page that the kernel shares with the process.\<close>

definition ugetpid :: "memory \<Rightarrow> int" where
  "ugetpid m = sint (load_le 4 m USYSCALL :: u32)"

section \<open>Moving blocks\<close>

lemma shift_neq: "i < j \<Longrightarrow> j - i < 2 ^ 64 \<Longrightarrow> a + of_nat i \<noteq> (a + of_nat j :: u64)"
proof
  assume ij: "i < j" "j - i < 2 ^ 64" and "a + of_nat i = (a + of_nat j :: u64)"
  then have "of_nat (j - i) = (0 :: u64)" by (simp add: of_nat_diff)
  then have "unat (of_nat (j - i) :: u64) = 0" by simp
  with ij show False by (simp only: unat_of_nat) simp
qed

lemma unat_shift: "unat a + k < 2 ^ 64 \<Longrightarrow> unat (a + of_nat k :: u64) = unat a + k"
  by (subst unat_add_lem[THEN iffD1]) (simp_all add: unat_of_nat)

lemma move_up_out: "(\<And>j. j < n \<Longrightarrow> x \<noteq> d + of_nat j) \<Longrightarrow> move_up n d s m x = m x"
proof (induction n arbitrary: d s m)
  case (Suc n)
  have "x \<noteq> d" using Suc.prems[of 0] by simp
  moreover have "x \<noteq> d + 1 + of_nat j" if "j < n" for j using Suc.prems[of "Suc j"] that by (simp add: algebra_simps)
  ultimately show ?case using Suc.IH by simp
qed simp

lemma move_up_in:
  assumes "unat d < unat s" "unat s + n \<le> 2 ^ 64" "j < n"
  shows "move_up n d s m (d + of_nat j) = m (s + of_nat j)"
  using assms
proof (induction n arbitrary: d s m j)
  case (Suc n)
  have us: "unat (s + of_nat k) = unat s + k" if "k \<le> n" for k using Suc.prems(2) that by (intro unat_shift) simp
  have ud: "unat (d + 1) = unat d + 1" using Suc.prems(1,2) unat_shift[of d 1] by simp
  show ?case
  proof (cases j)
    case 0
    have "d \<noteq> d + 1 + of_nat k" if "k < n" for k
      using shift_neq[of 0 "Suc k" d] Suc.prems that by (simp add: algebra_simps)
    then show ?thesis using move_up_out[of n d "d + 1" "s + 1" "m(d := m s)"] 0 by simp
  next
    case (Suc k)
    have "unat (s + of_nat (Suc k)) = unat s + Suc k" using Suc.prems Suc by (intro us) simp
    then have ne: "s + of_nat (Suc k) \<noteq> d" using Suc.prems(1) by auto
    have "move_up n (d + 1) (s + 1) (m(d := m s)) (d + 1 + of_nat k) = (m(d := m s)) (s + 1 + of_nat k)"
    proof (cases n)
      case (Suc n')
      have "unat (s + 1) = unat s + 1" using us[of 1] Suc by simp
      then show ?thesis using Suc.prems(1-3) \<open>j = Suc k\<close> ud by (intro Suc.IH) simp_all
    qed (use Suc.prems Suc in simp)
    with Suc ne show ?thesis by (simp add: algebra_simps)
  qed
qed simp

lemma move_down_out: "(\<And>j. j < n \<Longrightarrow> x \<noteq> d + of_nat j) \<Longrightarrow> move_down n (d + of_nat n) (s + of_nat n) m x = m x"
proof (induction n arbitrary: m)
  case (Suc n)
  have "x \<noteq> d + of_nat n" using Suc.prems by simp
  then show ?case
    using Suc.IH[of "m(d + of_nat n := m (s + of_nat n))"] Suc.prems by (simp add: algebra_simps fun_upd_def)
qed simp

lemma move_down_in:
  assumes "unat s \<le> unat d" "unat d + n \<le> 2 ^ 64" "j < n"
  shows "move_down n (d + of_nat n) (s + of_nat n) m (d + of_nat j) = m (s + of_nat j)"
  using assms
proof (induction n arbitrary: m)
  case (Suc n)
  let ?m = "m(d + of_nat n := m (s + of_nat n))"
  have step: "move_down (Suc n) (d + of_nat (Suc n)) (s + of_nat (Suc n)) m = move_down n (d + of_nat n) (s + of_nat n) ?m"
    by (simp add: algebra_simps)
  show ?case
  proof (cases "j = n")
    case True
    have "move_down n (d + of_nat n) (s + of_nat n) ?m (d + of_nat n) = ?m (d + of_nat n)"
      by (rule move_down_out) (use shift_neq[of _ n d] Suc.prems(2) in force)
    then show ?thesis unfolding step True by simp
  next
    case False
    then have j: "j < n" using Suc.prems(3) by simp
    have "unat (s + of_nat j) = unat s + j" "unat (d + of_nat n) = unat d + n"
      using Suc.prems j by (auto intro!: unat_shift)
    then have "s + of_nat j \<noteq> d + of_nat n" using Suc.prems(1) j by auto
    moreover have "move_down n (d + of_nat n) (s + of_nat n) ?m (d + of_nat j) = ?m (s + of_nat j)"
      using Suc.prems j by (intro Suc.IH) simp_all
    ultimately show ?thesis unfolding step by simp
  qed
qed simp

lemma write_bytes_eqI:
  assumes "\<And>j. j < length bs \<Longrightarrow> m' (d + of_nat j) = bs ! j"
    and "\<And>x. (\<And>j. j < length bs \<Longrightarrow> x \<noteq> d + of_nat j) \<Longrightarrow> m' x = m x"
    and "length bs \<le> 2 ^ 64"
  shows "m' = write_bytes m d bs"
proof
  fix x
  have x: "x = d + of_nat (unat (x - d))" by simp
  show "m' x = write_bytes m d bs x"
  proof (cases "unat (x - d) < length bs")
    case True
    then show ?thesis using assms(1)[of "unat (x - d)"] x by (simp add: write_bytes_def)
  next
    case False
    have "x \<noteq> d + of_nat j" if "j < length bs" for j
    proof
      assume "x = d + of_nat j"
      then have "unat (x - d) = j" using that assms(3) by (simp add: unat_of_nat)
      with that False show False by simp
    qed
    with assms(2)[of x] False show ?thesis by (simp add: write_bytes_def)
  qed
qed

text \<open>
  C36: \<open>memmove\<close> copies correctly also when source and destination overlap: afterwards the destination holds the bytes that the
  source held before the call and no other byte has changed. A count that is not positive changes nothing.
\<close>

theorem memmove_overlap:
  assumes "unat dst + nat n \<le> 2 ^ 64" "unat src + nat n \<le> 2 ^ 64"
  shows "u_memmove dst src n m = write_bytes m dst (read_bytes m src (nat n))"
proof (rule write_bytes_eqI)
  fix j assume "j < length (read_bytes m src (nat n))"
  then have j: "j < nat n" and n: "word_of_int n = (of_nat (nat n) :: u64)" by simp_all
  show "u_memmove dst src n m (dst + of_nat j) = read_bytes m src (nat n) ! j"
  proof (cases "src > dst")
    case True
    with move_up_in[of dst src "nat n" j m] assms j show ?thesis
      by (simp add: u_memmove_def read_bytes_def word_less_nat_alt)
  next
    case False
    with move_down_in[of src dst "nat n" j m] assms j show ?thesis
      unfolding u_memmove_def n by (simp add: read_bytes_def word_less_nat_alt not_less)
  qed
next
  fix x assume x: "\<And>j. j < length (read_bytes m src (nat n)) \<Longrightarrow> x \<noteq> dst + of_nat j"
  show "u_memmove dst src n m x = m x"
  proof (cases "0 \<le> n")
    case True
    then have n: "word_of_int n = (of_nat (nat n) :: u64)" by simp
    show ?thesis unfolding u_memmove_def n using x by (auto intro: move_up_out move_down_out)
  next
    case False
    then show ?thesis by (simp add: u_memmove_def)
  qed
qed (use assms in simp)

definition mem3 :: memory where
  "mem3 = (\<lambda>_. 0)(0x1000 := 7, 0x1001 := 8, 0x1002 := 9)"

theorem memmove_overlap_witness: "u_memmove 0x1001 0x1000 3 mem3 = write_bytes mem3 0x1001 [7, 8, 9]"
proof -
  have "[0..<3] = [0, 1, 2 :: nat]" by (simp add: upt_rec)
  then have "read_bytes mem3 0x1000 3 = [7, 8, 9]" by (simp add: read_bytes_def mem3_def)
  then show ?thesis using memmove_overlap[of "0x1001" 3 "0x1000" mem3] by simp
qed

section \<open>Strings as lists\<close>

primrec cstring :: "memory \<Rightarrow> u64 \<Rightarrow> u8 list \<Rightarrow> bool" where
  "cstring m p [] \<longleftrightarrow> m p = 0"
| "cstring m p (c # cs) \<longleftrightarrow> m p = c \<and> c \<noteq> 0 \<and> cstring m (p + 1) cs"

lemma cstring_end: "cstring m p cs \<Longrightarrow> m (p + of_nat (length cs)) = 0"
  by (induction cs arbitrary: p) (auto simp flip: add.assoc)

lemma strlen_loop_cstring:
  "cstring m (s + of_nat k) cs \<Longrightarrow> k + length cs < 2 ^ 31 \<Longrightarrow>
     strlen_loop m s (int k) = Some (of_nat (k + length cs))"
proof (induction cs arbitrary: k)
  case Nil
  then show ?case by (simp add: strlen_loop.simps)
next
  case (Cons c cs)
  have "c_int (int k + 1) = int (Suc k)" using Cons.prems(2) c_int_of_nat[of "Suc k"] by (simp add: add.commute)
  with Cons.IH[of "Suc k"] Cons.prems show ?case
    by (subst strlen_loop.simps) (simp add: algebra_simps)
qed

lemma strlen_cstring: "cstring m s cs \<Longrightarrow> length cs < 2 ^ 31 \<Longrightarrow> strlen m s = Some (of_nat (length cs))"
  using strlen_loop_cstring[of m s 0 cs] by (simp add: strlen_def)

lemma strchr_cstring:
  "cstring m s cs \<Longrightarrow> c \<noteq> 0 \<Longrightarrow> strchr m s c =
     Some (if c \<in> set cs then s + of_nat (length (takeWhile (\<lambda>x. x \<noteq> c) cs)) else 0)"
proof (induction cs arbitrary: s)
  case Nil
  then show ?case by (simp add: strchr.simps)
next
  case (Cons d cs)
  then show ?case by (subst strchr.simps) (auto simp: algebra_simps)
qed

text \<open>The order of strings that \<open>strcmp\<close> computes.\<close>

fun string_diff :: "u8 list \<Rightarrow> u8 list \<Rightarrow> int" where
  "string_diff [] [] = 0"
| "string_diff [] (d # ds) = - uint d"
| "string_diff (c # cs) [] = uint c"
| "string_diff (c # cs) (d # ds) = (if c = d then string_diff cs ds else uint c - uint d)"

lemma strcmp_cstring:
  "cstring m p a \<Longrightarrow> cstring m q b \<Longrightarrow> strcmp m p q = Some (string_diff a b)"
proof (induction a b arbitrary: p q rule: string_diff.induct)
  case (4 c cs d ds)
  then show ?case by (subst strcmp.simps) auto
qed (subst strcmp.simps; auto)+

lemma string_diff_0: "0 \<notin> set a \<Longrightarrow> 0 \<notin> set b \<Longrightarrow> string_diff a b = 0 \<longleftrightarrow> a = b"
  by (induction a b rule: string_diff.induct) (auto simp: word_uint_eq_iff)

lemma string_diff_less:
  "0 \<notin> set a \<Longrightarrow> 0 \<notin> set b \<Longrightarrow> string_diff a b < 0 \<longleftrightarrow> (a, b) \<in> lexord {(x, y). x < y}"
  by (induction a b rule: string_diff.induct)
     (auto simp: word_less_def word_uint_eq_iff less_le)

lemma cstring_nonzero: "cstring m p cs \<Longrightarrow> 0 \<notin> set cs"
  by (induction cs arbitrary: p) auto

text \<open>
  On strings that end with a nul byte \<open>strcmp\<close> ends, and its result is 0 exactly for equal strings and negative exactly when the first
  string is before the second in the lexicographic order of bytes.
\<close>

theorem strcmp_lexicographic:
  assumes "cstring m p a" "cstring m q b"
  shows "\<exists>r. strcmp m p q = Some r \<and> (r = 0 \<longleftrightarrow> a = b) \<and> (r < 0 \<longleftrightarrow> (a, b) \<in> lexord {(x, y). x < y})"
  using strcmp_cstring[OF assms] string_diff_0 string_diff_less cstring_nonzero[OF assms(1)] cstring_nonzero[OF assms(2)]
  by blast

theorem strcmp_lexicographic_witness:
  "\<exists>r. strcmp mem3 0x1000 0x1001 = Some r \<and> r < 0"
proof -
  have "cstring mem3 0x1000 [7, 8, 9]" "cstring mem3 0x1001 [8, 9]" by (simp_all add: mem3_def)
  from strcmp_lexicographic[OF this] show ?thesis by (auto simp: word_less_def)
qed

text \<open>\<open>strcpy\<close> to a place that does not overlap the string.\<close>

lemma strcpy_cstring:
  assumes "cstring m t cs" "\<And>i j. i \<le> length cs \<Longrightarrow> j \<le> length cs \<Longrightarrow> s + of_nat i \<noteq> t + of_nat j"
    and "length cs < 2 ^ 64 - 1"
  shows "\<exists>m'. strcpy s t m = Some m' \<and> cstring m' s cs \<and> (\<forall>x. (\<forall>i\<le>length cs. x \<noteq> s + of_nat i) \<longrightarrow> m' x = m x)"
  using assms
proof (induction cs arbitrary: s t m)
  case Nil
  then show ?case by (auto simp: strcpy.simps)
next
  case (Cons c cs)
  let ?m = "m(s := m t)"
  have ov: "s + 1 + of_nat i \<noteq> t + 1 + of_nat j" if "i \<le> length cs" "j \<le> length cs" for i j
    using Cons.prems(2)[of "Suc i" "Suc j"] that by (simp add: algebra_simps)
  have st: "s \<noteq> t + 1 + of_nat j" if "j \<le> length cs" for j
    using Cons.prems(2)[of 0 "Suc j"] that by (simp add: algebra_simps)
  have keep: "cstring ?m p ds = cstring m p ds" if "\<And>j. j \<le> length ds \<Longrightarrow> s \<noteq> p + of_nat j" for p ds
    using that
  proof (induction ds arbitrary: p)
    case (Cons d ds)
    have "s \<noteq> p" using Cons.prems[of 0] by simp
    moreover have "s \<noteq> p + 1 + of_nat j" if "j \<le> length ds" for j
      using Cons.prems[of "Suc j"] that by (simp add: algebra_simps)
    ultimately show ?case using Cons.IH[of "p + 1"] by auto
  qed auto
  have "cstring ?m (t + 1) cs" using keep[of cs "t + 1"] st Cons.prems(1) by simp
  moreover have "length cs < 2 ^ 64 - 1" using Cons.prems(3) by simp
  ultimately obtain m' where m': "strcpy (s + 1) (t + 1) ?m = Some m'" "cstring m' (s + 1) cs"
    "\<forall>x. (\<forall>i\<le>length cs. x \<noteq> s + 1 + of_nat i) \<longrightarrow> m' x = ?m x"
    using Cons.IH[of ?m "t + 1" "s + 1"] ov by blast
  have "s \<noteq> s + 1 + of_nat i" if "i \<le> length cs" for i
    using shift_neq[of 0 "Suc i" s] that Cons.prems(3) by (simp add: algebra_simps)
  then have ms: "m' s = m t" using m'(3) by simp
  have "m' x = m x" if "\<forall>i\<le>length (c # cs). x \<noteq> s + of_nat i" for x
  proof -
    have "x \<noteq> s" using that[rule_format, of 0] by simp
    moreover have "\<forall>i\<le>length cs. x \<noteq> s + 1 + of_nat i"
    proof (intro allI impI)
      fix i assume "i \<le> length cs"
      then show "x \<noteq> s + 1 + of_nat i" using that[rule_format, of "Suc i"] by (simp add: algebra_simps)
    qed
    ultimately show ?thesis using m'(3) by simp
  qed
  moreover have "strcpy s t m = Some m'" using m'(1) Cons.prems(1) by (subst strcpy.simps) (simp add: Let_def)
  ultimately show ?case using ms m'(2) Cons.prems(1) by auto
qed

lemma c_int_Suc: "Suc k < 2 ^ 31 \<Longrightarrow> c_int (int k + 1) = int (Suc k)"
  using c_int_of_nat[of "Suc k"] by (simp add: add.commute)

lemma memset_out:
  "i + n < 2 ^ 31 \<Longrightarrow> (\<And>j. j < n \<Longrightarrow> x \<noteq> d + of_nat (i + j)) \<Longrightarrow> memset_loop n d (int i) c m x = m x"
proof (induction n arbitrary: i m)
  case (Suc n)
  have "x \<noteq> d + of_nat i" using Suc.prems(2)[of 0] by simp
  moreover have "x \<noteq> d + of_nat (Suc i + j)" if "j < n" for j using Suc.prems(2)[of "Suc j"] that by simp
  ultimately show ?case using Suc.IH[of "Suc i"] Suc.prems(1) c_int_Suc[of i] by simp
qed simp

lemma memset_in: "i + n < 2 ^ 31 \<Longrightarrow> j < n \<Longrightarrow> memset_loop n d (int i) c m (d + of_nat (i + j)) = c"
proof (induction n arbitrary: i j m)
  case (Suc n)
  have s: "c_int (int i + 1) = int (Suc i)" using Suc.prems(1) by (intro c_int_Suc) simp
  show ?case
  proof (cases j)
    case 0
    have "d + of_nat i \<noteq> d + of_nat (Suc i + k)" if "k < n" for k
      using shift_neq[of i "Suc i + k" d] that Suc.prems(1) by simp
    then show ?thesis using memset_out[of "Suc i" n "d + of_nat i" d c "m(d + of_nat i := c)"] Suc.prems(1) 0 by (simp add: s)
  next
    case (Suc k)
    then show ?thesis using Suc.IH[of "Suc i" k] Suc.prems by (simp add: s)
  qed
qed simp

lemma u_memset_bytes:
  "unat n < 2 ^ 31 \<Longrightarrow> u_memset dst c n m = write_bytes m dst (replicate (unat n) (word_of_int c))"
  using memset_in[of 0 "unat n"] memset_out[of 0 "unat n"]
  by (intro write_bytes_eqI) (auto simp: u_memset_def)

lemma memcmp_loop_0:
  "memcmp_loop n p q m = 0 \<longleftrightarrow> read_bytes m p n = read_bytes m q n"
proof (induction n arbitrary: p q)
  case (Suc n)
  have u: "read_bytes m p (Suc n) = m p # read_bytes m (p + 1) n" for p
    by (simp add: read_bytes_def upt_conv_Cons map_Suc_upt[symmetric] o_def algebra_simps del: upt_Suc)
  show ?case using Suc.IH by (auto simp: u word_uint_eq_iff)
qed (simp add: read_bytes_def)

section \<open>Numbers\<close>

text \<open>The value of a list of decimal digits in ASCII, after the digits of \<open>n\<close>.\<close>

definition is_digit :: "u8 \<Rightarrow> bool" where
  "is_digit c \<longleftrightarrow> 48 \<le> uint c \<and> uint c \<le> 57"

primrec dvalue :: "nat \<Rightarrow> u8 list \<Rightarrow> nat" where
  "dvalue n [] = n"
| "dvalue n (c # cs) = dvalue (n * 10 + (unat c - 48)) cs"

lemma dvalue_mono: "n \<le> dvalue n cs"
proof (induction cs arbitrary: n)
  case (Cons c cs)
  then have "n * 10 + (unat c - 48) \<le> dvalue (n * 10 + (unat c - 48)) cs" .
  then show ?case by simp
qed simp

lemma dvalue_append: "dvalue n (cs @ ds) = dvalue (dvalue n cs) ds"
  by (induction cs arbitrary: n) auto

lemma c_int_add_left [simp]: "c_int (c_int x + y) = c_int (x + y)" "c_int (c_int x - y) = c_int (x - y)"
  by (simp_all add: c_int_def)

lemma atoi_loop_digits:
  assumes "cstring m s (ds @ cs)" "\<forall>d\<in>set ds. is_digit d" "cs = [] \<or> \<not> is_digit (hd cs)" "dvalue n ds < 2 ^ 31"
  shows "atoi_loop m s (int n) = Some (int (dvalue n ds))"
  using assms
proof (induction ds arbitrary: s n)
  case Nil
  then have "\<not> (48 \<le> uint (m s) \<and> uint (m s) \<le> 57)" by (cases cs) (auto simp: is_digit_def)
  then show ?case by (subst atoi_loop.simps) auto
next
  case (Cons d ds)
  let ?n = "n * 10 + (unat d - 48)"
  have d: "m s = d" "48 \<le> uint d" "uint d \<le> 57" using Cons.prems(1,2) by (auto simp: is_digit_def)
  have u: "uint d = int (unat d)" by simp
  have "int ?n = int n * 10 + uint d - 48" using d(2) unfolding u by (simp add: of_nat_diff del: of_nat_unat)
  moreover have "?n < 2 ^ 31" using dvalue_mono[of ?n ds] Cons.prems(4) by simp
  ultimately have "c_int (c_int (c_int (int n * 10) + uint (m s)) - 48) = int ?n"
    using d(1) c_int_of_nat[of ?n] by (simp add: add_diff_eq)
  moreover have "atoi_loop m (s + 1) (int ?n) = Some (int (dvalue ?n ds))"
    using Cons.prems by (intro Cons.IH) auto
  ultimately show ?case using d by (subst atoi_loop.simps) simp
qed

lemma atoi_digits:
  assumes "cstring m s (ds @ cs)" "\<forall>d\<in>set ds. is_digit d" "cs = [] \<or> \<not> is_digit (hd cs)" "dvalue 0 ds < 2 ^ 31"
  shows "atoi m s = Some (int (dvalue 0 ds))"
  using atoi_loop_digits[OF assms] by (simp add: atoi_def)

section \<open>Reading a line\<close>

text \<open>The input as a list of bytes.\<close>

fun list_input :: "u8 list \<Rightarrow> int \<times> u8 \<times> u8 list" where
  "list_input [] = (0, 0, [])"
| "list_input (c # cs) = (1, c, cs)"

fun line_of :: "nat \<Rightarrow> u8 list \<Rightarrow> u8 list" where
  "line_of 0 cs = []"
| "line_of (Suc n) [] = []"
| "line_of (Suc n) (c # cs) = (if c = 10 \<or> c = 13 then [c] else c # line_of n cs)"

lemma write_bytes_Cons:
  assumes "length l < 2 ^ 64 - 1"
  shows "write_bytes (m(p := c)) (p + 1) l = write_bytes m p (c # l)"
proof (rule write_bytes_eqI)
  fix j assume "j < length (c # l)"
  then show "write_bytes (m(p := c)) (p + 1) l (p + of_nat j) = (c # l) ! j"
    using assms by (cases j) (simp_all add: write_bytes_def unat_of_nat unsigned_minus_1_eq_mask mask_eq_exp_minus_1)
next
  fix x assume x: "\<And>j. j < length (c # l) \<Longrightarrow> x \<noteq> p + of_nat j"
  have "x \<noteq> p" using x[of 0] by simp
  moreover have "\<not> unat (x - (p + 1)) < length l"
  proof
    assume "unat (x - (p + 1)) < length l"
    then have "x \<noteq> p + of_nat (Suc (unat (x - (p + 1))))" by (intro x) simp
    then show False by simp
  qed
  ultimately show "write_bytes (m(p := c)) (p + 1) l x = m x" by (simp add: write_bytes_def)
qed (use assms in simp)

lemma length_line_of: "length (line_of n cs) \<le> n"
  by (induction n cs rule: line_of.induct) auto

lemma gets_loop_line:
  "n < 2 ^ 64 - 1 \<Longrightarrow> gets_loop list_input n p cs m =
     (p + of_nat (length (line_of n cs)), drop (length (line_of n cs)) cs, write_bytes m p (line_of n cs))"
proof (induction n cs arbitrary: p m rule: line_of.induct)
  case (3 n c cs)
  have l: "length (line_of n cs) < 2 ^ 64 - 1" using length_line_of[of n cs] "3.prems" by simp
  have one: "m(p := c) = write_bytes m p [c]"
    using write_bytes_Cons[of "[]" m p c] by (simp add: write_bytes_def[of _ _ "[]"] fun_upd_def)
  show ?case
    using 3 write_bytes_Cons[OF l, of m p c] by (simp add: one[symmetric] algebra_simps) (auto simp: fun_upd_def)
qed (auto simp: write_bytes_def)

text \<open>\<open>gets\<close> stores at most \<open>max - 1\<close> bytes of the line and a nul byte after them, and leaves the rest of the input.\<close>

lemma gets_line:
  assumes "mx < 2 ^ 31" "l = line_of (nat (mx - 1)) cs"
  shows "gets list_input buf mx cs m = (drop (length l) cs, (write_bytes m buf l)(buf + of_nat (length l) := 0)) \<and>
    length l \<le> nat (mx - 1)"
  using gets_loop_line[of "nat (mx - 1)" buf cs m] length_line_of[of "nat (mx - 1)" cs] assms
  by (simp add: gets_def)

end
