(* ===== verification/Utilities.thy ===== *)
theory Utilities
  imports Ulib Sysfile "HOL-Library.Signed_Division"
begin

text \<open>
  The programs of the utilities lab (\<open>xv6-lab-utilities\<close>: \<open>xargs.c\<close>, \<open>primes.c\<close>, \<open>find.c\<close>, \<open>sleep.c\<close>) and \<open>trace.c\<close> of the system call
  lab. A C string is a list of bytes without its null byte, and a local array is a list of the array's length whose initial contents, which C
  leaves open, are an argument; writing past its end is a fault. The system calls that a program makes are functions on the state of the
  system, collected in a record; what a theorem needs of them is a named hypothesis.
\<close>

section \<open>Arguments from the input\<close>

text \<open>
  \<open>xargs\<close> collects pointers in \<open>new_argv\<close>: to its own arguments, into \<open>buf\<close>, and the null pointer that ends them. \<open>x_read\<close> is
  \<open>read(0, &ch, 1)\<close>, which returns a count and leaves a character in \<open>ch\<close>; \<open>x_fork\<close> gives the value that the parent sees; \<open>x_run\<close> is what happens from
  the call of \<open>exec\<close> in the child until \<open>wait\<close> returns in the parent. The arguments of every \<open>exec\<close> are recorded.
\<close>

datatype xptr = Argv nat | Buf nat | Null

record 's xargs_calls =
  x_read :: "u8 \<Rightarrow> 's \<Rightarrow> int \<times> u8 \<times> 's"
  x_fork :: "'s \<Rightarrow> int \<times> 's"
  x_run :: "u8 list list \<Rightarrow> 's \<Rightarrow> 's"

record xargs_vars =
  new_argv :: "xptr list"
  xbuf :: "u8 list"
  cur_buf :: nat
  cur_argv :: nat

definition store_at :: "nat \<Rightarrow> 'a \<Rightarrow> 'a list \<Rightarrow> 'a list res" where
  "store_at i v xs = (if i < length xs then Inr (xs[i := v]) else Inl Fault)"

fun ptr_string :: "u8 list list \<Rightarrow> u8 list \<Rightarrow> xptr \<Rightarrow> u8 list" where
  "ptr_string argv buf (Argv i) = argv ! i"
| "ptr_string argv buf (Buf i) = cstr (drop i buf)"
| "ptr_string argv buf Null = []"

definition xargs_args :: "u8 list list \<Rightarrow> xargs_vars \<Rightarrow> u8 list list" where
  "xargs_args argv v = map (ptr_string argv (xbuf v)) (takeWhile (\<lambda>p. p \<noteq> Null) (new_argv v))"

type_synonym 's xargs_state = "'s \<times> xargs_vars \<times> u8 list list list"

definition xargs_line :: "'s xargs_calls \<Rightarrow> u8 list list \<Rightarrow> 's xargs_state \<Rightarrow> 's xargs_state" where
  "xargs_line c argv = (\<lambda>(s, v, hist).
     let (child, s1) = x_fork c s; args = xargs_args argv v;
         v' = v\<lparr>cur_buf := 0, cur_argv := length argv\<rparr> in
     if child = -1 then (s1, v', hist) else (x_run c args s1, v', hist @ [args]))"

definition xargs_char :: "'s xargs_calls \<Rightarrow> u8 list list \<Rightarrow> u8 \<Rightarrow> 's xargs_state \<Rightarrow> 's xargs_state res" where
  "xargs_char c argv ch = (\<lambda>(s, v, hist).
     if ch = 32 then
       bindR (store_at (cur_buf v) 0 (xbuf v)) (\<lambda>b.
       bindR (store_at (cur_argv v) (Buf (cur_buf v + 1)) (new_argv v)) (\<lambda>na.
       Inr (s, v\<lparr>xbuf := b, new_argv := na, cur_buf := cur_buf v + 1, cur_argv := cur_argv v + 1\<rparr>, hist)))
     else if ch = 10 then
       bindR (store_at (cur_buf v) 0 (xbuf v)) (\<lambda>b.
       bindR (store_at (cur_argv v) Null (new_argv v)) (\<lambda>na.
       Inr (xargs_line c argv (s, v\<lparr>xbuf := b, new_argv := na\<rparr>, hist))))
     else
       bindR (store_at (cur_buf v) ch (xbuf v)) (\<lambda>b.
       Inr (s, v\<lparr>xbuf := b, cur_buf := cur_buf v + 1\<rparr>, hist)))"

partial_function (option) xargs_loop ::
    "'s xargs_calls \<Rightarrow> u8 list list \<Rightarrow> u8 \<Rightarrow> 's xargs_state \<Rightarrow> 's xargs_state res option" where
  "xargs_loop c argv ch st =
     (case x_read c ch (fst st) of (r, ch', s) \<Rightarrow>
        if r = 0 then Some (Inr (s, snd st))
        else case xargs_char c argv ch' (s, snd st) of
               Inl e \<Rightarrow> Some (Inl e)
             | Inr st' \<Rightarrow> xargs_loop c argv ch' st')"

definition xargs :: "'s xargs_calls \<Rightarrow> u8 list list \<Rightarrow> xptr list \<Rightarrow> u8 list \<Rightarrow> u8 \<Rightarrow> 's \<Rightarrow> ('s \<times> u8 list list list) res option" where
  "xargs c argv na0 buf0 ch0 s =
     (let cur = max 1 (length argv) in
      case bindR (fold_res (\<lambda>i. store_at (i - 1) (Argv i)) [1..<length argv] na0) (store_at (cur - 1) (Buf 0)) of
        Inl e \<Rightarrow> Some (Inl e)
      | Inr na \<Rightarrow>
          map_option (\<lambda>r. bindR r (\<lambda>(s', v, hist). Inr (s', hist)))
            (xargs_loop c argv ch0 (s, \<lparr>new_argv = na, xbuf = buf0, cur_buf = 0, cur_argv = cur\<rparr>, [])))"

section \<open>Prime numbers through pipes\<close>

text \<open>
  Each process of \<open>primes\<close> reads the numbers that its parent wrote to a pipe and passes on those that its first one does not divide.
  \<open>buff\<close> is the bytes of the array of 34 integers. \<open>p_fork\<close> gives the value in the parent, and the state in which the child
  goes on; the parent only waits and exits, so the loop follows the child.
\<close>

record ('p, 's) pipe_calls =
  p_pipe :: "'s \<Rightarrow> ('p \<times> 'p) \<times> 's"
  p_write :: "'p \<Rightarrow> u8 list \<Rightarrow> 's \<Rightarrow> 's"
  p_read :: "'p \<Rightarrow> nat \<Rightarrow> 's \<Rightarrow> u8 list \<times> 's"
  p_close :: "'p \<Rightarrow> 's \<Rightarrow> 's"
  p_fork :: "'s \<Rightarrow> int \<times> 's"

definition buff_get :: "u8 list \<Rightarrow> nat \<Rightarrow> int" where
  "buff_get buff i = sint (get_u32 buff i)"

definition buff_put :: "nat \<Rightarrow> int \<Rightarrow> u8 list \<Rightarrow> u8 list" where
  "buff_put i x buff = put_u32 i (word_of_int x) buff"

fun sieve_loop :: "int \<Rightarrow> nat \<Rightarrow> nat \<Rightarrow> nat \<Rightarrow> u8 list \<Rightarrow> nat \<times> u8 list" where
  "sieve_loop prime 0 i cnt buff = (cnt, buff)"
| "sieve_loop prime (Suc n) i cnt buff =
     (if buff_get buff i smod prime \<noteq> 0 then sieve_loop prime n (i + 1) (cnt + 1) (buff_put cnt (buff_get buff i) buff)
      else sieve_loop prime n (i + 1) cnt buff)"

lemma sieve_loop_le: "fst (sieve_loop p n i cnt b) \<le> cnt + n"
  by (induction p n i cnt b rule: sieve_loop.induct) auto

lemma sieve_loop_shrinks:
  assumes "(cnt, b') = sieve_loop (buff_get b 0) n 0 0 b" "0 < n"
  shows "cnt < n"
proof -
  obtain k where n: "n = Suc k" using assms(2) by (cases n) auto
  have "buff_get b 0 smod buff_get b 0 = 0" by (simp add: signed_modulo_int_def signed_divide_int_def sgn_mult)
  then show ?thesis using assms(1) sieve_loop_le[of "buff_get b 0" k 1 0 b] by (cases "sieve_loop (buff_get b 0) k 1 0 b") (auto simp: n)
qed

definition primes_child :: "('p, 's) pipe_calls \<Rightarrow> nat \<Rightarrow> 'p \<Rightarrow> u8 list \<Rightarrow> 's \<Rightarrow> int \<times> nat \<times> 'p \<times> u8 list \<times> 's" where
  "primes_child c sz rd buff s =
     (let (bs, s1) = p_read c rd (4 * sz) s;
          buff1 = bsplice 0 bs buff;
          ((rd', wr'), s2) = p_pipe c (p_close c rd s1);
          prime = buff_get buff1 0;
          (cnt, buff2) = sieve_loop prime sz 0 0 buff1;
          s3 = p_close c wr' (p_write c wr' (take (4 * cnt) buff2) s2) in
      (prime, cnt, rd', buff2, s3))"

lemma primes_child_shrinks: "(prime, cnt, rest) = primes_child c sz rd buff s \<Longrightarrow> 0 < sz \<Longrightarrow> cnt < sz"
  unfolding primes_child_def Let_def by (auto split: prod.splits dest!: sieve_loop_shrinks[OF sym])

function primes_loop :: "('p, 's) pipe_calls \<Rightarrow> nat \<Rightarrow> 'p \<Rightarrow> u8 list \<Rightarrow> 's \<Rightarrow> int list \<Rightarrow> int list \<times> 's" where
  "primes_loop c sz rd buff s out =
     (if sz = 0 then (out, s)
      else case p_fork c s of (child, s1) \<Rightarrow>
        if child = -1 then (out, s1)
        else case primes_child c sz rd buff s1 of (prime, cnt, rd', buff', s2) \<Rightarrow>
          primes_loop c cnt rd' buff' s2 (out @ [prime]))"
  by pat_completeness auto
termination
  by (relation "measure (\<lambda>(c, sz, _). sz)") (auto dest: primes_child_shrinks)

declare primes_loop.simps [simp del]

definition primes :: "('p, 's) pipe_calls \<Rightarrow> u8 list \<Rightarrow> 's \<Rightarrow> int list \<times> 's" where
  "primes c buff0 s =
     (let buff = fold (\<lambda>i. buff_put i (int i + 2)) [0..<34] buff0 in
      case p_pipe c s of ((rd, wr), s1) \<Rightarrow>
        primes_loop c 34 rd buff (p_close c wr (p_write c wr (take (4 * 34) buff) s1)) [])"

section \<open>Searching a directory tree\<close>

text \<open>
  The path of a file, the name that is looked for and the messages of \<open>find\<close> are byte strings. \<open>fc_read\<close> reads one directory
  entry, a number and fourteen bytes of name, and gives \<open>None\<close> when less than an entry is read. A name of fourteen
  bytes has no null byte, so that \<open>strcmp\<close> goes on into what follows the variable \<open>de\<close> on the stack: \<open>fc_after\<close>. The bound on recursion counts
  entries and directories together.
\<close>

record 's find_calls = "(u8 list, 's, u16) stat_calls" +
  fc_read :: "int \<Rightarrow> 's \<Rightarrow> (u16 \<times> u8 list) option \<times> 's"
  fc_after :: "'s \<Rightarrow> u8 list"

datatype find_out = CannotOpen "u8 list" | CannotStat "u8 list" | NotAPath "u8 list" | TooLong | Found "u8 list"

definition add_out :: "find_out list \<Rightarrow> (find_out list \<times> 's) option \<Rightarrow> (find_out list \<times> 's) option" where
  "add_out o1 r = map_option (\<lambda>(o2, s). (o1 @ o2, s)) r"

fun search :: "nat \<Rightarrow> 's find_calls \<Rightarrow> u8 list \<Rightarrow> u8 list \<Rightarrow> 's \<Rightarrow> (find_out list \<times> 's) option"
and search_loop :: "nat \<Rightarrow> 's find_calls \<Rightarrow> u8 list \<Rightarrow> u8 list \<Rightarrow> int \<Rightarrow> 's \<Rightarrow> (find_out list \<times> 's) option" where
  "search 0 c path name s = None"
| "search (Suc k) c path name s =
     (case sc_open c path 0 s of (fd, s1) \<Rightarrow>
        if fd < 0 then Some ([CannotOpen path], s1)
        else case sc_fstat c fd s1 of ((r, ty), s2) \<Rightarrow>
          if r < 0 then Some ([CannotStat path], sc_close c fd s2)
          else if ty = T_FILE then Some ([NotAPath path], sc_close c fd s2)
          else if ty = T_DIR then
            (if length path + 1 + DIRSIZ + 1 > 512 then Some ([TooLong], sc_close c fd s2)
             else map_option (\<lambda>(out, s3). (out, sc_close c fd s3)) (search_loop k c path name fd s2))
          else Some ([], sc_close c fd s2))"
| "search_loop 0 c path name fd s = None"
| "search_loop (Suc k) c path name fd s =
     (case fc_read c fd s of
        (None, s1) \<Rightarrow> Some ([], s1)
      | (Some (ino, dname), s1) \<Rightarrow>
          let de = cstr (dname @ fc_after c s1); buf = path @ [47] @ cstr dname in
          if de = [46] \<or> de = [46, 46] \<or> ino = 0 then search_loop k c path name fd s1
          else case u_stat c buf 0 s1 of ((r, ty), s2) \<Rightarrow>
            if r < 0 then add_out [CannotStat buf] (search_loop k c path name fd s2)
            else if ty = T_DIR then
              (case search k c buf name s2 of None \<Rightarrow> None
               | Some (o1, s3) \<Rightarrow> add_out o1 (search_loop k c path name fd s3))
            else if ty = T_FILE \<and> de = name then add_out [Found buf] (search_loop k c path name fd s2)
            else search_loop k c path name fd s2)"

definition find_main :: "nat \<Rightarrow> 's find_calls \<Rightarrow> u8 list list \<Rightarrow> 's \<Rightarrow> (find_out list \<times> int \<times> 's) option" where
  "find_main k c argv s =
     (if length argv < 3 then Some ([], 1, s)
      else map_option (\<lambda>(out, s'). (out, 0, s')) (search k c (argv ! 1) (argv ! 2) s))"

section \<open>Small programs\<close>

text \<open>\<open>sleep\<close> without an argument only prints; \<open>slp\<close> is the system call.\<close>

definition sleep_main :: "(int \<Rightarrow> 's \<Rightarrow> 's) \<Rightarrow> (u8 list \<Rightarrow> 's \<Rightarrow> 's) \<Rightarrow> memory \<Rightarrow> u64 list \<Rightarrow> 's \<Rightarrow> 's res option" where
  "sleep_main slp print m argv s =
     (if length argv = 1 then Some (Inr (print (map (\<lambda>c. of_nat (of_char c)) ''Please enter thr parameters!'' @ [10]) s))
      else if argv = [] then Some (Inl Fault)
      else map_option (\<lambda>t. Inr (slp t s)) (atoi m (argv ! 1)))"

text \<open>
  \<open>trace\<close> sets the mask and runs the command. The outcome is the exit status 1 of an error, or the arguments of
  \<open>exec\<close>: the pointers in \<open>nargv\<close> up to the first null pointer.
\<close>

datatype trace_out = TraceExit int | TraceExec u64 "u64 list"

definition trace_main ::
    "(int \<Rightarrow> 's \<Rightarrow> int \<times> 's) \<Rightarrow> memory \<Rightarrow> u64 list \<Rightarrow> u64 list \<Rightarrow> 's \<Rightarrow> (trace_out \<times> 's) res option" where
  "trace_main trc m argv nargv0 s =
     (if length argv < 3 \<or> m (argv ! 1) < 48 \<or> m (argv ! 1) > 57 then Some (Inr (TraceExit 1, s))
      else case atoi m (argv ! 1) of None \<Rightarrow> None | Some bits \<Rightarrow>
        case trc bits s of (r, s1) \<Rightarrow>
          if r < 0 then Some (Inr (TraceExit 1, s1))
          else Some (bindR (fold_res (\<lambda>i. store_at (i - 2) (argv ! i)) [2..<min (length argv) MAXARG] nargv0) (\<lambda>nargv.
            Inr (TraceExec (nargv ! 0) (takeWhile (\<lambda>p. p \<noteq> 0) nargv), s1))))"

end
