(* ===== verification/UtilitiesProps.thy ===== *)
theory UtilitiesProps
  imports Utilities
begin

text \<open>
  What the utility programs do: \<open>xargs\<close> runs one command for every line, with the words of the line as arguments; \<open>primes\<close> prints the
  primes; \<open>find\<close> ends on every file system, cyclic ones included, and reports only files of the name it is given.
\<close>

section \<open>xargs\<close>

text \<open>The words of a line, separated by single spaces.\<close>

fun line_words :: "u8 list \<Rightarrow> u8 list list" where
  "line_words [] = [[]]"
| "line_words (ch # l) = (if ch = 32 then [] # line_words l else (case line_words l of w # ws \<Rightarrow> (ch # w) # ws | [] \<Rightarrow> [[ch]]))"

definition cut :: "u8 list \<Rightarrow> u8 list" where
  "cut l = map (\<lambda>ch. if ch = 32 then 0 else ch) l"

fun word_starts :: "nat \<Rightarrow> u8 list \<Rightarrow> nat list" where
  "word_starts b [] = []"
| "word_starts b (ch # l) = (if ch = 32 then [b + 1] else []) @ word_starts (b + 1) l"

lemma length_cut [simp]: "length (cut l) = length l"
  by (simp add: cut_def)

lemma cut_Cons: "cut (ch # l) = (if ch = 32 then 0 else ch) # cut l"
  by (simp add: cut_def)

lemma length_word_starts [simp]: "length (word_starts b l) = count_list l 32"
  by (induction l arbitrary: b) auto

lemma words_in_buffer:
  assumes "0 \<notin> set l"
  shows "map (\<lambda>i. cstr (drop i (pre @ cut l @ 0 # junk))) (length pre # word_starts (length pre) l) = line_words l"
  using assms
proof (induction l arbitrary: pre)
  case Nil
  then show ?case by (simp add: cut_def cstr_def)
next
  case (Cons ch l)
  define x where "x = (if ch = 32 then 0 else ch)"
  have IH: "map (\<lambda>i. cstr (drop i (pre @ cut (ch # l) @ 0 # junk))) (Suc (length pre) # word_starts (Suc (length pre)) l) = line_words l"
    using Cons.IH[of "pre @ [x]"] Cons.prems by (simp add: cut_Cons x_def)
  have "cstr (drop (length pre) (pre @ cut (ch # l) @ 0 # junk)) =
      (if ch = 32 then [] else ch # cstr (drop (Suc (length pre)) (pre @ cut (ch # l) @ 0 # junk)))"
    using Cons.prems by (simp add: cut_Cons cstr_def)
  then show ?case using IH by (auto split: list.splits)
qed

text \<open>The input of the program, the success of \<open>fork\<close>, and commands that leave the input alone.\<close>

definition input_calls :: "'s xargs_calls \<Rightarrow> ('s \<Rightarrow> u8 list) \<Rightarrow> bool" where
  "input_calls c inp \<longleftrightarrow>
     (\<forall>s ch b bs. inp s = b # bs \<longrightarrow> (\<exists>s'. x_read c ch s = (1, b, s') \<and> inp s' = bs)) \<and>
     (\<forall>s ch. inp s = [] \<longrightarrow> fst (x_read c ch s) = 0) \<and>
     (\<forall>s. fst (x_fork c s) > 0 \<and> inp (snd (x_fork c s)) = inp s) \<and>
     (\<forall>a s. inp (x_run c a s) = inp s)"

lemma store_at_splice: "i < length xs \<Longrightarrow> store_at i v xs = Inr (bsplice i [v] xs)"
  by (simp add: store_at_def bsplice_def upd_conv_take_nth_drop)

lemma bsplice_Nil [simp]: "bsplice i [] xs = xs"
  by (simp add: bsplice_def)

definition line_done :: "u8 list \<Rightarrow> xargs_vars \<Rightarrow> xargs_vars" where
  "line_done l v = v\<lparr>xbuf := bsplice (cur_buf v) (cut l) (xbuf v),
     new_argv := bsplice (cur_argv v) (map Buf (word_starts (cur_buf v) l)) (new_argv v),
     cur_buf := cur_buf v + length l, cur_argv := cur_argv v + count_list l 32\<rparr>"

lemma xargs_loop_line:
  assumes c: "input_calls c inp"
    and "inp s = l @ rest" "10 \<notin> set l"
    and "cur_buf v + length l \<le> length (xbuf v)" "cur_argv v + count_list l 32 \<le> length (new_argv v)"
  shows "\<exists>s' ch'. inp s' = rest \<and> xargs_loop c argv ch (s, v, hist) = xargs_loop c argv ch' (s', line_done l v, hist)"
  using assms(2-)
proof (induction l arbitrary: s ch v)
  case Nil
  then show ?case by (auto simp: line_done_def cut_def)
next
  case (Cons b l)
  obtain s1 where s1: "x_read c ch s = (1, b, s1)" "inp s1 = l @ rest"
    using c Cons.prems(1) unfolding input_calls_def by fastforce
  define v1 where "v1 = line_done [b] v"
  have ch: "xargs_char c argv b (s1, v, hist) = Inr (s1, v1, hist)"
    using Cons.prems by (auto simp: xargs_char_def store_at_splice v1_def line_done_def cut_def)
  have "xargs_loop c argv ch (s, v, hist) = xargs_loop c argv b (s1, v1, hist)"
    by (subst xargs_loop.simps) (simp add: s1 ch)
  moreover have "line_done l v1 = line_done (b # l) v"
    using Cons.prems(3,4) by (auto simp: line_done_def v1_def cut_Cons cut_def bsplice_def add.commute)
  moreover have "\<exists>s' ch'. inp s' = rest \<and> xargs_loop c argv b (s1, v1, hist) = xargs_loop c argv ch' (s', line_done l v1, hist)"
    by (rule Cons.IH) (use Cons.prems s1 in \<open>auto simp: v1_def line_done_def cut_def\<close>)
  ultimately show ?case by simp
qed

text \<open>The variables at the start of a line: the program's own arguments and the start of the buffer are in place.\<close>

definition at_line_start :: "u8 list list \<Rightarrow> xargs_vars \<Rightarrow> bool" where
  "at_line_start argv v \<longleftrightarrow> cur_buf v = 0 \<and> cur_argv v = length argv \<and> length (xbuf v) = 128 \<and> length (new_argv v) = MAXARG \<and>
     take (length argv) (new_argv v) = map Argv [1..<length argv] @ [Buf 0]"

definition line_fits :: "u8 list list \<Rightarrow> u8 list \<Rightarrow> bool" where
  "line_fits argv l \<longleftrightarrow> 10 \<notin> set l \<and> 0 \<notin> set l \<and> length l < 128 \<and> length argv + count_list l 32 < MAXARG"

lemma strings_of_argv: "map (ptr_string argv buf) (map Argv [1..<length argv]) = tl argv"
  by (rule nth_equalityI) (auto simp: nth_tl)

lemma bsplice_after: "n = length P \<Longrightarrow> bsplice n ys (P @ R) = P @ ys @ drop (length ys) R"
  by (simp add: bsplice_def)

definition line_ended :: "u8 list \<Rightarrow> xargs_vars \<Rightarrow> xargs_vars" where
  "line_ended l v = (let v1 = line_done l v in
     v1\<lparr>xbuf := bsplice (cur_buf v1) [0] (xbuf v1), new_argv := bsplice (cur_argv v1) [Null] (new_argv v1)\<rparr>)"

lemma new_argv_line:
  assumes v: "at_line_start argv v" and l: "line_fits argv l"
  shows "new_argv (line_ended l v) = (map Argv [1..<length argv] @ [Buf 0]) @ map Buf (word_starts 0 l) @ Null #
      drop (Suc (length argv + count_list l 32)) (new_argv v)"
    and "length (map Argv [1..<length argv] @ [Buf 0]) = length argv"
proof -
  let ?P = "map Argv [1..<length argv] @ [Buf 0]"
  have P: "new_argv v = ?P @ drop (length argv) (new_argv v)"
    using v append_take_drop_id[of "length argv" "new_argv v"] by (simp only: at_line_start_def)
  have "length ?P = length (take (length argv) (new_argv v))" using v by (simp only: at_line_start_def)
  then show n: "length ?P = length argv" using v l by (simp add: at_line_start_def line_fits_def)
  have "new_argv (line_ended l v) =
      bsplice (length argv + count_list l 32) [Null] (bsplice (length argv) (map Buf (word_starts 0 l)) (?P @ drop (length argv) (new_argv v)))"
    using v P[symmetric] by (simp add: line_ended_def line_done_def Let_def at_line_start_def)
  also have "\<dots> = bsplice (length argv + count_list l 32) [Null]
      ((?P @ map Buf (word_starts 0 l)) @ drop (count_list l 32 + length argv) (new_argv v))"
    by (subst bsplice_after) (simp_all only: n drop_drop length_map length_word_starts append_assoc)
  also have "\<dots> = (?P @ map Buf (word_starts 0 l)) @ Null # drop (Suc (length argv + count_list l 32)) (new_argv v)"
    by (subst bsplice_after) (use n in \<open>simp_all add: add.commute\<close>)
  finally show "new_argv (line_ended l v) = ?P @ map Buf (word_starts 0 l) @ Null # drop (Suc (length argv + count_list l 32)) (new_argv v)"
    by simp
qed

lemma xargs_args_line:
  assumes v: "at_line_start argv v" and l: "line_fits argv l"
  shows "xargs_args argv (line_ended l v) = tl argv @ line_words l" (is "xargs_args argv ?v2 = _")
proof -
  have b: "xbuf ?v2 = cut l @ 0 # drop (Suc (length l)) (xbuf v)"
    using v l by (simp add: line_ended_def line_done_def Let_def at_line_start_def line_fits_def bsplice_def)
  have "takeWhile (\<lambda>p. p \<noteq> Null) (new_argv ?v2) = map Argv [1..<length argv] @ map Buf (0 # word_starts 0 l)"
    unfolding new_argv_line[OF v l] append_assoc[symmetric] by (subst takeWhile_append2) auto
  then have "xargs_args argv ?v2 = map (ptr_string argv (xbuf ?v2)) (map Argv [1..<length argv]) @
      map (ptr_string argv (xbuf ?v2)) (map Buf (0 # word_starts 0 l))"
    by (simp only: xargs_args_def map_append)
  moreover have "map (ptr_string argv (xbuf ?v2)) (map Buf (0 # word_starts 0 l)) = line_words l"
    using words_in_buffer[of l "[]" "drop (Suc (length l)) (xbuf v)"] l unfolding b by (simp add: line_fits_def comp_def)
  ultimately show ?thesis by (simp only: strings_of_argv)
qed

lemma line_ended_start:
  assumes v: "at_line_start argv v" and l: "line_fits argv l"
  shows "at_line_start argv ((line_ended l v)\<lparr>cur_buf := 0, cur_argv := length argv\<rparr>)"
proof -
  have "take (length argv) (new_argv (line_ended l v)) = map Argv [1..<length argv] @ [Buf 0]"
    unfolding new_argv_line(1)[OF v l] using new_argv_line(2)[OF v l] by simp
  moreover have "length (new_argv (line_ended l v)) = MAXARG"
    unfolding new_argv_line(1)[OF v l] length_append new_argv_line(2)[OF v l, unfolded length_append]
    using v l by (simp add: at_line_start_def line_fits_def)
  moreover have "length (xbuf (line_ended l v)) = 128"
    using v l by (simp add: line_ended_def line_done_def Let_def at_line_start_def line_fits_def bsplice_def)
  ultimately show ?thesis by (simp add: at_line_start_def)
qed

lemma xargs_loop_newline:
  assumes c: "input_calls c inp" and inp: "inp s = l @ 10 # rest" and v: "at_line_start argv v" and l: "line_fits argv l"
  shows "\<exists>s' ch' v'. inp s' = rest \<and> at_line_start argv v' \<and>
    xargs_loop c argv ch (s, v, hist) = xargs_loop c argv ch' (s', v', hist @ [tl argv @ line_words l])"
proof -
  define v1 where "v1 = line_done l v"
  obtain s1 ch1 where s1: "inp s1 = 10 # rest" "xargs_loop c argv ch (s, v, hist) = xargs_loop c argv ch1 (s1, v1, hist)"
    unfolding v1_def using xargs_loop_line[OF c inp, of v argv ch hist] v l by (auto simp: at_line_start_def line_fits_def)
  obtain s2 where s2: "x_read c ch1 s1 = (1, 10, s2)" "inp s2 = rest" using c s1(1) unfolding input_calls_def by blast
  define v2 where "v2 = line_ended l v"
  obtain child s3 where f: "x_fork c s2 = (child, s3)" "child > 0" "inp s3 = rest"
    using c s2(2) unfolding input_calls_def by (metis prod.collapse)
  have "xargs_char c argv 10 (s2, v1, hist) = Inr (xargs_line c argv (s2, v2, hist))"
    using v l by (simp add: xargs_char_def store_at_splice v2_def v1_def line_ended_def Let_def line_done_def at_line_start_def line_fits_def)
  moreover have "xargs_line c argv (s2, v2, hist) =
      (x_run c (tl argv @ line_words l) s3, v2\<lparr>cur_buf := 0, cur_argv := length argv\<rparr>, hist @ [tl argv @ line_words l])"
    using xargs_args_line[OF v l] f by (simp add: xargs_line_def Let_def v2_def)
  moreover have "at_line_start argv (v2\<lparr>cur_buf := 0, cur_argv := length argv\<rparr>)"
    unfolding v2_def by (rule line_ended_start[OF v l])
  moreover have "inp (x_run c (tl argv @ line_words l) s3) = rest" using c f(3) by (simp add: input_calls_def)
  ultimately show ?thesis unfolding s1(2) by (subst xargs_loop.simps) (auto simp: s2)
qed

lemma xargs_loop_lines:
  assumes c: "input_calls c inp" and rest: "10 \<notin> set rest" "length rest \<le> 128" "length argv + count_list rest 32 \<le> MAXARG"
    and "inp s = concat (map (\<lambda>l. l @ [10]) ls) @ rest" "\<forall>l\<in>set ls. line_fits argv l" "at_line_start argv v"
  shows "\<exists>s' v'. xargs_loop c argv ch (s, v, hist) = Some (Inr (s', v', hist @ map (\<lambda>l. tl argv @ line_words l) ls))"
  using assms(5-)
proof (induction ls arbitrary: s v ch hist)
  case Nil
  obtain s1 ch1 where s1: "inp s1 = []" "xargs_loop c argv ch (s, v, hist) = xargs_loop c argv ch1 (s1, line_done rest v, hist)"
    using xargs_loop_line[OF c, of s rest "[]" v argv ch hist] rest Nil by (auto simp: at_line_start_def)
  obtain r ch2 s2 where "x_read c ch1 s1 = (r, ch2, s2)" by (metis prod_cases3)
  moreover have "fst (x_read c ch1 s1) = 0" using c s1(1) by (simp add: input_calls_def)
  ultimately show ?case unfolding s1(2) by (subst xargs_loop.simps) simp
next
  case (Cons l ls)
  have "inp s = l @ 10 # (concat (map (\<lambda>l. l @ [10]) ls) @ rest)" using Cons.prems(1) by simp
  from xargs_loop_newline[OF c this Cons.prems(3), of ch hist] Cons.prems(2)
  obtain s1 ch1 v1 where "inp s1 = concat (map (\<lambda>l. l @ [10]) ls) @ rest" "at_line_start argv v1"
    "xargs_loop c argv ch (s, v, hist) = xargs_loop c argv ch1 (s1, v1, hist @ [tl argv @ line_words l])" by auto
  then show ?case using Cons.IH[of s1 v1 ch1 "hist @ [tl argv @ line_words l]"] Cons.prems(2) by simp
qed

lemma copied_args:
  assumes "n - d \<le> length na"
  shows "fold_res (\<lambda>i. store_at (i - d) (f i)) [d..<n] na = Inr (map f [d..<n] @ drop (n - d) na)"
  using assms
proof (induction n)
  case (Suc n)
  show ?case
  proof (cases "d \<le> n")
    case True
    then show ?thesis using Suc
      by (simp add: fold_res_append store_at_def list_update_append Cons_nth_drop_Suc[symmetric] Suc_diff_le)
  qed simp
qed simp


definition line_input :: "u8 list xargs_calls" where
  "line_input = \<lparr>x_read = (\<lambda>ch s. case s of [] \<Rightarrow> (0, ch, []) | b # bs \<Rightarrow> (1, b, bs)), x_fork = (\<lambda>s. (7, s)), x_run = (\<lambda>a s. s)\<rparr>"


section \<open>primes\<close>

text \<open>The reference: the sieve on a list of numbers.\<close>

function sieve :: "int list \<Rightarrow> int list" where
  "sieve [] = []"
| "sieve (p # xs) = p # sieve (filter (\<lambda>x. x smod p \<noteq> 0) xs)"
  by pat_completeness auto
termination
  by (relation "measure length") (auto simp: le_imp_less_Suc)

definition buff_list :: "nat \<Rightarrow> u8 list \<Rightarrow> int list" where
  "buff_list n buff = map (buff_get buff) [0..<n]"

lemma length_buff_put [simp]: "4 * i + 4 \<le> length b \<Longrightarrow> length (buff_put i x b) = length b"
  by (simp add: buff_put_def)

lemma buff_get_put:
  assumes "4 * i + 4 \<le> length b" "4 * j + 4 \<le> length b" "- (2 ^ 31) \<le> x" "x < 2 ^ 31"
  shows "buff_get (buff_put i x b) j = (if i = j then x else buff_get b j)"
  using assms c_int_id[of x] by (simp add: buff_get_def buff_put_def get_put_u32 c_int_def)

lemma buff_get_range: "- (2 ^ 31) \<le> buff_get b i" "buff_get b i < 2 ^ 31"
  using sint_ge[of "get_u32 b i"] sint_lt[of "get_u32 b i"] by (simp_all add: buff_get_def)

lemma sieve_loop_filters:
  assumes "sieve_loop p n i cnt b = (cnt', b')" "cnt \<le> i" "4 * (i + n) \<le> length b"
  shows "length b' = length b \<and> cnt' \<le> cnt + n \<and>
    buff_list cnt' b' = buff_list cnt b @ filter (\<lambda>x. x smod p \<noteq> 0) (map (buff_get b) [i..<i + n])"
  using assms
proof (induction p n i cnt b rule: sieve_loop.induct)
  case (1 p i cnt b)
  then show ?case by simp
next
  case (2 p n i cnt b)
  have up: "map (buff_get b) [i..<i + Suc n] = buff_get b i # map (buff_get b) [i + 1..<i + 1 + n]"
    by (simp add: upt_conv_Cons del: upt_Suc)
  show ?case
  proof (cases "buff_get b i smod p \<noteq> 0")
    case True
    let ?b = "buff_put cnt (buff_get b i) b"
    have len: "length ?b = length b" using 2 by simp
    have get: "buff_get ?b j = (if cnt = j then buff_get b i else buff_get b j)" if "j \<le> i + n" for j
      using 2 that buff_get_range[of b i] by (intro buff_get_put) auto
    have "map (buff_get ?b) [i + 1..<i + 1 + n] = map (buff_get b) [i + 1..<i + 1 + n]"
      using 2(4) by (intro map_cong refl) (auto simp: get)
    moreover have "buff_list (cnt + 1) ?b = buff_list cnt b @ [buff_get b i]"
      using 2(4) by (auto simp: buff_list_def get)
    ultimately show ?thesis using 2(1)[OF True] 2(3-5) True len unfolding up by (auto simp del: upt_Suc map_eq_conv)
  next
    case False
    then show ?thesis using 2(2)[OF False] 2(3-5) unfolding up by auto
  qed
qed

text \<open>
  What \<open>primes\<close> needs of pipes and of \<open>fork\<close>: up to 512 bytes (the size of a pipe's buffer) that are written to a new pipe can be read from it
  in one piece by the child of a \<open>fork\<close>, which succeeds.
\<close>

definition pipes_carry :: "('p, 's) pipe_calls \<Rightarrow> bool" where
  "pipes_carry c \<longleftrightarrow> (\<forall>s bs rd wr s1. length bs \<le> 512 \<longrightarrow> p_pipe c s = ((rd, wr), s1) \<longrightarrow>
     (\<exists>child s2 s3. p_fork c (p_close c wr (p_write c wr bs s1)) = (child, s2) \<and> child > 0 \<and> p_read c rd (length bs) s2 = (bs, s3)))"

lemma smod_self: "(x :: int) smod x = 0"
  by (simp add: signed_modulo_int_def signed_divide_int_def sgn_mult)

lemma primes_loop_sieves:
  assumes c: "pipes_carry c" and "p_pipe c s0 = ((rd, wr), s1)" "sz \<le> 34" "length buff = 136"
  shows "fst (primes_loop c sz rd buff (p_close c wr (p_write c wr (take (4 * sz) buff) s1)) out) = out @ sieve (buff_list sz buff)"
  using assms(2-)
proof (induction sz arbitrary: s0 rd wr s1 buff out rule: less_induct)
  case (less sz)
  show ?case
  proof (cases sz)
    case 0
    then show ?thesis by (simp add: buff_list_def primes_loop.simps)
  next
    case (Suc k)
    let ?s = "p_close c wr (p_write c wr (take (4 * sz) buff) s1)"
    have "length (take (4 * sz) buff) = 4 * sz" using less.prems by simp
    then obtain child s2 s3 where f: "p_fork c ?s = (child, s2)" "child > 0" "p_read c rd (4 * sz) s2 = (take (4 * sz) buff, s3)"
      using c[unfolded pipes_carry_def, rule_format, of "take (4 * sz) buff", OF _ less.prems(1)] less.prems(2) by auto
    have b: "bsplice 0 (take (4 * sz) buff) buff = buff" using less.prems by (simp add: bsplice_def)
    obtain rd' wr' s4 where p: "p_pipe c (p_close c rd s3) = ((rd', wr'), s4)" by (metis prod.collapse)
    obtain cnt b' where l: "sieve_loop (buff_get buff 0) sz 0 0 buff = (cnt, b')" by fastforce
    have cnt: "cnt < sz" using sieve_loop_shrinks[OF l[symmetric]] Suc by simp
    have xs: "buff_list sz buff = buff_get buff 0 # map (buff_get buff) [1..<sz]"
      using Suc by (simp add: buff_list_def upt_conv_Cons del: upt_Suc)
    have fl: "length b' = 136" "buff_list cnt b' = filter (\<lambda>x. x smod buff_get buff 0 \<noteq> 0) (buff_list sz buff)"
      using sieve_loop_filters[OF l] less.prems by (auto simp: buff_list_def)
    have child: "primes_child c sz rd buff s2 =
        (buff_get buff 0, cnt, rd', b', p_close c wr' (p_write c wr' (take (4 * cnt) b') s4))"
      by (simp add: primes_child_def f(3) b p l)
    have "primes_loop c sz rd buff ?s out =
        primes_loop c cnt rd' b' (p_close c wr' (p_write c wr' (take (4 * cnt) b') s4)) (out @ [buff_get buff 0])"
      by (subst primes_loop.simps) (use f cnt in \<open>simp add: child\<close>)
    then show ?thesis using less.IH[OF cnt p _ fl(1)] less.prems(2) cnt fl(2) by (simp add: xs smod_self)
  qed
qed

lemma buff_filled:
  assumes "n \<le> 34" "length b = 136"
  shows "length (fold (\<lambda>i. buff_put i (int i + 2)) [0..<n] b) = 136 \<and>
    buff_list n (fold (\<lambda>i. buff_put i (int i + 2)) [0..<n] b) = map (\<lambda>i. int i + 2) [0..<n]"
  using assms
proof (induction n)
  case (Suc n)
  then show ?case by (auto simp: buff_list_def buff_get_put)
qed (simp add: buff_list_def)

text \<open>A number greater than one without a divisor other than one and itself.\<close>

definition is_prime :: "int \<Rightarrow> bool" where
  "is_prime p \<longleftrightarrow> 1 < p \<and> (\<forall>d\<in>set [2..p - 1]. p mod d \<noteq> 0)"

text \<open>When pipes carry what is written and no \<open>fork\<close> fails, the chain of processes of \<open>primes\<close> prints the primes from 2 to 35, each once
  and in order, and comes to an end.\<close>
theorem primes_prints_primes:
  assumes "pipes_carry c" "length buff0 = 136"
  shows "fst (primes c buff0 s) = filter is_prime [2..35]"
proof -
  define b where "b = fold (\<lambda>i. buff_put i (int i + 2)) [0..<34] buff0"
  obtain rd wr s1 where p: "p_pipe c s = ((rd, wr), s1)" by (metis prod.collapse)
  have b: "length b = 136" "buff_list 34 b = map (\<lambda>i. int i + 2) [0..<34]"
    using buff_filled[of 34 buff0] assms(2) by (simp_all only: b_def order_refl simp_thms)
  have "fst (primes c buff0 s) = sieve (buff_list 34 b)"
    using primes_loop_sieves[OF assms(1) p, of 34 b "[]"] b(1)
    unfolding primes_def b_def[symmetric] Let_def by (simp add: p)
  also have "\<dots> = filter is_prime [2..35]"
    unfolding b(2) by code_simp
  finally show ?thesis .
qed

text \<open>A system in which every pipe is empty again when the next is made: the state is the contents of the last pipe.\<close>

definition one_pipe :: "(unit, u8 list) pipe_calls" where
  "one_pipe = \<lparr>p_pipe = (\<lambda>s. (((), ()), [])), p_write = (\<lambda>p bs s. s @ bs), p_read = (\<lambda>p n s. (take n s, drop n s)),
     p_close = (\<lambda>p s. s), p_fork = (\<lambda>s. (5, s))\<rparr>"

theorem primes_prints_primes_witness: "fst (primes one_pipe (replicate 136 0) []) = [2, 3, 5, 7, 11, 13, 17, 19, 23, 29, 31]"
proof -
  have "pipes_carry one_pipe" by (simp add: pipes_carry_def one_pipe_def)
  then have "fst (primes one_pipe (replicate 136 0) []) = filter is_prime [2..35]" by (rule primes_prints_primes) simp
  also have "\<dots> = [2, 3, 5, 7, 11, 13, 17, 19, 23, 29, 31]" by code_simp
  finally show ?thesis .
qed

section \<open>find\<close>

lemma add_out_Some: "add_out o1 r = Some (out, s) \<longleftrightarrow> (\<exists>o2. r = Some (o2, s) \<and> out = o1 @ o2)"
  by (auto simp: add_out_def)

lemma cstr_entry:
  assumes "length d = n" "cstr (d @ a) = nm"
  shows "cstr d = take n nm"
proof (cases "0 \<in> set d")
  case True
  then have "cstr (d @ a) = cstr d" by (simp add: cstr_def takeWhile_append1)
  then show ?thesis using assms length_takeWhile_le[of "\<lambda>b. b \<noteq> 0" d] by (simp add: cstr_def)
next
  case False
  then have "cstr (d @ a) = d @ cstr a" "cstr d = d" by (auto simp: cstr_def takeWhile_append takeWhile_eq_all_conv)
  then show ?thesis using assms by auto
qed

definition whole_entries :: "'s find_calls \<Rightarrow> bool" where
  "whole_entries c \<longleftrightarrow> (\<forall>fd s i d s1. fc_read c fd s = (Some (i, d), s1) \<longrightarrow> length d = DIRSIZ)"

definition named :: "u8 list \<Rightarrow> u8 list \<Rightarrow> find_out list \<Rightarrow> bool" where
  "named path name out \<longleftrightarrow> (\<forall>p. Found p \<in> set out \<longrightarrow> (\<exists>mid. p = path @ mid @ 47 # take DIRSIZ name) \<and> length p < 512)"

lemma named_append [simp]: "named path name (o1 @ o2) \<longleftrightarrow> named path name o1 \<and> named path name o2"
  by (auto simp: named_def)

lemma named_longer: "named (path @ mid) name out \<Longrightarrow> named path name out"
  unfolding named_def by (metis append_assoc)

lemma search_loop_entry:
  assumes "fc_read c fd s = (Some (ino, dname), s1)" "u_stat c (path @ 47 # cstr dname) 0 s1 = ((r, ty), s2)"
  shows "search_loop (Suc k) c path name fd s =
    (let de = cstr (dname @ fc_after c s1); buf = path @ 47 # cstr dname in
     if de = [46] \<or> de = [46, 46] \<or> ino = 0 then search_loop k c path name fd s1
     else if r < 0 then add_out [CannotStat buf] (search_loop k c path name fd s2)
     else if ty = T_DIR then
       (case search k c buf name s2 of None \<Rightarrow> None | Some (o1, s3) \<Rightarrow> add_out o1 (search_loop k c path name fd s3))
     else if ty = T_FILE \<and> de = name then add_out [Found buf] (search_loop k c path name fd s2)
     else search_loop k c path name fd s2)"
  using assms by (simp add: Let_def)

lemma read_cases:
  obtains s1 where "fc_read c fd s = (None, s1)"
  | ino dname s1 r ty s2 where "fc_read c fd s = (Some (ino, dname), s1)" "u_stat c (path @ 47 # cstr dname) 0 s1 = ((r, ty), s2)"
  by (metis option.exhaust prod.exhaust)

lemma search_named:
  assumes c: "whole_entries c"
  shows "(\<forall>path s out s'. search k c path name s = Some (out, s') \<longrightarrow> named path name out) \<and>
    (\<forall>path fd s out s'. search_loop k c path name fd s = Some (out, s') \<longrightarrow> length path + 1 + DIRSIZ + 1 \<le> 512 \<longrightarrow> named path name out)"
proof (induction k)
  case (Suc k)
  have S: "search k c path name s = Some (out, s') \<Longrightarrow> named path name out" for path s out s' using Suc by blast
  have L: "search_loop k c path name fd s = Some (out, s') \<Longrightarrow> length path + 1 + DIRSIZ + 1 \<le> 512 \<Longrightarrow> named path name out"
    for path fd s out s' using Suc by blast
  have no_found: "named path name [CannotStat p]" for path p by (simp add: named_def)
  have "search (Suc k) c path name s = Some (out, s') \<Longrightarrow> named path name out" for path s out s'
    using L by (auto split: prod.splits if_splits simp: named_def)
  moreover have "named path name out"
    if l: "search_loop (Suc k) c path name fd s = Some (out, s')" and p: "length path + 1 + DIRSIZ + 1 \<le> 512" for path fd s out s'
  proof (cases rule: read_cases[where c = c and fd = fd and s = s and path = path])
    case (1 s1)
    then show ?thesis using l by (simp add: named_def)
  next
    case (2 ino dname s1 r ty s2)
    have len: "length dname = DIRSIZ" using c 2(1) unfolding whole_entries_def by blast
    have fnd: "named path name [Found (path @ 47 # cstr dname)]" if "cstr (dname @ fc_after c s1) = name"
      using cstr_entry[OF len that] p by (auto simp: named_def)
    have sub: "named path name o1" if "search k c (path @ 47 # cstr dname) name s2 = Some (o1, s3)" for o1 s3
      using S[OF that] by (rule named_longer)
    show ?thesis using l[unfolded search_loop_entry[OF 2] Let_def] fnd sub L[OF _ p] no_found
      by (auto simp only: add_out_Some named_append split: if_splits option.splits prod.splits)
  qed
  ultimately show ?case by blast
qed simp

text \<open>More fuel does not change a result.\<close>

lemma search_mono_Suc:
  "(\<forall>path name s r. search k c path name s = Some r \<longrightarrow> search (Suc k) c path name s = Some r) \<and>
   (\<forall>path name fd s r. search_loop k c path name fd s = Some r \<longrightarrow> search_loop (Suc k) c path name fd s = Some r)"
proof (induction k)
  case (Suc k)
  have S: "search k c path name s = Some r \<Longrightarrow> search (Suc k) c path name s = Some r" for path name s r using Suc by blast
  have L: "search_loop k c path name fd s = Some r \<Longrightarrow> search_loop (Suc k) c path name fd s = Some r" for path name fd s r using Suc by blast
  have A: "add_out o1 (search_loop k c path name fd s) = Some r \<Longrightarrow> add_out o1 (search_loop (Suc k) c path name fd s) = Some r" for o1 path name fd s r
    using L by (auto simp del: search_loop.simps simp: add_out_def)
  have B: "(case search (Suc k) c p name s of None \<Rightarrow> None | Some (o1, s3) \<Rightarrow> add_out o1 (search_loop (Suc k) c path name fd s3)) = Some r"
    if "(case search k c p name s of None \<Rightarrow> None | Some (o1, s3) \<Rightarrow> add_out o1 (search_loop k c path name fd s3)) = Some r" for p path name fd s r
    using that by (auto simp del: search_loop.simps search.simps simp: S A split: option.split_asm)
  have "search (Suc (Suc k)) c path name s = Some r" if "search (Suc k) c path name s = Some r" for path name s r
    using that L unfolding search.simps by (auto split: prod.splits if_splits simp del: search_loop.simps)
  moreover have "search_loop (Suc (Suc k)) c path name fd s = Some r" if l: "search_loop (Suc k) c path name fd s = Some r" for path name fd s r
  proof (cases rule: read_cases[where c = c and fd = fd and s = s and path = path])
    case (2 ino dname s1 x ty s2)
    show ?thesis using l unfolding search_loop_entry[OF 2] Let_def
      by (auto simp del: search_loop.simps search.simps split: if_split_asm dest: L A B)
  qed (use l in simp)
  ultimately show ?case by blast
qed simp

lemma search_mono:
  assumes "search k c path name s = Some r" "k \<le> k'"
  shows "search k' c path name s = Some r"
  using assms(2,1) by (induction k' rule: dec_induct) (blast intro: search_mono_Suc[THEN conjunct1, rule_format])+

lemma search_loop_mono:
  assumes "search_loop k c path name fd s = Some r" "k \<le> k'"
  shows "search_loop k' c path name fd s = Some r"
  using assms(2,1) by (induction k' rule: dec_induct) (blast intro: search_mono_Suc[THEN conjunct2, rule_format])+

text \<open>
  The system calls keep the open descriptors apart, and a descriptor yields finitely many entries: \<open>used\<close> is the set of
  open descriptors, \<open>left\<close> a bound on the entries that are still to be read.
\<close>

definition finite_dirs :: "'s find_calls \<Rightarrow> ('s \<Rightarrow> int set) \<Rightarrow> ('s \<Rightarrow> int \<Rightarrow> nat) \<Rightarrow> bool" where
  "finite_dirs c used left \<longleftrightarrow>
     (\<forall>p m s fd s1. sc_open c p m s = (fd, s1) \<longrightarrow> (\<forall>f\<in>used s. left s1 f = left s f) \<and>
        (if fd < 0 then used s1 = used s else fd \<notin> used s \<and> used s1 = insert fd (used s))) \<and>
     (\<forall>fd s r s1. sc_fstat c fd s = (r, s1) \<longrightarrow> used s1 = used s \<and> (\<forall>f\<in>used s. left s1 f = left s f)) \<and>
     (\<forall>fd s. used (sc_close c fd s) = used s - {fd} \<and> (\<forall>f\<in>used s - {fd}. left (sc_close c fd s) f = left s f)) \<and>
     (\<forall>fd s e s1. fc_read c fd s = (e, s1) \<longrightarrow> used s1 = used s \<and> (\<forall>f\<in>used s - {fd}. left s1 f = left s f) \<and>
        (e \<noteq> None \<longrightarrow> left s1 fd < left s fd))"

lemma finite_dirs_open:
  "finite_dirs c used left \<Longrightarrow> sc_open c p m s = (fd, s1) \<Longrightarrow> (\<forall>f\<in>used s. left s1 f = left s f) \<and>
     (if fd < 0 then used s1 = used s else fd \<notin> used s \<and> used s1 = insert fd (used s))"
  by (drule finite_dirs_def[THEN iffD1, THEN conjunct1]) blast

lemma finite_dirs_fstat:
  "finite_dirs c used left \<Longrightarrow> sc_fstat c fd s = (r, s1) \<Longrightarrow> used s1 = used s \<and> (\<forall>f\<in>used s. left s1 f = left s f)"
  by (drule finite_dirs_def[THEN iffD1, THEN conjunct2, THEN conjunct1]) blast

lemma finite_dirs_close:
  "finite_dirs c used left \<Longrightarrow> used (sc_close c fd s) = used s - {fd} \<and> (\<forall>f\<in>used s - {fd}. left (sc_close c fd s) f = left s f)"
  by (drule finite_dirs_def[THEN iffD1, THEN conjunct2, THEN conjunct2, THEN conjunct1]) blast

lemma finite_dirs_read:
  "finite_dirs c used left \<Longrightarrow> fc_read c fd s = (e, s1) \<Longrightarrow> used s1 = used s \<and> (\<forall>f\<in>used s - {fd}. left s1 f = left s f) \<and>
     (e \<noteq> None \<longrightarrow> left s1 fd < left s fd)"
  by (drule finite_dirs_def[THEN iffD1, THEN conjunct2, THEN conjunct2, THEN conjunct2]) blast

definition keeps :: "('s \<Rightarrow> int set) \<Rightarrow> ('s \<Rightarrow> int \<Rightarrow> nat) \<Rightarrow> int set \<Rightarrow> 's \<Rightarrow> 's \<Rightarrow> bool" where
  "keeps used left A s s' \<longleftrightarrow> used s' = used s \<and> (\<forall>f\<in>used s - A. left s' f = left s f)"

lemma keeps_trans: "keeps used left A s s1 \<Longrightarrow> keeps used left B s1 s2 \<Longrightarrow> A \<subseteq> B \<Longrightarrow> keeps used left B s s2"
  by (auto simp: keeps_def)

lemma u_stat_keeps:
  assumes fin: "finite_dirs c used left" and "u_stat c p st s = (r, s')"
  shows "keeps used left {} s s'"
proof -
  obtain fd s1 where o1: "sc_open c p 0 s = (fd, s1)" by fastforce
  have ko: "\<forall>f\<in>used s. left s1 f = left s f" "if fd < 0 then used s1 = used s else fd \<notin> used s \<and> used s1 = insert fd (used s)"
    using finite_dirs_open[OF fin o1] by blast+
  show ?thesis
  proof (cases "fd < 0")
    case True
    then show ?thesis using assms(2) o1 ko by (auto simp: u_stat_def keeps_def)
  next
    case False
    obtain r2 s2 where f: "sc_fstat c fd s1 = (r2, s2)" by fastforce
    have kf: "used s2 = used s1" "\<forall>f\<in>used s1. left s2 f = left s1 f" using finite_dirs_fstat[OF fin f] by blast+
    have kc: "used (sc_close c fd s2) = used s2 - {fd}" "\<forall>f\<in>used s2 - {fd}. left (sc_close c fd s2) f = left s2 f"
      using finite_dirs_close[OF fin] by blast+
    have "s' = sc_close c fd s2" using assms(2) o1 f False by (simp add: u_stat_def)
    then show ?thesis using ko kf kc False by (auto simp: keeps_def)
  qed
qed

lemma search_loop_ends:
  assumes fin: "finite_dirs c used left" and fd: "fd \<in> used s"
    and sub: "\<And>mid s. mid \<noteq> [] \<Longrightarrow> \<exists>k out s'. search k c (path @ mid) name s = Some (out, s') \<and> keeps used left {} s s'"
  shows "\<exists>k out s'. search_loop k c path name fd s = Some (out, s') \<and> keeps used left {fd} s s'"
  using fd
proof (induction "left s fd" arbitrary: s rule: less_induct)
  case less
  show ?case
  proof (cases rule: read_cases[where c = c and fd = fd and s = s and path = path])
    case (1 s1)
    then have "search_loop (Suc 0) c path name fd s = Some ([], s1)" by simp
    moreover have "keeps used left {fd} s s1" using finite_dirs_read[OF fin 1] by (simp add: keeps_def)
    ultimately show ?thesis by blast
  next
    case (2 ino dname s1 r ty s2)
    have k1: "keeps used left {fd} s s1" "left s1 fd < left s fd" using finite_dirs_read[OF fin 2(1)] by (simp_all add: keeps_def)
    have k2: "keeps used left {} s1 s2" by (rule u_stat_keeps[OF fin 2(2)])
    have next_entry: "\<exists>k out s''. search_loop k c path name fd s' = Some (out, s'') \<and> keeps used left {fd} s s''"
      if "keeps used left {} s1 s'" for s'
    proof -
      have k: "keeps used left {fd} s s'" using k1(1) that by (auto simp: keeps_def)
      have "left s' fd < left s fd" "fd \<in> used s'" using k1 that less.prems by (auto simp: keeps_def)
      then show ?thesis using less.hyps[of s'] keeps_trans[OF k] by blast
    qed
    obtain ka oa sa where a: "search_loop ka c path name fd s1 = Some (oa, sa)" "keeps used left {fd} s sa"
      using next_entry[of s1] by (auto simp: keeps_def)
    obtain kb ob sb where b: "search_loop kb c path name fd s2 = Some (ob, sb)" "keeps used left {fd} s sb"
      using next_entry[OF k2] by blast
    obtain kd od sd where d: "search kd c (path @ 47 # cstr dname) name s2 = Some (od, sd)" "keeps used left {} s2 sd"
      using sub[of "47 # cstr dname" s2] by blast
    obtain ke oe se where e: "search_loop ke c path name fd sd = Some (oe, se)" "keeps used left {fd} s se"
      using next_entry[OF keeps_trans[OF k2 d(2)]] by blast
    let ?k = "max (max ka kb) (max kd ke)"
    have m: "search_loop ?k c path name fd s1 = Some (oa, sa)" "search_loop ?k c path name fd s2 = Some (ob, sb)"
      "search ?k c (path @ 47 # cstr dname) name s2 = Some (od, sd)" "search_loop ?k c path name fd sd = Some (oe, se)"
      using search_loop_mono[OF a(1)] search_loop_mono[OF b(1)] search_mono[OF d(1)] search_loop_mono[OF e(1)] by auto
    have "\<exists>out s'. search_loop (Suc ?k) c path name fd s = Some (out, s') \<and> s' \<in> {sa, sb, se}"
      unfolding search_loop_entry[OF 2] Let_def m by (auto simp: add_out_def m(4) T_DIR_def T_FILE_def)
    then show ?thesis using a(2) b(2) e(2) by blast
  qed
qed

lemma search_ends:
  assumes fin: "finite_dirs c used left"
  shows "\<exists>k out s'. search k c path name s = Some (out, s') \<and> keeps used left {} s s'"
proof (induction "512 - length path" arbitrary: path s rule: less_induct)
  case less
  obtain fd s1 where o1: "sc_open c path 0 s = (fd, s1)" by fastforce
  have ko: "\<forall>f\<in>used s. left s1 f = left s f" "if fd < 0 then used s1 = used s else fd \<notin> used s \<and> used s1 = insert fd (used s)"
    using finite_dirs_open[OF fin o1] by blast+
  show ?case
  proof (cases "fd < 0")
    case True
    then have "search (Suc 0) c path name s = Some ([CannotOpen path], s1)" using o1 by simp
    moreover have "keeps used left {} s s1" using ko True by (simp add: keeps_def)
    ultimately show ?thesis by blast
  next
    case False
    obtain r ty s2 where f: "sc_fstat c fd s1 = ((r, ty), s2)" by (metis prod.exhaust)
    have kf: "used s2 = used s1" "\<forall>f\<in>used s1. left s2 f = left s1 f" using finite_dirs_fstat[OF fin f] by blast+
    have kc: "keeps used left {} s (sc_close c fd s3)" if "keeps used left {fd} s2 s3" for s3
      using finite_dirs_close[OF fin, of fd s3] that ko kf False by (auto simp: keeps_def)
    have k0: "keeps used left {fd} s2 s2" by (simp add: keeps_def)
    show ?thesis
    proof (cases "\<not> r < 0 \<and> ty = T_DIR \<and> length path + 1 + DIRSIZ + 1 \<le> 512")
      case True
      have sub: "\<exists>k out s'. search k c (path @ mid) name t = Some (out, s') \<and> keeps used left {} t s'" if "mid \<noteq> []" for mid t
        by (rule less.hyps) (use that True in \<open>cases mid; auto\<close>)
      have "\<exists>k out s'. search_loop k c path name fd s2 = Some (out, s') \<and> keeps used left {fd} s2 s'"
        by (rule search_loop_ends[OF fin _ sub]) (use ko kf False in auto)
      then obtain k out s3 where l: "search_loop k c path name fd s2 = Some (out, s3)" "keeps used left {fd} s2 s3" by blast
      have "search (Suc k) c path name s = Some (out, sc_close c fd s3)"
        using o1 f l False True by (simp add: T_DIR_def T_FILE_def)
      then show ?thesis using kc[OF l(2)] by blast
    next
      case nd: False
      then have "\<exists>out. search (Suc 0) c path name s = Some (out, sc_close c fd s2)"
        using o1 f False by auto
      then show ?thesis using kc[OF k0] by blast
    qed
  qed
qed

text \<open>C39: When descriptors are kept apart and a directory has finitely many entries, \<open>find\<close> comes to an end, also when directories form a cycle, because a path
  that does not fit the buffer is given up. It closes what it opens, and every file that it reports is below the starting path, has the name that is
  looked for (its first fourteen bytes) as last component, and a path that fits the buffer of 512 bytes.\<close>
theorem find_ends:
  assumes "finite_dirs c used left" "whole_entries c"
  shows "\<exists>k out s'. (\<forall>k'\<ge>k. search k' c path name s = Some (out, s')) \<and> used s' = used s \<and>
    (\<forall>p. Found p \<in> set out \<longrightarrow> (\<exists>mid. p = path @ mid @ 47 # take DIRSIZ name) \<and> length p < 512)"
proof -
  obtain k out s' where k: "search k c path name s = Some (out, s')" "keeps used left {} s s'"
    using search_ends[OF assms(1)] by blast
  have "named path name out" using search_named[OF assms(2)] k(1) by blast
  moreover have "\<forall>k'\<ge>k. search k' c path name s = Some (out, s')" using search_mono[OF k(1)] by blast
  ultimately show ?thesis using k(2) unfolding named_def keeps_def by blast
qed

text \<open>A file system in which every directory contains itself under the name \<open>a\<close>.\<close>

definition loop_fs :: "(nat \<times> (int \<rightharpoonup> nat)) find_calls" where
  "loop_fs = \<lparr>sc_open = (\<lambda>p m (n, fds). if fds (int n) = None then (int n, (n + 1, fds(int n \<mapsto> 1))) else (-1, (n, fds))),
     sc_fstat = (\<lambda>fd s. ((0, T_DIR), s)), sc_close = (\<lambda>fd (n, fds). (n, fds(fd := None))),
     fc_read = (\<lambda>fd (n, fds). case fds fd of Some (Suc k) \<Rightarrow> (Some (1, 97 # replicate 13 0), (n, fds(fd \<mapsto> k))) | _ \<Rightarrow> (None, (n, fds))),
     fc_after = (\<lambda>s. [])\<rparr>"

theorem find_ends_witness:
  "\<exists>k out s'. (\<forall>k'\<ge>k. search k' loop_fs [47] [97] (0, Map.empty) = Some (out, s')) \<and> dom (snd s') = {} \<and>
    (\<forall>p. Found p \<in> set out \<longrightarrow> (\<exists>mid. p = [47] @ mid @ 47 # take DIRSIZ [97]) \<and> length p < 512)"
proof -
  define left where "left = (\<lambda>(s :: nat \<times> (int \<rightharpoonup> nat)) fd. case snd s fd of None \<Rightarrow> 0 | Some k \<Rightarrow> k)"
  have "finite_dirs loop_fs (\<lambda>s. dom (snd s)) left" unfolding finite_dirs_def
  proof (intro conjI allI impI, goal_cases)
    case (5 fd s)
    then show ?case by (auto simp: loop_fs_def split: prod.splits)
  next
    case (6 fd s)
    then show ?case by (auto simp: loop_fs_def left_def split: prod.splits)
  qed (auto simp: loop_fs_def left_def split: prod.splits option.splits nat.splits if_splits)
  moreover have "whole_entries loop_fs"
    by (auto simp: whole_entries_def loop_fs_def DIRSIZ_def split: option.splits nat.splits prod.splits)
  ultimately show ?thesis using find_ends[of loop_fs "\<lambda>s. dom (snd s)" left "[47]" "[97]" "(0, Map.empty)"] by simp
qed

section \<open>trace and sleep\<close>

text \<open>
  \<open>trace\<close> never stores a null pointer behind the arguments it copies: the command gets them, and then whatever the stack held
  in the rest of the array up to the first null pointer.
\<close>

lemma trace_passes_stack:
  assumes "3 \<le> length argv" "length argv \<le> MAXARG" "length nargv0 = MAXARG" "0 \<notin> set argv"
    and "48 \<le> m (argv ! 1)" "m (argv ! 1) \<le> 57" "atoi m (argv ! 1) = Some bits" "trc bits s = (r, s1)" "0 \<le> r"
  shows "trace_main trc m argv nargv0 s =
    Some (Inr (TraceExec (argv ! 2) (drop 2 argv @ takeWhile (\<lambda>p. p \<noteq> 0) (drop (length argv - 2) nargv0)), s1))"
proof -
  have d: "map ((!) argv) [2..<length argv] = drop 2 argv" by (rule nth_equalityI) auto
  have "fold_res (\<lambda>i. store_at (i - 2) (argv ! i)) [2..<length argv] nargv0 = Inr (drop 2 argv @ drop (length argv - 2) nargv0)"
    using copied_args[of "length argv" 2 nargv0 "(!) argv"] assms(1-3) d by simp
  moreover have "takeWhile (\<lambda>p. p \<noteq> 0) (drop 2 argv @ drop (length argv - 2) nargv0) =
      drop 2 argv @ takeWhile (\<lambda>p. p \<noteq> 0) (drop (length argv - 2) nargv0)"
    by (rule takeWhile_append2) (use assms(4) in \<open>metis in_set_dropD\<close>)
  moreover have "(drop 2 argv @ drop (length argv - 2) nargv0) ! 0 = argv ! 2" using assms(1) by (simp add: nth_append)
  ultimately show ?thesis using assms by (simp add: trace_main_def min_absorb1 word_less_def word_le_def not_less)
qed

lemma sleep_sleeps_number:
  assumes "1 < length argv" "cstring m (argv ! 1) ds" "\<forall>d\<in>set ds. is_digit d" "dvalue 0 ds < 2 ^ 31"
  shows "sleep_main slp pr m argv s = Some (Inr (slp (int (dvalue 0 ds)) s))"
  using assms atoi_digits[of m "argv ! 1" ds "[]"] by (auto simp: sleep_main_def)

end
