(* ===== verification/Umalloc.thy ===== *)
theory Umalloc
  imports Prelude
begin

text \<open>
  The allocator of user programs (\<open>xv6-lab-pagetables/user/umalloc.c\<close>), after Kernighan and Ritchie. Every block starts with a header of
  sixteen bytes, a link and a size in units of the header; the heap has the two fields as maps from the address of a
  header. \<open>hbase\<close> is the address of the static header \<open>base\<close>, and \<open>sbrk\<close>, a system call, is an argument. The free blocks form a circular list
  in the order of their addresses. The loops follow links and have no bound in C: they are partial functions whose value is \<open>None\<close> when
  they do not end.
\<close>

record heap =
  hptr :: "u64 \<Rightarrow> u64"
  hsize :: "u64 \<Rightarrow> u32"
  freep :: u64
  hbase :: u64

type_synonym 'a sbrk_fn = "int \<Rightarrow> 'a heap_scheme \<Rightarrow> u64 \<times> 'a heap_scheme"

definition HDR :: u64 where "HDR = 16"

text \<open>\<open>p + p->s.size\<close> in pointer arithmetic.\<close>

definition after :: "'a heap_scheme \<Rightarrow> u64 \<Rightarrow> u64" where
  "after h p = p + HDR * ucast (hsize h p)"

definition set_ptr :: "u64 \<Rightarrow> u64 \<Rightarrow> 'a heap_scheme \<Rightarrow> 'a heap_scheme" where
  "set_ptr p v h = h\<lparr>hptr := (hptr h)(p := v)\<rparr>"

definition set_size :: "u64 \<Rightarrow> u32 \<Rightarrow> 'a heap_scheme \<Rightarrow> 'a heap_scheme" where
  "set_size p v h = h\<lparr>hsize := (hsize h)(p := v)\<rparr>"

partial_function (option) find_place :: "'a heap_scheme \<Rightarrow> u64 \<Rightarrow> u64 \<Rightarrow> u64 option" where
  "find_place h bp p =
     (if bp > p \<and> bp < hptr h p then Some p
      else if p \<ge> hptr h p \<and> (bp > p \<or> bp < hptr h p) then Some p
      else find_place h bp (hptr h p))"

definition link_up :: "u64 \<Rightarrow> u64 \<Rightarrow> 'a heap_scheme \<Rightarrow> 'a heap_scheme" where
  "link_up bp p h =
     (let q = hptr h p in
      if after h bp = q then set_ptr bp (hptr h q) (set_size bp (hsize h bp + hsize h q) h) else set_ptr bp q h)"

definition link_down :: "u64 \<Rightarrow> u64 \<Rightarrow> 'a heap_scheme \<Rightarrow> 'a heap_scheme" where
  "link_down bp p h =
     (if after h p = bp then set_ptr p (hptr h bp) (set_size p (hsize h p + hsize h bp) h) else set_ptr p bp h)"

definition free :: "u64 \<Rightarrow> 'a heap_scheme \<Rightarrow> 'a heap_scheme option" where
  "free ap h = (let bp = ap - HDR in
     case find_place h bp (freep h) of None \<Rightarrow> None | Some p \<Rightarrow> Some ((link_down bp p (link_up bp p h))\<lparr>freep := p\<rparr>))"

text \<open>The product \<open>nu * sizeof(Header)\<close> has 64 bits and is cut to the \<open>int\<close> that \<open>sbrk\<close> takes.\<close>

definition morecore :: "'a sbrk_fn \<Rightarrow> u32 \<Rightarrow> 'a heap_scheme \<Rightarrow> (u64 \<times> 'a heap_scheme) option" where
  "morecore sbrk nu h =
     (let nu = (if nu < 4096 then 4096 else nu);
          (p, h1) = sbrk (c_int (uint nu * 16)) h in
      if p = -1 then Some (0, h1)
      else case free (p + HDR) (set_size p nu h1) of
        None \<Rightarrow> None | Some h2 \<Rightarrow> Some (freep h2, h2))"

definition carve :: "u32 \<Rightarrow> u64 \<Rightarrow> u64 \<Rightarrow> 'a heap_scheme \<Rightarrow> u64 \<times> 'a heap_scheme" where
  "carve nunits prevp p h =
     (if hsize h p = nunits then (p + HDR, (set_ptr prevp (hptr h p) h)\<lparr>freep := prevp\<rparr>)
      else let h1 = set_size p (hsize h p - nunits) h;
               r = after h1 p
           in (r + HDR, (set_size r nunits h1)\<lparr>freep := prevp\<rparr>))"

partial_function (option) malloc_loop :: "'a sbrk_fn \<Rightarrow> u32 \<Rightarrow> u64 \<Rightarrow> u64 \<Rightarrow> 'a heap_scheme \<Rightarrow> (u64 \<times> 'a heap_scheme) option" where
  "malloc_loop sbrk nunits prevp p h =
     (if hsize h p \<ge> nunits then Some (carve nunits prevp p h)
      else if p = freep h
      then Option.bind (morecore sbrk nunits h) (\<lambda>(p', h').
        if p' = 0 then Some (0, h') else malloc_loop sbrk nunits p' (hptr h' p') h')
      else malloc_loop sbrk nunits p (hptr h p) h)"

definition units :: "u32 \<Rightarrow> u32" where
  "units nbytes = ucast ((ucast nbytes + HDR - 1) div HDR + 1)"

definition init_heap :: "'a heap_scheme \<Rightarrow> 'a heap_scheme" where
  "init_heap h = (if freep h = 0
     then (set_size (hbase h) 0 (set_ptr (hbase h) (hbase h) h))\<lparr>freep := hbase h\<rparr> else h)"

definition malloc :: "'a sbrk_fn \<Rightarrow> u32 \<Rightarrow> 'a heap_scheme \<Rightarrow> (u64 \<times> 'a heap_scheme) option" where
  "malloc sbrk nbytes h =
     (let h1 = init_heap h in malloc_loop sbrk (units nbytes) (freep h1) (hptr h1 (freep h1)) h1)"

section \<open>The free list\<close>

primrec path :: "'a heap_scheme \<Rightarrow> u64 \<Rightarrow> u64 list \<Rightarrow> u64 \<Rightarrow> bool" where
  "path h a [] b \<longleftrightarrow> a = b"
| "path h a (x # xs) b \<longleftrightarrow> a = x \<and> path h (hptr h x) xs b"

text \<open>
  Blocks in the order of their addresses, from address \<open>lo\<close> on, each with at least one unit, not overlapping, below \<open>2 ^ 32\<close> (the size of a
  process is a \<open>uint\<close> in \<open>growproc\<close>).
\<close>

definition bend :: "'a heap_scheme \<Rightarrow> u64 \<Rightarrow> nat" where
  "bend h a = unat a + 16 * unat (hsize h a)"

primrec ordered :: "'a heap_scheme \<Rightarrow> nat \<Rightarrow> u64 list \<Rightarrow> bool" where
  "ordered h lo [] \<longleftrightarrow> lo \<le> 2 ^ 32"
| "ordered h lo (a # as) \<longleftrightarrow> lo \<le> unat a \<and> 0 < unat (hsize h a) \<and> ordered h (bend h a) as"

definition heap_inv :: "'a heap_scheme \<Rightarrow> u64 list \<Rightarrow> bool" where
  "heap_inv h bs \<longleftrightarrow> path h (hptr h (hbase h)) bs (hbase h) \<and> hbase h \<noteq> 0 \<and> hsize h (hbase h) = 0 \<and>
     ordered h (unat (hbase h) + 16) bs \<and> freep h \<in> set (hbase h # bs)"

definition bytes_of :: "'a heap_scheme \<Rightarrow> u64 \<Rightarrow> nat set" where
  "bytes_of h a = {unat a ..< bend h a}"

definition free_bytes :: "'a heap_scheme \<Rightarrow> u64 list \<Rightarrow> nat set" where
  "free_bytes h bs = (\<Union>a \<in> set bs. bytes_of h a)"

lemma path_append: "path h a (xs @ ys) b \<longleftrightarrow> (\<exists>c. path h a xs c \<and> path h c ys b)"
  by (induction xs arbitrary: a) auto

lemma path_cong: "(\<And>x. x \<in> set xs \<Longrightarrow> hptr h' x = hptr h x) \<Longrightarrow> path h' a xs b = path h a xs b"
  by (induction xs arbitrary: a) auto

lemma ordered_le: "ordered h lo bs \<Longrightarrow> lo \<le> 2 ^ 32 \<and> (\<forall>a\<in>set bs. lo \<le> unat a \<and> 0 < unat (hsize h a) \<and> bend h a \<le> 2 ^ 32)"
proof (induction bs arbitrary: lo)
  case (Cons a bs)
  then have "lo \<le> unat a" "0 < unat (hsize h a)" and IH: "bend h a \<le> 2 ^ 32"
    "\<forall>b\<in>set bs. bend h a \<le> unat b \<and> 0 < unat (hsize h b) \<and> bend h b \<le> 2 ^ 32" by auto
  moreover have "unat a \<le> bend h a" by (simp add: bend_def)
  ultimately show ?case by fastforce
qed simp

lemma ordered_append: "ordered h lo (xs @ ys) \<longleftrightarrow>
   ordered h lo xs \<and> ordered h (if xs = [] then lo else bend h (last xs)) ys"
proof (induction xs arbitrary: lo)
  case Nil
  then show ?case using ordered_le[of h lo ys] by auto
next
  case (Cons a xs)
  then show ?case by auto
qed

lemma ordered_cong: "(\<And>x. x \<in> set bs \<Longrightarrow> hsize h' x = hsize h x) \<Longrightarrow> ordered h' lo bs = ordered h lo bs"
  by (induction bs arbitrary: lo) (auto simp: bend_def)

lemma field_simps_heap [simp]:
  "hptr (set_ptr p v h) = (hptr h)(p := v)" "hsize (set_ptr p v h) = hsize h"
  "hptr (set_size p k h) = hptr h" "hsize (set_size p k h) = (hsize h)(p := k)"
  "freep (set_ptr p v h) = freep h" "freep (set_size p k h) = freep h"
  "hbase (set_ptr p v h) = hbase h" "hbase (set_size p k h) = hbase h"
  by (simp_all add: set_ptr_def set_size_def)

lemma link_fields [simp]:
  "freep (link_up bp p h) = freep h" "hbase (link_up bp p h) = hbase h"
  "freep (link_down bp p h) = freep h" "hbase (link_down bp p h) = hbase h"
  by (simp_all add: link_up_def link_down_def Let_def)

section \<open>Where a block belongs\<close>

lemma place_split:
  assumes "ordered h lo bs" "lo \<le> unat bp" "0 < unat (hsize h bp)" "bend h bp \<le> 2 ^ 32"
    "bytes_of h bp \<inter> free_bytes h bs = {}"
  shows "\<exists>xs ys. bs = xs @ ys \<and> ordered h lo (xs @ bp # ys)"
  using assms
proof (induction bs arbitrary: lo)
  case Nil
  then show ?case by auto
next
  case (Cons a bs)
  have d: "bytes_of h bp \<inter> bytes_of h a = {}" "bytes_of h bp \<inter> free_bytes h bs = {}"
    using Cons.prems(5) by (auto simp: free_bytes_def)
  have n: "unat bp \<in> bytes_of h bp" "unat a \<in> bytes_of h a"
    using Cons.prems(1,3) by (auto simp: bytes_of_def bend_def)
  show ?case
  proof (cases "unat bp < unat a")
    case True
    with d(1) n(2) have "bend h bp \<le> unat a" by (force simp: bytes_of_def)
    with Cons.prems have "ordered h lo ([] @ bp # a # bs)" by simp
    then show ?thesis by blast
  next
    case False
    with d(1) n(1) have "bend h a \<le> unat bp" by (force simp: bytes_of_def)
    with Cons.IH[of "bend h a"] Cons.prems d(2) obtain xs ys where
      "bs = xs @ ys" "ordered h (bend h a) (xs @ bp # ys)" by auto
    with Cons.prems have "a # bs = (a # xs) @ ys \<and> ordered h lo ((a # xs) @ bp # ys)" by simp
    then show ?thesis by blast
  qed
qed

lemma ordered_sorted: "ordered h lo bs \<Longrightarrow> sorted_wrt (<) bs"
proof (induction bs arbitrary: lo)
  case (Cons a bs)
  then have "ordered h (bend h a) bs" "0 < unat (hsize h a)" by auto
  with ordered_le[of h "bend h a" bs] have "\<forall>b\<in>set bs. unat a < unat b" by (force simp: bend_def)
  with Cons show ?case by (auto simp: word_less_nat_alt)
qed simp

lemma find_place_up:
  "path h x (ws @ [p]) q \<Longrightarrow> sorted_wrt (<) (ws @ [p]) \<Longrightarrow> \<forall>w\<in>set (ws @ [p]). w < bp \<Longrightarrow>
     bp < q \<or> q \<le> p \<Longrightarrow> find_place h bp x = Some p"
proof (induction ws arbitrary: x)
  case Nil
  then show ?case by (subst find_place.simps) auto
next
  case (Cons w ws)
  obtain w' us where w': "ws @ [p] = w' # us" by (cases ws) auto
  have x: "x = w" and n: "hptr h w = w'" and lt: "w < w'" "w' < bp" "w < bp"
    using Cons.prems w' by (auto simp: w')
  have "find_place h bp (hptr h w) = Some p" using Cons.prems by (intro Cons.IH) auto
  moreover have "find_place h bp w = find_place h bp (hptr h w)"
    using n lt by (subst find_place.simps) auto
  ultimately show ?case by (simp add: x)
qed

lemma find_place_wrap:
  "path h x ys b \<Longrightarrow> sorted_wrt (<) ys \<Longrightarrow> \<forall>y\<in>set ys. bp < y \<Longrightarrow> b < bp \<Longrightarrow> find_place h bp x = find_place h bp b"
proof (induction ys arbitrary: x)
  case (Cons y ys)
  have "find_place h bp (hptr h y) = find_place h bp b" using Cons.prems by (intro Cons.IH) auto
  moreover have "\<not> (y \<ge> hptr h y \<and> (bp > y \<or> bp < hptr h y))"
    using Cons.prems by (cases ys) auto
  then have "find_place h bp y = find_place h bp (hptr h y)"
    using Cons.prems by (subst find_place.simps) auto
  ultimately show ?case using Cons.prems by simp
qed simp

text \<open>From wherever the search starts, it ends at the last header before the block.\<close>

lemma find_place_last:
  assumes inv: "heap_inv h (xs @ ys)" and o: "ordered h (unat (hbase h) + 16) (xs @ bp # ys)"
  shows "find_place h bp (freep h) = Some (last (hbase h # xs))"
proof -
  let ?b = "hbase h" and ?p = "last (hbase h # xs)"
  let ?q = "if ys = [] then hbase h else hd ys"
  have bp: "unat ?b + 16 \<le> unat bp"
    using ordered_le[OF o] by auto
  have sx: "sorted_wrt (<) (xs @ bp # ys)" by (rule ordered_sorted[OF o])
  have bx: "\<forall>x\<in>set xs. ?b < x"
  proof
    fix x assume "x \<in> set xs"
    then have "unat ?b + 16 \<le> unat x" using ordered_le[OF o] by simp
    then show "?b < x" by (simp add: word_less_nat_alt)
  qed
  have b: "?b < bp" using bp by (simp add: word_less_nat_alt)
  have sN: "sorted_wrt (<) (?b # xs)" "\<forall>w\<in>set (?b # xs). w < bp" "sorted_wrt (<) ys" "\<forall>y\<in>set ys. bp < y"
    using sx bx b by (auto simp: sorted_wrt_append)
  obtain c where c: "path h ?b (?b # xs) c" "path h c ys ?b"
    using inv by (auto simp: heap_inv_def path_append)
  have cq: "bp < c \<or> c \<le> ?p"
  proof (cases ys)
    case Nil
    with c(2) have "c = ?b" by simp
    moreover have "?b \<le> ?p" using bx by (cases xs rule: rev_cases) (auto intro: less_imp_le)
    ultimately show ?thesis by simp
  next
    case (Cons y ys')
    with c(2) sN(4) show ?thesis by simp
  qed
  have up: "find_place h bp x = Some ?p" if "?b # xs = us @ x # vs" for x us vs
  proof -
    define ws where "ws = butlast (x # vs)"
    have "last (x # vs) = ?p" using arg_cong[OF that, of last] by simp
    then have ws: "x # vs = ws @ [?p]" using append_butlast_last_id[of "x # vs"] by (simp add: ws_def)
    have "path h x (x # vs) c" using c(1) unfolding that path_append by auto
    moreover have "sorted_wrt (<) (x # vs)" "\<forall>w\<in>set (x # vs). w < bp"
      using sN(1,2) unfolding that by (auto simp: sorted_wrt_append)
    ultimately show ?thesis unfolding ws using cq by (rule find_place_up)
  qed
  from inv have "freep h \<in> set (?b # xs) \<or> freep h \<in> set ys" by (auto simp: heap_inv_def)
  then show ?thesis
  proof
    assume "freep h \<in> set (?b # xs)"
    then obtain us vs where "?b # xs = us @ freep h # vs" by (meson split_list)
    then show ?thesis by (rule up)
  next
    assume "freep h \<in> set ys"
    then obtain us vs where y: "ys = us @ freep h # vs" by (meson split_list)
    have "path h (freep h) (freep h # vs) ?b" using c(2) unfolding y path_append by auto
    moreover have "sorted_wrt (<) (freep h # vs)" "\<forall>y\<in>set (freep h # vs). bp < y"
      using sN(3,4) unfolding y by (auto simp: sorted_wrt_append)
    ultimately have "find_place h bp (freep h) = find_place h bp ?b" using b by (intro find_place_wrap)
    with up[of "[]" ?b xs] show ?thesis by simp
  qed
qed

section \<open>Freeing\<close>

lemma unat_ucast_u64: "unat (ucast (x :: u32) :: u64) = unat x"
proof -
  have "unat x < 2 ^ 64" using unat_bound[of x] by simp
  then show ?thesis by (simp add: unsigned_ucast_eq take_bit_nat_eq_self)
qed

lemma unat_after: "bend h a \<le> 2 ^ 32 \<Longrightarrow> unat (after h a) = bend h a"
proof -
  assume b: "bend h a \<le> 2 ^ 32"
  have "unat (HDR * ucast (hsize h a) :: u64) = 16 * unat (hsize h a)"
    using b by (subst unat_mult_lem[THEN iffD1]) (simp_all add: HDR_def bend_def unat_ucast_u64)
  then show ?thesis
    using b unfolding after_def by (subst unat_add_lem[THEN iffD1]) (simp_all add: bend_def)
qed

text \<open>Two blocks that touch become one.\<close>

lemma join_sizes:
  assumes "bend h a = unat b" "bend h b \<le> 2 ^ 32"
  shows "unat (hsize h a + hsize h b) = unat (hsize h a) + unat (hsize h b)"
    "unat a + 16 * unat (hsize h a + hsize h b) = bend h b"
proof -
  have "16 * (unat (hsize h a) + unat (hsize h b)) \<le> 2 ^ 32" using assms by (simp add: bend_def)
  then show e: "unat (hsize h a + hsize h b) = unat (hsize h a) + unat (hsize h b)"
    by (subst unat_add_lem[THEN iffD1]) simp_all
  show "unat a + 16 * unat (hsize h a + hsize h b) = bend h b" unfolding e using assms(1) by (simp add: bend_def)
qed

definition unchanged :: "u64 set \<Rightarrow> 'a heap_scheme \<Rightarrow> 'a heap_scheme \<Rightarrow> bool" where
  "unchanged A h h' \<longleftrightarrow> (\<forall>a. a \<notin> A \<longrightarrow> hptr h' a = hptr h a \<and> hsize h' a = hsize h a) \<and> hbase h' = hbase h"

lemma unchanged_keep:
  assumes "unchanged A h h'" "A \<inter> set as = {}"
  shows "path h' a as d = path h a as d" "ordered h' lo as = ordered h lo as" "free_bytes h' as = free_bytes h as"
proof -
  have e: "hptr h' x = hptr h x" "hsize h' x = hsize h x" if "x \<in> set as" for x
    using assms that by (auto simp: unchanged_def)
  show "path h' a as d = path h a as d" by (rule path_cong) (rule e)
  show "ordered h' lo as = ordered h lo as" by (rule ordered_cong) (rule e)
  show "free_bytes h' as = free_bytes h as" using e(2) by (simp add: free_bytes_def bytes_of_def bend_def)
qed

lemma link_up_spec:
  assumes o: "ordered h lo (bp # ys)" and p: "path h (hptr h p) ys b" "unat b < unat bp" "p \<noteq> bp"
  shows "\<exists>zs. path (link_up bp p h) bp (bp # zs) b \<and> ordered (link_up bp p h) lo (bp # zs) \<and>
    free_bytes (link_up bp p h) (bp # zs) = free_bytes h (bp # ys) \<and> set zs \<subseteq> set ys \<and> unchanged {bp} h (link_up bp p h) \<and>
    unat (hsize h bp) \<le> unat (hsize (link_up bp p h) bp)"
proof -
  let ?q = "hptr h p"
  have b: "bend h bp \<le> 2 ^ 32" "lo \<le> unat bp" "0 < unat (hsize h bp)" "ordered h (bend h bp) ys"
    using o ordered_le[of h "bend h bp" ys] by auto
  have nb: "\<forall>y\<in>set ys. y \<noteq> bp" using ordered_le[OF b(4)] b(3) by (fastforce simp: bend_def)
  show ?thesis
  proof (cases "after h bp = ?q")
    case True
    then have e: "bend h bp = unat ?q" using unat_after[OF b(1)] by simp
    have "ys \<noteq> []" using p(1,2) e by (auto simp: bend_def)
    then obtain zs where ys: "ys = ?q # zs" using p(1) by (cases ys) auto
    have q: "bend h ?q \<le> 2 ^ 32" "0 < unat (hsize h ?q)" "ordered h (bend h ?q) zs"
      using b(4) ordered_le[of h "bend h ?q" zs] by (auto simp: ys)
    let ?h = "link_up bp p h"
    have h: "?h = set_ptr bp (hptr h ?q) (set_size bp (hsize h bp + hsize h ?q) h)" using True by (simp add: link_up_def Let_def)
    note J = join_sizes[OF e q(1)]
    have be: "bend ?h bp = bend h ?q" using J(2) by (simp add: h bend_def)
    have same: "hptr ?h x = hptr h x" "hsize ?h x = hsize h x" if "x \<in> set zs" for x
      using that nb by (auto simp: h ys)
    have "path ?h bp (bp # zs) b" using p(1) path_cong[of zs ?h h] same by (simp add: ys h)
    moreover have "ordered ?h lo (bp # zs)"
      using b(2,3) q(3) be ordered_cong[of zs ?h h] same J(1) by (simp add: h)
    moreover have "free_bytes ?h (bp # zs) = free_bytes h (bp # ys)"
    proof -
      have "bytes_of ?h x = bytes_of h x" if "x \<in> set zs" for x using same[OF that] by (simp add: bytes_of_def bend_def)
      moreover have "bytes_of ?h bp = bytes_of h bp \<union> bytes_of h ?q"
        using e q(2) b(3) by (auto simp: bytes_of_def be) (simp_all add: bend_def)
      ultimately show ?thesis by (auto simp: free_bytes_def ys)
    qed
    ultimately show ?thesis using J(1) by (intro exI[of _ zs]) (auto simp: unchanged_def h ys)
  next
    case False
    let ?h = "link_up bp p h"
    have h: "?h = set_ptr bp ?q h" using False by (simp add: link_up_def Let_def)
    have "path ?h bp (bp # ys) b" using p(1) path_cong[of ys ?h h] nb by (simp add: h)
    moreover have "ordered ?h lo (bp # ys)" using o by (subst ordered_cong[of "bp # ys" ?h h]) (simp_all add: h)
    moreover have "free_bytes ?h (bp # ys) = free_bytes h (bp # ys)" by (simp add: free_bytes_def bytes_of_def bend_def h)
    ultimately show ?thesis by (intro exI[of _ ys]) (auto simp: unchanged_def h)
  qed
qed

lemma link_down_spec:
  assumes o: "ordered h (unat b + 16) (xs @ bp # zs)" and p: "path h b (b # xs) c" "path h bp (bp # zs) b"
    and b: "hsize h b = 0" and p_def: "p = last (b # xs)"
  shows "\<exists>bs. path (link_down bp p h) (hptr (link_down bp p h) b) bs b \<and> ordered (link_down bp p h) (unat b + 16) bs \<and>
    free_bytes (link_down bp p h) bs = free_bytes h (xs @ bp # zs) \<and> set bs \<subseteq> set (xs @ bp # zs) \<and> p \<in> set (b # bs) \<and>
    unchanged {p} h (link_down bp p h) \<and> hsize (link_down bp p h) b = 0 \<and>
    (\<exists>a\<in>set bs. unat (hsize h bp) \<le> unat (hsize (link_down bp p h) a))"
proof -
  let ?h = "link_down bp p h"
  have L: "\<forall>a\<in>set (xs @ bp # zs). unat b + 16 \<le> unat a \<and> 0 < unat (hsize h a) \<and> bend h a \<le> 2 ^ 32"
    using ordered_le[OF o] by blast
  have nb: "b \<notin> set (xs @ bp # zs)" using L by fastforce
  have dist: "distinct (xs @ bp # zs)" using ordered_sorted[OF o] strict_sorted_iff[of "xs @ bp # zs"] by blast
  show ?thesis
  proof (cases xs rule: rev_cases)
    case Nil
    then have pb: "p = b" by (simp add: p_def)
    have "after h b \<noteq> bp" using nb by (simp add: after_def b Nil)
    then have h: "?h = set_ptr b bp h" by (simp add: link_down_def pb)
    have "path ?h bp (bp # zs) b" using p(2) nb by (subst path_cong[of _ ?h h]) (auto simp: h Nil)
    moreover have "ordered ?h (unat b + 16) (bp # zs)"
      using o by (subst ordered_cong[of _ ?h h]) (simp_all add: h Nil)
    ultimately show ?thesis
      by (intro exI[of _ "bp # zs"]) (simp add: h[unfolded pb] pb b Nil unchanged_def free_bytes_def bytes_of_def bend_def)
  next
    case (snoc xs' x)
    then have px: "p = x" by (simp add: p_def)
    have xs: "path h (hptr h b) xs' x" "hptr h x = c" using p(1) by (auto simp: snoc path_append)
    have xb: "x \<noteq> b" "x \<noteq> bp" "x \<notin> set xs'" "x \<notin> set zs" using nb dist by (auto simp: snoc)
    have ox: "ordered h (unat b + 16) xs'" "(if xs' = [] then unat b + 16 else bend h (last xs')) \<le> unat x"
      "0 < unat (hsize h x)" "bend h x \<le> unat bp" "0 < unat (hsize h bp)" "ordered h (bend h bp) zs" "bend h bp \<le> 2 ^ 32"
      using o L by (auto simp: snoc ordered_append)
    have un: "unchanged {x} h ?h" by (simp add: unchanged_def link_down_def px)
    then have same: "hptr ?h a = hptr h a" "hsize ?h a = hsize h a" if "a \<noteq> x" for a
      using that by (simp_all add: unchanged_def)
    have keep: "path ?h a as d = path h a as d" "ordered ?h lo as = ordered h lo as" "free_bytes ?h as = free_bytes h as"
      if "x \<notin> set as" for a as d lo
      using unchanged_keep[OF un, of as] that by simp_all
    have front: "path ?h (hptr ?h b) xs' x" using xs(1) xb keep(1)[of xs'] same(1)[of b] by simp
    show ?thesis
    proof (cases "after h x = bp")
      case True
      then have e: "bend h x = unat bp" using unat_after[of h x] L by (auto simp: snoc)
      have h: "?h = set_ptr x (hptr h bp) (set_size x (hsize h x + hsize h bp) h)" using True by (simp add: link_down_def px)
      note J = join_sizes[OF e ox(7)]
      have be: "bend ?h x = bend h bp" using J(2) by (simp add: h bend_def)
      have "path ?h (hptr ?h b) (xs' @ x # zs) b"
        using front p(2) keep(1)[of zs] xb by (auto simp: path_append h)
      moreover have "ordered ?h (unat b + 16) (xs' @ x # zs)"
      proof -
        have l: "last xs' \<noteq> x" if "xs' \<noteq> []" using xb(3) that last_in_set by blast
        have "bend ?h (last xs') = bend h (last xs')" if "xs' \<noteq> []" using same(2)[OF l[OF that]] by (simp add: bend_def)
        then show ?thesis
          using ox keep(2)[of xs'] keep(2)[of zs] xb be J(1) by (auto simp: ordered_append h)
      qed
      moreover have "free_bytes ?h (xs' @ x # zs) = free_bytes h (xs @ bp # zs)"
      proof -
        have "bytes_of ?h x = bytes_of h x \<union> bytes_of h bp"
          using e ox(3,5) by (auto simp: bytes_of_def be) (simp_all add: bend_def)
        then show ?thesis using keep(3)[of xs'] keep(3)[of zs] xb by (auto simp: free_bytes_def snoc)
      qed
      ultimately show ?thesis
        using same[of b] xb b un J(1) by (intro exI[of _ "xs' @ x # zs"]) (auto simp: px snoc h[unfolded px])
    next
      case False
      then have h: "?h = set_ptr x bp h" by (simp add: link_down_def px)
      have "path ?h (hptr ?h b) (xs @ bp # zs) b"
        using front p(2) keep(1)[of "bp # zs"] xb by (auto simp: path_append snoc h)
      moreover have "ordered ?h (unat b + 16) (xs @ bp # zs)"
        using o by (subst ordered_cong[of _ ?h h]) (simp_all add: h)
      moreover have "free_bytes ?h (xs @ bp # zs) = free_bytes h (xs @ bp # zs)"
        by (simp add: free_bytes_def bytes_of_def bend_def h)
      ultimately show ?thesis
        using b same[of b] xb un by (intro exI[of _ "xs @ bp # zs"]) (auto simp: px snoc h[unfolded px])
    qed
  qed
qed

lemma heap_cong:
  assumes "hptr h' = hptr h" "hsize h' = hsize h"
  shows "path h' = path h" "ordered h' = ordered h" "free_bytes h' = free_bytes h" "bytes_of h' = bytes_of h"
proof -
  show "path h' = path h" using path_cong[of _ h' h] assms by (auto simp: fun_eq_iff)
  show "ordered h' = ordered h" using ordered_cong[of _ h' h] assms by (auto simp: fun_eq_iff)
  show "free_bytes h' = free_bytes h" "bytes_of h' = bytes_of h"
    using assms by (auto simp: fun_eq_iff free_bytes_def bytes_of_def bend_def)
qed

text \<open>
  \<open>free\<close> of a block that is not free: the search ends, the list stays well formed, and exactly the bytes of the block become free.
\<close>

lemma free_spec:
  assumes inv: "heap_inv h bs" and bp: "unat (hbase h) + 16 \<le> unat bp" "0 < unat (hsize h bp)" "bend h bp \<le> 2 ^ 32"
    and d: "bytes_of h bp \<inter> free_bytes h bs = {}"
  shows "\<exists>h' bs'. free (bp + HDR) h = Some h' \<and> heap_inv h' bs' \<and> free_bytes h' bs' = free_bytes h bs \<union> bytes_of h bp \<and>
    unchanged (set (hbase h # bp # bs)) h h' \<and> set bs' \<subseteq> set (bp # bs) \<and>
    (\<exists>a\<in>set bs'. unat (hsize h bp) \<le> unat (hsize h' a))"
proof -
  let ?b = "hbase h"
  have i: "path h (hptr h ?b) bs ?b" "?b \<noteq> 0" "hsize h ?b = 0" "ordered h (unat ?b + 16) bs"
    using inv by (simp_all add: heap_inv_def)
  obtain xs ys where bs: "bs = xs @ ys" and o: "ordered h (unat ?b + 16) (xs @ bp # ys)"
    using place_split[OF i(4) bp d] by blast
  define p where "p = last (?b # xs)"
  have f: "find_place h bp (freep h) = Some p" unfolding p_def using find_place_last inv o bs by blast
  let ?h1 = "link_up bp p h" and ?h2 = "link_down bp p (link_up bp p h)"
  have nb: "bp \<notin> set (?b # xs)" "bp \<notin> set ys"
  proof -
    have "sorted_wrt (<) (xs @ bp # ys)" by (rule ordered_sorted[OF o])
    then show "bp \<notin> set (?b # xs)" "bp \<notin> set ys" using bp(1) by (auto simp: sorted_wrt_append)
  qed
  obtain c where c: "path h ?b (?b # xs) c" "path h c ys ?b" using i(1) by (auto simp: bs path_append)
  have pc: "hptr h p = c"
    using c(1) unfolding p_def by (cases xs rule: rev_cases) (auto simp: path_append)
  have pbp: "p \<noteq> bp" unfolding p_def using nb(1) last_in_set[of "?b # xs"] by (metis list.distinct(1))
  have o1: "ordered h (if xs = [] then unat ?b + 16 else bend h (last xs)) (bp # ys)" "ordered h (unat ?b + 16) xs"
    using o by (simp_all add: ordered_append)
  obtain zs where z: "path ?h1 bp (bp # zs) ?b" "ordered ?h1 (if xs = [] then unat ?b + 16 else bend h (last xs)) (bp # zs)"
    "free_bytes ?h1 (bp # zs) = free_bytes h (bp # ys)" "set zs \<subseteq> set ys" "unchanged {bp} h ?h1"
    "unat (hsize h bp) \<le> unat (hsize ?h1 bp)"
    using link_up_spec[OF o1(1), of p ?b] c(2) pc pbp bp(1) by auto
  have k: "path ?h1 ?b (?b # xs) c" "ordered ?h1 (unat ?b + 16) xs" "free_bytes ?h1 xs = free_bytes h xs"
    using unchanged_keep[OF z(5), of "?b # xs"] unchanged_keep[OF z(5), of xs] c(1) o1(2) nb(1) by auto
  have bl: "bend ?h1 (last xs) = bend h (last xs)" if "xs \<noteq> []"
    using z(5) nb(1) last_in_set[OF that] by (auto simp: unchanged_def bend_def)
  have s1: "hsize ?h1 ?b = 0" using z(5) i(3) nb(1) by (auto simp: unchanged_def)
  have o2: "ordered ?h1 (unat ?b + 16) (xs @ bp # zs)" using z(2) k(2) bl by (auto simp: ordered_append)
  obtain bs' where r: "path ?h2 (hptr ?h2 ?b) bs' ?b" "ordered ?h2 (unat ?b + 16) bs'"
    "free_bytes ?h2 bs' = free_bytes ?h1 (xs @ bp # zs)" "set bs' \<subseteq> set (xs @ bp # zs)" "p \<in> set (?b # bs')"
    "unchanged {p} ?h1 ?h2" "hsize ?h2 ?b = 0" "\<exists>a\<in>set bs'. unat (hsize ?h1 bp) \<le> unat (hsize ?h2 a)"
    using link_down_spec[OF o2 k(1) z(1) s1 p_def] by auto
  have fb: "free_bytes ?h1 (xs @ bp # zs) = free_bytes h bs \<union> bytes_of h bp"
    using z(3) k(3) by (auto simp: free_bytes_def bs)
  have "heap_inv (?h2\<lparr>freep := p\<rparr>) bs'"
    using r(1,2,5,7) i(2) heap_cong[of "?h2\<lparr>freep := p\<rparr>" ?h2] by (simp add: heap_inv_def)
  moreover have "free_bytes (?h2\<lparr>freep := p\<rparr>) bs' = free_bytes h bs \<union> bytes_of h bp"
    using r(3) fb heap_cong[of "?h2\<lparr>freep := p\<rparr>" ?h2] by simp
  moreover have "p \<in> set (?b # xs)" unfolding p_def by (rule last_in_set) simp
  then have "unchanged (set (?b # bp # bs)) h (?h2\<lparr>freep := p\<rparr>)"
    using z(5) r(6) by (auto simp: unchanged_def bs)
  moreover have "free (bp + HDR) h = Some (?h2\<lparr>freep := p\<rparr>)" using f by (simp add: free_def)
  moreover have "set bs' \<subseteq> set (bp # bs)" using r(4) z(4) by (auto simp: bs)
  moreover have "\<exists>a\<in>set bs'. unat (hsize h bp) \<le> unat (hsize (?h2\<lparr>freep := p\<rparr>) a)" using r(8) z(6) by force
  ultimately show ?thesis by blast
qed

end
