(* ===== verification/UmallocProps.thy ===== *)
theory UmallocProps
  imports Umalloc
begin

text \<open>
  Allocation: the search goes once around the free list; when no block is large enough the heap grows and a second search finds
  the new block. A block that \<open>malloc\<close> returns is disjoint from every free block and from everything in use.
\<close>

section \<open>The ring\<close>

lemma heap_inv_nodes:
  assumes "heap_inv h bs"
  shows "path h (hbase h) (hbase h # bs) (hbase h)" "distinct (hbase h # bs)" "sorted_wrt (<) bs"
    "\<forall>a\<in>set bs. unat (hbase h) + 16 \<le> unat a \<and> 0 < unat (hsize h a) \<and> bend h a \<le> 2 ^ 32"
proof -
  have o: "ordered h (unat (hbase h) + 16) bs" using assms by (simp add: heap_inv_def)
  show L: "\<forall>a\<in>set bs. unat (hbase h) + 16 \<le> unat a \<and> 0 < unat (hsize h a) \<and> bend h a \<le> 2 ^ 32"
    using ordered_le[OF o] by blast
  show "sorted_wrt (<) bs" by (rule ordered_sorted[OF o])
  then have "distinct bs" by (simp add: strict_sorted_iff)
  then show "distinct (hbase h # bs)" using L by fastforce
  show "path h (hbase h) (hbase h # bs) (hbase h)" using assms by (simp add: heap_inv_def)
qed

text \<open>The header before a free block is the one in front of it in the list.\<close>

lemma ring_pred:
  assumes inv: "heap_inv h bs" and bs: "bs = xs @ x # ys" and p: "prev \<in> set (hbase h # bs)" "hptr h prev = x"
  shows "prev = last (hbase h # xs)"
proof -
  let ?b = "hbase h"
  note N = heap_inv_nodes[OF inv]
  obtain us vs where s: "?b # bs = us @ prev # vs" using p(1) by (meson split_list)
  have "path h prev (prev # vs) ?b" using N(1) unfolding s path_append by auto
  then have v: "path h x vs ?b" using p(2) by simp
  have "x \<noteq> ?b" using N(2) by (auto simp: bs)
  with v obtain vs' where vs: "vs = x # vs'" by (cases vs) auto
  have "?b # xs @ x # ys = us @ prev # x # vs'" using s by (simp add: bs vs)
  moreover have "distinct (?b # xs @ x # ys)" using N(2) by (simp add: bs)
  ultimately have "?b # xs = us @ [prev]"
    using append_eq_append_conv2[of "?b # xs" "x # ys" "us @ [prev]" "x # vs'"]
    by (auto simp: append_eq_Cons_conv Cons_eq_append_conv)
  then show ?thesis by simp
qed

lemma ordered_disjoint:
  assumes "ordered h lo (xs @ p # ys)"
  shows "bytes_of h p \<inter> free_bytes h (xs @ ys) = {}"
proof -
  have y: "\<forall>y\<in>set ys. bend h p \<le> unat y" using assms ordered_le[of h "bend h p" ys] by (simp add: ordered_append)
  have x: "\<forall>x\<in>set xs. bend h x \<le> unat p"
    using assms
  proof (induction xs arbitrary: lo)
    case (Cons a xs)
    then have "ordered h (bend h a) (xs @ p # ys)" by simp
    with Cons.IH[OF this] ordered_le[OF this] show ?case by simp
  qed simp
  show ?thesis using x y by (fastforce simp: free_bytes_def bytes_of_def)
qed

section \<open>Taking a block\<close>

text \<open>\<open>given\<close>: the block at \<open>bp\<close> has been taken out of the free blocks \<open>bs\<close> of \<open>h\<close>.\<close>

definition given :: "u32 \<Rightarrow> 'a heap_scheme \<Rightarrow> u64 list \<Rightarrow> u64 \<Rightarrow> 'a heap_scheme \<Rightarrow> u64 list \<Rightarrow> bool" where
  "given n h bs bp h' bs' \<longleftrightarrow> heap_inv h' bs' \<and> hsize h' bp = n \<and> bytes_of h' bp \<subseteq> free_bytes h bs \<and>
     free_bytes h' bs' = free_bytes h bs - bytes_of h' bp \<and> unat (hbase h) + 16 \<le> unat bp \<and> bend h' bp \<le> 2 ^ 32 \<and>
     (\<forall>a. unat a \<notin> free_bytes h bs \<and> a \<noteq> hbase h \<longrightarrow> hptr h' a = hptr h a \<and> hsize h' a = hsize h a) \<and> hbase h' = hbase h"

lemma node_in_free: "heap_inv h bs \<Longrightarrow> a \<in> set bs \<Longrightarrow> unat a \<in> free_bytes h bs"
  using heap_inv_nodes(4)[of h bs] by (force simp: free_bytes_def bytes_of_def bend_def)

lemma carve_exact:
  assumes inv: "heap_inv h bs" and x: "x \<in> set bs" "hsize h x = n" and p: "prev \<in> set (hbase h # bs)" "hptr h prev = x"
  shows "\<exists>h' bs'. carve n prev x h = (x + HDR, h') \<and> given n h bs x h' bs'"
proof -
  let ?b = "hbase h"
  note N = heap_inv_nodes[OF inv]
  obtain xs ys where bs: "bs = xs @ x # ys" using x(1) by (meson split_list)
  have pv: "prev = last (?b # xs)" by (rule ring_pred[OF inv bs p])
  define h' where "h' = (set_ptr prev (hptr h x) h)\<lparr>freep := prev\<rparr>"
  have i: "path h (hptr h ?b) bs ?b" "?b \<noteq> 0" "hsize h ?b = 0" "ordered h (unat ?b + 16) bs"
    using inv by (simp_all add: heap_inv_def)
  have dist: "x \<notin> set (?b # xs)" "x \<notin> set ys" "set (?b # xs) \<inter> set ys = {}" "distinct (?b # xs)" using N(2) by (auto simp: bs)
  have c: "path h ?b (?b # xs) x" "path h (hptr h x) ys ?b" using i(1) by (auto simp: bs path_append)
  have "path h' ?b (?b # xs) (hptr h x)"
  proof -
    define ws where "ws = butlast (?b # xs)"
    have e: "?b # xs = ws @ [prev]" using append_butlast_last_id[of "?b # xs"] by (simp add: ws_def pv)
    have "path h ?b ws prev" using c(1) unfolding e path_append by auto
    moreover have "prev \<notin> set ws" using dist(4) unfolding e by simp
    ultimately have "path h' ?b ws prev" by (subst path_cong[of ws h' h]) (auto simp: h'_def)
    then show ?thesis unfolding e by (auto simp: path_append h'_def)
  qed
  moreover have pys: "prev \<notin> set ys" using dist(3) pv last_in_set[of "?b # xs"] by auto
  then have "path h' (hptr h x) ys ?b" using c(2) by (subst path_cong[of ys h' h]) (auto simp: h'_def)
  ultimately have "path h' (hptr h' ?b) (xs @ ys) ?b" by (auto simp: path_append)
  moreover have "ordered h' (unat ?b + 16) (xs @ ys)"
  proof -
    have "ordered h (unat ?b + 16) (xs @ ys)"
    proof -
      have "ordered h (if xs = [] then unat ?b + 16 else bend h (last xs)) (x # ys)" "ordered h (unat ?b + 16) xs"
        using i(4) by (simp_all add: bs ordered_append)
      moreover have "ordered h lo ys" if "ordered h lo (x # ys)" for lo
        using that by (cases ys) (auto simp: bend_def ordered_le)
      ultimately show ?thesis by (simp add: ordered_append)
    qed
    then show ?thesis by (subst ordered_cong[of _ h' h]) (simp_all add: h'_def)
  qed
  moreover have "prev \<in> set (?b # xs @ ys)" using pv last_in_set[of "?b # xs"] by auto
  ultimately have I: "heap_inv h' (xs @ ys)" using i(2,3) by (simp add: heap_inv_def h'_def)
  have fb: "free_bytes h' (xs @ ys) = free_bytes h (xs @ ys)" "bytes_of h' x = bytes_of h x"
    by (simp_all add: free_bytes_def bytes_of_def bend_def h'_def)
  have "free_bytes h' (xs @ ys) = free_bytes h bs - bytes_of h' x"
    using ordered_disjoint[of h "unat ?b + 16" xs x ys] i(4) unfolding fb by (auto simp: free_bytes_def bs)
  moreover have "bytes_of h' x \<subseteq> free_bytes h bs" using fb(2) x(1) by (auto simp: free_bytes_def)
  moreover have "hptr h' a = hptr h a \<and> hsize h' a = hsize h a" if "unat a \<notin> free_bytes h bs" "a \<noteq> ?b" for a
    using that node_in_free[OF inv, of prev] p(1) by (auto simp: h'_def)
  ultimately have "given n h bs x h' (xs @ ys)"
    using I x N(4) by (auto simp: given_def bend_def h'_def)
  moreover have "carve n prev x h = (x + HDR, h')" using x(2) by (simp add: carve_def h'_def)
  ultimately show ?thesis by blast
qed

lemma carve_split:
  assumes inv: "heap_inv h bs" and x: "x \<in> set bs" "n < hsize h x" "0 < unat n" and p: "prev \<in> set (hbase h # bs)"
  shows "\<exists>bp h'. carve n prev x h = (bp + HDR, h') \<and> given n h bs bp h' bs"
proof -
  let ?b = "hbase h"
  note N = heap_inv_nodes[OF inv]
  obtain xs ys where bs: "bs = xs @ x # ys" using x(1) by (meson split_list)
  have i: "path h (hptr h ?b) bs ?b" "?b \<noteq> 0" "hsize h ?b = 0" "ordered h (unat ?b + 16) bs"
    using inv by (simp_all add: heap_inv_def)
  have sz: "unat (hsize h x - n) = unat (hsize h x) - unat n" "unat n < unat (hsize h x)"
    using x(2) by (simp_all add: unat_sub word_less_nat_alt less_imp_le)
  define h1 where "h1 = set_size x (hsize h x - n) h"
  define r where "r = after h1 x"
  define h' where "h' = (set_size r n h1)\<lparr>freep := prev\<rparr>"
  have b1: "bend h1 x = unat x + 16 * (unat (hsize h x) - unat n)" by (simp add: bend_def h1_def sz(1))
  have be: "bend h1 x + 16 * unat n = bend h x" unfolding b1 using sz(2) by (simp add: bend_def diff_mult_distrib2)
  have bx: "bend h x \<le> 2 ^ 32" using N(4) x(1) by blast
  have ur: "unat r = bend h1 x" unfolding r_def by (rule unat_after) (use be bx in simp)
  have rin: "unat x < unat r" "unat r < bend h x" using sz(2) x(3) be by (simp_all add: ur b1)
  have rbs: "r \<notin> set bs"
  proof
    assume "r \<in> set bs"
    then have "r \<in> set (xs @ ys)" using rin(1) by (auto simp: bs)
    moreover have "unat r \<in> bytes_of h r" using N(4) \<open>r \<in> set bs\<close> by (auto simp: bytes_of_def bend_def)
    ultimately have "unat r \<in> free_bytes h (xs @ ys)" by (auto simp: free_bytes_def)
    moreover have "unat r \<in> bytes_of h x" using rin by (simp add: bytes_of_def)
    ultimately show False using ordered_disjoint[of h "unat ?b + 16" xs x ys] i(4) by (auto simp: bs)
  qed
  have xb: "unat ?b + 16 \<le> unat x" using N(4) x(1) by blast
  have rb: "r \<noteq> ?b" using xb rin(1) by auto
  have un: "unchanged {x, r} h h'" by (simp add: unchanged_def h'_def h1_def)
  have dist: "x \<notin> set (xs @ ys)" "r \<notin> set (xs @ ys)" using N(2) rbs by (auto simp: bs)
  have k: "ordered h' lo as = ordered h lo as" "free_bytes h' as = free_bytes h as" if "set as \<subseteq> set (xs @ ys)" for lo as
  proof -
    have "{x, r} \<inter> set as = {}" using dist that by auto
    from unchanged_keep(2,3)[OF un this]
    show "ordered h' lo as = ordered h lo as" "free_bytes h' as = free_bytes h as" by simp_all
  qed
  have "hsize h' x = hsize h1 x" using rin(1) by (auto simp: h'_def)
  then have hx: "bend h' x = unat r" unfolding ur by (simp add: bend_def)
  have "path h' (hptr h' ?b) bs ?b" using i(1) by (subst path_cong[of bs h' h]) (simp_all add: h'_def h1_def)
  moreover have "ordered h' (unat ?b + 16) bs"
  proof -
    have o: "ordered h (unat ?b + 16) xs" "(if xs = [] then unat ?b + 16 else bend h (last xs)) \<le> unat x" "ordered h (bend h x) ys"
      using i(4) by (auto simp: bs ordered_append)
    have "ordered h lo' ys" if "ordered h lo ys" "lo' \<le> lo" for lo lo'
      using that ordered_le[OF that(1)] by (cases ys) auto
    then have "ordered h' (unat r) ys" using k(1)[of ys] o(3) rin(2) by auto
    moreover have "bend h' (last xs) = bend h (last xs)" if "xs \<noteq> []"
      using last_in_set[OF that] dist un by (auto simp: unchanged_def bend_def)
    moreover have "0 < unat (hsize h' x)" using hx rin(1) by (auto simp: bend_def)
    ultimately show ?thesis using o k(1)[of xs] hx by (auto simp: bs ordered_append)
  qed
  ultimately have I: "heap_inv h' bs" using i(2,3) p rb xb by (auto simp: heap_inv_def h'_def h1_def)
  have sr: "hsize h' r = n" by (simp add: h'_def)
  have "bend h' r = unat r + 16 * unat n" by (simp add: bend_def sr)
  then have er: "bend h' r = bend h x" using be ur by simp
  have br: "bytes_of h' r = {unat r ..< bend h x}" "bend h' r = bend h x" "hsize h' r = n"
    by (simp_all add: bytes_of_def er sr)
  have bxs: "bytes_of h' x = {unat x ..< unat r}" by (simp add: bytes_of_def hx)
  have fx: "free_bytes h bs = bytes_of h x \<union> free_bytes h (xs @ ys)" "free_bytes h' bs = bytes_of h' x \<union> free_bytes h (xs @ ys)"
    using k(2)[of "xs @ ys"] by (auto simp: free_bytes_def bs)
  have d: "bytes_of h x \<inter> free_bytes h (xs @ ys) = {}"
    using ordered_disjoint[of h "unat ?b + 16" xs x ys] i(4) by (simp add: bs)
  have sub: "bytes_of h' r \<subseteq> bytes_of h x" using rin by (auto simp: br bytes_of_def)
  have "bytes_of h' x = bytes_of h x - bytes_of h' r" using rin by (auto simp: br hx bytes_of_def)
  then have "free_bytes h' bs = free_bytes h bs - bytes_of h' r" using fx d sub by auto
  moreover have "bytes_of h' r \<subseteq> free_bytes h bs" using sub fx by auto
  moreover have "hptr h' a = hptr h a \<and> hsize h' a = hsize h a" if "unat a \<notin> free_bytes h bs" for a
  proof -
    have "unat r \<in> bytes_of h x" using rin by (simp add: bytes_of_def)
    then have "a \<noteq> r" "a \<noteq> x" using that node_in_free[OF inv x(1)] fx(1) by auto
    then show ?thesis by (simp add: h'_def h1_def)
  qed
  moreover have "hbase h' = ?b" by (simp add: h'_def h1_def)
  ultimately have "given n h bs r h' bs" using I br(2,3) bx xb rin(1) unfolding given_def by auto
  moreover have "carve n prev x h = (r + HDR, h')" using x(2) by (auto simp: carve_def h'_def h1_def r_def Let_def)
  ultimately show ?thesis by blast
qed

lemma carve_given:
  assumes "heap_inv h bs" "x \<in> set bs" "n \<le> hsize h x" "0 < unat n" "prev \<in> set (hbase h # bs)" "hptr h prev = x"
  shows "\<exists>bp h' bs'. carve n prev x h = (bp + HDR, h') \<and> given n h bs bp h' bs'"
proof (cases "hsize h x = n")
  case True
  with carve_exact[OF assms(1,2) _ assms(5,6), of n] show ?thesis by auto
next
  case False
  then have "n < hsize h x" using assms(3) by simp
  from carve_split[OF assms(1,2) this assms(4,5)] show ?thesis by auto
qed

section \<open>The search\<close>

text \<open>One round along the list up to \<open>freep\<close>: the first block that is large enough is taken.\<close>

lemma search_found:
  assumes "path h p (ws @ [freep h]) q" "freep h \<notin> set ws" "hptr h prev = p" "prev \<in> A" "set (ws @ [freep h]) \<subseteq> A"
    "\<exists>x\<in>set (ws @ [freep h]). n \<le> hsize h x"
  shows "\<exists>prev' x. malloc_loop sbrk n prev p h = Some (carve n prev' x h) \<and> hptr h prev' = x \<and> prev' \<in> A \<and> x \<in> A \<and>
    n \<le> hsize h x"
  using assms
proof (induction ws arbitrary: p prev)
  case Nil
  then have "malloc_loop sbrk n prev p h = Some (carve n prev p h)" by (subst malloc_loop.simps) auto
  with Nil show ?case by (intro exI[of _ prev] exI[of _ p]) auto
next
  case (Cons w ws)
  then have w: "p = w" by simp
  show ?case
  proof (cases "n \<le> hsize h w")
    case True
    then have "malloc_loop sbrk n prev p h = Some (carve n prev w h)" by (subst malloc_loop.simps) (simp add: w)
    with True Cons.prems w show ?thesis by auto
  next
    case False
    then have "malloc_loop sbrk n prev p h = malloc_loop sbrk n w (hptr h w) h"
      using Cons.prems(2) by (subst malloc_loop.simps) (auto simp: w)
    moreover have "\<exists>prev' x. malloc_loop sbrk n w (hptr h w) h = Some (carve n prev' x h) \<and> hptr h prev' = x \<and> prev' \<in> A \<and>
      x \<in> A \<and> n \<le> hsize h x"
      using Cons.prems False by (intro Cons.IH) auto
    ultimately show ?thesis by simp
  qed
qed

lemma search_none:
  assumes "path h p (ws @ [freep h]) q" "freep h \<notin> set ws" "\<forall>x\<in>set (ws @ [freep h]). \<not> n \<le> hsize h x"
  shows "malloc_loop sbrk n prev p h = Option.bind (morecore sbrk n h) (\<lambda>(p', h').
        if p' = 0 then Some (0, h') else malloc_loop sbrk n p' (hptr h' p') h')"
  using assms
proof (induction ws arbitrary: p prev)
  case Nil
  then show ?case by (subst malloc_loop.simps) auto
next
  case (Cons w ws)
  then have "malloc_loop sbrk n prev p h = malloc_loop sbrk n w (hptr h w) h"
    by (subst malloc_loop.simps) auto
  with Cons show ?case by simp
qed

text \<open>The ring as the list of headers from the one after \<open>freep\<close> to \<open>freep\<close> itself.\<close>

lemma ring_from_freep:
  assumes "heap_inv h bs"
  obtains ws where "path h (hptr h (freep h)) (ws @ [freep h]) (hptr h (freep h))" "freep h \<notin> set ws"
    "set (ws @ [freep h]) = set (hbase h # bs)"
proof -
  let ?b = "hbase h"
  note N = heap_inv_nodes[OF assms]
  have "freep h \<in> set (?b # bs)" using assms by (simp add: heap_inv_def)
  then obtain us vs where s: "?b # bs = us @ freep h # vs" by (meson split_list)
  have "path h ?b us (freep h)" "path h (hptr h (freep h)) vs ?b" using N(1) unfolding s path_append by auto
  then have "path h (hptr h (freep h)) ((vs @ us) @ [freep h]) (hptr h (freep h))" by (auto simp: path_append)
  moreover have "freep h \<notin> set (vs @ us)" using N(2) unfolding s by auto
  moreover have "set ((vs @ us) @ [freep h]) = set (?b # bs)" unfolding s by auto
  ultimately show thesis by (rule that)
qed

text \<open>The header \<open>base\<close> has size 0 and is never taken.\<close>

lemma malloc_loop_found:
  assumes inv: "heap_inv h bs" and n: "0 < unat n" "\<exists>x\<in>set bs. n \<le> hsize h x"
  shows "\<exists>bp h' bs'. malloc_loop sbrk n (freep h) (hptr h (freep h)) h = Some (bp + HDR, h') \<and> given n h bs bp h' bs'"
proof -
  obtain ws where ws: "path h (hptr h (freep h)) (ws @ [freep h]) (hptr h (freep h))" "freep h \<notin> set ws"
    "set (ws @ [freep h]) = set (hbase h # bs)" using ring_from_freep[OF inv] by blast
  have fp: "freep h \<in> set (hbase h # bs)" using inv by (simp add: heap_inv_def)
  obtain prev x where m: "malloc_loop sbrk n (freep h) (hptr h (freep h)) h = Some (carve n prev x h)" "hptr h prev = x"
    "prev \<in> set (hbase h # bs)" "x \<in> set (hbase h # bs)" "n \<le> hsize h x"
  proof -
    have "set (ws @ [freep h]) \<subseteq> set (hbase h # bs)" "\<exists>x\<in>set (ws @ [freep h]). n \<le> hsize h x"
      unfolding ws(3) using n(2) by auto
    from search_found[OF ws(1,2) refl fp this, of sbrk] show thesis using that by blast
  qed
  have "hsize h (hbase h) = 0" using inv by (simp add: heap_inv_def)
  then have "x \<in> set bs" using m(4,5) n(1) by (auto simp: word_le_nat_alt)
  from carve_given[OF inv this m(5) n(1) m(3,2)] m(1) show ?thesis by metis
qed

section \<open>Growing the heap\<close>

text \<open>
  What \<open>malloc\<close> relies on: \<open>sbrk\<close> fails and changes nothing, or returns the start of \<open>k\<close> bytes that are neither free nor in
  use (\<open>U\<close>), above the static data, and leaves the headers alone.
\<close>

definition sbrk_gives :: "'a sbrk_fn \<Rightarrow> 'a heap_scheme \<Rightarrow> nat set \<Rightarrow> int \<Rightarrow> bool" where
  "sbrk_gives sbrk h U k \<longleftrightarrow> (case sbrk k h of (p, h1) \<Rightarrow>
     hptr h1 = hptr h \<and> hsize h1 = hsize h \<and> freep h1 = freep h \<and> hbase h1 = hbase h \<and>
     (p \<noteq> -1 \<longrightarrow> unat (hbase h) + 16 \<le> unat p \<and> unat p + nat k \<le> 2 ^ 32 \<and> {unat p ..< unat p + nat k} \<inter> U = {}))"

definition grow_units :: "u32 \<Rightarrow> u32" where
  "grow_units n = (if n < 4096 then 4096 else n)"

lemma c_int_units: "unat n < 2 ^ 27 \<Longrightarrow> c_int (uint n * 16) = uint n * 16"
proof -
  assume "unat n < 2 ^ 27"
  then have "int (unat n * 16) < int (2 ^ 31)" by (simp only: of_nat_less_iff) simp
  then have "int (unat n) * 16 < 2 ^ 31" by (simp del: of_nat_unat)
  then show ?thesis unfolding uint_nat by (intro c_int_id) (simp_all del: of_nat_unat)
qed

lemma morecore_spec:
  assumes inv: "heap_inv h bs" and n: "unat n < 2 ^ 27"
    and s: "sbrk_gives sbrk h (free_bytes h bs \<union> U) (uint (grow_units n) * 16)"
  shows "fst (sbrk (uint (grow_units n) * 16) h) = -1 \<and>
    (\<exists>h'. morecore sbrk n h = Some (0, h') \<and> heap_inv h' bs \<and> hptr h' = hptr h \<and> hsize h' = hsize h \<and> hbase h' = hbase h) \<or>
    (\<exists>h' bs' N. morecore sbrk n h = Some (freep h', h') \<and> freep h' \<noteq> 0 \<and> heap_inv h' bs' \<and> free_bytes h' bs' = free_bytes h bs \<union> N \<and>
      N \<inter> U = {} \<and> (\<exists>x\<in>set bs'. n \<le> hsize h' x) \<and> hbase h' = hbase h \<and>
      (\<forall>a. unat a \<notin> free_bytes h bs \<union> N \<and> a \<noteq> hbase h \<longrightarrow> hptr h' a = hptr h a \<and> hsize h' a = hsize h a))"
proof -
  let ?g = "grow_units n"
  have g: "unat ?g < 2 ^ 27" "n \<le> ?g" "0 < unat ?g"
    using n by (cases "n < 4096"; simp add: grow_units_def word_less_nat_alt word_le_nat_alt)+
  have ci: "c_int (uint ?g * 16) = uint ?g * 16" by (rule c_int_units[OF g(1)])
  have nk: "nat (uint ?g * 16) = 16 * unat ?g" unfolding uint_nat by (simp only: nat_mult_distrib nat_int mult.commute) simp
  obtain p h1 where sb: "sbrk (uint ?g * 16) h = (p, h1)" by (cases "sbrk (uint ?g * 16) h")
  have S: "hptr h1 = hptr h" "hsize h1 = hsize h" "freep h1 = freep h" "hbase h1 = hbase h"
    and P: "p \<noteq> -1 \<Longrightarrow> unat (hbase h) + 16 \<le> unat p \<and> unat p + 16 * unat ?g \<le> 2 ^ 32 \<and>
       {unat p ..< unat p + 16 * unat ?g} \<inter> (free_bytes h bs \<union> U) = {}"
    using s unfolding sbrk_gives_def sb nk by auto
  have mc: "morecore sbrk n h = (if p = -1 then Some (0, h1)
      else case free (p + HDR) (set_size p ?g h1) of None \<Rightarrow> None | Some h2 \<Rightarrow> Some (freep h2, h2))"
    unfolding morecore_def Let_def grow_units_def[symmetric] ci sb by simp
  have inv1: "heap_inv h1 bs" using inv S heap_cong[of h1 h] by (simp add: heap_inv_def)
  show ?thesis
  proof (cases "p = -1")
    case True
    then show ?thesis using mc inv1 S sb by auto
  next
    case False
    note P = P[OF False]
    let ?h = "set_size p ?g h1" and ?N = "{unat p ..< unat p + 16 * unat ?g}"
    have pb: "p \<notin> set bs" using P node_in_free[OF inv, of p] g(3) by force
    have pbase: "p \<noteq> hbase h" using P by auto
    have un: "unchanged {p} h1 ?h" by (simp add: unchanged_def)
    have k: "path ?h a bs d = path h1 a bs d" "ordered ?h lo bs = ordered h1 lo bs" "free_bytes ?h bs = free_bytes h1 bs" for a d lo
      using unchanged_keep[OF un, of bs] pb by auto
    have inv2: "heap_inv ?h bs" using inv1 k pbase S by (simp add: heap_inv_def)
    have fb: "free_bytes ?h bs = free_bytes h bs" using k(3) heap_cong[of h1 h] S by simp
    have bp: "bytes_of ?h p = ?N" "bend ?h p \<le> 2 ^ 32" using P by (simp_all add: bytes_of_def bend_def)
    have "unat (hbase ?h) + 16 \<le> unat p" "0 < unat (hsize ?h p)" using P g(3) S by simp_all
    moreover have "bytes_of ?h p \<inter> free_bytes ?h bs = {}" using P bp(1) fb by auto
    ultimately obtain h' bs' where f: "free (p + HDR) ?h = Some h'" "heap_inv h' bs'"
      "free_bytes h' bs' = free_bytes ?h bs \<union> bytes_of ?h p" "unchanged (set (hbase ?h # p # bs)) ?h h'"
      "\<exists>a\<in>set bs'. unat (hsize ?h p) \<le> unat (hsize h' a)"
      using free_spec[OF inv2 _ _ bp(2)] by blast
    have "freep h' \<noteq> 0" using f(2) heap_inv_nodes(4)[OF f(2)] by (auto simp: heap_inv_def)
    moreover have "free_bytes h' bs' = free_bytes h bs \<union> ?N" using f(3) fb bp(1) by simp
    moreover have "\<exists>x\<in>set bs'. n \<le> hsize h' x" using f(5) g(2) by (force simp: word_le_nat_alt)
    moreover have "hbase h' = hbase h" using f(4) S by (simp add: unchanged_def)
    moreover have "hptr h' a = hptr h a \<and> hsize h' a = hsize h a" if "unat a \<notin> free_bytes h bs \<union> ?N" "a \<noteq> hbase h" for a
    proof -
      have "a \<noteq> p" using that(1) g(3) by auto
      moreover have "a \<notin> set bs" using that(1) node_in_free[OF inv] by auto
      ultimately show ?thesis using f(4) that(2) S by (auto simp: unchanged_def)
    qed
    moreover have "morecore sbrk n h = Some (freep h', h')" using mc False f(1) by simp
    ultimately show ?thesis using f(2) P by (intro disjI2 exI[of _ h'] exI[of _ bs'] exI[of _ ?N]) auto
  qed
qed

section \<open>\<open>malloc\<close> and \<open>free\<close>\<close>

lemma init_heap_inv:
  assumes "freep h = 0" "hbase h \<noteq> 0" "unat (hbase h) + 16 \<le> 2 ^ 32"
  shows "heap_inv (init_heap h) []"
  using assms by (simp add: init_heap_def heap_inv_def)

lemma unat_ucast_u32: "unat w < 2 ^ 32 \<Longrightarrow> unat (ucast (w :: u64) :: u32) = unat w"
  by (simp add: unsigned_ucast_eq take_bit_nat_eq_self)

lemma units_nat: "unat (units nbytes) = (unat nbytes + 15) div 16 + 1"
proof -
  have nb: "unat nbytes < 2 ^ 32" using unat_bound[of nbytes] by simp
  have "unat (ucast nbytes + 15 :: u64) = unat nbytes + 15"
    using nb by (subst unat_add_lem[THEN iffD1]) (simp_all add: unat_ucast_u64)
  then have d: "unat ((ucast nbytes + 15 :: u64) div 16) = (unat nbytes + 15) div 16" by (simp add: unat_div)
  have "(unat nbytes + 15) div 16 < 2 ^ 29" using nb by (simp add: div_less_iff_less_mult)
  then have "unat ((ucast nbytes + 15 :: u64) div 16 + 1) = (unat nbytes + 15) div 16 + 1"
    "(unat nbytes + 15) div 16 + 1 < 2 ^ 32"
    using d by (auto simp: unat_add_lem[THEN iffD1])
  moreover have "(ucast nbytes + HDR - 1) div HDR + 1 = (ucast nbytes + 15 :: u64) div 16 + 1" by (simp add: HDR_def add.commute)
  ultimately show ?thesis unfolding units_def using unat_ucast_u32 by metis
qed

lemma units_room: "unat nbytes + 16 \<le> 16 * unat (units nbytes)" "unat nbytes < 2 ^ 31 - 64 \<Longrightarrow> unat (units nbytes) < 2 ^ 27" "0 < unat (units nbytes)"
proof -
  have "unat nbytes + 15 < 16 * Suc ((unat nbytes + 15) div 16)"
    using dividend_less_times_div[of 16 "unat nbytes + 15"] by simp
  then show "unat nbytes + 16 \<le> 16 * unat (units nbytes)" by (simp add: units_nat)
  show "unat nbytes < 2 ^ 31 - 64 \<Longrightarrow> unat (units nbytes) < 2 ^ 27"
    using times_div_less_eq_dividend[of 16 "unat nbytes + 15"] by (simp add: units_nat)
  show "0 < unat (units nbytes)" by (simp add: units_nat)
qed

text \<open>What \<open>malloc\<close> promises of its result \<open>r\<close>; \<open>U\<close> are the bytes in use.\<close>

definition fresh_block :: "u32 \<Rightarrow> nat set \<Rightarrow> u64 \<Rightarrow> 'a heap_scheme \<Rightarrow> u64 list \<Rightarrow> bool" where
  "fresh_block nbytes U r h bs \<longleftrightarrow> unat nbytes + 16 \<le> 16 * unat (hsize h (r - HDR)) \<and>
     bytes_of h (r - HDR) \<inter> (U \<union> free_bytes h bs) = {} \<and>
     (\<exists>h' bs'. free r h = Some h' \<and> heap_inv h' bs' \<and> free_bytes h' bs' = free_bytes h bs \<union> bytes_of h (r - HDR))"

lemma given_fresh:
  assumes "given (units nbytes) h bs bp h' bs'" "free_bytes h bs \<inter> U = {}"
  shows "fresh_block nbytes U (bp + HDR) h' bs'"
proof -
  have g: "heap_inv h' bs'" "hsize h' bp = units nbytes" "bytes_of h' bp \<subseteq> free_bytes h bs"
    "free_bytes h' bs' = free_bytes h bs - bytes_of h' bp" "unat (hbase h') + 16 \<le> unat bp" "bend h' bp \<le> 2 ^ 32"
    using assms(1) by (auto simp: given_def)
  have "0 < unat (hsize h' bp)" "bytes_of h' bp \<inter> free_bytes h' bs' = {}" using g(2,4) units_room(3) by auto
  from free_spec[OF g(1,5) this(1) g(6) this(2)] show ?thesis
    using g units_room(1)[of nbytes] assms(2) by (auto simp: fresh_block_def)
qed

lemma given_result:
  assumes m: "malloc sbrk nbytes h = Some (bp + HDR, h')" and g: "given (units nbytes) h1 bs1 bp h' bs'"
    and f: "free_bytes h1 bs1 \<inter> U = {}" "free_bytes (init_heap h) bs \<subseteq> free_bytes h1 bs1" and b: "hbase h1 = hbase h"
    and u: "\<forall>a. unat a \<in> U \<and> a \<noteq> hbase h \<longrightarrow> hptr h1 a = hptr h a \<and> hsize h1 a = hsize h a"
  shows "\<exists>r h' bs'. malloc sbrk nbytes h = Some (r, h') \<and> heap_inv h' bs' \<and> free_bytes h' bs' \<inter> U = {} \<and>
    (\<forall>a. unat a \<in> U \<and> a \<noteq> hbase h \<longrightarrow> hptr h' a = hptr h a \<and> hsize h' a = hsize h a) \<and>
    (if r = 0 then fst (sbrk (uint (grow_units (units nbytes)) * 16) (init_heap h)) = -1 \<and> bs' = bs
     else fresh_block nbytes U r h' bs' \<and>
       free_bytes (init_heap h) bs \<subseteq> free_bytes h' bs' \<union> bytes_of h' (r - HDR))"
proof -
  have "unat bp \<le> 2 ^ 32" using g by (simp add: given_def bend_def)
  then have "unat (bp + HDR) = unat bp + 16" by (subst unat_add_lem[THEN iffD1]) (simp_all add: HDR_def)
  then have "bp + HDR \<noteq> 0" by auto
  moreover have "hptr h' a = hptr h1 a \<and> hsize h' a = hsize h1 a" if "unat a \<in> U" "a \<noteq> hbase h" for a
    using g f b that by (auto simp: given_def)
  moreover have "heap_inv h' bs'" "free_bytes h' bs' \<inter> U = {}" "free_bytes h1 bs1 \<subseteq> free_bytes h' bs' \<union> bytes_of h' bp"
    using g f by (auto simp: given_def)
  ultimately show ?thesis
    using m u f given_fresh[OF g f(1)] by (intro exI[of _ "bp + HDR"] exI[of _ h'] exI[of _ bs']) auto
qed

text \<open>
  C35: for less than \<open>2 ^ 31 - 64\<close> bytes \<open>malloc\<close> ends. It returns 0 only when the system refuses more memory; otherwise a block with room
  for the bytes and its header that overlaps no byte in use and no free block, and \<open>free\<close> of it ends and makes exactly its bytes free again. The free list
  stays a well-formed ring of disjoint blocks, apart from what is in use, no free byte is lost, and the headers of blocks in use are
  not touched.
\<close>

theorem malloc_gives_fresh_block:
  assumes "heap_inv (init_heap h) bs" "free_bytes (init_heap h) bs \<inter> U = {}" "unat nbytes < 2 ^ 31 - 64"
    and "sbrk_gives sbrk (init_heap h) (free_bytes (init_heap h) bs \<union> U) (uint (grow_units (units nbytes)) * 16)"
  shows "\<exists>r h' bs'. malloc sbrk nbytes h = Some (r, h') \<and> heap_inv h' bs' \<and> free_bytes h' bs' \<inter> U = {} \<and>
    (\<forall>a. unat a \<in> U \<and> a \<noteq> hbase h \<longrightarrow> hptr h' a = hptr h a \<and> hsize h' a = hsize h a) \<and>
    (if r = 0 then fst (sbrk (uint (grow_units (units nbytes)) * 16) (init_heap h)) = -1 \<and> bs' = bs
     else fresh_block nbytes U r h' bs' \<and>
       free_bytes (init_heap h) bs \<subseteq> free_bytes h' bs' \<union> bytes_of h' (r - HDR))"
proof -
  let ?h = "init_heap h" and ?n = "units nbytes"
  have b: "hbase ?h = hbase h" by (simp add: init_heap_def)
  have ih: "hptr ?h a = hptr h a \<and> hsize ?h a = hsize h a" if "a \<noteq> hbase h" for a using that by (simp add: init_heap_def)
  have m: "malloc sbrk nbytes h = malloc_loop sbrk ?n (freep ?h) (hptr ?h (freep ?h)) ?h" by (simp add: malloc_def Let_def)
  show ?thesis
  proof (cases "\<exists>x\<in>set bs. ?n \<le> hsize ?h x")
    case True
    from malloc_loop_found[OF assms(1) units_room(3) this, of sbrk] obtain bp h' bs' where
      "malloc sbrk nbytes h = Some (bp + HDR, h')" "given ?n ?h bs bp h' bs'" unfolding m by blast
    then show ?thesis by (rule given_result) (use assms(2) b ih in auto)
  next
    case False
    obtain ws where ws: "path ?h (hptr ?h (freep ?h)) (ws @ [freep ?h]) (hptr ?h (freep ?h))" "freep ?h \<notin> set ws"
      "set (ws @ [freep ?h]) = set (hbase ?h # bs)" using ring_from_freep[OF assms(1)] by blast
    have "\<not> ?n \<le> hsize ?h (hbase ?h)"
      using assms(1) units_room(3)[of nbytes] by (simp add: heap_inv_def word_le_nat_alt)
    then have "\<forall>x\<in>set (ws @ [freep ?h]). \<not> ?n \<le> hsize ?h x" unfolding ws(3) using False by auto
    note M = m[unfolded search_none[OF ws(1,2) this, of sbrk "freep ?h"]]
    from morecore_spec[OF assms(1) units_room(2)[OF assms(3)] assms(4)] show ?thesis
    proof (elim disjE exE conjE)
      fix h' assume "fst (sbrk (uint (grow_units ?n) * 16) ?h) = -1" "morecore sbrk ?n ?h = Some (0, h')"
        "heap_inv h' bs" "hptr h' = hptr ?h" "hsize h' = hsize ?h"
      then show ?thesis
        using M assms(2) ih heap_cong[of h' ?h] by (intro exI[of _ 0] exI[of _ h'] exI[of _ bs]) simp
    next
      fix h1 bs1 N assume r: "morecore sbrk ?n ?h = Some (freep h1, h1)" "freep h1 \<noteq> 0" "heap_inv h1 bs1"
        "free_bytes h1 bs1 = free_bytes ?h bs \<union> N" "N \<inter> U = {}" "\<exists>x\<in>set bs1. ?n \<le> hsize h1 x" "hbase h1 = hbase ?h"
        "\<forall>a. unat a \<notin> free_bytes ?h bs \<union> N \<and> a \<noteq> hbase ?h \<longrightarrow> hptr h1 a = hptr ?h a \<and> hsize h1 a = hsize ?h a"
      from malloc_loop_found[OF r(3) units_room(3) r(6), of sbrk] obtain bp h' bs' where
        g: "malloc_loop sbrk ?n (freep h1) (hptr h1 (freep h1)) h1 = Some (bp + HDR, h')" "given ?n h1 bs1 bp h' bs'" by blast
      have "malloc sbrk nbytes h = Some (bp + HDR, h')" using M r(1,2) g(1) by simp
      then show ?thesis using g(2)
      proof (rule given_result)
        show "\<forall>a. unat a \<in> U \<and> a \<noteq> hbase h \<longrightarrow> hptr h1 a = hptr h a \<and> hsize h1 a = hsize h a"
          using r(5,8) assms(2) b ih by (metis Int_iff Un_iff empty_iff)
      qed (use r assms(2) b in auto)
    qed
  qed
qed

definition heap0 :: heap where
  "heap0 = \<lparr>hptr = (\<lambda>_. 0), hsize = (\<lambda>_. 0), freep = 0, hbase = 0x1000\<rparr>"

definition sbrk0 :: "unit sbrk_fn" where
  "sbrk0 k h = (0x4000, h)"

theorem malloc_gives_fresh_block_witness:
  "\<exists>r h' bs'. malloc sbrk0 100 heap0 = Some (r, h') \<and> r \<noteq> 0 \<and> fresh_block 100 {0x2000..<0x2100} r h' bs'"
proof -
  have i: "heap_inv (init_heap heap0) []" by (rule init_heap_inv) (simp_all add: heap0_def)
  have f: "free_bytes (init_heap heap0) [] = {}" by (simp add: free_bytes_def)
  have "units 100 = 8" by (simp add: word_unat_eq_iff units_nat)
  then have g: "grow_units (units 100) = 4096" by (simp add: grow_units_def)
  have s: "sbrk_gives sbrk0 (init_heap heap0) ({} \<union> {0x2000..<0x2100}) (uint (grow_units (units 100)) * 16)"
    by (auto simp: sbrk_gives_def sbrk0_def g init_heap_def heap0_def)
  show ?thesis
    using malloc_gives_fresh_block[OF i, of "{0x2000..<0x2100}" 100 sbrk0] s
    by (auto simp: f sbrk0_def split: if_splits)
qed

text \<open>
  The limit is real: for two gigabytes the product of units and header size does not fit into the \<open>int\<close> that \<open>sbrk\<close> takes, and
  \<open>morecore\<close> asks for a negative amount.
\<close>

lemma morecore_negative: "c_int (uint (grow_units (units 0x80000000)) * 16) = - (2 ^ 31) + 16"
proof -
  have "units 0x80000000 = 0x8000001" by (simp add: word_unat_eq_iff units_nat)
  then have "grow_units (units 0x80000000) = 0x8000001" by (simp add: grow_units_def)
  then show ?thesis by (simp add: c_int_def)
qed

end
