(* ===== verification/Printf.thy ===== *)
theory Printf
  imports Ulib
begin

text \<open>
  Formatted output of the kernel (\<open>xv6-lab-traps/printf.c\<close>) with \<open>panic\<close> and \<open>backtrace\<close>. The console and the lock are arguments:
  \<open>put\<close> is \<open>consputc\<close>, \<open>acq\<close> and \<open>rel\<close> take and release the lock. Characters are bytes. The local buffer of \<open>printint\<close> has sixteen
  bytes, and writing past it is a fault. An argument of \<open>printf\<close> that is missing or of another type than the format asks for
  is undefined in C and a fault here.
\<close>

record 's console =
  put :: "u8 \<Rightarrow> 's \<Rightarrow> 's"
  acq :: "'s \<Rightarrow> 's"
  rel :: "'s \<Rightarrow> 's"

record 's printer =
  locking :: bool
  panicked :: bool
  dev :: 's

datatype arg = ArgInt int | ArgPtr u64 | ArgStr "u8 list option"

definition bytes :: "string \<Rightarrow> u8 list" where
  "bytes s = map (\<lambda>c. of_nat (of_char c)) s"

definition digit_chars :: "u8 list" where
  "digit_chars = bytes ''0123456789abcdef''"

definition bufsize :: nat where "bufsize = 16"

definition consputc :: "'s console \<Rightarrow> u8 \<Rightarrow> 's printer \<Rightarrow> 's printer" where
  "consputc C c s = s\<lparr>dev := put C c (dev s)\<rparr>"

section \<open>Numbers\<close>

fun digits_loop :: "nat \<Rightarrow> u32 \<Rightarrow> u32 \<Rightarrow> u8 list \<Rightarrow> u8 list res" where
  "digits_loop 0 x base buf = Inl Fault"
| "digits_loop (Suc room) x base buf =
     (let buf' = buf @ [digit_chars ! unat (x mod base)] in
      if x div base \<noteq> 0 then digits_loop room (x div base) base buf' else Inr buf')"

definition printint :: "'s console \<Rightarrow> int \<Rightarrow> int \<Rightarrow> bool \<Rightarrow> 's printer \<Rightarrow> 's printer res" where
  "printint C xx base sign s =
     (let neg = (sign \<and> xx < 0);
          x = (if neg then word_of_int (- xx) else word_of_int xx :: u32) in
      bindR (digits_loop bufsize x (word_of_int base) []) (\<lambda>buf.
      bindR (if neg then (if length buf < bufsize then Inr (buf @ bytes ''-'') else Inl Fault) else Inr buf) (\<lambda>buf.
        Inr (fold (consputc C) (rev buf) s))))"

fun printptr_loop :: "'s console \<Rightarrow> nat \<Rightarrow> u64 \<Rightarrow> 's printer \<Rightarrow> 's printer" where
  "printptr_loop C 0 x s = s"
| "printptr_loop C (Suc n) x s =
     printptr_loop C n (push_bit 4 x) (consputc C (digit_chars ! unat (drop_bit (64 - 4) x)) s)"

definition printptr :: "'s console \<Rightarrow> u64 \<Rightarrow> 's printer \<Rightarrow> 's printer" where
  "printptr C x s = printptr_loop C 16 x (fold (consputc C) (bytes ''0x'') s)"

section \<open>Formats\<close>

definition printstr :: "'s console \<Rightarrow> u8 list option \<Rightarrow> 's printer \<Rightarrow> 's printer" where
  "printstr C str s =
     fold (consputc C) (takeWhile (\<lambda>c. c \<noteq> 0) (case str of None \<Rightarrow> bytes ''(null)'' | Some t \<Rightarrow> t)) s"

fun print_conv :: "'s console \<Rightarrow> u8 \<Rightarrow> arg list \<Rightarrow> 's printer \<Rightarrow> (arg list \<times> 's printer) res" where
  "print_conv C c args s =
     (if c = 100 then (case args of ArgInt n # as \<Rightarrow> bindR (printint C n 10 True s) (\<lambda>s'. Inr (as, s')) | _ \<Rightarrow> Inl Fault)
      else if c = 120 then (case args of ArgInt n # as \<Rightarrow> bindR (printint C n 16 True s) (\<lambda>s'. Inr (as, s')) | _ \<Rightarrow> Inl Fault)
      else if c = 112 then (case args of ArgPtr x # as \<Rightarrow> Inr (as, printptr C x s) | _ \<Rightarrow> Inl Fault)
      else if c = 115 then (case args of ArgStr t # as \<Rightarrow> Inr (as, printstr C t s) | _ \<Rightarrow> Inl Fault)
      else if c = 37 then Inr (args, consputc C 37 s)
      else Inr (args, consputc C c (consputc C 37 s)))"

fun printf_loop :: "'s console \<Rightarrow> u8 list \<Rightarrow> arg list \<Rightarrow> 's printer \<Rightarrow> 's printer res" where
  "printf_loop C [] args s = Inr s"
| "printf_loop C [c] args s = (if c = 0 \<or> c = 37 then Inr s else Inr (consputc C c s))"
| "printf_loop C (c # d # fmt) args s =
     (if c = 0 then Inr s
      else if c \<noteq> 37 then printf_loop C (d # fmt) args (consputc C c s)
      else if d = 0 then Inr s
      else bindR (print_conv C d args s) (\<lambda>(args', s'). printf_loop C fmt args' s'))"

definition printf :: "'s console \<Rightarrow> u8 list option \<Rightarrow> arg list \<Rightarrow> 's printer \<Rightarrow> 's printer res" where
  "printf C fmt args s =
     (let lk = locking s; s1 = (if lk then s\<lparr>dev := acq C (dev s)\<rparr> else s) in
      case fmt of None \<Rightarrow> Inl (Panic ''null fmt'')
      | Some f \<Rightarrow> bindR (printf_loop C f args s1) (\<lambda>s2.
          Inr (if lk then s2\<lparr>dev := rel C (dev s2)\<rparr> else s2)))"

text \<open>The state in which \<open>panic\<close> loops for ever.\<close>

definition panic :: "'s console \<Rightarrow> u8 list \<Rightarrow> 's printer \<Rightarrow> 's printer res" where
  "panic C msg s =
     bindR (printf C (Some (bytes ''panic: '')) [] (s\<lparr>locking := False\<rparr>)) (\<lambda>s1.
     bindR (printf C (Some msg) [] s1) (\<lambda>s2.
     bindR (printf C (Some [10]) [] s2) (\<lambda>s3. Inr (s3\<lparr>panicked := True\<rparr>))))"

definition printfinit :: "'s printer \<Rightarrow> 's printer" where
  "printfinit s = s\<lparr>locking := True\<rparr>"

section \<open>Backtrace\<close>

partial_function (option) backtrace_loop :: "'s console \<Rightarrow> memory \<Rightarrow> u64 \<Rightarrow> u64 \<Rightarrow> 's printer \<Rightarrow> 's printer res option" where
  "backtrace_loop C m fp KernelTop s =
     (if fp < KernelTop
      then (case printf C (Some (bytes ''%p'' @ [10])) [ArgPtr (load64 m (fp - 8))] s of
          Inl e \<Rightarrow> Some (Inl e)
        | Inr s' \<Rightarrow> backtrace_loop C m (load64 m (fp - 16)) KernelTop s')
      else Some (Inr s))"

definition backtrace :: "'s console \<Rightarrow> memory \<Rightarrow> u64 \<Rightarrow> 's printer \<Rightarrow> 's printer res option" where
  "backtrace C m r_fp s =
     (case printf C (Some (bytes ''backtrace:'' @ [10])) [] s of
        Inl e \<Rightarrow> Some (Inl e)
      | Inr s1 \<Rightarrow> backtrace_loop C m r_fp (PGROUNDDOWN r_fp + PGSIZE) s1)"

section \<open>What is printed\<close>

fun show_base :: "nat \<Rightarrow> nat \<Rightarrow> u8 list" where
  "show_base b n = (if n < b \<or> b < 2 then [digit_chars ! n] else show_base b (n div b) @ [digit_chars ! (n mod b)])"

declare show_base.simps [simp del]

lemma length_show_base: "2 \<le> b \<Longrightarrow> n < b ^ Suc k \<Longrightarrow> length (show_base b n) \<le> Suc k"
proof (induction k arbitrary: n)
  case 0
  then show ?case by (simp add: show_base.simps)
next
  case (Suc k)
  have "n div b < b ^ Suc k"
    using Suc.prems by (simp add: div_less_iff_less_mult mult.commute)
  from Suc.IH[OF Suc.prems(1) this] show ?case by (subst show_base.simps) auto
qed

lemma digits_loop_show:
  assumes "2 \<le> unat base" "length (show_base (unat base) (unat x)) \<le> room"
  shows "digits_loop room x base buf = Inr (buf @ rev (show_base (unat base) (unat x)))"
  using assms(2)
proof (induction room arbitrary: x buf)
  case 0
  then show ?case by (subst (asm) show_base.simps) (auto split: if_splits)
next
  case (Suc room)
  have z: "x div base = 0 \<longleftrightarrow> unat x < unat base"
    using assms(1) by (auto simp: word_unat_eq_iff unat_div div_eq_0_iff)
  show ?case
  proof (cases "unat x < unat base")
    case True
    then show ?thesis using z by (simp add: show_base.simps[of _ "unat x"] unat_mod Let_def)
  next
    case False
    then have sb: "show_base (unat base) (unat x) =
        show_base (unat base) (unat (x div base)) @ [digit_chars ! (unat x mod unat base)]"
      using assms(1) by (subst show_base.simps) (simp add: unat_div)
    with Suc.prems have "length (show_base (unat base) (unat (x div base))) \<le> room" by simp
    from Suc.IH[OF this] z False show ?thesis by (simp add: sb unat_mod Let_def)
  qed
qed

lemma fold_rev_append: "fold f (rev (rev xs)) s = fold f xs s" by simp

text \<open>
  \<open>printint\<close> in base 10 with a sign, for every \<open>int\<close>: the sign and the decimal digits of the absolute value. The buffer is never
  too small.
\<close>

definition decimal :: "int \<Rightarrow> u8 list" where
  "decimal n = (if n < 0 then bytes ''-'' else []) @ show_base 10 (nat \<bar>n\<bar>)"

lemma length_decimal: "- (2 ^ 31) \<le> n \<Longrightarrow> n < 2 ^ 31 \<Longrightarrow> length (show_base 10 (nat \<bar>n\<bar>)) \<le> 10"
proof -
  assume "- (2 ^ 31) \<le> n" "n < 2 ^ 31"
  then have "nat \<bar>n\<bar> < 10 ^ Suc 9" by auto
  then have "length (show_base 10 (nat \<bar>n\<bar>)) \<le> Suc 9" by (intro length_show_base) simp_all
  then show ?thesis by simp
qed

lemma unat_word_of_int: "0 \<le> k \<Longrightarrow> k < 2 ^ 32 \<Longrightarrow> unat (word_of_int k :: u32) = nat k"
  by (simp add: unsigned_of_int take_bit_int_eq_self)

lemma printint_decimal:
  assumes "- (2 ^ 31) \<le> n" "n < 2 ^ 31"
  shows "printint C n 10 True s = Inr (fold (consputc C) (decimal n) s)"
proof -
  let ?x = "if n < 0 then word_of_int (- n) else word_of_int n :: u32"
  have x: "unat ?x = nat \<bar>n\<bar>"
    using assms unat_word_of_int[of n] unat_word_of_int[of "- n"] by (auto simp del: of_int_minus)
  have "digits_loop bufsize ?x 10 [] = Inr ([] @ rev (show_base (unat (10 :: u32)) (unat ?x)))"
    using length_decimal[OF assms] by (intro digits_loop_show) (simp_all add: x bufsize_def)
  then have d: "digits_loop bufsize ?x 10 [] = Inr (rev (show_base 10 (nat \<bar>n\<bar>)))" by (simp add: x)
  show ?thesis
    using d length_decimal[OF assms]
    by (cases "n < 0") (simp_all add: printint_def Let_def decimal_def bufsize_def bytes_def)
qed

lemma digit_chars_eq: "digit_chars = [48, 49, 50, 51, 52, 53, 54, 55, 56, 57, 97, 98, 99, 100, 101, 102]"
  by (simp add: digit_chars_def bytes_def of_char_def)

lemma digit_chars_simps: "n < 10 \<Longrightarrow> unat (digit_chars ! n) = 48 + n"
proof -
  assume "n < 10"
  then consider "n = 0" | "n = 1" | "n = 2" | "n = 3" | "n = 4" | "n = 5" | "n = 6" | "n = 7" | "n = 8" | "n = 9"
    by (atomize_elim, arith)
  then show ?thesis by cases (simp_all add: digit_chars_eq)
qed

lemma digits_show: "\<forall>d\<in>set (show_base 10 n). is_digit d \<and> d \<noteq> 0"
proof (induction n rule: less_induct)
  case (less n)
  have "is_digit (digit_chars ! k) \<and> digit_chars ! k \<noteq> 0" if "k < 10" for k
    using digit_chars_simps[OF that] that unfolding is_digit_def uint_nat word_unat_eq_iff by simp
  then show ?case using less[of "n div 10"] by (subst show_base.simps) auto
qed

lemma dvalue_show: "dvalue 0 (show_base 10 n) = n"
proof (induction n rule: less_induct)
  case (less n)
  then show ?case
    using less[of "n div 10"] digit_chars_simps[of "n mod 10"] digit_chars_simps[of n]
    by (subst show_base.simps) (auto simp: dvalue_append)
qed


definition console0 :: "u8 list console" where
  "console0 = \<lparr>put = (\<lambda>c out. out @ [c]), acq = id, rel = id\<rparr>"

definition printer0 :: "u8 list printer" where
  "printer0 = \<lparr>locking = True, panicked = False, dev = []\<rparr>"


section \<open>Pointers and strings\<close>

definition hexptr :: "u64 \<Rightarrow> u8 list" where
  "hexptr x = bytes ''0x'' @ map (\<lambda>i. digit_chars ! (unat x div 16 ^ (15 - i) mod 16)) [0..<16]"

lemma printptr_loop_digits:
  "printptr_loop C n x s = fold (consputc C) (map (\<lambda>i. digit_chars ! unat (drop_bit 60 (push_bit (4 * i) x))) [0..<n]) s"
proof (induction n arbitrary: x s)
  case (Suc n)
  have "[0..<Suc n] = 0 # map Suc [0..<n]" by (simp add: upt_conv_Cons map_Suc_upt del: upt_Suc)
  then show ?case using Suc.IH[of "push_bit 4 x"] by (simp add: o_def add.commute del: upt_Suc)
qed simp

lemma nibble: "i < 16 \<Longrightarrow> unat (drop_bit 60 (push_bit (4 * i) x)) = unat x div 16 ^ (15 - i) mod 16" for x :: u64
proof -
  assume i: "i < 16"
  have "unat (drop_bit 60 (push_bit (4 * i) x)) = take_bit 4 (drop_bit (4 * (15 - i)) (unat x))"
  proof (rule bit_eqI)
    fix n
    have "60 + n - 4 * i = 4 * (15 - i) + n" "4 * i \<le> 60 + n" using i by auto
    then show "bit (unat (drop_bit 60 (push_bit (4 * i) x))) n = bit (take_bit 4 (drop_bit (4 * (15 - i)) (unat x))) n"
      using i by (auto simp: bit_simps ac_simps dest: bit_imp_le_length)
  qed
  then show ?thesis by (simp add: take_bit_eq_mod drop_bit_eq_div power_mult)
qed

lemma printptr_hex: "printptr C x s = fold (consputc C) (hexptr x) s"
proof -
  have "map (\<lambda>i. digit_chars ! unat (drop_bit 60 (push_bit (4 * i) x))) [0..<16] =
      map (\<lambda>i. digit_chars ! (unat x div 16 ^ (15 - i) mod 16)) [0..<16]"
    by (rule map_cong) (simp_all add: nibble)
  then show ?thesis by (simp only: printptr_def hexptr_def printptr_loop_digits fold_append o_apply)
qed

text \<open>Output under the lock, when locking is on.\<close>

definition print_locked :: "'s console \<Rightarrow> u8 list \<Rightarrow> 's printer \<Rightarrow> 's printer" where
  "print_locked C bs s =
     (if locking s then (let s' = fold (consputc C) bs (s\<lparr>dev := acq C (dev s)\<rparr>) in s'\<lparr>dev := rel C (dev s')\<rparr>)
      else fold (consputc C) bs s)"

lemma printf_plain: "0 \<notin> set f \<Longrightarrow> 37 \<notin> set f \<Longrightarrow> printf_loop C f args s = Inr (fold (consputc C) f s)"
  by (induction C f args s rule: printf_loop.induct) auto

lemma printf_text: "0 \<notin> set f \<Longrightarrow> 37 \<notin> set f \<Longrightarrow> printf C (Some f) args s = Inr (print_locked C f s)"
  by (simp add: printf_def print_locked_def printf_plain Let_def)

lemma printf_pointer: "printf C (Some (bytes ''%p'' @ [10])) [ArgPtr x] s = Inr (print_locked C (hexptr x @ [10]) s)"
  by (simp add: printf_def print_locked_def bytes_def of_char_def printptr_hex Let_def)

section \<open>Backtraces\<close>

text \<open>The frames of a stack: return addresses and saved frame pointers, up to the end of the page.\<close>

primrec frames_to :: "memory \<Rightarrow> u64 \<Rightarrow> u64 \<Rightarrow> u64 list \<Rightarrow> bool" where
  "frames_to m KernelTop fp [] \<longleftrightarrow> KernelTop \<le> fp"
| "frames_to m KernelTop fp (ra # ras) \<longleftrightarrow>
     fp < KernelTop \<and> load64 m (fp - 8) = ra \<and> frames_to m KernelTop (load64 m (fp - 16)) ras"

lemma backtrace_loop_frames:
  "frames_to m KernelTop fp ras \<Longrightarrow>
     backtrace_loop C m fp KernelTop s = Some (Inr (fold (\<lambda>ra. print_locked C (hexptr ra @ [10])) ras s))"
proof (induction ras arbitrary: fp s)
  case Nil
  then show ?case by (subst backtrace_loop.simps) (simp add: leD)
next
  case (Cons ra ras)
  then show ?case by (subst backtrace_loop.simps) (auto simp: printf_pointer)
qed

text \<open>Frame pointers that grow, as on a stack that grows downwards, end the loop.\<close>

lemma frames_to_exists:
  assumes "\<And>fp. fp < KernelTop \<Longrightarrow> fp < load64 m (fp - 16)"
  shows "\<exists>ras. frames_to m KernelTop fp ras"
proof (induction "unat KernelTop - unat fp" arbitrary: fp rule: less_induct)
  case less
  show ?case
  proof (cases "fp < KernelTop")
    case True
    let ?fp = "load64 m (fp - 16)"
    have "unat KernelTop - unat ?fp < unat KernelTop - unat fp"
      using assms[OF True] True unfolding word_less_nat_alt by simp
    from less[OF this] obtain ras where "frames_to m KernelTop ?fp ras" by blast
    with True show ?thesis by (intro exI[of _ "load64 m (fp - 8) # ras"]) simp
  next
    case False
    then show ?thesis by (intro exI[of _ "[]"]) (simp add: not_less)
  qed
qed

text \<open>
  On a stack whose chain of frames leads out of the page \<open>backtrace\<close> ends, and prints one line for every frame, from the
  innermost to the outermost: the return address with sixteen hexadecimal digits.
\<close>

theorem backtrace_prints_frames:
  assumes "frames_to m (PGROUNDDOWN r_fp + PGSIZE) r_fp ras"
  shows "backtrace C m r_fp s = Some (Inr (fold (\<lambda>ra. print_locked C (hexptr ra @ [10])) ras
      (print_locked C (bytes ''backtrace:'' @ [10]) s)))"
proof -
  have "printf C (Some (bytes ''backtrace:'' @ [10])) [] s = Inr (print_locked C (bytes ''backtrace:'' @ [10]) s)"
    by (rule printf_text) (simp_all add: bytes_def of_char_def)
  with backtrace_loop_frames[OF assms] show ?thesis by (simp add: backtrace_def)
qed

definition stack2 :: memory where
  "stack2 = store64 (store64 (store64 (store64 (\<lambda>_. 0) 0x5fc8 0x80002222) 0x5fc0 0x5ff0) 0x5fe8 0x80001234) 0x5fe0 0x6000"

theorem backtrace_prints_frames_witness:
  "backtrace console0 stack2 0x5fd0 printer0 = Some (Inr (print_locked console0 (hexptr 0x80001234 @ [10])
     (print_locked console0 (hexptr 0x80002222 @ [10]) (print_locked console0 (bytes ''backtrace:'' @ [10]) printer0))))"
proof -
  have al: "aligned8 0x5fe8" "aligned8 0x5fe0" "aligned8 0x5fc8" "aligned8 0x5fc0" by (simp_all add: aligned8_def)
  have "PGROUNDDOWN 0x5fd0 + PGSIZE = 0x6000" by (simp add: PGROUNDDOWN_def PGSIZE_def)
  moreover have "load64 stack2 0x5fc8 = 0x80002222" "load64 stack2 0x5fc0 = 0x5ff0"
    "load64 stack2 0x5fe8 = 0x80001234" "load64 stack2 0x5fe0 = 0x6000"
    by (simp_all add: stack2_def mem_simps load64_store64_other al)
  ultimately have "frames_to stack2 (PGROUNDDOWN 0x5fd0 + PGSIZE) 0x5fd0 [0x80002222, 0x80001234]" by simp
  from backtrace_prints_frames[OF this, of console0 printer0] show ?thesis by simp
qed

end
