(* ===== verification/Spec2Isabelle.thy ===== *)
theory Spec2Isabelle
  imports AllocProps PgAccess KvmProps BioProps FsProps SysfileProps MmapProps Ph Barrier Uthread E1000Props UtilitiesProps UmallocProps Printf
begin

text \<open>
  A verification development for the xv6 labs: the RISC-V teaching kernel xv6 with the solutions of ten
  labs, each in a directory of its own that holds the files the lab changes.

  \<^bold>\<open>The program and its parts.\<close> Physical memory is managed page by page (\<open>kalloc.c\<close>, in three versions: one free list, reference
  counts for copy-on-write, one free list per CPU). Page tables live in pages of that allocator (\<open>vm.c\<close>) and give every
  process an address space; processes are created, scheduled, put to sleep and collected by \<open>proc.c\<close>; traps (\<open>trap.c\<close>)
  enter the kernel, and \<open>syscall.c\<close> dispatches to the handlers in \<open>sysproc.c\<close> and \<open>sysfile.c\<close>. Files are stored in blocks, which reach the
  disk through the buffer cache (\<open>bio.c\<close>); \<open>fs.c\<close> builds inodes, directories and path names on them, \<open>file.c\<close> the table of
  open files, \<open>exec.c\<close> loads programs, \<open>mmap\<close> maps files into memory; \<open>printf.c\<close> writes to the console. Beside the kernel stand the driver of a network
  card, three programs of the multithreading lab, the library of user programs (\<open>ulib.c\<close>, \<open>umalloc.c\<close>) and the small programs of the utilities lab.

  \<^bold>\<open>Conventions.\<close> Machine integers are words of their width (\<open>uint64\<close>, \<open>uint32\<close> and so on, named in \<open>Prelude\<close>).
  A function of the kernel is a function on a state record that returns \<open>fault + 'a\<close>: \<open>Inl\<close> is a panic with its
  message or an invalid access, and \<open>bindR\<close> sequences steps. Failures that the C code reports with a return value are values here too.
  The state grows by record extension: memory and its allocator (\<open>kmem_state\<close>), process table and CPUs, disk and inodes, open files.
  A spinlock protects a region that is one step; where the code gives up a lock in the middle of an operation, the
  operation is an interleaving of such regions (\<open>KallocPercpu\<close>, \<open>BioConc\<close>, \<open>Ph\<close>, \<open>Barrier\<close>).

  \<^bold>\<open>Memory.\<close>
  \<^item> \<open>Prelude\<close>, \<open>Riscv\<close> (\<open>riscv.h\<close>, \<open>memlayout.h\<close>), \<open>PhysMem\<close>: words, results, page and entry geometry, bytes of
    physical memory with loads, stores, \<open>memset\<close> and \<open>memmove\<close>.
  \<^item> \<open>Kalloc\<close> (\<open>xv6-lab-syscalls/kalloc.c\<close>): \<open>kinit\<close>, \<open>freerange\<close>, \<open>kfree\<close>, \<open>kalloc\<close>, \<open>free_mem\<close> on a list threaded through the
    free pages. The locale \<open>page_allocator\<close> is the contract of an allocator: what allocating and freeing do to the set of free
    pages and to the bytes of other pages. It is interpreted on all three allocators (\<open>ka\<close>, \<open>cka\<close>, \<open>pka\<close>).
  \<^item> \<open>KallocCow\<close> (\<open>xv6-labs-cow/kalloc.c\<close>): reference counts. \<open>KallocPercpu\<close> (\<open>xv6-lab-locks/kalloc.c\<close>): one list per CPU with stealing,
    as sequential code and as a step relation of the CPUs' critical regions.
  \<^item> \<open>Vm\<close> (\<open>xv6-lab-pagetables/kernel/vm.c\<close>), with \<open>PageTable\<close> (the tree in memory and its abstract map from pages to entries), \<open>VmFrame\<close> (the
    locale \<open>outside_memory\<close>: a part of the state that the code leaves alone), \<open>VmCorrect\<close> and \<open>VmUnmap\<close> (lemmas in the context of
    \<open>page_allocator\<close>: walking, mapping, unmapping, freeing), \<open>VmCopy\<close> (\<open>copyin\<close>, \<open>copyout\<close>, \<open>copyinstr\<close>), \<open>VmCow\<close> (\<open>xv6-labs-cow/vm.c\<close>,
    \<open>walkcowaddr\<close> of its \<open>trap.c\<close>), \<open>PgAccess\<close> (\<open>sys_pgaccess\<close>). The properties are in \<open>VmProps\<close> and \<open>AllocProps\<close>.
  \<^item> \<open>VmCount\<close> (how many pages a tree of page tables can take, in the context of \<open>page_allocator\<close>), \<open>Kvm\<close> (\<open>kvmmake\<close>, \<open>kvminit\<close>, \<open>kvminithart\<close>: the kernel's
    own page table; interpretation \<open>tf\<close> for the address of the trampoline) and \<open>KvmProps\<close>, which puts the steps of booting memory together.

  \<^bold>\<open>Processes and traps.\<close>
  \<^item> \<open>Proc\<close> (\<open>xv6-lab-syscalls/proc.c\<close>, \<open>proc.h\<close>): every function of the file. \<open>ProcCorrect\<close> has the invariants of scheduling, by rule
    induction on the steps of the kernel, and the effect of each operation on the process table; the address spaces are framed through the
    interpretation \<open>kf\<close>. Properties in \<open>ProcProps\<close>.
  \<^item> \<open>Syscall\<close> (\<open>syscall.c\<close>, \<open>sysproc.c\<close>) and \<open>Trap\<close> (\<open>xv6-lab-traps/trap.c\<close>, \<open>sys_sigalarm\<close>, \<open>sys_sigreturn\<close>); properties in \<open>SysProps\<close>.

  \<^bold>\<open>Files.\<close>
  \<^item> \<open>Bio\<close> (\<open>xv6-lab-locks/bio.c\<close>): thirteen lists of buffers. \<open>BioCorrect\<close> has their invariant, \<open>BioConc\<close> the interleaving of processes in
    \<open>bget\<close> and \<open>brelse\<close>, \<open>BioProps\<close> the properties.
  \<^item> \<open>Bytes\<close>, \<open>Fs\<close> (\<open>xv6-lab-filesystem/fs.c\<close>): every function of the file. \<open>FsCorrect\<close> and \<open>FsInode\<close> treat the free map, the inode table and path names,
    \<open>FsFile\<close> the contents of a file as a function of its blocks, \<open>FsRw\<close> reading and writing as operations on lists of bytes,
    \<open>FsTrunc\<close> truncation, \<open>FsDir\<close> directories. Where bytes come from or go to is an interface: \<open>byte_source\<close> for \<open>writei\<close>
    (interpreted on a local variable, \<open>lsrc\<close>, and on memory, \<open>msrc\<close>) and \<open>byte_sink\<close> for \<open>readi\<close> (a local variable, \<open>lsnk\<close>, and
    user memory, \<open>usnk\<close>), both in \<open>FsIo\<close>. Properties in \<open>FsProps\<close>.
  \<^item> \<open>File\<close> (\<open>xv6-lab-mmap/file.c\<close>) and \<open>Sysfile\<close> (\<open>xv6-lab-filesystem/sysfile.c\<close>). \<open>SysfileCorrect\<close> and \<open>SysfileSteps\<close> prove that
    every call keeps the agreement between descriptors and reference counts; \<open>FsFrame\<close> has the locale \<open>outside_fs\<close> (interpretation
    \<open>ff\<close>; \<open>vf\<close> for the memory part) through which descriptors are seen to be untouched by the layers below.
  \<^item> \<open>Exec\<close> and \<open>ExecCorrect\<close> (\<open>exec.c\<close>); properties of files and \<open>exec\<close> in \<open>SysfileProps\<close>. \<open>Mmap\<close> and \<open>MmapProps\<close>
    (\<open>xv6-lab-mmap\<close>: \<open>sys_mmap\<close>, \<open>sys_munmap\<close>, the page fault of \<open>usertrap\<close>).

  \<^bold>\<open>Console.\<close> \<open>Printf\<close> (\<open>xv6-lab-traps/printf.c\<close>): \<open>printf\<close> with its conversions, \<open>panic\<close>, \<open>backtrace\<close>.

  \<^bold>\<open>Beside the kernel.\<close>
  \<^item> \<open>Ph\<close>, \<open>Barrier\<close>, \<open>Uthread\<close> (\<open>xv6-lab-multithreading\<close>), \<open>E1000\<close> and \<open>E1000Props\<close> (\<open>xv6-lab-net/e1000.c\<close>).
  \<^item> \<open>Ulib\<close> (\<open>xv6-lab-pagetables/user/ulib.c\<close>: strings, blocks of memory, \<open>gets\<close>, \<open>stat\<close>, \<open>atoi\<close>), \<open>Umalloc\<close> and \<open>UmallocProps\<close> (\<open>umalloc.c\<close>: the circular
    free list of \<open>malloc\<close> and \<open>free\<close> and the memory it stands for).
  \<^item> \<open>Utilities\<close> and \<open>UtilitiesProps\<close>: \<open>xargs.c\<close>, \<open>primes.c\<close>, \<open>find.c\<close>, \<open>sleep.c\<close> of \<open>xv6-lab-utilities\<close>, and \<open>trace.c\<close>.

  \<^bold>\<open>What the theorems show.\<close> Allocators neither lose nor duplicate pages, also when CPUs interleave; page table code implements
  a partial map and gives back every page; what is copied out can be copied in; copy-on-write breaks sharing without changing contents. A process runs
  on one CPU exactly when it is RUNNING; \<open>fork\<close>, \<open>exit\<close>, \<open>wait\<close>, \<open>exec\<close> have their specified effect on every branch. A system call
  resumes with its result, an alarm is entered once and undone exactly. A block is in one referenced buffer; \<open>readi\<close> and \<open>writei\<close> implement
  a list of bytes; \<open>itrunc\<close> frees the blocks of a file; directory entries are found again; descriptors and reference counts agree. At boot, \<open>kinit\<close>, \<open>kvminit\<close> and \<open>kvminithart\<close> succeed
  and \<open>satp\<close> names a page table that maps devices, RAM, trampoline and guarded stacks and nothing else. \<open>malloc\<close> returns a block that overlaps nothing in use, and \<open>free\<close> gives
  its bytes back; \<open>memmove\<close> copies overlapping blocks; a printed number is read back by \<open>atoi\<close>. \<open>xargs\<close> runs one command per line, \<open>primes\<close> prints the
  primes, \<open>find\<close> ends on every file system. Where
  the code departs from its purpose the theorem states what it does: truncating a file with a double indirect block faults,
  the alarm saves the trap frame 36 pages away, pages across the border of two CPUs' parts are lost, \<open>munmap\<close> looks at its first slot only,
  the transmit ring is never full, a spurious wakeup breaks the barrier, \<open>malloc\<close> of two gigabytes writes to memory it does not have, \<open>trace\<close> passes
  leftovers of its stack to the command.

  \<^bold>\<open>Bounds and fuel.\<close> Most loops are recursion on a list or a counter of the code. Where the code follows pointers or descends a
  tree the recursion has a bound that the theorems show to be enough: the three levels of a page table (\<open>freewalk\<close>, \<open>vmprint\<close>), \<open>NBUF + 1\<close>
  nodes of a bucket list, the number of pages for the free list (on a well-formed list \<open>free_mem\<close> ends), the ten links that \<open>getsymlink\<close>
  itself allows, the sixteen bytes of the buffer of \<open>printint\<close>. The loops over strings, \<open>find_place\<close>, \<open>malloc_loop\<close>, \<open>backtrace\<close> and the main loop of \<open>xargs\<close> are
  partial functions, and the theorems show that they return. The recursion of \<open>find\<close> has fuel for directories and entries together; enough fuel
  exists on every file system, and more does not change the result. A kernel page table takes at most 136 pages. The loop of \<open>sys_sleep\<close> and of \<open>wait\<close> is one round per wakeup. A \<open>while (1)\<close> of the scheduler, of the hash
  table and of the barrier is a step relation. The number of keys of \<open>Ph\<close> is the length of the list of keys and not fixed.

  \<^bold>\<open>Arguments of the model.\<close> Code that the labs use and do not contain is an argument: the disk driver, the log (its calls are
  recorded), pipes and devices, the console and its lock, the interrupt controller, the layout of ELF headers, packet buffers and the network stack. So are
  the system calls that the user library and the user programs make. What a theorem needs of
  them is a hypothesis of it, and its witness uses a concrete function.

  \<^bold>\<open>Not modelled.\<close> \<open>main.c\<close> and the assembly entry code (a sequence of calls, and saving of registers); the inline assembly of \<open>riscv.h\<close>;
  \<open>pingpong.c\<close> and \<open>sysinfo.c\<close> (a fixed sequence of system calls whose results are printed); the test programs, which state
  expectations and hold no logic of the system; and the files of a lab that repeat those of another: where a lab changes a function, that function is modelled.
\<close>

end
